(* ===== verification/Prelude.thy ===== *)
theory Prelude
  imports Main "HOL-Library.Word" "HOL-Library.Monad_Syntax"
begin

text \<open>
  Shared vocabulary of the development: the widths of the C types of the kernel and of the
  user-space library as word types, the error numbers of \<^verbatim>\<open>kernel/errno.h\<close>, arrays of bytes
  with little-endian access, and the generic lemmas on words, lists and options the component
  theories rely on.

  Calling convention of the models. A function of the source that reads and writes global state
  takes the state and returns it. Where the source may put the calling process to sleep, may run
  forever, or would read outside an object, the model returns an option: \<open>None\<close> is "this call
  does not return here", so a theorem that a call returns \<open>Some\<close> result is a real claim. The
  \<open>do\<close> notation is that of the option type; the state is passed explicitly.
\<close>

unbundle bit_operations_syntax

subsection \<open>C types\<close>

type_synonym u8 = "8 word"
type_synonym u16 = "16 word"
type_synonym u32 = "32 word"
type_synonym u64 = "64 word"

text \<open>An array of bytes. Fixed-size C arrays are total functions; the code's own bounds
  (\<^verbatim>\<open>BSIZE\<close>, \<^verbatim>\<open>PIPESIZE\<close>, ...) say which indices mean something.\<close>

type_synonym bytes = "nat \<Rightarrow> u8"

text \<open>Conversion of an \<^verbatim>\<open>unsigned long\<close> to \<^verbatim>\<open>int\<close>: the low 32 bits, read as two's complement.\<close>

definition int_of_u64 :: "u64 \<Rightarrow> int" where
  "int_of_u64 x = sint (ucast x :: u32)"

text \<open>Conversion to \<^verbatim>\<open>int\<close>, and wrap-around of \<^verbatim>\<open>int\<close> arithmetic.\<close>

definition int32 :: "int \<Rightarrow> int" where
  "int32 x = sint (word_of_int x :: u32)"

lemma int32_range: "- (2 ^ 31) \<le> n \<Longrightarrow> n < 2 ^ 31 \<Longrightarrow> int32 n = n"
  by (simp add: int32_def signed_of_int signed_take_bit_int_eq_self)

subsection \<open>Collections used by the component proofs\<close>

named_theorems word_nat
  \<comment> \<open>moves word arithmetic to the naturals, wrap-around included\<close>
named_theorems frame
  \<comment> \<open>what an operation leaves unchanged\<close>

subsection \<open>Error numbers (kernel/errno.h)\<close>

definition EPERM :: int where "EPERM = 1"
definition ENOENT :: int where "ENOENT = 2"
definition ESRCH :: int where "ESRCH = 3"
definition EINTR :: int where "EINTR = 4"
definition EIO :: int where "EIO = 5"
definition EBADF :: int where "EBADF = 9"
definition ENOMEM :: int where "ENOMEM = 12"
definition EACCES :: int where "EACCES = 13"
definition EFAULT :: int where "EFAULT = 14"
definition EEXIST :: int where "EEXIST = 17"
definition ENOTDIR :: int where "ENOTDIR = 20"
definition EISDIR :: int where "EISDIR = 21"
definition EINVAL :: int where "EINVAL = 22"
definition ENOTTY :: int where "ENOTTY = 25"
definition ENOSPC :: int where "ENOSPC = 28"
definition ENOTEMPTY :: int where "ENOTEMPTY = 39"

lemmas errno_defs =
  EPERM_def ENOENT_def ESRCH_def EINTR_def EIO_def EBADF_def ENOMEM_def EACCES_def EFAULT_def
  EEXIST_def ENOTDIR_def EISDIR_def EINVAL_def ENOTTY_def ENOSPC_def ENOTEMPTY_def

subsection \<open>Words\<close>

lemma and_not_mask_shift: "(x :: 'a::len word) AND NOT (mask n) = push_bit n (drop_bit n x)"
  by (rule bit_word_eqI) (auto simp: bit_simps)

lemma unat_and_mask: "unat ((x :: 'a::len word) AND mask n) = unat x mod 2 ^ n"
proof -
  have "unat (take_bit n x) = take_bit n (unat x)"
    by (rule unsigned_take_bit_eq)
  then show ?thesis
    by (simp add: take_bit_eq_mask [symmetric] take_bit_nat_def)
qed

lemma and_not_mask_minus: "(x :: 'a::len word) AND NOT (mask n) = x - (x AND mask n)"
proof -
  have "push_bit n (drop_bit n x) + take_bit n x = x" by (rule bits_ident)
  then show ?thesis
    unfolding and_not_mask_shift take_bit_eq_mask [symmetric] by (metis add_diff_cancel_right')
qed

lemma unat_and_not_mask: "unat ((x :: 'a::len word) AND NOT (mask n)) = unat x div 2 ^ n * 2 ^ n"
proof -
  have "x AND mask n \<le> x"
    by (simp add: word_le_nat_alt unat_and_mask)
  then have "unat (x AND NOT (mask n)) = unat x - unat x mod 2 ^ n"
    by (simp add: and_not_mask_minus unat_sub unat_and_mask)
  then show ?thesis by (simp add: minus_mod_eq_div_mult)
qed

lemma unat_plus_if_size: "unat (x + y) = unat x + unat y"
  if "unat x + unat y < 2 ^ LENGTH('a)" for x y :: "'a::len word"
  using that by (simp add: unat_word_ariths)

lemma unat_of_nat_small: "n < 2 ^ LENGTH('a) \<Longrightarrow> unat (of_nat n :: 'a::len word) = n"
  by (simp add: unat_of_nat take_bit_nat_eq_self)

lemma word_eq_unatI: "unat x = unat y \<Longrightarrow> x = y" for x y :: "'a::len word"
  by (simp add: word_unat_eq_iff)

declare word_less_nat_alt [word_nat] word_le_nat_alt [word_nat] unat_word_ariths [word_nat]

lemma unat_less_exp: "unat (x :: 'a::len word) < 2 ^ LENGTH('a)"
  by (rule unsigned_less)

lemma unat_ucast: "unat (ucast x :: 'a::len word) = unat x mod 2 ^ LENGTH('a)"
  by (simp add: unsigned_ucast_eq take_bit_nat_def)

lemma sint_small: "unat x < 2 ^ (LENGTH('a) - 1) \<Longrightarrow> sint x = int (unat x)" for x :: "'a::len word"
proof -
  assume less: "unat x < 2 ^ (LENGTH('a) - 1)"
  then have "uint x < 2 ^ (LENGTH('a) - Suc 0)"
    by (metis One_nat_def int_nat_eq of_nat_less_iff of_nat_numeral of_nat_power uint_nat)
  then have "signed_take_bit (LENGTH('a) - Suc 0) (uint x) = uint x"
    by (intro signed_take_bit_int_eq_self) (auto intro: order_trans [of _ 0])
  then show ?thesis by (simp add: sint_uint)
qed

lemma int_of_u64_small: "unat x < 2 ^ 31 \<Longrightarrow> int_of_u64 x = int (unat x)"
  by (simp add: int_of_u64_def sint_small unat_ucast)

lemma multiples_close: "a = b"
  if "n dvd a" "n dvd b" "a \<le> b" "b < a + n" for a b n :: nat
proof (rule ccontr)
  assume "a \<noteq> b"
  with that(3) have "0 < b - a" by simp
  moreover have "n dvd b - a" using that(1,2) by (rule dvd_diff_nat [rotated])
  ultimately have "n \<le> b - a" by (simp add: dvd_imp_le)
  with that(3,4) show False by simp
qed

lemma div_same_block: "a div n = p div n" if "n dvd p" "p \<le> a" "a < p + n" for a p n :: nat
proof -
  note asms = that
  obtain k where p: "p = n * k" using asms(1) by (rule dvdE)
  obtain r where r: "a = n * k + r" "r < n"
    using asms(2,3) p by (metis le_iff_add nat_add_left_cancel_less)
  then show ?thesis using p by simp
qed

lemma div_block_less: "a div n = b div n \<or> a div n < b div n \<Longrightarrow> 0 < n \<Longrightarrow> a < b div n * n + n" for a b n :: nat
  by (metis add.commute dividend_less_div_times less_le_trans mult_le_mono1 nat_add_left_cancel_le
    add_le_mono1 order_le_less)

subsection \<open>Options and lists\<close>

lemma bind_Some_iff: "(x \<bind> f) = Some y \<longleftrightarrow> (\<exists>a. x = Some a \<and> f a = Some y)"
  by (cases x) auto

lemma find_append: "List.find P (xs @ ys) = (case List.find P xs of None \<Rightarrow> List.find P ys | Some x \<Rightarrow> Some x)"
  by (induction xs) auto

lemma insort_split:
  "insort x xs = takeWhile (\<lambda>y. y < x) xs @ x # dropWhile (\<lambda>y. y < x) xs"
  by (induction xs) auto

lemma strict_sorted_insort:
  "sorted_wrt (<) xs \<Longrightarrow> x \<notin> set xs \<Longrightarrow> sorted_wrt (<) (insort x (xs :: 'a::linorder list))"
  by (simp add: strict_sorted_iff sorted_insort distinct_insort)

end
