(* ===== verification/Pmm.thy ===== *)
theory Pmm
  imports Prelude
begin

text \<open>
  The physical page allocator, \<^verbatim>\<open>kernel/pmm.c\<close> with the constants of \<^verbatim>\<open>kernel/board.h\<close> and
  \<^verbatim>\<open>kernel/pmm.h\<close>. Free pages are kept in a singly linked list threaded through the pages
  themselves, so the model has the kernel's memory (the 8-byte words of the direct map, by virtual
  address) and the code's pointer-to-pointer walks (\<open>link\<close>). The abstraction is the sorted list
  of the free pages' physical addresses (\<open>pmm_inv\<close>); every operation is shown to implement its
  counterpart on that list.
\<close>

subsection \<open>Addresses (board.h, pmm.h)\<close>

definition KERNEL_BASE :: u64 where "KERNEL_BASE = 0xFFFF000000000000"
definition RAM_BASE :: u64 where "RAM_BASE = 0x40000000"
definition RAM_SIZE :: u64 where "RAM_SIZE = 0x08000000"
definition PAGE_SIZE :: u64 where "PAGE_SIZE = 4096"

definition PA_TO_VA :: "u64 \<Rightarrow> u64" where "PA_TO_VA pa = pa + KERNEL_BASE"
definition VA_TO_PA :: "u64 \<Rightarrow> u64" where "VA_TO_PA va = va - KERNEL_BASE"

definition PAGE_ALIGN :: "u64 \<Rightarrow> u64" where
  "PAGE_ALIGN addr = (addr + PAGE_SIZE - 1) AND NOT (PAGE_SIZE - 1)"

definition IS_PAGE_ALIGNED :: "u64 \<Rightarrow> bool" where
  "IS_PAGE_ALIGNED addr \<longleftrightarrow> addr AND (PAGE_SIZE - 1) = 0"

definition PMM_INVALID :: u64 where "PMM_INVALID = -1"

subsection \<open>State\<close>

text \<open>\<open>mem\<close> is the kernel's view of memory in aligned 8-byte words; \<^verbatim>\<open>struct run *next\<close> of the
  free page at virtual address \<open>r\<close> is the word at \<open>r\<close>.\<close>

record pmm =
  mem :: "u64 \<Rightarrow> u64"
  freelist :: u64
  free_count :: u64
  reserved_start :: u64
  reserved_end :: u64

text \<open>A \<^verbatim>\<open>struct run **\<close>: the address of the global \<^verbatim>\<open>freelist\<close> or of the \<^verbatim>\<open>next\<close> field of a page.\<close>

datatype link = FreelistHead | NextOf u64

fun link_get :: "pmm \<Rightarrow> link \<Rightarrow> u64" where
  "link_get s FreelistHead = freelist s"
| "link_get s (NextOf r) = mem s r"

fun link_set :: "pmm \<Rightarrow> link \<Rightarrow> u64 \<Rightarrow> pmm" where
  "link_set s FreelistHead v = s\<lparr>freelist := v\<rparr>"
| "link_set s (NextOf r) v = s\<lparr>mem := (mem s)(r := v)\<rparr>"

subsection \<open>Operations\<close>

definition zero_page :: "u64 \<Rightarrow> pmm \<Rightarrow> pmm" where
  "zero_page pa s =
     (let p = PA_TO_VA pa
      in s\<lparr>mem := fold (\<lambda>i m. m(p + 8 * of_nat i := 0)) [0..<unat (PAGE_SIZE div 8)] (mem s)\<rparr>)"

definition pmm_reserve_region :: "u64 \<Rightarrow> u64 \<Rightarrow> pmm \<Rightarrow> pmm" where
  "pmm_reserve_region start stop s =
     s\<lparr>reserved_start := start AND NOT (PAGE_SIZE - 1), reserved_end := PAGE_ALIGN stop\<rparr>"

definition ram_end :: u64 where "ram_end = RAM_BASE + RAM_SIZE"

definition is_reserved :: "pmm \<Rightarrow> u64 \<Rightarrow> bool" where
  "is_reserved s pa \<longleftrightarrow> reserved_start s \<noteq> 0 \<and> pa \<ge> reserved_start s \<and> pa < reserved_end s"

lemma pmm_init_loop_decreases:
  "pa + PAGE_SIZE \<le> ram_end \<Longrightarrow> unat (ram_end - (pa + PAGE_SIZE)) < unat (ram_end - pa)"
proof -
  assume le: "pa + PAGE_SIZE \<le> ram_end"
  let ?x = "ram_end - (pa + PAGE_SIZE)"
  have "unat ?x \<le> unat ram_end"
    using le by (simp add: unat_sub word_le_nat_alt)
  then have "unat (?x + PAGE_SIZE) = unat ?x + unat PAGE_SIZE"
    by (intro unat_plus_if_size) (simp add: ram_end_def RAM_BASE_def RAM_SIZE_def PAGE_SIZE_def)
  moreover have "?x + PAGE_SIZE = ram_end - pa" by simp
  ultimately show ?thesis by (simp add: PAGE_SIZE_def)
qed

function pmm_init_loop :: "u64 \<Rightarrow> link \<Rightarrow> pmm \<Rightarrow> pmm" where
  "pmm_init_loop pa tail s =
     (if pa + PAGE_SIZE \<le> ram_end then
        if is_reserved s pa then pmm_init_loop (pa + PAGE_SIZE) tail s
        else
          let s = zero_page pa s;
              r = PA_TO_VA pa;
              s = link_set s (NextOf r) 0;
              s = link_set s tail r
          in pmm_init_loop (pa + PAGE_SIZE) (NextOf r) (s\<lparr>free_count := free_count s + 1\<rparr>)
      else s)"
  by pat_completeness auto
termination
  by (relation "measure (\<lambda>(pa, tail, s). unat (ram_end - pa))")
    (simp_all only: wf_measure in_measure prod.case pmm_init_loop_decreases)

declare pmm_init_loop.simps [simp del]

text \<open>\<^verbatim>\<open>pmm_init\<close> takes the address of the linker symbol \<^verbatim>\<open>__stack_top\<close>, which the build provides.\<close>

definition pmm_init :: "u64 \<Rightarrow> pmm \<Rightarrow> pmm" where
  "pmm_init stack_top s =
     (let start = PAGE_ALIGN (VA_TO_PA stack_top)
      in pmm_init_loop start FreelistHead (s\<lparr>freelist := 0, free_count := 0\<rparr>))"

definition pmm_alloc :: "pmm \<Rightarrow> u64 \<times> pmm" where
  "pmm_alloc s =
     (let r = freelist s in
      if r = 0 then (PMM_INVALID, s)
      else
        let s = s\<lparr>freelist := link_get s (NextOf r), free_count := free_count s - 1\<rparr>;
            pa = VA_TO_PA r
        in (pa, zero_page pa s))"

partial_function (option) contig_scan ::
  "pmm \<Rightarrow> int \<Rightarrow> link \<Rightarrow> link \<Rightarrow> u64 \<Rightarrow> int \<Rightarrow> (link \<times> u64 \<times> int) option" where
  "contig_scan s n pp run_start base count =
     (if link_get s pp = 0 then Some (run_start, base, count)
      else if count \<ge> n then Some (run_start, base, count)
      else if link_get s (NextOf (link_get s pp)) = 0 then Some (run_start, base, count)
      else if VA_TO_PA (link_get s (NextOf (link_get s pp))) = VA_TO_PA (link_get s pp) + PAGE_SIZE
        then contig_scan s n (NextOf (link_get s pp)) run_start base (count + 1)
      else contig_scan s n (NextOf (link_get s pp)) (NextOf (link_get s pp))
             (VA_TO_PA (link_get s (NextOf (link_get s pp)))) 1)"

fun skip_next :: "pmm \<Rightarrow> nat \<Rightarrow> u64 \<Rightarrow> u64" where
  "skip_next s 0 e = e"
| "skip_next s (Suc i) e = skip_next s i (link_get s (NextOf e))"

definition pmm_alloc_contiguous :: "int \<Rightarrow> pmm \<Rightarrow> (u64 \<times> pmm) option" where
  "pmm_alloc_contiguous n s =
     (if n \<le> 0 then Some (PMM_INVALID, s)
      else if n = 1 then Some (pmm_alloc s)
      else if freelist s = 0 then Some (PMM_INVALID, s)
      else do {
        (run_start, base, count) \<leftarrow>
          contig_scan s n FreelistHead FreelistHead (VA_TO_PA (freelist s)) 1;
        if count < n then Some (PMM_INVALID, s)
        else
          let stop = skip_next s (nat n) (link_get s run_start);
              s = link_set s run_start stop;
              s = s\<lparr>free_count := free_count s - of_int n\<rparr>;
              s = fold (\<lambda>i. zero_page (base + of_nat i * PAGE_SIZE)) [0..<nat n] s
          in Some (base, s)
      })"

partial_function (option) free_pos :: "pmm \<Rightarrow> u64 \<Rightarrow> link \<Rightarrow> link option" where
  "free_pos s r pp =
     (if link_get s pp \<noteq> 0 \<and> link_get s pp < r then free_pos s r (NextOf (link_get s pp))
      else Some pp)"

definition pmm_free :: "u64 \<Rightarrow> pmm \<Rightarrow> pmm option" where
  "pmm_free pa s =
     (if pa < RAM_BASE \<or> pa \<ge> RAM_BASE + RAM_SIZE then Some s
      else if \<not> IS_PAGE_ALIGNED pa then Some s
      else do {
        let r = PA_TO_VA pa;
        pp \<leftarrow> free_pos s r FreelistHead;
        if link_get s pp = r then Some s
        else
          let s = zero_page pa s;
              s = link_set s (NextOf r) (link_get s pp);
              s = link_set s pp r
          in Some (s\<lparr>free_count := free_count s + 1\<rparr>)
      })"

fun pmm_free_loop :: "nat list \<Rightarrow> u64 \<Rightarrow> pmm \<Rightarrow> pmm option" where
  "pmm_free_loop [] pa s = Some s"
| "pmm_free_loop (i # is) pa s =
     do { s \<leftarrow> pmm_free (pa + of_nat i * PAGE_SIZE) s; pmm_free_loop is pa s }"

definition pmm_free_contiguous :: "u64 \<Rightarrow> int \<Rightarrow> pmm \<Rightarrow> pmm option" where
  "pmm_free_contiguous pa n s = pmm_free_loop [0..<nat n] pa s"

definition pmm_free_count :: "pmm \<Rightarrow> u64" where
  "pmm_free_count s = free_count s"

subsection \<open>The free list as a list of pages\<close>

fun chain :: "pmm \<Rightarrow> link \<Rightarrow> u64 list \<Rightarrow> link \<Rightarrow> bool" where
  "chain s l [] l' \<longleftrightarrow> l' = l"
| "chain s l (x # xs) l' \<longleftrightarrow> link_get s l = x \<and> x \<noteq> 0 \<and> chain s (NextOf x) xs l'"

fun runs :: "pmm \<Rightarrow> link \<Rightarrow> u64 list \<Rightarrow> bool" where
  "runs s l [] \<longleftrightarrow> link_get s l = 0"
| "runs s l (x # xs) \<longleftrightarrow> link_get s l = x \<and> x \<noteq> 0 \<and> runs s (NextOf x) xs"

definition page_ok :: "u64 \<Rightarrow> bool" where
  "page_ok pa \<longleftrightarrow> RAM_BASE \<le> pa \<and> pa < RAM_BASE + RAM_SIZE \<and> IS_PAGE_ALIGNED pa"

definition in_page :: "u64 \<Rightarrow> u64 \<Rightarrow> bool" where
  "in_page pa a \<longleftrightarrow> (\<exists>i<512. a = PA_TO_VA pa + 8 * of_nat i)"

definition pmm_inv :: "pmm \<Rightarrow> u64 list \<Rightarrow> bool" where
  "pmm_inv s ps \<longleftrightarrow>
     runs s FreelistHead (map PA_TO_VA ps) \<and> sorted_wrt (<) ps \<and>
     list_all page_ok ps \<and> free_count s = of_nat (length ps)"

subsection \<open>Address arithmetic\<close>

lemmas board_defs = KERNEL_BASE_def RAM_BASE_def RAM_SIZE_def PAGE_SIZE_def

lemma page_mask: "PAGE_SIZE - 1 = mask 12"
  by (simp add: PAGE_SIZE_def mask_eq_exp_minus_1)

lemma aligned_iff: "IS_PAGE_ALIGNED a \<longleftrightarrow> unat a mod 4096 = 0"
proof -
  have "IS_PAGE_ALIGNED a \<longleftrightarrow> unat (a AND mask 12) = 0"
    by (simp add: IS_PAGE_ALIGNED_def page_mask unat_eq_0)
  then show ?thesis by (simp add: unat_and_mask)
qed

lemma page_ok_iff:
  "page_ok pa \<longleftrightarrow> 0x40000000 \<le> unat pa \<and> unat pa < 0x48000000 \<and> unat pa mod 4096 = 0"
  by (simp add: page_ok_def aligned_iff board_defs word_nat)

lemma PA_VA [simp]: "VA_TO_PA (PA_TO_VA pa) = pa" "PA_TO_VA (VA_TO_PA va) = va"
  by (simp_all add: PA_TO_VA_def VA_TO_PA_def)

lemma PA_TO_VA_inject [simp]: "PA_TO_VA p = PA_TO_VA q \<longleftrightarrow> p = q"
  by (simp add: PA_TO_VA_def)

lemma inj_PA_TO_VA [simp]: "inj PA_TO_VA" "inj_on PA_TO_VA A"
  by (auto intro!: injI inj_onI)

lemma unat_PA_TO_VA: "unat p < 2 ^ 48 \<Longrightarrow> unat (PA_TO_VA p) = unat p + 0xFFFF000000000000"
  by (simp add: PA_TO_VA_def KERNEL_BASE_def unat_word_ariths)

lemma unat_PA_TO_VA_ok: "page_ok p \<Longrightarrow> unat (PA_TO_VA p) = unat p + 0xFFFF000000000000"
  by (simp add: unat_PA_TO_VA page_ok_iff)

lemma PA_TO_VA_nonzero [simp]: "page_ok p \<Longrightarrow> PA_TO_VA p \<noteq> 0"
  using unat_PA_TO_VA_ok [of p] by auto

lemma PA_TO_VA_less: "page_ok p \<Longrightarrow> page_ok q \<Longrightarrow> PA_TO_VA p < PA_TO_VA q \<longleftrightarrow> p < q"
  by (simp add: word_less_nat_alt unat_PA_TO_VA_ok)

lemma in_page_self [simp]: "in_page p (PA_TO_VA p)"
  by (auto simp: in_page_def intro: exI [of _ 0])

lemma in_page_bounds:
  assumes "page_ok p" and "in_page p a"
  shows "unat (PA_TO_VA p) \<le> unat a \<and> unat a < unat (PA_TO_VA p) + 4096"
proof -
  from assms(2) obtain i where i: "i < 512" and a: "a = PA_TO_VA p + 8 * of_nat i"
    by (auto simp: in_page_def)
  have e: "8 * of_nat i = (of_nat (8 * i) :: u64)" by simp
  have "unat a = unat (PA_TO_VA p) + 8 * i"
    unfolding a e using i assms(1)
    by (subst unat_plus_if_size)
      (auto simp: unat_of_nat_small unat_PA_TO_VA_ok page_ok_iff simp del: of_nat_mult)
  then show ?thesis using i by simp
qed

lemma in_page_unique:
  assumes "page_ok p" "page_ok q" "in_page p a" "in_page q a"
  shows "p = q"
proof -
  have "4096 dvd unat p" "4096 dvd unat q" using assms(1,2) by (auto simp: page_ok_iff)
  moreover have "unat p < unat q + 4096" "unat q < unat p + 4096"
    using in_page_bounds [OF assms(1,3)] in_page_bounds [OF assms(2,4)] assms(1,2)
    by (simp_all add: unat_PA_TO_VA_ok)
  ultimately have "unat p = unat q"
    using multiples_close [of 4096 "unat p" "unat q"] multiples_close [of 4096 "unat q" "unat p"]
    by linarith
  then show ?thesis by (rule word_eq_unatI)
qed

lemma in_page_eq: "in_page p (PA_TO_VA q) \<Longrightarrow> page_ok p \<Longrightarrow> page_ok q \<Longrightarrow> p = q"
  by (rule in_page_unique [of p q "PA_TO_VA q"]) auto

lemma in_page_other: "page_ok p \<Longrightarrow> page_ok q \<Longrightarrow> p \<noteq> q \<Longrightarrow> \<not> in_page p (PA_TO_VA q)"
  using in_page_eq by blast

subsection \<open>Zeroing\<close>

lemma fold_zero_at:
  "fold (\<lambda>i m. m(f i := (0::u64))) is m a = (if a \<in> f ` set is then 0 else m a)"
  by (induction "is" arbitrary: m) auto

lemma mem_zero_page: "mem (zero_page pa s) a = (if in_page pa a then 0 else mem s a)"
  by (auto simp: zero_page_def fold_zero_at in_page_def PAGE_SIZE_def image_iff Bex_def)

lemma zero_page_fields [simp, frame]:
  "freelist (zero_page pa s) = freelist s" "free_count (zero_page pa s) = free_count s"
  "reserved_start (zero_page pa s) = reserved_start s"
  "reserved_end (zero_page pa s) = reserved_end s"
  by (simp_all add: zero_page_def Let_def)

lemma link_get_zero_page:
  "link_get (zero_page pa s) l = (case l of NextOf r \<Rightarrow> if in_page pa r then 0 else link_get s l
                                            | FreelistHead \<Rightarrow> link_get s l)"
  by (cases l) (simp_all add: mem_zero_page)

lemma link_get_set [simp]:
  "link_get (link_set s l v) k = (if k = l then v else link_get s k)"
  by (cases l; cases k) auto

lemma link_get_free_count [simp]: "link_get (s\<lparr>free_count := n\<rparr>) l = link_get s l"
  by (cases l) auto

lemma link_set_fields [simp, frame]:
  "free_count (link_set s l v) = free_count s"
  "reserved_start (link_set s l v) = reserved_start s"
  "reserved_end (link_set s l v) = reserved_end s"
  by (cases l; simp)+

declare link_get.simps [simp del] link_set.simps [simp del]

lemma link_get_zero_page_NextOf:
  "link_get (zero_page pa s) (NextOf r) = (if in_page pa r then 0 else link_get s (NextOf r))"
  by (simp add: link_get_zero_page)

lemma link_get_zero_page_Head [simp]:
  "link_get (zero_page pa s) FreelistHead = link_get s FreelistHead"
  by (simp add: link_get_zero_page)

subsection \<open>Walking the list\<close>

lemma runs_append: "runs s l (xs @ ys) \<longleftrightarrow> (\<exists>l'. chain s l xs l' \<and> runs s l' ys)"
  by (induction xs arbitrary: l) auto

lemma chain_append: "chain s l (xs @ ys) l' \<longleftrightarrow> (\<exists>k. chain s l xs k \<and> chain s k ys l')"
  by (induction xs arbitrary: l) auto

lemma chain_end: "chain s l xs l' \<Longrightarrow> l' = (if xs = [] then l else NextOf (last xs))"
  by (induction xs arbitrary: l) auto

lemma runs_move:
  "runs s l xs \<Longrightarrow> link_get s' l' = link_get s l \<Longrightarrow>
   \<forall>x\<in>set xs. link_get s' (NextOf x) = link_get s (NextOf x) \<Longrightarrow> runs s' l' xs"
  by (induction xs arbitrary: l l') auto

lemmas runs_frame = runs_move [where l' = l and l = l for l]

lemma chain_frame:
  "chain s l xs l' \<Longrightarrow> distinct xs \<Longrightarrow> l \<notin> NextOf ` set xs \<Longrightarrow>
   \<forall>k\<in>insert l (NextOf ` set xs) - {l'}. link_get s' k = link_get s k \<Longrightarrow> chain s' l xs l'"
proof (induction xs arbitrary: l)
  case (Cons x xs)
  have "l' \<in> NextOf ` set (x # xs)"
    using chain_end [OF Cons.prems(1)] by (metis imageI last_in_set list.distinct(1))
  with Cons.prems have "link_get s' l = x" "x \<noteq> 0" by auto
  moreover have "chain s' (NextOf x) xs l'"
    using Cons.prems by (intro Cons.IH) auto
  ultimately show ?case by simp
qed simp

lemma free_pos_runs:
  assumes "runs s l (map PA_TO_VA ps)" "list_all page_ok ps" "page_ok p"
  shows "\<exists>l'. free_pos s (PA_TO_VA p) l = Some l' \<and>
           chain s l (map PA_TO_VA (takeWhile (\<lambda>x. x < p) ps)) l' \<and>
           runs s l' (map PA_TO_VA (dropWhile (\<lambda>x. x < p) ps))"
  using assms
proof (induction ps arbitrary: l)
  case Nil
  then show ?case by (simp add: free_pos.simps)
next
  case (Cons q ps)
  show ?case
  proof (cases "q < p")
    case True
    with Cons show ?thesis by (simp add: free_pos.simps [of s _ l] PA_TO_VA_less)
  next
    case False
    with Cons show ?thesis by (simp add: free_pos.simps [of s _ l] PA_TO_VA_less)
  qed
qed

lemma pmm_inv_distinct: "pmm_inv s ps \<Longrightarrow> distinct ps"
  by (simp add: pmm_inv_def strict_sorted_iff)

lemma pmm_inv_page_ok: "pmm_inv s ps \<Longrightarrow> p \<in> set ps \<Longrightarrow> page_ok p"
  by (auto simp: pmm_inv_def list_all_iff)

lemma freelist_empty_iff: "pmm_inv s ps \<Longrightarrow> freelist s = 0 \<longleftrightarrow> ps = []"
  by (cases ps) (auto simp: pmm_inv_def link_get.simps)

lemma runs_zero_page:
  assumes "runs s l (map PA_TO_VA ps)" "list_all page_ok ps" "page_ok p" "p \<notin> set ps"
    and "\<forall>r. l = NextOf r \<longrightarrow> \<not> in_page p r"
  shows "runs (zero_page p s) l (map PA_TO_VA ps)"
  using assms(1)
proof (rule runs_frame)
  show "link_get (zero_page p s) l = link_get s l"
    using assms(5) by (simp add: link_get_zero_page split: link.splits)
  show "\<forall>x\<in>set (map PA_TO_VA ps). link_get (zero_page p s) (NextOf x) = link_get s (NextOf x)"
    using assms(2-4) by (auto simp: link_get_zero_page_NextOf list_all_iff dest: in_page_eq)
qed

subsection \<open>Allocation takes the lowest free page\<close>

lemma pmm_alloc_Cons:
  assumes "pmm_inv s (p # ps)"
  shows "fst (pmm_alloc s) = p" and "pmm_inv (snd (pmm_alloc s)) ps"
    and "\<forall>a. in_page p a \<longrightarrow> mem (snd (pmm_alloc s)) a = 0"
    and "\<forall>a. \<not> in_page p a \<longrightarrow> mem (snd (pmm_alloc s)) a = mem s a"
proof -
  let ?t = "s\<lparr>freelist := mem s (PA_TO_VA p), free_count := free_count s - 1\<rparr>"
  have head: "freelist s = PA_TO_VA p" "PA_TO_VA p \<noteq> 0"
    and tl: "runs s (NextOf (PA_TO_VA p)) (map PA_TO_VA ps)"
    and ok: "list_all page_ok ps" "page_ok p" and out: "p \<notin> set ps"
    using assms by (auto simp: pmm_inv_def link_get.simps)
  have eq: "pmm_alloc s = (p, zero_page p ?t)"
    using head by (simp add: pmm_alloc_def link_get.simps Let_def)
  have "runs ?t FreelistHead (map PA_TO_VA ps)"
    by (rule runs_move [OF tl]) (simp_all add: link_get.simps)
  then have "runs (zero_page p ?t) FreelistHead (map PA_TO_VA ps)"
    using ok out by (intro runs_zero_page) auto
  moreover have "free_count s - 1 = of_nat (length ps)"
    using assms by (simp add: pmm_inv_def)
  ultimately show "fst (pmm_alloc s) = p" "pmm_inv (snd (pmm_alloc s)) ps"
    "\<forall>a. in_page p a \<longrightarrow> mem (snd (pmm_alloc s)) a = 0"
    "\<forall>a. \<not> in_page p a \<longrightarrow> mem (snd (pmm_alloc s)) a = mem s a"
    using assms by (simp_all add: eq pmm_inv_def mem_zero_page)
qed

lemma pmm_alloc_Nil: "pmm_inv s [] \<Longrightarrow> pmm_alloc s = (PMM_INVALID, s)"
  by (simp add: pmm_inv_def pmm_alloc_def link_get.simps)

subsection \<open>Freeing inserts in address order\<close>

lemma pmm_free_ignored: "\<not> page_ok pa \<Longrightarrow> pmm_free pa s = Some s"
  by (auto simp: pmm_free_def page_ok_def not_le not_less)

lemma pmm_free_at:
  assumes "page_ok pa" and "free_pos s (PA_TO_VA pa) FreelistHead = Some pp"
  shows "pmm_free pa s =
    Some (if link_get s pp = PA_TO_VA pa then s
          else (link_set (link_set (zero_page pa s) (NextOf (PA_TO_VA pa)) (link_get (zero_page pa s) pp))
                  pp (PA_TO_VA pa))\<lparr>free_count := free_count s + 1\<rparr>)"
proof -
  have "\<not> (pa < RAM_BASE \<or> pa \<ge> RAM_BASE + RAM_SIZE)" "IS_PAGE_ALIGNED pa"
    using assms(1) by (auto simp: page_ok_def)
  with assms(2) show ?thesis by (simp only: pmm_free_def if_False if_True not_True_eq_False) (simp add: Let_def)
qed

lemma pmm_free_present:
  assumes inv: "pmm_inv s ps" and "p \<in> set ps"
  shows "pmm_free p s = Some s"
proof -
  have ok: "page_ok p" using assms by (rule pmm_inv_page_ok)
  obtain l' where l': "free_pos s (PA_TO_VA p) FreelistHead = Some l'"
    "runs s l' (map PA_TO_VA (dropWhile (\<lambda>x. x < p) ps))"
    using free_pos_runs [of s FreelistHead ps p] inv ok by (auto simp: pmm_inv_def)
  obtain xs ys where ps: "ps = xs @ p # ys" using assms(2) by (auto dest: split_list)
  then have "\<forall>x\<in>set xs. x < p" using inv by (auto simp: pmm_inv_def sorted_wrt_append)
  then have "dropWhile (\<lambda>x. x < p) ps = p # ys" unfolding ps by simp
  with l' have "link_get s l' = PA_TO_VA p" by simp
  with l'(1) ok show ?thesis by (simp add: pmm_free_at)
qed

lemma mem_link_set:
  "mem (link_set s l v) a = (if l = NextOf a then v else mem s a)"
  by (cases l) (auto simp: link_set.simps)

lemma pmm_free_insort_frame:
  assumes inv: "pmm_inv s ps" and ok: "page_ok p" and out: "p \<notin> set ps"
  shows "\<exists>s'. pmm_free p s = Some s' \<and> pmm_inv s' (insort p ps) \<and>
    (\<forall>a. (\<forall>q\<in>set (p # ps). \<not> in_page q a) \<longrightarrow> mem s' a = mem s a)"
proof -
  let ?xs = "takeWhile (\<lambda>x. x < p) ps" and ?ys = "dropWhile (\<lambda>x. x < p) ps"
  have oks: "list_all page_ok ?xs" "list_all page_ok ?ys" and outs: "p \<notin> set ?xs" "p \<notin> set ?ys"
    and dist: "distinct (?xs @ ?ys)"
    using inv out pmm_inv_distinct [OF inv]
    by (auto simp: pmm_inv_def list_all_iff dest: set_takeWhileD set_dropWhileD)
  obtain l' where pos: "free_pos s (PA_TO_VA p) FreelistHead = Some l'"
    and ch: "chain s FreelistHead (map PA_TO_VA ?xs) l'" and ru: "runs s l' (map PA_TO_VA ?ys)"
    using free_pos_runs [of s FreelistHead ps p] inv ok by (auto simp: pmm_inv_def)
  have l'_eq: "l' = (if ?xs = [] then FreelistHead else NextOf (PA_TO_VA (last ?xs)))"
    using chain_end [OF ch] by (simp add: last_map split: if_splits)
  then have l'_in: "l' \<in> insert FreelistHead (NextOf ` PA_TO_VA ` set ?xs)"
    using last_in_set [of ?xs] by auto
  let ?z = "zero_page p s"
  let ?s1 = "link_set ?z (NextOf (PA_TO_VA p)) (link_get ?z l')"
  let ?s' = "(link_set ?s1 l' (PA_TO_VA p))\<lparr>free_count := free_count s + 1\<rparr>"
  have zl: "link_get ?z k = link_get s k"
    if "k \<in> insert FreelistHead (NextOf ` PA_TO_VA ` (set ?xs \<union> set ?ys))" for k
  proof -
    have "\<not> in_page p (PA_TO_VA x)" if "x \<in> set ?xs \<union> set ?ys" for x
    proof -
      have "page_ok x" "p \<noteq> x" using that oks outs by (auto simp: list_all_iff)
      with ok show ?thesis by (simp add: in_page_other)
    qed
    with that show ?thesis by (auto simp: link_get_zero_page_NextOf)
  qed
  have "link_get s l' \<noteq> PA_TO_VA p"
    using ru outs ok by (cases ?ys) auto
  then have eq: "pmm_free p s = Some ?s'"
    using ok pos by (simp only: pmm_free_at if_False)
  have c': "chain ?s' FreelistHead (map PA_TO_VA ?xs) l'"
    using ch dist outs by (intro chain_frame [OF ch]) (auto simp: distinct_map zl)
  have l'_ne: "NextOf (PA_TO_VA p) \<noteq> l'" using outs l'_in by auto
  have l'_notin: "l' \<notin> NextOf ` PA_TO_VA ` set ?ys"
    using dist l'_in unfolding distinct_append by auto
  have "runs ?s' (NextOf (PA_TO_VA p)) (map PA_TO_VA ?ys)"
    using ru
  proof (rule runs_move)
    show "link_get ?s' (NextOf (PA_TO_VA p)) = link_get s l'"
      using l'_ne zl [of l'] l'_in by auto
    show "\<forall>x\<in>set (map PA_TO_VA ?ys). link_get ?s' (NextOf x) = link_get s (NextOf x)"
      using l'_notin outs zl by auto
  qed
  then have "runs ?s' l' (map PA_TO_VA (p # ?ys))" using ok by simp
  with c' have "runs ?s' FreelistHead (map PA_TO_VA (?xs @ p # ?ys))"
    unfolding map_append runs_append by blast
  moreover have "sorted_wrt (<) (insort p ps)" "list_all page_ok (insort p ps)"
    using inv out ok by (auto simp: pmm_inv_def strict_sorted_insort list_all_iff set_insort_key)
  ultimately have "pmm_inv ?s' (insort p ps)"
    using inv by (simp add: pmm_inv_def insort_split [symmetric])
  moreover have "mem ?s' a = mem s a" if "\<forall>q\<in>set (p # ps). \<not> in_page q a" for a
  proof -
    have "a \<notin> PA_TO_VA ` set (p # ps)" using that by auto
    moreover have "set ?xs \<subseteq> set ps" by (meson set_takeWhileD subsetI)
    ultimately have "l' \<noteq> NextOf a" "NextOf (PA_TO_VA p) \<noteq> NextOf a" using l'_in by auto
    with that show ?thesis by (simp add: mem_link_set mem_zero_page)
  qed
  ultimately show ?thesis using eq by blast
qed

lemma pmm_free_insort:
  "pmm_inv s ps \<Longrightarrow> page_ok p \<Longrightarrow> p \<notin> set ps \<Longrightarrow>
   \<exists>s'. pmm_free p s = Some s' \<and> pmm_inv s' (insort p ps)"
  using pmm_free_insort_frame by blast

text \<open>Writing outside the free pages keeps the list.\<close>

lemma pmm_inv_mem:
  assumes "pmm_inv s ps" and "\<forall>p\<in>set ps. \<forall>a. in_page p a \<longrightarrow> m a = mem s a"
  shows "pmm_inv (s\<lparr>mem := m\<rparr>) ps"
proof -
  have "runs s FreelistHead (map PA_TO_VA ps)" using assms(1) by (simp add: pmm_inv_def)
  then have "runs (s\<lparr>mem := m\<rparr>) FreelistHead (map PA_TO_VA ps)"
  proof (rule runs_frame)
    show "\<forall>x\<in>set (map PA_TO_VA ps). link_get (s\<lparr>mem := m\<rparr>) (NextOf x) = link_get s (NextOf x)"
      using assms(2) in_page_self by (simp add: link_get.simps)
  qed (simp add: link_get.simps)
  with assms(1) show ?thesis by (simp add: pmm_inv_def)
qed

lemma pmm_inv_store:
  "pmm_inv s ps \<Longrightarrow> \<forall>p\<in>set ps. \<not> in_page p e \<Longrightarrow> pmm_inv (s\<lparr>mem := (mem s)(e := v)\<rparr>) ps"
  by (rule pmm_inv_mem) auto

subsection \<open>Contiguous allocation\<close>

text \<open>The pages \<open>base, base + PAGE_SIZE, ...\<close>, \<open>k\<close> of them.\<close>

definition consec :: "u64 \<Rightarrow> nat \<Rightarrow> u64 list" where
  "consec base k = map (\<lambda>i. base + of_nat i * PAGE_SIZE) [0..<k]"

lemma consec_Suc: "consec base (Suc k) = consec base k @ [base + of_nat k * PAGE_SIZE]"
  by (simp add: consec_def)

lemma length_consec [simp]: "length (consec base k) = k"
  by (simp add: consec_def)

text \<open>No block of \<open>n\<close> consecutive free pages starts at a page of \<open>xs\<close>.\<close>

definition blocked :: "nat \<Rightarrow> u64 list \<Rightarrow> u64 list \<Rightarrow> bool" where
  "blocked n xs ps \<longleftrightarrow> (\<forall>b\<in>set xs. \<not> set (consec b n) \<subseteq> set ps)"

lemma blocked_run:
  assumes "k < n" "base + of_nat k * PAGE_SIZE \<notin> set ps"
  shows "blocked n (consec base k) ps"
  unfolding blocked_def
proof
  fix b assume "b \<in> set (consec base k)"
  then obtain j where j: "j < k" "b = base + of_nat j * PAGE_SIZE" by (auto simp: consec_def)
  then have "b + of_nat (k - j) * PAGE_SIZE = base + of_nat k * PAGE_SIZE"
    by (simp add: of_nat_diff algebra_simps)
  moreover have "b + of_nat (k - j) * PAGE_SIZE \<in> set (consec b n)"
    using j assms(1) unfolding consec_def set_map by (intro imageI) simp
  ultimately show "\<not> set (consec b n) \<subseteq> set ps" using assms(2) by auto
qed

lemma page_step:
  assumes "page_ok p" shows "unat (p + PAGE_SIZE) = unat p + 4096" "p < p + PAGE_SIZE"
proof -
  show *: "unat (p + PAGE_SIZE) = unat p + 4096"
    using assms by (subst unat_plus_if_size) (simp_all add: PAGE_SIZE_def page_ok_iff)
  then show "p < p + PAGE_SIZE" by (simp add: word_less_nat_alt)
qed

lemma page_gap:
  assumes "page_ok p" "page_ok q" "p < q" "q \<noteq> p + PAGE_SIZE"
  shows "p + PAGE_SIZE < q"
proof -
  have "unat p < unat q" using assms(3) by (simp add: word_less_nat_alt)
  moreover have "4096 dvd unat p" "4096 dvd unat q"
    using assms(1,2) by (auto simp: page_ok_iff)
  moreover have "unat q \<noteq> unat p + 4096"
    using assms(4) page_step(1) [OF assms(1)] by (metis word_eq_unatI)
  ultimately have "unat p + 4096 < unat q"
    using multiples_close [of 4096 "unat p" "unat q"] by linarith
  then show ?thesis by (simp add: word_less_nat_alt page_step assms(1))
qed

lemma contig_scan_spec:
  assumes "ps = xs @ consec base (Suc k) @ ys" "sorted_wrt (<) ps" "list_all page_ok ps"
    and "chain s FreelistHead (map PA_TO_VA xs) rs"
    and "chain s rs (map PA_TO_VA (consec base k)) pp"
    and "runs s pp (map PA_TO_VA ((base + of_nat k * PAGE_SIZE) # ys))"
    and "blocked n xs ps" "k < n"
  shows "\<exists>rs' base' k' xs' ys'. contig_scan s (int n) pp rs base (int (Suc k)) = Some (rs', base', int (Suc k')) \<and>
    ps = xs' @ consec base' (Suc k') @ ys' \<and> chain s FreelistHead (map PA_TO_VA xs') rs' \<and>
    runs s rs' (map PA_TO_VA (consec base' (Suc k') @ ys')) \<and> k' < n \<and>
    (Suc k' < n \<longrightarrow> blocked n ps ps)"
  using assms
proof (induction ys arbitrary: pp rs base k xs)
  case Nil
  let ?l = "base + of_nat k * PAGE_SIZE"
  have g: "link_get s pp = PA_TO_VA ?l" "PA_TO_VA ?l \<noteq> 0" "link_get s (NextOf (PA_TO_VA ?l)) = 0"
    using Nil.prems(6) by auto
  have ru: "runs s rs (map PA_TO_VA (consec base (Suc k) @ []))"
    using Nil.prems(5,6) by (auto simp: consec_Suc runs_append)
  have lok: "page_ok ?l" using Nil.prems(1,3) by (simp add: consec_Suc)
  have "?l + PAGE_SIZE \<notin> set ps"
    using Nil.prems(1,2) page_step(2) [OF lok] by (auto simp: consec_Suc sorted_wrt_append)
  then have "blocked n (consec base (Suc k)) ps" if "Suc k < n"
    using that by (intro blocked_run) (auto simp: algebra_simps)
  then have "blocked n ps ps" if "Suc k < n"
    using that Nil.prems(1,7) by (auto simp: blocked_def)
  moreover have "contig_scan s (int n) pp rs base (int (Suc k)) = Some (rs, base, int (Suc k))"
    using g by (simp add: contig_scan.simps)
  ultimately show ?case using Nil.prems(1,4,8) ru by blast
next
  case (Cons y ys)
  let ?l = "base + of_nat k * PAGE_SIZE"
  have g: "link_get s pp = PA_TO_VA ?l" "PA_TO_VA ?l \<noteq> 0"
    "link_get s (NextOf (PA_TO_VA ?l)) = PA_TO_VA y" "PA_TO_VA y \<noteq> 0"
    using Cons.prems(6) by auto
  have ru: "runs s rs (map PA_TO_VA (consec base (Suc k) @ y # ys))"
    using Cons.prems(5,6) by (auto simp: consec_Suc runs_append)
  have ch: "chain s rs (map PA_TO_VA (consec base (Suc k))) (NextOf (PA_TO_VA ?l))"
    using Cons.prems(5) g by (auto simp: consec_Suc chain_append)
  have ru': "runs s (NextOf (PA_TO_VA ?l)) (map PA_TO_VA (y # ys))"
    using Cons.prems(6) by simp
  have lok: "page_ok ?l" "page_ok y" using Cons.prems(1,3) by (simp_all add: consec_Suc)
  have ly: "?l < y" using Cons.prems(1,2) by (auto simp: consec_Suc sorted_wrt_append)
  show ?case
  proof (cases "Suc k < n")
    case False
    then have "contig_scan s (int n) pp rs base (int (Suc k)) = Some (rs, base, int (Suc k))"
      using g by (simp add: contig_scan.simps)
    with False Cons.prems(1,4,8) ru show ?thesis by blast
  next
    case True
    show ?thesis
    proof (cases "y = ?l + PAGE_SIZE")
      case adj: True
      then have y: "y = base + of_nat (Suc k) * PAGE_SIZE" by (simp add: algebra_simps)
      have "contig_scan s (int n) pp rs base (int (Suc k)) =
            contig_scan s (int n) (NextOf (PA_TO_VA ?l)) rs base (int (Suc (Suc k)))"
        using g True adj by (subst contig_scan.simps) (simp add: add.commute)
      moreover have "ps = xs @ consec base (Suc (Suc k)) @ ys"
        using Cons.prems(1) y by (simp add: consec_Suc)
      ultimately show ?thesis
        using Cons.IH [of xs base "Suc k" rs "NextOf (PA_TO_VA ?l)"] Cons.prems ch ru' True y
        by (simp add: consec_Suc)
    next
      case gap: False
      have ne: "VA_TO_PA (PA_TO_VA y) \<noteq> VA_TO_PA (PA_TO_VA ?l) + PAGE_SIZE" using gap by simp
      have "contig_scan s (int n) pp rs base (int (Suc k)) =
            contig_scan s (int n) (NextOf (PA_TO_VA ?l)) (NextOf (PA_TO_VA ?l)) y (int (Suc 0))"
        using g True ne by (subst contig_scan.simps) simp
      moreover have "?l + PAGE_SIZE \<notin> set ps"
        using Cons.prems(1,2) page_step(2) [OF lok(1)] page_gap [OF lok ly gap]
        by (auto simp: consec_Suc sorted_wrt_append)
      then have "blocked n (consec base (Suc k)) ps"
        using True by (intro blocked_run) (auto simp: algebra_simps)
      then have "blocked n (xs @ consec base (Suc k)) ps"
        using Cons.prems(7) by (auto simp: blocked_def)
      moreover have "ps = (xs @ consec base (Suc k)) @ consec y (Suc 0) @ ys"
        using Cons.prems(1) by (simp add: consec_def)
      moreover have "chain s FreelistHead (map PA_TO_VA (xs @ consec base (Suc k))) (NextOf (PA_TO_VA ?l))"
        using Cons.prems(4) ch by (auto simp: chain_append)
      ultimately show ?thesis
        using Cons.IH [of "xs @ consec base (Suc k)" y 0 "NextOf (PA_TO_VA ?l)" "NextOf (PA_TO_VA ?l)"]
          Cons.prems(2,3) ru' True by (simp add: consec_def)
    qed
  qed
qed

lemma skip_next_chain: "chain s l xs l' \<Longrightarrow> skip_next s (length xs) (link_get s l) = link_get s l'"
  by (induction xs arbitrary: l) auto

lemma runs_cut:
  assumes ch: "chain s FreelistHead (map PA_TO_VA xs) l" and ru: "runs s l2 (map PA_TO_VA ys)"
    and dist: "distinct (xs @ ys)"
  shows "runs (link_set s l (link_get s l2)) FreelistHead (map PA_TO_VA (xs @ ys))"
proof -
  have l: "l \<in> insert FreelistHead (NextOf ` PA_TO_VA ` set xs)"
    using chain_end [OF ch] last_in_set [of xs] by (auto simp: last_map split: if_splits)
  have "chain (link_set s l (link_get s l2)) FreelistHead (map PA_TO_VA xs) l"
    using dist by (intro chain_frame [OF ch]) (auto simp: distinct_map)
  moreover have "runs (link_set s l (link_get s l2)) l (map PA_TO_VA ys)"
    using l dist by (intro runs_move [OF ru]) auto
  ultimately show ?thesis by (auto simp: runs_append)
qed

lemma fold_zero_pages_fields [simp, frame]:
  "free_count (fold zero_page zs s) = free_count s"
  "reserved_start (fold zero_page zs s) = reserved_start s"
  "reserved_end (fold zero_page zs s) = reserved_end s"
  by (induction zs arbitrary: s) simp_all

lemma mem_fold_zero_pages:
  "mem (fold zero_page zs s) a = (if \<exists>z\<in>set zs. in_page z a then 0 else mem s a)"
  by (induction zs arbitrary: s) (auto simp: mem_zero_page)

lemma runs_zero_pages:
  "runs s FreelistHead (map PA_TO_VA ps) \<Longrightarrow> list_all page_ok ps \<Longrightarrow> list_all page_ok zs \<Longrightarrow>
   set zs \<inter> set ps = {} \<Longrightarrow> runs (fold zero_page zs s) FreelistHead (map PA_TO_VA ps)"
proof (induction zs arbitrary: s)
  case (Cons z zs)
  have "runs (zero_page z s) FreelistHead (map PA_TO_VA ps)"
    using Cons.prems by (intro runs_zero_page) auto
  with Cons show ?case by auto
qed simp

lemma fold_zero_consec:
  "fold (\<lambda>i. zero_page (base + of_nat i * PAGE_SIZE)) [0..<n] s = fold zero_page (consec base n) s"
  by (simp add: consec_def fold_map comp_def)

lemma contig_start:
  assumes "pmm_inv s (p # ps)" "1 < n"
  obtains rs base k xs ys where
    "contig_scan s (int n) FreelistHead FreelistHead (VA_TO_PA (freelist s)) 1 = Some (rs, base, int (Suc k))"
    "p # ps = xs @ consec base (Suc k) @ ys" "chain s FreelistHead (map PA_TO_VA xs) rs"
    "runs s rs (map PA_TO_VA (consec base (Suc k) @ ys))" "k < n"
    "Suc k < n \<longrightarrow> blocked n (p # ps) (p # ps)"
proof -
  have "link_get s FreelistHead = PA_TO_VA p" using assms(1) by (simp add: pmm_inv_def)
  then have "VA_TO_PA (freelist s) = p" by (simp add: link_get.simps)
  moreover have "\<exists>rs' base' k' xs' ys'.
      contig_scan s (int n) FreelistHead FreelistHead p (int (Suc 0)) = Some (rs', base', int (Suc k')) \<and>
      p # ps = xs' @ consec base' (Suc k') @ ys' \<and> chain s FreelistHead (map PA_TO_VA xs') rs' \<and>
      runs s rs' (map PA_TO_VA (consec base' (Suc k') @ ys')) \<and> k' < n \<and>
      (Suc k' < n \<longrightarrow> blocked n (p # ps) (p # ps))"
    using assms
    by (intro contig_scan_spec [where xs = "[]" and ys = ps])
      (auto simp: pmm_inv_def consec_def blocked_def)
  ultimately show thesis using that by auto
qed

lemma pmm_alloc_contiguous_found:
  assumes inv: "pmm_inv s (xs @ consec base n @ ys)" and n: "1 < n"
    and scan: "contig_scan s (int n) FreelistHead FreelistHead (VA_TO_PA (freelist s)) 1 = Some (rs, base, int n)"
    and ch: "chain s FreelistHead (map PA_TO_VA xs) rs"
    and ru: "runs s rs (map PA_TO_VA (consec base n @ ys))"
  shows "\<exists>s'. pmm_alloc_contiguous (int n) s = Some (base, s') \<and> pmm_inv s' (xs @ ys) \<and>
    (\<forall>z\<in>set (consec base n). \<forall>a. in_page z a \<longrightarrow> mem s' a = 0)"
proof -
  obtain l2 where l2: "chain s rs (map PA_TO_VA (consec base n)) l2" "runs s l2 (map PA_TO_VA ys)"
    using ru by (auto simp: runs_append)
  let ?s1 = "link_set s rs (link_get s l2)"
  let ?s2 = "?s1\<lparr>free_count := free_count s - of_nat n\<rparr>"
  let ?s3 = "fold zero_page (consec base n) ?s2"
  have dist: "distinct (xs @ consec base n @ ys)" using inv by (rule pmm_inv_distinct)
  have oks: "list_all page_ok (xs @ ys)" "list_all page_ok (consec base n)"
    using inv by (auto simp: pmm_inv_def)
  have "freelist s \<noteq> 0"
    using freelist_empty_iff [OF inv] n by (auto simp: consec_def)
  moreover have "skip_next s n (link_get s rs) = link_get s l2"
    using skip_next_chain [OF l2(1)] by simp
  ultimately have eq: "pmm_alloc_contiguous (int n) s = Some (base, ?s3)"
    using n scan by (simp add: pmm_alloc_contiguous_def fold_zero_consec Let_def)
  have "runs ?s1 FreelistHead (map PA_TO_VA (xs @ ys))"
    using dist by (intro runs_cut [OF ch l2(2)]) auto
  then have "runs ?s2 FreelistHead (map PA_TO_VA (xs @ ys))"
    by (rule runs_frame) simp_all
  then have "runs ?s3 FreelistHead (map PA_TO_VA (xs @ ys))"
    using dist oks by (intro runs_zero_pages) auto
  moreover have "sorted_wrt (<) (xs @ ys)" "free_count s - of_nat n = of_nat (length (xs @ ys))"
    using inv by (auto simp: pmm_inv_def sorted_wrt_append)
  ultimately have "pmm_inv ?s3 (xs @ ys)"
    using oks by (simp add: pmm_inv_def)
  with eq show ?thesis by (auto simp: mem_fold_zero_pages)
qed

lemma blocked_all: "blocked n ps ps \<longleftrightarrow> (\<forall>b. \<not> set (consec b n) \<subseteq> set ps)" if "0 < n"
proof -
  have "b \<in> set (consec b n)" for b using that by (auto simp: consec_def image_iff intro!: bexI [of _ 0])
  then show ?thesis by (auto simp: blocked_def)
qed

subsection \<open>Initialisation\<close>

definition pages_from :: "u64 \<Rightarrow> u64 list" where
  "pages_from pa = consec pa ((unat ram_end - unat pa) div 4096)"

lemma consec_Cons: "consec base (Suc k) = base # consec (base + PAGE_SIZE) k"
proof -
  have "[0..<Suc k] = 0 # map Suc [0..<k]" by (simp add: map_Suc_upt upt_conv_Cons del: upt_Suc)
  then show ?thesis by (simp add: consec_def algebra_simps del: upt_Suc)
qed

lemma unat_ram_end: "unat ram_end = 0x48000000"
  by (simp add: ram_end_def board_defs)

text \<open>What the loop of \<^verbatim>\<open>pmm_init\<close> keeps: the pages linked so far end at \<open>tail\<close>.\<close>

definition init_inv :: "u64 \<Rightarrow> link \<Rightarrow> pmm \<Rightarrow> u64 list \<Rightarrow> bool" where
  "init_inv pa tail s ps \<longleftrightarrow>
     chain s FreelistHead (map PA_TO_VA ps) tail \<and> link_get s tail = 0 \<and> sorted_wrt (<) ps \<and>
     list_all page_ok ps \<and> free_count s = of_nat (length ps) \<and> (\<forall>p\<in>set ps. p < pa)"

lemma init_inv_pmm_inv: "init_inv pa tail s ps \<Longrightarrow> pmm_inv s ps"
  using runs_append [of s FreelistHead "map PA_TO_VA ps" "[]"]
  by (auto simp: init_inv_def pmm_inv_def)

lemma init_inv_step:
  assumes inv: "init_inv pa tail s ps" and ok: "page_ok pa"
  shows "init_inv (pa + PAGE_SIZE) (NextOf (PA_TO_VA pa))
    ((link_set (link_set (zero_page pa s) (NextOf (PA_TO_VA pa)) 0) tail (PA_TO_VA pa))
       \<lparr>free_count := free_count s + 1\<rparr>) (ps @ [pa])"
proof -
  let ?z = "zero_page pa s"
  let ?t = "(link_set (link_set ?z (NextOf (PA_TO_VA pa)) 0) tail (PA_TO_VA pa))\<lparr>free_count := free_count s + 1\<rparr>"
  have ch: "chain s FreelistHead (map PA_TO_VA ps) tail" and oks: "list_all page_ok ps"
    and sorted: "sorted_wrt (<) ps" and less: "\<forall>p\<in>set ps. p < pa"
    using inv by (auto simp: init_inv_def)
  have np: "\<not> in_page pa (PA_TO_VA p)" if "p \<in> set ps" for p
  proof -
    have "page_ok p" "pa \<noteq> p" using that oks less by (auto simp: list_all_iff)
    with ok show ?thesis by (simp add: in_page_other)
  qed
  have "tail \<noteq> NextOf (PA_TO_VA pa)"
    using chain_end [OF ch] last_in_set [of ps] less by (auto simp: last_map split: if_splits)
  moreover have "chain ?t FreelistHead (map PA_TO_VA ps) tail"
    using sorted less np
    by (intro chain_frame [OF ch])
      (auto simp: distinct_map strict_sorted_iff link_get_zero_page_NextOf)
  then have "chain ?t FreelistHead (map PA_TO_VA (ps @ [pa])) (NextOf (PA_TO_VA pa))"
    unfolding map_append chain_append using ok by (intro exI [of _ tail]) simp
  moreover have "\<forall>p\<in>set (ps @ [pa]). p < pa + PAGE_SIZE"
    using less page_step(2) [OF ok] by auto
  ultimately show ?thesis
    using inv ok by (auto simp: init_inv_def sorted_wrt_append)
qed

lemma pmm_init_loop_spec:
  "init_inv pa tail s ps \<Longrightarrow> RAM_BASE \<le> pa \<Longrightarrow> pa \<le> ram_end \<Longrightarrow> IS_PAGE_ALIGNED pa \<Longrightarrow>
   pmm_inv (pmm_init_loop pa tail s) (ps @ filter (\<lambda>p. \<not> is_reserved s p) (pages_from pa))"
proof (induction pa tail s arbitrary: ps rule: pmm_init_loop.induct)
  case (1 pa tail s)
  have b: "0x40000000 \<le> unat pa" "unat pa \<le> 0x48000000" "4096 dvd unat pa"
    using "1.prems" by (auto simp: word_le_nat_alt RAM_BASE_def unat_ram_end aligned_iff)
  then have u: "unat (pa + PAGE_SIZE) = unat pa + 4096"
    by (subst unat_plus_if_size) (simp_all add: PAGE_SIZE_def)
  show ?case
  proof (cases "pa + PAGE_SIZE \<le> ram_end")
    case False
    then have "unat ram_end - unat pa < 4096" using u by (simp add: word_le_nat_alt)
    then have "pages_from pa = []" by (simp add: pages_from_def consec_def)
    with False "1.prems"(1) show ?thesis
      by (simp add: pmm_init_loop.simps [of pa] init_inv_pmm_inv)
  next
    case True
    then have le: "unat pa + 4096 \<le> 0x48000000" using u by (simp add: word_le_nat_alt unat_ram_end)
    have ok: "page_ok pa" using le b by (auto simp: page_ok_iff)
    have nxt: "RAM_BASE \<le> pa + PAGE_SIZE" "IS_PAGE_ALIGNED (pa + PAGE_SIZE)"
      using u b by (auto simp: word_le_nat_alt RAM_BASE_def aligned_iff)
    have "(unat ram_end - unat pa) div 4096 = Suc ((unat ram_end - unat (pa + PAGE_SIZE)) div 4096)"
      using le u by (simp add: unat_ram_end)
    then have pf: "pages_from pa = pa # pages_from (pa + PAGE_SIZE)"
      by (simp add: pages_from_def consec_Cons)
    let ?t = "(link_set (link_set (zero_page pa s) (NextOf (PA_TO_VA pa)) 0) tail (PA_TO_VA pa))
       \<lparr>free_count := free_count s + 1\<rparr>"
    show ?thesis
    proof (cases "is_reserved s pa")
      case res: True
      have "init_inv (pa + PAGE_SIZE) tail s ps"
        using "1.prems"(1) page_step(2) [OF ok] by (auto simp: init_inv_def intro: less_trans)
      with True res nxt show ?thesis
        using "1.IH"(1) by (simp add: pmm_init_loop.simps [of pa] pf)
    next
      case res: False
      have keep: "is_reserved ?t = is_reserved s" by (simp add: fun_eq_iff is_reserved_def)
      have "pmm_init_loop pa tail s = pmm_init_loop (pa + PAGE_SIZE) (NextOf (PA_TO_VA pa)) ?t"
        using True res by (subst pmm_init_loop.simps) (simp add: Let_def)
      moreover have "pmm_inv (pmm_init_loop (pa + PAGE_SIZE) (NextOf (PA_TO_VA pa)) ?t)
          ((ps @ [pa]) @ filter (\<lambda>p. \<not> is_reserved ?t p) (pages_from (pa + PAGE_SIZE)))"
        using "1.IH"(2) [OF True res refl refl refl refl, of "ps @ [pa]"]
          init_inv_step [OF "1.prems"(1) ok] nxt True by simp
      ultimately show ?thesis using res by (simp add: pf keep)
    qed
  qed
qed

subsection \<open>The interface of the allocator\<close>

text \<open>What the clients of the allocator rely on: pages come from a sorted list without
  duplicates, an allocation takes its head, and a freed page goes back to its place.\<close>

locale page_allocator =
  fixes alloc :: "'s \<Rightarrow> u64 \<times> 's"
    and free :: "u64 \<Rightarrow> 's \<Rightarrow> 's option"
    and inv :: "'s \<Rightarrow> u64 list \<Rightarrow> bool"
    and valid :: "u64 \<Rightarrow> bool"
    and invalid :: u64
  assumes alloc_empty: "inv s [] \<Longrightarrow> alloc s = (invalid, s)"
    and alloc_head: "inv s (p # ps) \<Longrightarrow> fst (alloc s) = p \<and> inv (snd (alloc s)) ps"
    and free_new: "inv s ps \<Longrightarrow> valid p \<Longrightarrow> p \<notin> set ps \<Longrightarrow> \<exists>s'. free p s = Some s' \<and> inv s' (insort p ps)"
    and free_known: "inv s ps \<Longrightarrow> p \<in> set ps \<Longrightarrow> free p s = Some s"
    and free_invalid: "\<not> valid p \<Longrightarrow> free p s = Some s"
    and inv_valid: "inv s ps \<Longrightarrow> p \<in> set ps \<Longrightarrow> valid p"
    and inv_sorted: "inv s ps \<Longrightarrow> sorted_wrt (<) ps"
    and invalid_not_valid: "\<not> valid invalid"
begin

lemma alloc_fails_iff: "inv s ps \<Longrightarrow> fst (alloc s) = invalid \<longleftrightarrow> ps = []"
  using alloc_empty alloc_head inv_valid invalid_not_valid
  by (cases ps) (fastforce, metis list.distinct(1) list.set_intros(1))

lemma alloc_valid: "inv s ps \<Longrightarrow> fst (alloc s) \<noteq> invalid \<Longrightarrow> valid (fst (alloc s))"
  using alloc_empty alloc_head inv_valid by (cases ps) (fastforce, metis list.set_intros(1))

lemma alloc_not_free:
  "inv s (p # ps) \<Longrightarrow> fst (alloc s) \<notin> set ps"
  using inv_sorted [of s "p # ps"] alloc_head [of s p ps] by auto

lemma alloc_then_free:
  assumes "inv s (p # ps)"
  shows "\<exists>s'. free p (snd (alloc s)) = Some s' \<and> inv s' (p # ps)"
proof -
  have p: "inv (snd (alloc s)) ps" "valid p" "p \<notin> set ps" "\<forall>q\<in>set ps. p < q"
    using assms alloc_head inv_valid inv_sorted by fastforce+
  then have "insort p ps = p # ps" by (cases ps) auto
  with free_new [OF p(1-3)] show ?thesis by simp
qed

lemma free_total: "inv s ps \<Longrightarrow> \<exists>s' ps'. free p s = Some s' \<and> inv s' ps'"
  using free_new free_known free_invalid by blast

end

lemma page_ok_PMM_INVALID [simp]: "\<not> page_ok PMM_INVALID"
  by (simp add: page_ok_def PMM_INVALID_def board_defs)

interpretation kpages: page_allocator pmm_alloc pmm_free pmm_inv page_ok PMM_INVALID
proof unfold_locales
  show "pmm_inv s [] \<Longrightarrow> pmm_alloc s = (PMM_INVALID, s)" for s
    by (rule pmm_alloc_Nil)
  show "pmm_inv s (p # ps) \<Longrightarrow> fst (pmm_alloc s) = p \<and> pmm_inv (snd (pmm_alloc s)) ps" for s p ps
    by (simp add: pmm_alloc_Cons)
  show "pmm_inv s ps \<Longrightarrow> page_ok p \<Longrightarrow> p \<notin> set ps \<Longrightarrow>
      \<exists>s'. pmm_free p s = Some s' \<and> pmm_inv s' (insort p ps)" for s ps p
    by (rule pmm_free_insort)
  show "pmm_inv s ps \<Longrightarrow> sorted_wrt (<) ps" for s ps
    by (simp add: pmm_inv_def)
qed (auto simp: pmm_free_present pmm_free_ignored pmm_inv_page_ok)

subsection \<open>Properties\<close>

lemma pmm_alloc_contiguous_outcome:
  assumes "pmm_inv s ps" and "1 < n"
  shows "(\<exists>base s' xs ys. pmm_alloc_contiguous (int n) s = Some (base, s') \<and> ps = xs @ consec base n @ ys \<and>
            pmm_inv s' (xs @ ys) \<and> (\<forall>z\<in>set (consec base n). \<forall>a. in_page z a \<longrightarrow> mem s' a = 0)) \<or>
         (pmm_alloc_contiguous (int n) s = Some (PMM_INVALID, s) \<and> (\<forall>b. \<not> set (consec b n) \<subseteq> set ps))"
proof (cases ps)
  case Nil
  then have "pmm_alloc_contiguous (int n) s = Some (PMM_INVALID, s)"
    using assms freelist_empty_iff by (simp add: pmm_alloc_contiguous_def)
  then show ?thesis using Nil assms(2) by (auto simp: consec_def)
next
  case (Cons p qs)
  with assms obtain rs base k xs ys where scan:
    "contig_scan s (int n) FreelistHead FreelistHead (VA_TO_PA (freelist s)) 1 = Some (rs, base, int (Suc k))"
    and ps: "ps = xs @ consec base (Suc k) @ ys" and ch: "chain s FreelistHead (map PA_TO_VA xs) rs"
    and ru: "runs s rs (map PA_TO_VA (consec base (Suc k) @ ys))" and k: "k < n"
    and short: "Suc k < n \<longrightarrow> blocked n ps ps"
    by (metis contig_start)
  show ?thesis
  proof (cases "Suc k < n")
    case True
    then have "pmm_alloc_contiguous (int n) s = Some (PMM_INVALID, s)"
      using scan Cons assms freelist_empty_iff [OF assms(1)] by (simp add: pmm_alloc_contiguous_def)
    then show ?thesis using True short blocked_all [of n ps] by simp
  next
    case False
    with k have "n = Suc k" by simp
    with scan ps ch ru assms show ?thesis
      using pmm_alloc_contiguous_found [of s xs base n ys rs] by blast
  qed
qed

text \<open>Two free pages, used to instantiate the properties below.\<close>

definition two_pages :: pmm where
  "two_pages = \<lparr>mem = (\<lambda>_. 0)(PA_TO_VA 0x40100000 := PA_TO_VA 0x40101000),
     freelist = PA_TO_VA 0x40100000, free_count = 2, reserved_start = 0, reserved_end = 0\<rparr>"

lemma two_pages_inv: "pmm_inv two_pages [0x40100000, 0x40101000]"
  by (simp add: pmm_inv_def two_pages_def link_get.simps page_ok_iff PA_TO_VA_def KERNEL_BASE_def)

text \<open>Property C8. \<^verbatim>\<open>pmm_init\<close> puts on the free list exactly the page-aligned pages between the
  end of the kernel image and the end of RAM that lie outside the reserved region, in ascending
  order, and counts them.\<close>

theorem pmm_init_correct:
  assumes "RAM_BASE \<le> PAGE_ALIGN (VA_TO_PA stack_top)" "PAGE_ALIGN (VA_TO_PA stack_top) \<le> ram_end"
  shows "pmm_inv (pmm_init stack_top s)
    (filter (\<lambda>p. \<not> is_reserved s p) (pages_from (PAGE_ALIGN (VA_TO_PA stack_top))))"
proof -
  let ?start = "PAGE_ALIGN (VA_TO_PA stack_top)" and ?s = "s\<lparr>freelist := 0, free_count := 0\<rparr>"
  have "IS_PAGE_ALIGNED ?start"
    by (simp add: aligned_iff PAGE_ALIGN_def page_mask unat_and_not_mask)
  moreover have "init_inv ?start FreelistHead ?s []"
    by (simp add: init_inv_def link_get.simps)
  ultimately have "pmm_inv (pmm_init_loop ?start FreelistHead ?s)
      ([] @ filter (\<lambda>p. \<not> is_reserved ?s p) (pages_from ?start))"
    using assms by (intro pmm_init_loop_spec)
  moreover have "is_reserved ?s = is_reserved s" by (simp add: fun_eq_iff is_reserved_def)
  ultimately show ?thesis by (simp add: pmm_init_def)
qed

theorem pmm_init_correct_witness:
  "pmm_inv (pmm_init (PA_TO_VA 0x47FFE000) two_pages)
    (filter (\<lambda>p. \<not> is_reserved two_pages p) (pages_from (PAGE_ALIGN (VA_TO_PA (PA_TO_VA 0x47FFE000)))))"
  by (rule pmm_init_correct) (simp_all add: PAGE_ALIGN_def ram_end_def board_defs)

text \<open>\<^verbatim>\<open>pmm_alloc\<close> returns the lowest free page and takes it off the list, zeroes that
  page and changes no other word of memory; with no free page it returns \<^verbatim>\<open>PMM_INVALID\<close> and changes
  nothing.\<close>

theorem pmm_alloc_correct:
  assumes "pmm_inv s ps"
  shows "case ps of
      [] \<Rightarrow> pmm_alloc s = (PMM_INVALID, s)
    | p # qs \<Rightarrow> fst (pmm_alloc s) = p \<and> pmm_inv (snd (pmm_alloc s)) qs \<and>
        (\<forall>a. mem (snd (pmm_alloc s)) a = (if in_page p a then 0 else mem s a))"
  using assms by (cases ps) (simp_all add: pmm_alloc_Nil pmm_alloc_Cons)

theorem pmm_alloc_correct_witness:
  "fst (pmm_alloc two_pages) = 0x40100000 \<and> pmm_inv (snd (pmm_alloc two_pages)) [0x40101000]"
  using pmm_alloc_correct [OF two_pages_inv] by simp

text \<open>Property C1. \<^verbatim>\<open>pmm_free\<close> always returns; it puts a page of RAM that is not free back in address
  order, and ignores an address outside RAM, an unaligned address and a page that is already free (a
  double free leaves the allocator unchanged).\<close>

theorem pmm_free_correct:
  assumes "pmm_inv s ps"
  shows "\<exists>s'. pmm_free p s = Some s' \<and>
    (if page_ok p \<and> p \<notin> set ps then pmm_inv s' (insort p ps) else s' = s)"
  using assms pmm_free_insort pmm_free_present pmm_free_ignored by (cases "page_ok p \<and> p \<notin> set ps") auto

theorem pmm_free_correct_witness:
  "\<exists>s'. pmm_free 0x40102000 two_pages = Some s' \<and>
     pmm_inv s' [0x40100000, 0x40101000, 0x40102000]"
  using pmm_free_correct [OF two_pages_inv, of "0x40102000"] by (simp add: page_ok_iff)

text \<open>Property C9. \<^verbatim>\<open>pmm_alloc_contiguous\<close> is sound and complete for two pages or more: if it returns a
  base address, the \<open>n\<close> pages from there were free, are zeroed and are no longer free; if it returns
  \<^verbatim>\<open>PMM_INVALID\<close>, it changed nothing and no \<open>n\<close> consecutive pages are free anywhere.\<close>

theorem pmm_alloc_contiguous_correct:
  assumes "pmm_inv s ps" and "1 < n"
  shows "(\<exists>base s' xs ys. pmm_alloc_contiguous (int n) s = Some (base, s') \<and> ps = xs @ consec base n @ ys \<and>
            pmm_inv s' (xs @ ys) \<and> (\<forall>z\<in>set (consec base n). \<forall>a. in_page z a \<longrightarrow> mem s' a = 0)) \<or>
         (pmm_alloc_contiguous (int n) s = Some (PMM_INVALID, s) \<and> (\<forall>b. \<not> set (consec b n) \<subseteq> set ps))"
  using assms by (rule pmm_alloc_contiguous_outcome)

theorem pmm_alloc_contiguous_correct_witness:
  "\<exists>base s' xs ys. pmm_alloc_contiguous (int 2) two_pages = Some (base, s') \<and>
     [0x40100000, 0x40101000] = xs @ consec base 2 @ ys \<and> pmm_inv s' (xs @ ys) \<and>
     (\<forall>z\<in>set (consec base 2). \<forall>a. in_page z a \<longrightarrow> mem s' a = 0)"
proof -
  have "set (consec 0x40100000 2) \<subseteq> set [0x40100000, 0x40101000]"
    by (simp add: consec_def PAGE_SIZE_def upt_rec)
  then show ?thesis
    using pmm_alloc_contiguous_correct [OF two_pages_inv, of 2] by auto
qed

end
