(* ===== verification/Vmm.thy ===== *)
theory Vmm
  imports Pmm
begin

text \<open>
  User page tables, \<^verbatim>\<open>kernel/vmm.c\<close> with the descriptor bits of \<^verbatim>\<open>kernel/vmm.h\<close>. A table is a page of
  512 eight-byte descriptors in the kernel's memory; a \<^verbatim>\<open>pte_t *\<close> is the virtual address of a
  descriptor. The TLB invalidation after an unmap has no counterpart in the model. The abstraction
  of a page table is the partial function from the four table indices of a virtual address to the
  level-3 descriptor (\<open>pt_lookup\<close>).
\<close>

subsection \<open>Descriptors (vmm.h)\<close>

definition PTE_VALID :: u64 where "PTE_VALID = 1"
definition PTE_TABLE :: u64 where "PTE_TABLE = push_bit 1 1"
definition PTE_PAGE :: u64 where "PTE_PAGE = push_bit 1 1"
definition PTE_AF :: u64 where "PTE_AF = push_bit 10 1"
definition PTE_SH_INNER :: u64 where "PTE_SH_INNER = push_bit 8 3"
definition PTE_UXN :: u64 where "PTE_UXN = push_bit 54 1"
definition PTE_PXN :: u64 where "PTE_PXN = push_bit 53 1"
definition PTE_AP_RW_ALL :: u64 where "PTE_AP_RW_ALL = push_bit 6 1"
definition PTE_AP_RO_ALL :: u64 where "PTE_AP_RO_ALL = push_bit 6 3"
definition PTE_AP_EL0_BIT :: u64 where "PTE_AP_EL0_BIT = push_bit 6 1"
definition PTE_AP_RO_BIT :: u64 where "PTE_AP_RO_BIT = push_bit 6 2"
definition PTE_ATTR_NORMAL :: u64 where "PTE_ATTR_NORMAL = push_bit 2 1"
definition PTE_ADDR_MASK :: u64 where "PTE_ADDR_MASK = 0x0000FFFFFFFFF000"
definition USER_STACK :: u64 where "USER_STACK = 0x0001000000000000"

definition L0_INDEX :: "u64 \<Rightarrow> u64" where "L0_INDEX va = drop_bit 39 va AND 0x1FF"
definition L1_INDEX :: "u64 \<Rightarrow> u64" where "L1_INDEX va = drop_bit 30 va AND 0x1FF"
definition L2_INDEX :: "u64 \<Rightarrow> u64" where "L2_INDEX va = drop_bit 21 va AND 0x1FF"
definition L3_INDEX :: "u64 \<Rightarrow> u64" where "L3_INDEX va = drop_bit 12 va AND 0x1FF"

lemmas pte_defs = PTE_VALID_def PTE_TABLE_def PTE_PAGE_def PTE_AF_def PTE_SH_INNER_def PTE_UXN_def
  PTE_PXN_def PTE_AP_RW_ALL_def PTE_AP_RO_ALL_def PTE_AP_EL0_BIT_def PTE_AP_RO_BIT_def
  PTE_ATTR_NORMAL_def PTE_ADDR_MASK_def

definition make_table_desc :: "u64 \<Rightarrow> u64" where
  "make_table_desc next_table_pa = (next_table_pa AND PTE_ADDR_MASK) OR PTE_TABLE OR PTE_VALID"

definition make_page_desc_user :: "u64 \<Rightarrow> bool \<Rightarrow> bool \<Rightarrow> u64" where
  "make_page_desc_user pa write exec =
     (let entry = (pa AND PTE_ADDR_MASK) OR PTE_AF OR PTE_SH_INNER OR PTE_ATTR_NORMAL OR PTE_PAGE OR PTE_VALID;
          entry = entry OR (if write then PTE_AP_RW_ALL else PTE_AP_RO_ALL);
          entry = (if \<not> exec then entry OR PTE_UXN else entry)
      in entry OR PTE_PXN)"

subsection \<open>Bytes of the word memory\<close>

text \<open>A byte access is an access to the aligned word around it, little endian.\<close>

definition load8 :: "(u64 \<Rightarrow> u64) \<Rightarrow> u64 \<Rightarrow> u8" where
  "load8 m a = ucast (drop_bit (8 * unat (a AND 7)) (m (a AND NOT 7)))"

definition store8 :: "(u64 \<Rightarrow> u64) \<Rightarrow> u64 \<Rightarrow> u8 \<Rightarrow> (u64 \<Rightarrow> u64)" where
  "store8 m a b =
     (let w = a AND NOT 7; k = 8 * unat (a AND 7)
      in m(w := (m w AND NOT (push_bit k 0xFF)) OR push_bit k (ucast b)))"

subsection \<open>Walking\<close>

text \<open>The entries allocated so far are undone newest first.\<close>

fun walk_undo :: "(u64 \<times> u64) list \<Rightarrow> pmm \<Rightarrow> pmm option" where
  "walk_undo [] s = Some s"
| "walk_undo ((entry, pa) # allocs) s =
     do { s \<leftarrow> pmm_free pa (s\<lparr>mem := (mem s)(entry := 0)\<rparr>); walk_undo allocs s }"

fun walk_levels :: "u64 list \<Rightarrow> u64 \<Rightarrow> bool \<Rightarrow> (u64 \<times> u64) list \<Rightarrow> pmm \<Rightarrow> (u64 option \<times> pmm) option" where
  "walk_levels [] table alloc allocs s = Some (Some table, s)"
| "walk_levels (index # indices) table alloc allocs s =
     (let entry = table + 8 * index in
      if mem s entry AND PTE_VALID \<noteq> 0 then
        walk_levels indices (PA_TO_VA (mem s entry AND PTE_ADDR_MASK)) alloc allocs s
      else if \<not> alloc then Some (None, s)
      else
        let (pa, s) = pmm_alloc s in
        if pa = PMM_INVALID then do { s \<leftarrow> walk_undo allocs s; Some (None, s) }
        else walk_levels indices (PA_TO_VA pa) alloc ((entry, pa) # allocs)
               (s\<lparr>mem := (mem s)(entry := make_table_desc pa)\<rparr>))"

text \<open>\<^verbatim>\<open>walk\<close> returns the address of the level-3 descriptor, 0 for a null pointer.\<close>

definition walk :: "u64 \<Rightarrow> u64 \<Rightarrow> bool \<Rightarrow> pmm \<Rightarrow> (u64 \<times> pmm) option" where
  "walk pagetable va alloc s =
     do { (t, s) \<leftarrow> walk_levels [L0_INDEX va, L1_INDEX va, L2_INDEX va] pagetable alloc [] s;
          case t of None \<Rightarrow> Some (0, s) | Some table \<Rightarrow> Some (table + 8 * L3_INDEX va, s) }"

subsection \<open>Mapping and unmapping a page\<close>

definition vmm_map_page :: "u64 \<Rightarrow> u64 \<Rightarrow> u64 \<Rightarrow> bool \<Rightarrow> bool \<Rightarrow> pmm \<Rightarrow> (int \<times> pmm) option" where
  "vmm_map_page pagetable va pa write exec s =
     do { (pte, s) \<leftarrow> walk pagetable va True s;
          if pte = 0 then Some (-1, s)
          else if mem s pte AND PTE_VALID \<noteq> 0 then Some (-1, s)
          else Some (0, s\<lparr>mem := (mem s)(pte := make_page_desc_user pa write exec)\<rparr>) }"

text \<open>The second component is what \<^verbatim>\<open>*pa_out\<close> receives.\<close>

definition vmm_unmap_page :: "u64 \<Rightarrow> u64 \<Rightarrow> pmm \<Rightarrow> (int \<times> u64 option \<times> pmm) option" where
  "vmm_unmap_page pagetable va s =
     do { (pte, s) \<leftarrow> walk pagetable va False s;
          if pte = 0 \<or> mem s pte AND PTE_VALID = 0 then Some (-1, None, s)
          else Some (0, Some (mem s pte AND PTE_ADDR_MASK), s\<lparr>mem := (mem s)(pte := 0)\<rparr>) }"

definition vmm_create :: "pmm \<Rightarrow> u64 \<times> pmm" where
  "vmm_create s =
     (let (pa, s) = pmm_alloc s in
      if pa = PMM_INVALID then (0, s) else (PA_TO_VA pa, s))"

subsection \<open>Freeing and copying a whole table\<close>

fun loop_option :: "('a \<Rightarrow> 's \<Rightarrow> 's option) \<Rightarrow> 'a list \<Rightarrow> 's \<Rightarrow> 's option" where
  "loop_option f [] s = Some s"
| "loop_option f (x # xs) s = do { s \<leftarrow> f x s; loop_option f xs s }"

text \<open>The recursion parameter is the number of levels below the table: level 0 has three.\<close>

primrec freewalk :: "nat \<Rightarrow> u64 \<Rightarrow> pmm \<Rightarrow> pmm option" where
  "freewalk 0 pagetable =
     loop_option (\<lambda>i s.
       let entry = mem s (pagetable + 8 * of_nat i) in
       if entry AND PTE_VALID = 0 then Some s
       else pmm_free (entry AND PTE_ADDR_MASK) s) [0..<512]"
| "freewalk (Suc below) pagetable =
     loop_option (\<lambda>i s.
       let entry = mem s (pagetable + 8 * of_nat i) in
       if entry AND PTE_VALID = 0 then Some s
       else do { s \<leftarrow> freewalk below (PA_TO_VA (entry AND PTE_ADDR_MASK)) s;
                 pmm_free (entry AND PTE_ADDR_MASK) s }) [0..<512]"

definition vmm_free :: "u64 \<Rightarrow> pmm \<Rightarrow> pmm option" where
  "vmm_free pagetable s =
     (if pagetable = 0 then Some s
      else do { s \<leftarrow> freewalk 3 pagetable s; pmm_free (VA_TO_PA pagetable) s })"

definition copy_page :: "u64 \<Rightarrow> u64 \<Rightarrow> pmm \<Rightarrow> pmm" where
  "copy_page dst src s =
     s\<lparr>mem := fold (\<lambda>i m. store8 m (PA_TO_VA dst + of_nat i) (load8 m (PA_TO_VA src + of_nat i)))
                [0..<unat PAGE_SIZE] (mem s)\<rparr>"

text \<open>The loop over the 512 entries stops at the first failure with result -1.\<close>

fun loop_status :: "('a \<Rightarrow> 's \<Rightarrow> int \<times> 's) \<Rightarrow> 'a list \<Rightarrow> 's \<Rightarrow> int \<times> 's" where
  "loop_status f [] s = (0, s)"
| "loop_status f (x # xs) s =
     (let (r, s) = f x s in if r < 0 then (-1, s) else loop_status f xs s)"

primrec copywalk :: "nat \<Rightarrow> u64 \<Rightarrow> u64 \<Rightarrow> u64 \<Rightarrow> pmm \<Rightarrow> int \<times> pmm" where
  "copywalk 0 dst src va =
     loop_status (\<lambda>i s.
       let entry = mem s (src + 8 * of_nat i) in
       if entry AND PTE_VALID = 0 then (0, s)
       else
         let src_pa = entry AND PTE_ADDR_MASK;
             (dst_pa, s) = pmm_alloc s
         in if dst_pa = PMM_INVALID then (-1, s)
            else
              let s = copy_page dst_pa src_pa s
              in (0, s\<lparr>mem := (mem s)(dst + 8 * of_nat i := (entry AND NOT PTE_ADDR_MASK) OR dst_pa)\<rparr>))
       [0..<512]"
| "copywalk (Suc below) dst src va =
     loop_status (\<lambda>i s.
       let entry = mem s (src + 8 * of_nat i) in
       if entry AND PTE_VALID = 0 then (0, s)
       else
         let src_pa = entry AND PTE_ADDR_MASK;
             (dst_pa, s) = pmm_alloc s
         in if dst_pa = PMM_INVALID then (-1, s)
            else
              let s = s\<lparr>mem := (mem s)(dst + 8 * of_nat i := make_table_desc dst_pa)\<rparr>;
                  child_va = va OR push_bit (12 + 9 * Suc below) (of_nat i)
              in copywalk below (PA_TO_VA dst_pa) (PA_TO_VA src_pa) child_va s)
       [0..<512]"

definition vmm_copy :: "u64 \<Rightarrow> pmm \<Rightarrow> (u64 \<times> pmm) option" where
  "vmm_copy src s =
     (let (dst, s) = vmm_create s in
      if dst = 0 then Some (0, s)
      else
        let (r, s) = copywalk 3 dst src 0 s in
        if r < 0 then do { s \<leftarrow> vmm_free dst s; Some (0, s) }
        else Some (dst, s))"

subsection \<open>Checking user pointers\<close>

definition validate_page :: "u64 \<Rightarrow> u64 \<Rightarrow> pmm \<Rightarrow> int option" where
  "validate_page pagetable va s =
     (if va \<ge> USER_STACK then Some (-1)
      else do {
        (pte, s) \<leftarrow> walk pagetable va False s;
        if pte = 0 \<or> mem s pte AND PTE_VALID = 0 then Some (-1)
        else if mem s pte AND PTE_AP_EL0_BIT = 0 then Some (-1)
        else Some 0 })"

partial_function (option) validate_loop :: "u64 \<Rightarrow> bool \<Rightarrow> u64 \<Rightarrow> u64 \<Rightarrow> pmm \<Rightarrow> int option" where
  "validate_loop pagetable write page stop s =
     (if page \<le> stop then
        do {
          (pte, s) \<leftarrow> walk pagetable page False s;
          if pte = 0 \<or> mem s pte AND PTE_VALID = 0 then Some (-1)
          else if mem s pte AND PTE_AP_EL0_BIT = 0 then Some (-1)
          else if write \<and> mem s pte AND PTE_AP_RO_BIT \<noteq> 0 then Some (-1)
          else validate_loop pagetable write (page + PAGE_SIZE) stop s }
      else Some 0)"

definition vmm_validate :: "u64 \<Rightarrow> u64 \<Rightarrow> u64 \<Rightarrow> bool \<Rightarrow> pmm \<Rightarrow> int option" where
  "vmm_validate pagetable va len write s =
     (if len = 0 then Some 0
      else if va + len < va then Some (-1)
      else if va \<ge> USER_STACK \<or> va + len > USER_STACK then Some (-1)
      else
        let start = va AND NOT (PAGE_SIZE - 1);
            stop = (va + len - 1) AND NOT (PAGE_SIZE - 1)
        in validate_loop pagetable write start stop s)"

text \<open>\<^verbatim>\<open>vmm_copyinstr\<close> fills \<open>dst\<close>; its loop carries the page it is reading from.\<close>

function copyinstr_loop ::
  "u64 \<Rightarrow> u64 \<Rightarrow> u64 \<Rightarrow> u64 \<Rightarrow> u64 \<Rightarrow> u64 \<Rightarrow> bytes \<Rightarrow> pmm \<Rightarrow> (int \<times> bytes) option" where
  "copyinstr_loop pagetable srcva maxlen i cur_page cur_page_pa dst s =
     (if i < maxlen - 1 then
        do {
          let addr = srcva + i;
          let page = addr AND NOT (PAGE_SIZE - 1);
          next \<leftarrow>
            (if page \<noteq> cur_page then
               do {
                 v \<leftarrow> validate_page pagetable addr s;
                 if v < 0 then Some None
                 else do {
                   (pte, s) \<leftarrow> walk pagetable addr False s;
                   if pte = 0 \<or> mem s pte AND PTE_VALID = 0 then Some None
                   else Some (Some (page, mem s pte AND PTE_ADDR_MASK)) } }
             else Some (Some (cur_page, cur_page_pa)));
          case next of
            None \<Rightarrow> Some (-1, dst)
          | Some (cur_page, cur_page_pa) \<Rightarrow>
              (let pa = cur_page_pa + (addr AND (PAGE_SIZE - 1));
                   c = load8 (mem s) (PA_TO_VA pa);
                   dst = dst(unat i := c)
               in if c = 0 then Some (int_of_u64 i, dst)
                  else copyinstr_loop pagetable srcva maxlen (i + 1) cur_page cur_page_pa dst s) }
      else Some (int_of_u64 i, dst(unat i := 0)))"
  by pat_completeness auto
termination
proof (relation "measure (\<lambda>(pagetable, srcva, maxlen, i, cur_page, cur_page_pa, dst, s). unat (maxlen - 1) - unat i)",
    goal_cases)
  case 1
  show ?case by simp
next
  case prems: (2 pagetable srcva maxlen i)
  have "unat i < unat (maxlen - 1)" using prems(1) by (simp add: word_less_nat_alt)
  moreover have "unat (i + 1) = unat i + 1"
    using calculation unat_less_exp [of "maxlen - 1"] by (subst unat_plus_if_size) auto
  ultimately show ?case by simp
qed

declare copyinstr_loop.simps [simp del]

definition vmm_copyinstr :: "u64 \<Rightarrow> bytes \<Rightarrow> u64 \<Rightarrow> u64 \<Rightarrow> pmm \<Rightarrow> (int \<times> bytes) option" where
  "vmm_copyinstr pagetable dst srcva maxlen s =
     do {
       v \<leftarrow> validate_page pagetable srcva s;
       if v < 0 then Some (-1, dst)
       else do {
         (pte, s) \<leftarrow> walk pagetable srcva False s;
         if pte = 0 \<or> mem s pte AND PTE_VALID = 0 then Some (-1, dst)
         else copyinstr_loop pagetable srcva maxlen 0 (srcva AND NOT (PAGE_SIZE - 1))
                (mem s pte AND PTE_ADDR_MASK) dst s } }"

subsection \<open>Descriptor bits\<close>

definition valid_pte :: "u64 \<Rightarrow> bool" where
  "valid_pte e \<longleftrightarrow> e AND PTE_VALID \<noteq> 0"

definition pte_addr :: "u64 \<Rightarrow> u64" where
  "pte_addr e = e AND PTE_ADDR_MASK"

lemma valid_pte_bit: "valid_pte e \<longleftrightarrow> bit e 0"
  by (simp add: valid_pte_def PTE_VALID_def and_one_eq bit_0 odd_iff_mod_2_eq_one)

lemma not_valid_0 [simp]: "\<not> valid_pte 0"
  by (simp add: valid_pte_def)

lemma addr_mask_bits: "PTE_ADDR_MASK = push_bit 12 (mask 36)"
  by (simp add: PTE_ADDR_MASK_def mask_eq_exp_minus_1)

lemma bit_addr_mask: "bit PTE_ADDR_MASK n \<longleftrightarrow> 12 \<le> n \<and> n < 48"
  by (auto simp: addr_mask_bits bit_simps)

text \<open>A page-aligned address below $2^{48}$ survives the address mask.\<close>

lemma aligned_and_mask:
  assumes "IS_PAGE_ALIGNED p" "unat p < 2 ^ 48" shows "p AND PTE_ADDR_MASK = p"
proof -
  have lo: "take_bit 12 p = 0"
    using assms(1) by (simp add: IS_PAGE_ALIGNED_def page_mask take_bit_eq_mask)
  have hi: "take_bit 48 p = p"
    using assms(2) by (intro word_eq_unatI) (simp add: unsigned_take_bit_eq take_bit_nat_eq_self)
  have "12 \<le> n \<and> n < 48" if "bit p n" for n
  proof -
    have "\<not> n < 12" using that lo by (metis bit_0_eq bit_take_bit_iff bot_apply bot_bool_def)
    moreover have "n < 48" using that hi by (metis bit_take_bit_iff)
    ultimately show ?thesis by simp
  qed
  then show ?thesis by (intro bit_word_eqI) (auto simp: bit_and_iff bit_addr_mask)
qed

lemma page_ok_mask [simp]: "page_ok p \<Longrightarrow> p AND PTE_ADDR_MASK = p"
  by (rule aligned_and_mask) (auto simp: page_ok_iff aligned_iff)

lemma make_table_desc_valid [simp]: "valid_pte (make_table_desc p)"
  by (simp add: valid_pte_bit make_table_desc_def bit_or_iff PTE_VALID_def)

lemma make_table_desc_addr [simp]: "page_ok p \<Longrightarrow> pte_addr (make_table_desc p) = p"
  by (simp add: pte_addr_def make_table_desc_def bit.conj_disj_distrib2 PTE_TABLE_def PTE_VALID_def
      flip: PTE_ADDR_MASK_def) (simp add: PTE_ADDR_MASK_def)

text \<open>The flag bits of a user page descriptor, for any address.\<close>

lemma bit_push_1: "k < 64 \<Longrightarrow> bit (push_bit k 1 :: u64) n \<longleftrightarrow> n = k"
  by (auto simp: bit_push_bit_iff bit_1_iff simp del: push_bit_of_1)

lemma push_3: "push_bit k 3 = (push_bit k 1 OR push_bit (Suc k) 1 :: u64)"
proof -
  have "(3 :: u64) = 1 OR push_bit 1 1" by simp
  then show ?thesis by (simp only: push_bit_or push_bit_push_bit Suc_eq_plus1)
qed

lemma make_page_desc_user_bit:
  "bit (make_page_desc_user pa write exec) n \<longleftrightarrow>
     (bit pa n \<and> 12 \<le> n \<and> n < 48) \<or> n \<in> {0, 1, 2, 6, 8, 9, 10, 53} \<or>
     (n = 7 \<and> \<not> write) \<or> (n = 54 \<and> \<not> exec)"
proof -
  have flag: "bit PTE_VALID n \<longleftrightarrow> n = 0" "bit PTE_AF n \<longleftrightarrow> n = 10" "bit PTE_PXN n \<longleftrightarrow> n = 53"
    "bit PTE_SH_INNER n \<longleftrightarrow> n = 8 \<or> n = 9" "bit PTE_ATTR_NORMAL n \<longleftrightarrow> n = 2" "bit PTE_PAGE n \<longleftrightarrow> n = 1"
    "bit PTE_AP_RW_ALL n \<longleftrightarrow> n = 6" "bit PTE_AP_RO_ALL n \<longleftrightarrow> n = 6 \<or> n = 7" "bit PTE_UXN n \<longleftrightarrow> n = 54"
    using bit_push_1 [of 0 n]
    unfolding PTE_VALID_def PTE_AF_def PTE_SH_INNER_def PTE_ATTR_NORMAL_def PTE_PAGE_def
      PTE_AP_RW_ALL_def PTE_AP_RO_ALL_def PTE_UXN_def PTE_PXN_def push_3 bit_or_iff
    by (simp_all only: bit_push_1) (simp_all add: bit_push_1 bit_1_iff del: push_bit_of_1)
  show ?thesis
    unfolding make_page_desc_user_def Let_def
    by (cases "write"; cases exec)
      (simp_all only: bit_or_iff bit_and_iff bit_addr_mask flag if_True if_False not_True_eq_False
        not_False_eq_True insert_iff empty_iff, blast+)
qed

subsection \<open>Page tables as trees\<close>

text \<open>\<open>ent m t i\<close> is descriptor \<open>i\<close> of the table in the page at physical address \<open>t\<close>.\<close>

definition ent_addr :: "u64 \<Rightarrow> nat \<Rightarrow> u64" where
  "ent_addr t i = PA_TO_VA t + 8 * of_nat i"

definition ent :: "(u64 \<Rightarrow> u64) \<Rightarrow> u64 \<Rightarrow> nat \<Rightarrow> u64" where
  "ent m t i = m (ent_addr t i)"

text \<open>The pages of the tables at most \<open>d\<close> levels below \<open>t\<close>.\<close>

primrec tabs :: "nat \<Rightarrow> (u64 \<Rightarrow> u64) \<Rightarrow> u64 \<Rightarrow> u64 set" where
  "tabs 0 m t = {t}"
| "tabs (Suc d) m t = insert t (\<Union>i\<in>{i. i < 512 \<and> valid_pte (ent m t i)}. tabs d m (pte_addr (ent m t i)))"

text \<open>Well-formed: every table is a page of RAM, no table is reached twice, and an entry of an upper
  level that is not valid is zero.\<close>

primrec pt_wf :: "nat \<Rightarrow> (u64 \<Rightarrow> u64) \<Rightarrow> u64 \<Rightarrow> bool" where
  "pt_wf 0 m t \<longleftrightarrow> page_ok t"
| "pt_wf (Suc d) m t \<longleftrightarrow> page_ok t \<and>
     (\<forall>i<512. if valid_pte (ent m t i)
        then pt_wf d m (pte_addr (ent m t i)) \<and> t \<notin> tabs d m (pte_addr (ent m t i)) \<and>
             (\<forall>j<512. j \<noteq> i \<and> valid_pte (ent m t j) \<longrightarrow>
                tabs d m (pte_addr (ent m t i)) \<inter> tabs d m (pte_addr (ent m t j)) = {})
        else ent m t i = 0)"

text \<open>The table a path of indices leads to, and the valid descriptor at the end of a path.\<close>

fun table_at :: "(u64 \<Rightarrow> u64) \<Rightarrow> u64 \<Rightarrow> nat list \<Rightarrow> u64 option" where
  "table_at m t [] = Some t"
| "table_at m t (i # is) = (if valid_pte (ent m t i) then table_at m (pte_addr (ent m t i)) is else None)"

definition leaf :: "(u64 \<Rightarrow> u64) \<Rightarrow> u64 \<Rightarrow> nat list \<Rightarrow> nat \<Rightarrow> u64 option" where
  "leaf m t is j =
     (case table_at m t is of None \<Rightarrow> None
      | Some u \<Rightarrow> if valid_pte (ent m u j) then Some (ent m u j) else None)"

lemma ent_addr_in_page [simp]: "i < 512 \<Longrightarrow> in_page t (ent_addr t i)"
  by (auto simp: in_page_def ent_addr_def)

lemma ent_addr_inject [simp]:
  assumes "i < 512" "j < 512"
  shows "ent_addr t i = ent_addr t j \<longleftrightarrow> i = j"
proof
  assume "ent_addr t i = ent_addr t j"
  then have "of_nat (8 * i) = (of_nat (8 * j) :: u64)" by (simp add: ent_addr_def)
  then have "unat (of_nat (8 * i) :: u64) = unat (of_nat (8 * j) :: u64)" by (rule arg_cong)
  then show "i = j" using assms by (simp add: unat_of_nat_small del: of_nat_mult)
qed simp

lemma ent_addr_page:
  "i < 512 \<Longrightarrow> page_ok t \<Longrightarrow> page_ok u \<Longrightarrow> in_page u (ent_addr t i) \<longleftrightarrow> u = t"
  using in_page_unique ent_addr_in_page by blast

lemma tabs_self [simp]: "t \<in> tabs d m t"
  by (cases d) auto

lemma tabs_Suc_iff:
  "p \<in> tabs (Suc d) m t \<longleftrightarrow>
     p = t \<or> (\<exists>j<512. valid_pte (ent m t j) \<and> p \<in> tabs d m (pte_addr (ent m t j)))"
  by auto

lemma tabs_page_ok: "pt_wf d m t \<Longrightarrow> p \<in> tabs d m t \<Longrightarrow> page_ok p"
  by (induction d arbitrary: t) (auto split: if_splits)

definition same_on :: "u64 set \<Rightarrow> (u64 \<Rightarrow> u64) \<Rightarrow> (u64 \<Rightarrow> u64) \<Rightarrow> bool" where
  "same_on P m m' \<longleftrightarrow> (\<forall>p\<in>P. \<forall>a. in_page p a \<longrightarrow> m' a = m a)"

lemma same_on_ent: "same_on P m m' \<Longrightarrow> t \<in> P \<Longrightarrow> i < 512 \<Longrightarrow> ent m' t i = ent m t i"
  by (auto simp: same_on_def ent_def)

lemma same_on_subset: "same_on P m m' \<Longrightarrow> Q \<subseteq> P \<Longrightarrow> same_on Q m m'"
  by (auto simp: same_on_def)

lemma same_on_child:
  "same_on (tabs (Suc d) m t) m m' \<Longrightarrow> i < 512 \<Longrightarrow> valid_pte (ent m t i) \<Longrightarrow>
   same_on (tabs d m (pte_addr (ent m t i))) m m'"
  by (erule same_on_subset) auto

lemma tabs_frame: "same_on (tabs d m t) m m' \<Longrightarrow> tabs d m' t = tabs d m t"
proof (induction d arbitrary: t)
  case (Suc d)
  have e: "ent m' t i = ent m t i" if "i < 512" for i
    using same_on_ent [OF Suc.prems] that by simp
  moreover have "tabs d m' (pte_addr (ent m t i)) = tabs d m (pte_addr (ent m t i))"
    if "i < 512" "valid_pte (ent m t i)" for i
    using that by (intro Suc.IH same_on_child [OF Suc.prems])
  ultimately show ?case by auto
qed simp

lemma pt_wf_frame: "same_on (tabs d m t) m m' \<Longrightarrow> pt_wf d m t \<Longrightarrow> pt_wf d m' t"
proof (induction d arbitrary: t)
  case (Suc d)
  have e: "ent m' t i = ent m t i" if "i < 512" for i
    using same_on_ent [OF Suc.prems(1)] that by simp
  have tb: "tabs d m' (pte_addr (ent m t i)) = tabs d m (pte_addr (ent m t i))"
    if "i < 512" "valid_pte (ent m t i)" for i
    using that by (intro tabs_frame same_on_child [OF Suc.prems(1)])
  have "pt_wf d m' (pte_addr (ent m t i))" if "i < 512" "valid_pte (ent m t i)" for i
    using that Suc.prems(2) by (intro Suc.IH same_on_child [OF Suc.prems(1)]) auto
  with Suc.prems(2) show ?case by (simp add: e tb)
qed simp

lemma table_at_frame:
  "same_on (tabs d m t) m m' \<Longrightarrow> length is \<le> d \<Longrightarrow> \<forall>i\<in>set is. i < 512 \<Longrightarrow>
   table_at m' t is = table_at m t is"
proof (induction d arbitrary: t "is")
  case (Suc d)
  show ?case
  proof (cases "is")
    case (Cons i js)
    have "ent m' t i = ent m t i"
      using same_on_ent [OF Suc.prems(1)] Suc.prems(3) Cons by simp
    moreover have "table_at m' (pte_addr (ent m t i)) js = table_at m (pte_addr (ent m t i)) js"
      if "valid_pte (ent m t i)"
      using that Suc.prems Cons by (intro Suc.IH same_on_child [OF Suc.prems(1)]) auto
    ultimately show ?thesis using Cons by simp
  qed simp
qed simp

lemma table_at_tabs:
  "table_at m t is = Some u \<Longrightarrow> length is \<le> d \<Longrightarrow> \<forall>i\<in>set is. i < 512 \<Longrightarrow> u \<in> tabs d m t"
proof (induction d arbitrary: t "is")
  case (Suc d)
  then show ?case by (cases "is") (auto split: if_splits)
qed simp

lemma leaf_frame:
  assumes "same_on (tabs d m t) m m'" "length is \<le> d" "\<forall>i\<in>set is. i < 512" "j < 512"
  shows "leaf m' t is j = leaf m t is j"
proof (cases "table_at m t is")
  case None
  then show ?thesis using table_at_frame [OF assms(1-3)] by (simp add: leaf_def)
next
  case (Some u)
  then have "ent m' u j = ent m u j"
    using same_on_ent [OF assms(1) table_at_tabs [OF Some assms(2,3)] assms(4)] by simp
  with Some show ?thesis using table_at_frame [OF assms(1-3)] by (simp add: leaf_def)
qed

subsection \<open>Growing the tree\<close>

definition same_outside :: "u64 set \<Rightarrow> (u64 \<Rightarrow> u64) \<Rightarrow> (u64 \<Rightarrow> u64) \<Rightarrow> bool" where
  "same_outside P m m' \<longleftrightarrow> (\<forall>a. (\<forall>p\<in>P. \<not> in_page p a) \<longrightarrow> m' a = m a)"

lemma same_outside_same_on:
  assumes "same_outside P m m'" "\<forall>p\<in>P. page_ok p" "\<forall>q\<in>Q. page_ok q" "P \<inter> Q = {}"
  shows "same_on Q m m'"
  unfolding same_on_def
proof (intro ballI allI impI)
  fix q a assume "q \<in> Q" "in_page q a"
  then have "\<forall>p\<in>P. \<not> in_page p a" using assms(2-4) in_page_unique by blast
  with assms(1) show "m' a = m a" by (simp add: same_outside_def)
qed

lemma same_outside_mono: "same_outside P m m' \<Longrightarrow> P \<subseteq> P' \<Longrightarrow> same_outside P' m m'"
  unfolding same_outside_def by blast

lemma same_outside_trans: "same_outside P m m' \<Longrightarrow> same_outside P m' m'' \<Longrightarrow> same_outside P m m''"
  unfolding same_outside_def by simp

lemma zero_table:
  assumes "page_ok p" "\<forall>i<512. ent m p i = 0"
  shows "pt_wf d m p" "tabs d m p = {p}"
  using assms by (cases d; auto)+

lemma zero_table_leaf:
  assumes "\<forall>i<512. ent m p i = 0" "\<forall>i\<in>set is. i < 512" "j < 512"
  shows "leaf m p is j = None"
  using assms by (cases "is") (auto simp: leaf_def)

lemma leaf_Cons:
  "leaf m t (i # is) j = (if valid_pte (ent m t i) then leaf m (pte_addr (ent m t i)) is j else None)"
  by (simp add: leaf_def)

text \<open>A child's subtree changes, by writes to its own tables and to fresh pages \<open>Q\<close> only: the rest of
  the tree is as before.\<close>

lemma child_changed:
  assumes wf: "pt_wf (Suc d) m t" and i: "i < 512" "valid_pte (ent m t i)"
    and c: "c = pte_addr (ent m t i)" and wfc: "pt_wf d m' c"
    and tb: "tabs d m' c \<subseteq> tabs d m c \<union> Q" and out: "same_outside (tabs d m c \<union> Q) m m'"
    and Q: "Q \<inter> tabs (Suc d) m t = {}" "\<forall>q\<in>Q. page_ok q"
  shows "pt_wf (Suc d) m' t" and "tabs (Suc d) m' t \<subseteq> tabs (Suc d) m t \<union> Q"
    and "\<forall>j<512. ent m' t j = ent m t j"
    and "\<forall>j<512. \<forall>js k. j \<noteq> i \<and> length js \<le> d \<and> (\<forall>x\<in>set js. x < 512) \<and> k < 512 \<longrightarrow>
           leaf m' t (j # js) k = leaf m t (j # js) k"
proof -
  have "pt_wf d m c" using wf i c by auto
  then have okP: "\<forall>p\<in>tabs d m c \<union> Q. page_ok p"
    using Q(2) tabs_page_ok by blast
  have keep: "same_on P m m'" if "P \<subseteq> tabs (Suc d) m t" "P \<inter> tabs d m c = {}" for P
  proof (rule same_outside_same_on [OF out okP])
    show "\<forall>q\<in>P. page_ok q" using that(1) tabs_page_ok [OF wf] by blast
    show "(tabs d m c \<union> Q) \<inter> P = {}" using that Q(1) by blast
  qed
  have "same_on {t} m m'" using wf i c by (intro keep) auto
  then have e: "ent m' t j = ent m t j" if "j < 512" for j
    using that same_on_ent by blast
  then show "\<forall>j<512. ent m' t j = ent m t j" by blast
  have sib: "same_on (tabs d m (pte_addr (ent m t j))) m m'"
    if "j < 512" "j \<noteq> i" "valid_pte (ent m t j)" for j
    using that wf i c by (intro keep) auto
  have wf_child: "pt_wf d m (pte_addr (ent m t j))" "t \<notin> tabs d m (pte_addr (ent m t j))"
    if "j < 512" "valid_pte (ent m t j)" for j
    using that wf by auto
  have sib_tabs: "tabs d m' (pte_addr (ent m t j)) = tabs d m (pte_addr (ent m t j))"
    and sib_wf: "pt_wf d m' (pte_addr (ent m t j))"
    if "j < 512" "j \<noteq> i" "valid_pte (ent m t j)" for j
    using tabs_frame [OF sib [OF that]] pt_wf_frame [OF sib [OF that] wf_child(1) [OF that(1,3)]] by simp_all
  have sub: "tabs d m' (pte_addr (ent m t j)) \<subseteq> tabs d m (pte_addr (ent m t j)) \<union> Q"
    if "j < 512" "valid_pte (ent m t j)" for j
    using that tb c sib_tabs by (cases "j = i") auto
  show "tabs (Suc d) m' t \<subseteq> tabs (Suc d) m t \<union> Q"
  proof
    fix p assume "p \<in> tabs (Suc d) m' t"
    then consider "p = t" | j where "j < 512" "valid_pte (ent m t j)" "p \<in> tabs d m' (pte_addr (ent m t j))"
      by (auto simp: tabs_Suc_iff e)
    then show "p \<in> tabs (Suc d) m t \<union> Q"
    proof cases
      case 2
      then have "p \<in> tabs d m (pte_addr (ent m t j)) \<union> Q" using sub by blast
      with 2 show ?thesis by (auto simp: tabs_Suc_iff)
    qed simp
  qed
  have tQ: "t \<notin> Q" using Q(1) by auto
  have disj: "tabs d m' (pte_addr (ent m t j)) \<inter> tabs d m' (pte_addr (ent m t k)) = {}"
    if "j < 512" "valid_pte (ent m t j)" "k < 512" "valid_pte (ent m t k)" "k \<noteq> j" for j k
  proof -
    have old: "tabs d m (pte_addr (ent m t j)) \<inter> tabs d m (pte_addr (ent m t k)) = {}"
      using wf that by auto
    have sep: "tabs d m (pte_addr (ent m t x)) \<inter> Q = {}" if "x < 512" "valid_pte (ent m t x)" for x
      using Q(1) that by auto
    from that(5) have "j \<noteq> i \<or> k \<noteq> i" by blast
    then show ?thesis
      using old sep that sib_tabs [of j] sib_tabs [of k] sub [of j] sub [of k] by blast
  qed
  have up: "t \<notin> tabs d m' (pte_addr (ent m t j))" if "j < 512" "valid_pte (ent m t j)" for j
    using wf_child(2) [OF that] sub [OF that] tQ by blast
  have all_wf: "pt_wf d m' (pte_addr (ent m t j))" if "j < 512" "valid_pte (ent m t j)" for j
    using that wfc c sib_wf by (cases "j = i") auto
  have zero: "ent m t j = 0" if "j < 512" "\<not> valid_pte (ent m t j)" for j
    using wf that by auto
  show "pt_wf (Suc d) m' t"
    using wf by (auto simp: e up all_wf zero disj)
  show "\<forall>j<512. \<forall>js k. j \<noteq> i \<and> length js \<le> d \<and> (\<forall>x\<in>set js. x < 512) \<and> k < 512 \<longrightarrow>
           leaf m' t (j # js) k = leaf m t (j # js) k"
    using sib by (auto simp: leaf_Cons e intro!: leaf_frame)
qed

text \<open>A fresh zeroed page becomes the child at an unused entry.\<close>

lemma new_child:
  assumes wf: "pt_wf (Suc d) m t" and i: "i < 512" "\<not> valid_pte (ent m t i)"
    and p: "page_ok p" "p \<notin> tabs (Suc d) m t"
    and m1: "\<And>a. m1 a = (if a = ent_addr t i then make_table_desc p else if in_page p a then 0 else m a)"
  shows "pt_wf (Suc d) m1 t" and "tabs (Suc d) m1 t = insert p (tabs (Suc d) m t)"
    and "ent m1 t i = make_table_desc p" and "\<forall>j<512. ent m1 p j = 0"
    and "\<forall>j js k. j < 512 \<and> length js \<le> d \<and> (\<forall>x\<in>set js. x < 512) \<and> k < 512 \<longrightarrow>
           leaf m1 t (j # js) k = leaf m t (j # js) k"
proof -
  have t: "page_ok t" and pt: "p \<noteq> t" using wf p by auto
  show e_i: "ent m1 t i = make_table_desc p" by (simp add: ent_def m1)
  have e: "ent m1 t j = ent m t j" if "j < 512" "j \<noteq> i" for j
    using that i t p pt by (simp add: ent_def m1 ent_addr_page)
  show z: "\<forall>j<512. ent m1 p j = 0"
    using i t p pt ent_addr_page ent_addr_in_page by (auto simp: ent_def m1) metis
  have wf_child: "pt_wf d m (pte_addr (ent m t j))" "t \<notin> tabs d m (pte_addr (ent m t j))"
    "p \<notin> tabs d m (pte_addr (ent m t j))" if "j < 512" "valid_pte (ent m t j)" for j
    using that wf p by auto
  have sib: "same_on (tabs d m (pte_addr (ent m t j))) m m1" if "j < 512" "valid_pte (ent m t j)" for j
    unfolding same_on_def
  proof (intro ballI allI impI)
    fix q a assume q: "q \<in> tabs d m (pte_addr (ent m t j))" "in_page q a"
    have "page_ok q" using tabs_page_ok [OF wf_child(1) [OF that] q(1)] .
    moreover have "q \<noteq> t" "q \<noteq> p" using q(1) wf_child(2,3) [OF that] by auto
    ultimately have "\<not> in_page p a" "a \<noteq> ent_addr t i"
      using q(2) p(1) t i(1) in_page_unique ent_addr_in_page by blast+
    then show "m1 a = m a" by (simp add: m1)
  qed
  have sib_tabs: "tabs d m1 (pte_addr (ent m t j)) = tabs d m (pte_addr (ent m t j))"
    and sib_wf: "pt_wf d m1 (pte_addr (ent m t j))" if "j < 512" "valid_pte (ent m t j)" for j
    using tabs_frame [OF sib [OF that]] pt_wf_frame [OF sib [OF that] wf_child(1) [OF that]] by simp_all
  have child: "pte_addr (ent m1 t i) = p" "pt_wf d m1 p" "tabs d m1 p = {p}"
    using p(1) zero_table [OF p(1) z] by (simp_all add: e_i)
  have ne: "j \<noteq> i" if "valid_pte (ent m t j)" for j using that i(2) by auto
  show "tabs (Suc d) m1 t = insert p (tabs (Suc d) m t)"
  proof (rule set_eqI)
    fix q
    have "q \<in> tabs (Suc d) m1 t \<longleftrightarrow> q = t \<or> q = p \<or>
        (\<exists>j<512. j \<noteq> i \<and> valid_pte (ent m1 t j) \<and> q \<in> tabs d m1 (pte_addr (ent m1 t j)))"
      unfolding tabs_Suc_iff using child i(1) e_i by (metis make_table_desc_valid singletonD singletonI)
    also have "\<dots> \<longleftrightarrow> q = p \<or> q \<in> tabs (Suc d) m t"
      unfolding tabs_Suc_iff using e sib_tabs ne by (metis (no_types, lifting))
    finally show "q \<in> tabs (Suc d) m1 t \<longleftrightarrow> q \<in> insert p (tabs (Suc d) m t)" by simp
  qed
  have disj: "tabs d m (pte_addr (ent m t j)) \<inter> tabs d m (pte_addr (ent m t k)) = {}"
    if "j < 512" "valid_pte (ent m t j)" "k < 512" "valid_pte (ent m t k)" "k \<noteq> j" for j k
    using wf that by auto
  have zero: "ent m t j = 0" if "j < 512" "\<not> valid_pte (ent m t j)" for j
    using wf that by auto
  have "if valid_pte (ent m1 t j)
        then pt_wf d m1 (pte_addr (ent m1 t j)) \<and> t \<notin> tabs d m1 (pte_addr (ent m1 t j)) \<and>
             (\<forall>k<512. k \<noteq> j \<and> valid_pte (ent m1 t k) \<longrightarrow>
                tabs d m1 (pte_addr (ent m1 t j)) \<inter> tabs d m1 (pte_addr (ent m1 t k)) = {})
        else ent m1 t j = 0" if j: "j < 512" for j
  proof (cases "j = i")
    case True
    have "tabs d m1 p \<inter> tabs d m1 (pte_addr (ent m1 t k)) = {}"
      if "k < 512" "k \<noteq> i" "valid_pte (ent m1 t k)" for k
      using that e child(3) sib_tabs wf_child(3) by simp
    with True child pt show ?thesis by (simp add: e_i p(1))
  next
    case False
    have "tabs d m1 (pte_addr (ent m t j)) \<inter> tabs d m1 (pte_addr (ent m1 t k)) = {}"
      if "k < 512" "k \<noteq> j" "valid_pte (ent m1 t k)" "valid_pte (ent m t j)" for k
      using that j e child sib_tabs wf_child(3) disj by (cases "k = i") auto
    with False j show ?thesis by (simp add: e sib_wf sib_tabs wf_child zero)
  qed
  then show "pt_wf (Suc d) m1 t" using t by simp
  have "leaf m1 t (j # js) k = leaf m t (j # js) k"
    if "j < 512" "length js \<le> d" "\<forall>x\<in>set js. x < 512" "k < 512" for j js k
  proof (cases "j = i")
    case True
    then show ?thesis
      using i(2) that zero_table_leaf [OF z that(3,4)] by (simp add: leaf_Cons e_i p(1))
  next
    case False
    then show ?thesis
      using that e leaf_frame [OF sib that(2-4)] by (simp add: leaf_Cons)
  qed
  then show "\<forall>j js k. j < 512 \<and> length js \<le> d \<and> (\<forall>x\<in>set js. x < 512) \<and> k < 512 \<longrightarrow>
           leaf m1 t (j # js) k = leaf m t (j # js) k" by blast
qed

subsection \<open>Undoing\<close>

text \<open>Two states with the same free pages that differ at most inside those pages.\<close>

definition restored :: "pmm \<Rightarrow> pmm \<Rightarrow> u64 list \<Rightarrow> bool" where
  "restored s s' ps \<longleftrightarrow> pmm_inv s ps \<and> pmm_inv s' ps \<and> same_outside (set ps) (mem s) (mem s')"

lemma restored_refl [simp]: "pmm_inv s ps \<Longrightarrow> restored s s ps"
  by (simp add: restored_def same_outside_def)

lemma undo_step:
  assumes inv: "pmm_inv s (p # ps)" and e: "\<forall>q\<in>set (p # ps). \<not> in_page q e" "mem s e = 0"
    and s1: "s1 = (snd (pmm_alloc s))\<lparr>mem := (mem (snd (pmm_alloc s)))(e := v)\<rparr>"
    and s1': "restored s1 s1' ps"
  shows "\<exists>s2. pmm_free p (s1'\<lparr>mem := (mem s1')(e := 0)\<rparr>) = Some s2 \<and> restored s s2 (p # ps)"
proof -
  let ?t = "s1'\<lparr>mem := (mem s1')(e := 0)\<rparr>"
  have "pmm_inv ?t ps" using s1' e(1) by (intro pmm_inv_store) (auto simp: restored_def)
  moreover have ok: "page_ok p" "p \<notin> set ps" "insort p ps = p # ps"
    using inv pmm_inv_distinct [OF inv] by (auto simp: pmm_inv_def insort_is_Cons less_imp_le)
  ultimately obtain s2 where s2: "pmm_free p ?t = Some s2" "pmm_inv s2 (p # ps)"
    and fr: "\<forall>a. (\<forall>q\<in>set (p # ps). \<not> in_page q a) \<longrightarrow> mem s2 a = mem ?t a"
    using pmm_free_insort_frame [of ?t ps p] by auto
  have "mem s2 a = mem s a" if a: "\<forall>q\<in>set (p # ps). \<not> in_page q a" for a
  proof (cases "a = e")
    case True
    then show ?thesis using fr a e(2) by simp
  next
    case False
    have "mem s1' a = mem s1 a" using s1' a by (simp add: restored_def same_outside_def)
    also have "\<dots> = mem s a" using False a pmm_alloc_Cons(4) [OF inv] by (simp add: s1)
    finally show ?thesis using fr a False by simp
  qed
  with s2 inv show ?thesis by (auto simp: restored_def same_outside_def)
qed

subsection \<open>The walk that allocates\<close>

text \<open>Outcome of an allocating walk along \<open>is\<close> from the table at \<open>t\<close> (\<open>d\<close> levels): either memory ran
  out and the entries made so far are undone, or the path exists now, made of some of the free
  pages, with every mapping as before.\<close>

definition walk_failed :: "nat \<Rightarrow> nat list \<Rightarrow> u64 \<Rightarrow> (u64 \<times> u64) list \<Rightarrow> pmm \<Rightarrow> u64 list \<Rightarrow> bool" where
  "walk_failed d is t allocs s ps \<longleftrightarrow>
     (\<exists>s'. restored s s' ps \<and> table_at (mem s) t is = None \<and> length ps < d \<and>
       walk_levels (map of_nat is) (PA_TO_VA t) True allocs s =
       walk_undo allocs s' \<bind> (\<lambda>s. Some (None, s)))"

definition walk_done :: "nat \<Rightarrow> nat list \<Rightarrow> u64 \<Rightarrow> (u64 \<times> u64) list \<Rightarrow> pmm \<Rightarrow> u64 list \<Rightarrow> bool" where
  "walk_done d is t allocs s ps \<longleftrightarrow>
     (\<exists>s' u qs ps'. walk_levels (map of_nat is) (PA_TO_VA t) True allocs s = Some (Some (PA_TO_VA u), s') \<and>
        ps = qs @ ps' \<and> pmm_inv s' ps' \<and> pt_wf d (mem s') t \<and>
        tabs d (mem s') t \<subseteq> tabs d (mem s) t \<union> set qs \<and> table_at (mem s') t is = Some u \<and>
        same_outside (tabs d (mem s) t \<union> set qs) (mem s) (mem s') \<and>
        (\<forall>js k. length js = d \<and> (\<forall>x\<in>set js. x < 512) \<and> k < 512 \<longrightarrow>
           leaf (mem s') t js k = leaf (mem s) t js k))"

lemma walk_done_child:
  assumes wf: "pt_wf (Suc d) (mem s) t" and inv: "pmm_inv s ps" and fresh: "tabs (Suc d) (mem s) t \<inter> set ps = {}"
    and i: "i < 512" "valid_pte (ent (mem s) t i)"
    and sub: "walk_done d is (pte_addr (ent (mem s) t i)) allocs s ps"
  shows "walk_done (Suc d) (i # is) t allocs s ps"
proof -
  let ?c = "pte_addr (ent (mem s) t i)"
  obtain s' u qs ps' where w: "walk_levels (map of_nat is) (PA_TO_VA ?c) True allocs s = Some (Some (PA_TO_VA u), s')"
    and ps: "ps = qs @ ps'" "pmm_inv s' ps'" and wfc: "pt_wf d (mem s') ?c"
    and tb: "tabs d (mem s') ?c \<subseteq> tabs d (mem s) ?c \<union> set qs" and u: "table_at (mem s') ?c is = Some u"
    and out: "same_outside (tabs d (mem s) ?c \<union> set qs) (mem s) (mem s')"
    and lf: "\<forall>js k. length js = d \<and> (\<forall>x\<in>set js. x < 512) \<and> k < 512 \<longrightarrow> leaf (mem s') ?c js k = leaf (mem s) ?c js k"
    using sub unfolding walk_done_def by blast
  have Q: "set qs \<inter> tabs (Suc d) (mem s) t = {}" "\<forall>q\<in>set qs. page_ok q"
    using fresh ps(1) inv pmm_inv_page_ok by auto
  note ch = child_changed [OF wf i refl wfc tb out Q]
  have e: "ent (mem s') t j = ent (mem s) t j" if "j < 512" for j using ch(3) that by simp
  have "walk_levels (map of_nat (i # is)) (PA_TO_VA t) True allocs s = Some (Some (PA_TO_VA u), s')"
    using w i(2) by (simp add: ent_def ent_addr_def valid_pte_def pte_addr_def)
  moreover have "table_at (mem s') t (i # is) = Some u" using u i e by simp
  moreover have "leaf (mem s') t js k = leaf (mem s) t js k"
    if js: "length js = Suc d" "\<forall>x\<in>set js. x < 512" and k: "k < 512" for js k
  proof -
    obtain j js' where Cons: "js = j # js'" using js(1) by (cases js) auto
    show ?thesis
    proof (cases "j = i")
      case True
      then show ?thesis using Cons js k i e lf by (simp add: leaf_Cons)
    next
      case False
      then show ?thesis using Cons js k ch(4) by simp
    qed
  qed
  moreover have "same_outside (tabs (Suc d) (mem s) t \<union> set qs) (mem s) (mem s')"
    using i by (intro same_outside_mono [OF out]) (auto simp: tabs_Suc_iff)
  ultimately show ?thesis unfolding walk_done_def using ps ch(1,2) by blast
qed

lemma walk_done_grown:
  assumes dn: "walk_done (Suc d) (i # is) t allocs1 s1 ps"
    and tb: "tabs (Suc d) (mem s1) t = insert p (tabs (Suc d) (mem s) t)"
    and lf: "\<forall>j js k. j < 512 \<and> length js \<le> d \<and> (\<forall>x\<in>set js. x < 512) \<and> k < 512 \<longrightarrow>
           leaf (mem s1) t (j # js) k = leaf (mem s) t (j # js) k"
    and wl: "walk_levels (map of_nat (i # is)) (PA_TO_VA t) True allocs s =
             walk_levels (map of_nat (i # is)) (PA_TO_VA t) True allocs1 s1"
    and p: "page_ok p"
    and m1: "\<And>a. mem s1 a = (if a = ent_addr t i then make_table_desc p else if in_page p a then 0 else mem s a)"
    and i: "i < 512"
  shows "walk_done (Suc d) (i # is) t allocs s (p # ps)"
proof -
  obtain s' u qs ps' where
    w: "walk_levels (map of_nat (i # is)) (PA_TO_VA t) True allocs1 s1 = Some (Some (PA_TO_VA u), s')"
    and ps: "ps = qs @ ps'" "pmm_inv s' ps'" and wf: "pt_wf (Suc d) (mem s') t"
    and tb': "tabs (Suc d) (mem s') t \<subseteq> tabs (Suc d) (mem s1) t \<union> set qs"
    and u: "table_at (mem s') t (i # is) = Some u"
    and out: "same_outside (tabs (Suc d) (mem s1) t \<union> set qs) (mem s1) (mem s')"
    and lf': "\<forall>js k. length js = Suc d \<and> (\<forall>x\<in>set js. x < 512) \<and> k < 512 \<longrightarrow>
           leaf (mem s') t js k = leaf (mem s1) t js k"
    using dn unfolding walk_done_def by blast
  let ?P = "tabs (Suc d) (mem s) t \<union> set (p # qs)"
  have "in_page t (ent_addr t i)" "t \<in> ?P" using i by simp_all
  then have "same_outside ?P (mem s) (mem s1)"
    unfolding same_outside_def m1 by (metis Un_iff list.set_intros(1))
  moreover have "same_outside ?P (mem s1) (mem s')"
    using out unfolding tb by (rule same_outside_mono) auto
  ultimately have "same_outside ?P (mem s) (mem s')" by (rule same_outside_trans)
  moreover have "tabs (Suc d) (mem s') t \<subseteq> ?P" using tb' unfolding tb by auto
  moreover have "leaf (mem s') t js k = leaf (mem s) t js k"
    if "length js = Suc d" "\<forall>x\<in>set js. x < 512" "k < 512" for js k
    using that lf' lf by (cases js) auto
  ultimately show ?thesis
    unfolding walk_done_def wl w using ps wf u by (intro exI [of _ s'] exI [of _ u] exI [of _ "p # qs"] exI [of _ ps']) auto
qed

lemma walk_levels_alloc:
  assumes "pt_wf d (mem s) t" "pmm_inv s ps" "tabs d (mem s) t \<inter> set ps = {}"
    "length is = d" "\<forall>i\<in>set is. i < 512"
  shows "walk_failed d is t allocs s ps \<or> walk_done d is t allocs s ps"
  using assms
proof (induction d arbitrary: s t ps "is" allocs)
  case 0
  then have "walk_done 0 [] t allocs s ps"
    unfolding walk_done_def
    by (intro exI [of _ s] exI [of _ t] exI [of _ "[]"] exI [of _ ps]) (simp add: same_outside_def)
  with 0 show ?case by simp
next
  case (Suc d)
  obtain i js where is': "is = i # js" "length js = d" "i < 512" "\<forall>x\<in>set js. x < 512"
    using Suc.prems(4,5) by (cases "is") auto
  let ?e = "ent (mem s) t i"
  have t: "page_ok t" "t \<notin> set ps" using Suc.prems(1,3) by auto
  show ?case
  proof (cases "valid_pte ?e")
    case True
    have "pt_wf d (mem s) (pte_addr ?e)" "tabs d (mem s) (pte_addr ?e) \<inter> set ps = {}"
      using Suc.prems(1,3) True is'(3) by (auto simp: tabs_Suc_iff)
    from Suc.IH [OF this(1) Suc.prems(2) this(2) is'(2,4), of allocs] show ?thesis
    proof
      assume "walk_failed d js (pte_addr ?e) allocs s ps"
      then have "walk_failed (Suc d) is t allocs s ps"
        using True is' unfolding walk_failed_def
        by (auto simp: ent_def ent_addr_def valid_pte_def pte_addr_def)
      then show ?thesis ..
    next
      assume "walk_done d js (pte_addr ?e) allocs s ps"
      from walk_done_child [OF Suc.prems(1-3) is'(3) True this] show ?thesis using is'(1) by simp
    qed
  next
    case False
    then have e0: "?e = 0" using Suc.prems(1) is'(3) by auto
    have none: "table_at (mem s) t is = None" using False is'(1) by simp
    show ?thesis
    proof (cases ps)
      case Nil
      have "walk_levels (map of_nat is) (PA_TO_VA t) True allocs s = walk_undo allocs s \<bind> (\<lambda>s. Some (None, s))"
        using False is'(1) pmm_alloc_Nil Suc.prems(2) Nil
        by (simp add: ent_def ent_addr_def valid_pte_def)
      then have "walk_failed (Suc d) is t allocs s ps"
        unfolding walk_failed_def using none Nil Suc.prems(2) by (intro exI [of _ s]) simp
      then show ?thesis ..
    next
      case (Cons p ps1)
      let ?a = "ent_addr t i"
      define s0 where "s0 = snd (pmm_alloc s)"
      define s1 where "s1 = s0\<lparr>mem := (mem s0)(?a := make_table_desc p)\<rparr>"
      have inv: "pmm_inv s (p # ps1)" using Suc.prems(2) Cons by simp
      have p: "page_ok p" "p \<notin> set ps1" "p \<notin> tabs (Suc d) (mem s) t" "p \<noteq> PMM_INVALID"
        using inv pmm_inv_distinct [OF inv] Suc.prems(3) Cons page_ok_PMM_INVALID
        by (auto simp: pmm_inv_def simp del: page_ok_PMM_INVALID tabs.simps)
      have al: "pmm_alloc s = (p, s0)" using pmm_alloc_Cons(1) [OF inv] by (simp add: s0_def prod_eq_iff)
      have m1: "mem s1 a = (if a = ?a then make_table_desc p else if in_page p a then 0 else mem s a)" for a
        using pmm_alloc_Cons(3,4) [OF inv] by (simp add: s1_def s0_def)
      note nc = new_child [OF Suc.prems(1) is'(3) False p(1,3) m1]
      have na: "\<forall>q\<in>set (p # ps1). \<not> in_page q ?a"
      proof
        fix q assume "q \<in> set (p # ps1)"
        then have "page_ok q" "q \<noteq> t" using pmm_inv_page_ok [OF inv] t(2) Cons by auto
        then show "\<not> in_page q ?a" using ent_addr_page [OF is'(3) t(1)] by simp
      qed
      have inv1: "pmm_inv s1 ps1"
        using pmm_alloc_Cons(2) [OF inv] na unfolding s1_def s0_def by (intro pmm_inv_store) auto
      have v1: "valid_pte (ent (mem s1) t i)" "pte_addr (ent (mem s1) t i) = p"
        using nc(3) p(1) by simp_all
      have wl: "walk_levels (map of_nat is) (PA_TO_VA t) True allocs s =
          walk_levels (map of_nat js) (PA_TO_VA p) True ((?a, p) # allocs) s1"
        using False is'(1) al p(4) by (simp add: ent_def ent_addr_def valid_pte_def s1_def Let_def)
      have zt: "pt_wf d (mem s1) p" "tabs d (mem s1) p \<inter> set ps1 = {}"
        using zero_table [OF p(1) nc(4)] p(2) by auto
      from Suc.IH [OF zt(1) inv1 zt(2) is'(2,4), of "(?a, p) # allocs"] show ?thesis
      proof
        assume "walk_failed d js p ((?a, p) # allocs) s1 ps1"
        then obtain s1' where r: "restored s1 s1' ps1" "length ps1 < d" and
          w: "walk_levels (map of_nat js) (PA_TO_VA p) True ((?a, p) # allocs) s1 =
              walk_undo ((?a, p) # allocs) s1' \<bind> (\<lambda>s. Some (None, s))"
          unfolding walk_failed_def by blast
        obtain s2 where "pmm_free p (s1'\<lparr>mem := (mem s1')(?a := 0)\<rparr>) = Some s2" "restored s s2 (p # ps1)"
          using undo_step [OF inv na _ _ r(1)] e0 by (auto simp: ent_def s1_def s0_def)
        then have "walk_failed (Suc d) is t allocs s ps"
          unfolding walk_failed_def using wl w r(2) none Cons by (intro exI [of _ s2]) simp
        then show ?thesis ..
      next
        assume dn: "walk_done d js p ((?a, p) # allocs) s1 ps1"
        have "tabs (Suc d) (mem s1) t \<inter> set ps1 = {}"
          unfolding nc(2) using p(2) Suc.prems(3) Cons by auto
        from walk_done_child [OF nc(1) inv1 this is'(3) v1(1)] dn v1(2)
        have "walk_done (Suc d) is t ((?a, p) # allocs) s1 ps1" using is'(1) by simp
        moreover have "walk_levels (map of_nat is) (PA_TO_VA t) True ((?a, p) # allocs) s1 =
            walk_levels (map of_nat js) (PA_TO_VA p) True ((?a, p) # allocs) s1"
          using v1 is'(1) by (simp add: ent_def ent_addr_def valid_pte_def pte_addr_def Let_def)
        ultimately have "walk_done (Suc d) is t allocs s (p # ps1)"
          unfolding is'(1) by (intro walk_done_grown [OF _ nc(2,5) _ p(1) m1 is'(3)])
            (auto simp only: wl [unfolded is'(1)])
        then show ?thesis using Cons by simp
      qed
    qed
  qed
qed

subsection \<open>Walking without allocating\<close>

lemma walk_levels_lookup:
  "walk_levels (map of_nat is) (PA_TO_VA t) False allocs s =
     Some (map_option PA_TO_VA (table_at (mem s) t is), s)"
  by (induction "is" arbitrary: t) (simp_all add: ent_def ent_addr_def valid_pte_def pte_addr_def Let_def)

text \<open>The indices of a virtual address, as natural numbers.\<close>

definition ix :: "nat \<Rightarrow> u64 \<Rightarrow> nat" where
  "ix shift va = unat (drop_bit shift va AND 0x1FF)"

abbreviation upper_ix :: "u64 \<Rightarrow> nat list" where
  "upper_ix va \<equiv> [ix 39 va, ix 30 va, ix 21 va]"

lemma mask9: "(0x1FF :: u64) = mask 9"
  by (simp add: mask_eq_exp_minus_1)

lemma ix_less [simp]: "ix k va < 512"
  by (simp add: ix_def mask9 unat_and_mask)

lemma INDEX_ix:
  "L0_INDEX va = of_nat (ix 39 va)" "L1_INDEX va = of_nat (ix 30 va)"
  "L2_INDEX va = of_nat (ix 21 va)" "L3_INDEX va = of_nat (ix 12 va)"
  by (simp_all add: L0_INDEX_def L1_INDEX_def L2_INDEX_def L3_INDEX_def ix_def)

text \<open>The descriptor a page table holds for a virtual address.\<close>

definition pt_lookup :: "(u64 \<Rightarrow> u64) \<Rightarrow> u64 \<Rightarrow> u64 \<Rightarrow> u64 option" where
  "pt_lookup m t va = leaf m t (upper_ix va) (ix 12 va)"

text \<open>The pages of the address space at \<open>t\<close> are well formed and none of them is free.\<close>

definition vm_inv :: "pmm \<Rightarrow> u64 \<Rightarrow> u64 list \<Rightarrow> bool" where
  "vm_inv s t ps \<longleftrightarrow> pmm_inv s ps \<and> pt_wf 3 (mem s) t \<and> tabs 3 (mem s) t \<inter> set ps = {}"

lemma walk_lookup:
  "walk (PA_TO_VA t) va False s =
     Some (case table_at (mem s) t (upper_ix va) of None \<Rightarrow> 0 | Some u \<Rightarrow> ent_addr u (ix 12 va), s)"
  using walk_levels_lookup [of "upper_ix va" t "[]" s]
  by (auto simp: walk_def INDEX_ix ent_addr_def split: option.splits)

lemma ent_addr_nonzero: "page_ok u \<Longrightarrow> i < 512 \<Longrightarrow> ent_addr u i \<noteq> 0"
  using in_page_bounds [of u "ent_addr u i"] by (auto simp: unat_PA_TO_VA_ok)

lemma table_at_page_ok:
  "pt_wf 3 m t \<Longrightarrow> table_at m t (upper_ix va) = Some u \<Longrightarrow> page_ok u"
  using table_at_tabs [of m t "upper_ix va" u 3] tabs_page_ok by simp

text \<open>What the read-only callers of \<^verbatim>\<open>walk\<close> test.\<close>

lemma walk_pte:
  assumes "pt_wf 3 (mem s) t"
  obtains pte where "walk (PA_TO_VA t) va False s = Some (pte, s)"
    "(pte = 0 \<or> mem s pte AND PTE_VALID = 0) \<longleftrightarrow> pt_lookup (mem s) t va = None"
    "\<forall>e. pt_lookup (mem s) t va = Some e \<longrightarrow> mem s pte = e"
proof (cases "table_at (mem s) t (upper_ix va)")
  case None
  then show ?thesis by (intro that [of 0]) (simp_all add: walk_lookup pt_lookup_def leaf_def)
next
  case (Some u)
  then have "page_ok u" using table_at_page_ok [OF assms] by simp
  with Some show ?thesis
    by (intro that [of "ent_addr u (ix 12 va)"])
      (simp_all add: walk_lookup pt_lookup_def leaf_def ent_def valid_pte_def ent_addr_nonzero)
qed

lemma vm_inv_wf: "vm_inv s t ps \<Longrightarrow> pt_wf 3 (mem s) t"
  by (simp add: vm_inv_def)

subsection \<open>Writing a leaf descriptor\<close>

lemma leaf_update:
  assumes m': "m' = m(ent_addr u i := v)" and "pt_wf d m t" "length is = d" "\<forall>x\<in>set is. x < 512"
    "i < 512" "table_at m t is = Some u"
  shows "pt_wf d m' t \<and> tabs d m' t \<subseteq> tabs d m t \<and>
    (\<forall>js k. length js = d \<and> (\<forall>x\<in>set js. x < 512) \<and> k < 512 \<longrightarrow>
       leaf m' t js k =
         (if js = is \<and> k = i then (if valid_pte v then Some v else None) else leaf m t js k))"
  using assms(2-)
proof (induction d arbitrary: t "is")
  case 0
  then show ?case by (auto simp: leaf_def ent_def m')
next
  case (Suc d)
  obtain j is' where is': "is = j # is'" "length is' = d" "j < 512" "\<forall>x\<in>set is'. x < 512"
    using Suc.prems(2,3) by (cases "is") auto
  let ?c = "pte_addr (ent m t j)"
  have j: "valid_pte (ent m t j)" and u: "table_at m ?c is' = Some u"
    using Suc.prems(5) is'(1) by (auto split: if_splits)
  have wfc: "pt_wf d m ?c" using Suc.prems(1) is'(3) j by auto
  have IH: "pt_wf d m' ?c" "tabs d m' ?c \<subseteq> tabs d m ?c \<union> {}"
    and lf: "\<And>js k. length js = d \<Longrightarrow> \<forall>x\<in>set js. x < 512 \<Longrightarrow> k < 512 \<Longrightarrow>
       leaf m' ?c js k = (if js = is' \<and> k = i then (if valid_pte v then Some v else None) else leaf m ?c js k)"
    using Suc.IH [OF wfc is'(2,4) Suc.prems(4) u] by auto
  have "u \<in> tabs d m ?c" using table_at_tabs [OF u] is'(2,4) by simp
  then have out: "same_outside (tabs d m ?c \<union> {}) m m'"
    using ent_addr_in_page [OF Suc.prems(4), of u] by (auto simp: same_outside_def m')
  note ch = child_changed [OF Suc.prems(1) is'(3) j refl IH(1,2) out, simplified]
  have "leaf m' t js k = (if js = is \<and> k = i then (if valid_pte v then Some v else None) else leaf m t js k)"
    if js: "length js = Suc d" "\<forall>x\<in>set js. x < 512" and k: "k < 512" for js k
  proof -
    obtain j' js' where Cons: "js = j' # js'" using js(1) by (cases js) auto
    show ?thesis
    proof (cases "j' = j")
      case True
      then show ?thesis using Cons js k lf [of js' k] ch(3) is' j by (simp add: leaf_Cons)
    next
      case False
      then show ?thesis using Cons js k ch(4) is'(1) by simp
    qed
  qed
  with ch(1,2) show ?case by simp
qed

subsection \<open>Virtual page numbers\<close>

definition vpn :: "u64 \<Rightarrow> u64" where
  "vpn va = take_bit 36 (drop_bit 12 va)"

lemma ix_eq_iff: "ix k va = ix k va' \<longleftrightarrow> take_bit 9 (drop_bit k va) = take_bit 9 (drop_bit k va')"
  by (simp add: ix_def mask9 word_unat_eq_iff flip: take_bit_eq_mask)

lemma vpn_ix: "12 \<le> k \<Longrightarrow> k + 9 \<le> 48 \<Longrightarrow> take_bit 9 (drop_bit k va) = take_bit 9 (drop_bit (k - 12) (vpn va))"
  by (rule bit_word_eqI) (auto simp: vpn_def bit_simps)

lemma vpn_bits:
  assumes "take_bit 9 (drop_bit 39 va) = take_bit 9 (drop_bit 39 va')"
    "take_bit 9 (drop_bit 30 va) = take_bit 9 (drop_bit 30 va')"
    "take_bit 9 (drop_bit 21 va) = take_bit 9 (drop_bit 21 va')"
    "take_bit 9 (drop_bit 12 va) = take_bit 9 (drop_bit 12 (va' :: u64))"
  shows "vpn va = vpn va'"
proof (rule bit_word_eqI)
  have b: "bit va (k + n) = bit va' (k + n)"
    if "take_bit 9 (drop_bit k va) = take_bit 9 (drop_bit k va')" "n < 9" for k n
    using that(2) arg_cong [OF that(1), where f = "\<lambda>w. bit w n"] by (simp add: bit_simps)
  fix n assume "n < LENGTH(64)"
  have "bit va (12 + n) = bit va' (12 + n)" if "n < 36"
  proof -
    consider "n < 9" | "9 \<le> n" "n < 18" | "18 \<le> n" "n < 27" | "27 \<le> n" "n < 36" using \<open>n < 36\<close> by linarith
    then show ?thesis
      using b [OF assms(4), of n] b [OF assms(3), of "n - 9"] b [OF assms(2), of "n - 18"] b [OF assms(1), of "n - 27"]
      by cases simp_all
  qed
  then show "bit (vpn va) n = bit (vpn va') n" by (auto simp: vpn_def bit_simps)
qed

lemma vpn_eq_iff: "vpn va = vpn va' \<longleftrightarrow> upper_ix va = upper_ix va' \<and> ix 12 va = ix 12 va'"
  using vpn_bits [of va va'] by (auto simp: ix_eq_iff vpn_ix)

lemma pt_lookup_cong: "vpn va = vpn va' \<Longrightarrow> pt_lookup m t va = pt_lookup m t va'"
  by (simp add: pt_lookup_def vpn_eq_iff)

lemma pt_lookup_update:
  assumes "pt_wf 3 m t" "table_at m t (upper_ix va) = Some u"
  shows "pt_lookup (m(ent_addr u (ix 12 va) := v)) t va' =
    (if vpn va' = vpn va then (if valid_pte v then Some v else None) else pt_lookup m t va')"
  using leaf_update [OF refl assms(1) _ _ _ assms(2), of "ix 12 va" v]
  by (auto simp: pt_lookup_def vpn_eq_iff)

subsection \<open>Map and unmap as updates of the lookup function\<close>

lemma vm_inv_restored:
  assumes inv: "vm_inv s t ps" and r: "restored s s' ps"
  shows "vm_inv s' t ps" "pt_lookup (mem s') t = pt_lookup (mem s) t"
proof -
  have on: "same_on (tabs 3 (mem s) t) (mem s) (mem s')"
  proof (rule same_outside_same_on)
    show "same_outside (set ps) (mem s) (mem s')" using r by (simp add: restored_def)
    show "\<forall>p\<in>set ps. page_ok p" using r pmm_inv_page_ok by (auto simp: restored_def)
    show "\<forall>q\<in>tabs 3 (mem s) t. page_ok q" using inv tabs_page_ok by (auto simp: vm_inv_def)
    show "set ps \<inter> tabs 3 (mem s) t = {}" using inv by (auto simp: vm_inv_def)
  qed
  show "vm_inv s' t ps"
    using inv r tabs_frame [OF on] pt_wf_frame [OF on] by (simp add: vm_inv_def restored_def)
  show "pt_lookup (mem s') t = pt_lookup (mem s) t"
    using leaf_frame [OF on] by (simp add: pt_lookup_def fun_eq_iff)
qed

text \<open>The two outcomes of \<^verbatim>\<open>walk(pagetable, va, 1)\<close>.\<close>

lemma walk_alloc:
  assumes inv: "vm_inv s t ps"
  obtains (nomem) s' where "walk (PA_TO_VA t) va True s = Some (0, s')" "restored s s' ps"
      "pt_lookup (mem s) t va = None" "length ps < 3"
  | (grown) s' u qs ps' where "walk (PA_TO_VA t) va True s = Some (ent_addr u (ix 12 va), s')"
      "ps = qs @ ps'" "vm_inv s' t ps'" "table_at (mem s') t (upper_ix va) = Some u" "page_ok u"
      "tabs 3 (mem s') t \<subseteq> tabs 3 (mem s) t \<union> set qs"
      "pt_lookup (mem s') t = pt_lookup (mem s) t"
      "same_outside (tabs 3 (mem s) t \<union> set qs) (mem s) (mem s')"
proof -
  have w: "walk (PA_TO_VA t) va True s =
    do { (r, s) \<leftarrow> walk_levels (map of_nat (upper_ix va)) (PA_TO_VA t) True [] s;
         case r of None \<Rightarrow> Some (0, s) | Some table \<Rightarrow> Some (table + 8 * of_nat (ix 12 va), s) }"
    by (simp only: walk_def INDEX_ix list.map)
  have "walk_failed 3 (upper_ix va) t [] s ps \<or> walk_done 3 (upper_ix va) t [] s ps"
    using inv by (intro walk_levels_alloc) (auto simp: vm_inv_def)
  then show thesis
  proof
    assume "walk_failed 3 (upper_ix va) t [] s ps"
    then show thesis
      unfolding walk_failed_def using w nomem by (auto simp: pt_lookup_def leaf_def)
  next
    assume "walk_done 3 (upper_ix va) t [] s ps"
    then obtain s' u qs ps' where
      wl: "walk_levels (map of_nat (upper_ix va)) (PA_TO_VA t) True [] s = Some (Some (PA_TO_VA u), s')"
      and ps: "ps = qs @ ps'" "pmm_inv s' ps'" and wf: "pt_wf 3 (mem s') t"
      and tb: "tabs 3 (mem s') t \<subseteq> tabs 3 (mem s) t \<union> set qs" and u: "table_at (mem s') t (upper_ix va) = Some u"
      and out: "same_outside (tabs 3 (mem s) t \<union> set qs) (mem s) (mem s')"
      and lf: "\<forall>js k. length js = 3 \<and> (\<forall>x\<in>set js. x < 512) \<and> k < 512 \<longrightarrow> leaf (mem s') t js k = leaf (mem s) t js k"
      unfolding walk_done_def by blast
    have "set qs \<inter> set ps' = {}"
      using inv ps(1) pmm_inv_distinct by (fastforce simp: vm_inv_def)
    then have "vm_inv s' t ps'"
      using inv ps wf tb unfolding vm_inv_def by fastforce
    moreover have "pt_lookup (mem s') t = pt_lookup (mem s) t"
      using lf by (simp add: pt_lookup_def fun_eq_iff)
    moreover have "walk (PA_TO_VA t) va True s = Some (ent_addr u (ix 12 va), s')"
      using w wl by (simp add: ent_addr_def)
    ultimately show thesis using grown ps(1) u table_at_page_ok [OF wf u] tb out by blast
  qed
qed

lemma vm_inv_write:
  assumes "vm_inv s t ps" "table_at (mem s) t (upper_ix va) = Some u"
  shows "vm_inv (s\<lparr>mem := (mem s)(ent_addr u (ix 12 va) := v)\<rparr>) t ps"
proof -
  have u: "u \<in> tabs 3 (mem s) t" "page_ok u"
    using table_at_tabs [OF assms(2), of 3] table_at_page_ok [OF vm_inv_wf [OF assms(1)] assms(2)] by simp_all
  have "\<not> in_page p (ent_addr u (ix 12 va))" if "p \<in> set ps" for p
  proof -
    have "page_ok p" "p \<noteq> u" using that assms(1) u pmm_inv_page_ok by (auto simp: vm_inv_def)
    then show ?thesis using u(2) by (simp add: ent_addr_page)
  qed
  then have "pmm_inv (s\<lparr>mem := (mem s)(ent_addr u (ix 12 va) := v)\<rparr>) ps"
    using assms(1) by (intro pmm_inv_store) (auto simp: vm_inv_def)
  moreover have "pt_wf 3 ((mem s)(ent_addr u (ix 12 va) := v)) t \<and>
      tabs 3 ((mem s)(ent_addr u (ix 12 va) := v)) t \<subseteq> tabs 3 (mem s) t"
    using leaf_update [OF refl vm_inv_wf [OF assms(1)] _ _ _ assms(2), of "ix 12 va" v] by simp
  ultimately show ?thesis using assms(1) unfolding vm_inv_def by auto
qed

lemma make_page_desc_user_valid [simp]: "valid_pte (make_page_desc_user pa w x)"
  by (simp add: valid_pte_bit make_page_desc_user_bit)

lemma make_page_desc_user_addr: "pte_addr (make_page_desc_user pa w x) = pa AND PTE_ADDR_MASK"
  by (rule bit_word_eqI) (auto simp: pte_addr_def bit_and_iff bit_addr_mask make_page_desc_user_bit)

lemma vmm_map_page_outcome:
  assumes inv: "vm_inv s t ps"
  shows "\<exists>r s'. vmm_map_page (PA_TO_VA t) va pa w x s = Some (r, s') \<and>
    (r = 0 \<and> pt_lookup (mem s) t va = None \<and>
       (\<forall>va'. pt_lookup (mem s') t va' =
          (if vpn va' = vpn va then Some (make_page_desc_user pa w x) else pt_lookup (mem s) t va')) \<and>
       (\<exists>qs ps'. ps = qs @ ps' \<and> vm_inv s' t ps' \<and> tabs 3 (mem s') t \<subseteq> tabs 3 (mem s) t \<union> set qs \<and>
          same_outside (tabs 3 (mem s) t \<union> set qs) (mem s) (mem s')) \<or>
     r = -1 \<and> pt_lookup (mem s') t = pt_lookup (mem s) t \<and>
       (pt_lookup (mem s) t va = None \<and> length ps < 3 \<and> vm_inv s' t ps \<and> restored s s' ps \<or>
        pt_lookup (mem s) t va \<noteq> None \<and> (\<exists>qs ps'. ps = qs @ ps' \<and> vm_inv s' t ps')))"
  using inv
proof (cases rule: walk_alloc [where va = va])
  case (nomem s')
  then show ?thesis using vm_inv_restored [OF inv nomem(2)] by (simp add: vmm_map_page_def)
next
  case (grown s' u qs ps')
  let ?e = "ent_addr u (ix 12 va)"
  have nz: "?e \<noteq> 0" using grown(5) by (simp add: ent_addr_nonzero)
  have lk: "pt_lookup (mem s) t va = (if mem s' ?e AND PTE_VALID \<noteq> 0 then Some (mem s' ?e) else None)"
    using grown(4) grown(7) [symmetric] by (simp add: pt_lookup_def leaf_def ent_def valid_pte_def)
  show ?thesis
  proof (cases "mem s' ?e AND PTE_VALID \<noteq> 0")
    case True
    then show ?thesis using grown lk nz by (auto simp: vmm_map_page_def)
  next
    case False
    let ?s = "s'\<lparr>mem := (mem s')(?e := make_page_desc_user pa w x)\<rparr>"
    have "vmm_map_page (PA_TO_VA t) va pa w x s = Some (0, ?s)"
      using grown(1) nz False by (simp add: vmm_map_page_def)
    moreover have "pt_lookup (mem ?s) t va' =
        (if vpn va' = vpn va then Some (make_page_desc_user pa w x) else pt_lookup (mem s) t va')" for va'
      using pt_lookup_update [OF vm_inv_wf [OF grown(3)] grown(4), of "make_page_desc_user pa w x" va'] grown(7)
      by simp
    moreover have "vm_inv ?s t ps'" using vm_inv_write [OF grown(3,4)] .
    moreover have "tabs 3 (mem ?s) t \<subseteq> tabs 3 (mem s) t \<union> set qs"
      using leaf_update [OF refl vm_inv_wf [OF grown(3)] _ _ _ grown(4), of "ix 12 va" "make_page_desc_user pa w x"]
        grown(6) by auto
    moreover have "u \<in> tabs 3 (mem s) t \<union> set qs" using table_at_tabs [OF grown(4), of 3] grown(6) by auto
    then have "same_outside (tabs 3 (mem s) t \<union> set qs) (mem s) (mem ?s)"
      using grown(8) by (auto simp: same_outside_def dest: bspec [where x = u])
    ultimately show ?thesis using grown(2) lk False by auto
  qed
qed

lemma vmm_unmap_page_outcome:
  assumes inv: "vm_inv s t ps"
  shows "case pt_lookup (mem s) t va of
      None \<Rightarrow> vmm_unmap_page (PA_TO_VA t) va s = Some (-1, None, s)
    | Some e \<Rightarrow> \<exists>s'. vmm_unmap_page (PA_TO_VA t) va s = Some (0, Some (pte_addr e), s') \<and>
        vm_inv s' t ps \<and> freelist s' = freelist s \<and>
        (\<forall>va'. pt_lookup (mem s') t va' = (if vpn va' = vpn va then None else pt_lookup (mem s) t va'))"
proof (cases "table_at (mem s) t (upper_ix va)")
  case None
  then show ?thesis by (simp add: vmm_unmap_page_def walk_lookup pt_lookup_def leaf_def)
next
  case (Some u)
  let ?e = "ent_addr u (ix 12 va)"
  have nz: "?e \<noteq> 0" using table_at_page_ok [OF vm_inv_wf [OF inv] Some] by (simp add: ent_addr_nonzero)
  have lk: "pt_lookup (mem s) t va = (if mem s ?e AND PTE_VALID \<noteq> 0 then Some (mem s ?e) else None)"
    using Some by (simp add: pt_lookup_def leaf_def ent_def valid_pte_def)
  show ?thesis
    using vm_inv_write [OF inv Some, of 0] pt_lookup_update [OF vm_inv_wf [OF inv] Some, of 0] nz lk Some
    by (auto simp: vmm_unmap_page_def walk_lookup pte_addr_def)
qed

subsection \<open>User pointers\<close>

text \<open>What a user access to the byte at \<open>va\<close> needs, and the page number an address determines.\<close>

definition user_ok :: "(u64 \<Rightarrow> u64) \<Rightarrow> u64 \<Rightarrow> bool \<Rightarrow> u64 \<Rightarrow> bool" where
  "user_ok m t w va =
     (case pt_lookup m t va of
        None \<Rightarrow> False
      | Some e \<Rightarrow> e AND PTE_AP_EL0_BIT \<noteq> 0 \<and> (w \<longrightarrow> e AND PTE_AP_RO_BIT = 0))"

lemma vpn_same_page: "unat a div 4096 = unat b div 4096 \<Longrightarrow> vpn a = vpn b"
proof -
  assume "unat a div 4096 = unat b div 4096"
  then have "drop_bit 12 a = drop_bit 12 b"
    by (intro word_eq_unatI) (simp add: unsigned_drop_bit_eq take_bit_nat_eq_self drop_bit_nat_def unat_less_exp [where 'a = 64, simplified])
  then show ?thesis by (simp add: vpn_def)
qed

lemma user_ok_same_page: "unat a div 4096 = unat b div 4096 \<Longrightarrow> user_ok m t w a = user_ok m t w b"
  by (simp only: user_ok_def pt_lookup_cong [OF vpn_same_page, of a b])

lemma unat_page_of: "unat (a AND NOT (PAGE_SIZE - 1)) = unat a div 4096 * 4096"
  by (simp only: page_mask unat_and_not_mask) simp

lemma unat_PAGE_SIZE: "unat PAGE_SIZE = 4096"
  by (simp add: PAGE_SIZE_def)

lemma validate_loop_step:
  assumes "pt_wf 3 (mem s) t"
  shows "validate_loop (PA_TO_VA t) w page stop s =
    (if page \<le> stop then
       if user_ok (mem s) t w page then validate_loop (PA_TO_VA t) w (page + PAGE_SIZE) stop s else Some (-1)
     else Some 0)"
proof -
  obtain pte where "walk (PA_TO_VA t) page False s = Some (pte, s)"
    "(pte = 0 \<or> mem s pte AND PTE_VALID = 0) \<longleftrightarrow> pt_lookup (mem s) t page = None"
    "\<forall>e. pt_lookup (mem s) t page = Some e \<longrightarrow> mem s pte = e"
    by (rule walk_pte [OF assms])
  then show ?thesis
    by (cases "pt_lookup (mem s) t page") (simp_all add: user_ok_def validate_loop.simps [of _ w page])
qed

lemma validate_loop_pages:
  assumes wf: "pt_wf 3 (mem s) t" and "unat page mod 4096 = 0" "unat stop mod 4096 = 0" "unat stop < 2 ^ 48"
    "unat page \<le> unat stop + 4096"
  shows "validate_loop (PA_TO_VA t) w page stop s =
    Some (if \<forall>a. unat page \<le> unat a \<and> unat a < unat stop + 4096 \<longrightarrow> user_ok (mem s) t w a then 0 else -1)"
  using assms(2,5)
proof (induction "unat stop + 4096 - unat page" arbitrary: page rule: less_induct)
  case less
  show ?case
  proof (cases "page \<le> stop")
    case False
    have "4096 dvd unat page" "4096 dvd unat stop" using less.prems(1) assms(3) by auto
    then have "unat page = unat stop + 4096"
      using False less.prems(2) multiples_close [of 4096 "unat page" "unat stop + 4096"]
      by (auto simp: word_le_nat_alt)
    then show ?thesis using False by (simp add: validate_loop_step [OF wf])
  next
    case True
    let ?next = "page + PAGE_SIZE"
    have next_page: "unat ?next = unat page + 4096"
      using True assms(4) by (subst unat_plus_if_size) (auto simp: unat_PAGE_SIZE word_le_nat_alt)
    have IH: "validate_loop (PA_TO_VA t) w ?next stop s =
      Some (if \<forall>a. unat ?next \<le> unat a \<and> unat a < unat stop + 4096 \<longrightarrow> user_ok (mem s) t w a then 0 else -1)"
      using True less.prems by (intro less.hyps) (auto simp: next_page word_le_nat_alt)
    have same: "user_ok (mem s) t w a = user_ok (mem s) t w page" if "unat page \<le> unat a" "unat a < unat page + 4096" for a
      using that less.prems(1) by (intro user_ok_same_page div_same_block) auto
    have "(\<forall>a. unat page \<le> unat a \<and> unat a < unat stop + 4096 \<longrightarrow> user_ok (mem s) t w a) \<longleftrightarrow>
      user_ok (mem s) t w page \<and> (\<forall>a. unat ?next \<le> unat a \<and> unat a < unat stop + 4096 \<longrightarrow> user_ok (mem s) t w a)"
      (is "?l \<longleftrightarrow> ?r")
    proof
      assume ?l
      then show ?r using True by (auto simp: next_page word_le_nat_alt)
    next
      assume ?r
      then show ?l using same unfolding next_page by (metis linorder_not_less)
    qed
    then show ?thesis using True IH by (simp add: validate_loop_step [OF wf, of w page])
  qed
qed

subsection \<open>Copying a string in\<close>

text \<open>The reference: every byte is looked up and checked on its own.\<close>

definition user_byte :: "(u64 \<Rightarrow> u64) \<Rightarrow> u64 \<Rightarrow> u64 \<Rightarrow> u8 option" where
  "user_byte m t a =
     (if a \<ge> USER_STACK \<or> \<not> user_ok m t False a then None
      else Some (load8 m (PA_TO_VA (pte_addr (the (pt_lookup m t a)) + (a AND (PAGE_SIZE - 1))))))"

primrec ucopy :: "(u64 \<Rightarrow> u64) \<Rightarrow> u64 \<Rightarrow> u64 \<Rightarrow> nat \<Rightarrow> nat \<Rightarrow> bytes \<Rightarrow> int \<times> bytes" where
  "ucopy m t va 0 i dst = (int i, dst(i := 0))"
| "ucopy m t va (Suc k) i dst =
     (case user_byte m t (va + of_nat i) of
        None \<Rightarrow> (-1, dst)
      | Some c \<Rightarrow> if c = 0 then (int i, dst(i := c)) else ucopy m t va k (Suc i) (dst(i := c)))"

lemma validate_page_user_ok:
  assumes "pt_wf 3 (mem s) t"
  shows "validate_page (PA_TO_VA t) va s =
    Some (if va < USER_STACK \<and> user_ok (mem s) t False va then 0 else -1)"
proof -
  obtain pte where "walk (PA_TO_VA t) va False s = Some (pte, s)"
    "(pte = 0 \<or> mem s pte AND PTE_VALID = 0) \<longleftrightarrow> pt_lookup (mem s) t va = None"
    "\<forall>e. pt_lookup (mem s) t va = Some e \<longrightarrow> mem s pte = e"
    by (rule walk_pte [OF assms])
  then show ?thesis
    by (cases "pt_lookup (mem s) t va") (auto simp: user_ok_def validate_page_def)
qed

text \<open>Validating an address and walking to its descriptor, as the code does before it reads a page.\<close>

lemma validate_and_walk:
  assumes wf: "pt_wf 3 (mem s) t"
  shows "do { v \<leftarrow> validate_page (PA_TO_VA t) va s;
              if v < 0 then Some no
              else do { (pte, s) \<leftarrow> walk (PA_TO_VA t) va False s;
                        if pte = 0 \<or> mem s pte AND PTE_VALID = 0 then Some no
                        else yes (mem s pte AND PTE_ADDR_MASK) s } } =
    (if va < USER_STACK \<and> user_ok (mem s) t False va
     then yes (pte_addr (the (pt_lookup (mem s) t va))) s else Some no)"
proof -
  obtain pte where "walk (PA_TO_VA t) va False s = Some (pte, s)"
    "(pte = 0 \<or> mem s pte AND PTE_VALID = 0) \<longleftrightarrow> pt_lookup (mem s) t va = None"
    "\<forall>e. pt_lookup (mem s) t va = Some e \<longrightarrow> mem s pte = e"
    by (rule walk_pte [OF wf])
  then show ?thesis
    by (cases "pt_lookup (mem s) t va")
      (simp_all add: validate_page_user_ok [OF wf] user_ok_def pte_addr_def)
qed

text \<open>What the loop knows of the page it reads from.\<close>

definition cached :: "(u64 \<Rightarrow> u64) \<Rightarrow> u64 \<Rightarrow> u64 \<Rightarrow> u64 \<Rightarrow> bool" where
  "cached m t page pa \<longleftrightarrow>
     (\<exists>a. a < USER_STACK \<and> user_ok m t False a \<and> page = a AND NOT (PAGE_SIZE - 1) \<and>
          pa = pte_addr (the (pt_lookup m t a)))"

lemma cached_page:
  assumes "cached m t (a AND NOT (PAGE_SIZE - 1)) pa"
  shows "a < USER_STACK" "user_ok m t False a" "pa = pte_addr (the (pt_lookup m t a))"
proof -
  obtain b where b: "b < USER_STACK" "user_ok m t False b" "pa = pte_addr (the (pt_lookup m t b))"
    and eq: "unat b div 4096 * 4096 = unat a div 4096 * 4096"
    using assms unfolding cached_def by (metis unat_page_of)
  have same: "unat a div 4096 = unat b div 4096" using eq by simp
  then show "user_ok m t False a" "pa = pte_addr (the (pt_lookup m t a))"
    using b user_ok_same_page [OF same] pt_lookup_cong [OF vpn_same_page [OF same]] by simp_all
  have "unat b div 4096 < 2 ^ 48 div 4096"
    using b(1) by (simp add: USER_STACK_def word_less_nat_alt)
  then have "unat a < 2 ^ 48" using same by simp
  then show "a < USER_STACK" by (simp add: USER_STACK_def word_less_nat_alt)
qed

lemma copyinstr_loop_ucopy:
  assumes wf: "pt_wf 3 (mem s) t" and "unat maxlen = Suc (i + k)" "unat maxlen \<le> 2 ^ 31"
    "cached (mem s) t page pa"
  shows "copyinstr_loop (PA_TO_VA t) srcva maxlen (of_nat i) page pa dst s = Some (ucopy (mem s) t srcva k i dst)"
  using assms(2-)
proof (induction k arbitrary: i page pa dst)
  case (0 i)
  have "1 \<le> maxlen" using 0 by (simp add: word_le_nat_alt)
  then have "maxlen - 1 = of_nat i" using 0 by (intro word_eq_unatI) (simp add: unat_sub unat_of_nat_small)
  then show ?case using 0 by (simp add: copyinstr_loop.simps [of _ _ maxlen] int_of_u64_small unat_of_nat_small)
next
  case (Suc k i)
  let ?a = "srcva + of_nat i"
  let ?page = "?a AND NOT (PAGE_SIZE - 1)" and ?pa = "pte_addr (the (pt_lookup (mem s) t ?a))"
  let ?c = "load8 (mem s) (PA_TO_VA (?pa + (?a AND (PAGE_SIZE - 1))))"
  have i: "unat (of_nat i :: u64) = i" using Suc.prems by (simp add: unat_of_nat_small)
  have "1 \<le> maxlen" using Suc.prems by (simp add: word_le_nat_alt)
  then have less: "(of_nat i :: u64) < maxlen - 1" using Suc.prems i by (simp add: word_less_nat_alt unat_sub)
  have next_page:
    "(if ?page \<noteq> page then
        do { v \<leftarrow> validate_page (PA_TO_VA t) ?a s;
             if v < 0 then Some None
             else do { (pte, s) \<leftarrow> walk (PA_TO_VA t) ?a False s;
                       if pte = 0 \<or> mem s pte AND PTE_VALID = 0 then Some None
                       else Some (Some (?page, mem s pte AND PTE_ADDR_MASK)) } }
      else Some (Some (page, pa))) =
     Some (if ?a < USER_STACK \<and> user_ok (mem s) t False ?a then Some (?page, ?pa) else None)"
    using cached_page [of "mem s" t ?a pa] Suc.prems(3) validate_and_walk [OF wf, of ?a None "\<lambda>p _. Some (Some (?page, p))"]
    by (cases "?page = page") simp_all
  show ?case
  proof (cases "?a < USER_STACK \<and> user_ok (mem s) t False ?a")
    case True
    then have "cached (mem s) t ?page ?pa" unfolding cached_def by blast
    then have IH: "copyinstr_loop (PA_TO_VA t) srcva maxlen (of_nat (Suc i)) ?page ?pa (dst(i := ?c)) s =
      Some (ucopy (mem s) t srcva k (Suc i) (dst(i := ?c)))"
      using Suc.prems by (intro Suc.IH) auto
    have "copyinstr_loop (PA_TO_VA t) srcva maxlen (of_nat i) page pa dst s =
      (if ?c = 0 then Some (int i, dst(i := ?c))
       else copyinstr_loop (PA_TO_VA t) srcva maxlen (of_nat i + 1) ?page ?pa (dst(i := ?c)) s)"
      using less True Suc.prems
      by (subst copyinstr_loop.simps, unfold Let_def, subst next_page) (simp add: i int_of_u64_small)
    moreover have "user_byte (mem s) t ?a = Some ?c" using True by (auto simp: user_byte_def)
    ultimately show ?thesis using IH by (simp add: add.commute [of 1])
  next
    case False
    have "copyinstr_loop (PA_TO_VA t) srcva maxlen (of_nat i) page pa dst s = Some (-1, dst)"
      using less by (subst copyinstr_loop.simps, unfold Let_def, subst next_page, simp only: if_not_P [OF False]) simp
    then show ?thesis using False by (auto simp: user_byte_def)
  qed
qed

subsection \<open>Address spaces\<close>

text \<open>The contract the rest of the kernel uses: an address space is a partial function from pages to
  descriptors with partial updates.\<close>

locale address_space =
  fixes map_op :: "u64 \<Rightarrow> u64 \<Rightarrow> bool \<Rightarrow> bool \<Rightarrow> 's \<Rightarrow> (int \<times> 's) option"
    and unmap_op :: "u64 \<Rightarrow> 's \<Rightarrow> (int \<times> u64 option \<times> 's) option"
    and look :: "'s \<Rightarrow> u64 \<Rightarrow> u64 option"
    and inv :: "'s \<Rightarrow> bool"
    and page :: "u64 \<Rightarrow> u64"
    and desc :: "u64 \<Rightarrow> bool \<Rightarrow> bool \<Rightarrow> u64"
    and addr :: "u64 \<Rightarrow> u64"
  assumes map_outcome: "inv s \<Longrightarrow> \<exists>r s'. map_op va pa w x s = Some (r, s') \<and> inv s' \<and>
      (r = 0 \<and> look s va = None \<and>
         look s' = (\<lambda>va'. if page va' = page va then Some (desc pa w x) else look s va') \<or>
       r = -1 \<and> look s' = look s)"
    and unmap_none: "inv s \<Longrightarrow> look s va = None \<Longrightarrow> unmap_op va s = Some (-1, None, s)"
    and unmap_some: "inv s \<Longrightarrow> look s va = Some e \<Longrightarrow> \<exists>s'. unmap_op va s = Some (0, Some (addr e), s') \<and> inv s' \<and>
      look s' = (\<lambda>va'. if page va' = page va then None else look s va')"
    and look_page: "inv s \<Longrightarrow> page va = page va' \<Longrightarrow> look s va = look s va'"
begin

lemma map_unmap:
  assumes "inv s" "map_op va pa w x s = Some (0, s1)"
  obtains s2 where "unmap_op va s1 = Some (0, Some (addr (desc pa w x)), s2)" "inv s2" "look s2 = look s"
proof -
  have s1: "inv s1" "look s va = None"
    "look s1 = (\<lambda>va'. if page va' = page va then Some (desc pa w x) else look s va')"
    using map_outcome [OF assms(1), of va pa w x] assms(2) by auto
  then obtain s2 where "unmap_op va s1 = Some (0, Some (addr (desc pa w x)), s2)" "inv s2"
    "look s2 = (\<lambda>va'. if page va' = page va then None else look s1 va')"
    using unmap_some [OF s1(1), of va] by auto
  moreover have "look s va' = None" if "page va' = page va" for va'
    using look_page [OF assms(1) that] s1(2) by simp
  ultimately show ?thesis using s1(3) by (intro that [of s2]) (auto simp: fun_eq_iff)
qed

lemma map_again_fails:
  assumes "inv s" "map_op va pa w x s = Some (0, s1)" "page va' = page va"
  shows "\<exists>s2. map_op va' pa' w' x' s1 = Some (-1, s2) \<and> look s2 = look s1"
  using map_outcome [OF assms(1), of va pa w x] assms(2,3) map_outcome [of s1 va' pa' w' x'] by auto

end

interpretation kvm: address_space "vmm_map_page (PA_TO_VA t)" "vmm_unmap_page (PA_TO_VA t)"
    "\<lambda>s. pt_lookup (mem s) t" "\<lambda>s. \<exists>ps. vm_inv s t ps" vpn make_page_desc_user pte_addr for t
proof (unfold_locales, goal_cases)
  case (1 s va pa w x)
  then obtain ps where "vm_inv s t ps" ..
  from vmm_map_page_outcome [OF this, of va pa w x] show ?case
    unfolding fun_eq_iff by (elim exE conjE disjE; intro exI conjI; (assumption | blast))
next
  case (2 s va)
  then show ?case using vmm_unmap_page_outcome [of s t _ va] by auto
next
  case (3 s va e)
  then show ?case using vmm_unmap_page_outcome [of s t _ va] unfolding fun_eq_iff by fastforce
next
  case (4 s va va')
  then show ?case by (intro pt_lookup_cong)
qed

text \<open>A fresh table maps nothing.\<close>

lemma vmm_create_fresh:
  assumes "pmm_inv s (p # ps)"
  obtains s' where "vmm_create s = (PA_TO_VA p, s')" "vm_inv s' p ps" "\<forall>va. pt_lookup (mem s') p va = None"
proof -
  obtain s' where s': "pmm_alloc s = (p, s')" using pmm_alloc_Cons(1) [OF assms] by (metis prod.collapse)
  then have inv: "pmm_inv s' ps" and z: "\<And>a. in_page p a \<Longrightarrow> mem s' a = 0"
    using pmm_alloc_Cons(2,3) [OF assms] by simp_all
  have p: "page_ok p" "p \<notin> set ps" using pmm_inv_page_ok [OF assms] pmm_inv_distinct [OF assms] by simp_all
  have e: "\<forall>i<512. ent (mem s') p i = 0" using z by (simp add: ent_def)
  have "vm_inv s' p ps" unfolding vm_inv_def using inv p zero_table [OF p(1) e] by simp
  moreover have "vmm_create s = (PA_TO_VA p, s')"
    using s' p(1) by (auto simp: vmm_create_def)
  moreover have "pt_lookup (mem s') p va = None" for va
    unfolding pt_lookup_def using e by (intro zero_table_leaf) auto
  ultimately show ?thesis using that by blast
qed

subsection \<open>Properties\<close>

text \<open>Four free pages, and an empty address space made from the first of them.\<close>

definition four_pages :: pmm where
  "four_pages = \<lparr>mem = (\<lambda>_. 0)(PA_TO_VA 0x40100000 := PA_TO_VA 0x40101000,
       PA_TO_VA 0x40101000 := PA_TO_VA 0x40102000, PA_TO_VA 0x40102000 := PA_TO_VA 0x40103000),
     freelist = PA_TO_VA 0x40100000, free_count = 4, reserved_start = 0, reserved_end = 0\<rparr>"

definition empty_space :: pmm where
  "empty_space = snd (vmm_create four_pages)"

lemma four_pages_inv: "pmm_inv four_pages [0x40100000, 0x40101000, 0x40102000, 0x40103000]"
  by (simp add: pmm_inv_def four_pages_def link_get.simps page_ok_iff PA_TO_VA_def KERNEL_BASE_def)

lemma empty_space:
  "vm_inv empty_space 0x40100000 [0x40101000, 0x40102000, 0x40103000]"
  "pt_lookup (mem empty_space) 0x40100000 va = None"
proof -
  from vmm_create_fresh [OF four_pages_inv] obtain s' where "vmm_create four_pages = (PA_TO_VA 0x40100000, s')"
    "vm_inv s' 0x40100000 [0x40101000, 0x40102000, 0x40103000]" "\<forall>va. pt_lookup (mem s') 0x40100000 va = None" .
  then show "vm_inv empty_space 0x40100000 [0x40101000, 0x40102000, 0x40103000]"
    "pt_lookup (mem empty_space) 0x40100000 va = None" by (simp_all add: empty_space_def)
qed

text \<open>\<^verbatim>\<open>vmm_map_page\<close> always returns. Result 0 means that the page of \<open>va\<close> was not mapped,
  that the lookup function of the table changed at that page only, to the user descriptor of \<open>pa\<close>,
  and that the table grew by free pages only. Result -1 means that nothing is mapped differently
  and that either the page was already mapped or fewer than three pages were free; in the latter
  case the tables allocated on the way are back on the free list and memory outside it is
  untouched.\<close>

theorem vmm_map_page_correct:
  assumes inv: "vm_inv s t ps"
  shows "\<exists>r s'. vmm_map_page (PA_TO_VA t) va pa w x s = Some (r, s') \<and>
    (r = 0 \<and> pt_lookup (mem s) t va = None \<and>
       (\<forall>va'. pt_lookup (mem s') t va' =
          (if vpn va' = vpn va then Some (make_page_desc_user pa w x) else pt_lookup (mem s) t va')) \<and>
       (\<exists>qs ps'. ps = qs @ ps' \<and> vm_inv s' t ps' \<and> tabs 3 (mem s') t \<subseteq> tabs 3 (mem s) t \<union> set qs \<and>
          same_outside (tabs 3 (mem s) t \<union> set qs) (mem s) (mem s')) \<or>
     r = -1 \<and> pt_lookup (mem s') t = pt_lookup (mem s) t \<and>
       (pt_lookup (mem s) t va = None \<and> length ps < 3 \<and> vm_inv s' t ps \<and> restored s s' ps \<or>
        pt_lookup (mem s) t va \<noteq> None \<and> (\<exists>qs ps'. ps = qs @ ps' \<and> vm_inv s' t ps')))"
  using vmm_map_page_outcome [OF inv] .

theorem vmm_map_page_correct_witness:
  "\<exists>s'. vmm_map_page (PA_TO_VA 0x40100000) 0x400000 0x40200000 True False empty_space = Some (0, s') \<and>
     pt_lookup (mem s') 0x40100000 0x400010 = Some (make_page_desc_user 0x40200000 True False) \<and>
     pt_lookup (mem s') 0x40100000 0x401000 = None"
proof -
  have "vpn 0x400010 = vpn 0x400000" "vpn 0x401000 \<noteq> vpn 0x400000"
    by (simp_all add: vpn_def drop_bit_eq_div)
  then show ?thesis
    using vmm_map_page_correct [OF empty_space(1), of "0x400000" "0x40200000" True False] empty_space(2)
    by (auto split: if_splits)
qed

text \<open>\<^verbatim>\<open>vmm_unmap_page\<close> fails exactly on pages that are not mapped and then changes nothing;
  otherwise it returns the physical address of the mapped page and removes that page, and only
  that page, from the lookup function. It allocates and frees no table.\<close>

theorem vmm_unmap_page_correct:
  assumes inv: "vm_inv s t ps"
  shows "case pt_lookup (mem s) t va of
      None \<Rightarrow> vmm_unmap_page (PA_TO_VA t) va s = Some (-1, None, s)
    | Some e \<Rightarrow> \<exists>s'. vmm_unmap_page (PA_TO_VA t) va s = Some (0, Some (pte_addr e), s') \<and>
        vm_inv s' t ps \<and> freelist s' = freelist s \<and>
        (\<forall>va'. pt_lookup (mem s') t va' = (if vpn va' = vpn va then None else pt_lookup (mem s) t va'))"
  using vmm_unmap_page_outcome [OF inv] .

theorem vmm_unmap_page_correct_witness:
  "vmm_unmap_page (PA_TO_VA 0x40100000) 0x400000 empty_space = Some (-1, None, empty_space)"
  using vmm_unmap_page_correct [OF empty_space(1), of "0x400000"] empty_space(2) by simp

text \<open>Property C2. Mapping and then unmapping a page gives back the physical address that was mapped and
  leaves every address of the space as it was; until it is unmapped, any further attempt to map the
  same page fails and changes no mapping.\<close>

theorem vmm_map_unmap_roundtrip:
  assumes "vm_inv s t ps" "page_ok pa" "vmm_map_page (PA_TO_VA t) va pa w x s = Some (0, s1)"
  shows "\<exists>s2. vmm_unmap_page (PA_TO_VA t) va s1 = Some (0, Some pa, s2) \<and>
      pt_lookup (mem s2) t = pt_lookup (mem s) t \<and>
      (\<forall>va' pa' w' x'. vpn va' = vpn va \<longrightarrow>
         (\<exists>s3. vmm_map_page (PA_TO_VA t) va' pa' w' x' s1 = Some (-1, s3) \<and>
               pt_lookup (mem s3) t = pt_lookup (mem s1) t))"
proof -
  have inv: "\<exists>ps. vm_inv s t ps" using assms(1) by blast
  show ?thesis
    using kvm.map_unmap [OF inv assms(3)] kvm.map_again_fails [OF inv assms(3)] assms(2)
    by (metis make_page_desc_user_addr page_ok_mask)
qed

theorem vmm_map_unmap_roundtrip_witness:
  "\<exists>s1 s2. vmm_map_page (PA_TO_VA 0x40100000) 0x400000 0x40200000 True False empty_space = Some (0, s1) \<and>
     vmm_unmap_page (PA_TO_VA 0x40100000) 0x400000 s1 = Some (0, Some 0x40200000, s2) \<and>
     pt_lookup (mem s2) 0x40100000 = pt_lookup (mem empty_space) 0x40100000"
proof -
  obtain s1 where "vmm_map_page (PA_TO_VA 0x40100000) 0x400000 0x40200000 True False empty_space = Some (0, s1)"
    using vmm_map_page_outcome [OF empty_space(1), of "0x400000" "0x40200000" True False] empty_space(2)
    by auto
  moreover from vmm_map_unmap_roundtrip [OF empty_space(1) _ this]
  have "\<exists>s2. vmm_unmap_page (PA_TO_VA 0x40100000) 0x400000 s1 = Some (0, Some 0x40200000, s2) \<and>
     pt_lookup (mem s2) 0x40100000 = pt_lookup (mem empty_space) 0x40100000"
    by (auto simp: page_ok_iff)
  ultimately show ?thesis by blast
qed

text \<open>Property C11. \<^verbatim>\<open>vmm_copyinstr\<close> always returns and does, for a buffer of at least two bytes, exactly what
  copying byte by byte with a check of every single address would do: it validates a page only
  once, also when the string crosses into the next page, and never reads an unmapped byte. The result
  is the length of the string, or of the truncated string, or -1.\<close>

theorem vmm_copyinstr_correct:
  assumes "vm_inv s t ps" "1 < maxlen" "maxlen \<le> 2 ^ 31"
  shows "vmm_copyinstr (PA_TO_VA t) dst srcva maxlen s =
    Some (ucopy (mem s) t srcva (unat maxlen - 1) 0 dst)"
proof -
  have wf: "pt_wf 3 (mem s) t" using assms(1) by (rule vm_inv_wf)
  have len: "unat maxlen = Suc (0 + (unat maxlen - 1))" "unat maxlen \<le> 2 ^ 31" "\<exists>k. unat maxlen - 1 = Suc k"
    using assms(2,3) by (auto simp: word_less_nat_alt word_le_nat_alt) presburger
  let ?page = "srcva AND NOT (PAGE_SIZE - 1)" and ?pa = "pte_addr (the (pt_lookup (mem s) t srcva))"
  have eq: "vmm_copyinstr (PA_TO_VA t) dst srcva maxlen s =
    (if srcva < USER_STACK \<and> user_ok (mem s) t False srcva
     then copyinstr_loop (PA_TO_VA t) srcva maxlen 0 ?page ?pa dst s else Some (-1, dst))"
    unfolding vmm_copyinstr_def by (rule validate_and_walk [OF wf])
  show ?thesis
  proof (cases "srcva < USER_STACK \<and> user_ok (mem s) t False srcva")
    case True
    then have "cached (mem s) t ?page ?pa" unfolding cached_def by blast
    then show ?thesis using eq True copyinstr_loop_ucopy [OF wf len(1,2)] by simp
  next
    case False
    then have "user_byte (mem s) t srcva = None" by (auto simp: user_byte_def)
    then show ?thesis using eq False len(3) by auto
  qed
qed

theorem vmm_copyinstr_correct_witness:
  "vmm_copyinstr (PA_TO_VA 0x40100000) (\<lambda>_. 0) 0x400000 128 empty_space = Some (-1, \<lambda>_. 0)"
proof -
  have "vmm_copyinstr (PA_TO_VA 0x40100000) (\<lambda>_. 0) 0x400000 128 empty_space =
    Some (ucopy (mem empty_space) 0x40100000 0x400000 (unat (128 :: u64) - 1) 0 (\<lambda>_. 0))"
    by (rule vmm_copyinstr_correct [OF empty_space(1)]) simp_all
  also have "\<dots> = Some (-1, \<lambda>_. 0)"
  proof -
    have n: "unat (128 :: u64) - 1 = Suc 126" by simp
    show ?thesis unfolding n ucopy.simps(2) by (simp add: user_byte_def user_ok_def empty_space(2))
  qed
  finally show ?thesis .
qed

text \<open>Property C10. \<^verbatim>\<open>vmm_validate\<close> always returns, and it returns 0 exactly when the range is empty or lies
  below \<^verbatim>\<open>USER_STACK\<close> without wrapping around and every byte of it, not just the ends, is in a page
  mapped for user access (and writable when write access is asked for). Any other range gives -1.\<close>

theorem vmm_validate_correct:
  assumes inv: "vm_inv s t ps"
  shows "vmm_validate (PA_TO_VA t) va len w s =
    Some (if len = 0 \<or> unat va + unat len \<le> 2 ^ 48 \<and>
             (\<forall>a. unat va \<le> unat a \<and> unat a < unat va + unat len \<longrightarrow> user_ok (mem s) t w a)
          then 0 else -1)"
proof (cases "len = 0 \<or> unat va + unat len > 2 ^ 48")
  case True
  have "va + len < va \<or> unat (va + len) = unat va + unat len"
    using unat_plus_if_size [of va len] by (metis no_olen_add_nat not_le_imp_less)
  then show ?thesis using True by (auto simp: vmm_validate_def USER_STACK_def word_less_nat_alt word_le_nat_alt)
next
  case False
  then have len: "0 < unat len" "unat va + unat len \<le> 2 ^ 48" "len \<noteq> 0" by (auto simp: unat_gt_0)
  have sum: "unat (va + len) = unat va + unat len" using len by (intro unat_plus_if_size) simp
  then have "1 \<le> va + len" using len by (simp add: word_le_nat_alt)
  then have last: "unat (va + len - 1) = unat va + unat len - 1" using sum by (simp add: unat_sub)
  let ?stop = "(va + len - 1) AND NOT (PAGE_SIZE - 1)" and ?start = "va AND NOT (PAGE_SIZE - 1)"
  let ?l = "unat va + unat len - 1"
  have start: "unat ?start = unat va div 4096 * 4096" and stop: "unat ?stop = ?l div 4096 * 4096"
    by (simp_all only: unat_page_of last)
  have "vmm_validate (PA_TO_VA t) va len w s = validate_loop (PA_TO_VA t) w ?start ?stop s"
    using len sum by (simp add: vmm_validate_def USER_STACK_def word_less_nat_alt word_le_nat_alt)
  also have "\<dots> = Some (if \<forall>a. unat ?start \<le> unat a \<and> unat a < unat ?stop + 4096 \<longrightarrow> user_ok (mem s) t w a then 0 else -1)"
  proof (rule validate_loop_pages [OF vm_inv_wf [OF inv]])
    have "?l div 4096 * 4096 \<le> ?l" "unat va div 4096 \<le> ?l div 4096" using len by (auto intro: div_le_mono)
    then show "unat ?stop < 2 ^ 48" "unat ?start \<le> unat ?stop + 4096"
      using len unfolding start stop by linarith+
  qed (simp_all add: start stop)
  also have "(\<forall>a. unat ?start \<le> unat a \<and> unat a < unat ?stop + 4096 \<longrightarrow> user_ok (mem s) t w a) \<longleftrightarrow>
    (\<forall>a. unat va \<le> unat a \<and> unat a < unat va + unat len \<longrightarrow> user_ok (mem s) t w a)" (is "?A \<longleftrightarrow> ?B")
  proof
    assume A: ?A
    show ?B
    proof (intro allI impI)
      fix a :: u64 assume a: "unat va \<le> unat a \<and> unat a < unat va + unat len"
      then have "unat a \<le> ?l" by linarith
      then have "unat a div 4096 \<le> ?l div 4096" by (rule div_le_mono)
      then have "unat a < ?l div 4096 * 4096 + 4096" by (intro div_block_less) auto
      moreover have "unat va div 4096 * 4096 \<le> unat a" using a by (metis div_times_less_eq_dividend order_trans)
      ultimately show "user_ok (mem s) t w a" using A unfolding start stop by blast
    qed
  next
    assume B: ?B
    have B': "user_ok (mem s) t w va" "user_ok (mem s) t w (va + len - 1)"
      using B len last by auto
    show ?A
    proof (intro allI impI)
      fix a :: u64 assume a: "unat ?start \<le> unat a \<and> unat a < unat ?stop + 4096"
      consider "unat a < unat va" | "unat va \<le> unat a" "unat a < unat va + unat len" | "unat va + unat len \<le> unat a"
        by linarith
      then show "user_ok (mem s) t w a"
      proof cases
        case 1
        then have "unat a div 4096 = unat va div 4096" using a unfolding start by auto
        then show ?thesis using B'(1) user_ok_same_page by metis
      next
        case 2
        then show ?thesis using B by blast
      next
        case 3
        then have "unat a div 4096 = unat (va + len - 1) div 4096" using a unfolding stop last by auto
        then show ?thesis using B'(2) user_ok_same_page by metis
      qed
    qed
  qed
  finally show ?thesis using False by simp
qed

theorem vmm_validate_correct_witness:
  "vmm_validate (PA_TO_VA 0x40100000) 0x400000 0x1001 True empty_space = Some (-1)"
proof -
  have "\<not> user_ok (mem empty_space) 0x40100000 True 0x400000" by (simp add: user_ok_def empty_space(2))
  then show ?thesis
    using vmm_validate_correct [OF empty_space(1), of "0x400000" "0x1001" True]
    by (auto intro!: exI [of _ "0x400000"])
qed

end
