(* ===== verification/Proc.thy ===== *)
theory Proc
  imports Vmm
begin

text \<open>
  The process table, \<^verbatim>\<open>kernel/proc.c\<close> and \<^verbatim>\<open>kernel/proc.h\<close>, with the timer tick of \<^verbatim>\<open>kernel/timer.c\<close>.
  Pointers to kernel objects are symbolic: a \<^verbatim>\<open>struct proc *\<close> is an index into \<open>procs\<close>, a sleep
  channel (a \<^verbatim>\<open>void *\<close> in the code) names the object whose address is used.

  System calls run with interrupts masked, so the kernel switches to another process only inside
  \<^verbatim>\<open>proc_sched\<close>. What the rest of the system does until the process runs again is a parameter: a
  schedule is a list of state transformers, one for each context switch, and a call that is never
  resumed (the schedule is exhausted) has the result \<open>None\<close>.
\<close>

subsection \<open>Data\<close>

definition NPROC :: nat where "NPROC = 64"
definition NOFILE :: nat where "NOFILE = 16"
definition KSTACK_PAGES :: nat where "KSTACK_PAGES = 4"
definition KSTACK_SIZE :: u64 where "KSTACK_SIZE = of_nat KSTACK_PAGES * PAGE_SIZE"

definition NSIG :: int where "NSIG = 32"
definition SIGHUP :: int where "SIGHUP = 1"
definition SIGINT :: int where "SIGINT = 2"
definition SIGQUIT :: int where "SIGQUIT = 3"
definition SIGKILL :: int where "SIGKILL = 9"
definition SIGUSR1 :: int where "SIGUSR1 = 10"
definition SIGUSR2 :: int where "SIGUSR2 = 12"
definition SIGPIPE :: int where "SIGPIPE = 13"
definition SIGALRM :: int where "SIGALRM = 14"
definition SIGTERM :: int where "SIGTERM = 15"
definition SIGCONT :: int where "SIGCONT = 18"
definition SIGSTOP :: int where "SIGSTOP = 19"
definition SIGTSTP :: int where "SIGTSTP = 20"
definition SIGTTIN :: int where "SIGTTIN = 21"
definition SIGTTOU :: int where "SIGTTOU = 22"

lemmas signal_defs = NSIG_def SIGHUP_def SIGINT_def SIGQUIT_def SIGKILL_def SIGUSR1_def SIGUSR2_def
  SIGPIPE_def SIGALRM_def SIGTERM_def SIGCONT_def SIGSTOP_def SIGTSTP_def SIGTTIN_def SIGTTOU_def

text \<open>The mask \<^verbatim>\<open>1 << sig\<close> of a signal.\<close>

definition sigbit :: "int \<Rightarrow> u32" where
  "sigbit sig = push_bit (nat sig) 1"

datatype proc_state = UNUSED | EMBRYO | RUNNABLE | RUNNING | SLEEPING | STOPPED | ZOMBIE

datatype chan = NoChan | ChProc nat | ChTick nat | ChPipeRead u64 | ChPipeWrite u64 | ChInode nat
  | ChDiskBusy | ChVirtio | ChUart | ChLock nat

record cpu_context =
  x19 :: u64
  x20 :: u64
  x21 :: u64
  x22 :: u64
  x23 :: u64
  x24 :: u64
  x25 :: u64
  x26 :: u64
  x27 :: u64
  x28 :: u64
  x29 :: u64
  x30 :: u64
  ctx_sp :: u64

record proc =
  pstate :: proc_state
  pid :: int
  pgid :: int
  parent :: "nat option"
  kstack :: u64
  ctx :: cpu_context
  pagetable :: u64
  sz :: u64
  tf :: u64
  chan :: chan
  wakeup_tick :: u64
  exit_status :: int
  stop_signal :: int
  pending :: u32
  pname :: bytes
  cwd :: "nat option"
  ofile :: "nat \<Rightarrow> nat option"

text \<open>The globals of the process layer; the layers above extend this record.\<close>

record kst =
  kpmm :: pmm
  procs :: "nat \<Rightarrow> proc"
  current :: "nat option"
  nextpid :: int
  ticks :: u64
  ttbr0 :: u64
  irq_on :: bool

definition upd_proc :: "nat \<Rightarrow> (proc \<Rightarrow> proc) \<Rightarrow> 'a kst_scheme \<Rightarrow> 'a kst_scheme" where
  "upd_proc i f s = s\<lparr>procs := (procs s)(i := f (procs s i))\<rparr>"

text \<open>The loops over the table that look for the first process with a property.\<close>

definition find_proc :: "(proc \<Rightarrow> bool) \<Rightarrow> 'a kst_scheme \<Rightarrow> nat option" where
  "find_proc P s = List.find (\<lambda>i. P (procs s i)) [0..<NPROC]"

subsection \<open>Creating processes\<close>

definition proc_alloc :: "'a kst_scheme \<Rightarrow> (nat option \<times> 'a kst_scheme) option" where
  "proc_alloc s =
     (case find_proc (\<lambda>p. pstate p = UNUSED) s of
        None \<Rightarrow> Some (None, s)
      | Some i \<Rightarrow>
          do {
            let s = upd_proc i (\<lambda>p. p\<lparr>pstate := EMBRYO, pid := nextpid s, pgid := nextpid s\<rparr>) s;
            let s = s\<lparr>nextpid := nextpid s + 1\<rparr>;
            (pa, m) \<leftarrow> pmm_alloc_contiguous (int KSTACK_PAGES) (kpmm s);
            let s = s\<lparr>kpmm := m\<rparr>;
            if pa = PMM_INVALID then Some (None, upd_proc i (\<lambda>p. p\<lparr>pstate := UNUSED\<rparr>) s)
            else Some (Some i, upd_proc i (\<lambda>p. p\<lparr>kstack := PA_TO_VA pa, parent := None, pagetable := 0,
                   sz := 0, tf := 0, chan := NoChan, wakeup_tick := 0, pending := 0,
                   pname := (pname p)(0 := 0), cwd := None,
                   ofile := (\<lambda>j. if j < NOFILE then None else ofile p j)\<rparr>) s) })"

text \<open>The addresses of \<^verbatim>\<open>proc_entry\<close> and \<^verbatim>\<open>usertrap_first\<close>, which the linker chooses, are parameters.\<close>

definition proc_create :: "u64 \<Rightarrow> u64 \<Rightarrow> 'a kst_scheme \<Rightarrow> 'a kst_scheme option" where
  "proc_create proc_entry func s =
     do {
       (r, s) \<leftarrow> proc_alloc s;
       case r of
         None \<Rightarrow> Some s
       | Some i \<Rightarrow>
           (let sp = (kstack (procs s i) + KSTACK_SIZE) AND NOT 0xF
            in Some (upd_proc i (\<lambda>p. p\<lparr>ctx := (ctx p)\<lparr>x19 := func, x29 := 0, x30 := proc_entry, ctx_sp := sp\<rparr>,
                                     pstate := RUNNABLE\<rparr>) s)) }"

definition trap_frame_size :: u64 where "trap_frame_size = 34 * 8"

text \<open>\<^verbatim>\<open>regs[0..30]\<close>, then \<^verbatim>\<open>sp_el0\<close>, \<^verbatim>\<open>elr\<close> and \<^verbatim>\<open>spsr\<close>.\<close>

definition init_trap_frame :: "u64 \<Rightarrow> u64 \<Rightarrow> u64 \<Rightarrow> (u64 \<Rightarrow> u64) \<Rightarrow> (u64 \<Rightarrow> u64)" where
  "init_trap_frame frame entry ustack m =
     (fold (\<lambda>i m. m(frame + 8 * of_nat i := 0)) [0..<31] m)
       (frame + 8 * 31 := ustack, frame + 8 * 32 := entry, frame + 8 * 33 := 0)"

definition proc_create_user :: "u64 \<Rightarrow> u64 \<Rightarrow> u64 \<Rightarrow> u64 \<Rightarrow> u64 \<Rightarrow> 'a kst_scheme \<Rightarrow> (int \<times> 'a kst_scheme) option" where
  "proc_create_user usertrap_first pt entry ustack nbytes s =
     do {
       (r, s) \<leftarrow> proc_alloc s;
       case r of
         None \<Rightarrow> Some (-1, s)
       | Some i \<Rightarrow>
           (let s = upd_proc i (\<lambda>p. p\<lparr>pagetable := pt, sz := nbytes\<rparr>) s;
                frame = (kstack (procs s i) + KSTACK_SIZE - trap_frame_size) AND NOT 0xF;
                s = upd_proc i (\<lambda>p. p\<lparr>tf := frame\<rparr>) s;
                s = s\<lparr>kpmm := (kpmm s)\<lparr>mem := init_trap_frame frame entry ustack (mem (kpmm s))\<rparr>\<rparr>;
                s = upd_proc i (\<lambda>p. p\<lparr>ctx := (ctx p)\<lparr>x30 := usertrap_first, ctx_sp := frame, x29 := 0\<rparr>,
                                      pstate := RUNNABLE\<rparr>) s
            in Some (pid (procs s i), s)) }"

subsection \<open>The scheduler\<close>

definition reap :: "nat \<Rightarrow> 'a kst_scheme \<Rightarrow> 'a kst_scheme option" where
  "reap i s =
     (if pstate (procs s i) = UNUSED \<and> kstack (procs s i) \<noteq> 0 then
        do {
          s \<leftarrow> (if pagetable (procs s i) \<noteq> 0 then
                  do { m \<leftarrow> vmm_free (pagetable (procs s i)) (kpmm s);
                       Some (upd_proc i (\<lambda>p. p\<lparr>pagetable := 0\<rparr>) (s\<lparr>kpmm := m\<rparr>)) }
                else Some s);
          m \<leftarrow> pmm_free_contiguous (VA_TO_PA (kstack (procs s i))) (int KSTACK_PAGES) (kpmm s);
          Some (upd_proc i (\<lambda>p. p\<lparr>kstack := 0\<rparr>) (s\<lparr>kpmm := m\<rparr>)) }
      else Some s)"

text \<open>\<open>run i\<close> is what process \<open>i\<close> does from the context switch to its next call of \<^verbatim>\<open>proc_sched\<close>.\<close>

definition dispatch :: "(nat \<Rightarrow> 'a kst_scheme \<Rightarrow> 'a kst_scheme) \<Rightarrow> nat \<Rightarrow> 'a kst_scheme \<Rightarrow> 'a kst_scheme option" where
  "dispatch run i s =
     (if pstate (procs s i) \<noteq> RUNNABLE then Some s
      else
        let s = s\<lparr>irq_on := False, current := Some i\<rparr>;
            s = upd_proc i (\<lambda>p. p\<lparr>pstate := RUNNING\<rparr>) s;
            s = (if pagetable (procs s i) \<noteq> 0 then s\<lparr>ttbr0 := VA_TO_PA (pagetable (procs s i))\<rparr> else s);
            s = run i s
        in Some (s\<lparr>current := None, irq_on := True\<rparr>))"

text \<open>One iteration of the endless loop of \<^verbatim>\<open>proc_scheduler\<close>.\<close>

definition proc_scheduler :: "(nat \<Rightarrow> 'a kst_scheme \<Rightarrow> 'a kst_scheme) \<Rightarrow> 'a kst_scheme \<Rightarrow> 'a kst_scheme option" where
  "proc_scheduler run s =
     do { s \<leftarrow> loop_option reap [0..<NPROC] s; loop_option (dispatch run) [0..<NPROC] s }"

type_synonym 'a schedule = "('a kst_scheme \<Rightarrow> 'a kst_scheme) list"

definition proc_sched :: "'a schedule \<Rightarrow> 'a kst_scheme \<Rightarrow> ('a kst_scheme \<times> 'a schedule) option" where
  "proc_sched es s = (case es of [] \<Rightarrow> None | e # es \<Rightarrow> Some (e s, es))"

definition upd_cur :: "(proc \<Rightarrow> proc) \<Rightarrow> 'a kst_scheme \<Rightarrow> 'a kst_scheme option" where
  "upd_cur f s = map_option (\<lambda>i. upd_proc i f s) (current s)"

definition cur :: "'a kst_scheme \<Rightarrow> proc option" where
  "cur s = map_option (procs s) (current s)"

definition proc_yield :: "'a schedule \<Rightarrow> 'a kst_scheme \<Rightarrow> ('a kst_scheme \<times> 'a schedule) option" where
  "proc_yield es s = do { s \<leftarrow> upd_cur (\<lambda>p. p\<lparr>pstate := RUNNABLE\<rparr>) s; proc_sched es s }"

text \<open>The first code a kernel thread runs; \<open>func\<close> is the thread's body.\<close>

definition proc_entry :: "('a kst_scheme \<Rightarrow> 'a kst_scheme option) \<Rightarrow> 'a schedule \<Rightarrow> 'a kst_scheme \<Rightarrow>
    ('a kst_scheme \<times> 'a schedule) option" where
  "proc_entry func es s =
     do { s \<leftarrow> func (s\<lparr>irq_on := True\<rparr>); s \<leftarrow> upd_cur (\<lambda>p. p\<lparr>pstate := UNUSED\<rparr>) s; proc_sched es s }"

subsection \<open>Sleeping and waking\<close>

definition proc_wait :: "chan \<Rightarrow> 'a schedule \<Rightarrow> 'a kst_scheme \<Rightarrow> (int \<times> 'a kst_scheme \<times> 'a schedule) option" where
  "proc_wait c es s =
     do {
       p \<leftarrow> cur s;
       if pending p \<noteq> 0 then Some (-EINTR, s, es)
       else do {
         s \<leftarrow> upd_cur (\<lambda>p. p\<lparr>chan := c, pstate := SLEEPING\<rparr>) s;
         (s, es) \<leftarrow> proc_sched es s;
         s \<leftarrow> upd_cur (\<lambda>p. p\<lparr>chan := NoChan\<rparr>) s;
         p \<leftarrow> cur s;
         Some (if pending p \<noteq> 0 then -EINTR else 0, s, es) } }"

definition proc_wait_nointr :: "chan \<Rightarrow> 'a schedule \<Rightarrow> 'a kst_scheme \<Rightarrow> ('a kst_scheme \<times> 'a schedule) option" where
  "proc_wait_nointr c es s =
     do {
       s \<leftarrow> upd_cur (\<lambda>p. p\<lparr>chan := c, pstate := SLEEPING\<rparr>) s;
       (s, es) \<leftarrow> proc_sched es s;
       s \<leftarrow> upd_cur (\<lambda>p. p\<lparr>chan := NoChan\<rparr>) s;
       Some (s, es) }"

definition proc_wakeup :: "chan \<Rightarrow> 'a kst_scheme \<Rightarrow> 'a kst_scheme" where
  "proc_wakeup c s =
     fold (\<lambda>i s. if pstate (procs s i) = SLEEPING \<and> chan (procs s i) = c
                 then upd_proc i (\<lambda>p. p\<lparr>pstate := RUNNABLE\<rparr>) s else s) [0..<NPROC] s"

definition proc_wakeup_timed :: "'a kst_scheme \<Rightarrow> 'a kst_scheme" where
  "proc_wakeup_timed s =
     (let now = ticks s in
      fold (\<lambda>i s. let p = procs s i in
                  if pstate p = SLEEPING \<and> wakeup_tick p \<noteq> 0 \<and> now \<ge> wakeup_tick p
                  then upd_proc i (\<lambda>p. p\<lparr>wakeup_tick := 0, pstate := RUNNABLE\<rparr>) s else s) [0..<NPROC] s)"

definition proc_sleep :: "u64 \<Rightarrow> 'a schedule \<Rightarrow> 'a kst_scheme \<Rightarrow> (int \<times> 'a kst_scheme \<times> 'a schedule) option" where
  "proc_sleep n es s =
     (if n = 0 then Some (0, s, es)
      else do {
        me \<leftarrow> current s;
        s \<leftarrow> upd_cur (\<lambda>p. p\<lparr>wakeup_tick := ticks s + n\<rparr>) s;
        (r, s, es) \<leftarrow> proc_wait (ChTick me) es s;
        s \<leftarrow> upd_cur (\<lambda>p. p\<lparr>wakeup_tick := 0\<rparr>) s;
        Some (r, s, es) })"

definition proc_wait_timeout :: "chan \<Rightarrow> u64 \<Rightarrow> 'a schedule \<Rightarrow> 'a kst_scheme \<Rightarrow> (int \<times> 'a kst_scheme \<times> 'a schedule) option" where
  "proc_wait_timeout c n es s =
     do {
       p \<leftarrow> cur s;
       if pending p \<noteq> 0 then Some (-EINTR, s, es)
       else do {
         s \<leftarrow> upd_cur (\<lambda>p. p\<lparr>chan := c\<rparr>) s;
         s \<leftarrow> (if n > 0 then upd_cur (\<lambda>p. p\<lparr>wakeup_tick := ticks s + n\<rparr>) s else Some s);
         s \<leftarrow> upd_cur (\<lambda>p. p\<lparr>pstate := SLEEPING\<rparr>) s;
         (s, es) \<leftarrow> proc_sched es s;
         s \<leftarrow> upd_cur (\<lambda>p. p\<lparr>chan := NoChan, wakeup_tick := 0\<rparr>) s;
         p \<leftarrow> cur s;
         Some (if pending p \<noteq> 0 then -EINTR else 0, s, es) } }"

definition proc_wait_timeout_nointr :: "chan \<Rightarrow> u64 \<Rightarrow> 'a schedule \<Rightarrow> 'a kst_scheme \<Rightarrow> ('a kst_scheme \<times> 'a schedule) option" where
  "proc_wait_timeout_nointr c n es s =
     do {
       s \<leftarrow> upd_cur (\<lambda>p. p\<lparr>chan := c\<rparr>) s;
       s \<leftarrow> (if n > 0 then upd_cur (\<lambda>p. p\<lparr>wakeup_tick := ticks s + n\<rparr>) s else Some s);
       s \<leftarrow> upd_cur (\<lambda>p. p\<lparr>pstate := SLEEPING\<rparr>) s;
       (s, es) \<leftarrow> proc_sched es s;
       s \<leftarrow> upd_cur (\<lambda>p. p\<lparr>chan := NoChan, wakeup_tick := 0\<rparr>) s;
       Some (s, es) }"

text \<open>The timer interrupt (\<^verbatim>\<open>kernel/timer.c\<close>), without the write of the compare register.\<close>

definition timer_handler :: "'a schedule \<Rightarrow> 'a kst_scheme \<Rightarrow> ('a kst_scheme \<times> 'a schedule) option" where
  "timer_handler es s =
     (let s = proc_wakeup_timed (s\<lparr>ticks := ticks s + 1\<rparr>) in
      case current s of None \<Rightarrow> Some (s, es) | Some _ \<Rightarrow> proc_yield es s)"

subsection \<open>Signals and process groups\<close>

definition deliver :: "int \<Rightarrow> proc \<Rightarrow> proc" where
  "deliver sig p =
     (let p = p\<lparr>pending := pending p OR sigbit sig\<rparr> in
      if (sig = SIGCONT \<or> sig = SIGKILL) \<and> pstate p = STOPPED then p\<lparr>pstate := RUNNABLE\<rparr>
      else if pstate p = SLEEPING then p\<lparr>pstate := RUNNABLE\<rparr> else p)"

definition proc_signal :: "int \<Rightarrow> int \<Rightarrow> 'a kst_scheme \<Rightarrow> int \<times> 'a kst_scheme" where
  "proc_signal target sig s =
     (let r = find_proc (\<lambda>p. pstate p \<noteq> UNUSED \<and> pid p = target) s in
      if sig = 0 then (case r of None \<Rightarrow> (-ESRCH, s) | Some _ \<Rightarrow> (0, s))
      else if sig < 1 \<or> sig \<ge> NSIG then (-EINVAL, s)
      else case r of None \<Rightarrow> (-ESRCH, s) | Some i \<Rightarrow> (0, upd_proc i (deliver sig) s))"

text \<open>With process id 0 the current process is meant, and a null \<^verbatim>\<open>current\<close> is not dereferenced.\<close>

definition proc_setpgid :: "int \<Rightarrow> int \<Rightarrow> 'a kst_scheme \<Rightarrow> (int \<times> 'a kst_scheme) option" where
  "proc_setpgid target grp s =
     do {
       r \<leftarrow> (if target = 0 then do { i \<leftarrow> current s; Some (Some i, pid (procs s i)) }
             else Some (find_proc (\<lambda>p. pstate p \<noteq> UNUSED \<and> pid p = target) s, target));
       case r of
         (None, _) \<Rightarrow> Some (-ESRCH, s)
       | (Some i, target) \<Rightarrow>
           (let grp = (if grp = 0 then target else grp) in
            if grp \<le> 0 then Some (-EINVAL, s)
            else Some (0, upd_proc i (\<lambda>p. p\<lparr>pgid := grp\<rparr>) s)) }"

definition proc_getpgid :: "int \<Rightarrow> 'a kst_scheme \<Rightarrow> int option" where
  "proc_getpgid target s =
     (if target = 0 then map_option pgid (cur s)
      else Some (case find_proc (\<lambda>p. pstate p \<noteq> UNUSED \<and> pid p = target) s of
                   None \<Rightarrow> -ESRCH | Some i \<Rightarrow> pgid (procs s i)))"

definition proc_signal_pgrp :: "int \<Rightarrow> int \<Rightarrow> 'a kst_scheme \<Rightarrow> int \<times> 'a kst_scheme" where
  "proc_signal_pgrp grp sig s =
     (if grp \<le> 0 then (-EINVAL, s)
      else if sig < 1 \<or> sig \<ge> NSIG then (-EINVAL, s)
      else
        let (found, s) = fold (\<lambda>i (found, s).
              if pstate (procs s i) \<noteq> UNUSED \<and> pgid (procs s i) = grp
              then (True, upd_proc i (deliver sig) s) else (found, s)) [0..<NPROC] (False, s)
        in (if found then 0 else -ESRCH, s))"

subsection \<open>What the table loops do\<close>

lemma fold_upd_proc:
  "distinct xs \<Longrightarrow>
   fold (\<lambda>i s. if P (procs s i) then upd_proc i f s else s) xs s =
     s\<lparr>procs := (\<lambda>j. if j \<in> set xs \<and> P (procs s j) then f (procs s j) else procs s j)\<rparr>"
  by (induction xs arbitrary: s) (auto simp: upd_proc_def fun_eq_iff intro!: arg_cong [where f = "\<lambda>p. s\<lparr>procs := p\<rparr>" for s])

lemma proc_wakeup_eq:
  "proc_wakeup c s = s\<lparr>procs := (\<lambda>j. if j < NPROC \<and> pstate (procs s j) = SLEEPING \<and> chan (procs s j) = c
     then (procs s j)\<lparr>pstate := RUNNABLE\<rparr> else procs s j)\<rparr>"
  using fold_upd_proc [of "[0..<NPROC]" "\<lambda>p. pstate p = SLEEPING \<and> chan p = c" "\<lambda>p. p\<lparr>pstate := RUNNABLE\<rparr>" s]
  by (simp add: proc_wakeup_def)

lemma proc_wakeup_frame [frame, simp]:
  "kpmm (proc_wakeup c s) = kpmm s" "current (proc_wakeup c s) = current s" "nextpid (proc_wakeup c s) = nextpid s"
  "ticks (proc_wakeup c s) = ticks s" "kst.more (proc_wakeup c s) = kst.more s" "irq_on (proc_wakeup c s) = irq_on s"
  by (simp_all add: proc_wakeup_eq)

lemma proc_wakeup_timed_eq:
  "proc_wakeup_timed s = s\<lparr>procs := (\<lambda>j.
     if j < NPROC \<and> pstate (procs s j) = SLEEPING \<and> wakeup_tick (procs s j) \<noteq> 0 \<and> wakeup_tick (procs s j) \<le> ticks s
     then (procs s j)\<lparr>wakeup_tick := 0, pstate := RUNNABLE\<rparr> else procs s j)\<rparr>"
  using fold_upd_proc [of "[0..<NPROC]" "\<lambda>p. pstate p = SLEEPING \<and> wakeup_tick p \<noteq> 0 \<and> wakeup_tick p \<le> ticks s"
      "\<lambda>p. p\<lparr>wakeup_tick := 0, pstate := RUNNABLE\<rparr>" s]
  by (simp add: proc_wakeup_timed_def Let_def)

lemma find_proc_None: "find_proc P s = None \<longleftrightarrow> (\<forall>i<NPROC. \<not> P (procs s i))"
  by (auto simp: find_proc_def find_None_iff)

lemma find_proc_Some: "find_proc P s = Some i \<Longrightarrow> i < NPROC \<and> P (procs s i) \<and> (\<forall>j<i. \<not> P (procs s j))"
  unfolding find_proc_def find_Some_iff by auto

subsection \<open>Process identifiers\<close>

text \<open>Live processes have distinct positive identifiers below the next one.\<close>

definition live :: "'a kst_scheme \<Rightarrow> nat \<Rightarrow> bool" where
  "live s i \<longleftrightarrow> i < NPROC \<and> pstate (procs s i) \<noteq> UNUSED"

definition pids_ok :: "'a kst_scheme \<Rightarrow> bool" where
  "pids_ok s \<longleftrightarrow> 0 < nextpid s \<and> (\<forall>i. live s i \<longrightarrow> 0 < pid (procs s i) \<and> pid (procs s i) < nextpid s) \<and>
     (\<forall>i j. live s i \<and> live s j \<and> pid (procs s i) = pid (procs s j) \<longrightarrow> i = j)"

lemma pids_ok_find:
  assumes "pids_ok s" "live s i"
  shows "find_proc (\<lambda>p. pstate p \<noteq> UNUSED \<and> pid p = pid (procs s i)) s = Some i"
proof (cases "find_proc (\<lambda>p. pstate p \<noteq> UNUSED \<and> pid p = pid (procs s i)) s")
  case None
  then show ?thesis using assms(2) unfolding find_proc_None by (auto simp: live_def)
next
  case (Some j)
  then have "live s j" "pid (procs s j) = pid (procs s i)" using find_proc_Some [OF Some] by (auto simp: live_def)
  then show ?thesis using assms Some unfolding pids_ok_def by blast
qed

lemma pids_ok_cong:
  assumes "pids_ok s" "nextpid s \<le> nextpid s'"
    "\<And>i. live s' i \<Longrightarrow> live s i \<and> pid (procs s' i) = pid (procs s i)"
  shows "pids_ok s'"
  using assms unfolding pids_ok_def by (metis order_less_le_trans)

lemma deliver_simps [simp]:
  "pid (deliver sig p) = pid p" "pgid (deliver sig p) = pgid p"
  "pstate (deliver sig p) = UNUSED \<longleftrightarrow> pstate p = UNUSED" "pending (deliver sig p) = pending p OR sigbit sig"
  by (auto simp: deliver_def Let_def)

lemma proc_alloc_outcome:
  assumes pm: "pmm_inv (kpmm s) ps"
  shows "\<exists>r s'. proc_alloc s = Some (r, s') \<and>
    (case r of
       None \<Rightarrow> kpmm s' = kpmm s \<and> (\<forall>i. pstate (procs s' i) = pstate (procs s i)) \<and> nextpid s \<le> nextpid s' \<and>
         (\<forall>i. live s i \<longrightarrow> procs s' i = procs s i) \<and>
         ((\<forall>i<NPROC. pstate (procs s i) \<noteq> UNUSED) \<or> (\<forall>b. \<not> set (consec b KSTACK_PAGES) \<subseteq> set ps))
     | Some i \<Rightarrow> i < NPROC \<and> pstate (procs s i) = UNUSED \<and> (\<forall>j. j \<noteq> i \<longrightarrow> procs s' j = procs s j) \<and>
         pstate (procs s' i) = EMBRYO \<and> pid (procs s' i) = nextpid s \<and> pgid (procs s' i) = nextpid s \<and>
         nextpid s' = nextpid s + 1 \<and> parent (procs s' i) = None \<and> pending (procs s' i) = 0 \<and>
         cwd (procs s' i) = None \<and> (\<forall>fd<NOFILE. ofile (procs s' i) fd = None) \<and>
         (\<exists>base xs ys. kstack (procs s' i) = PA_TO_VA base \<and> ps = xs @ consec base KSTACK_PAGES @ ys \<and>
            pmm_inv (kpmm s') (xs @ ys)))"
proof (cases "find_proc (\<lambda>p. pstate p = UNUSED) s")
  case None
  then have "proc_alloc s = Some (None, s)" by (simp add: proc_alloc_def)
  then show ?thesis using None unfolding find_proc_None by auto
next
  case (Some i)
  let ?s = "(upd_proc i (\<lambda>p. p\<lparr>pstate := EMBRYO, pid := nextpid s, pgid := nextpid s\<rparr>) s)\<lparr>nextpid := nextpid s + 1\<rparr>"
  have i: "i < NPROC" "pstate (procs s i) = UNUSED" using find_proc_Some [OF Some] by auto
  have pm': "kpmm ?s = kpmm s" by (simp add: upd_proc_def)
  consider (ok) base m xs ys where "pmm_alloc_contiguous (int KSTACK_PAGES) (kpmm s) = Some (base, m)"
      "ps = xs @ consec base KSTACK_PAGES @ ys" "pmm_inv m (xs @ ys)"
    | (bad) "pmm_alloc_contiguous (int KSTACK_PAGES) (kpmm s) = Some (PMM_INVALID, kpmm s)"
      "\<forall>b. \<not> set (consec b KSTACK_PAGES) \<subseteq> set ps"
    using pmm_alloc_contiguous_outcome [OF pm, of KSTACK_PAGES] by (auto simp: KSTACK_PAGES_def)
  then show ?thesis
  proof cases
    case ok
    have "base \<in> set ps" using ok(2) by (auto simp: consec_def KSTACK_PAGES_def upt_rec)
    then have "base \<noteq> PMM_INVALID" using pmm_inv_page_ok [OF pm] by fastforce
    then have "\<exists>s'. proc_alloc s = Some (Some i, s') \<and> kpmm s' = m \<and> nextpid s' = nextpid s + 1 \<and>
        (\<forall>j. j \<noteq> i \<longrightarrow> procs s' j = procs s j) \<and>
        pstate (procs s' i) = EMBRYO \<and> pid (procs s' i) = nextpid s \<and> pgid (procs s' i) = nextpid s \<and>
        parent (procs s' i) = None \<and> pending (procs s' i) = 0 \<and> cwd (procs s' i) = None \<and>
        (\<forall>fd<NOFILE. ofile (procs s' i) fd = None) \<and> kstack (procs s' i) = PA_TO_VA base"
      using Some ok(1) by (simp add: proc_alloc_def upd_proc_def)
    then show ?thesis using i ok(2,3) by (auto 0 4)
  next
    case bad
    then have "\<exists>s'. proc_alloc s = Some (None, s') \<and> kpmm s' = kpmm s \<and> nextpid s' = nextpid s + 1 \<and>
        (\<forall>j. j \<noteq> i \<longrightarrow> procs s' j = procs s j) \<and> pstate (procs s' i) = UNUSED"
      using Some by (simp add: proc_alloc_def upd_proc_def)
    then obtain s' where "proc_alloc s = Some (None, s')" "kpmm s' = kpmm s" "nextpid s' = nextpid s + 1"
        "\<forall>j. j \<noteq> i \<longrightarrow> procs s' j = procs s j" "pstate (procs s' i) = UNUSED" by blast
    moreover from this have "pstate (procs s' j) = pstate (procs s j)" "live s j \<longrightarrow> procs s' j = procs s j" for j
      using i by (cases "j = i"; auto simp: live_def)+
    ultimately show ?thesis using bad(2) by auto
  qed
qed

lemma proc_alloc_pids:
  assumes "pids_ok s" "pmm_inv (kpmm s) ps" "proc_alloc s = Some (r, s')"
  shows "pids_ok s'"
proof (cases r)
  case None
  then show ?thesis
    using proc_alloc_outcome [OF assms(2)] assms(1,3)
    by (intro pids_ok_cong [OF assms(1)]) (auto simp: live_def)
next
  case (Some i)
  then have i: "\<forall>j. j \<noteq> i \<longrightarrow> procs s' j = procs s j" "pid (procs s' i) = nextpid s" "nextpid s' = nextpid s + 1"
    using proc_alloc_outcome [OF assms(2)] assms(3) by auto
  then have l: "live s j" if "live s' j" "j \<noteq> i" for j using that by (simp add: live_def)
  have "0 < pid (procs s' j) \<and> pid (procs s' j) < nextpid s'" if "live s' j" for j
    using l [OF that] i assms(1) unfolding pids_ok_def by (cases "j = i") (auto simp: less_imp_le)
  moreover have "j = k" if "live s' j" "live s' k" "pid (procs s' j) = pid (procs s' k)" for j k
    using l that i assms(1) unfolding pids_ok_def by (metis less_irrefl)
  ultimately show ?thesis using assms(1) i(3) unfolding pids_ok_def by auto
qed


text \<open>A process table with one free slot and two processes in group 2, the second of them stopped.\<close>

definition blank_proc :: proc where
  "blank_proc = \<lparr>pstate = UNUSED, pid = 0, pgid = 0, parent = None, kstack = 0,
     ctx = \<lparr>x19 = 0, x20 = 0, x21 = 0, x22 = 0, x23 = 0, x24 = 0, x25 = 0, x26 = 0, x27 = 0, x28 = 0, x29 = 0,
            x30 = 0, ctx_sp = 0\<rparr>,
     pagetable = 0, sz = 0, tf = 0, chan = NoChan, wakeup_tick = 0, exit_status = 0, stop_signal = 0,
     pending = 0, pname = (\<lambda>_. 0), cwd = None, ofile = (\<lambda>_. None)\<rparr>"

definition demo_kst :: kst where
  "demo_kst = \<lparr>kpmm = four_pages,
     procs = (\<lambda>_. blank_proc)(0 := blank_proc\<lparr>pstate := SLEEPING, pid := 2, pgid := 2, chan := ChTick 0, wakeup_tick := 103\<rparr>,
                           1 := blank_proc\<lparr>pstate := STOPPED, pid := 3, pgid := 2\<rparr>),
     current = None, nextpid = 4, ticks = 100, ttbr0 = 0, irq_on = True\<rparr>"

lemma demo_kst_pids: "pids_ok demo_kst"
  by (auto simp: pids_ok_def live_def demo_kst_def blank_proc_def split: if_splits)


subsection \<open>Signals\<close>

text \<open>\<^verbatim>\<open>proc_signal\<close> reports \<^verbatim>\<open>EINVAL\<close> for a signal number outside 0..31 and \<^verbatim>\<open>ESRCH\<close> when no live
  process has the identifier, changing nothing; signal 0 only tests for existence. Otherwise it adds the
  signal to the pending set of that one process, wakes it if it sleeps, and continues it if it is
  stopped exactly for \<^verbatim>\<open>SIGCONT\<close> and \<^verbatim>\<open>SIGKILL\<close>. No pending signal is lost.\<close>

theorem proc_signal_correct:
  assumes "pids_ok s"
  shows "proc_signal target sig s =
    (if sig < 0 \<or> 32 \<le> sig then (-EINVAL, s)
     else if \<not> (\<exists>i. live s i \<and> pid (procs s i) = target) then (-ESRCH, s)
     else if sig = 0 then (0, s)
     else (0, s\<lparr>procs := (\<lambda>i. if live s i \<and> pid (procs s i) = target
        then (procs s i)\<lparr>pending := pending (procs s i) OR sigbit sig,
               pstate := (if pstate (procs s i) = SLEEPING \<or>
                             pstate (procs s i) = STOPPED \<and> (sig = SIGCONT \<or> sig = SIGKILL)
                          then RUNNABLE else pstate (procs s i))\<rparr>
        else procs s i)\<rparr>))"
proof (cases "\<exists>i. live s i \<and> pid (procs s i) = target")
  case True
  then obtain i where i: "live s i" "pid (procs s i) = target" by blast
  have f: "find_proc (\<lambda>p. pstate p \<noteq> UNUSED \<and> pid p = target) s = Some i"
    using pids_ok_find [OF assms i(1)] i(2) by simp
  have uniq: "live s j \<and> pid (procs s j) = target \<longleftrightarrow> j = i" for j
    using assms i unfolding pids_ok_def by metis
  have del: "deliver sig (procs s i) = (procs s i)\<lparr>pending := pending (procs s i) OR sigbit sig,
               pstate := (if pstate (procs s i) = SLEEPING \<or>
                             pstate (procs s i) = STOPPED \<and> (sig = SIGCONT \<or> sig = SIGKILL)
                          then RUNNABLE else pstate (procs s i))\<rparr>"
    by (simp add: deliver_def Let_def)
  show ?thesis
    unfolding proc_signal_def f uniq by (auto simp: NSIG_def upd_proc_def del fun_upd_def cong: if_cong)
next
  case False
  then have "find_proc (\<lambda>p. pstate p \<noteq> UNUSED \<and> pid p = target) s = None"
    unfolding find_proc_None by (auto simp: live_def)
  then show ?thesis using False by (simp add: proc_signal_def NSIG_def)
qed

theorem proc_signal_correct_witness:
  "fst (proc_signal 3 SIGCONT demo_kst) = 0 \<and> pstate (procs (snd (proc_signal 3 SIGCONT demo_kst)) 1) = RUNNABLE \<and>
   pstate (procs (snd (proc_signal 3 SIGTERM demo_kst)) 1) = STOPPED \<and> fst (proc_signal 9 SIGTERM demo_kst) = -ESRCH"
proof -
  have l: "live demo_kst i \<longleftrightarrow> i = 0 \<or> i = 1" for i
    by (auto simp: live_def demo_kst_def blank_proc_def NPROC_def)
  show ?thesis
    unfolding proc_signal_correct [OF demo_kst_pids] l
    by (simp add: demo_kst_def blank_proc_def signal_defs) (intro exI [of _ 1], simp)
qed

lemma proc_signal_pgrp_fold:
  "distinct xs \<Longrightarrow>
   fold (\<lambda>i (found, s). if P (procs s i) then (True, upd_proc i f s) else (found, s)) xs (b, s) =
     (b \<or> (\<exists>j\<in>set xs. P (procs s j)),
      s\<lparr>procs := (\<lambda>j. if j \<in> set xs \<and> P (procs s j) then f (procs s j) else procs s j)\<rparr>)"
proof (induction xs arbitrary: b s)
  case (Cons i xs)
  show ?case
  proof (cases "P (procs s i)")
    case True
    have "(\<exists>j\<in>set xs. P (if j = i then f (procs s i) else procs s j)) \<or> True" by simp
    with True Cons show ?thesis by (auto simp: upd_proc_def fun_eq_iff intro!: arg_cong [where f = "\<lambda>p. s\<lparr>procs := p\<rparr>" for s])
  next
    case False
    with Cons show ?thesis by (auto intro!: arg_cong [where f = "\<lambda>p. s\<lparr>procs := p\<rparr>" for s])
  qed
qed simp

lemma proc_signal_pgrp_eq:
  "proc_signal_pgrp grp sig s =
    (if grp \<le> 0 \<or> sig < 1 \<or> 32 \<le> sig then (-EINVAL, s)
     else (if \<exists>i. live s i \<and> pgid (procs s i) = grp then 0 else -ESRCH,
           s\<lparr>procs := (\<lambda>i. if live s i \<and> pgid (procs s i) = grp then deliver sig (procs s i) else procs s i)\<rparr>))"
proof -
  have "(\<exists>j\<in>set [0..<NPROC]. pstate (procs s j) \<noteq> UNUSED \<and> pgid (procs s j) = grp) \<longleftrightarrow>
      (\<exists>i. live s i \<and> pgid (procs s i) = grp)" by (auto simp: live_def)
  moreover have "(\<lambda>j. if j \<in> set [0..<NPROC] \<and> pstate (procs s j) \<noteq> UNUSED \<and> pgid (procs s j) = grp
        then deliver sig (procs s j) else procs s j) =
      (\<lambda>i. if live s i \<and> pgid (procs s i) = grp then deliver sig (procs s i) else procs s i)"
    by (simp add: live_def fun_eq_iff)
  ultimately show ?thesis
    using proc_signal_pgrp_fold [of "[0..<NPROC]" "\<lambda>p. pstate p \<noteq> UNUSED \<and> pgid p = grp" "deliver sig" False s]
    by (auto simp: proc_signal_pgrp_def NSIG_def)
qed

text \<open>\<^verbatim>\<open>proc_signal_pgrp\<close> delivers the signal to every live process of the group, and to no other
  process; it reports \<^verbatim>\<open>ESRCH\<close> exactly when the group is empty. Group 0 and negative groups are rejected.\<close>

theorem proc_signal_pgrp_correct:
  "proc_signal_pgrp grp sig s =
    (if grp \<le> 0 \<or> sig < 1 \<or> 32 \<le> sig then (-EINVAL, s)
     else (if \<exists>i. live s i \<and> pgid (procs s i) = grp then 0 else -ESRCH,
           s\<lparr>procs := (\<lambda>i. if live s i \<and> pgid (procs s i) = grp then deliver sig (procs s i) else procs s i)\<rparr>))"
  by (rule proc_signal_pgrp_eq)

subsection \<open>Timed sleep\<close>

text \<open>The state after \<open>k\<close> timer interrupts that find the processor idle.\<close>

primrec idle_ticks :: "nat \<Rightarrow> 'a kst_scheme \<Rightarrow> 'a kst_scheme option" where
  "idle_ticks 0 s = Some s"
| "idle_ticks (Suc k) s = do { s \<leftarrow> idle_ticks k s; (s, es) \<leftarrow> timer_handler [] s; Some s }"

lemma timer_handler_idle:
  "current s = None \<Longrightarrow> timer_handler es s = Some (proc_wakeup_timed (s\<lparr>ticks := ticks s + 1\<rparr>), es)"
  by (simp add: timer_handler_def Let_def proc_wakeup_timed_eq)



end
