(* ===== verification/Sync.thy ===== *)
theory Sync
  imports Proc
begin

text \<open>
  Locks, \<^verbatim>\<open>kernel/sync.c\<close> and \<^verbatim>\<open>kernel/sync.h\<close>. A lock is a number naming its \<^verbatim>\<open>struct\<close>; the model keeps its
  \<^verbatim>\<open>locked\<close> field. A panic (the message and the endless loop) is the result \<open>None\<close>. The last part states
  what every user of sleep channels needs: nobody stays asleep on a channel whose condition holds.
\<close>

record sync_st = kst +
  locked :: "nat \<Rightarrow> bool"

definition set_locked :: "nat \<Rightarrow> bool \<Rightarrow> 'a sync_st_scheme \<Rightarrow> 'a sync_st_scheme" where
  "set_locked lk b s = s\<lparr>locked := (locked s)(lk := b)\<rparr>"

definition spin_init :: "nat \<Rightarrow> 'a sync_st_scheme \<Rightarrow> 'a sync_st_scheme" where
  "spin_init lk s = set_locked lk False s"

definition spin_holding :: "nat \<Rightarrow> 'a sync_st_scheme \<Rightarrow> bool" where
  "spin_holding lk s = locked s lk"

definition spin_lock :: "nat \<Rightarrow> 'a sync_st_scheme \<Rightarrow> 'a sync_st_scheme option" where
  "spin_lock lk s =
     (let s = s\<lparr>irq_on := False\<rparr> in
      if locked s lk then None else Some (set_locked lk True s))"

definition spin_unlock :: "nat \<Rightarrow> 'a sync_st_scheme \<Rightarrow> 'a sync_st_scheme option" where
  "spin_unlock lk s =
     (if \<not> locked s lk then None
      else Some ((set_locked lk False s)\<lparr>irq_on := True\<rparr>))"

definition sleep_init :: "nat \<Rightarrow> 'a sync_st_scheme \<Rightarrow> 'a sync_st_scheme" where
  "sleep_init lk s = set_locked lk False s"

definition sleep_holding :: "nat \<Rightarrow> 'a sync_st_scheme \<Rightarrow> bool" where
  "sleep_holding lk s = locked s lk"

type_synonym 'a sync_schedule = "('a sync_st_scheme \<Rightarrow> 'a sync_st_scheme) list"

lemma proc_sched_shorter: "proc_sched es s = Some (s', es') \<Longrightarrow> length es' < length es"
  by (auto simp: proc_sched_def split: list.splits)

lemma proc_wait_nointr_shorter:
  "proc_wait_nointr c es s = Some (s', es') \<Longrightarrow> length es' < length es"
  by (auto simp: proc_wait_nointr_def bind_Some_iff dest: proc_sched_shorter)

lemma proc_wait_shorter:
  "proc_wait c es s = Some (r, s', es') \<Longrightarrow> \<not> r < 0 \<Longrightarrow> length es' < length es"
  by (auto simp: proc_wait_def bind_Some_iff EINTR_def dest: proc_sched_shorter split: if_splits)

text \<open>The loop of \<^verbatim>\<open>sleep_lock\<close>, entered with interrupts disabled.\<close>

function sleep_lock_loop :: "nat \<Rightarrow> 'a sync_schedule \<Rightarrow> 'a sync_st_scheme \<Rightarrow> ('a sync_st_scheme \<times> 'a sync_schedule) option" where
  "sleep_lock_loop lk es s =
     (if locked s lk then
        do {
          (s, es) \<leftarrow> proc_wait_nointr (ChLock lk) es (s\<lparr>irq_on := True\<rparr>);
          sleep_lock_loop lk es (s\<lparr>irq_on := False\<rparr>) }
      else Some ((set_locked lk True s)\<lparr>irq_on := True\<rparr>, es))"
  by pat_completeness auto
termination
  by (relation "measure (\<lambda>(lk, es, s). length es)") (auto dest: proc_wait_nointr_shorter)

declare sleep_lock_loop.simps [simp del]

definition sleep_lock :: "nat \<Rightarrow> 'a sync_schedule \<Rightarrow> 'a sync_st_scheme \<Rightarrow> ('a sync_st_scheme \<times> 'a sync_schedule) option" where
  "sleep_lock lk es s = sleep_lock_loop lk es (s\<lparr>irq_on := False\<rparr>)"

definition sleep_unlock :: "nat \<Rightarrow> 'a sync_st_scheme \<Rightarrow> 'a sync_st_scheme option" where
  "sleep_unlock lk s =
     (let s = s\<lparr>irq_on := False\<rparr> in
      if \<not> locked s lk then None
      else Some ((proc_wakeup (ChLock lk) (set_locked lk False s))\<lparr>irq_on := True\<rparr>))"

subsection \<open>Sleep channels\<close>

definition asleep :: "chan \<Rightarrow> 'a kst_scheme \<Rightarrow> bool" where
  "asleep c s \<longleftrightarrow> (\<exists>i<NPROC. pstate (procs s i) = SLEEPING \<and> chan (procs s i) = c)"

lemma asleep_wakeup [simp]: "asleep c (proc_wakeup d s) \<longleftrightarrow> c \<noteq> d \<and> asleep c s"
  by (auto simp: asleep_def proc_wakeup_eq)

lemma asleep_cong: "procs s = procs s' \<Longrightarrow> asleep c s = asleep c s'"
  by (simp add: asleep_def)

lemma upd_cur_Some:
  "upd_cur f s = Some s' \<longleftrightarrow> (\<exists>i. current s = Some i \<and> s' = upd_proc i f s)"
  by (auto simp: upd_cur_def)

lemma asleep_clear: "asleep c (upd_proc i (\<lambda>p. p\<lparr>chan := NoChan\<rparr>) s) \<Longrightarrow> c \<noteq> NoChan \<Longrightarrow> asleep c s"
  by (auto simp: asleep_def upd_proc_def split: if_splits)

lemma asleep_sleep:
  "asleep c (upd_proc i (\<lambda>p. p\<lparr>chan := d, pstate := SLEEPING\<rparr>) s) \<Longrightarrow> c \<noteq> d \<Longrightarrow> asleep c s"
  by (auto simp: asleep_def upd_proc_def split: if_splits)

text \<open>The state a process leaves when it goes to sleep, and the ways out of \<^verbatim>\<open>proc_wait\<close>.\<close>

definition sleeping :: "chan \<Rightarrow> nat \<Rightarrow> 'a kst_scheme \<Rightarrow> 'a kst_scheme" where
  "sleeping c i s = upd_proc i (\<lambda>p. p\<lparr>chan := c, pstate := SLEEPING\<rparr>) s"

lemma proc_wait_nointr_cases:
  assumes "proc_wait_nointr c es s = Some (s', es')"
  obtains i j e where "es = e # es'" "current s = Some i" "current (e (sleeping c i s)) = Some j"
    "s' = upd_proc j (\<lambda>p. p\<lparr>chan := NoChan\<rparr>) (e (sleeping c i s))"
  using assms by (cases es) (auto simp: proc_wait_nointr_def bind_Some_iff upd_cur_Some proc_sched_def sleeping_def)

lemma proc_wait_cases:
  assumes "proc_wait c es s = Some (r, s', es')"
  obtains (signalled) i where "current s = Some i" "pending (procs s i) \<noteq> 0" "r = -EINTR" "s' = s" "es' = es"
  | (slept) i j e where "es = e # es'" "current s = Some i" "pending (procs s i) = 0"
    "current (e (sleeping c i s)) = Some j" "s' = upd_proc j (\<lambda>p. p\<lparr>chan := NoChan\<rparr>) (e (sleeping c i s))"
    "current s' = Some j" "r = (if pending (procs s' j) \<noteq> 0 then -EINTR else 0)"
proof -
  obtain i where i: "current s = Some i" using assms by (auto simp: proc_wait_def cur_def bind_Some_iff)
  show ?thesis
  proof (cases "pending (procs s i) = 0")
    case False
    then show ?thesis using assms i by (intro signalled [of i]) (simp_all add: proc_wait_def cur_def)
  next
    case True
    then obtain e where es: "es = e # es'"
      using assms i by (cases es) (auto simp: proc_wait_def cur_def bind_Some_iff upd_cur_Some proc_sched_def)
    then obtain j where j: "current (e (sleeping c i s)) = Some j"
      using assms i True by (auto simp: proc_wait_def cur_def bind_Some_iff upd_cur_Some proc_sched_def sleeping_def)
    show ?thesis
      using assms i True es j
      by (intro slept [of e i j])
        (auto simp: proc_wait_def cur_def bind_Some_iff upd_cur_Some proc_sched_def sleeping_def upd_proc_def)
  qed
qed

text \<open>A use of a sleep channel: processes sleep on \<open>c\<close> only while \<open>blocked\<close> holds. The condition depends on
  the state the channel protects (\<open>view\<close>), not on the process table.\<close>

locale sleep_channel =
  fixes c :: chan
    and blocked :: "'a kst_scheme \<Rightarrow> bool"
  assumes blocked_procs: "blocked (s\<lparr>procs := ps\<rparr>) = blocked s"
    and not_NoChan: "c \<noteq> NoChan"
begin

definition sound :: "'a kst_scheme \<Rightarrow> bool" where
  "sound s \<longleftrightarrow> (asleep c s \<longrightarrow> blocked s)"

lemma blocked_upd [simp]: "blocked (upd_proc i f s) = blocked s"
  by (simp add: upd_proc_def blocked_procs)

lemma blocked_wakeup [simp]: "blocked (proc_wakeup d s) = blocked s"
  by (simp add: proc_wakeup_eq blocked_procs)

lemma sound_wakeup: "sound (proc_wakeup c s)"
  by (simp add: sound_def)

lemma sound_wakeup_other: "sound s \<Longrightarrow> sound (proc_wakeup d s)"
  by (simp add: sound_def)

lemma sound_clear: "sound s \<Longrightarrow> sound (upd_proc i (\<lambda>p. p\<lparr>chan := NoChan\<rparr>) s)"
  using asleep_clear not_NoChan by (auto simp: sound_def)

lemma sound_sleep: "sound s \<Longrightarrow> blocked s \<or> d \<noteq> c \<Longrightarrow> sound (sleeping d i s)"
  unfolding sleeping_def using asleep_sleep by (auto simp: sound_def)

end

interpretation lockch: sleep_channel "ChLock lk" "\<lambda>s. locked s lk" for lk
  by unfold_locales simp_all

lemma sleep_lock_loop_acquires:
  "sleep_lock_loop lk es s = Some (s', es') \<Longrightarrow>
   \<exists>t. \<not> locked t lk \<and> s' = (set_locked lk True t)\<lparr>irq_on := True\<rparr>"
proof (induction lk es s rule: sleep_lock_loop.induct)
  case (1 lk es s)
  show ?case
  proof (cases "locked s lk")
    case True
    then obtain t et where "proc_wait_nointr (ChLock lk) es (s\<lparr>irq_on := True\<rparr>) = Some (t, et)"
      "sleep_lock_loop lk et (t\<lparr>irq_on := False\<rparr>) = Some (s', es')"
      using "1.prems" by (subst (asm) sleep_lock_loop.simps) (auto simp: bind_Some_iff)
    then show ?thesis using "1.IH" True by blast
  next
    case False
    then show ?thesis using "1.prems" by (subst (asm) sleep_lock_loop.simps) auto
  qed
qed

lemma sleep_lock_loop_returns:
  assumes "\<forall>e\<in>set es. \<forall>s. current (e s) = current s" "current s \<noteq> None"
    "\<not> locked s lk \<or> (\<exists>e\<in>set es. \<forall>s. \<not> locked (e s) lk)"
  shows "\<exists>s' es'. sleep_lock_loop lk es s = Some (s', es')"
  using assms
proof (induction lk es s rule: sleep_lock_loop.induct)
  case (1 lk es s)
  show ?case
  proof (cases "locked s lk")
    case True
    then obtain e es' i where es: "es = e # es'" and i: "current s = Some i"
      using "1.prems" by (cases es) auto
    let ?t = "upd_proc i (\<lambda>p. p\<lparr>chan := NoChan\<rparr>) (e (sleeping (ChLock lk) i (s\<lparr>irq_on := True\<rparr>)))"
    have c: "current (e (sleeping (ChLock lk) i (s\<lparr>irq_on := True\<rparr>))) = Some i"
      using "1.prems"(1) es i by (simp add: sleeping_def upd_proc_def)
    then have w: "proc_wait_nointr (ChLock lk) es (s\<lparr>irq_on := True\<rparr>) = Some (?t, es')"
      using es i by (simp add: proc_wait_nointr_def upd_cur_def proc_sched_def sleeping_def upd_proc_def)
    have "\<exists>s' ex. sleep_lock_loop lk es' (?t\<lparr>irq_on := False\<rparr>) = Some (s', ex)"
    proof (rule "1.IH" [OF True w refl])
      show "\<forall>e\<in>set es'. \<forall>s. current (e s) = current s" using "1.prems"(1) es by simp
      show "current (?t\<lparr>irq_on := False\<rparr>) \<noteq> None" using c by (simp add: upd_proc_def)
      show "\<not> locked (?t\<lparr>irq_on := False\<rparr>) lk \<or> (\<exists>e\<in>set es'. \<forall>s. \<not> locked (e s) lk)"
        using "1.prems"(3) True es by (auto simp: upd_proc_def)
    qed
    then show ?thesis using True w by (subst sleep_lock_loop.simps) simp
  next
    case False
    then show ?thesis by (subst sleep_lock_loop.simps) simp
  qed
qed


text \<open>A process that finds the lock held, and a holder that releases it while the process sleeps.\<close>

definition demo_sync :: sync_st where
  "demo_sync = kst.extend (demo_kst\<lparr>current := Some 0\<rparr>) (sync_st.fields (\<lambda>_. True))"


end
