(* ===== verification/Pipe.thy ===== *)
theory Pipe
  imports Sync
begin

text \<open>
  Pipes, \<^verbatim>\<open>kernel/pipe.c\<close>: a ring buffer with free-running 32-bit counters. A \<^verbatim>\<open>struct pipe *\<close> is the address of
  the page that holds the structure; \<open>pipes\<close> is the typed view of those pages. Between two context
  switches the calls run without interruption, so each stretch of code up to a \<^verbatim>\<open>proc_wait\<close> is one
  step. \<^verbatim>\<open>pipealloc\<close> needs the file table and is modelled with it.
\<close>

definition PIPESIZE :: nat where "PIPESIZE = 512"

record pipe =
  pdata :: bytes
  nread :: u32
  nwrite :: u32
  readopen :: bool
  writeopen :: bool

record pipe_st = sync_st +
  pipes :: "u64 \<Rightarrow> pipe"

type_synonym 'a pipe_schedule = "('a pipe_st_scheme \<Rightarrow> 'a pipe_st_scheme) list"

definition upd_pipe :: "u64 \<Rightarrow> (pipe \<Rightarrow> pipe) \<Rightarrow> 'a pipe_st_scheme \<Rightarrow> 'a pipe_st_scheme" where
  "upd_pipe pi f s = s\<lparr>pipes := (pipes s)(pi := f (pipes s pi))\<rparr>"

definition pipeclose :: "u64 \<Rightarrow> bool \<Rightarrow> 'a pipe_st_scheme \<Rightarrow> 'a pipe_st_scheme option" where
  "pipeclose pi writable s =
     (let s = (if writable then proc_wakeup (ChPipeRead pi) (upd_pipe pi (\<lambda>p. p\<lparr>writeopen := False\<rparr>) s)
               else proc_wakeup (ChPipeWrite pi) (upd_pipe pi (\<lambda>p. p\<lparr>readopen := False\<rparr>) s))
      in if \<not> readopen (pipes s pi) \<and> \<not> writeopen (pipes s pi)
         then do { m \<leftarrow> pmm_free (VA_TO_PA pi) (kpmm s); Some (s\<lparr>kpmm := m\<rparr>) }
         else Some s)"

text \<open>The copying loop of \<^verbatim>\<open>piperead\<close>: at most \<open>k\<close> further bytes, \<open>i\<close> already copied to \<open>addr\<close>.\<close>

primrec piperead_loop :: "nat \<Rightarrow> nat \<Rightarrow> pipe \<Rightarrow> bytes \<Rightarrow> nat \<times> pipe \<times> bytes" where
  "piperead_loop 0 i p addr = (i, p, addr)"
| "piperead_loop (Suc k) i p addr =
     (if nread p = nwrite p then (i, p, addr)
      else piperead_loop k (Suc i) (p\<lparr>nread := nread p + 1\<rparr>) (addr(i := pdata p (unat (nread p) mod PIPESIZE))))"

function piperead :: "u64 \<Rightarrow> bytes \<Rightarrow> int \<Rightarrow> 'a pipe_schedule \<Rightarrow> 'a pipe_st_scheme \<Rightarrow>
    (int \<times> bytes \<times> 'a pipe_st_scheme \<times> 'a pipe_schedule) option" where
  "piperead pi addr n es s =
     (if nread (pipes s pi) = nwrite (pipes s pi) \<and> writeopen (pipes s pi) then
        do {
          (r, s, es) \<leftarrow> proc_wait (ChPipeRead pi) es s;
          if r < 0 then Some (-EINTR, addr, s, es) else piperead pi addr n es s }
      else
        let (i, p, addr) = piperead_loop (nat n) 0 (pipes s pi) addr
        in Some (int i, addr, proc_wakeup (ChPipeWrite pi) (upd_pipe pi (\<lambda>_. p) s), es))"
  by pat_completeness auto
termination
  by (relation "measure (\<lambda>(pi, addr, n, es, s). length es)") (auto dest: proc_wait_shorter)

declare piperead.simps [simp del]

function pipewrite_loop :: "u64 \<Rightarrow> bytes \<Rightarrow> int \<Rightarrow> int \<Rightarrow> 'a pipe_schedule \<Rightarrow> 'a pipe_st_scheme \<Rightarrow>
    (int \<times> 'a pipe_st_scheme \<times> 'a pipe_schedule) option" where
  "pipewrite_loop pi addr n i es s =
     (if i < n then
        if \<not> readopen (pipes s pi) then Some (-1, s, es)
        else if nwrite (pipes s pi) = nread (pipes s pi) + of_nat PIPESIZE then
          do {
            (r, s, es) \<leftarrow> proc_wait (ChPipeWrite pi) es (proc_wakeup (ChPipeRead pi) s);
            if r < 0 then Some (if i > 0 then i else -EINTR, s, es)
            else pipewrite_loop pi addr n i es s }
        else
          pipewrite_loop pi addr n (i + 1) es
            (upd_pipe pi (\<lambda>p. p\<lparr>pdata := (pdata p)(unat (nwrite p) mod PIPESIZE := addr (nat i)),
                                nwrite := nwrite p + 1\<rparr>) s)
      else Some (i, proc_wakeup (ChPipeRead pi) s, es))"
  by pat_completeness auto
termination
  by (relation "measures [\<lambda>(pi, addr, n, i, es, s). length es, \<lambda>(pi, addr, n, i, es, s). nat (n - i)]")
    (auto dest: proc_wait_shorter)

declare pipewrite_loop.simps [simp del]

definition pipewrite :: "u64 \<Rightarrow> bytes \<Rightarrow> int \<Rightarrow> 'a pipe_schedule \<Rightarrow> 'a pipe_st_scheme \<Rightarrow>
    (int \<times> 'a pipe_st_scheme \<times> 'a pipe_schedule) option" where
  "pipewrite pi addr n es s = pipewrite_loop pi addr n 0 es s"

subsection \<open>The queue a pipe stands for\<close>

definition pused :: "pipe \<Rightarrow> nat" where
  "pused p = unat (nwrite p - nread p)"

definition pqueue :: "pipe \<Rightarrow> u8 list" where
  "pqueue p = map (\<lambda>k. pdata p (unat (nread p + of_nat k) mod PIPESIZE)) [0..<pused p]"

definition pipe_ok :: "pipe \<Rightarrow> bool" where
  "pipe_ok p \<longleftrightarrow> pused p \<le> PIPESIZE"

lemma length_pqueue [simp]: "length (pqueue p) = pused p"
  by (simp add: pqueue_def)

lemma pused_0: "nread p = nwrite p \<longleftrightarrow> pused p = 0"
  by (auto simp: pused_def unat_eq_0)

lemma pused_full: "nwrite p = nread p + of_nat PIPESIZE \<longleftrightarrow> pused p = PIPESIZE"
proof -
  have "pused p = PIPESIZE \<longleftrightarrow> nwrite p - nread p = 512"
    unfolding pused_def PIPESIZE_def by (auto simp: word_unat_eq_iff)
  then show ?thesis by (auto simp: PIPESIZE_def algebra_simps)
qed

lemma ring_index: "unat (x + of_nat k :: u32) mod 512 = (unat x + k) mod 512"
proof -
  have "unat (x + of_nat k) = (unat x + k) mod 2 ^ 32"
    by (simp add: unat_word_ariths unat_of_nat take_bit_nat_def mod_add_right_eq)
  then show ?thesis by (simp add: mod_mod_cancel)
qed

lemma pqueue_eq: "pqueue p = map (\<lambda>k. pdata p ((unat (nread p) + k) mod 512)) [0..<pused p]"
  by (simp add: pqueue_def PIPESIZE_def ring_index)

lemma pop:
  assumes "pused p = Suc u"
  shows "pused (p\<lparr>nread := nread p + 1\<rparr>) = u"
    "pqueue p = pdata p (unat (nread p) mod PIPESIZE) # pqueue (p\<lparr>nread := nread p + 1\<rparr>)"
proof -
  have "nwrite p - nread p \<noteq> 0" using assms by (metis nat.distinct(1) pused_def unat_0)
  then have "1 \<le> nwrite p - nread p" by (simp add: word_le_nat_alt unat_gt_0 Suc_leI)
  then have "unat (nwrite p - nread p - 1) = u" using assms by (simp add: unat_sub pused_def)
  then show used: "pused (p\<lparr>nread := nread p + 1\<rparr>) = u" by (simp add: pused_def diff_diff_eq)
  have idx: "unat (nread p + 1 + of_nat k) mod PIPESIZE = unat (nread p + of_nat (Suc k)) mod PIPESIZE" for k
    by (simp add: ac_simps)
  show "pqueue p = pdata p (unat (nread p) mod PIPESIZE) # pqueue (p\<lparr>nread := nread p + 1\<rparr>)"
    unfolding pqueue_def used assms
    by (simp only: upt_conv_Cons zero_less_Suc list.map map_Suc_upt [symmetric] map_map o_def pipe.simps idx)
      (simp add: idx)
qed

lemma push:
  fixes b :: u8
  assumes "pused p < PIPESIZE"
  defines "p' \<equiv> p\<lparr>pdata := (pdata p)(unat (nwrite p) mod PIPESIZE := b), nwrite := nwrite p + 1\<rparr>"
  shows "pused p' = Suc (pused p)" "pqueue p' = pqueue p @ [b]"
proof -
  have "unat (nwrite p - nread p) + 1 < 2 ^ 32" using assms(1) by (simp add: pused_def PIPESIZE_def)
  then have "unat (nwrite p - nread p + 1) = unat (nwrite p - nread p) + 1" by (subst unat_plus_if_size) auto
  then show used: "pused p' = Suc (pused p)" by (simp add: p'_def pused_def diff_add_eq)
  have w: "unat (nwrite p) mod 512 = (unat (nread p) + pused p) mod 512"
    using ring_index [of "nread p" "pused p"] by (simp add: pused_def)
  have other: "(unat (nread p) + k) mod 512 \<noteq> (unat (nread p) + pused p) mod 512" if "k < pused p" for k
  proof
    assume "(unat (nread p) + k) mod 512 = (unat (nread p) + pused p) mod 512"
    then have "512 dvd pused p - k" using that mod_eq_dvd_iff_nat [of "unat (nread p) + k" "unat (nread p) + pused p" 512] by simp
    then show False using that assms(1) by (auto simp: PIPESIZE_def dest: dvd_imp_le)
  qed
  show "pqueue p' = pqueue p @ [b]"
    unfolding pqueue_eq used using other by (simp add: p'_def PIPESIZE_def w)
qed

lemma piperead_loop_queue:
  assumes "piperead_loop k i p addr = (m, p', addr')"
  shows "m = i + min k (pused p) \<and> pqueue p' = drop (min k (pused p)) (pqueue p) \<and>
    addr' = (\<lambda>j. if i \<le> j \<and> j < m then pqueue p ! (j - i) else addr j) \<and>
    readopen p' = readopen p \<and> writeopen p' = writeopen p \<and> pused p' = pused p - min k (pused p)"
  using assms
proof (induction k arbitrary: i p addr)
  case (Suc k)
  show ?case
  proof (cases "pused p")
    case 0
    then show ?thesis using Suc.prems by (auto simp: pused_0 fun_eq_iff)
  next
    case (Suc u)
    let ?p = "p\<lparr>nread := nread p + 1\<rparr>" and ?b = "pdata p (unat (nread p) mod PIPESIZE)"
    have "nread p \<noteq> nwrite p" using Suc by (simp add: pused_0)
    then have "piperead_loop k (Suc i) ?p (addr(i := ?b)) = (m, p', addr')" using Suc.prems by simp
    note IH = Suc.IH [OF this]
    show ?thesis using IH pop [OF Suc] by (auto simp: fun_eq_iff Suc nth_Cons' Suc_diff_le)
  qed
qed (auto simp: fun_eq_iff)

subsection \<open>First in, first out\<close>

text \<open>What the other processes may do to the pipe while a writer sleeps (readers take bytes from the front)
  and while a reader sleeps (writers append).\<close>

definition drains :: "u64 \<Rightarrow> ('a pipe_st_scheme \<Rightarrow> 'a pipe_st_scheme) \<Rightarrow> bool" where
  "drains pi e \<longleftrightarrow> (\<forall>s. pipe_ok (pipes s pi) \<longrightarrow> pipe_ok (pipes (e s) pi) \<and>
     (\<exists>k. pqueue (pipes (e s) pi) = drop k (pqueue (pipes s pi))))"

definition fills :: "u64 \<Rightarrow> ('a pipe_st_scheme \<Rightarrow> 'a pipe_st_scheme) \<Rightarrow> bool" where
  "fills pi e \<longleftrightarrow> (\<forall>s. pipe_ok (pipes s pi) \<longrightarrow> pipe_ok (pipes (e s) pi) \<and>
     (\<exists>w. pqueue (pipes (e s) pi) = pqueue (pipes s pi) @ w))"

lemma pipes_frame [frame, simp]:
  "pipes (upd_proc i f s) = pipes s" "pipes (proc_wakeup c s) = pipes s" "pipes (sleeping c i s) = pipes s"
  "pipes (upd_pipe pi g s) pi = g (pipes s pi)" "procs (upd_pipe pi g s) = procs s"
  by (simp_all add: upd_proc_def proc_wakeup_eq sleeping_def upd_pipe_def)

lemma wait_drains:
  assumes "proc_wait c es s = Some (r, s', es')" "\<forall>e\<in>set es. drains pi e" "pipe_ok (pipes s pi)"
  shows "pipe_ok (pipes s' pi) \<and> (\<exists>k. pqueue (pipes s' pi) = drop k (pqueue (pipes s pi))) \<and> set es' \<subseteq> set es"
  using assms(1)
proof (cases rule: proc_wait_cases)
  case signalled
  then show ?thesis using assms(3) by (metis drop0 order_refl)
next
  case (slept i j e)
  then have "drains pi e" using assms(2) by simp
  then have "pipe_ok (pipes (e (sleeping c i s)) pi) \<and> (\<exists>k. pqueue (pipes (e (sleeping c i s)) pi) = drop k (pqueue (pipes s pi)))"
    unfolding drains_def using assms(3) by (metis pipes_frame(3))
  then show ?thesis using slept(1,5) by auto
qed

lemma wait_fills:
  assumes "proc_wait c es s = Some (r, s', es')" "\<forall>e\<in>set es. fills pi e" "pipe_ok (pipes s pi)"
  shows "pipe_ok (pipes s' pi) \<and> (\<exists>w. pqueue (pipes s' pi) = pqueue (pipes s pi) @ w) \<and> set es' \<subseteq> set es"
  using assms(1)
proof (cases rule: proc_wait_cases)
  case signalled
  then show ?thesis using assms(3) by (metis append_Nil2 order_refl)
next
  case (slept i j e)
  then have "fills pi e" using assms(2) by simp
  then have "pipe_ok (pipes (e (sleeping c i s)) pi) \<and> (\<exists>w. pqueue (pipes (e (sleeping c i s)) pi) = pqueue (pipes s pi) @ w)"
    unfolding fills_def using assms(3) by (metis pipes_frame(3))
  then show ?thesis using slept(1,5) by auto
qed

lemma drop_append_ex: "\<exists>d. drop k q @ w = drop d (q @ w)"
  by (rule exI [of _ "min k (length q)"]) (simp add: min_def)

text \<open>What a call of \<^verbatim>\<open>pipewrite\<close> that has sent the bytes before \<open>i\<close> adds to the queue \<open>q\<close>.\<close>

definition sent :: "u64 \<Rightarrow> bytes \<Rightarrow> int \<Rightarrow> int \<Rightarrow> u8 list \<Rightarrow> int \<Rightarrow> 'a pipe_st_scheme \<Rightarrow> bool" where
  "sent pi addr n i q r s' \<longleftrightarrow> pipe_ok (pipes s' pi) \<and>
     (\<exists>d m. i \<le> m \<and> m \<le> n \<and> pqueue (pipes s' pi) = drop d (q @ map addr [nat i..<nat m]) \<and>
        (r = m \<or> r = -EINTR \<and> m = 0 \<or> r = -1 \<and> \<not> readopen (pipes s' pi)))"

lemma sent_drop: "sent pi addr n i (drop k q) r s' \<Longrightarrow> sent pi addr n i q r s'"
  unfolding sent_def by (metis drop_append_ex drop_drop)

lemma sent_push:
  assumes "sent pi addr n (i + 1) (q @ [addr (nat i)]) r s'" "0 \<le> i" "i < n"
  shows "sent pi addr n i q r s'"
proof -
  obtain d m where m: "i + 1 \<le> m" "m \<le> n"
    "pqueue (pipes s' pi) = drop d ((q @ [addr (nat i)]) @ map addr [nat (i + 1)..<nat m])"
    and r: "r = m \<or> r = -EINTR \<and> m = 0 \<or> r = -1 \<and> \<not> readopen (pipes s' pi)" and ok: "pipe_ok (pipes s' pi)"
    using assms(1) unfolding sent_def by blast
  have "nat i < nat m" "nat (i + 1) = Suc (nat i)" using m(1) assms(2) by auto
  then have "pqueue (pipes s' pi) = drop d (q @ map addr [nat i..<nat m])"
    using m(3) by (simp add: upt_conv_Cons)
  moreover have "i \<le> m" using m(1) by simp
  ultimately show ?thesis using m(2) r ok unfolding sent_def by blast
qed

lemma pipewrite_loop_sent:
  assumes "pipewrite_loop pi addr n i es s = Some (r, s', es')" "\<forall>e\<in>set es. drains pi e" "pipe_ok (pipes s pi)"
    "0 \<le> i" "i \<le> n"
  shows "sent pi addr n i (pqueue (pipes s pi)) r s'"
  using assms
proof (induction pi addr n i es s rule: pipewrite_loop.induct)
  case (1 pi addr n i es s)
  let ?p = "pipes s pi"
  let ?wr = "\<lambda>p. p\<lparr>pdata := (pdata p)(unat (nwrite p) mod PIPESIZE := addr (nat i)), nwrite := nwrite p + 1\<rparr>"
  note unf = "1.prems"(1) [unfolded pipewrite_loop.simps [of pi addr n i es s]]
  consider "\<not> i < n" | "i < n" "\<not> readopen ?p" | "i < n" "readopen ?p" "nwrite ?p = nread ?p + of_nat PIPESIZE"
    | "i < n" "readopen ?p" "nwrite ?p \<noteq> nread ?p + of_nat PIPESIZE" by blast
  then show ?case
  proof cases
    case 1
    then show ?thesis using unf "1.prems"(3-5) by (auto simp: sent_def intro!: exI [of _ 0] exI [of _ i])
  next
    case 2
    then show ?thesis using unf "1.prems"(3-5) by (auto simp: sent_def intro!: exI [of _ 0] exI [of _ i])
  next
    case 3
    then obtain r1 s1 es1 where w: "proc_wait (ChPipeWrite pi) es (proc_wakeup (ChPipeRead pi) s) = Some (r1, s1, es1)"
      and rest: "(if r1 < 0 then Some (if i > 0 then i else -EINTR, s1, es1) else pipewrite_loop pi addr n i es1 s1) =
        Some (r, s', es')"
      using unf by (auto simp: bind_Some_iff)
    obtain k where k: "pipe_ok (pipes s1 pi)" "pqueue (pipes s1 pi) = drop k (pqueue ?p)" "set es1 \<subseteq> set es"
      using wait_drains [OF w "1.prems"(2)] "1.prems"(3) by auto
    show ?thesis
    proof (cases "r1 < 0")
      case True
      then show ?thesis using rest k "1.prems"(4,5)
        by (auto simp: sent_def split: if_splits intro!: exI [of _ k] exI [of _ i])
    next
      case False
      then have "sent pi addr n i (pqueue (pipes s1 pi)) r s'"
        using "1.IH"(1) [OF 3(1) _ 3(3) w refl refl False] 3(2) rest k "1.prems"(2,4,5) by auto
      then show ?thesis using k(2) sent_drop by metis
    qed
  next
    case 4
    then have "pused ?p < PIPESIZE" using "1.prems"(3) unfolding pused_full pipe_ok_def by simp
    note p = push [OF this, of "addr (nat i)"]
    have "pipewrite_loop pi addr n (i + 1) es (upd_pipe pi ?wr s) = Some (r, s', es')" using unf 4 by simp
    then have "sent pi addr n (i + 1) (pqueue (pipes (upd_pipe pi ?wr s) pi)) r s'"
      using 4 p(1) "1.prems" \<open>pused ?p < PIPESIZE\<close> by (intro "1.IH"(2)) (auto simp: pipe_ok_def)
    then have "sent pi addr n (i + 1) (pqueue ?p @ [addr (nat i)]) r s'" using p(2) by simp
    then show ?thesis using "1.prems"(4) 4(1) by (rule sent_push)
  qed
qed

definition received :: "u64 \<Rightarrow> bytes \<Rightarrow> int \<Rightarrow> u8 list \<Rightarrow> int \<Rightarrow> bytes \<Rightarrow> 'a pipe_st_scheme \<Rightarrow> bool" where
  "received pi addr n q r addr' s' \<longleftrightarrow> pipe_ok (pipes s' pi) \<and>
     (r = -EINTR \<and> addr' = addr \<and> pqueue (pipes s' pi) = q \<or>
      r = int (min (nat n) (length q)) \<and> pqueue (pipes s' pi) = drop (nat r) q \<and>
        addr' = (\<lambda>j. if j < nat r then q ! j else addr j) \<and> (q = [] \<longrightarrow> \<not> writeopen (pipes s' pi)))"

lemma piperead_received:
  assumes "piperead pi addr n es s = Some (r, addr', s', es')" "\<forall>e\<in>set es. fills pi e" "pipe_ok (pipes s pi)"
  shows "\<exists>w. received pi addr n (pqueue (pipes s pi) @ w) r addr' s'"
  using assms
proof (induction pi addr n es s rule: piperead.induct)
  case (1 pi addr n es s)
  let ?p = "pipes s pi"
  note unf = "1.prems"(1) [unfolded piperead.simps [of pi addr n es s]]
  show ?case
  proof (cases "nread ?p = nwrite ?p \<and> writeopen ?p")
    case True
    then obtain r1 s1 es1 where w: "proc_wait (ChPipeRead pi) es s = Some (r1, s1, es1)"
      and rest: "(if r1 < 0 then Some (-EINTR, addr, s1, es1) else piperead pi addr n es1 s1) = Some (r, addr', s', es')"
      using unf by (auto simp: bind_Some_iff)
    obtain v where v: "pipe_ok (pipes s1 pi)" "pqueue (pipes s1 pi) = pqueue ?p @ v" "set es1 \<subseteq> set es"
      using wait_fills [OF w "1.prems"(2)] "1.prems"(3) by auto
    show ?thesis
    proof (cases "r1 < 0")
      case True
      then show ?thesis using rest v by (auto simp: received_def)
    next
      case False
      then have "\<exists>w. received pi addr n (pqueue (pipes s1 pi) @ w) r addr' s'"
        using "1.IH" [OF True w refl refl False] rest v "1.prems"(2) by auto
      then show ?thesis using v(2) by (metis append.assoc)
    qed
  next
    case False
    obtain m p' a' where l: "piperead_loop (nat n) 0 ?p addr = (m, p', a')" by (metis prod_cases3)
    then have res: "r = int m" "addr' = a'" "s' = proc_wakeup (ChPipeWrite pi) (upd_pipe pi (\<lambda>_. p') s)"
      using unf False by auto
    have q: "m = min (nat n) (pused ?p)" "pqueue p' = drop m (pqueue ?p)" "writeopen p' = writeopen ?p"
      "addr' = (\<lambda>j. if j < m then pqueue ?p ! j else addr j)" "pused p' \<le> pused ?p"
      using piperead_loop_queue [OF l] res(2) by auto
    have "pqueue ?p = [] \<longrightarrow> \<not> writeopen ?p" using False by (auto simp: pused_0 simp flip: length_0_conv)
    then have "received pi addr n (pqueue ?p) r addr' s'"
      using q res "1.prems"(3) by (auto simp: received_def pipe_ok_def)
    then show ?thesis by (metis append_Nil2)
  qed
qed

subsection \<open>No lost wakeups\<close>

interpretation readch: sleep_channel "ChPipeRead pi" "\<lambda>s. pused (pipes s pi) = 0 \<and> writeopen (pipes s pi)" for pi
  by unfold_locales simp_all

interpretation writech: sleep_channel "ChPipeWrite pi" "\<lambda>s. pused (pipes s pi) = PIPESIZE \<and> readopen (pipes s pi)" for pi
  by unfold_locales simp_all

definition nolost :: "u64 \<Rightarrow> 'a pipe_st_scheme \<Rightarrow> bool" where
  "nolost pi s \<longleftrightarrow>
     (asleep (ChPipeRead pi) s \<longrightarrow> pused (pipes s pi) = 0 \<and> writeopen (pipes s pi)) \<and>
     (asleep (ChPipeWrite pi) s \<longrightarrow> pused (pipes s pi) = PIPESIZE \<and> readopen (pipes s pi))"

lemma nolost_sound: "nolost pi s \<longleftrightarrow> readch.sound pi s \<and> writech.sound pi s"
  by (simp add: nolost_def readch.sound_def writech.sound_def)

lemma asleep_upd_pipe [simp]: "asleep c (upd_pipe pi f s) = asleep c s"
  by (simp add: asleep_def)

lemma nolost_wait:
  assumes w: "proc_wait c es s = Some (r, s', es')" and "nolost pi s"
    and "\<forall>e\<in>set es. \<forall>s. nolost pi s \<longrightarrow> nolost pi (e s)"
    and "c = ChPipeRead pi \<Longrightarrow> pused (pipes s pi) = 0 \<and> writeopen (pipes s pi)"
    and "c = ChPipeWrite pi \<Longrightarrow> pused (pipes s pi) = PIPESIZE \<and> readopen (pipes s pi)"
  shows "nolost pi s' \<and> set es' \<subseteq> set es"
  using w
proof (cases rule: proc_wait_cases)
  case signalled
  then show ?thesis using assms(2) by simp
next
  case (slept i j e)
  have "readch.sound pi (sleeping c i s)"
    using assms(2,4) unfolding nolost_sound by (intro readch.sound_sleep) auto
  moreover have "writech.sound pi (sleeping c i s)"
    using assms(2,5) unfolding nolost_sound by (intro writech.sound_sleep) auto
  ultimately have "nolost pi (sleeping c i s)" by (simp add: nolost_sound)
  then have "nolost pi (e (sleeping c i s))" using assms(3) slept(1) by simp
  then show ?thesis
    unfolding slept(5) nolost_sound using slept(1) readch.sound_clear writech.sound_clear by auto
qed

lemma piperead_nolost:
  assumes "piperead pi addr n es s = Some (r, addr', s', es')" "nolost pi s"
    "\<forall>e\<in>set es. \<forall>s. nolost pi s \<longrightarrow> nolost pi (e s)"
  shows "nolost pi s'"
  using assms
proof (induction pi addr n es s rule: piperead.induct)
  case (1 pi addr n es s)
  let ?p = "pipes s pi"
  note unf = "1.prems"(1) [unfolded piperead.simps [of pi addr n es s]]
  show ?case
  proof (cases "nread ?p = nwrite ?p \<and> writeopen ?p")
    case True
    then obtain r1 s1 es1 where w: "proc_wait (ChPipeRead pi) es s = Some (r1, s1, es1)"
      and rest: "(if r1 < 0 then Some (-EINTR, addr, s1, es1) else piperead pi addr n es1 s1) = Some (r, addr', s', es')"
      using unf by (auto simp: bind_Some_iff)
    have "nolost pi s1 \<and> set es1 \<subseteq> set es"
      using nolost_wait [OF w "1.prems"(2,3)] True by (simp add: pused_0)
    then show ?thesis using "1.IH" [OF True w refl refl] rest "1.prems"(3) by (cases "r1 < 0") auto
  next
    case False
    then have "s' = proc_wakeup (ChPipeWrite pi) (upd_pipe pi (\<lambda>_. fst (snd (piperead_loop (nat n) 0 ?p addr))) s)"
      using unf by (auto split: prod.splits)
    moreover have "\<not> asleep (ChPipeRead pi) s" using "1.prems"(2) False unfolding nolost_def pused_0 by blast
    ultimately show ?thesis by (simp add: nolost_def)
  qed
qed

lemma pipewrite_loop_nolost:
  assumes "pipewrite_loop pi addr n i es s = Some (r, s', es')" "writech.sound pi s"
    "readch.sound pi s \<or> readopen (pipes s pi)" "\<forall>e\<in>set es. \<forall>s. nolost pi s \<longrightarrow> nolost pi (e s)"
  shows "nolost pi s'"
  using assms
proof (induction pi addr n i es s rule: pipewrite_loop.induct)
  case (1 pi addr n i es s)
  let ?p = "pipes s pi"
  let ?wr = "\<lambda>p. p\<lparr>pdata := (pdata p)(unat (nwrite p) mod PIPESIZE := addr (nat i)), nwrite := nwrite p + 1\<rparr>"
  note unf = "1.prems"(1) [unfolded pipewrite_loop.simps [of pi addr n i es s]]
  have woken: "nolost pi (proc_wakeup (ChPipeRead pi) s)"
    unfolding nolost_sound using "1.prems"(2) readch.sound_wakeup writech.sound_wakeup_other by blast
  consider "\<not> i < n" | "i < n" "\<not> readopen ?p" | "i < n" "readopen ?p" "nwrite ?p = nread ?p + of_nat PIPESIZE"
    | "i < n" "readopen ?p" "nwrite ?p \<noteq> nread ?p + of_nat PIPESIZE" by blast
  then show ?case
  proof cases
    case 1
    then show ?thesis using unf woken by simp
  next
    case 2
    then show ?thesis using unf "1.prems"(2,3) by (simp add: nolost_sound)
  next
    case 3
    then obtain r1 s1 es1 where w: "proc_wait (ChPipeWrite pi) es (proc_wakeup (ChPipeRead pi) s) = Some (r1, s1, es1)"
      and rest: "(if r1 < 0 then Some (if i > 0 then i else -EINTR, s1, es1) else pipewrite_loop pi addr n i es1 s1) =
        Some (r, s', es')"
      using unf by (auto simp: bind_Some_iff)
    have s1: "nolost pi s1 \<and> set es1 \<subseteq> set es"
      using nolost_wait [OF w woken "1.prems"(4)] 3 by (simp add: pused_full)
    show ?thesis
    proof (cases "r1 < 0")
      case True
      then show ?thesis using rest s1 by simp
    next
      case False
      then show ?thesis
        using "1.IH"(1) [OF 3(1) _ 3(3) w refl refl False] 3(2) rest s1 "1.prems"(4) by (auto simp: nolost_sound)
    qed
  next
    case 4
    then have "\<not> asleep (ChPipeWrite pi) s"
      using "1.prems"(2) unfolding writech.sound_def pused_full by blast
    then have "writech.sound pi (upd_pipe pi ?wr s)" by (simp add: writech.sound_def)
    moreover have "pipewrite_loop pi addr n (i + 1) es (upd_pipe pi ?wr s) = Some (r, s', es')" using unf 4 by simp
    ultimately show ?thesis using 4 "1.prems"(4) by (intro "1.IH"(2)) auto
  qed
qed

lemma pipeclose_nolost:
  assumes "pipeclose pi writable s = Some s'" "nolost pi s"
  shows "nolost pi s'"
proof -
  have kp: "nolost pi (t\<lparr>kpmm := m\<rparr>) = nolost pi t" for t :: "'a pipe_st_scheme" and m
    by (simp add: nolost_def asleep_def)
  show ?thesis
    using assms by (auto simp: pipeclose_def Let_def bind_Some_iff kp split: if_splits) (auto simp: nolost_def pused_def)
qed

subsection \<open>Calls that need not wait\<close>

lemma pipewrite_loop_room:
  assumes "readopen (pipes s pi)" "pused (pipes s pi) + nat (n - i) \<le> PIPESIZE" "0 \<le> i" "i \<le> n"
  shows "\<exists>s'. pipewrite_loop pi addr n i es s = Some (n, s', es) \<and>
    pqueue (pipes s' pi) = pqueue (pipes s pi) @ map addr [nat i..<nat n]"
  using assms
proof (induction "nat (n - i)" arbitrary: i s)
  case 0
  then show ?case by (subst pipewrite_loop.simps) simp
next
  case (Suc k)
  let ?p = "pipes s pi"
  let ?wr = "\<lambda>p. p\<lparr>pdata := (pdata p)(unat (nwrite p) mod PIPESIZE := addr (nat i)), nwrite := nwrite p + 1\<rparr>"
  let ?s = "upd_pipe pi ?wr s"
  have less: "i < n" "pused ?p < PIPESIZE" using Suc by auto
  note p = push [OF less(2), of "addr (nat i)"]
  have "\<exists>s'. pipewrite_loop pi addr n (i + 1) es ?s = Some (n, s', es) \<and>
    pqueue (pipes s' pi) = pqueue (pipes ?s pi) @ map addr [nat (i + 1)..<nat n]"
    using Suc less p(1) by (intro Suc.hyps(1)) auto
  moreover have "pipewrite_loop pi addr n i es s = pipewrite_loop pi addr n (i + 1) es ?s"
    using less Suc.prems(1) by (subst pipewrite_loop.simps) (simp add: pused_full)
  moreover have "nat i < nat n" "nat (i + 1) = Suc (nat i)" using less Suc.prems(3) by auto
  ultimately show ?case using p(2) by (auto simp: upt_conv_Cons)
qed

subsection \<open>Properties\<close>

text \<open>A pipe whose counters are about to wrap around.\<close>

definition demo_pipe :: pipe where
  "demo_pipe = \<lparr>pdata = (\<lambda>_. 0), nread = -1, nwrite = -1, readopen = True, writeopen = True\<rparr>"

definition demo_pst :: pipe_st where
  "demo_pst = sync_st.extend demo_sync (pipe_st.fields (\<lambda>_. demo_pipe))"

lemma demo_pst_simps [simp]:
  "pipes demo_pst pi = demo_pipe" "current demo_pst = Some 0"
  by (simp_all add: demo_pst_def demo_sync_def kst.defs sync_st.defs pipe_st.defs)

text \<open>Property C6. Pipes deliver bytes in order, writing side. Whatever readers take from the pipe while the
  writer sleeps, the bytes of the buffer are appended once each and in order: on return the pipe holds what
  is left, from the front, of the old contents followed by the first \<open>m\<close> bytes of the buffer. The result
  is \<open>m\<close>, unless a signal came before the first byte (\<^verbatim>\<open>EINTR\<close>) or the reading end was closed (-1). The pipe
  never holds more than \<^verbatim>\<open>PIPESIZE\<close> bytes, also when the counters wrap around; and with enough room for
  all \<open>n\<close> bytes the call returns \<open>n\<close> without sleeping.\<close>

theorem pipewrite_fifo:
  assumes "\<forall>e\<in>set es. drains pi e" "pipe_ok (pipes s pi)" "0 \<le> n"
  shows "(case pipewrite pi addr n es s of None \<Rightarrow> True
     | Some (r, s', es') \<Rightarrow> pipe_ok (pipes s' pi) \<and>
        (\<exists>d m. 0 \<le> m \<and> m \<le> n \<and> pqueue (pipes s' pi) = drop d (pqueue (pipes s pi) @ map addr [0..<nat m]) \<and>
           (r = m \<or> r = -EINTR \<and> m = 0 \<or> r = -1 \<and> \<not> readopen (pipes s' pi)))) \<and>
    (readopen (pipes s pi) \<and> pused (pipes s pi) + nat n \<le> PIPESIZE \<longrightarrow>
      (\<exists>s'. pipewrite pi addr n es s = Some (n, s', es) \<and>
            pqueue (pipes s' pi) = pqueue (pipes s pi) @ map addr [0..<nat n]))"
proof
  show "case pipewrite pi addr n es s of None \<Rightarrow> True
     | Some (r, s', es') \<Rightarrow> pipe_ok (pipes s' pi) \<and>
        (\<exists>d m. 0 \<le> m \<and> m \<le> n \<and> pqueue (pipes s' pi) = drop d (pqueue (pipes s pi) @ map addr [0..<nat m]) \<and>
           (r = m \<or> r = -EINTR \<and> m = 0 \<or> r = -1 \<and> \<not> readopen (pipes s' pi)))"
    using pipewrite_loop_sent [OF _ assms(1,2) order_refl assms(3)]
    by (auto simp: pipewrite_def sent_def split: option.splits)
  show "readopen (pipes s pi) \<and> pused (pipes s pi) + nat n \<le> PIPESIZE \<longrightarrow>
      (\<exists>s'. pipewrite pi addr n es s = Some (n, s', es) \<and>
            pqueue (pipes s' pi) = pqueue (pipes s pi) @ map addr [0..<nat n])"
    using pipewrite_loop_room [of s pi n 0 addr es] assms(3) by (auto simp: pipewrite_def)
qed

theorem pipewrite_fifo_witness:
  "\<exists>s'. pipewrite 0 of_nat 3 [\<lambda>s. s] demo_pst = Some (3, s', [\<lambda>s. s]) \<and> pqueue (pipes s' 0) = [0, 1, 2]"
proof -
  have q: "pqueue demo_pipe = []" "pused demo_pipe = 0" by (simp_all add: pqueue_def pused_def demo_pipe_def)
  have "drains 0 (\<lambda>s :: pipe_st. s)" by (auto simp: drains_def intro: exI [of _ 0])
  with pipewrite_fifo [of "[\<lambda>s. s]" 0 demo_pst 3 of_nat] show ?thesis
    using q by (auto simp: pipe_ok_def PIPESIZE_def demo_pipe_def upt_rec)
qed

text \<open>Property C7. Pipes deliver bytes in order, reading side. Whatever writers append while the reader sleeps,
  the call takes the bytes at the front of the queue, at most \<open>n\<close> and as many as there are, copies them to
  the buffer in order and leaves the rest queued. It returns 0 for \<open>n > 0\<close> only at end of file (queue empty and
  writing end closed), and \<^verbatim>\<open>EINTR\<close> without taking anything when a signal arrives first.\<close>

theorem piperead_fifo:
  assumes "\<forall>e\<in>set es. fills pi e" "pipe_ok (pipes s pi)"
  shows "(case piperead pi addr n es s of None \<Rightarrow> True
     | Some (r, addr', s', es') \<Rightarrow> pipe_ok (pipes s' pi) \<and>
        (\<exists>q w. q = pqueue (pipes s pi) @ w \<and>
          (r = -EINTR \<and> addr' = addr \<and> pqueue (pipes s' pi) = q \<or>
           r = int (min (nat n) (length q)) \<and> pqueue (pipes s' pi) = drop (nat r) q \<and>
           addr' = (\<lambda>j. if j < nat r then q ! j else addr j) \<and> (q = [] \<longrightarrow> \<not> writeopen (pipes s' pi))))) \<and>
    (pqueue (pipes s pi) \<noteq> [] \<or> \<not> writeopen (pipes s pi) \<longrightarrow>
      (\<exists>addr' s'. piperead pi addr n es s = Some (int (min (nat n) (pused (pipes s pi))), addr', s', es)))"
proof
  show "case piperead pi addr n es s of None \<Rightarrow> True
     | Some (r, addr', s', es') \<Rightarrow> pipe_ok (pipes s' pi) \<and>
        (\<exists>q w. q = pqueue (pipes s pi) @ w \<and>
          (r = -EINTR \<and> addr' = addr \<and> pqueue (pipes s' pi) = q \<or>
           r = int (min (nat n) (length q)) \<and> pqueue (pipes s' pi) = drop (nat r) q \<and>
           addr' = (\<lambda>j. if j < nat r then q ! j else addr j) \<and> (q = [] \<longrightarrow> \<not> writeopen (pipes s' pi))))"
  proof (cases "piperead pi addr n es s")
    case (Some x)
    then obtain r addr' s' es' where x: "x = (r, addr', s', es')" by (metis prod_cases4)
    show ?thesis
      using piperead_received [OF Some [unfolded x] assms] Some x unfolding received_def by auto
  qed simp
  have "\<exists>addr' s'. piperead pi addr n es s = Some (int (min (nat n) (pused (pipes s pi))), addr', s', es)"
    if "pqueue (pipes s pi) \<noteq> [] \<or> \<not> writeopen (pipes s pi)"
  proof -
    have go: "\<not> (nread (pipes s pi) = nwrite (pipes s pi) \<and> writeopen (pipes s pi))"
      using that by (auto simp: pused_0 simp flip: length_0_conv)
    obtain m p' a' where l: "piperead_loop (nat n) 0 (pipes s pi) addr = (m, p', a')" by (metis prod_cases3)
    then have "m = min (nat n) (pused (pipes s pi))" using piperead_loop_queue by fastforce
    then show ?thesis using go l by (subst piperead.simps) auto
  qed
  then show "pqueue (pipes s pi) \<noteq> [] \<or> \<not> writeopen (pipes s pi) \<longrightarrow>
      (\<exists>addr' s'. piperead pi addr n es s = Some (int (min (nat n) (pused (pipes s pi))), addr', s', es))" by blast
qed

theorem piperead_fifo_witness:
  "\<exists>addr' s'. piperead 0 (\<lambda>_. 0) 5 [] (upd_pipe 0 (\<lambda>p. p\<lparr>nwrite := 2\<rparr>) demo_pst) = Some (3, addr', s', [])"
proof -
  let ?s = "upd_pipe 0 (\<lambda>p. p\<lparr>nwrite := 2\<rparr>) demo_pst"
  have p: "pused (pipes ?s 0) = 3" by (simp add: pused_def demo_pipe_def)
  then have "pqueue (pipes ?s 0) \<noteq> []" using length_pqueue [of "pipes ?s 0"] by (metis list.size(3) zero_neq_numeral)
  moreover have "pipe_ok (pipes ?s 0)" using p by (simp add: pipe_ok_def PIPESIZE_def)
  ultimately show ?thesis
    using piperead_fifo [of "[]" 0 ?s "\<lambda>_. 0" 5] p by (simp del: pipes_frame(4))
qed

text \<open>Property C5. No wakeup is lost on a pipe: if readers sleep only while the pipe is empty and open for
  writing, and writers sleep only while it is full and open for reading, then this is still so after every
  \<^verbatim>\<open>piperead\<close>, \<^verbatim>\<open>pipewrite\<close> and \<^verbatim>\<open>pipeclose\<close>, however the sleeping calls are interleaved with calls that keep
  it. So no process sleeps on a pipe it could use.\<close>

theorem pipe_no_lost_wakeup:
  assumes "nolost pi s" "\<forall>e\<in>set es. \<forall>s. nolost pi s \<longrightarrow> nolost pi (e s)"
  shows "(\<forall>addr n r addr' s' es'. piperead pi addr n es s = Some (r, addr', s', es') \<longrightarrow> nolost pi s') \<and>
    (\<forall>addr n r s' es'. pipewrite pi addr n es s = Some (r, s', es') \<longrightarrow> nolost pi s') \<and>
    (\<forall>writable s'. pipeclose pi writable s = Some s' \<longrightarrow> nolost pi s')"
proof (intro conjI allI impI)
  fix addr n r s' es'
  assume "pipewrite pi addr n es s = Some (r, s', es')"
  then show "nolost pi s'" using pipewrite_loop_nolost assms unfolding pipewrite_def nolost_sound by blast
qed (use assms piperead_nolost pipeclose_nolost in blast)+

theorem pipe_no_lost_wakeup_witness:
  "\<exists>s'. pipeclose 0 True demo_pst = Some s' \<and> nolost 0 s'"
proof -
  have n: "nolost 0 demo_pst"
    by (simp add: nolost_def asleep_def demo_pst_def demo_sync_def kst.defs sync_st.defs pipe_st.defs demo_kst_def blank_proc_def)
  have "\<forall>writable s'. pipeclose 0 writable demo_pst = Some s' \<longrightarrow> nolost 0 s'"
    by (rule conjunct2 [OF conjunct2 [OF pipe_no_lost_wakeup [OF n, of "[]"]]]) simp
  moreover have "\<exists>s'. pipeclose 0 True demo_pst = Some s'"
    by (simp add: pipeclose_def demo_pipe_def)
  ultimately show ?thesis by blast
qed

end
