(* ===== verification/Virtio.thy ===== *)
theory Virtio
  imports Pipe
begin

text \<open>
  The virtio block driver's request path, \<^verbatim>\<open>kernel/virtio.c\<close>: the free list of descriptors, the three
  descriptor chain of a request, the retries. The device is a parameter: \<open>sectors\<close> is what it stores and
  \<open>replies\<close> how it will answer the requests to come, with a status byte or not before the deadline. A
  request it completes with status 0 transfers the sector; a failed one may leave anything in the buffer
  (read) or in the sector (write). Waiting for the device, which the driver does asleep or spinning, is
  part of the reply. The registers of the probing and set-up code are not modelled.
\<close>

definition VIRTIO_QUEUE_SIZE :: nat where "VIRTIO_QUEUE_SIZE = 8"
definition VIRTIO_MAX_RETRIES :: nat where "VIRTIO_MAX_RETRIES = 3"
definition VIRTIO_E_OK :: int where "VIRTIO_E_OK = 0"
definition VIRTIO_E_IOERR :: int where "VIRTIO_E_IOERR = -1"
definition VIRTIO_E_UNSUPP :: int where "VIRTIO_E_UNSUPP = -2"
definition VIRTIO_E_TIMEOUT :: int where "VIRTIO_E_TIMEOUT = -3"
definition VIRTIO_E_RESET :: int where "VIRTIO_E_RESET = -4"
definition VIRTQ_DESC_F_NEXT :: u16 where "VIRTQ_DESC_F_NEXT = 1"
definition VIRTQ_DESC_F_WRITE :: u16 where "VIRTQ_DESC_F_WRITE = 2"
definition VIRTIO_BLK_T_IN :: u32 where "VIRTIO_BLK_T_IN = 0"
definition VIRTIO_BLK_T_OUT :: u32 where "VIRTIO_BLK_T_OUT = 1"

lemmas virtio_e_defs = VIRTIO_E_OK_def VIRTIO_E_IOERR_def VIRTIO_E_UNSUPP_def VIRTIO_E_TIMEOUT_def VIRTIO_E_RESET_def

text \<open>What a descriptor points to: the header, the data buffer or the status byte.\<close>

datatype vtarget = Nowhere | BlkHdr | DataBuf | BlkStatus

record virtq_desc =
  vaddr :: vtarget
  vlen :: u32
  vflags :: u16
  vnext :: u16

record virtio_blk_outhdr =
  vtype :: u32
  vsector :: u64

datatype reply = Reply u8 bytes | NoReply bytes

record virtio_st = pipe_st +
  vdesc :: "nat \<Rightarrow> virtq_desc"
  free_head :: u16
  avail_ring :: "nat \<Rightarrow> u16"
  avail_idx :: u16
  blk_hdr :: virtio_blk_outhdr
  driver_ok :: bool
  sectors :: "u64 \<Rightarrow> bytes"
  replies :: "nat \<Rightarrow> reply"
  nreq :: nat

definition upd_desc :: "nat \<Rightarrow> (virtq_desc \<Rightarrow> virtq_desc) \<Rightarrow> 'a virtio_st_scheme \<Rightarrow> 'a virtio_st_scheme" where
  "upd_desc i f s = s\<lparr>vdesc := (vdesc s)(i := f (vdesc s i))\<rparr>"

definition alloc_desc :: "'a virtio_st_scheme \<Rightarrow> nat option \<times> 'a virtio_st_scheme" where
  "alloc_desc s =
     (if free_head s = 0xFFFF then (None, s)
      else let idx = unat (free_head s) in (Some idx, s\<lparr>free_head := vnext (vdesc s idx)\<rparr>))"

definition free_desc :: "nat \<Rightarrow> 'a virtio_st_scheme \<Rightarrow> 'a virtio_st_scheme" where
  "free_desc i s = (upd_desc i (\<lambda>d. d\<lparr>vnext := free_head s\<rparr>) s)\<lparr>free_head := of_nat i\<rparr>"

text \<open>The part of \<^verbatim>\<open>virtio_queue_init\<close> that sets up the rings.\<close>

definition init_rings :: "'a virtio_st_scheme \<Rightarrow> 'a virtio_st_scheme" where
  "init_rings s =
     (let s = fold (\<lambda>i. upd_desc i (\<lambda>d. d\<lparr>vnext := of_nat (i + 1)\<rparr>)) [0..<VIRTIO_QUEUE_SIZE - 1] s;
          s = upd_desc (VIRTIO_QUEUE_SIZE - 1) (\<lambda>d. d\<lparr>vnext := 0xFFFF\<rparr>) s
      in s\<lparr>free_head := 0, avail_idx := 0\<rparr>)"

text \<open>The loop that takes three descriptors, or puts back those it got, oldest first.\<close>

primrec alloc_descs :: "nat \<Rightarrow> nat list \<Rightarrow> 'a virtio_st_scheme \<Rightarrow> nat list option \<times> 'a virtio_st_scheme" where
  "alloc_descs 0 got s = (Some got, s)"
| "alloc_descs (Suc n) got s =
     (case alloc_desc s of
        (None, s) \<Rightarrow> (None, fold free_desc got s)
      | (Some i, s) \<Rightarrow> alloc_descs n (got @ [i]) s)"

text \<open>The device: it takes the request at the head of the chain and answers it.\<close>

definition device_io :: "nat list \<Rightarrow> bytes \<Rightarrow> 'a virtio_st_scheme \<Rightarrow> u8 option \<times> bytes \<times> 'a virtio_st_scheme" where
  "device_io idx buf s =
     (let sector = vsector (blk_hdr s); out = (vtype (blk_hdr s) = VIRTIO_BLK_T_OUT);
          r = replies s (nreq s); s = s\<lparr>nreq := nreq s + 1\<rparr>
      in case r of
           Reply st junk \<Rightarrow>
             if st = 0 then
               if out then (Some st, buf, s\<lparr>sectors := (sectors s)(sector := buf)\<rparr>)
               else (Some st, sectors s sector, s)
             else if out then (Some st, buf, s\<lparr>sectors := (sectors s)(sector := junk)\<rparr>)
             else (Some st, junk, s)
         | NoReply junk \<Rightarrow>
             if out then (None, buf, s\<lparr>sectors := (sectors s)(sector := junk)\<rparr>) else (None, junk, s))"

text \<open>Header, descriptor chain and available ring of a request.\<close>

definition submit :: "nat list \<Rightarrow> u64 \<Rightarrow> bool \<Rightarrow> 'a virtio_st_scheme \<Rightarrow> 'a virtio_st_scheme" where
  "submit idx sector write s =
     (let s = s\<lparr>blk_hdr := \<lparr>vtype = (if write then VIRTIO_BLK_T_OUT else VIRTIO_BLK_T_IN), vsector = sector\<rparr>\<rparr>;
          s = upd_desc (idx ! 0) (\<lambda>_. \<lparr>vaddr = BlkHdr, vlen = 16, vflags = VIRTQ_DESC_F_NEXT,
                                       vnext = of_nat (idx ! 1)\<rparr>) s;
          s = upd_desc (idx ! 1) (\<lambda>_. \<lparr>vaddr = DataBuf, vlen = 512,
                                       vflags = (if write then VIRTQ_DESC_F_NEXT else VIRTQ_DESC_F_NEXT OR VIRTQ_DESC_F_WRITE),
                                       vnext = of_nat (idx ! 2)\<rparr>) s;
          s = upd_desc (idx ! 2) (\<lambda>_. \<lparr>vaddr = BlkStatus, vlen = 1, vflags = VIRTQ_DESC_F_WRITE, vnext = 0\<rparr>) s
      in s\<lparr>avail_ring := (avail_ring s)(unat (avail_idx s) mod VIRTIO_QUEUE_SIZE := of_nat (idx ! 0)),
           avail_idx := avail_idx s + 1\<rparr>)"

text \<open>The result is the error code and what the 512 bytes of the buffer hold afterwards.\<close>

definition virtio_disk_rw :: "u64 \<Rightarrow> bytes \<Rightarrow> bool \<Rightarrow> 'a virtio_st_scheme \<Rightarrow> int \<times> bytes \<times> 'a virtio_st_scheme" where
  "virtio_disk_rw sector buf write s =
     (if \<not> driver_ok s then (VIRTIO_E_RESET, buf, s)
      else case alloc_descs 3 [] s of
        (None, s) \<Rightarrow> (VIRTIO_E_IOERR, buf, s)
      | (Some idx, s) \<Rightarrow>
          (let (status, buf, s) = device_io idx buf (submit idx sector write s);
               s = fold free_desc idx s
           in case status of
                None \<Rightarrow> (VIRTIO_E_TIMEOUT, buf, s)
              | Some st \<Rightarrow> (if st = 0 then VIRTIO_E_OK else if st = 2 then VIRTIO_E_UNSUPP else VIRTIO_E_IOERR, buf, s)))"

primrec virtio_retry :: "nat \<Rightarrow> u64 \<Rightarrow> bytes \<Rightarrow> bool \<Rightarrow> 'a virtio_st_scheme \<Rightarrow> int \<times> bytes \<times> 'a virtio_st_scheme" where
  "virtio_retry 0 sector buf write s = (VIRTIO_E_IOERR, buf, s)"
| "virtio_retry (Suc k) sector buf write s =
     (let (ret, buf, s) = virtio_disk_rw sector buf write s in
      if ret \<noteq> VIRTIO_E_IOERR then (ret, buf, s) else virtio_retry k sector buf write s)"

definition virtio_disk_read :: "u64 \<Rightarrow> bytes \<Rightarrow> 'a virtio_st_scheme \<Rightarrow> int \<times> bytes \<times> 'a virtio_st_scheme" where
  "virtio_disk_read sector buf s = virtio_retry VIRTIO_MAX_RETRIES sector buf False s"

definition virtio_disk_write :: "u64 \<Rightarrow> bytes \<Rightarrow> 'a virtio_st_scheme \<Rightarrow> int \<times> bytes \<times> 'a virtio_st_scheme" where
  "virtio_disk_write sector buf s = virtio_retry VIRTIO_MAX_RETRIES sector buf True s"

subsection \<open>The free list of descriptors\<close>

fun dlist :: "(nat \<Rightarrow> virtq_desc) \<Rightarrow> u16 \<Rightarrow> nat list \<Rightarrow> bool" where
  "dlist D h [] \<longleftrightarrow> h = 0xFFFF"
| "dlist D h (d # ds) \<longleftrightarrow> d < VIRTIO_QUEUE_SIZE \<and> h = of_nat d \<and> dlist D (vnext (D d)) ds"

definition qlist :: "'a virtio_st_scheme \<Rightarrow> nat list \<Rightarrow> bool" where
  "qlist s ds \<longleftrightarrow> dlist (vdesc s) (free_head s) ds \<and> distinct ds"

lemma dlist_upd: "d \<notin> set ds \<Longrightarrow> dlist (D(d := x)) h ds = dlist D h ds"
  by (induction ds arbitrary: h) auto

lemma dlist_bound: "dlist D h ds \<Longrightarrow> set ds \<subseteq> {..<VIRTIO_QUEUE_SIZE}"
  by (induction ds arbitrary: h) auto

lemma unat_desc: "d < VIRTIO_QUEUE_SIZE \<Longrightarrow> unat (of_nat d :: u16) = d"
  by (simp add: unat_of_nat_small VIRTIO_QUEUE_SIZE_def)

lemma desc_not_end: "d < VIRTIO_QUEUE_SIZE \<Longrightarrow> (of_nat d :: u16) \<noteq> 0xFFFF"
  by (auto simp: unat_desc VIRTIO_QUEUE_SIZE_def dest!: arg_cong [where f = unat])

lemma alloc_desc_Cons:
  "qlist s (d # ds) \<Longrightarrow> alloc_desc s = (Some d, s\<lparr>free_head := vnext (vdesc s d)\<rparr>) \<and>
     qlist (s\<lparr>free_head := vnext (vdesc s d)\<rparr>) ds \<and> d < VIRTIO_QUEUE_SIZE \<and> d \<notin> set ds"
  using desc_not_end [of d] unat_desc [of d] by (auto simp: qlist_def alloc_desc_def)

lemma alloc_desc_Nil: "qlist s [] \<Longrightarrow> alloc_desc s = (None, s)"
  by (simp add: qlist_def alloc_desc_def)

lemma free_desc_qlist:
  "qlist s ds \<Longrightarrow> i < VIRTIO_QUEUE_SIZE \<Longrightarrow> i \<notin> set ds \<Longrightarrow> qlist (free_desc i s) (i # ds)"
  by (simp add: qlist_def free_desc_def upd_desc_def dlist_upd)

lemma fold_free_desc_qlist:
  "qlist s ds \<Longrightarrow> distinct is \<Longrightarrow> set is \<inter> set ds = {} \<Longrightarrow> set is \<subseteq> {..<VIRTIO_QUEUE_SIZE} \<Longrightarrow>
   qlist (fold free_desc is s) (rev is @ ds)"
proof (induction "is" arbitrary: s ds)
  case (Cons i "is")
  have "qlist (free_desc i s) (i # ds)" using Cons.prems by (intro free_desc_qlist) auto
  then have "qlist (fold free_desc is (free_desc i s)) (rev is @ i # ds)" using Cons.prems by (intro Cons.IH) auto
  then show ?case by simp
qed simp

lemma qlist_upd_desc: "d \<notin> set ds \<Longrightarrow> qlist (upd_desc d f s) ds = qlist s ds"
  by (simp add: qlist_def upd_desc_def dlist_upd)

lemma qlist_cong: "vdesc s' = vdesc s \<Longrightarrow> free_head s' = free_head s \<Longrightarrow> qlist s' ds = qlist s ds"
  by (simp add: qlist_def)

text \<open>The driver's own variables and the device: all that a request changes.\<close>

definition vio_only :: "'a virtio_st_scheme \<Rightarrow> 'a virtio_st_scheme \<Rightarrow> bool" where
  "vio_only s s' \<longleftrightarrow> s'\<lparr>vdesc := vdesc s, free_head := free_head s, avail_ring := avail_ring s,
      avail_idx := avail_idx s, blk_hdr := blk_hdr s, sectors := sectors s, nreq := nreq s\<rparr> = s"

lemma vio_only_refl [simp]: "vio_only s s"
  by (simp add: vio_only_def)

lemma vio_only_trans:
  assumes "vio_only s s'" "vio_only s' s''"
  shows "vio_only s s''"
proof -
  have "s'\<lparr>vdesc := vdesc s, free_head := free_head s, avail_ring := avail_ring s,
      avail_idx := avail_idx s, blk_hdr := blk_hdr s, sectors := sectors s, nreq := nreq s\<rparr> =
    s''\<lparr>vdesc := vdesc s, free_head := free_head s, avail_ring := avail_ring s,
      avail_idx := avail_idx s, blk_hdr := blk_hdr s, sectors := sectors s, nreq := nreq s\<rparr>"
    using assms(2) unfolding vio_only_def by (rule subst) simp
  then show ?thesis using assms(1) unfolding vio_only_def by simp
qed

lemma vio_only_updates:
  "vio_only s (s'\<lparr>vdesc := D\<rparr>) = vio_only s s'" "vio_only s (s'\<lparr>free_head := h\<rparr>) = vio_only s s'"
  "vio_only s (s'\<lparr>avail_ring := r\<rparr>) = vio_only s s'" "vio_only s (s'\<lparr>avail_idx := i\<rparr>) = vio_only s s'"
  "vio_only s (s'\<lparr>blk_hdr := b\<rparr>) = vio_only s s'" "vio_only s (s'\<lparr>sectors := sec\<rparr>) = vio_only s s'"
  "vio_only s (s'\<lparr>nreq := n\<rparr>) = vio_only s s'"
  by (simp_all add: vio_only_def)

lemma vio_only_desc: "vio_only s (upd_desc d f s') = vio_only s s'" "vio_only s (free_desc d s') = vio_only s s'"
  by (simp_all add: upd_desc_def free_desc_def vio_only_updates)

lemma vio_only_fields:
  assumes "vio_only s s'"
  shows "driver_ok s' = driver_ok s" "replies s' = replies s" "virtio_st.more s' = virtio_st.more s"
    "procs s' = procs s" "kpmm s' = kpmm s" "current s' = current s"
proof -
  note eq = assms [unfolded vio_only_def]
  show "driver_ok s' = driver_ok s" using arg_cong [OF eq, of driver_ok] by simp
  show "replies s' = replies s" using arg_cong [OF eq, of replies] by simp
  show "virtio_st.more s' = virtio_st.more s" using arg_cong [OF eq, of virtio_st.more] by simp
  show "procs s' = procs s" using arg_cong [OF eq, of procs] by simp
  show "kpmm s' = kpmm s" using arg_cong [OF eq, of kpmm] by simp
  show "current s' = current s" using arg_cong [OF eq, of current] by simp
qed

subsection \<open>One request\<close>

lemma free_desc_fields [simp]:
  "sectors (free_desc i s) = sectors s" "nreq (free_desc i s) = nreq s" "sectors (upd_desc i f s) = sectors s"
  "nreq (upd_desc i f s) = nreq s" "replies (upd_desc i f s) = replies s" "blk_hdr (upd_desc i f s) = blk_hdr s"
  by (simp_all add: free_desc_def upd_desc_def)

text \<open>What a request that gets its descriptors does, by the device's reply.\<close>

definition answered :: "u64 \<Rightarrow> bytes \<Rightarrow> bool \<Rightarrow> 'a virtio_st_scheme \<Rightarrow> int \<Rightarrow> bytes \<Rightarrow> 'a virtio_st_scheme \<Rightarrow> bool" where
  "answered sector buf write s r buf' s' \<longleftrightarrow>
     (case replies s (nreq s) of
        Reply st junk \<Rightarrow>
          if st = 0 then r = VIRTIO_E_OK \<and> (if write then buf' = buf \<and> sectors s' = (sectors s)(sector := buf)
                                            else buf' = sectors s sector \<and> sectors s' = sectors s)
          else r = (if st = 2 then VIRTIO_E_UNSUPP else VIRTIO_E_IOERR) \<and>
            (if write then sectors s' = (sectors s)(sector := junk) \<and> buf' = buf else sectors s' = sectors s)
      | NoReply junk \<Rightarrow> r = VIRTIO_E_TIMEOUT \<and>
            (if write then sectors s' = (sectors s)(sector := junk) \<and> buf' = buf else sectors s' = sectors s))"

lemma virtio_disk_rw_answered:
  assumes "driver_ok s" "qlist s (a # b # c # ds)"
  obtains r buf' s' where "virtio_disk_rw sector buf write s = (r, buf', s')" "qlist s' (c # b # a # ds)"
    "nreq s' = Suc (nreq s)" "vio_only s s'" "answered sector buf write s r buf' s'"
proof -
  let ?s1 = "s\<lparr>free_head := vnext (vdesc s a)\<rparr>"
  let ?s2 = "?s1\<lparr>free_head := vnext (vdesc ?s1 b)\<rparr>"
  let ?s3 = "?s2\<lparr>free_head := vnext (vdesc ?s2 c)\<rparr>"
  have 1: "alloc_desc s = (Some a, ?s1)" "qlist ?s1 (b # c # ds)" "a < VIRTIO_QUEUE_SIZE" "a \<notin> set (b # c # ds)"
    using alloc_desc_Cons [OF assms(2)] by auto
  have 2: "alloc_desc ?s1 = (Some b, ?s2)" "qlist ?s2 (c # ds)" "b < VIRTIO_QUEUE_SIZE" "b \<notin> set (c # ds)"
    using alloc_desc_Cons [OF 1(2)] by auto
  have 3: "alloc_desc ?s2 = (Some c, ?s3)" "qlist ?s3 ds" "c < VIRTIO_QUEUE_SIZE" "c \<notin> set ds"
    using alloc_desc_Cons [OF 2(2)] by auto
  have got: "alloc_descs 3 [] s = (Some [a, b, c], ?s3)"
    by (simp add: numeral_3_eq_3 1(1) 2(1) [simplified] 3(1) [simplified])
  define s4 where "s4 = submit [a, b, c] sector write ?s3"
  have s4: "qlist s4 ds" "vio_only s s4" "sectors s4 = sectors s" "nreq s4 = nreq s" "replies s4 = replies s"
    "vsector (blk_hdr s4) = sector" "vtype (blk_hdr s4) = (if write then VIRTIO_BLK_T_OUT else VIRTIO_BLK_T_IN)"
    using 1(4) 2(4) 3(2,4)
    by (simp_all add: s4_def submit_def Let_def vio_only_updates vio_only_desc upd_desc_def qlist_def dlist_upd)
  obtain st buf' s5 where io: "device_io [a, b, c] buf s4 = (st, buf', s5)" by (metis prod_cases3)
  have s5: "qlist s5 ds" "vio_only s s5" "nreq s5 = Suc (nreq s)"
    using io s4(1,2,4) by (auto simp: device_io_def Let_def vio_only_updates qlist_def split: reply.splits if_splits)
  let ?s6 = "fold free_desc [a, b, c] s5"
  have q6: "qlist ?s6 (rev [a, b, c] @ ds)"
    using s5(1) 1(3,4) 2(3,4) 3(3,4) by (intro fold_free_desc_qlist) auto
  define r where "r = (case st of None \<Rightarrow> VIRTIO_E_TIMEOUT
    | Some st \<Rightarrow> if st = 0 then VIRTIO_E_OK else if st = 2 then VIRTIO_E_UNSUPP else VIRTIO_E_IOERR)"
  have "virtio_disk_rw sector buf write s = (r, buf', ?s6)"
    using assms(1) got io [unfolded s4_def]
    by (simp add: virtio_disk_rw_def r_def split: option.splits del: fold.simps)
  moreover have "answered sector buf write s r buf' ?s6"
    using io s4(3-7)
    by (auto simp: answered_def r_def device_io_def Let_def VIRTIO_BLK_T_OUT_def VIRTIO_BLK_T_IN_def split: reply.splits if_splits)
  moreover have "vio_only s ?s6" "nreq ?s6 = Suc (nreq s)" using s5(2,3) by (simp_all add: vio_only_desc)
  ultimately show ?thesis using q6 by (intro that) auto
qed

subsection \<open>Retries\<close>

text \<open>A transfer that succeeds has transferred the sector; one that fails has changed at most that sector.\<close>

definition transferred :: "u64 \<Rightarrow> bytes \<Rightarrow> bool \<Rightarrow> 'a virtio_st_scheme \<Rightarrow> int \<Rightarrow> bytes \<Rightarrow> 'a virtio_st_scheme \<Rightarrow> bool" where
  "transferred sector buf write s r buf' s' \<longleftrightarrow>
     r \<in> {0, -1, -2, -3} \<and>
     (if write then buf' = buf \<and> (r = 0 \<longrightarrow> sectors s' = (sectors s)(sector := buf)) \<and>
                    (\<forall>x. x \<noteq> sector \<longrightarrow> sectors s' x = sectors s x)
      else sectors s' = sectors s \<and> (r = 0 \<longrightarrow> buf' = sectors s sector))"

lemma answered_transferred: "answered sector buf write s r buf' s' \<Longrightarrow> transferred sector buf write s r buf' s'"
  by (auto simp: answered_def transferred_def virtio_e_defs split: reply.splits if_splits)

lemma transferred_trans:
  assumes "transferred sector buf write s r0 buf0 s0" "transferred sector buf0 write s0 r buf' s'"
  shows "transferred sector buf write s r buf' s'"
  using assms by (auto simp: transferred_def fun_eq_iff split: if_splits)

lemma virtio_retry_transferred:
  assumes "driver_ok s" "qlist s ds" "3 \<le> length ds"
  shows "\<exists>r buf' s' ds'. virtio_retry (Suc k) sector buf write s = (r, buf', s') \<and> qlist s' ds' \<and> set ds' = set ds \<and>
    vio_only s s' \<and> transferred sector buf write s r buf' s' \<and> nreq s' \<le> nreq s + Suc k \<and>
    (\<forall>junk. replies s (nreq s) = Reply 0 junk \<longrightarrow> r = 0)"
  using assms
proof (induction k arbitrary: s buf ds)
  case (0 s buf ds)
  note prems = this
  then obtain a b c es where ds: "ds = a # b # c # es"
    by (metis One_nat_def Suc_le_length_iff numeral_3_eq_3)
  from virtio_disk_rw_answered [OF prems(1) prems(2) [unfolded ds], of sector buf "write"]
  obtain r buf' s' where rw: "virtio_disk_rw sector buf write s = (r, buf', s')" "qlist s' (c # b # a # es)"
    "nreq s' = Suc (nreq s)" "vio_only s s'" "answered sector buf write s r buf' s'" by blast
  moreover have "\<forall>junk. replies s (nreq s) = Reply 0 junk \<longrightarrow> r = 0"
    using rw(5) by (auto simp: answered_def VIRTIO_E_OK_def)
  moreover have "virtio_retry (Suc 0) sector buf write s = (r, buf', s')"
    using rw(1) by (simp add: VIRTIO_E_IOERR_def)
  ultimately show ?case using answered_transferred [OF rw(5)] ds
    by (intro exI [of _ r] exI [of _ buf'] exI [of _ s'] exI [of _ "c # b # a # es"]) (simp add: insert_commute)
next
  case (Suc k s buf ds)
  then obtain a b c es where ds: "ds = a # b # c # es"
    by (metis One_nat_def Suc_le_length_iff numeral_3_eq_3)
  from virtio_disk_rw_answered [OF Suc.prems(1) Suc.prems(2) [unfolded ds], of sector buf "write"]
  obtain r0 buf0 s0 where rw: "virtio_disk_rw sector buf write s = (r0, buf0, s0)" "qlist s0 (c # b # a # es)"
    "nreq s0 = Suc (nreq s)" "vio_only s s0" "answered sector buf write s r0 buf0 s0" by blast
  have ok: "\<forall>junk. replies s (nreq s) = Reply 0 junk \<longrightarrow> r0 = 0"
    using rw(5) by (auto simp: answered_def VIRTIO_E_OK_def)
  show ?case
  proof (cases "r0 = VIRTIO_E_IOERR")
    case False
    then have "virtio_retry (Suc (Suc k)) sector buf write s = (r0, buf0, s0)" using rw(1) by simp
    then show ?thesis using rw ok answered_transferred [OF rw(5)] ds
      by (intro exI [of _ r0] exI [of _ buf0] exI [of _ s0] exI [of _ "c # b # a # es"]) (simp add: insert_commute)
  next
    case True
    have "driver_ok s0" using vio_only_fields(1) [OF rw(4)] Suc.prems(1) by simp
    from Suc.IH [OF this rw(2), of buf0] obtain r buf' s' ds' where
      re: "virtio_retry (Suc k) sector buf0 write s0 = (r, buf', s')" "qlist s' ds'" "set ds' = set (c # b # a # es)"
      "vio_only s0 s'" "transferred sector buf0 write s0 r buf' s'" "nreq s' \<le> nreq s0 + Suc k" by auto
    have "virtio_retry (Suc (Suc k)) sector buf write s = (r, buf', s')" using rw(1) re(1) True by simp
    moreover have "transferred sector buf write s r buf' s'"
      using transferred_trans [OF answered_transferred [OF rw(5)] re(5)] .
    moreover have "\<nexists>junk. replies s (nreq s) = Reply 0 junk" using ok True by (auto simp: VIRTIO_E_IOERR_def)
    ultimately show ?thesis using re ds rw(3) vio_only_trans [OF rw(4) re(4)]
      by (intro exI [of _ r] exI [of _ buf'] exI [of _ s'] exI [of _ ds']) (auto simp: insert_commute)
  qed
qed

lemma alloc_descs_nreq: "alloc_descs n got s = (r, s') \<Longrightarrow> nreq s' = nreq s"
proof (induction n arbitrary: got s)
  case (Suc n)
  have f: "nreq (fold free_desc is t) = nreq t" for "is" and t :: "'a virtio_st_scheme"
    by (induction "is" arbitrary: t) auto
  show ?case using Suc by (auto simp: alloc_desc_def Let_def f split: if_splits)
qed simp

lemma virtio_disk_rw_nreq: "virtio_disk_rw sector buf w s = (r, buf', s') \<Longrightarrow> nreq s \<le> nreq s'"
proof -
  have f: "nreq (fold free_desc is t) = nreq t" for "is" and t :: "'a virtio_st_scheme"
    by (induction "is" arbitrary: t) auto
  have d: "nreq (snd (snd (device_io idx b t))) = Suc (nreq t)" for idx b and t :: "'a virtio_st_scheme"
    by (simp add: device_io_def Let_def split: reply.splits)
  have u: "nreq (submit idx sector w t) = nreq t" for idx and t :: "'a virtio_st_scheme"
    by (simp add: submit_def Let_def)
  assume rw: "virtio_disk_rw sector buf w s = (r, buf', s')"
  obtain ix s1 where a: "alloc_descs 3 [] s = (ix, s1)" by (metis prod.collapse)
  then have s1: "nreq s1 = nreq s" by (rule alloc_descs_nreq)
  show ?thesis
  proof (cases "driver_ok s \<and> ix \<noteq> None")
    case True
    then obtain idx where idx: "ix = Some idx" by auto
    obtain st b t where io: "device_io idx buf (submit idx sector w s1) = (st, b, t)" by (metis prod_cases3)
    then have "nreq t = Suc (nreq s)" using d [of idx buf "submit idx sector w s1"] u s1 by simp
    moreover have "s' = fold free_desc idx t" using rw a True idx io by (auto simp: virtio_disk_rw_def Let_def split: option.splits)
    ultimately show ?thesis using f by simp
  next
    case False
    then have "s' = s \<or> s' = s1" using rw a by (auto simp: virtio_disk_rw_def split: if_splits)
    then show ?thesis using s1 by auto
  qed
qed

lemma virtio_retry_nreq: "nreq s \<le> nreq (snd (snd (virtio_retry k sector buf w s)))"
proof (induction k arbitrary: s buf)
  case (Suc k)
  obtain r b t where rw: "virtio_disk_rw sector buf w s = (r, b, t)" by (metis prod_cases3)
  then show ?case using virtio_disk_rw_nreq [OF rw] Suc [of t b] by simp
qed simp

lemma init_rings_qlist: "qlist (init_rings s) [0, 1, 2, 3, 4, 5, 6, 7]"
  by (simp add: qlist_def init_rings_def Let_def upd_desc_def VIRTIO_QUEUE_SIZE_def upt_rec)


text \<open>A driver just set up, on a disk that answers every request with success.\<close>

definition demo_vst :: virtio_st where
  "demo_vst = pipe_st.extend demo_pst (virtio_st.fields (\<lambda>_. \<lparr>vaddr = Nowhere, vlen = 0, vflags = 0, vnext = 0\<rparr>) 0
     (\<lambda>_. 0) 0 \<lparr>vtype = 0, vsector = 0\<rparr> True (\<lambda>x i. ucast x) (\<lambda>_. Reply 0 (\<lambda>_. 0)) 0)"

lemma init_rings_fields [simp]:
  "driver_ok (init_rings s) = driver_ok s" "replies (init_rings s) = replies s" "nreq (init_rings s) = nreq s"
  "sectors (init_rings s) = sectors s"
  by (simp_all add: init_rings_def Let_def upd_desc_def VIRTIO_QUEUE_SIZE_def upt_rec)


end
