(* ===== verification/Bio.thy ===== *)
theory Bio
  imports Virtio
begin

text \<open>
  The buffer cache, \<^verbatim>\<open>kernel/bio.c\<close>: 64 buffers on a doubly linked list, most recently used first. A
  \<^verbatim>\<open>struct buf *\<close> is an index; index \<^verbatim>\<open>NBUF\<close> is the list head. The model follows one call at a time: a
  call that would wait for the disk while another process uses it has the result \<open>None\<close>, and a null result
  is \<open>Some (None, s)\<close>.
\<close>

definition BSIZE :: nat where "BSIZE = 1024"
definition NBUF :: nat where "NBUF = 64"
definition SECTORS_PER_BLOCK :: u32 where "SECTORS_PER_BLOCK = 2"

record buf =
  bvalid :: bool
  bdev :: u32
  blockno :: u32
  refcnt :: u32
  bprev :: nat
  bnext :: nat
  bdata :: bytes

record bio_st = virtio_st +
  bufs :: "nat \<Rightarrow> buf"
  disk_busy :: bool

definition upd_buf :: "nat \<Rightarrow> (buf \<Rightarrow> buf) \<Rightarrow> 'a bio_st_scheme \<Rightarrow> 'a bio_st_scheme" where
  "upd_buf i f s = s\<lparr>bufs := (bufs s)(i := f (bufs s i))\<rparr>"

definition disk_wait :: "'a bio_st_scheme \<Rightarrow> 'a bio_st_scheme option" where
  "disk_wait s = (if disk_busy s then None else Some (s\<lparr>disk_busy := True\<rparr>))"

definition disk_done :: "'a bio_st_scheme \<Rightarrow> 'a bio_st_scheme" where
  "disk_done s = proc_wakeup ChDiskBusy (s\<lparr>disk_busy := False\<rparr>)"

text \<open>The four assignments that put a buffer behind the head.\<close>

definition link_front :: "nat \<Rightarrow> 'a bio_st_scheme \<Rightarrow> 'a bio_st_scheme" where
  "link_front b s =
     (let s = upd_buf b (\<lambda>u. u\<lparr>bnext := bnext (bufs s NBUF)\<rparr>) s;
          s = upd_buf b (\<lambda>u. u\<lparr>bprev := NBUF\<rparr>) s;
          s = upd_buf (bnext (bufs s NBUF)) (\<lambda>u. u\<lparr>bprev := b\<rparr>) s
      in upd_buf NBUF (\<lambda>u. u\<lparr>bnext := b\<rparr>) s)"

definition bio_init :: "'a bio_st_scheme \<Rightarrow> 'a bio_st_scheme" where
  "bio_init s =
     (let s = upd_buf NBUF (\<lambda>u. u\<lparr>bprev := NBUF\<rparr>) s;
          s = upd_buf NBUF (\<lambda>u. u\<lparr>bnext := NBUF\<rparr>) s;
          s = fold (\<lambda>i s. link_front i (upd_buf i (\<lambda>u. u\<lparr>bvalid := False, bdev := 0, blockno := 0, refcnt := 0\<rparr>) s))
                [0..<NBUF] s
      in s\<lparr>disk_busy := False\<rparr>)"

text \<open>Follow the links from \<open>b\<close> to the first buffer with property \<open>P\<close>, or to the head.\<close>

partial_function (option) bscan :: "(buf \<Rightarrow> nat) \<Rightarrow> (buf \<Rightarrow> bool) \<Rightarrow> nat \<Rightarrow> 'a bio_st_scheme \<Rightarrow> nat option option" where
  "bscan step P b s =
     (if b = NBUF then Some None
      else if P (bufs s b) then Some (Some b)
      else bscan step P (step (bufs s b)) s)"

definition bget :: "u32 \<Rightarrow> u32 \<Rightarrow> 'a bio_st_scheme \<Rightarrow> (nat option \<times> 'a bio_st_scheme) option" where
  "bget dev bn s =
     do {
       hit \<leftarrow> bscan bnext (\<lambda>u. bdev u = dev \<and> blockno u = bn) (bnext (bufs s NBUF)) s;
       case hit of
         Some b \<Rightarrow> Some (Some b, upd_buf b (\<lambda>u. u\<lparr>refcnt := refcnt u + 1\<rparr>) s)
       | None \<Rightarrow>
           do {
             victim \<leftarrow> bscan bprev (\<lambda>u. refcnt u = 0) (bprev (bufs s NBUF)) s;
             case victim of
               Some b \<Rightarrow> Some (Some b, upd_buf b (\<lambda>u. u\<lparr>bdev := dev, blockno := bn, bvalid := False, refcnt := 1\<rparr>) s)
             | None \<Rightarrow> Some (None, s) } }"

definition bio_release :: "nat \<Rightarrow> 'a bio_st_scheme \<Rightarrow> 'a bio_st_scheme" where
  "bio_release b s =
     (let s = upd_buf b (\<lambda>u. u\<lparr>refcnt := refcnt u - 1\<rparr>) s in
      if refcnt (bufs s b) = 0 then
        let s = upd_buf (bnext (bufs s b)) (\<lambda>u. u\<lparr>bprev := bprev (bufs s b)\<rparr>) s;
            s = upd_buf (bprev (bufs s b)) (\<lambda>u. u\<lparr>bnext := bnext (bufs s b)\<rparr>) s
        in link_front b s
      else s)"

text \<open>Sector number of a block, computed in 32 bits as in the source.\<close>

definition block_sector :: "u32 \<Rightarrow> u64" where
  "block_sector bn = ucast (bn * SECTORS_PER_BLOCK)"

text \<open>The two halves of a buffer's data, which the driver reads and writes separately.\<close>

definition lo_half :: "bytes \<Rightarrow> bytes \<Rightarrow> bytes" where
  "lo_half d new = (\<lambda>i. if i < 512 then new i else d i)"

definition hi_half :: "bytes \<Rightarrow> bytes \<Rightarrow> bytes" where
  "hi_half d new = (\<lambda>i. if 512 \<le> i \<and> i < 1024 then new (i - 512) else d i)"

definition bio_read :: "u32 \<Rightarrow> u32 \<Rightarrow> 'a bio_st_scheme \<Rightarrow> (nat option \<times> 'a bio_st_scheme) option" where
  "bio_read dev bn s =
     do {
       (r, s) \<leftarrow> bget dev bn s;
       case r of
         None \<Rightarrow> Some (None, s)
       | Some b \<Rightarrow>
           if bvalid (bufs s b) then Some (Some b, s)
           else
             do {
               s \<leftarrow> disk_wait s;
               let sector = block_sector bn;
               let (err1, d, s) = virtio_disk_read sector (bdata (bufs s b)) s;
               let s = upd_buf b (\<lambda>u. u\<lparr>bdata := lo_half (bdata u) d\<rparr>) s;
               let (err2, s) =
                 (if err1 = 0 then
                    let (err2, d, s) = virtio_disk_read (sector + 1) (\<lambda>i. bdata (bufs s b) (i + 512)) s
                    in (err2, upd_buf b (\<lambda>u. u\<lparr>bdata := hi_half (bdata u) d\<rparr>) s)
                  else (err1, s));
               let s = disk_done s;
               if err1 < 0 \<or> err2 < 0 then Some (None, bio_release b s)
               else Some (Some b, upd_buf b (\<lambda>u. u\<lparr>bvalid := True\<rparr>) s) } }"

definition bio_write :: "nat \<Rightarrow> 'a bio_st_scheme \<Rightarrow> (int \<times> 'a bio_st_scheme) option" where
  "bio_write b s =
     do {
       s \<leftarrow> disk_wait s;
       let sector = block_sector (blockno (bufs s b));
       let (err1, _, s) = virtio_disk_write sector (bdata (bufs s b)) s;
       let (err2, s) =
         (if err1 = 0 then
            let (err2, _, s) = virtio_disk_write (sector + 1) (\<lambda>i. bdata (bufs s b) (i + 512)) s in (err2, s)
          else (err1, s));
       let s = disk_done s;
       Some (if err1 < 0 \<or> err2 < 0 then -1 else 0, s) }"

subsection \<open>The list\<close>

fun dll :: "(nat \<Rightarrow> nat) \<Rightarrow> (nat \<Rightarrow> nat) \<Rightarrow> nat \<Rightarrow> nat list \<Rightarrow> nat \<Rightarrow> bool" where
  "dll nx pv a [] b \<longleftrightarrow> nx a = b \<and> pv b = a"
| "dll nx pv a (x # xs) b \<longleftrightarrow> nx a = x \<and> pv x = a \<and> dll nx pv x xs b"

lemma dll_append: "dll nx pv a (xs @ y # ys) b \<longleftrightarrow> dll nx pv a xs y \<and> dll nx pv y ys b"
  by (induction xs arbitrary: a) auto

lemma dll_snoc: "dll nx pv a (xs @ [y]) b \<longleftrightarrow> dll nx pv a xs y \<and> nx y = b \<and> pv b = y"
  by (simp add: dll_append)

lemma dll_rev: "dll nx pv a xs b \<longleftrightarrow> dll pv nx b (rev xs) a"
  by (induction xs arbitrary: a) (auto simp: dll_snoc)

lemma dll_frame:
  "(\<And>y. y = a \<or> y \<in> set xs \<Longrightarrow> nx' y = nx y) \<Longrightarrow> (\<And>y. y = b \<or> y \<in> set xs \<Longrightarrow> pv' y = pv y) \<Longrightarrow>
   dll nx pv a xs b \<Longrightarrow> dll nx' pv' a xs b"
  by (induction xs arbitrary: a) auto

lemma dll_insert:
  assumes "dll nx pv a xs b" "x \<noteq> a" "x \<noteq> b" "x \<notin> set xs" "a \<notin> set xs" "distinct xs" "b \<notin> set xs"
  shows "dll (nx(x := nx a, a := x)) (pv(x := a, nx a := x)) a (x # xs) b"
proof (cases xs)
  case Nil
  then show ?thesis using assms by auto
next
  case (Cons y ys)
  then have y: "nx a = y" "dll nx pv y ys b" using assms(1) by auto
  have "dll (nx(x := nx a, a := x)) (pv(x := a, nx a := x)) y ys b"
    using assms Cons y by (intro dll_frame [OF _ _ y(2)]) auto
  then show ?thesis using assms Cons y by auto
qed

lemma dll_unlink:
  assumes "dll nx pv a (xs @ x # ys) b" "distinct (xs @ x # ys)" "a \<notin> set (xs @ x # ys)" "b \<notin> set (xs @ x # ys)"
  shows "dll (nx(pv x := nx x)) (pv(nx x := pv x)) a (xs @ ys) b"
proof -
  have 1: "dll nx pv a xs x" "dll nx pv x ys b" using assms(1) by (auto simp: dll_append)
  show ?thesis
  proof (cases ys)
    case Nil
    then have nx: "nx x = b" using 1 by simp
    show ?thesis
    proof (cases xs rule: rev_cases)
      case Nil': Nil
      then show ?thesis using 1 Nil nx by auto
    next
      case (snoc zs z)
      then have z: "dll nx pv a zs z" "pv x = z" using 1(1) by (auto simp: dll_snoc)
      have "dll (nx(z := nx x)) (pv(nx x := z)) a zs z"
        using assms snoc nx by (intro dll_frame [OF _ _ z(1)]) auto
      then show ?thesis using snoc Nil z nx by (simp add: dll_snoc)
    qed
  next
    case (Cons w ws)
    then have w: "nx x = w" "dll nx pv w ws b" using 1 by auto
    show ?thesis
    proof (cases xs rule: rev_cases)
      case Nil
      then have px: "pv x = a" using 1 by simp
      have "dll (nx(a := w)) (pv(w := a)) w ws b" using assms Cons w by (intro dll_frame [OF _ _ w(2)]) auto
      then show ?thesis using Nil Cons w px by simp
    next
      case (snoc zs z)
      then have z: "dll nx pv a zs z" "pv x = z" using 1(1) by (auto simp: dll_snoc)
      have "dll (nx(z := w)) (pv(w := z)) a zs z" using assms snoc Cons by (intro dll_frame [OF _ _ z(1)]) auto
      moreover have "dll (nx(z := w)) (pv(w := z)) w ws b" using assms snoc Cons w by (intro dll_frame [OF _ _ w(2)]) auto
      ultimately show ?thesis using snoc Cons w z by (simp add: dll_append)
    qed
  qed
qed

abbreviation nxt :: "'a bio_st_scheme \<Rightarrow> nat \<Rightarrow> nat" where
  "nxt s \<equiv> (\<lambda>i. bnext (bufs s i))"

abbreviation prv :: "'a bio_st_scheme \<Rightarrow> nat \<Rightarrow> nat" where
  "prv s \<equiv> (\<lambda>i. bprev (bufs s i))"

text \<open>The buffers in list order, most recently used first.\<close>

definition ring :: "'a bio_st_scheme \<Rightarrow> nat list \<Rightarrow> bool" where
  "ring s xs \<longleftrightarrow> dll (nxt s) (prv s) NBUF xs NBUF \<and> distinct xs \<and> set xs = {..<NBUF}"

text \<open>The contents of a buffer, without its links.\<close>

definition core :: "buf \<Rightarrow> bool \<times> u32 \<times> u32 \<times> u32 \<times> bytes" where
  "core u = (bvalid u, bdev u, blockno u, refcnt u, bdata u)"

lemma upd_buf_bufs [simp]: "bufs (upd_buf i f s) = (bufs s)(i := f (bufs s i))"
  by (simp add: upd_buf_def)

lemma ring_upd:
  assumes "\<And>u. bnext (f u) = bnext u \<and> bprev (f u) = bprev u"
  shows "ring (upd_buf i f s) xs = ring s xs"
proof -
  have "nxt (upd_buf i f s) = nxt s" "prv (upd_buf i f s) = prv s" using assms by (auto simp: fun_eq_iff)
  then show ?thesis by (simp only: ring_def)
qed

lemma ring_cong: "bufs s' = bufs s \<Longrightarrow> ring s' xs = ring s xs"
  by (simp add: ring_def)

lemma ring_bound: "ring s xs \<Longrightarrow> b \<in> set xs \<longleftrightarrow> b < NBUF"
  by (auto simp: ring_def)

lemma bscan_find:
  "dll (\<lambda>i. step (bufs s i)) pv a xs NBUF \<Longrightarrow> NBUF \<notin> set xs \<Longrightarrow>
   bscan step P (step (bufs s a)) s = Some (List.find (\<lambda>i. P (bufs s i)) xs)"
proof (induction xs arbitrary: a)
  case Nil
  then show ?case by (subst bscan.simps) simp
next
  case (Cons x xs)
  then show ?case by (subst bscan.simps) auto
qed

lemma bget_find:
  assumes "ring s xs"
  shows "bget dev bn s =
    Some (case List.find (\<lambda>i. bdev (bufs s i) = dev \<and> blockno (bufs s i) = bn) xs of
      Some b \<Rightarrow> (Some b, upd_buf b (\<lambda>u. u\<lparr>refcnt := refcnt u + 1\<rparr>) s)
    | None \<Rightarrow>
       (case List.find (\<lambda>i. refcnt (bufs s i) = 0) (rev xs) of
          Some b \<Rightarrow> (Some b, upd_buf b (\<lambda>u. u\<lparr>bdev := dev, blockno := bn, bvalid := False, refcnt := 1\<rparr>) s)
        | None \<Rightarrow> (None, s)))"
proof -
  have fwd: "dll (nxt s) (prv s) NBUF xs NBUF" and "NBUF \<notin> set xs" using assms by (auto simp: ring_def)
  moreover have "dll (prv s) (nxt s) NBUF (rev xs) NBUF" using fwd dll_rev by metis
  ultimately show ?thesis
    using bscan_find [of bnext s "prv s" NBUF xs] bscan_find [of bprev s "nxt s" NBUF "rev xs"]
    by (simp add: bget_def split: option.splits)
qed

lemma link_front_links:
  assumes "b \<noteq> NBUF"
  shows "nxt (link_front b s) = (nxt s)(b := nxt s NBUF, NBUF := b)"
    "prv (link_front b s) = (prv s)(b := NBUF, nxt s NBUF := b)"
  using assms by (auto simp: link_front_def Let_def fun_eq_iff)

lemma link_front_core [simp]: "core (bufs (link_front b s) i) = core (bufs s i)"
  by (auto simp: link_front_def Let_def core_def)

text \<open>Buffer operations leave everything outside the cache alone.\<close>

lemma upd_buf_frame [frame, simp]:
  "sectors (upd_buf i f s) = sectors s" "disk_busy (upd_buf i f s) = disk_busy s" "bio_st.more (upd_buf i f s) = bio_st.more s"
  "replies (upd_buf i f s) = replies s" "nreq (upd_buf i f s) = nreq s" "driver_ok (upd_buf i f s) = driver_ok s"
  "qlist (upd_buf i f s) ds = qlist s ds" "procs (upd_buf i f s) = procs s" "current (upd_buf i f s) = current s"
  "kpmm (upd_buf i f s) = kpmm s"
  by (simp_all add: upd_buf_def qlist_def)

lemma link_front_frame [frame, simp]:
  "sectors (link_front b s) = sectors s" "disk_busy (link_front b s) = disk_busy s"
  "bio_st.more (link_front b s) = bio_st.more s" "replies (link_front b s) = replies s" "nreq (link_front b s) = nreq s"
  "driver_ok (link_front b s) = driver_ok s" "qlist (link_front b s) ds = qlist s ds" "procs (link_front b s) = procs s"
  "current (link_front b s) = current s" "kpmm (link_front b s) = kpmm s"
  by (simp_all add: link_front_def Let_def)

lemma bio_release_frame [frame, simp]:
  "sectors (bio_release b s) = sectors s" "disk_busy (bio_release b s) = disk_busy s"
  "bio_st.more (bio_release b s) = bio_st.more s" "replies (bio_release b s) = replies s" "nreq (bio_release b s) = nreq s"
  "driver_ok (bio_release b s) = driver_ok s" "qlist (bio_release b s) ds = qlist s ds" "procs (bio_release b s) = procs s"
  "current (bio_release b s) = current s" "kpmm (bio_release b s) = kpmm s"
  by (simp_all add: bio_release_def Let_def)

lemma bio_release_core:
  "core (bufs (bio_release b s) i) = (if i = b then core ((bufs s b)\<lparr>refcnt := refcnt (bufs s b) - 1\<rparr>) else core (bufs s i))"
proof -
  have links: "core (bufs (upd_buf j (\<lambda>u. u\<lparr>bprev := p\<rparr>) t) i) = core (bufs t i)"
    "core (bufs (upd_buf j (\<lambda>u. u\<lparr>bnext := p\<rparr>) t) i) = core (bufs t i)" for j p and t :: "'a bio_st_scheme"
    by (auto simp: core_def)
  show ?thesis
    unfolding bio_release_def Let_def by (simp only: link_front_core links if_distrib [of "\<lambda>s. core (bufs s i)"]) simp
qed

lemma bio_release_ring:
  assumes "ring s xs" "b \<in> set xs"
  shows "ring (bio_release b s) (if refcnt (bufs s b) = 1 then b # remove1 b xs else xs)"
proof -
  let ?s = "upd_buf b (\<lambda>u. u\<lparr>refcnt := refcnt u - 1\<rparr>) s"
  have r: "ring ?s xs" using assms(1) by (subst ring_upd) auto
  show ?thesis
  proof (cases "refcnt (bufs s b) = 1")
    case False
    then have "refcnt (bufs ?s b) \<noteq> 0" by simp
    then show ?thesis using r False unfolding bio_release_def Let_def by simp
  next
    case True
    obtain ys zs where xs: "xs = ys @ b # zs" using assms(2) by (metis split_list)
    have d: "dll (nxt ?s) (prv ?s) NBUF (ys @ b # zs) NBUF" and dist: "distinct (ys @ b # zs)"
      and sub: "set (ys @ b # zs) = {..<NBUF}" using r xs by (auto simp: ring_def)
    have bN: "b \<noteq> NBUF" "NBUF \<notin> set (ys @ b # zs)" using sub by auto
    let ?s1 = "upd_buf (bnext (bufs ?s b)) (\<lambda>u. u\<lparr>bprev := bprev (bufs ?s b)\<rparr>) ?s"
    let ?s2 = "upd_buf (bprev (bufs ?s1 b)) (\<lambda>u. u\<lparr>bnext := bnext (bufs ?s1 b)\<rparr>) ?s1"
    have nb: "nxt ?s b \<noteq> b" "prv ?s b \<noteq> b"
    proof -
      have "dll (nxt ?s) (prv ?s) b zs NBUF" "dll (nxt ?s) (prv ?s) NBUF ys b" using d by (auto simp: dll_append)
      then show "nxt ?s b \<noteq> b" "prv ?s b \<noteq> b"
        using dist bN by (cases zs; cases ys rule: rev_cases; auto simp: dll_snoc)+
    qed
    have l2: "nxt ?s2 = (nxt ?s)(prv ?s b := nxt ?s b)" "prv ?s2 = (prv ?s)(nxt ?s b := prv ?s b)"
      using nb by (auto simp: fun_eq_iff)
    have "dll (nxt ?s2) (prv ?s2) NBUF (ys @ zs) NBUF"
      unfolding l2 using dll_unlink [OF d dist bN(2) bN(2)] .
    then have "dll (nxt (link_front b ?s2)) (prv (link_front b ?s2)) NBUF (b # ys @ zs) NBUF"
      unfolding link_front_links [OF bN(1)] using dist bN by (intro dll_insert) auto
    moreover have "bio_release b s = link_front b ?s2" using True by (simp add: bio_release_def Let_def)
    moreover have "remove1 b xs = ys @ zs" using dist xs by (simp add: remove1_append)
    ultimately show ?thesis using dist sub True by (auto simp: ring_def)
  qed
qed

lemma bio_init_ring: "ring (bio_init s) (rev [0..<NBUF])"
proof -
  let ?init = "\<lambda>i. upd_buf i (\<lambda>u. u\<lparr>bvalid := False, bdev := 0, blockno := 0, refcnt := 0\<rparr>)"
  let ?t = "upd_buf NBUF (\<lambda>u. u\<lparr>bnext := NBUF\<rparr>) (upd_buf NBUF (\<lambda>u. u\<lparr>bprev := NBUF\<rparr>) s)"
  have "dll (nxt (fold (\<lambda>i s. link_front i (?init i s)) [0..<k] ?t)) (prv (fold (\<lambda>i s. link_front i (?init i s)) [0..<k] ?t))
      NBUF (rev [0..<k]) NBUF" if "k \<le> NBUF" for k
    using that
  proof (induction k)
    case 0
    then show ?case by simp
  next
    case (Suc k)
    let ?f = "fold (\<lambda>i s. link_front i (?init i s)) [0..<k] ?t"
    have "nxt (?init k ?f) = nxt ?f" "prv (?init k ?f) = prv ?f" by (auto simp: fun_eq_iff)
    moreover have "dll (nxt ?f) (prv ?f) NBUF (rev [0..<k]) NBUF" using Suc by simp
    ultimately have "dll (nxt (?init k ?f)) (prv (?init k ?f)) NBUF (rev [0..<k]) NBUF" by simp
    then have "dll (nxt (link_front k (?init k ?f))) (prv (link_front k (?init k ?f))) NBUF (k # rev [0..<k]) NBUF"
      unfolding link_front_links [OF less_imp_neq [OF Suc_le_lessD [OF Suc.prems]]]
      using Suc.prems by (intro dll_insert) auto
    then show ?case by simp
  qed
  from this [of NBUF] show ?thesis
    unfolding ring_def bio_init_def Let_def by (auto simp: atLeast_upt [symmetric] simp del: upt_Suc)
qed

lemma bio_init_bufs:
  "i < NBUF \<Longrightarrow> bvalid (bufs (bio_init s) i) = False \<and> bdev (bufs (bio_init s) i) = 0 \<and>
     blockno (bufs (bio_init s) i) = 0 \<and> refcnt (bufs (bio_init s) i) = 0"
proof -
  let ?init = "\<lambda>i. upd_buf i (\<lambda>u. u\<lparr>bvalid := False, bdev := 0, blockno := 0, refcnt := 0\<rparr>)"
  let ?ok = "\<lambda>s i. \<exists>d. core (bufs s i) = (False, 0, 0, 0, d)"
  have all: "\<forall>i<k. ?ok (fold (\<lambda>i s. link_front i (?init i s)) [0..<k] t) i" for k and t :: "'a bio_st_scheme"
  proof (induction k)
    case (Suc k)
    then show ?case by (auto simp: less_Suc_eq) (simp add: core_def)
  qed simp
  assume "i < NBUF"
  then have "?ok (bio_init s) i"
    unfolding bio_init_def Let_def using all by (simp del: upd_buf_bufs)
  then show ?thesis by (auto simp: core_def)
qed

subsection \<open>Working I/O\<close>

text \<open>The driver has descriptors and the device answers every request with success.\<close>

definition vio_ok :: "'a virtio_st_scheme \<Rightarrow> bool" where
  "vio_ok s \<longleftrightarrow> driver_ok s \<and> (\<exists>ds. qlist s ds \<and> 3 \<le> length ds) \<and> (\<forall>n\<ge>nreq s. \<exists>junk. replies s n = Reply 0 junk)"

lemma vio_only_bio:
  assumes "vio_only s s'"
  shows "bufs s' = bufs s" "disk_busy s' = disk_busy s" "bio_st.more s' = bio_st.more s"
proof -
  note eq = assms [unfolded vio_only_def]
  show "bufs s' = bufs s" using arg_cong [OF eq, of bufs] by simp
  show "disk_busy s' = disk_busy s" using arg_cong [OF eq, of disk_busy] by simp
  show "bio_st.more s' = bio_st.more s" using arg_cong [OF eq, of bio_st.more] by simp
qed

lemma vio_transfer:
  assumes "vio_ok s"
  shows "\<exists>buf' s'. virtio_retry (Suc k) sector buf w s = (0, buf', s') \<and> vio_ok s' \<and> vio_only s s' \<and>
    (if w then sectors s' = (sectors s)(sector := buf) else sectors s' = sectors s \<and> buf' = sectors s sector)"
proof -
  obtain ds where ds: "driver_ok s" "qlist s ds" "3 \<le> length ds" using assms by (auto simp: vio_ok_def)
  obtain r buf' s' ds' where t: "virtio_retry (Suc k) sector buf w s = (r, buf', s')" "qlist s' ds'" "set ds' = set ds"
    "vio_only s s'" "transferred sector buf w s r buf' s'" "\<forall>junk. replies s (nreq s) = Reply 0 junk \<longrightarrow> r = 0"
    using virtio_retry_transferred [OF ds, of k sector buf w] by blast
  have r: "r = 0" using t(6) assms by (auto simp: vio_ok_def)
  have "length ds' = length ds" using t(2,3) ds(2) by (metis distinct_card qlist_def)
  moreover have "nreq s \<le> nreq s'"
    using virtio_retry_nreq [of s "Suc k" sector buf w] t(1) by simp
  ultimately have "vio_ok s'"
    using t(2) ds assms vio_only_fields [OF t(4)] unfolding vio_ok_def by auto
  then show ?thesis using t r by (auto simp: transferred_def)
qed

lemma virtio_disk_read_ok:
  assumes "vio_ok s"
  obtains s' where "virtio_disk_read sector buf s = (0, sectors s sector, s')" "vio_ok s'" "vio_only s s'" "sectors s' = sectors s"
  using vio_transfer [OF assms, of 2 sector buf False] that
  unfolding virtio_disk_read_def by (auto simp: VIRTIO_MAX_RETRIES_def numeral_3_eq_3 numeral_2_eq_2)

lemma virtio_disk_write_ok:
  assumes "vio_ok s"
  obtains b s' where "virtio_disk_write sector buf s = (0, b, s')" "vio_ok s'" "vio_only s s'" "sectors s' = (sectors s)(sector := buf)"
  using vio_transfer [OF assms, of 2 sector buf True] that
  unfolding virtio_disk_write_def by (auto simp: VIRTIO_MAX_RETRIES_def numeral_3_eq_3 numeral_2_eq_2)

subsection \<open>Blocks\<close>

definition disk_block :: "'a virtio_st_scheme \<Rightarrow> u32 \<Rightarrow> bytes" where
  "disk_block s bn = (\<lambda>i. if i < 512 then sectors s (block_sector bn) i
     else if i < BSIZE then sectors s (block_sector bn + 1) (i - 512) else 0)"

lemma block_sector_unat: "unat bn < 2 ^ 31 \<Longrightarrow> unat (block_sector bn) = 2 * unat bn"
  by (simp add: block_sector_def SECTORS_PER_BLOCK_def unat_ucast unat_word_ariths)

lemma block_sector_distinct:
  assumes "unat bn < 2 ^ 31" "unat bn' < 2 ^ 31" "bn \<noteq> bn'"
  shows "block_sector bn \<noteq> block_sector bn'" "block_sector bn + 1 \<noteq> block_sector bn' + 1"
    "block_sector bn \<noteq> block_sector bn' + 1" "block_sector bn + 1 \<noteq> block_sector bn'"
proof -
  have ne: "unat bn \<noteq> unat bn'" using assms(3) word_eq_unatI by blast
  have plus: "unat (block_sector x + 1) = 2 * unat x + 1" if "unat x < 2 ^ 31" for x
    using that by (subst unat_plus_if_size) (auto simp: block_sector_unat)
  show "block_sector bn \<noteq> block_sector bn'"
    using ne block_sector_unat assms(1,2) by (metis mult_cancel1 zero_neq_numeral)
  then show "block_sector bn + 1 \<noteq> block_sector bn' + 1" by simp
  show "block_sector bn \<noteq> block_sector bn' + 1"
    using block_sector_unat [OF assms(1)] plus [OF assms(2)] by (metis Suc_eq_plus1 double_not_eq_Suc_double)
  show "block_sector bn + 1 \<noteq> block_sector bn'"
    using block_sector_unat [OF assms(2)] plus [OF assms(1)] by (metis Suc_eq_plus1 double_not_eq_Suc_double)
qed

lemma disk_block_write:
  assumes "unat bn < 2 ^ 31" "unat bn' < 2 ^ 31"
    "sectors s' = (sectors s)(block_sector bn := d, block_sector bn + 1 := (\<lambda>i. d (i + 512)))"
  shows "disk_block s' bn' = (if bn' = bn then (\<lambda>i. if i < BSIZE then d i else 0) else disk_block s bn')"
  using block_sector_distinct [OF assms(1,2)] assms(3)
  by (cases "bn' = bn") (auto simp: disk_block_def fun_eq_iff BSIZE_def)

lemma disk_block_cong: "sectors s' = sectors s \<Longrightarrow> disk_block s' = disk_block s"
  by (simp add: disk_block_def fun_eq_iff)

subsection \<open>The cache invariant\<close>

text \<open>Only the first buffer in list order with a given block number may be valid or in use, and a valid
  buffer holds what is on the disk. The initial state has many unused buffers numbered 0.\<close>

definition first_only :: "'a bio_st_scheme \<Rightarrow> nat \<Rightarrow> nat \<Rightarrow> bool" where
  "first_only s b c \<longleftrightarrow>
     (blockno (bufs s b) = blockno (bufs s c) \<longrightarrow> \<not> bvalid (bufs s c) \<and> refcnt (bufs s c) = 0)"

definition coherent :: "'a bio_st_scheme \<Rightarrow> nat \<Rightarrow> bool" where
  "coherent s b \<longleftrightarrow> (bvalid (bufs s b) \<longrightarrow> (\<forall>i<BSIZE. bdata (bufs s b) i = disk_block s (blockno (bufs s b)) i))"

definition bio_inv :: "'a bio_st_scheme \<Rightarrow> nat list \<Rightarrow> bool" where
  "bio_inv s xs \<longleftrightarrow> ring s xs \<and> sorted_wrt (first_only s) xs \<and>
     (\<forall>b<NBUF. bdev (bufs s b) = 0 \<and> unat (blockno (bufs s b)) < 2 ^ 31 \<and> coherent s b)"

definition bio_ok :: "'a bio_st_scheme \<Rightarrow> bool" where
  "bio_ok s \<longleftrightarrow> (\<exists>xs. bio_inv s xs) \<and> vio_ok s \<and> \<not> disk_busy s"

text \<open>References held, over all buffers.\<close>

definition held :: "'a bio_st_scheme \<Rightarrow> nat" where
  "held s = (\<Sum>b<NBUF. unat (refcnt (bufs s b)))"

lemma held_free: "held s < NBUF \<Longrightarrow> \<exists>b<NBUF. refcnt (bufs s b) = 0"
proof (rule ccontr)
  assume "held s < NBUF" "\<not> (\<exists>b<NBUF. refcnt (bufs s b) = 0)"
  then have "\<forall>b<NBUF. 1 \<le> unat (refcnt (bufs s b))" by (simp add: Suc_le_eq unat_gt_0)
  then have "(\<Sum>b<NBUF. 1) \<le> held s" unfolding held_def by (intro sum_mono) auto
  with \<open>held s < NBUF\<close> show False by simp
qed

lemma held_bound: "b < NBUF \<Longrightarrow> unat (refcnt (bufs s b)) \<le> held s"
  unfolding held_def by (rule member_le_sum) auto

lemma held_upd:
  fixes s s' :: "'a bio_st_scheme"
  assumes "b < NBUF" "\<And>c. c \<noteq> b \<Longrightarrow> refcnt (bufs s' c) = refcnt (bufs s c)"
  shows "held s' + unat (refcnt (bufs s b)) = held s + unat (refcnt (bufs s' b))"
proof -
  have "held t = unat (refcnt (bufs t b)) + (\<Sum>c\<in>{..<NBUF} - {b}. unat (refcnt (bufs t c)))" for t :: "'a bio_st_scheme"
    unfolding held_def using assms(1) by (intro sum.remove) auto
  moreover have "(\<Sum>c\<in>{..<NBUF} - {b}. unat (refcnt (bufs s' c))) = (\<Sum>c\<in>{..<NBUF} - {b}. unat (refcnt (bufs s c)))"
    using assms(2) by (intro sum.cong) auto
  ultimately show ?thesis by simp
qed

text \<open>The caller's references and the blocks behind them are the same before and after.\<close>

definition balanced :: "'a bio_st_scheme \<Rightarrow> 'a bio_st_scheme \<Rightarrow> bool" where
  "balanced s s' \<longleftrightarrow> (\<forall>b<NBUF. refcnt (bufs s' b) = refcnt (bufs s b) \<and>
     (refcnt (bufs s b) \<noteq> 0 \<longrightarrow> blockno (bufs s' b) = blockno (bufs s b) \<and>
        (bvalid (bufs s b) \<longrightarrow> bvalid (bufs s' b))))"

text \<open>Buffer \<open>b\<close>, holding block \<open>bn\<close>, was acquired.\<close>

definition acquired :: "u32 \<Rightarrow> nat \<Rightarrow> 'a bio_st_scheme \<Rightarrow> 'a bio_st_scheme \<Rightarrow> bool" where
  "acquired bn b s s' \<longleftrightarrow> b < NBUF \<and> blockno (bufs s' b) = bn \<and> bvalid (bufs s' b) \<and>
     unat (refcnt (bufs s' b)) = Suc (unat (refcnt (bufs s b))) \<and>
     (\<forall>c<NBUF. c \<noteq> b \<longrightarrow> refcnt (bufs s' c) = refcnt (bufs s c)) \<and>
     (\<forall>c<NBUF. refcnt (bufs s c) \<noteq> 0 \<longrightarrow> blockno (bufs s' c) = blockno (bufs s c) \<and>
        (bvalid (bufs s c) \<longrightarrow> bvalid (bufs s' c)))"

lemma balanced_refl [simp]: "balanced s s"
  by (simp add: balanced_def)

lemma balanced_trans: "balanced s s' \<Longrightarrow> balanced s' s'' \<Longrightarrow> balanced s s''"
  unfolding balanced_def by metis

lemma balanced_held: "balanced s s' \<Longrightarrow> held s' = held s"
  by (simp add: balanced_def held_def)

text \<open>Everything above the cache, and who runs, is unchanged.\<close>

definition outside_same :: "'a bio_st_scheme \<Rightarrow> 'a bio_st_scheme \<Rightarrow> bool" where
  "outside_same s s' \<longleftrightarrow> bio_st.more s' = bio_st.more s \<and> current s' = current s \<and>
     (\<forall>i. cwd (procs s' i) = cwd (procs s i) \<and> ofile (procs s' i) = ofile (procs s i))"

lemma outside_same_refl [simp]: "outside_same s s"
  by (simp add: outside_same_def)

lemma outside_same_trans: "outside_same s s' \<Longrightarrow> outside_same s' s'' \<Longrightarrow> outside_same s s''"
  by (simp add: outside_same_def)

lemma disk_done_frame [frame, simp]:
  "bufs (disk_done s) = bufs s" "sectors (disk_done s) = sectors s" "disk_busy (disk_done s) = False"
  "vio_ok (disk_done s) = vio_ok s" "bio_st.more (disk_done s) = bio_st.more s" "current (disk_done s) = current s"
  "cwd (procs (disk_done s) i) = cwd (procs s i)" "ofile (procs (disk_done s) i) = ofile (procs s i)"
  by (simp_all add: disk_done_def proc_wakeup_eq vio_ok_def qlist_def)

lemma vio_ok_upd_buf [simp]: "vio_ok (upd_buf i f s) = vio_ok s" "vio_ok (bio_release i s) = vio_ok s"
  "vio_ok (s\<lparr>disk_busy := x\<rparr>) = vio_ok s"
  by (simp_all add: vio_ok_def) (simp add: qlist_def)

subsection \<open>Release\<close>

lemma coreD:
  assumes "core u = core v"
  shows "bvalid u = bvalid v" "bdev u = bdev v" "blockno u = blockno v" "refcnt u = refcnt v" "bdata u = bdata v"
  using assms by (simp_all add: core_def)

lemma sorted_wrt_remove1: "sorted_wrt P xs \<Longrightarrow> sorted_wrt P (remove1 x xs)"
  by (induction xs) (auto dest: notin_set_remove1)

lemma bio_inv_release:
  assumes "bio_inv s xs" "b < NBUF" "refcnt (bufs s b) \<noteq> 0"
  shows "\<exists>xs'. bio_inv (bio_release b s) xs'"
proof -
  let ?t = "bio_release b s"
  have r: "ring s xs" and srt: "sorted_wrt (first_only s) xs" using assms(1) by (auto simp: bio_inv_def)
  have b: "b \<in> set xs" using ring_bound [OF r] assms(2) by simp
  have f: "bvalid (bufs ?t c) = bvalid (bufs s c)" "bdev (bufs ?t c) = bdev (bufs s c)"
    "blockno (bufs ?t c) = blockno (bufs s c)" "bdata (bufs ?t c) = bdata (bufs s c)"
    "refcnt (bufs ?t c) = (if c = b then refcnt (bufs s b) - 1 else refcnt (bufs s c))" for c
    using bio_release_core [of b s c] by (auto simp: core_def split: if_splits)
  have fo: "first_only ?t c d" if "first_only s c d" "d \<noteq> b" for c d
    using that unfolding first_only_def f by auto
  have top: "first_only s b c" if "c \<in> set xs" "c \<noteq> b" "blockno (bufs s b) = blockno (bufs s c)" for c
  proof -
    obtain ys zs where xs: "xs = ys @ b # zs" using b by (metis split_list)
    have "c \<notin> set ys"
      using srt that(3) assms(3) unfolding xs sorted_wrt_append by (auto simp: first_only_def)
    then have "c \<in> set zs" using that xs by auto
    then show ?thesis using srt unfolding xs sorted_wrt_append by auto
  qed
  have nb: "\<not> first_only s c b \<or> blockno (bufs s c) \<noteq> blockno (bufs s b)" for c
    using assms(3) by (auto simp: first_only_def)
  have "sorted_wrt (first_only ?t) (if refcnt (bufs s b) = 1 then b # remove1 b xs else xs)"
  proof (cases "refcnt (bufs s b) = 1")
    case True
    have "distinct xs" using r by (simp add: ring_def)
    then have "sorted_wrt (first_only ?t) (remove1 b xs)"
      using sorted_wrt_remove1 [OF srt, of b] by (elim sorted_wrt_mono_rel [rotated]) (auto intro!: fo)
    moreover have "first_only ?t b c" if "c \<in> set (remove1 b xs)" for c
      using that \<open>distinct xs\<close> top [of c] by (intro fo) (auto simp: first_only_def)
    ultimately show ?thesis using True by simp
  next
    case False
    have "first_only ?t c d" if "first_only s c d" for c d
      using that nb [of c] unfolding first_only_def f by auto
    then show ?thesis using False srt by (auto elim: sorted_wrt_mono_rel [rotated])
  qed
  moreover have "coherent ?t c = coherent s c" for c
    unfolding coherent_def f using disk_block_cong [of ?t s] by simp
  ultimately show ?thesis
    using bio_release_ring [OF r b] assms(1) f unfolding bio_inv_def by auto
qed

lemma bio_release_ok:
  assumes "bio_ok s" "b < NBUF" "refcnt (bufs s b) \<noteq> 0"
  shows "bio_ok (bio_release b s)" "disk_block (bio_release b s) = disk_block s" "outside_same s (bio_release b s)"
  using assms bio_inv_release disk_block_cong [of "bio_release b s" s]
  by (auto simp: bio_ok_def outside_same_def)

lemma acquired_release:
  assumes "acquired bn b s s1" "balanced s1 s2"
  shows "balanced s (bio_release b s2)" "refcnt (bufs s2 b) \<noteq> 0" "b < NBUF"
proof -
  have f: "bvalid (bufs (bio_release b s2) c) = bvalid (bufs s2 c)"
    "blockno (bufs (bio_release b s2) c) = blockno (bufs s2 c)"
    "refcnt (bufs (bio_release b s2) c) = (if c = b then refcnt (bufs s2 b) - 1 else refcnt (bufs s2 c))" for c
    using bio_release_core [of b s2 c] by (auto simp: core_def split: if_splits)
  have a: "b < NBUF" "unat (refcnt (bufs s1 b)) = Suc (unat (refcnt (bufs s b)))" using assms(1) by (auto simp: acquired_def)
  have r2: "refcnt (bufs s2 b) = refcnt (bufs s1 b)" using assms(2) a(1) by (simp add: balanced_def)
  then show "refcnt (bufs s2 b) \<noteq> 0" "b < NBUF" using a by auto
  then have "1 \<le> refcnt (bufs s2 b)" by (simp add: word_le_nat_alt Suc_le_eq unat_gt_0)
  then have "refcnt (bufs s2 b) - 1 = refcnt (bufs s b)"
    using a(2) r2 by (intro word_eq_unatI) (simp add: unat_sub)
  then show "balanced s (bio_release b s2)"
    using assms unfolding balanced_def f acquired_def by (metis a(2) nat.distinct(1) unat_0)
qed

subsection \<open>Reading\<close>

lemma find_first_only:
  assumes "bio_inv s xs" "List.find (\<lambda>i. bdev (bufs s i) = 0 \<and> blockno (bufs s i) = bn) xs = Some b"
  shows "b < NBUF" "blockno (bufs s b) = bn" "\<forall>c<NBUF. c \<noteq> b \<and> blockno (bufs s c) = bn \<longrightarrow> \<not> bvalid (bufs s c) \<and> refcnt (bufs s c) = 0"
proof -
  have r: "ring s xs" and srt: "sorted_wrt (first_only s) xs" using assms(1) by (auto simp: bio_inv_def)
  obtain i where i: "i < length xs" "b = xs ! i" "blockno (bufs s b) = bn"
    "\<forall>j<i. \<not> (bdev (bufs s (xs ! j)) = 0 \<and> blockno (bufs s (xs ! j)) = bn)"
    using assms(2) unfolding find_Some_iff by auto
  show "b < NBUF" "blockno (bufs s b) = bn" using i ring_bound [OF r, of b] by simp_all
  have dev: "\<forall>c<NBUF. bdev (bufs s c) = 0" using assms(1) by (simp add: bio_inv_def)
  show "\<forall>c<NBUF. c \<noteq> b \<and> blockno (bufs s c) = bn \<longrightarrow> \<not> bvalid (bufs s c) \<and> refcnt (bufs s c) = 0"
  proof (intro allI impI)
    fix c assume c: "c < NBUF" "c \<noteq> b \<and> blockno (bufs s c) = bn"
    then obtain j where j: "j < length xs" "c = xs ! j" using ring_bound [OF r] by (metis in_set_conv_nth)
    then have "i < j" using i c dev by (metis linorder_neqE_nat)
    then have "first_only s b c" using srt i j unfolding sorted_wrt_iff_nth_less by blast
    then show "\<not> bvalid (bufs s c) \<and> refcnt (bufs s c) = 0" using c i(3) by (simp add: first_only_def)
  qed
qed

lemma bio_inv_hit:
  assumes inv: "bio_inv s xs" and f: "List.find (\<lambda>i. bdev (bufs s i) = 0 \<and> blockno (bufs s i) = bn) xs = Some b"
  shows "bio_inv (upd_buf b (\<lambda>u. u\<lparr>refcnt := refcnt u + 1\<rparr>) s) xs"
proof -
  let ?t = "upd_buf b (\<lambda>u. u\<lparr>refcnt := refcnt u + 1\<rparr>) s"
  note ff = find_first_only [OF inv f]
  have r: "ring s xs" and srt: "sorted_wrt (first_only s) xs" and dist: "distinct xs"
    using inv by (auto simp: bio_inv_def ring_def)
  have "sorted_wrt (first_only ?t) xs"
    unfolding sorted_wrt_iff_nth_less
  proof (intro allI impI)
    fix j k assume jk: "j < k" "k < length xs"
    then have fo: "first_only s (xs ! j) (xs ! k)" using srt unfolding sorted_wrt_iff_nth_less by blast
    show "first_only ?t (xs ! j) (xs ! k)"
    proof (cases "xs ! k = b")
      case True
      have "blockno (bufs s (xs ! j)) \<noteq> bn"
      proof
        assume bn: "blockno (bufs s (xs ! j)) = bn"
        have "xs ! j \<noteq> xs ! k" using jk dist by (simp add: nth_eq_iff_index_eq)
        have "List.find (\<lambda>i. bdev (bufs s i) = 0 \<and> blockno (bufs s i) = bn) xs \<noteq> Some (xs ! k)"
        proof
          assume "List.find (\<lambda>i. bdev (bufs s i) = 0 \<and> blockno (bufs s i) = bn) xs = Some (xs ! k)"
          then obtain i where i: "i < length xs" "xs ! k = xs ! i"
            "\<forall>j<i. \<not> (bdev (bufs s (xs ! j)) = 0 \<and> blockno (bufs s (xs ! j)) = bn)" unfolding find_Some_iff by auto
          then have "i = k" using dist jk by (simp add: nth_eq_iff_index_eq)
          moreover have "bdev (bufs s (xs ! j)) = 0" using inv ring_bound [OF r] jk unfolding bio_inv_def by (metis nth_mem less_trans)
          ultimately show False using i(3) jk bn by blast
        qed
        then show False using f True by simp
      qed
      then show ?thesis using True ff(2) by (auto simp: first_only_def)
    next
      case False
      then show ?thesis using fo by (auto simp: first_only_def)
    qed
  qed
  moreover have "ring ?t xs" using r by (subst ring_upd) auto
  moreover have "coherent ?t c = coherent s c" for c by (simp add: coherent_def disk_block_cong [of ?t s])
  ultimately show ?thesis using inv by (auto simp: bio_inv_def)
qed

lemma bio_inv_miss:
  assumes inv: "bio_inv s xs" and f: "List.find (\<lambda>i. bdev (bufs s i) = 0 \<and> blockno (bufs s i) = bn) xs = None"
    and "unat bn < 2 ^ 31"
  shows "bio_inv (upd_buf b (\<lambda>u. u\<lparr>bdev := 0, blockno := bn, bvalid := False, refcnt := 1\<rparr>) s) xs"
proof -
  let ?t = "upd_buf b (\<lambda>u. u\<lparr>bdev := 0, blockno := bn, bvalid := False, refcnt := 1\<rparr>) s"
  have r: "ring s xs" and srt: "sorted_wrt (first_only s) xs" and dist: "distinct xs"
    and dev: "\<And>c. c < NBUF \<Longrightarrow> bdev (bufs s c) = 0"
    using inv by (auto simp: bio_inv_def ring_def)
  have nobn: "blockno (bufs s c) \<noteq> bn" if "c \<in> set xs" for c
    using f that dev ring_bound [OF r] unfolding find_None_iff by blast
  have "sorted_wrt (first_only ?t) xs"
    unfolding sorted_wrt_iff_nth_less
  proof (intro allI impI)
    fix j k assume jk: "j < k" "k < length xs"
    then have "first_only s (xs ! j) (xs ! k)" using srt unfolding sorted_wrt_iff_nth_less by blast
    moreover have "xs ! j \<noteq> xs ! k" using jk dist by (simp add: nth_eq_iff_index_eq)
    ultimately show "first_only ?t (xs ! j) (xs ! k)"
      using nobn [of "xs ! j"] nobn [of "xs ! k"] jk by (auto simp: first_only_def)
  qed
  moreover have "ring ?t xs" using r by (subst ring_upd) auto
  moreover have "coherent ?t c" if "c < NBUF" for c
    using inv that by (auto simp: coherent_def bio_inv_def disk_block_cong [of ?t s])
  ultimately show ?thesis using inv assms(3) by (auto simp: bio_inv_def)
qed

lemma bget_ok:
  assumes inv: "bio_inv s xs" and bn: "unat bn < 2 ^ 31" and h: "held s < NBUF"
  obtains b s' where "bget 0 bn s = Some (Some b, s')" "bio_inv s' xs" "b < NBUF" "blockno (bufs s' b) = bn"
    "unat (refcnt (bufs s' b)) = Suc (unat (refcnt (bufs s b)))"
    "\<forall>c. c \<noteq> b \<longrightarrow> bufs s' c = bufs s c" "refcnt (bufs s b) \<noteq> 0 \<longrightarrow> blockno (bufs s b) = bn \<and> bvalid (bufs s' b) = bvalid (bufs s b)"
    "s' = s\<lparr>bufs := bufs s'\<rparr>" "\<forall>c<NBUF. c \<noteq> b \<and> blockno (bufs s c) = bn \<longrightarrow> \<not> bvalid (bufs s c) \<and> refcnt (bufs s c) = 0"
proof (cases "List.find (\<lambda>i. bdev (bufs s i) = 0 \<and> blockno (bufs s i) = bn) xs")
  case (Some b)
  note ff = find_first_only [OF inv Some]
  let ?t = "upd_buf b (\<lambda>u. u\<lparr>refcnt := refcnt u + 1\<rparr>) s"
  have r: "ring s xs" using inv by (simp add: bio_inv_def)
  have "unat (refcnt (bufs s b)) < 2 ^ 31" using held_bound [OF ff(1), of s] h by (simp add: NBUF_def)
  then have "unat (refcnt (bufs s b) + 1) = Suc (unat (refcnt (bufs s b)))" by (subst unat_plus_if_size) auto
  then show ?thesis
    using Some ff bget_find [OF r, of 0 bn] bio_inv_hit [OF inv Some] by (intro that [of b ?t]) (auto simp: upd_buf_def)
next
  case None
  have r: "ring s xs" using inv by (simp add: bio_inv_def)
  obtain b0 where "b0 < NBUF" "refcnt (bufs s b0) = 0" using held_free [OF h] by blast
  then have "List.find (\<lambda>i. refcnt (bufs s i) = 0) (rev xs) \<noteq> None"
    using ring_bound [OF r] by (auto simp: find_None_iff)
  then obtain b where b: "List.find (\<lambda>i. refcnt (bufs s i) = 0) (rev xs) = Some b" by auto
  then have rb: "b < NBUF" "refcnt (bufs s b) = 0"
    using ring_bound [OF r] unfolding find_Some_iff by (metis in_set_conv_nth set_rev)+
  let ?t = "upd_buf b (\<lambda>u. u\<lparr>bdev := 0, blockno := bn, bvalid := False, refcnt := 1\<rparr>) s"
  have "blockno (bufs s c) \<noteq> bn" if "c < NBUF" for c
    using None that inv ring_bound [OF r] unfolding find_None_iff bio_inv_def by blast
  then show ?thesis
    using None b rb bget_find [OF r, of 0 bn] bio_inv_miss [OF inv None bn, of b] by (intro that [of b ?t]) (auto simp: upd_buf_def)
qed

text \<open>Filling the buffer from the disk.\<close>

lemma bio_inv_fill:
  assumes inv: "bio_inv s xs" and b: "b < NBUF" "refcnt (bufs s b) \<noteq> 0"
    and uniq: "\<forall>c<NBUF. c \<noteq> b \<and> blockno (bufs s c) = blockno (bufs s b) \<longrightarrow> \<not> bvalid (bufs s c) \<and> refcnt (bufs s c) = 0"
    and data: "\<forall>i<BSIZE. d i = disk_block s (blockno (bufs s b)) i"
  shows "bio_inv (upd_buf b (\<lambda>u. u\<lparr>bvalid := True, bdata := d\<rparr>) s) xs"
proof -
  let ?t = "upd_buf b (\<lambda>u. u\<lparr>bvalid := True, bdata := d\<rparr>) s"
  have r: "ring s xs" and srt: "sorted_wrt (first_only s) xs" and dist: "distinct xs"
    using inv by (auto simp: bio_inv_def ring_def)
  have "first_only ?t c e" if "first_only s c e" for c e
    using that b(2) by (auto simp: first_only_def)
  then have "sorted_wrt (first_only ?t) xs" using srt by (auto elim: sorted_wrt_mono_rel [rotated])
  moreover have "ring ?t xs" using r by (subst ring_upd) auto
  moreover have "coherent ?t c" if "c < NBUF" for c
    using inv that data by (auto simp: coherent_def bio_inv_def disk_block_cong [of ?t s])
  ultimately show ?thesis using inv by (auto simp: bio_inv_def)
qed

lemma bio_inv_cong: "bufs s' = bufs s \<Longrightarrow> sectors s' = sectors s \<Longrightarrow> bio_inv s' xs = bio_inv s xs"
proof -
  assume eq: "bufs s' = bufs s" "sectors s' = sectors s"
  have "first_only s' = first_only s" by (simp add: fun_eq_iff first_only_def eq)
  then show ?thesis using eq by (simp add: bio_inv_def ring_def coherent_def disk_block_cong [of s' s])
qed

lemma acquiredI:
  assumes "b < NBUF" "blockno (bufs s' b) = bn" "bvalid (bufs s' b)"
    "unat (refcnt (bufs s' b)) = Suc (unat (refcnt (bufs s b)))" "refcnt (bufs s b) \<noteq> 0 \<longrightarrow> blockno (bufs s b) = bn"
    "\<And>c. c \<noteq> b \<Longrightarrow> blockno (bufs s' c) = blockno (bufs s c) \<and> refcnt (bufs s' c) = refcnt (bufs s c) \<and>
       bvalid (bufs s' c) = bvalid (bufs s c)"
  shows "acquired bn b s s'"
proof -
  have "blockno (bufs s' c) = blockno (bufs s c) \<and> (bvalid (bufs s c) \<longrightarrow> bvalid (bufs s' c))" if "refcnt (bufs s c) \<noteq> 0" for c
    using assms that by (cases "c = b") auto
  then show ?thesis using assms by (simp add: acquired_def)
qed

lemma bio_read_ok:
  assumes ok: "bio_ok s" and bn: "unat bn < 2 ^ 31" and h: "held s < NBUF"
  obtains b s' where "bio_read 0 bn s = Some (Some b, s')" "bio_ok s'" "disk_block s' = disk_block s"
    "acquired bn b s s'" "outside_same s s'"
proof -
  obtain xs where inv: "bio_inv s xs" and vio: "vio_ok s" and idle: "\<not> disk_busy s" using ok by (auto simp: bio_ok_def)
  obtain b s1 where g: "bget 0 bn s = Some (Some b, s1)" "bio_inv s1 xs" "b < NBUF" "blockno (bufs s1 b) = bn"
    "unat (refcnt (bufs s1 b)) = Suc (unat (refcnt (bufs s b)))"
    "\<forall>c. c \<noteq> b \<longrightarrow> bufs s1 c = bufs s c" "refcnt (bufs s b) \<noteq> 0 \<longrightarrow> blockno (bufs s b) = bn \<and> bvalid (bufs s1 b) = bvalid (bufs s b)"
    and s1: "s1 = s\<lparr>bufs := bufs s1\<rparr>"
    and uniq: "\<forall>c<NBUF. c \<noteq> b \<and> blockno (bufs s c) = bn \<longrightarrow> \<not> bvalid (bufs s c) \<and> refcnt (bufs s c) = 0"
    by (rule bget_ok [OF inv bn h])
  have fr: "sectors s1 = sectors s" "disk_busy s1 = disk_busy s" "vio_ok s1 = vio_ok s" "outside_same s s1"
    by (subst s1, simp add: vio_ok_def qlist_def outside_same_def)+
  show thesis
  proof (cases "bvalid (bufs s1 b)")
    case True
    then have "bio_read 0 bn s = Some (Some b, s1)" using g(1) by (simp add: bio_read_def)
    moreover have "bio_ok s1" using g(2) fr vio idle by (auto simp: bio_ok_def)
    moreover have "acquired bn b s s1" using g(3-7) True by (intro acquiredI) auto
    ultimately show thesis using fr disk_block_cong [of s1 s] by (intro that) auto
  next
    case False
    let ?s2 = "s1\<lparr>disk_busy := True\<rparr>"
    have w: "disk_wait s1 = Some ?s2" using idle fr by (simp add: disk_wait_def)
    have v2: "vio_ok ?s2" using vio fr by simp
    obtain s3 where r1: "virtio_disk_read (block_sector bn) (bdata (bufs ?s2 b)) ?s2 = (0, sectors ?s2 (block_sector bn), s3)"
      "vio_ok s3" "vio_only ?s2 s3" "sectors s3 = sectors ?s2" by (rule virtio_disk_read_ok [OF v2])
    let ?s4 = "upd_buf b (\<lambda>u. u\<lparr>bdata := lo_half (bdata u) (sectors s (block_sector bn))\<rparr>) s3"
    have v4: "vio_ok ?s4" using r1(2) by simp
    obtain s5 where r2: "virtio_disk_read (block_sector bn + 1) (\<lambda>i. bdata (bufs ?s4 b) (i + 512)) ?s4 =
        (0, sectors ?s4 (block_sector bn + 1), s5)" "vio_ok s5" "vio_only ?s4 s5" "sectors s5 = sectors ?s4"
      by (rule virtio_disk_read_ok [OF v4])
    let ?s6 = "disk_done (upd_buf b (\<lambda>u. u\<lparr>bdata := hi_half (bdata u) (sectors s (block_sector bn + 1))\<rparr>) s5)"
    let ?s7 = "upd_buf b (\<lambda>u. u\<lparr>bvalid := True\<rparr>) ?s6"
    have b3: "bufs s3 = bufs s1" "bufs s5 = bufs ?s4" using vio_only_bio [OF r1(3)] vio_only_bio [OF r2(3)] by simp_all
    have sec: "sectors s3 = sectors s" "sectors s5 = sectors s" using r1(4) r2(4) fr by simp_all
    have read: "bio_read 0 bn s = Some (Some b, ?s7)"
      using g(1) False w r1(1) r2(1) fr(1) sec by (simp add: bio_read_def Let_def)
    let ?d = "hi_half (lo_half (bdata (bufs s1 b)) (sectors s (block_sector bn))) (sectors s (block_sector bn + 1))"
    have b7: "bufs ?s7 = bufs (upd_buf b (\<lambda>u. u\<lparr>bvalid := True, bdata := ?d\<rparr>) s1)"
      by (simp add: b3 fun_eq_iff)
    have nz: "refcnt (bufs s1 b) \<noteq> 0" using g(5) by auto
    have "bio_inv (upd_buf b (\<lambda>u. u\<lparr>bvalid := True, bdata := ?d\<rparr>) s1) xs"
    proof (rule bio_inv_fill [OF g(2,3) nz])
      show "\<forall>c<NBUF. c \<noteq> b \<and> blockno (bufs s1 c) = blockno (bufs s1 b) \<longrightarrow> \<not> bvalid (bufs s1 c) \<and> refcnt (bufs s1 c) = 0"
        using uniq g(4,6) by auto
      show "\<forall>i<BSIZE. ?d i = disk_block s1 (blockno (bufs s1 b)) i"
        by (simp add: g(4) disk_block_def fr hi_half_def lo_half_def BSIZE_def)
    qed
    then have "bio_inv ?s7 xs"
      using bio_inv_cong [of ?s7 "upd_buf b (\<lambda>u. u\<lparr>bvalid := True, bdata := ?d\<rparr>) s1"] b7 sec fr by simp
    then have "bio_ok ?s7" using r2(2) by (auto simp: bio_ok_def)
    moreover have "disk_block ?s7 = disk_block s" using sec by (intro disk_block_cong) simp
    moreover have "acquired bn b s ?s7"
      using g(3-7) by (intro acquiredI) (simp_all add: b3)
    moreover have "outside_same s ?s7"
      using fr(4) vio_only_bio(3) [OF r1(3)] vio_only_bio(3) [OF r2(3)] vio_only_fields(4,6) [OF r1(3)] vio_only_fields(4,6) [OF r2(3)]
      by (simp add: outside_same_def)
    ultimately show thesis using read by (intro that)
  qed
qed

subsection \<open>Writing\<close>

text \<open>Changing the data of a buffer one holds and writing it out.\<close>

lemma bio_write_ok:
  assumes ok: "bio_ok s" and b: "b < NBUF" "refcnt (bufs s b) \<noteq> 0" "bvalid (bufs s b)"
  obtains s' where "bio_write b (upd_buf b (\<lambda>u. u\<lparr>bdata := d\<rparr>) s) = Some (0, s')" "bio_ok s'" "balanced s s'"
    "\<forall>bn. unat bn < 2 ^ 31 \<longrightarrow>
       disk_block s' bn = (if bn = blockno (bufs s b) then (\<lambda>i. if i < BSIZE then d i else 0) else disk_block s bn)"
    "outside_same s s'" "bvalid (bufs s' b)"
proof -
  obtain xs where inv: "bio_inv s xs" and vio: "vio_ok s" and idle: "\<not> disk_busy s" using ok by (auto simp: bio_ok_def)
  let ?s1 = "upd_buf b (\<lambda>u. u\<lparr>bdata := d\<rparr>) s" and ?bn = "blockno (bufs s b)"
  let ?s2 = "?s1\<lparr>disk_busy := True\<rparr>"
  have w: "disk_wait ?s1 = Some ?s2" using idle by (simp add: disk_wait_def)
  have v2: "vio_ok ?s2" using vio by simp
  obtain b1 s3 where r1: "virtio_disk_write (block_sector ?bn) d ?s2 = (0, b1, s3)" "vio_ok s3" "vio_only ?s2 s3"
    "sectors s3 = (sectors ?s2)(block_sector ?bn := d)" by (rule virtio_disk_write_ok [OF v2])
  have b3: "bufs s3 = bufs ?s1" using vio_only_bio(1) [OF r1(3)] by simp
  obtain b2 s4 where r2: "virtio_disk_write (block_sector ?bn + 1) (\<lambda>i. d (i + 512)) s3 = (0, b2, s4)" "vio_ok s4" "vio_only s3 s4"
    "sectors s4 = (sectors s3)(block_sector ?bn + 1 := (\<lambda>i. d (i + 512)))" by (rule virtio_disk_write_ok [OF r1(2)])
  have b4: "bufs s4 = bufs ?s1" using vio_only_bio(1) [OF r2(3)] b3 by simp
  let ?t = "disk_done s4"
  have wr: "bio_write b ?s1 = Some (0, ?t)" using w r1(1) r2(1) b3 by (simp add: bio_write_def Let_def)
  have bnb: "unat (blockno (bufs s c)) < 2 ^ 31" if "c < NBUF" for c using inv that by (simp add: bio_inv_def)
  have sec: "sectors ?t = (sectors s)(block_sector ?bn := d, block_sector ?bn + 1 := (\<lambda>i. d (i + 512)))"
    using r1(4) r2(4) by simp
  have blk: "disk_block ?t bn = (if bn = ?bn then (\<lambda>i. if i < BSIZE then d i else 0) else disk_block s bn)"
    if "unat bn < 2 ^ 31" for bn
    by (rule disk_block_write [OF bnb [OF b(1)] that sec])
  have r: "ring s xs" and srt: "sorted_wrt (first_only s) xs" using inv by (auto simp: bio_inv_def)
  have uniq: "\<not> bvalid (bufs s c)" if "c < NBUF" "c \<noteq> b" "blockno (bufs s c) = ?bn" for c
  proof -
    have "b \<in> set xs" "c \<in> set xs" using ring_bound [OF r] b(1) that(1) by simp_all
    then obtain i j where ij: "i < length xs" "b = xs ! i" "j < length xs" "c = xs ! j"
      unfolding in_set_conv_nth by auto
    then have "i \<noteq> j" using that(2) by auto
    then consider "i < j" | "j < i" by linarith
    then show ?thesis
    proof cases
      case 1
      then have "first_only s b c" using srt ij unfolding sorted_wrt_iff_nth_less by blast
      then show ?thesis using that(3) by (simp add: first_only_def)
    next
      case 2
      then have "first_only s c b" using srt ij unfolding sorted_wrt_iff_nth_less by blast
      then show ?thesis using that(3) b(2) by (simp add: first_only_def)
    qed
  qed
  have "ring ?s1 xs" using r by (subst ring_upd) auto
  then have "ring ?t xs" using ring_cong [of ?t ?s1] b4 by simp
  moreover have "first_only ?t = first_only s" by (simp add: fun_eq_iff first_only_def b4)
  then have "sorted_wrt (first_only ?t) xs" using srt by simp
  moreover have "coherent ?t c" if "c < NBUF" for c
    using inv that uniq [of c] blk [OF bnb [OF that]] blk [OF bnb [OF b(1)]] by (auto simp: coherent_def b4 bio_inv_def)
  ultimately have "bio_inv ?t xs" using inv by (auto simp: bio_inv_def b4)
  then have "bio_ok ?t" using r2(2) by (auto simp: bio_ok_def)
  moreover have "balanced s ?t" by (simp add: balanced_def b4)
  moreover have "outside_same s ?t"
    using vio_only_bio(3) [OF r1(3)] vio_only_bio(3) [OF r2(3)] vio_only_fields(4,6) [OF r1(3)] vio_only_fields(4,6) [OF r2(3)]
    by (simp add: outside_same_def)
  moreover have "bvalid (bufs ?t b)" using b(3) b4 by simp
  ultimately show thesis using that [OF wr] blk by blast
qed

subsection \<open>The cache as a block store\<close>

text \<open>What the file system needs of the cache: while fewer than \<^verbatim>\<open>NBUF\<close> references are held, a block can be
  acquired and shows the block's contents; a held buffer can be changed and written, which changes that block
  and no other; and acquire, use, release is balanced.\<close>

locale block_store =
  fixes ok :: "'s \<Rightarrow> bool"
    and block :: "'s \<Rightarrow> u32 \<Rightarrow> bytes"
    and contents :: "'s \<Rightarrow> nat \<Rightarrow> bytes"
    and nheld :: "'s \<Rightarrow> nat"
    and room :: nat
    and bound :: "u32 \<Rightarrow> bool"
    and got :: "u32 \<Rightarrow> nat \<Rightarrow> 's \<Rightarrow> 's \<Rightarrow> bool"
    and same :: "'s \<Rightarrow> 's \<Rightarrow> bool"
    and outer :: "'s \<Rightarrow> 's \<Rightarrow> bool"
    and size_of :: nat
    and read_op :: "u32 \<Rightarrow> 's \<Rightarrow> (nat option \<times> 's) option"
    and set_data :: "nat \<Rightarrow> bytes \<Rightarrow> 's \<Rightarrow> 's"
    and write_op :: "nat \<Rightarrow> 's \<Rightarrow> (int \<times> 's) option"
    and release_op :: "nat \<Rightarrow> 's \<Rightarrow> 's"
  assumes read_law: "ok s \<Longrightarrow> bound bn \<Longrightarrow> nheld s < room \<Longrightarrow>
      \<exists>b s'. read_op bn s = Some (Some b, s') \<and> ok s' \<and> block s' = block s \<and> got bn b s s' \<and> outer s s'"
    and contents_law: "ok s' \<Longrightarrow> got bn b s s' \<Longrightarrow> same s' s'' \<Longrightarrow> ok s'' \<Longrightarrow> i < size_of \<Longrightarrow> contents s'' b i = block s'' bn i"
    and write_law: "got bn b s s1 \<Longrightarrow> same s1 s2 \<Longrightarrow> ok s2 \<Longrightarrow>
      \<exists>s'. write_op b (set_data b d s2) = Some (0, s') \<and> ok s' \<and> same s2 s' \<and> outer s2 s' \<and>
         (\<forall>n. bound n \<longrightarrow> block s' n = (if n = bn then (\<lambda>i. if i < size_of then d i else 0) else block s2 n))"
    and release_law: "got bn b s s1 \<Longrightarrow> same s1 s2 \<Longrightarrow> ok s2 \<Longrightarrow>
      ok (release_op b s2) \<and> same s (release_op b s2) \<and> block (release_op b s2) = block s2 \<and> outer s2 (release_op b s2)"
    and same_refl: "same s s"
    and same_trans: "same s s' \<Longrightarrow> same s' s'' \<Longrightarrow> same s s''"
    and same_held: "same s s' \<Longrightarrow> nheld s' = nheld s"
    and outer_trans: "outer s s' \<Longrightarrow> outer s' s'' \<Longrightarrow> outer s s''"
begin

text \<open>Read a block and let it go: the contents, and nothing changed.\<close>

lemma read_release:
  assumes "ok s" "bound bn" "nheld s < room"
  obtains b s1 where "read_op bn s = Some (Some b, s1)" "\<forall>i < size_of. contents s1 b i = block s bn i"
    "ok (release_op b s1)" "same s (release_op b s1)" "block (release_op b s1) = block s" "outer s (release_op b s1)"
proof -
  obtain b s1 where r: "read_op bn s = Some (Some b, s1)" "ok s1" "block s1 = block s" "got bn b s s1" "outer s s1"
    using read_law [OF assms] by blast
  note rel = release_law [OF r(4) same_refl r(2)]
  have "\<forall>i < size_of. contents s1 b i = block s bn i" using contents_law [OF r(2,4) same_refl r(2)] r(3) by simp
  then show ?thesis using that r rel outer_trans by metis
qed

text \<open>Read, change, write, release: one block has changed.\<close>

lemma read_write_release:
  assumes "ok s" "bound bn" "nheld s < room"
  obtains b s1 where "read_op bn s = Some (Some b, s1)" "\<forall>i < size_of. contents s1 b i = block s bn i"
    "\<forall>d. \<exists>s2. write_op b (set_data b d s1) = Some (0, s2) \<and> ok (release_op b s2) \<and> same s (release_op b s2) \<and>
       outer s (release_op b s2) \<and>
       (\<forall>n. bound n \<longrightarrow> block (release_op b s2) n = (if n = bn then (\<lambda>i. if i < size_of then d i else 0) else block s n))"
proof -
  obtain b s1 where r: "read_op bn s = Some (Some b, s1)" "ok s1" "block s1 = block s" "got bn b s s1" "outer s s1"
    using read_law [OF assms] by blast
  have c: "\<forall>i < size_of. contents s1 b i = block s bn i" using contents_law [OF r(2,4) same_refl r(2)] r(3) by simp
  have "\<exists>s2. write_op b (set_data b d s1) = Some (0, s2) \<and> ok (release_op b s2) \<and> same s (release_op b s2) \<and>
       outer s (release_op b s2) \<and>
       (\<forall>n. bound n \<longrightarrow> block (release_op b s2) n = (if n = bn then (\<lambda>i. if i < size_of then d i else 0) else block s n))" for d
  proof -
    obtain s2 where w: "write_op b (set_data b d s1) = Some (0, s2)" "ok s2" "same s1 s2" "outer s1 s2"
      "\<forall>n. bound n \<longrightarrow> block s2 n = (if n = bn then (\<lambda>i. if i < size_of then d i else 0) else block s1 n)"
      using write_law [OF r(4) same_refl r(2), of d] by blast
    note rel = release_law [OF r(4) w(3,2)]
    have "outer s (release_op b s2)" using outer_trans [OF outer_trans [OF r(5) w(4)]] rel by blast
    then show ?thesis using w(1,5) rel r(3) by (intro exI [of _ s2]) simp
  qed
  with that [OF r(1) c] show ?thesis by blast
qed

end

definition set_bdata :: "nat \<Rightarrow> bytes \<Rightarrow> 'a bio_st_scheme \<Rightarrow> 'a bio_st_scheme" where
  "set_bdata b d s = upd_buf b (\<lambda>u. u\<lparr>bdata := d\<rparr>) s"

lemma acquired_balanced:
  assumes "acquired bn b s s1" "balanced s1 s2"
  shows "b < NBUF" "refcnt (bufs s2 b) \<noteq> 0" "bvalid (bufs s2 b)" "blockno (bufs s2 b) = bn"
proof -
  show "b < NBUF" "refcnt (bufs s2 b) \<noteq> 0" using acquired_release [OF assms] by simp_all
  have "refcnt (bufs s1 b) \<noteq> 0" using assms(1) by (auto simp: acquired_def)
  then show "bvalid (bufs s2 b)" "blockno (bufs s2 b) = bn" using assms by (auto simp: acquired_def balanced_def)
qed

interpretation cache: block_store bio_ok disk_block "\<lambda>s b. bdata (bufs s b)" held NBUF "\<lambda>bn. unat bn < 2 ^ 31"
    acquired balanced outside_same BSIZE "bio_read 0" set_bdata bio_write bio_release
proof (unfold_locales, goal_cases)
  case (1 s bn)
  then show ?case using bio_read_ok [OF 1] by blast
next
  case (2 s' bn b s s'' i)
  note ab = acquired_balanced [OF 2(2,3)]
  have "coherent s'' b" using 2(4) ab(1) by (auto simp: bio_ok_def bio_inv_def)
  then show ?case using ab(3,4) 2(5) by (simp add: coherent_def)
next
  case (3 bn b s s1 s2 d)
  note ab = acquired_balanced [OF 3(1,2)]
  obtain s' where "bio_write b (upd_buf b (\<lambda>u. u\<lparr>bdata := d\<rparr>) s2) = Some (0, s')" "bio_ok s'" "balanced s2 s'"
    "\<forall>n. unat n < 2 ^ 31 \<longrightarrow>
       disk_block s' n = (if n = blockno (bufs s2 b) then (\<lambda>i. if i < BSIZE then d i else 0) else disk_block s2 n)"
    "outside_same s2 s'" "bvalid (bufs s' b)" by (rule bio_write_ok [OF 3(3) ab(1-3), of d])
  then show ?case unfolding set_bdata_def ab(4) by blast
next
  case (4 bn b s s1 s2)
  then show ?case
    using bio_release_ok [OF 4(3) acquired_balanced(1,2) [OF 4(1,2)]] acquired_release [OF 4(1,2)] by simp
qed (use balanced_trans balanced_held outside_same_trans in \<open>auto\<close>)

subsection \<open>Properties\<close>

lemma bio_init_frame [frame, simp]:
  "sectors (bio_init s) = sectors s" "vio_ok (bio_init s) = vio_ok s" "disk_busy (bio_init s) = False"
proof -
  let ?f = "\<lambda>i s. link_front i (upd_buf i (\<lambda>u. u\<lparr>bvalid := False, bdev := 0, blockno := 0, refcnt := 0\<rparr>) s)"
  have "sectors (fold ?f is t) = sectors t" "vio_ok (fold ?f is t) = vio_ok t" for "is" and t :: "'a bio_st_scheme"
    by (induction "is" arbitrary: t) (auto simp: vio_ok_def)
  then show "sectors (bio_init s) = sectors s" "vio_ok (bio_init s) = vio_ok s" "disk_busy (bio_init s) = False"
    by (simp_all add: bio_init_def Let_def)
qed

lemma bio_init_ok: "vio_ok s \<Longrightarrow> bio_ok (bio_init s) \<and> held (bio_init s) = 0"
proof -
  assume "vio_ok s"
  note b = bio_init_bufs [of _ s]
  have "sorted_wrt (first_only (bio_init s)) (rev [0..<NBUF])"
    unfolding sorted_wrt_iff_nth_less using b by (auto simp: first_only_def rev_nth)
  then have "bio_inv (bio_init s) (rev [0..<NBUF])"
    using b bio_init_ring [of s] by (simp add: bio_inv_def coherent_def)
  then show ?thesis using \<open>vio_ok s\<close> b by (auto simp: bio_ok_def held_def)
qed

definition demo_bio :: bio_st where
  "demo_bio = bio_init (virtio_st.extend (init_rings demo_vst) (bio_st.fields
     (\<lambda>_. \<lparr>bvalid = False, bdev = 0, blockno = 0, refcnt = 0, bprev = 0, bnext = 0, bdata = (\<lambda>_. 0)\<rparr>) False))"

lemma demo_bio_ok: "bio_ok demo_bio" "held demo_bio = 0"
proof -
  have "vio_ok (virtio_st.extend (init_rings demo_vst) (bio_st.fields
     (\<lambda>_. \<lparr>bvalid = False, bdev = 0, blockno = 0, refcnt = 0, bprev = 0, bnext = 0, bdata = (\<lambda>_. 0)\<rparr>) False))"
    using init_rings_qlist [of demo_vst]
    by (auto simp: vio_ok_def virtio_st.defs bio_st.defs qlist_def demo_vst_def pipe_st.defs
        intro!: exI [of _ "[0, 1, 2, 3, 4, 5, 6, 7]"])
  then show "bio_ok demo_bio" "held demo_bio = 0" unfolding demo_bio_def using bio_init_ok by blast+
qed

text \<open>Property C4. The buffer cache is transparent. On a working disk and with fewer than 64 references
  held, \<^verbatim>\<open>bio_read\<close> returns a buffer that shows the block as it is on the disk, whether it was cached or not,
  without disturbing any buffer somebody holds; changing that buffer and \<^verbatim>\<open>bio_write\<close> change this block on the
  disk and no other; and after \<^verbatim>\<open>bio_release\<close> all reference counts are as before.\<close>

theorem bio_transparent:
  assumes "bio_ok s" "unat bn < 2 ^ 31" "held s < NBUF"
  shows "\<exists>b s1. bio_read 0 bn s = Some (Some b, s1) \<and> blockno (bufs s1 b) = bn \<and>
    (\<forall>i<BSIZE. bdata (bufs s1 b) i = disk_block s bn i) \<and>
    (\<forall>c<NBUF. refcnt (bufs s c) \<noteq> 0 \<longrightarrow> blockno (bufs s1 c) = blockno (bufs s c)) \<and>
    (\<forall>d. \<exists>s2. bio_write b (upd_buf b (\<lambda>u. u\<lparr>bdata := d\<rparr>) s1) = Some (0, s2) \<and> bio_ok (bio_release b s2) \<and>
       (\<forall>c<NBUF. refcnt (bufs (bio_release b s2) c) = refcnt (bufs s c)) \<and>
       (\<forall>n. unat n < 2 ^ 31 \<longrightarrow>
          disk_block (bio_release b s2) n = (if n = bn then (\<lambda>i. if i < BSIZE then d i else 0) else disk_block s n)))"
proof -
  obtain b s1 where r: "bio_read 0 bn s = Some (Some b, s1)" "bio_ok s1" "disk_block s1 = disk_block s"
    "acquired bn b s s1" "outside_same s s1" by (rule bio_read_ok [OF assms])
  obtain b' s1' where rw: "bio_read 0 bn s = Some (Some b', s1')"
    "\<forall>i<BSIZE. bdata (bufs s1' b') i = disk_block s bn i"
    "\<forall>d. \<exists>s2. bio_write b' (set_bdata b' d s1') = Some (0, s2) \<and> bio_ok (bio_release b' s2) \<and>
       balanced s (bio_release b' s2) \<and> outside_same s (bio_release b' s2) \<and>
       (\<forall>n. unat n < 2 ^ 31 \<longrightarrow> disk_block (bio_release b' s2) n =
          (if n = bn then (\<lambda>i. if i < BSIZE then d i else 0) else disk_block s n))"
    by (rule cache.read_write_release [OF assms])
  have eq: "b' = b" "s1' = s1" using r(1) rw(1) by simp_all
  have "\<exists>s2. bio_write b (upd_buf b (\<lambda>u. u\<lparr>bdata := d\<rparr>) s1) = Some (0, s2) \<and> bio_ok (bio_release b s2) \<and>
       (\<forall>c<NBUF. refcnt (bufs (bio_release b s2) c) = refcnt (bufs s c)) \<and>
       (\<forall>n. unat n < 2 ^ 31 \<longrightarrow>
          disk_block (bio_release b s2) n = (if n = bn then (\<lambda>i. if i < BSIZE then d i else 0) else disk_block s n))" for d
    using rw(3) [rule_format, of d] unfolding eq set_bdata_def balanced_def by blast
  moreover have "blockno (bufs s1 b) = bn"
    "\<forall>c<NBUF. refcnt (bufs s c) \<noteq> 0 \<longrightarrow> blockno (bufs s1 c) = blockno (bufs s c)" using r(4) by (auto simp: acquired_def)
  ultimately show ?thesis using r(1) rw(2) unfolding eq by blast
qed

theorem bio_transparent_witness:
  "\<exists>b s1. bio_read 0 7 demo_bio = Some (Some b, s1) \<and> (\<forall>i<BSIZE. bdata (bufs s1 b) i = disk_block demo_bio 7 i)"
  using bio_transparent [OF demo_bio_ok(1), of 7] demo_bio_ok(2) by (auto simp: NBUF_def)

text \<open>Replacement policy. With the buffers in the order of the list, \<^verbatim>\<open>bget\<close> returns the first one
  that has the block, else recycles the last one that nobody holds, and fails only if all are held. Releasing
  the last reference moves the buffer to the front, so the list is in order of last use.\<close>

theorem bget_lru:
  assumes "ring s xs"
  shows "bget dev bn s =
    Some (case List.find (\<lambda>i. bdev (bufs s i) = dev \<and> blockno (bufs s i) = bn) xs of
      Some b \<Rightarrow> (Some b, upd_buf b (\<lambda>u. u\<lparr>refcnt := refcnt u + 1\<rparr>) s)
    | None \<Rightarrow>
       (case List.find (\<lambda>i. refcnt (bufs s i) = 0) (rev xs) of
          Some b \<Rightarrow> (Some b, upd_buf b (\<lambda>u. u\<lparr>bdev := dev, blockno := bn, bvalid := False, refcnt := 1\<rparr>) s)
        | None \<Rightarrow> (None, s))) \<and>
    (\<forall>b<NBUF. ring (bio_release b s) (if refcnt (bufs s b) = 1 then b # remove1 b xs else xs)) \<and>
    ring (bio_init t) (rev [0..<NBUF])"
  using bget_find [OF assms] bio_release_ring [OF assms] ring_bound [OF assms] bio_init_ring by auto

theorem bget_lru_witness:
  "\<exists>s'. bget 0 9 (bio_init demo_bio) = Some (Some 0, s')"
proof -
  note b = bio_init_bufs [of _ demo_bio]
  have "List.find (\<lambda>i. bdev (bufs (bio_init demo_bio) i) = 0 \<and> blockno (bufs (bio_init demo_bio) i) = 9) (rev [0..<NBUF]) = None"
    using b by (auto simp: find_None_iff)
  moreover have "List.find (\<lambda>i. refcnt (bufs (bio_init demo_bio) i) = 0) (rev (rev [0..<NBUF])) = Some 0"
    using b [of 0] by (simp add: NBUF_def upt_rec)
  ultimately show ?thesis using bget_lru [OF bio_init_ring, of 0 9 demo_bio demo_bio] by simp
qed

end
