(* ===== verification/Kstring.thy ===== *)
theory Kstring
  imports Prelude
begin

text \<open>
  The kernel's string and memory routines, \<^verbatim>\<open>kernel/string.c\<close>. Memory is a function from addresses to bytes,
  a pointer an address, a null result \<open>None\<close>. The scans that stop at a terminator may run forever on
  memory without one; they are partial functions, and the theorems say when they return.
\<close>

subsection \<open>The routines\<close>

partial_function (option) strlen_loop :: "bytes \<Rightarrow> nat \<Rightarrow> nat \<Rightarrow> nat option" where
  "strlen_loop m s n = (if m (s + n) \<noteq> 0 then strlen_loop m s (n + 1) else Some n)"

definition strlen :: "bytes \<Rightarrow> nat \<Rightarrow> nat option" where
  "strlen m s = strlen_loop m s 0"

partial_function (option) strcmp :: "bytes \<Rightarrow> nat \<Rightarrow> nat \<Rightarrow> int option" where
  "strcmp m s1 s2 =
     (if m s1 \<noteq> 0 \<and> m s1 = m s2 then strcmp m (s1 + 1) (s2 + 1)
      else Some (uint (m s1) - uint (m s2)))"

text \<open>The length bound makes \<^verbatim>\<open>strncmp\<close>, \<^verbatim>\<open>strncpy\<close> and the memory routines terminate.\<close>

primrec strncmp :: "bytes \<Rightarrow> nat \<Rightarrow> nat \<Rightarrow> nat \<Rightarrow> int" where
  "strncmp m s1 s2 0 = 0"
| "strncmp m s1 s2 (Suc n) =
     (if m s1 \<noteq> 0 \<and> m s1 = m s2 then strncmp m (s1 + 1) (s2 + 1) n
      else uint (m s1) - uint (m s2))"

primrec zero_fill :: "bytes \<Rightarrow> nat \<Rightarrow> nat \<Rightarrow> bytes" where
  "zero_fill m d 0 = m"
| "zero_fill m d (Suc n) = zero_fill (m(d := 0)) (d + 1) n"

primrec strncpy :: "bytes \<Rightarrow> nat \<Rightarrow> nat \<Rightarrow> nat \<Rightarrow> bytes" where
  "strncpy m d src 0 = m"
| "strncpy m d src (Suc n) =
     (if m src \<noteq> 0 then strncpy (m(d := m src)) (d + 1) (src + 1) n else zero_fill m d (Suc n))"

primrec copy_up :: "bytes \<Rightarrow> nat \<Rightarrow> nat \<Rightarrow> nat \<Rightarrow> bytes" where
  "copy_up m d s 0 = m"
| "copy_up m d s (Suc n) = copy_up (m(d := m s)) (d + 1) (s + 1) n"

text \<open>The loop that counts down has the pointers just behind the bytes still to copy.\<close>

primrec copy_down :: "bytes \<Rightarrow> nat \<Rightarrow> nat \<Rightarrow> nat \<Rightarrow> bytes" where
  "copy_down m d s 0 = m"
| "copy_down m d s (Suc n) = copy_down (m(d - 1 := m (s - 1))) (d - 1) (s - 1) n"

definition memmove :: "bytes \<Rightarrow> nat \<Rightarrow> nat \<Rightarrow> nat \<Rightarrow> bytes" where
  "memmove m d s n =
     (if s < d \<and> d < s + n then copy_down m (d + n) (s + n) n else copy_up m d s n)"

primrec memset :: "bytes \<Rightarrow> nat \<Rightarrow> u8 \<Rightarrow> nat \<Rightarrow> bytes" where
  "memset m p c 0 = m"
| "memset m p c (Suc n) = memset (m(p := c)) (p + 1) c n"

definition memcpy :: "bytes \<Rightarrow> nat \<Rightarrow> nat \<Rightarrow> nat \<Rightarrow> bytes" where
  "memcpy m d s n = copy_up m d s n"

partial_function (option) strchr :: "bytes \<Rightarrow> nat \<Rightarrow> u8 \<Rightarrow> nat option option" where
  "strchr m s c =
     (if m s \<noteq> c then if m s = 0 then Some None else strchr m (s + 1) c
      else Some (Some s))"

text \<open>The inner loop of \<^verbatim>\<open>strstr\<close> compares the needle with the text at \<open>h\<close>.\<close>

partial_function (option) match_loop :: "bytes \<Rightarrow> nat \<Rightarrow> nat \<Rightarrow> nat option" where
  "match_loop m h n =
     (if m h \<noteq> 0 \<and> m n \<noteq> 0 \<and> m h = m n then match_loop m (h + 1) (n + 1) else Some n)"

partial_function (option) strstr_loop :: "bytes \<Rightarrow> nat \<Rightarrow> nat \<Rightarrow> nat option option" where
  "strstr_loop m haystack needle =
     (if m haystack \<noteq> 0 then
        do { n \<leftarrow> match_loop m haystack needle;
             if m n = 0 then Some (Some haystack) else strstr_loop m (haystack + 1) needle }
      else Some None)"

definition strstr :: "bytes \<Rightarrow> nat \<Rightarrow> nat \<Rightarrow> nat option option" where
  "strstr m haystack needle =
     (if m needle = 0 then Some (Some haystack) else strstr_loop m haystack needle)"

subsection \<open>Strings in memory\<close>

primrec str_at :: "bytes \<Rightarrow> nat \<Rightarrow> u8 list \<Rightarrow> bool" where
  "str_at m p [] \<longleftrightarrow> m p = 0"
| "str_at m p (x # xs) \<longleftrightarrow> x \<noteq> 0 \<and> m p = x \<and> str_at m (p + 1) xs"

text \<open>Order of byte strings: a proper prefix comes first.\<close>

fun bytes_less :: "u8 list \<Rightarrow> u8 list \<Rightarrow> bool" where
  "bytes_less xs [] = False"
| "bytes_less [] (y # ys) = True"
| "bytes_less (x # xs) (y # ys) = (x < y \<or> x = y \<and> bytes_less xs ys)"

lemma strlen_loop_str: "str_at m (s + n) xs \<Longrightarrow> strlen_loop m s n = Some (n + length xs)"
proof (induction xs arbitrary: n)
  case Nil
  then show ?case by (subst strlen_loop.simps) simp
next
  case (Cons x xs)
  have "strlen_loop m s (n + 1) = Some (n + 1 + length xs)" using Cons.prems by (intro Cons.IH) simp
  then show ?case using Cons.prems by (subst strlen_loop.simps) simp
qed

lemma strcmp_str:
  assumes "str_at m p xs" "str_at m q ys"
  shows "\<exists>r. strcmp m p q = Some r \<and> (r = 0 \<longleftrightarrow> xs = ys) \<and> (r < 0 \<longleftrightarrow> bytes_less xs ys)"
  using assms
proof (induction xs arbitrary: p q ys)
  case Nil
  then show ?case
    by (cases ys) (auto simp: strcmp.simps [of m p] order_less_le uint_0_iff)
next
  case (Cons x xs)
  show ?case
  proof (cases ys)
    case Nil
    then show ?thesis using Cons.prems by (auto simp: strcmp.simps [of m p] uint_0_iff)
  next
    case ys: (Cons y zs)
    show ?thesis
    proof (cases "x = y")
      case True
      then show ?thesis using Cons ys by (auto simp: strcmp.simps [of m p])
    next
      case False
      then show ?thesis using Cons.prems ys by (auto simp: strcmp.simps [of m p] word_less_def simp flip: word_uint_eq_iff)
    qed
  qed
qed

lemma copy_up_eq:
  "d \<le> s \<or> s + n \<le> d \<Longrightarrow> copy_up m d s n a = (if d \<le> a \<and> a < d + n then m (s + (a - d)) else m a)"
proof (induction n arbitrary: m d s)
  case (Suc n)
  have "Suc d \<le> Suc s \<or> Suc s + n \<le> Suc d" using Suc.prems by auto
  note IH = Suc.IH [OF this, of "m(d := m s)"]
  have "Suc (s + a - Suc d) = s + a - d" if "Suc d \<le> a" using that by simp
  then show ?case using Suc.prems by (auto simp: IH)
qed auto

lemma copy_down_eq:
  "s \<le> d \<Longrightarrow> copy_down m (d + n) (s + n) n a = (if d \<le> a \<and> a < d + n then m (s + (a - d)) else m a)"
  by (induction n arbitrary: m) (auto simp: not_less)

lemma memmove_eq: "memmove m d s n a = (if d \<le> a \<and> a < d + n then m (s + (a - d)) else m a)"
  by (auto simp: memmove_def copy_up_eq copy_down_eq)

lemma memset_eq: "memset m p c n a = (if p \<le> a \<and> a < p + n then c else m a)"
  by (induction n arbitrary: m p) auto

lemma zero_fill_eq: "zero_fill m d n a = (if d \<le> a \<and> a < d + n then 0 else m a)"
  by (induction n arbitrary: m d) auto

lemma strncpy_eq:
  assumes "str_at m src xs" "d + n \<le> src \<or> src + length xs < d"
  shows "strncpy m d src n a =
    (if d \<le> a \<and> a < d + n then if a - d < length xs then xs ! (a - d) else 0 else m a)"
  using assms
proof (induction n arbitrary: m d src xs)
  case (Suc n)
  show ?case
  proof (cases xs)
    case Nil
    then show ?thesis using Suc.prems by (simp add: zero_fill_eq del: zero_fill.simps)
  next
    case (Cons x ys)
    have frame: "str_at (m(d := v)) p zs" if "str_at m p zs" "d < p \<or> p + length zs < d" for p zs v
      using that by (induction zs arbitrary: p) auto
    have "strncpy (m(d := x)) (d + 1) (src + 1) n a =
      (if d + 1 \<le> a \<and> a < d + 1 + n then if a - (d + 1) < length ys then ys ! (a - (d + 1)) else 0 else (m(d := x)) a)"
      using Suc.prems Cons by (intro Suc.IH frame) auto
    then show ?thesis using Suc.prems Cons by (auto simp: nth_Cons')
  qed
qed auto

lemma strncmp_prefix:
  assumes "str_at m p xs" "str_at m q ys"
  shows "strncmp m p q n = 0 \<longleftrightarrow> take n xs = take n ys"
  using assms
proof (induction n arbitrary: p q xs ys)
  case (Suc n)
  show ?case
    using Suc.prems Suc.IH [of "p + 1" "tl xs" "q + 1" "tl ys"]
    by (cases xs; cases ys) (auto simp: uint_0_iff simp flip: word_uint_eq_iff)
qed simp

subsection \<open>Searching\<close>

lemma find_map_Suc: "List.find P (map Suc xs) = map_option Suc (List.find (\<lambda>i. P (Suc i)) xs)"
  by (induction xs) auto

lemma strchr_str:
  assumes "str_at m s xs"
  shows "strchr m s c = Some (if c = 0 then Some (s + length xs)
    else case List.find (\<lambda>i. xs ! i = c) [0..<length xs] of None \<Rightarrow> None | Some i \<Rightarrow> Some (s + i))"
  using assms
proof (induction xs arbitrary: s)
  case Nil
  then show ?case by (subst strchr.simps) simp
next
  case (Cons x xs)
  have "List.find (\<lambda>i. (x # xs) ! i = c) [0..<length (x # xs)] =
    (if x = c then Some 0 else map_option Suc (List.find (\<lambda>i. xs ! i = c) [0..<length xs]))"
    by (simp add: upt_conv_Cons find_map_Suc del: upt_Suc flip: map_Suc_upt)
  moreover have "strchr m s c = (if x = c then Some (Some s) else strchr m (s + 1) c)"
    using Cons.prems by (subst strchr.simps) simp
  ultimately show ?case using Cons.IH [of "s + 1"] Cons.prems by (auto split: option.splits)
qed

text \<open>The inner loop stops at the end of the needle exactly if the needle is a prefix of the text.\<close>

lemma match_loop_str:
  assumes "str_at m h xs" "str_at m n ys"
  shows "\<exists>k. match_loop m h n = Some k \<and> (m k = 0 \<longleftrightarrow> take (length ys) xs = ys)"
  using assms
proof (induction ys arbitrary: h n xs)
  case Nil
  then show ?case by (subst match_loop.simps) simp
next
  case (Cons y ys)
  show ?case
  proof (cases xs)
    case Nil
    then show ?thesis using Cons.prems by (subst match_loop.simps) simp
  next
    case xs: (Cons x zs)
    show ?thesis
      using Cons.prems Cons.IH [of "h + 1" zs "n + 1"] xs by (subst match_loop.simps) auto
  qed
qed

definition occurs_at :: "u8 list \<Rightarrow> nat \<Rightarrow> u8 list \<Rightarrow> bool" where
  "occurs_at ys k xs \<longleftrightarrow> take (length ys) (drop k xs) = ys"

lemma strstr_loop_str:
  assumes "str_at m h xs" "str_at m n ys" "ys \<noteq> []"
  shows "\<exists>r. strstr_loop m h n = Some r \<and>
    (case r of None \<Rightarrow> \<forall>k. \<not> occurs_at ys k xs
     | Some p \<Rightarrow> \<exists>k\<le>length xs. p = h + k \<and> occurs_at ys k xs \<and> (\<forall>j<k. \<not> occurs_at ys j xs))"
  using assms
proof (induction xs arbitrary: h)
  case Nil
  then show ?case by (subst strstr_loop.simps) (simp add: occurs_at_def)
next
  case (Cons x xs)
  obtain k where k: "match_loop m h n = Some k" "m k = 0 \<longleftrightarrow> take (length ys) (x # xs) = ys"
    using match_loop_str [OF Cons.prems(1,2)] by blast
  show ?case
  proof (cases "m k = 0")
    case True
    then have "strstr_loop m h n = Some (Some h)" using k Cons.prems(1) by (subst strstr_loop.simps) simp
    then show ?thesis using True k by (auto simp: occurs_at_def)
  next
    case False
    then have step: "strstr_loop m h n = strstr_loop m (h + 1) n"
      using k Cons.prems(1) by (subst strstr_loop.simps) simp
    have zero: "\<not> occurs_at ys 0 (x # xs)" using False k by (simp add: occurs_at_def)
    have suc: "occurs_at ys (Suc j) (x # xs) \<longleftrightarrow> occurs_at ys j xs" for j by (simp add: occurs_at_def)
    obtain r where r: "strstr_loop m (h + 1) n = Some r" "case r of None \<Rightarrow> \<forall>k. \<not> occurs_at ys k xs
      | Some p \<Rightarrow> \<exists>k\<le>length xs. p = h + 1 + k \<and> occurs_at ys k xs \<and> (\<forall>j<k. \<not> occurs_at ys j xs)"
      using Cons.IH [of "h + 1"] Cons.prems by auto
    show ?thesis
    proof (cases r)
      case None
      then have "\<not> occurs_at ys j (x # xs)" for j using r(2) zero suc by (cases j) auto
      then show ?thesis using None r(1) step by simp
    next
      case (Some p)
      then obtain k where "k \<le> length xs" "p = h + Suc k" "occurs_at ys (Suc k) (x # xs)" "\<forall>j<k. \<not> occurs_at ys j xs"
        using r(2) suc by auto
      moreover from this have "\<forall>j<Suc k. \<not> occurs_at ys j (x # xs)" using zero suc by (auto simp: less_Suc_eq_0_disj)
      ultimately show ?thesis using Some r(1) step by (intro exI [of _ r]) (auto intro!: exI [of _ "Suc k"])
    qed
  qed
qed

subsection \<open>Properties\<close>

text \<open>\<^verbatim>\<open>memmove\<close> copies correctly for every overlap of source and destination: afterwards the
  destination holds the bytes the source held before, and nothing else changed. \<^verbatim>\<open>memcpy\<close> does the same
  when the destination does not start inside the source.\<close>

theorem memmove_correct:
  "memmove m d s n = (\<lambda>a. if d \<le> a \<and> a < d + n then m (s + (a - d)) else m a) \<and>
   (d \<le> s \<or> s + n \<le> d \<longrightarrow> memcpy m d s n = memmove m d s n)"
  by (auto simp: memmove_eq memcpy_def copy_up_eq fun_eq_iff)

theorem memmove_correct_witness:
  "map (memmove of_nat 3 1 4) [0..<8] = [0, 1, 2, 1, 2, 3, 4, 7] \<and>
   memcpy of_nat 1 3 4 = memmove of_nat 1 3 4"
proof -
  have "memcpy of_nat 1 3 4 = memmove of_nat 1 3 4"
    using memmove_correct [of of_nat 1 3 4] by simp
  moreover have "memmove of_nat 3 1 4 = (\<lambda>a. if 3 \<le> a \<and> a < 3 + 4 then of_nat (1 + (a - 3)) else of_nat a)"
    using memmove_correct [of of_nat 3 1 4] by simp
  ultimately show ?thesis by (simp add: upt_rec)
qed

text \<open>On terminated strings \<^verbatim>\<open>strlen\<close> returns the length, \<^verbatim>\<open>strcmp\<close> returns 0 exactly for equal strings
  and a negative number exactly if the first comes first in the order of unsigned bytes, and \<^verbatim>\<open>strncmp\<close>
  returns 0 exactly if the strings agree up to the bound.\<close>

theorem strcmp_correct:
  assumes "str_at m p xs" "str_at m q ys"
  shows "strlen m p = Some (length xs) \<and>
    (\<exists>r. strcmp m p q = Some r \<and> (r = 0 \<longleftrightarrow> xs = ys) \<and> (r < 0 \<longleftrightarrow> bytes_less xs ys)) \<and>
    (strncmp m p q n = 0 \<longleftrightarrow> take n xs = take n ys)"
  using strlen_loop_str [of m p 0 xs] strcmp_str [OF assms] strncmp_prefix [OF assms, of n] assms
  by (simp add: strlen_def)

text \<open>The strings "ab" and "a\<^verbatim>\<open>\xff\<close>" in memory, and "b" behind the first byte of "ab".\<close>

definition demo_mem :: bytes where
  "demo_mem = (\<lambda>_. 0)(0 := 97, 1 := 98, 10 := 97, 11 := 0xFF)"

lemma demo_mem_str: "str_at demo_mem 0 [97, 98]" "str_at demo_mem 10 [97, 0xFF]" "str_at demo_mem 1 [98]"
  by (simp_all add: demo_mem_def)

theorem strcmp_correct_witness:
  "strlen demo_mem 0 = Some 2 \<and> (\<exists>r<0. strcmp demo_mem 0 10 = Some r) \<and> strncmp demo_mem 0 10 1 = 0"
  using strcmp_correct [OF demo_mem_str(1,2), of 1] by auto

text \<open>\<^verbatim>\<open>strchr\<close> finds the first occurrence of a byte (the terminator for byte 0) and \<^verbatim>\<open>strstr\<close> the first
  occurrence of the needle; a null result means there is none.\<close>

theorem strstr_correct:
  assumes "str_at m h xs" "str_at m n ys"
  shows "strchr m h c = Some (if c = 0 then Some (h + length xs)
      else case List.find (\<lambda>i. xs ! i = c) [0..<length xs] of None \<Rightarrow> None | Some i \<Rightarrow> Some (h + i)) \<and>
    (\<exists>r. strstr m h n = Some r \<and>
      (case r of None \<Rightarrow> \<forall>k. \<not> occurs_at ys k xs
       | Some p \<Rightarrow> \<exists>k\<le>length xs. p = h + k \<and> occurs_at ys k xs \<and> (\<forall>j<k. \<not> occurs_at ys j xs)))"
proof (cases ys)
  case Nil
  then show ?thesis using assms strchr_str [OF assms(1)] by (auto simp: strstr_def occurs_at_def)
next
  case (Cons y zs)
  then have "strstr m h n = strstr_loop m h n" using assms(2) by (simp add: strstr_def)
  then show ?thesis using strstr_loop_str [OF assms] strchr_str [OF assms(1)] Cons by simp
qed

theorem strstr_correct_witness:
  "strchr demo_mem 0 98 = Some (Some 1) \<and> strstr demo_mem 0 1 = Some (Some 1)"
proof -
  note s = strstr_correct [OF demo_mem_str(1,3)]
  obtain r where r: "strstr demo_mem 0 1 = Some r" "case r of None \<Rightarrow> \<forall>k. \<not> occurs_at [98] k [97, 98]
       | Some p \<Rightarrow> \<exists>k\<le>length [97, 98 :: u8]. p = 0 + k \<and> occurs_at [98] k [97, 98] \<and> (\<forall>j<k. \<not> occurs_at [98] j [97, 98])"
    using s by blast
  have o: "occurs_at [98] 1 [97, 98]" "\<not> occurs_at [98] 0 [97, 98]" "\<not> occurs_at [98] 2 [97, 98]"
    by (simp_all add: occurs_at_def)
  have "r = Some 1" using r(2) o by (cases r) (auto simp: le_Suc_eq numeral_2_eq_2)
  then show ?thesis using r(1) s [of 98] by (simp add: upt_rec)
qed

end
