(* ===== verification/Fs.thy ===== *)
theory Fs
  imports Bio Kstring
begin

text \<open>
  The file system, \<^verbatim>\<open>kernel/fs.c\<close> with the layout of \<^verbatim>\<open>kernel/fs.h\<close>: block allocation, inodes with direct,
  indirect and double-indirect blocks, directories and path names. A \<^verbatim>\<open>struct inode *\<close> is an index into the
  inode cache. On-disk structures are read from and written to the bytes of a block, little endian.

  As in the buffer cache, the model follows one call at a time: waiting for an inode another process has
  locked, and dereferencing a null pointer, have the result \<open>None\<close>.
\<close>

subsection \<open>Layout (fs.h)\<close>

definition ROOTINO :: u32 where "ROOTINO = 1"
definition NDIRECT :: nat where "NDIRECT = 11"
definition NINDIRECT :: nat where "NINDIRECT = BSIZE div 4"
definition NDINDIRECT :: nat where "NDINDIRECT = NINDIRECT * NINDIRECT"
definition MAXFILE :: nat where "MAXFILE = NDIRECT + NINDIRECT + NDINDIRECT"
definition DIRSIZ :: nat where "DIRSIZ = 62"
definition DIRENT_SIZE :: nat where "DIRENT_SIZE = 64"
definition DINODE_SIZE :: nat where "DINODE_SIZE = 64"
definition IPB :: nat where "IPB = BSIZE div DINODE_SIZE"
definition BPB :: nat where "BPB = BSIZE * 8"
definition NINODE :: nat where "NINODE = 200"
definition T_FREE :: u16 where "T_FREE = 0"
definition T_FILE :: u16 where "T_FILE = 1"
definition T_DIR :: u16 where "T_DIR = 2"
definition T_DEVICE :: u16 where "T_DEVICE = 3"
definition T_BDEVICE :: u16 where "T_BDEVICE = 4"
definition S_IFREG :: u16 where "S_IFREG = 0x8000"
definition S_IFDIR :: u16 where "S_IFDIR = 0x4000"
definition S_IFCHR :: u16 where "S_IFCHR = 0x2000"
definition S_IFBLK :: u16 where "S_IFBLK = 0x6000"

lemmas fs_consts = NDIRECT_def NINDIRECT_def NDINDIRECT_def MAXFILE_def DIRSIZ_def DIRENT_SIZE_def DINODE_SIZE_def
  IPB_def BPB_def NINODE_def BSIZE_def

text \<open>Little-endian fields in an array of bytes.\<close>

definition get16 :: "bytes \<Rightarrow> nat \<Rightarrow> u16" where
  "get16 d i = ucast (d i) OR push_bit 8 (ucast (d (i + 1)))"

definition get32 :: "bytes \<Rightarrow> nat \<Rightarrow> u32" where
  "get32 d i = ucast (d i) OR push_bit 8 (ucast (d (i + 1))) OR push_bit 16 (ucast (d (i + 2))) OR
     push_bit 24 (ucast (d (i + 3)))"

definition put16 :: "nat \<Rightarrow> u16 \<Rightarrow> bytes \<Rightarrow> bytes" where
  "put16 i v d = d(i := ucast v, i + 1 := ucast (drop_bit 8 v))"

definition put32 :: "nat \<Rightarrow> u32 \<Rightarrow> bytes \<Rightarrow> bytes" where
  "put32 i v d = d(i := ucast v, i + 1 := ucast (drop_bit 8 v), i + 2 := ucast (drop_bit 16 v),
     i + 3 := ucast (drop_bit 24 v))"

record superblock =
  magic :: u32
  sbsize :: u32
  nblocks :: u32
  ninodes :: u32
  inodestart :: u32
  bmapstart :: u32

record inode =
  idev :: u32
  inum :: u32
  iref :: int
  ivalid :: bool
  ilocked :: bool
  itype :: u16
  imajor :: u16
  iminor :: u16
  inlink :: u16
  isize :: u32
  iaddrs :: "nat \<Rightarrow> u32"

record stat =
  st_dev :: u32
  st_ino :: u32
  st_mode :: u16
  st_nlink :: u16
  st_size :: u32

record fs_st = bio_st +
  icache :: "nat \<Rightarrow> inode"
  sb :: superblock

definition upd_inode :: "nat \<Rightarrow> (inode \<Rightarrow> inode) \<Rightarrow> 'a fs_st_scheme \<Rightarrow> 'a fs_st_scheme" where
  "upd_inode i f s = s\<lparr>icache := (icache s)(i := f (icache s i))\<rparr>"

definition IBLOCK :: "u32 \<Rightarrow> superblock \<Rightarrow> u32" where
  "IBLOCK i b = i div of_nat IPB + inodestart b"

definition BBLOCK :: "u32 \<Rightarrow> superblock \<Rightarrow> u32" where
  "BBLOCK i b = i div of_nat BPB + bmapstart b"

definition dinode_off :: "u32 \<Rightarrow> nat" where
  "dinode_off i = DINODE_SIZE * (unat i mod IPB)"

text \<open>The caller's pattern \<^verbatim>\<open>bp = bio_read(dev, bn); if (!bp) ...\<close>.\<close>

abbreviation with_block ::
  "u32 \<Rightarrow> u32 \<Rightarrow> ('a fs_st_scheme \<Rightarrow> 'r option) \<Rightarrow> (nat \<Rightarrow> 'a fs_st_scheme \<Rightarrow> 'r option) \<Rightarrow> 'a fs_st_scheme \<Rightarrow> 'r option" where
  "with_block dev bn no yes s \<equiv>
     do { (bp, s) \<leftarrow> bio_read dev bn s; case bp of None \<Rightarrow> no s | Some b \<Rightarrow> yes b s }"

subsection \<open>Superblock and inode cache\<close>

definition fs_readsb :: "u32 \<Rightarrow> superblock \<Rightarrow> 'a fs_st_scheme \<Rightarrow> (superblock \<times> 'a fs_st_scheme) option" where
  "fs_readsb dev sbout s =
     with_block dev 1 (\<lambda>s. Some (sbout, s))
       (\<lambda>b s. let d = bdata (bufs s b) in
          Some (\<lparr>magic = get32 d 0, sbsize = get32 d 4, nblocks = get32 d 8, ninodes = get32 d 12,
                 inodestart = get32 d 16, bmapstart = get32 d 20\<rparr>, bio_release b s)) s"

definition fs_init :: "u32 \<Rightarrow> 'a fs_st_scheme \<Rightarrow> 'a fs_st_scheme option" where
  "fs_init dev s = do { (x, s) \<leftarrow> fs_readsb dev (sb s) s; Some (s\<lparr>sb := x\<rparr>) }"

text \<open>The scan of \<^verbatim>\<open>fs_iget\<close>: the entry for the inode, or the first free one (\<open>vacant\<close>).\<close>

fun iget_scan :: "u32 \<Rightarrow> u32 \<Rightarrow> nat list \<Rightarrow> nat option \<Rightarrow> 'a fs_st_scheme \<Rightarrow> nat option \<times> nat option" where
  "iget_scan dev n [] vacant s = (None, vacant)"
| "iget_scan dev n (i # is) vacant s =
     (let ip = icache s i in
      if iref ip > 0 \<and> idev ip = dev \<and> inum ip = n then (Some i, vacant)
      else iget_scan dev n is (if vacant = None \<and> iref ip = 0 then Some i else vacant) s)"

definition fs_iget :: "u32 \<Rightarrow> u32 \<Rightarrow> 'a fs_st_scheme \<Rightarrow> nat option \<times> 'a fs_st_scheme" where
  "fs_iget dev n s =
     (case iget_scan dev n [0..<NINODE] None s of
        (Some i, _) \<Rightarrow> (Some i, upd_inode i (\<lambda>ip. ip\<lparr>iref := iref ip + 1\<rparr>) s)
      | (None, None) \<Rightarrow> (None, s)
      | (None, Some i) \<Rightarrow>
          (Some i, upd_inode i (\<lambda>ip. ip\<lparr>idev := dev, inum := n, iref := 1, ivalid := False, ilocked := False\<rparr>) s))"

definition load_dinode :: "bytes \<Rightarrow> nat \<Rightarrow> inode \<Rightarrow> inode" where
  "load_dinode d off ip =
     ip\<lparr>itype := get16 d off, imajor := get16 d (off + 2), iminor := get16 d (off + 4), inlink := get16 d (off + 6),
        isize := get32 d (off + 8),
        iaddrs := (\<lambda>i. if i < NDIRECT + 2 then get32 d (off + 12 + 4 * i) else iaddrs ip i)\<rparr>"

definition fs_ilock :: "nat \<Rightarrow> 'a fs_st_scheme \<Rightarrow> 'a fs_st_scheme option" where
  "fs_ilock i s =
     (if iref (icache s i) < 1 then Some s
      else if ilocked (icache s i) then None
      else
        let s = upd_inode i (\<lambda>ip. ip\<lparr>ilocked := True\<rparr>) s in
        if ivalid (icache s i) then Some s
        else
          with_block (idev (icache s i)) (IBLOCK (inum (icache s i)) (sb s)) Some
            (\<lambda>b s. let d = bdata (bufs s b);
                       s = upd_inode i (load_dinode d (dinode_off (inum (icache s i)))) s
                   in Some (upd_inode i (\<lambda>ip. ip\<lparr>ivalid := True\<rparr>) (bio_release b s))) s)"

definition fs_iunlock :: "nat \<Rightarrow> 'a fs_st_scheme \<Rightarrow> 'a fs_st_scheme" where
  "fs_iunlock i s =
     (if \<not> ilocked (icache s i) \<or> iref (icache s i) < 1 then s
      else proc_wakeup (ChInode i) (upd_inode i (\<lambda>ip. ip\<lparr>ilocked := False\<rparr>) s))"

definition store_dinode :: "inode \<Rightarrow> nat \<Rightarrow> bytes \<Rightarrow> bytes" where
  "store_dinode ip off d =
     fold (\<lambda>i d. put32 (off + 12 + 4 * i) (iaddrs ip i) d) [0..<NDIRECT + 2]
       (put32 (off + 8) (isize ip) (put16 (off + 6) (inlink ip) (put16 (off + 4) (iminor ip)
         (put16 (off + 2) (imajor ip) (put16 off (itype ip) d)))))"

definition write_release :: "nat \<Rightarrow> bytes \<Rightarrow> 'a fs_st_scheme \<Rightarrow> 'a fs_st_scheme option" where
  "write_release b d s =
     do { (r, s) \<leftarrow> bio_write b (upd_buf b (\<lambda>u. u\<lparr>bdata := d\<rparr>) s); Some (bio_release b s) }"

definition fs_iupdate :: "nat \<Rightarrow> 'a fs_st_scheme \<Rightarrow> 'a fs_st_scheme option" where
  "fs_iupdate i s =
     with_block (idev (icache s i)) (IBLOCK (inum (icache s i)) (sb s)) Some
       (\<lambda>b s. write_release b (store_dinode (icache s i) (dinode_off (inum (icache s i))) (bdata (bufs s b))) s) s"

subsection \<open>Block allocation\<close>

definition bit_clear :: "bytes \<Rightarrow> nat \<Rightarrow> bool" where
  "bit_clear d bi = (d (bi div 8) AND push_bit (bi mod 8) 1 = 0)"

definition bm_set :: "nat \<Rightarrow> bytes \<Rightarrow> bytes" where
  "bm_set bi d = d(bi div 8 := d (bi div 8) OR push_bit (bi mod 8) 1)"

definition bm_clear :: "nat \<Rightarrow> bytes \<Rightarrow> bytes" where
  "bm_clear bi d = d(bi div 8 := d (bi div 8) AND NOT (push_bit (bi mod 8) 1))"

definition zero_block :: "u32 \<Rightarrow> u32 \<Rightarrow> 'a fs_st_scheme \<Rightarrow> 'a fs_st_scheme option" where
  "zero_block dev blkno s =
     with_block dev blkno Some (\<lambda>b s. write_release b (memset (bdata (bufs s b)) 0 0 BSIZE) s) s"

text \<open>The loop over the bitmap blocks; \<open>b\<close> is the number of the first block a bitmap block describes.\<close>

partial_function (option) balloc_loop :: "u32 \<Rightarrow> u32 \<Rightarrow> 'a fs_st_scheme \<Rightarrow> (u32 \<times> 'a fs_st_scheme) option" where
  "balloc_loop dev b s =
     (if b < sbsize (sb s) then
        with_block dev (BBLOCK b (sb s)) (\<lambda>s. Some (0, s))
          (\<lambda>bp s.
             case List.find (bit_clear (bdata (bufs s bp))) (takeWhile (\<lambda>bi. b + of_nat bi < sbsize (sb s)) [0..<BPB]) of
               Some bi \<Rightarrow>
                 do { s \<leftarrow> write_release bp (bm_set bi (bdata (bufs s bp))) s;
                      let blkno = b + of_nat bi;
                      s \<leftarrow> zero_block dev blkno s;
                      Some (blkno, s) }
             | None \<Rightarrow> balloc_loop dev (b + of_nat BPB) (bio_release bp s)) s
      else Some (0, s))"

definition balloc :: "u32 \<Rightarrow> 'a fs_st_scheme \<Rightarrow> (u32 \<times> 'a fs_st_scheme) option" where
  "balloc dev s = balloc_loop dev 0 s"

definition bfree :: "u32 \<Rightarrow> u32 \<Rightarrow> 'a fs_st_scheme \<Rightarrow> 'a fs_st_scheme option" where
  "bfree dev b s =
     with_block dev (BBLOCK b (sb s)) Some
       (\<lambda>bp s. write_release bp (bm_clear (unat b mod BPB) (bdata (bufs s bp))) s) s"

subsection \<open>Block map of a file\<close>

text \<open>The entry of \<^verbatim>\<open>ip->addrs\<close>, allocated if it is 0; result 0 if that fails.\<close>

definition addr_slot :: "nat \<Rightarrow> nat \<Rightarrow> 'a fs_st_scheme \<Rightarrow> (u32 \<times> 'a fs_st_scheme) option" where
  "addr_slot i k s =
     (let addr = iaddrs (icache s i) k in
      if addr \<noteq> 0 then Some (addr, s)
      else do {
        (addr, s) \<leftarrow> balloc (idev (icache s i)) s;
        if addr = 0 then Some (0, s)
        else Some (addr, upd_inode i (\<lambda>ip. ip\<lparr>iaddrs := (iaddrs ip)(k := addr)\<rparr>) s) })"

text \<open>The entry \<open>k\<close> of the indirect block \<open>bn\<close>, allocated if it is 0.\<close>

definition indirect_slot :: "nat \<Rightarrow> u32 \<Rightarrow> nat \<Rightarrow> 'a fs_st_scheme \<Rightarrow> (u32 \<times> 'a fs_st_scheme) option" where
  "indirect_slot i bn k s =
     with_block (idev (icache s i)) bn (\<lambda>s. Some (0, s))
       (\<lambda>b s.
          let addr = get32 (bdata (bufs s b)) (4 * k) in
          if addr \<noteq> 0 then Some (addr, bio_release b s)
          else do {
            (addr, s) \<leftarrow> balloc (idev (icache s i)) s;
            if addr = 0 then Some (0, bio_release b s)
            else do { s \<leftarrow> write_release b (put32 (4 * k) addr (bdata (bufs s b))) s; Some (addr, s) } }) s"

definition fs_bmap :: "nat \<Rightarrow> u32 \<Rightarrow> 'a fs_st_scheme \<Rightarrow> (u32 \<times> 'a fs_st_scheme) option" where
  "fs_bmap i bn s =
     (if unat bn < NDIRECT then addr_slot i (unat bn) s
      else
        let bn = bn - of_nat NDIRECT in
        if unat bn < NINDIRECT then
          do { (addr, s) \<leftarrow> addr_slot i NDIRECT s;
               if addr = 0 then Some (0, s) else indirect_slot i addr (unat bn) s }
        else
          let bn = bn - of_nat NINDIRECT in
          if unat bn < NDINDIRECT then
            do { (addr, s) \<leftarrow> addr_slot i (NDIRECT + 1) s;
                 if addr = 0 then Some (0, s)
                 else do {
                   (addr, s) \<leftarrow> indirect_slot i addr (unat bn div NINDIRECT) s;
                   if addr = 0 then Some (0, s) else indirect_slot i addr (unat bn mod NINDIRECT) s } }
          else Some (0, s))"

end
