(* ===== verification/Fs_Inode.thy ===== *)
theory Fs_Inode
  imports Fs
begin

text \<open>
  File contents, \<^verbatim>\<open>kernel/fs.c\<close>: reading and writing at an offset, truncation, reference counting, allocation
  of inodes. A user buffer is an array of bytes of its own.
\<close>

subsection \<open>Reading and writing\<close>

text \<open>\<^verbatim>\<open>memmove\<close> between two different arrays.\<close>

definition blit :: "bytes \<Rightarrow> nat \<Rightarrow> bytes \<Rightarrow> nat \<Rightarrow> nat \<Rightarrow> bytes" where
  "blit dst di src si n = (\<lambda>j. if di \<le> j \<and> j < di + n then src (si + (j - di)) else dst j)"

text \<open>The part of the current block that one round of the loops copies.\<close>

definition chunk :: "u32 \<Rightarrow> u32 \<Rightarrow> u32 \<Rightarrow> u32" where
  "chunk off tot n = (let m = of_nat BSIZE - off mod of_nat BSIZE in if m > n - tot then n - tot else m)"

lemma chunk_progress:
  assumes "tot < n"
  shows "0 < unat (chunk off tot n)" "unat tot + unat (chunk off tot n) \<le> unat n"
    "unat (tot + chunk off tot n) = unat tot + unat (chunk off tot n)"
    "unat (chunk off tot n) = min (BSIZE - unat off mod BSIZE) (unat n - unat tot)"
proof -
  let ?m = "of_nat BSIZE - off mod of_nat BSIZE :: u32"
  have B: "unat (of_nat BSIZE :: u32) = BSIZE" by (simp add: BSIZE_def)
  have "unat (off mod of_nat BSIZE) = unat off mod BSIZE" by (simp add: unat_mod B)
  moreover have "unat off mod BSIZE < BSIZE" by (simp add: BSIZE_def)
  ultimately have m: "unat ?m = BSIZE - unat off mod BSIZE"
    by (subst unat_sub) (auto simp: word_le_nat_alt B)
  have d: "unat (n - tot) = unat n - unat tot" using assms by (simp add: unat_sub less_imp_le)
  show c: "unat (chunk off tot n) = min (BSIZE - unat off mod BSIZE) (unat n - unat tot)"
    using m d by (auto simp: chunk_def Let_def word_less_nat_alt min_def)
  then show "0 < unat (chunk off tot n)" "unat tot + unat (chunk off tot n) \<le> unat n"
    using assms \<open>unat off mod BSIZE < BSIZE\<close> by (auto simp: word_less_nat_alt)
  then show "unat (tot + chunk off tot n) = unat tot + unat (chunk off tot n)"
    using unat_less_exp [of n] by (subst unat_plus_if_size) auto
qed

lemma chunk_decrease: "tot < n \<Longrightarrow> unat n - unat (tot + chunk off tot n) < unat n - unat tot"
  using chunk_progress(1-3) [of tot n off] by linarith

function readi_loop :: "nat \<Rightarrow> bytes \<Rightarrow> u32 \<Rightarrow> u32 \<Rightarrow> u32 \<Rightarrow> 'a fs_st_scheme \<Rightarrow> (u32 \<times> bytes \<times> 'a fs_st_scheme) option" where
  "readi_loop i dst off tot n s =
     (if tot < n then
        do {
          (addr, s) \<leftarrow> fs_bmap i (off div of_nat BSIZE) s;
          if addr = 0 then Some (tot, dst, s)
          else
            with_block (idev (icache s i)) addr (\<lambda>s. Some (tot, dst, s))
              (\<lambda>b s.
                 let m = chunk off tot n;
                     dst = blit dst (unat tot) (bdata (bufs s b)) (unat (off mod of_nat BSIZE)) (unat m)
                 in readi_loop i dst (off + m) (tot + m) n (bio_release b s)) s }
      else Some (tot, dst, s))"
  by pat_completeness auto
termination
  by (relation "measure (\<lambda>(i, dst, off, tot, n, s). unat n - unat tot)")
    (auto intro: chunk_decrease)

declare readi_loop.simps [simp del]

definition fs_readi :: "nat \<Rightarrow> bytes \<Rightarrow> u32 \<Rightarrow> u32 \<Rightarrow> 'a fs_st_scheme \<Rightarrow> (int \<times> bytes \<times> 'a fs_st_scheme) option" where
  "fs_readi i dst off n s =
     (let sz = isize (icache s i) in
      if off > sz then Some (0, dst, s)
      else
        let n = (if off + n > sz then sz - off else n)
        in do { (tot, dst, s) \<leftarrow> readi_loop i dst off 0 n s; Some (sint tot, dst, s) })"

function writei_loop :: "nat \<Rightarrow> bytes \<Rightarrow> u32 \<Rightarrow> u32 \<Rightarrow> u32 \<Rightarrow> 'a fs_st_scheme \<Rightarrow> (u32 \<times> u32 \<times> 'a fs_st_scheme) option" where
  "writei_loop i src off tot n s =
     (if tot < n then
        do {
          (addr, s) \<leftarrow> fs_bmap i (off div of_nat BSIZE) s;
          if addr = 0 then Some (tot, off, s)
          else
            with_block (idev (icache s i)) addr (\<lambda>s. Some (tot, off, s))
              (\<lambda>b s.
                 let m = chunk off tot n in
                 do {
                   s \<leftarrow> write_release b (blit (bdata (bufs s b)) (unat (off mod of_nat BSIZE)) src (unat tot) (unat m)) s;
                   writei_loop i src (off + m) (tot + m) n s }) s }
      else Some (tot, off, s))"
  by pat_completeness auto
termination
  by (relation "measure (\<lambda>(i, src, off, tot, n, s). unat n - unat tot)")
    (auto intro: chunk_decrease)

declare writei_loop.simps [simp del]

definition fs_writei :: "nat \<Rightarrow> bytes \<Rightarrow> u32 \<Rightarrow> u32 \<Rightarrow> 'a fs_st_scheme \<Rightarrow> (int \<times> 'a fs_st_scheme) option" where
  "fs_writei i src off n s =
     (if off > isize (icache s i) \<or> off + n < off then Some (-1, s)
      else if unat (off + n) > MAXFILE * BSIZE then Some (-1, s)
      else do {
        (tot, off, s) \<leftarrow> writei_loop i src off 0 n s;
        let s = (if off > isize (icache s i) then upd_inode i (\<lambda>ip. ip\<lparr>isize := off\<rparr>) s else s);
        s \<leftarrow> fs_iupdate i s;
        Some (sint tot, s) })"

subsection \<open>Truncation\<close>

definition set_addr :: "nat \<Rightarrow> nat \<Rightarrow> u32 \<Rightarrow> 'a fs_st_scheme \<Rightarrow> 'a fs_st_scheme" where
  "set_addr i k v s = upd_inode i (\<lambda>ip. ip\<lparr>iaddrs := (iaddrs ip)(k := v)\<rparr>) s"

definition free_direct :: "nat \<Rightarrow> nat \<Rightarrow> 'a fs_st_scheme \<Rightarrow> 'a fs_st_scheme option" where
  "free_direct i k s =
     (if iaddrs (icache s i) k \<noteq> 0 then
        do { s \<leftarrow> bfree (idev (icache s i)) (iaddrs (icache s i) k) s; Some (set_addr i k 0 s) }
      else Some s)"

text \<open>Free every block an indirect block lists, then release its buffer.\<close>

definition free_listed :: "u32 \<Rightarrow> nat \<Rightarrow> 'a fs_st_scheme \<Rightarrow> 'a fs_st_scheme option" where
  "free_listed dev b s =
     do { s \<leftarrow> loop_option (\<lambda>j s. let a = get32 (bdata (bufs s b)) (4 * j) in if a \<noteq> 0 then bfree dev a s else Some s)
              [0..<NINDIRECT] s;
          Some (bio_release b s) }"

definition fs_itrunc :: "nat \<Rightarrow> 'a fs_st_scheme \<Rightarrow> 'a fs_st_scheme option" where
  "fs_itrunc i s =
     do {
       s \<leftarrow> loop_option (free_direct i) [0..<NDIRECT] s;
       s \<leftarrow> (if iaddrs (icache s i) NDIRECT \<noteq> 0 then
               do {
                 s \<leftarrow> with_block (idev (icache s i)) (iaddrs (icache s i) NDIRECT) Some (free_listed (idev (icache s i))) s;
                 s \<leftarrow> bfree (idev (icache s i)) (iaddrs (icache s i) NDIRECT) s;
                 Some (set_addr i NDIRECT 0 s) }
             else Some s);
       s \<leftarrow> (if iaddrs (icache s i) (NDIRECT + 1) \<noteq> 0 then
               do {
                 s \<leftarrow> with_block (idev (icache s i)) (iaddrs (icache s i) (NDIRECT + 1)) Some
                   (\<lambda>b s. do {
                      s \<leftarrow> loop_option (\<lambda>j s.
                             let a = get32 (bdata (bufs s b)) (4 * j) in
                             if a \<noteq> 0 then
                               do { s \<leftarrow> with_block (idev (icache s i)) a Some (free_listed (idev (icache s i))) s;
                                    bfree (idev (icache s i)) a s }
                             else Some s) [0..<NINDIRECT] s;
                      Some (bio_release b s) }) s;
                 s \<leftarrow> bfree (idev (icache s i)) (iaddrs (icache s i) (NDIRECT + 1)) s;
                 Some (set_addr i (NDIRECT + 1) 0 s) }
             else Some s);
       fs_iupdate i (upd_inode i (\<lambda>ip. ip\<lparr>isize := 0\<rparr>) s) }"

text \<open>In \<^verbatim>\<open>fs_itrunc_to\<close> the entries of a buffer that are freed are also set to 0 in it. The second component
  says whether an entry was freed (\<^verbatim>\<open>modified\<close>).\<close>

definition zero_entry :: "nat \<Rightarrow> nat \<Rightarrow> 'a fs_st_scheme \<Rightarrow> 'a fs_st_scheme" where
  "zero_entry b j s = upd_buf b (\<lambda>u. u\<lparr>bdata := put32 (4 * j) 0 (bdata u)\<rparr>) s"

definition trunc_indirect :: "nat \<Rightarrow> nat \<Rightarrow> 'a fs_st_scheme \<Rightarrow> 'a fs_st_scheme option" where
  "trunc_indirect i first_free s =
     (if first_free \<le> NDIRECT + NINDIRECT - 1 \<and> iaddrs (icache s i) NDIRECT \<noteq> 0 then
        with_block (idev (icache s i)) (iaddrs (icache s i) NDIRECT) Some
          (\<lambda>b s. do {
             let start = (if first_free > NDIRECT then first_free - NDIRECT else 0);
             (modified, s) \<leftarrow> loop_option (\<lambda>j (modified, s).
                let a = get32 (bdata (bufs s b)) (4 * j) in
                if a \<noteq> 0 then do { s \<leftarrow> bfree (idev (icache s i)) a s; Some (True, zero_entry b j s) }
                else Some (modified, s)) [start..<NINDIRECT] (False, s);
             s \<leftarrow> (if modified \<and> start > 0 then do { (r, s) \<leftarrow> bio_write b s; Some s } else Some s);
             let s = bio_release b s;
             if start = 0 then
               do { s \<leftarrow> bfree (idev (icache s i)) (iaddrs (icache s i) NDIRECT) s; Some (set_addr i NDIRECT 0 s) }
             else Some s }) s
      else Some s)"

text \<open>The inner loop over an indirect block below the double-indirect one; the boolean is \<^verbatim>\<open>inner_all_freed\<close>.\<close>

definition trunc_inner :: "nat \<Rightarrow> nat \<Rightarrow> nat \<Rightarrow> 'a fs_st_scheme \<Rightarrow> (bool \<times> 'a fs_st_scheme) option" where
  "trunc_inner i b2 start2 s =
     loop_option (\<lambda>j (all, s).
        let a2 = get32 (bdata (bufs s b2)) (4 * j) in
        if a2 = 0 then Some (all, s)
        else if j < start2 then Some (False, s)
        else do { s \<leftarrow> bfree (idev (icache s i)) a2 s; Some (all, zero_entry b2 j s) }) [0..<NINDIRECT] (True, s)"

definition trunc_dindirect :: "nat \<Rightarrow> nat \<Rightarrow> 'a fs_st_scheme \<Rightarrow> 'a fs_st_scheme option" where
  "trunc_dindirect i first_free s =
     (if first_free \<le> NDIRECT + NINDIRECT + NDINDIRECT - 1 \<and> iaddrs (icache s i) (NDIRECT + 1) \<noteq> 0 then
        with_block (idev (icache s i)) (iaddrs (icache s i) (NDIRECT + 1)) Some
          (\<lambda>b s. do {
             let dind_start = (if first_free > NDIRECT + NINDIRECT then first_free - NDIRECT - NINDIRECT else 0);
             let start_idx1 = dind_start div NINDIRECT;
             let start_idx2 = dind_start mod NINDIRECT;
             (all_freed, s) \<leftarrow> loop_option (\<lambda>k (all_freed, s).
                let a = get32 (bdata (bufs s b)) (4 * k) in
                if a = 0 then Some (all_freed, s)
                else if k < start_idx1 then Some (False, s)
                else
                  with_block (idev (icache s i)) a (\<lambda>s. Some (all_freed, s))
                    (\<lambda>b2 s. do {
                       (inner, s) \<leftarrow> trunc_inner i b2 (if k = start_idx1 then start_idx2 else 0) s;
                       if inner then
                         do { s \<leftarrow> bfree (idev (icache s i)) (get32 (bdata (bufs (bio_release b2 s) b)) (4 * k)) (bio_release b2 s);
                              Some (all_freed, zero_entry b k s) }
                       else
                         do { (r, s) \<leftarrow> bio_write b2 s; Some (False, bio_release b2 s) } }) s) [0..<NINDIRECT] (True, s);
             let s = bio_release b s;
             if all_freed then
               do { s \<leftarrow> bfree (idev (icache s i)) (iaddrs (icache s i) (NDIRECT + 1)) s; Some (set_addr i (NDIRECT + 1) 0 s) }
             else Some s }) s
      else Some s)"

definition fs_itrunc_to :: "nat \<Rightarrow> u32 \<Rightarrow> 'a fs_st_scheme \<Rightarrow> (int \<times> 'a fs_st_scheme) option" where
  "fs_itrunc_to i len s =
     (if len \<ge> isize (icache s i) then Some (0, s)
      else if len = 0 then do { s \<leftarrow> fs_itrunc i s; Some (0, s) }
      else do {
        let last_block = (unat len - 1) div BSIZE;
        let first_free = last_block + 1;
        let partial = unat len mod BSIZE;
        s \<leftarrow> (if partial \<noteq> 0 \<and> last_block < NDIRECT \<and> iaddrs (icache s i) last_block \<noteq> 0 then
                with_block (idev (icache s i)) (iaddrs (icache s i) last_block) Some
                  (\<lambda>b s. write_release b (memset (bdata (bufs s b)) partial 0 (BSIZE - partial)) s) s
              else Some s);
        s \<leftarrow> loop_option (free_direct i) [first_free..<NDIRECT] s;
        s \<leftarrow> trunc_indirect i first_free s;
        s \<leftarrow> trunc_dindirect i first_free s;
        s \<leftarrow> fs_iupdate i (upd_inode i (\<lambda>ip. ip\<lparr>isize := len\<rparr>) s);
        Some (0, s) })"

subsection \<open>References\<close>

definition fs_iput :: "nat \<Rightarrow> 'a fs_st_scheme \<Rightarrow> 'a fs_st_scheme option" where
  "fs_iput i s =
     do {
       s \<leftarrow> (if iref (icache s i) = 1 \<and> ivalid (icache s i) \<and> inlink (icache s i) = 0 then
               do {
                 s \<leftarrow> fs_ilock i s;
                 s \<leftarrow> fs_itrunc i s;
                 s \<leftarrow> fs_iupdate i (upd_inode i (\<lambda>ip. ip\<lparr>itype := 0\<rparr>) s);
                 Some (fs_iunlock i (upd_inode i (\<lambda>ip. ip\<lparr>ivalid := False\<rparr>) s)) }
             else Some s);
       Some (upd_inode i (\<lambda>ip. ip\<lparr>iref := iref ip - 1\<rparr>) s) }"

definition fs_idup :: "nat \<Rightarrow> 'a fs_st_scheme \<Rightarrow> nat \<times> 'a fs_st_scheme" where
  "fs_idup i s = (i, upd_inode i (\<lambda>ip. ip\<lparr>iref := iref ip + 1\<rparr>) s)"

definition fs_iunlockput :: "nat \<Rightarrow> 'a fs_st_scheme \<Rightarrow> 'a fs_st_scheme option" where
  "fs_iunlockput i s = fs_iput i (fs_iunlock i s)"

definition fs_stati :: "inode \<Rightarrow> stat" where
  "fs_stati ip =
     \<lparr>st_dev = idev ip, st_ino = inum ip,
      st_mode = (if itype ip = T_FILE then S_IFREG else if itype ip = T_DIR then S_IFDIR
                 else if itype ip = T_DEVICE then S_IFCHR else if itype ip = T_BDEVICE then S_IFBLK else 0),
      st_nlink = inlink ip, st_size = isize ip\<rparr>"

text \<open>The loop of \<^verbatim>\<open>fs_ialloc\<close> over the inode numbers; a block that cannot be read is skipped.\<close>

fun ialloc_loop :: "u32 \<Rightarrow> u16 \<Rightarrow> nat list \<Rightarrow> 'a fs_st_scheme \<Rightarrow> (nat option \<times> 'a fs_st_scheme) option" where
  "ialloc_loop dev type [] s = Some (None, s)"
| "ialloc_loop dev type (n # ns) s =
     (let off = dinode_off (of_nat n) in
      with_block dev (IBLOCK (of_nat n) (sb s)) (ialloc_loop dev type ns)
       (\<lambda>b s.
          if get16 (bdata (bufs s b)) off = 0 then
            do { s \<leftarrow> write_release b (put16 off type (memset (bdata (bufs s b)) off 0 DINODE_SIZE)) s;
                 Some (fs_iget dev (of_nat n) s) }
          else ialloc_loop dev type ns (bio_release b s)) s)"

definition fs_ialloc :: "u32 \<Rightarrow> u16 \<Rightarrow> 'a fs_st_scheme \<Rightarrow> (nat option \<times> 'a fs_st_scheme) option" where
  "fs_ialloc dev type s = ialloc_loop dev type [1..<unat (ninodes (sb s))] s"

end
