(* ===== verification/Fs_Dir.thy ===== *)
theory Fs_Dir
  imports Fs_Inode
begin

text \<open>
  Directories and path names, \<^verbatim>\<open>kernel/fs.c\<close>. A directory entry is 64 bytes: a 16-bit inode number and a
  name of 62 bytes, padded with zeros and not terminated when it is full. A path is the list of its bytes
  before the terminator. \<^verbatim>\<open>char name[DIRSIZ]\<close> is an array of bytes.
\<close>

definition SLASH :: u8 where "SLASH = 47"

text \<open>The string routines take pointers into one memory; two arrays are put side by side.\<close>

definition beside :: "bytes \<Rightarrow> bytes \<Rightarrow> bytes" where
  "beside a b = (\<lambda>i. if i < DIRSIZ then a i else b (i - DIRSIZ))"

definition de_inum :: "bytes \<Rightarrow> u16" where
  "de_inum de = get16 de 0"

definition de_name :: "bytes \<Rightarrow> bytes" where
  "de_name de = (\<lambda>i. de (i + 2))"

definition name_matches :: "bytes \<Rightarrow> bytes \<Rightarrow> bool" where
  "name_matches name de = (strncmp (beside name (de_name de)) 0 DIRSIZ DIRSIZ = 0)"

definition make_dirent :: "bytes \<Rightarrow> u32 \<Rightarrow> bytes \<Rightarrow> bytes" where
  "make_dirent name n de =
     (let nm = strncpy (beside (de_name de) name) 0 DIRSIZ DIRSIZ
      in put16 0 (ucast n) (\<lambda>i. if 2 \<le> i \<and> i < 2 + DIRSIZ then nm (i - 2) else de i))"

text \<open>The loop of \<^verbatim>\<open>fs_dirlookup\<close>; with the inode it returns the offset of the entry (\<^verbatim>\<open>*poff\<close>).\<close>

partial_function (option) dirlookup_loop ::
  "nat \<Rightarrow> bytes \<Rightarrow> u32 \<Rightarrow> bytes \<Rightarrow> 'a fs_st_scheme \<Rightarrow> ((nat option \<times> u32 option) \<times> 'a fs_st_scheme) option" where
  "dirlookup_loop dp name off de s =
     (if off < isize (icache s dp) then
        do {
          (r, de, s) \<leftarrow> fs_readi dp de off (of_nat DIRENT_SIZE) s;
          if r \<noteq> int DIRENT_SIZE then Some ((None, None), s)
          else if de_inum de = 0 then dirlookup_loop dp name (off + of_nat DIRENT_SIZE) de s
          else if name_matches name de then
            (let (ip, s) = fs_iget (idev (icache s dp)) (ucast (de_inum de)) s in Some ((ip, Some off), s))
          else dirlookup_loop dp name (off + of_nat DIRENT_SIZE) de s }
      else Some ((None, None), s))"

definition fs_dirlookup :: "nat \<Rightarrow> bytes \<Rightarrow> 'a fs_st_scheme \<Rightarrow> ((nat option \<times> u32 option) \<times> 'a fs_st_scheme) option" where
  "fs_dirlookup dp name s =
     (if itype (icache s dp) \<noteq> T_DIR then Some ((None, None), s)
      else dirlookup_loop dp name 0 (\<lambda>_. 0) s)"

text \<open>The scan for a free entry: its offset and the last entry read, or \<open>None\<close> for a short read.\<close>

partial_function (option) free_entry_loop ::
  "nat \<Rightarrow> u32 \<Rightarrow> bytes \<Rightarrow> 'a fs_st_scheme \<Rightarrow> ((u32 \<times> bytes) option \<times> 'a fs_st_scheme) option" where
  "free_entry_loop dp off de s =
     (if off < isize (icache s dp) then
        do {
          (r, de, s) \<leftarrow> fs_readi dp de off (of_nat DIRENT_SIZE) s;
          if r \<noteq> int DIRENT_SIZE then Some (None, s)
          else if de_inum de = 0 then Some (Some (off, de), s)
          else free_entry_loop dp (off + of_nat DIRENT_SIZE) de s }
      else Some (Some (off, de), s))"

definition fs_dirlink :: "nat \<Rightarrow> bytes \<Rightarrow> u32 \<Rightarrow> 'a fs_st_scheme \<Rightarrow> (int \<times> 'a fs_st_scheme) option" where
  "fs_dirlink dp name n s =
     (if itype (icache s dp) \<noteq> T_DIR then Some (-1, s)
      else do {
        ((ip, _), s) \<leftarrow> fs_dirlookup dp name s;
        case ip of
          Some i \<Rightarrow> do { s \<leftarrow> fs_iput i s; Some (-1, s) }
        | None \<Rightarrow>
            do {
              (e, s) \<leftarrow> free_entry_loop dp 0 (\<lambda>_. 0) s;
              case e of
                None \<Rightarrow> Some (-1, s)
              | Some (off, de) \<Rightarrow>
                  do {
                    (r, s) \<leftarrow> fs_writei dp (make_dirent name n de) off (of_nat DIRENT_SIZE) s;
                    Some (if r \<noteq> int DIRENT_SIZE then -1 else 0, s) } } })"

partial_function (option) isdirempty_loop :: "nat \<Rightarrow> u32 \<Rightarrow> bytes \<Rightarrow> 'a fs_st_scheme \<Rightarrow> (int \<times> 'a fs_st_scheme) option" where
  "isdirempty_loop dp off de s =
     (if off < isize (icache s dp) then
        do {
          (r, de, s) \<leftarrow> fs_readi dp de off (of_nat DIRENT_SIZE) s;
          if r \<noteq> int DIRENT_SIZE then Some (1, s)
          else if de_inum de \<noteq> 0 then Some (0, s)
          else isdirempty_loop dp (off + of_nat DIRENT_SIZE) de s }
      else Some (1, s))"

definition fs_isdirempty :: "nat \<Rightarrow> 'a fs_st_scheme \<Rightarrow> (int \<times> 'a fs_st_scheme) option" where
  "fs_isdirempty dp s = isdirempty_loop dp (of_nat (2 * DIRENT_SIZE)) (\<lambda>_. 0) s"

subsection \<open>Path names\<close>

definition skipelem :: "u8 list \<Rightarrow> bytes \<Rightarrow> (u8 list \<times> bytes) option" where
  "skipelem path name =
     (let path = dropWhile (\<lambda>c. c = SLASH) path in
      if path = [] then None
      else
        let elem = takeWhile (\<lambda>c. c \<noteq> SLASH) path;
            path = dropWhile (\<lambda>c. c \<noteq> SLASH) path;
            len = length elem;
            name = (if len \<ge> DIRSIZ then blit name 0 (\<lambda>i. elem ! i) 0 DIRSIZ
                    else (blit name 0 (\<lambda>i. elem ! i) 0 len)(len := 0))
        in Some (dropWhile (\<lambda>c. c = SLASH) path, name))"

lemma length_dropWhile: "length (dropWhile P xs) \<le> length xs"
  by (induction xs) auto

lemma skipelem_shorter: "skipelem path name = Some (rest, name') \<Longrightarrow> length rest < length path"
proof -
  assume *: "skipelem path name = Some (rest, name')"
  let ?p = "dropWhile (\<lambda>c. c = SLASH) path"
  have ne: "?p \<noteq> []" and rest: "rest = dropWhile (\<lambda>c. c = SLASH) (dropWhile (\<lambda>c. c \<noteq> SLASH) ?p)"
    using * by (auto simp: skipelem_def Let_def split: if_splits)
  obtain c cs where p: "?p = c # cs" using ne by (cases ?p) auto
  then have "c \<noteq> SLASH" using hd_dropWhile [OF ne] by simp
  then have "length (dropWhile (\<lambda>c. c \<noteq> SLASH) ?p) < length ?p" using p length_dropWhile [of _ cs] by (simp add: le_imp_less_Suc)
  then show ?thesis
    unfolding rest using length_dropWhile [of "\<lambda>c. c = SLASH"] by (metis (no_types, lifting) le_less_trans less_le_trans)
qed

function namex_loop :: "nat \<Rightarrow> u8 list \<Rightarrow> bool \<Rightarrow> bytes \<Rightarrow> 'a fs_st_scheme \<Rightarrow> ((nat option \<times> bytes) \<times> 'a fs_st_scheme) option" where
  "namex_loop ip path nameiparent name s =
     (case skipelem path name of
        None \<Rightarrow>
          if nameiparent then do { s \<leftarrow> fs_iput ip s; Some ((None, name), s) }
          else Some ((Some ip, name), s)
      | Some (path, name) \<Rightarrow>
          do {
            s \<leftarrow> fs_ilock ip s;
            if itype (icache s ip) \<noteq> T_DIR then do { s \<leftarrow> fs_iunlockput ip s; Some ((None, name), s) }
            else if nameiparent \<and> path = [] then Some ((Some ip, name), fs_iunlock ip s)
            else do {
              ((nxt, _), s) \<leftarrow> fs_dirlookup ip name s;
              s \<leftarrow> fs_iunlockput ip s;
              case nxt of
                None \<Rightarrow> Some ((None, name), s)
              | Some nip \<Rightarrow> namex_loop nip path nameiparent name s } })"
  by pat_completeness auto
termination
  by (relation "measure (\<lambda>(ip, path, nameiparent, name, s). length path)") (auto dest: skipelem_shorter)

declare namex_loop.simps [simp del]

text \<open>A null inode, from a full inode cache or a process without working directory, would be dereferenced.\<close>

definition namex :: "u8 list \<Rightarrow> bool \<Rightarrow> bytes \<Rightarrow> 'a fs_st_scheme \<Rightarrow> ((nat option \<times> bytes) \<times> 'a fs_st_scheme) option" where
  "namex path nameiparent name s =
     do {
       (ip, s) \<leftarrow> (if path \<noteq> [] \<and> hd path = SLASH then
                     (case fs_iget 0 ROOTINO s of (None, s) \<Rightarrow> None | (Some i, s) \<Rightarrow> Some (i, s))
                   else do { p \<leftarrow> cur s; d \<leftarrow> cwd p; Some (fs_idup d s) });
       namex_loop ip path nameiparent name s }"

definition fs_namei :: "u8 list \<Rightarrow> 'a fs_st_scheme \<Rightarrow> (nat option \<times> 'a fs_st_scheme) option" where
  "fs_namei path s = do { ((ip, _), s) \<leftarrow> namex path False (\<lambda>_. 0) s; Some (ip, s) }"

definition fs_nameiparent :: "u8 list \<Rightarrow> bytes \<Rightarrow> 'a fs_st_scheme \<Rightarrow> ((nat option \<times> bytes) \<times> 'a fs_st_scheme) option" where
  "fs_nameiparent path name s = namex path True name s"

subsection \<open>Creating a file\<close>

definition dot_name :: bytes where "dot_name = (\<lambda>_. 0)(0 := 46)"
definition dotdot_name :: bytes where "dotdot_name = (\<lambda>_. 0)(0 := 46, 1 := 46)"

definition set_nlink :: "nat \<Rightarrow> u16 \<Rightarrow> 'a fs_st_scheme \<Rightarrow> 'a fs_st_scheme option" where
  "set_nlink i n s = fs_iupdate i (upd_inode i (\<lambda>ip. ip\<lparr>inlink := n\<rparr>) s)"

definition fs_create :: "u8 list \<Rightarrow> u16 \<Rightarrow> u16 \<Rightarrow> u16 \<Rightarrow> 'a fs_st_scheme \<Rightarrow> (nat option \<times> 'a fs_st_scheme) option" where
  "fs_create path type major minor s =
     do {
       ((r, name), s) \<leftarrow> fs_nameiparent path (\<lambda>_. 0) s;
       case r of
         None \<Rightarrow> Some (None, s)
       | Some dp \<Rightarrow>
           do {
             s \<leftarrow> fs_ilock dp s;
             ((old, _), s) \<leftarrow> fs_dirlookup dp name s;
             case old of
               Some ip \<Rightarrow>
                 do {
                   s \<leftarrow> fs_iunlockput dp s;
                   s \<leftarrow> fs_ilock ip s;
                   if type = T_FILE \<and> itype (icache s ip) = T_FILE then Some (Some ip, s)
                   else do { s \<leftarrow> fs_iunlockput ip s; Some (None, s) } }
             | None \<Rightarrow>
                 do {
                   (new, s) \<leftarrow> fs_ialloc (idev (icache s dp)) type s;
                   case new of
                     None \<Rightarrow> do { s \<leftarrow> fs_iunlockput dp s; Some (None, s) }
                   | Some ip \<Rightarrow>
                       do {
                         s \<leftarrow> fs_ilock ip s;
                         let s = upd_inode ip (\<lambda>q. q\<lparr>imajor := major, iminor := minor, inlink := 1\<rparr>) s;
                         s \<leftarrow> fs_iupdate ip s;
                         (fail, s) \<leftarrow>
                           (if type = T_DIR then
                              do {
                                s \<leftarrow> set_nlink dp (inlink (icache s dp) + 1) s;
                                (r1, s) \<leftarrow> fs_dirlink ip dot_name (inum (icache s ip)) s;
                                (r2, s) \<leftarrow> (if r1 < 0 then Some (r1, s) else fs_dirlink ip dotdot_name (inum (icache s dp)) s);
                                if r2 < 0 then
                                  do {
                                    s \<leftarrow> set_nlink ip 0 s;
                                    s \<leftarrow> fs_iunlockput ip s;
                                    s \<leftarrow> set_nlink dp (inlink (icache s dp) - 1) s;
                                    s \<leftarrow> fs_iunlockput dp s;
                                    Some (True, s) }
                                else Some (False, s) }
                            else Some (False, s));
                         if fail then Some (None, s)
                         else
                           do {
                             (r3, s) \<leftarrow> fs_dirlink dp name (inum (icache s ip)) s;
                             if r3 < 0 then
                               do {
                                 s \<leftarrow> (if type = T_DIR then set_nlink dp (inlink (icache s dp) - 1) s else Some s);
                                 s \<leftarrow> set_nlink ip 0 s;
                                 s \<leftarrow> fs_iunlockput ip s;
                                 s \<leftarrow> fs_iunlockput dp s;
                                 Some (None, s) }
                             else do { s \<leftarrow> fs_iunlockput dp s; Some (Some ip, s) } } } } } }"

end
