(* ===== verification/Console.thy ===== *)
theory Console
  imports Fs_Dir
begin

text \<open>
  The serial port and the console device, \<^verbatim>\<open>kernel/uart.c\<close> and \<^verbatim>\<open>kernel/console.c\<close>. The hardware is the list
  of bytes received and not yet read from the FIFO, and the list of bytes sent; waiting for room in the
  transmit FIFO is not modelled. Set-up of the registers is left out.
\<close>

definition UART_RX_BUF_SIZE :: nat where "UART_RX_BUF_SIZE = 64"

record uart_ring =
  rxbuf :: bytes
  rxhead :: u32
  rxtail :: u32

record con_st = fs_st +
  uart_rx :: uart_ring
  fg_pgid :: int
  console_raw_mode :: bool
  rx_fifo :: "u8 list"
  tx_sent :: "u8 list"

type_synonym 'a con_schedule = "('a con_st_scheme \<Rightarrow> 'a con_st_scheme) list"

subsection \<open>uart.c\<close>

definition uart_putc :: "u8 \<Rightarrow> 'a con_st_scheme \<Rightarrow> 'a con_st_scheme" where
  "uart_putc c s = s\<lparr>tx_sent := tx_sent s @ [c]\<rparr>"

fun uart_puts :: "u8 list \<Rightarrow> 'a con_st_scheme \<Rightarrow> 'a con_st_scheme" where
  "uart_puts [] s = s"
| "uart_puts (c # cs) s = uart_puts cs (uart_putc c (if c = 10 then uart_putc 13 s else s))"

definition uart_getc_nb :: "'a con_st_scheme \<Rightarrow> int \<times> 'a con_st_scheme" where
  "uart_getc_nb s =
     (case rx_fifo s of [] \<Rightarrow> (-1, s) | c # cs \<Rightarrow> (uint c, s\<lparr>rx_fifo := cs\<rparr>))"

text \<open>With an empty FIFO the loop of \<^verbatim>\<open>uart_getc\<close> does not end.\<close>

definition uart_getc :: "'a con_st_scheme \<Rightarrow> (u8 \<times> 'a con_st_scheme) option" where
  "uart_getc s = (case rx_fifo s of [] \<Rightarrow> None | c # cs \<Rightarrow> Some (c, s\<lparr>rx_fifo := cs\<rparr>))"

definition uart_init_irq :: "'a con_st_scheme \<Rightarrow> 'a con_st_scheme" where
  "uart_init_irq s = s\<lparr>uart_rx := (uart_rx s)\<lparr>rxhead := 0, rxtail := 0\<rparr>\<rparr>"

definition console_set_raw :: "int \<Rightarrow> 'a con_st_scheme \<Rightarrow> 'a con_st_scheme" where
  "console_set_raw raw s = s\<lparr>console_raw_mode := (raw \<noteq> 0)\<rparr>"

definition console_get_raw :: "'a con_st_scheme \<Rightarrow> bool" where
  "console_get_raw s = console_raw_mode s"

definition console_set_fg_pgid :: "int \<Rightarrow> 'a con_st_scheme \<Rightarrow> 'a con_st_scheme" where
  "console_set_fg_pgid grp s = (if grp \<ge> 0 then s\<lparr>fg_pgid := grp\<rparr> else s)"

definition console_get_fg_pgid :: "'a con_st_scheme \<Rightarrow> int" where
  "console_get_fg_pgid s = fg_pgid s"

definition ring_put :: "u8 \<Rightarrow> uart_ring \<Rightarrow> bool \<times> uart_ring" where
  "ring_put c u =
     (let nx = (rxhead u + 1) mod of_nat UART_RX_BUF_SIZE in
      if nx \<noteq> rxtail u then (True, u\<lparr>rxbuf := (rxbuf u)(unat (rxhead u) := c), rxhead := nx\<rparr>)
      else (False, u))"

definition fg_signal :: "int \<Rightarrow> 'a con_st_scheme \<Rightarrow> 'a con_st_scheme" where
  "fg_signal sig s =
     (let grp = console_get_fg_pgid s in if grp > 0 then snd (proc_signal_pgrp grp sig s) else s)"

text \<open>The body of the loop over the received bytes; the boolean is \<^verbatim>\<open>got_data\<close>.\<close>

definition uart_rx_byte :: "u8 \<Rightarrow> bool \<times> 'a con_st_scheme \<Rightarrow> bool \<times> 'a con_st_scheme" where
  "uart_rx_byte c = (\<lambda>(got, s).
     if \<not> console_get_raw s \<and> c = 0x03 then (got, fg_signal SIGINT s)
     else if \<not> console_get_raw s \<and> c = 0x1A then (got, fg_signal SIGTSTP s)
     else let (ok, u) = ring_put c (uart_rx s) in (got \<or> ok, s\<lparr>uart_rx := u\<rparr>))"

definition uart_irq_handler :: "'a con_st_scheme \<Rightarrow> 'a con_st_scheme" where
  "uart_irq_handler s =
     (let (got, s) = fold uart_rx_byte (rx_fifo s) (False, s\<lparr>rx_fifo := []\<rparr>)
      in if got then proc_wakeup ChUart s else s)"

function uart_read_loop :: "bytes \<Rightarrow> nat \<Rightarrow> nat \<Rightarrow> 'a con_schedule \<Rightarrow> 'a con_st_scheme \<Rightarrow>
    (int \<times> bytes \<times> 'a con_st_scheme \<times> 'a con_schedule) option" where
  "uart_read_loop buf len i es s =
     (if i < len then
        if rxhead (uart_rx s) = rxtail (uart_rx s) then
          do {
            (r, s, es) \<leftarrow> proc_wait ChUart es s;
            if r < 0 then Some (if i > 0 then int i else -EINTR, buf, s, es)
            else uart_read_loop buf len i es s }
        else
          uart_read_loop (buf(i := rxbuf (uart_rx s) (unat (rxtail (uart_rx s))))) len (i + 1) es
            (s\<lparr>uart_rx := (uart_rx s)\<lparr>rxtail := (rxtail (uart_rx s) + 1) mod of_nat UART_RX_BUF_SIZE\<rparr>\<rparr>)
      else Some (int i, buf, s, es))"
  by pat_completeness auto
termination
  by (relation "measures [\<lambda>(buf, len, i, es, s). length es, \<lambda>(buf, len, i, es, s). len - i]")
    (auto dest: proc_wait_shorter)

declare uart_read_loop.simps [simp del]

definition uart_read :: "bytes \<Rightarrow> nat \<Rightarrow> 'a con_schedule \<Rightarrow> 'a con_st_scheme \<Rightarrow>
    (int \<times> bytes \<times> 'a con_st_scheme \<times> 'a con_schedule) option" where
  "uart_read buf len es s = uart_read_loop buf len 0 es s"

definition uart_poll :: "'a con_st_scheme \<Rightarrow> bool" where
  "uart_poll s = (rxhead (uart_rx s) \<noteq> rxtail (uart_rx s))"

definition uart_poll_timeout :: "u64 \<Rightarrow> 'a con_schedule \<Rightarrow> 'a con_st_scheme \<Rightarrow> (int \<times> 'a con_st_scheme \<times> 'a con_schedule) option" where
  "uart_poll_timeout n es s =
     (if uart_poll s then Some (1, s, es)
      else if n = 0 then Some (0, s, es)
      else do {
        (r, s, es) \<leftarrow> proc_wait_timeout ChUart n es s;
        if r < 0 then Some (-EINTR, s, es) else Some (if uart_poll s then 1 else 0, s, es) })"

subsection \<open>console.c\<close>

text \<open>A length passed as \<^verbatim>\<open>int\<close> becomes \<^verbatim>\<open>unsigned long\<close>: a negative one is a huge one.\<close>

definition ulong_of_int :: "int \<Rightarrow> nat" where
  "ulong_of_int n = unat (word_of_int n :: u64)"

definition console_read :: "bytes \<Rightarrow> int \<Rightarrow> 'a con_schedule \<Rightarrow> 'a con_st_scheme \<Rightarrow>
    (int \<times> bytes \<times> 'a con_st_scheme \<times> 'a con_schedule) option" where
  "console_read dst n es s =
     (if fg_pgid s > 0 then
        do {
          p \<leftarrow> cur s;
          if pgid p \<noteq> fg_pgid s then Some (-1, dst, snd (proc_signal_pgrp (pgid p) SIGTTIN s), es)
          else uart_read dst (ulong_of_int n) es s }
      else uart_read dst (ulong_of_int n) es s)"

definition console_write :: "bytes \<Rightarrow> int \<Rightarrow> 'a con_st_scheme \<Rightarrow> int \<times> 'a con_st_scheme" where
  "console_write src n s = (n, fold (\<lambda>i. uart_putc (src i)) [0..<nat n] s)"

definition nullread :: "bytes \<Rightarrow> int \<Rightarrow> int \<times> bytes" where
  "nullread dst n = (0, dst)"

definition nullwrite :: "bytes \<Rightarrow> int \<Rightarrow> int" where
  "nullwrite src n = n"

subsection \<open>The receive ring as a queue\<close>

definition ring_ok :: "uart_ring \<Rightarrow> bool" where
  "ring_ok u \<longleftrightarrow> unat (rxhead u) < 64 \<and> unat (rxtail u) < 64"

definition rlen :: "uart_ring \<Rightarrow> nat" where
  "rlen u = (unat (rxhead u) + 64 - unat (rxtail u)) mod 64"

definition rqueue :: "uart_ring \<Rightarrow> u8 list" where
  "rqueue u = map (\<lambda>k. rxbuf u ((unat (rxtail u) + k) mod 64)) [0..<rlen u]"

lemma length_rqueue [simp]: "length (rqueue u) = rlen u"
  by (simp add: rqueue_def)

lemma ring_next: "unat (x :: u32) < 64 \<Longrightarrow> unat ((x + 1) mod of_nat UART_RX_BUF_SIZE) = (unat x + 1) mod 64"
  by (simp add: UART_RX_BUF_SIZE_def unat_mod unat_word_ariths)

lemma rlen_less: "rlen u < 64"
  by (simp add: rlen_def)

lemma rlen_if:
  "ring_ok u \<Longrightarrow> rlen u = (if unat (rxtail u) \<le> unat (rxhead u) then unat (rxhead u) - unat (rxtail u)
     else unat (rxhead u) + 64 - unat (rxtail u))"
proof -
  assume ok: "ring_ok u"
  have "(h + 64 - t) mod 64 = (if t \<le> h then h - t else h + 64 - t)" if "h < 64" "t < 64" for h t :: nat
  proof (cases "t \<le> h")
    case True
    then have "h + 64 - t = (h - t) + 64" by simp
    then show ?thesis using True that by (simp only: mod_add_self2) simp
  qed (use that in simp)
  then show ?thesis using ok by (simp add: rlen_def ring_ok_def)
qed

lemma succ_mod64: "x < 64 \<Longrightarrow> Suc x mod 64 = (if x = 63 then 0 else Suc x)"
  by auto

lemma rlen_0: "ring_ok u \<Longrightarrow> rlen u = 0 \<longleftrightarrow> rxhead u = rxtail u"
proof -
  assume ok: "ring_ok u"
  have "rlen u = 0 \<longleftrightarrow> unat (rxhead u) = unat (rxtail u)"
    using ok by (auto simp: rlen_if ring_ok_def)
  then show ?thesis by (simp add: word_unat_eq_iff)
qed

lemma ring_put_queue:
  assumes "ring_ok u"
  shows "ring_put c u = (rlen u < 63, snd (ring_put c u)) \<and> ring_ok (snd (ring_put c u)) \<and>
    rqueue (snd (ring_put c u)) = (if rlen u < 63 then rqueue u @ [c] else rqueue u)"
proof -
  let ?h = "unat (rxhead u)" and ?t = "unat (rxtail u)"
  have b: "?h < 64" "?t < 64" using assms by (auto simp: ring_ok_def)
  note nx = ring_next [OF b(1)]
  have full: "(rxhead u + 1) mod of_nat UART_RX_BUF_SIZE = rxtail u \<longleftrightarrow> rlen u = 63"
    using b by (auto simp: rlen_if [OF assms] word_unat_eq_iff nx succ_mod64 split: if_splits)
  show ?thesis
  proof (cases "rlen u = 63")
    case True
    then show ?thesis using assms full by (simp add: ring_put_def)
  next
    case False
    then have lt: "rlen u < 63" using rlen_less [of u] by linarith
    let ?u = "u\<lparr>rxbuf := (rxbuf u)(?h := c), rxhead := (rxhead u + 1) mod of_nat UART_RX_BUF_SIZE\<rparr>"
    have p: "ring_put c u = (True, ?u)" using False full by (simp add: ring_put_def)
    have ok: "ring_ok ?u" using b nx by (simp add: ring_ok_def)
    have len: "rlen ?u = Suc (rlen u)"
      using lt b by (auto simp: rlen_if [OF ok] rlen_if [OF assms] nx succ_mod64 split: if_splits)
    have pos: "(?t + rlen u) mod 64 = ?h" using b by (auto simp: rlen_if [OF assms])
    have other: "(?t + k) mod 64 \<noteq> ?h" if "k < rlen u" for k
    proof
      assume "(?t + k) mod 64 = ?h"
      then have "(?t + k) mod 64 = (?t + rlen u) mod 64" using pos by simp
      then have "64 dvd rlen u - k" using that mod_eq_dvd_iff_nat [of "?t + k" "?t + rlen u" 64] by simp
      then show False using that lt by (auto dest: dvd_imp_le)
    qed
    have "rqueue ?u = rqueue u @ [c]" unfolding rqueue_def len using other pos by simp
    then show ?thesis using p lt b nx by (simp add: ring_ok_def)
  qed
qed

lemma ring_get:
  assumes "ring_ok u" "rqueue u = x # xs"
  defines "u' \<equiv> u\<lparr>rxtail := (rxtail u + 1) mod of_nat UART_RX_BUF_SIZE\<rparr>"
  shows "rxbuf u (unat (rxtail u)) = x" "rqueue u' = xs" "ring_ok u'" "rxhead u \<noteq> rxtail u"
proof -
  let ?h = "unat (rxhead u)" and ?t = "unat (rxtail u)"
  have b: "?h < 64" "?t < 64" using assms(1) by (auto simp: ring_ok_def)
  note nx = ring_next [OF b(2)]
  have pos: "0 < rlen u" using assms(2) length_rqueue [of u] by (metis length_Cons zero_less_Suc)
  then show "rxhead u \<noteq> rxtail u" using rlen_0 [OF assms(1)] by simp
  show ok': "ring_ok u'" using b nx by (simp add: u'_def ring_ok_def)
  have len: "rlen u = Suc (rlen u')"
    using pos b by (auto simp: rlen_if [OF ok' [unfolded u'_def]] rlen_if [OF assms(1)] u'_def nx succ_mod64 split: if_splits)
  have idx: "(unat (rxtail u') + k) mod 64 = (?t + Suc k) mod 64" for k
    unfolding u'_def using nx by (simp add: mod_add_left_eq)
  have "rqueue u = rxbuf u (?t mod 64) # rqueue u'"
    unfolding rqueue_def len by (simp only: idx) (simp add: u'_def upt_conv_Cons map_Suc_upt [symmetric] del: upt_Suc)
  then show "rxbuf u ?t = x" "rqueue u' = xs" using assms(2) b by simp_all
qed

subsection \<open>The receive interrupt\<close>

text \<open>The bytes that reach the ring: in cooked mode control-C and control-Z do not.\<close>

definition kept :: "bool \<Rightarrow> u8 list \<Rightarrow> u8 list" where
  "kept raw cs = filter (\<lambda>c. raw \<or> c \<noteq> 0x03 \<and> c \<noteq> 0x1A) cs"

text \<open>The signal bits the received bytes raise in a process of the foreground group.\<close>

definition raised :: "bool \<Rightarrow> u8 list \<Rightarrow> nat \<Rightarrow> bool" where
  "raised raw cs n \<longleftrightarrow> \<not> raw \<and> (0x03 \<in> set cs \<and> n = 2 \<or> 0x1A \<in> set cs \<and> n = 20)"

definition in_fg :: "'a con_st_scheme \<Rightarrow> nat \<Rightarrow> bool" where
  "in_fg s i \<longleftrightarrow> fg_pgid s > 0 \<and> live s i \<and> pgid (procs s i) = fg_pgid s"

lemma fg_signal_eq:
  "1 \<le> sig \<Longrightarrow> sig < 32 \<Longrightarrow>
   fg_signal sig s = s\<lparr>procs := (\<lambda>i. if in_fg s i then deliver sig (procs s i) else procs s i)\<rparr>"
  by (auto simp: fg_signal_def console_get_fg_pgid_def proc_signal_pgrp_eq in_fg_def Let_def)

lemma bit_sigbit: "bit (sigbit sig) n \<longleftrightarrow> n = nat sig \<and> n < 32"
  by (auto simp: sigbit_def bit_simps)

definition rx_rel :: "u8 list \<Rightarrow> bool \<Rightarrow> 'a con_st_scheme \<Rightarrow> bool \<Rightarrow> 'a con_st_scheme \<Rightarrow> bool" where
  "rx_rel cs got s got' s' \<longleftrightarrow>
     ring_ok (uart_rx s') \<and>
     rqueue (uart_rx s') = take 63 (rqueue (uart_rx s) @ kept (console_raw_mode s) cs) \<and>
     (got' \<longleftrightarrow> got \<or> rlen (uart_rx s') \<noteq> rlen (uart_rx s)) \<and>
     console_raw_mode s' = console_raw_mode s \<and> fg_pgid s' = fg_pgid s \<and> rx_fifo s' = rx_fifo s \<and>
     (\<forall>i. live s' i = live s i \<and> pgid (procs s' i) = pgid (procs s i) \<and>
       (\<forall>n. bit (pending (procs s' i)) n \<longleftrightarrow>
          bit (pending (procs s i)) n \<or> in_fg s i \<and> raised (console_raw_mode s) cs n))"

lemma take_rqueue [simp]: "take 63 (rqueue u) = rqueue u"
  using rlen_less [of u] by simp

lemma rx_rel_signal:
  assumes "ring_ok (uart_rx s)" "\<not> console_raw_mode s" "c = 0x03 \<and> sig = SIGINT \<or> c = 0x1A \<and> sig = SIGTSTP"
  shows "rx_rel [c] got s got (fg_signal sig s)"
proof -
  have "1 \<le> sig" "sig < 32" using assms(3) by (auto simp: signal_defs)
  note e = fg_signal_eq [OF this]
  have "live (fg_signal sig s) i = live s i" for i by (auto simp: e live_def)
  moreover have "raised False [c] n \<longleftrightarrow> bit (sigbit sig) n" for n
    using assms(3) by (auto simp: raised_def bit_sigbit signal_defs)
  ultimately show ?thesis
    using assms by (auto simp: rx_rel_def e kept_def bit_or_iff)
qed

lemma rx_rel_put:
  assumes "ring_ok (uart_rx s)" "console_raw_mode s \<or> c \<noteq> 0x03 \<and> c \<noteq> 0x1A"
  shows "rx_rel [c] got s (got \<or> fst (ring_put c (uart_rx s))) (s\<lparr>uart_rx := snd (ring_put c (uart_rx s))\<rparr>)"
proof -
  let ?u = "uart_rx s" and ?v = "snd (ring_put c (uart_rx s))"
  have p: "fst (ring_put c ?u) = (rlen ?u < 63)" "ring_ok ?v"
    "rqueue ?v = (if rlen ?u < 63 then rqueue ?u @ [c] else rqueue ?u)"
    using ring_put_queue [OF assms(1), of c] by (auto dest: arg_cong [of _ _ fst])
  have len: "rlen ?v = (if rlen ?u < 63 then Suc (rlen ?u) else rlen ?u)"
    using arg_cong [OF p(3), of length] by (simp split: if_splits)
  have "kept (console_raw_mode s) [c] = [c]" using assms(2) by (simp add: kept_def)
  moreover have "\<not> raised (console_raw_mode s) [c] n" for n using assms(2) by (auto simp: raised_def)
  ultimately show ?thesis
    using p len rlen_less [of ?u] by (auto simp: rx_rel_def live_def)
qed

lemma rx_rel_trans:
  "rx_rel [c] g s g1 s1 \<Longrightarrow> rx_rel cs g1 s1 g2 s2 \<Longrightarrow> rx_rel (c # cs) g s g2 s2"
proof -
  assume a: "rx_rel [c] g s g1 s1" and b: "rx_rel cs g1 s1 g2 s2"
  let ?r = "console_raw_mode s" and ?q = "rqueue (uart_rx s)"
  have k: "kept ?r (c # cs) = kept ?r [c] @ kept ?r cs" by (simp add: kept_def)
  have r: "console_raw_mode s1 = ?r" "in_fg s1 i = in_fg s i" for i using a by (auto simp: rx_rel_def in_fg_def)
  have q: "rqueue (uart_rx s2) = take 63 (?q @ kept ?r (c # cs))"
    using a b by (simp add: rx_rel_def k r take_append take_add) (auto simp: take_append min_def)
  have len: "rlen (uart_rx s) \<le> rlen (uart_rx s1)" "rlen (uart_rx s1) \<le> rlen (uart_rx s2)"
    using a b rlen_less [of "uart_rx s"] rlen_less [of "uart_rx s1"]
    unfolding rx_rel_def length_rqueue [symmetric] by (auto simp: min_def)
  have n: "raised ?r (c # cs) n \<longleftrightarrow> raised ?r [c] n \<or> raised ?r cs n" for n by (auto simp: raised_def)
  show ?thesis
    unfolding rx_rel_def q
    using a b len r n by (auto simp: rx_rel_def)
qed

lemma rx_rel_fold:
  "ring_ok (uart_rx s) \<Longrightarrow> fold uart_rx_byte cs (g, s) = (g', s') \<Longrightarrow> rx_rel cs g s g' s'"
proof (induction cs arbitrary: g s)
  case Nil
  then show ?case by (simp add: rx_rel_def kept_def raised_def)
next
  case (Cons c cs)
  obtain g1 s1 where st: "uart_rx_byte c (g, s) = (g1, s1)" by fastforce
  then have "rx_rel [c] g s g1 s1"
    using rx_rel_signal [OF Cons.prems(1)] rx_rel_put [OF Cons.prems(1), of c g]
    by (auto simp: uart_rx_byte_def console_get_raw_def split: if_splits prod.splits)
  moreover from this have "ring_ok (uart_rx s1)" by (simp add: rx_rel_def)
  then have "rx_rel cs g1 s1 g' s'" using Cons.IH [of s1 g1] Cons.prems(2) st by simp
  ultimately show ?case by (rule rx_rel_trans)
qed

lemma take_grows: "length (take n (xs @ ys)) = length xs \<Longrightarrow> take n (xs @ ys) = xs"
  by (auto simp: min_def split: if_splits)

text \<open>Property C19. The receive interrupt empties the hardware FIFO; the bytes are queued behind those already
  there, in order, up to the 63 the ring holds. In cooked mode control-C and control-Z are not queued: they add
  the interrupt and the terminal-stop signal to the pending set of every process of the foreground group, and no
  other pending signal changes. If a byte was queued, no process is left asleep waiting for input.\<close>

theorem uart_irq_handler_correct:
  assumes "ring_ok (uart_rx s)"
  defines "s' \<equiv> uart_irq_handler s"
  shows "ring_ok (uart_rx s') \<and> rx_fifo s' = [] \<and>
    rqueue (uart_rx s') = take 63 (rqueue (uart_rx s) @ kept (console_raw_mode s) (rx_fifo s)) \<and>
    (rqueue (uart_rx s') \<noteq> rqueue (uart_rx s) \<longrightarrow> \<not> asleep ChUart s') \<and>
    (\<forall>i n. bit (pending (procs s' i)) n \<longleftrightarrow>
      bit (pending (procs s i)) n \<or> in_fg s i \<and> raised (console_raw_mode s) (rx_fifo s) n)"
proof -
  obtain g s1 where f: "fold uart_rx_byte (rx_fifo s) (False, s\<lparr>rx_fifo := []\<rparr>) = (g, s1)" by fastforce
  have r: "rx_rel (rx_fifo s) False (s\<lparr>rx_fifo := []\<rparr>) g s1"
    using rx_rel_fold [OF _ f] assms(1) by simp
  have s': "s' = (if g then proc_wakeup ChUart s1 else s1)" by (simp add: s'_def uart_irq_handler_def f)
  have w: "uart_rx s' = uart_rx s1" "rx_fifo s' = rx_fifo s1" "pending (procs s' i) = pending (procs s1 i)" for i
    by (simp_all add: s' proc_wakeup_eq)
  have fg: "in_fg (s\<lparr>rx_fifo := []\<rparr>) i = in_fg s i" for i by (simp add: in_fg_def live_def)
  have "rqueue (uart_rx s') \<noteq> rqueue (uart_rx s) \<longrightarrow> g"
    using r take_grows [of 63 "rqueue (uart_rx s)"] rlen_less [of "uart_rx s"]
    by (auto simp: rx_rel_def w simp flip: length_rqueue)
  then have "rqueue (uart_rx s') \<noteq> rqueue (uart_rx s) \<longrightarrow> \<not> asleep ChUart s'"
    by (cases g) (simp_all add: s')
  then show ?thesis using r unfolding rx_rel_def w fg by simp
qed

definition demo_con :: "u8 list \<Rightarrow> con_st" where
  "demo_con cs = fs_st.extend (bio_st.extend demo_bio (fs_st.fields
       (\<lambda>_. \<lparr>idev = 0, inum = 0, iref = 0, ivalid = False, ilocked = False, itype = 0, imajor = 0, iminor = 0,
              inlink = 0, isize = 0, iaddrs = (\<lambda>_. 0)\<rparr>)
       \<lparr>magic = 0, sbsize = 0, nblocks = 0, ninodes = 0, inodestart = 0, bmapstart = 0\<rparr>))
     (con_st.fields \<lparr>rxbuf = (\<lambda>_. 0), rxhead = 60, rxtail = 60\<rparr> 1 False cs [])"

lemma demo_con_simps [simp]:
  "uart_rx (demo_con cs) = \<lparr>rxbuf = (\<lambda>_. 0), rxhead = 60, rxtail = 60\<rparr>" "rx_fifo (demo_con cs) = cs"
  "console_raw_mode (demo_con cs) = False" "fg_pgid (demo_con cs) = 1"
  by (simp_all add: demo_con_def fs_st.defs bio_st.defs con_st.defs)

theorem uart_irq_handler_correct_witness:
  "rqueue (uart_rx (uart_irq_handler (demo_con [97, 3, 98]))) = [97, 98]"
  using uart_irq_handler_correct [of "demo_con [97, 3, 98]"]
  by (simp add: ring_ok_def rqueue_def rlen_def kept_def)

subsection \<open>Reading\<close>

lemma uart_read_loop_queue:
  "ring_ok (uart_rx s) \<Longrightarrow> i \<le> len \<Longrightarrow> len - i \<le> rlen (uart_rx s) \<Longrightarrow>
   \<exists>u. uart_read_loop buf len i es s =
     Some (int len, (\<lambda>j. if i \<le> j \<and> j < len then rqueue (uart_rx s) ! (j - i) else buf j), s\<lparr>uart_rx := u\<rparr>, es) \<and>
     ring_ok u \<and> rqueue u = drop (len - i) (rqueue (uart_rx s))"
proof (induction "len - i" arbitrary: i s buf)
  case 0
  then have "i = len" by simp
  then have "uart_read_loop buf len i es s = Some (int len, buf, s\<lparr>uart_rx := uart_rx s\<rparr>, es)"
    by (subst uart_read_loop.simps) simp
  moreover have "(\<lambda>j. if i \<le> j \<and> j < len then rqueue (uart_rx s) ! (j - i) else buf j) = buf"
    using \<open>i = len\<close> by (auto simp: fun_eq_iff)
  ultimately show ?case using 0 by (intro exI [of _ "uart_rx s"]) simp
next
  case (Suc k)
  then have lt: "i < len" by simp
  obtain x xs where q: "rqueue (uart_rx s) = x # xs"
    using Suc.prems(3) lt length_rqueue [of "uart_rx s"] by (cases "rqueue (uart_rx s)") auto
  let ?u = "(uart_rx s)\<lparr>rxtail := (rxtail (uart_rx s) + 1) mod of_nat UART_RX_BUF_SIZE\<rparr>"
  note g = ring_get [OF Suc.prems(1) q]
  have "len - Suc i \<le> rlen ?u" using Suc.prems(3) g(2) q length_rqueue [of ?u] length_rqueue [of "uart_rx s"] by auto
  moreover have "k = len - Suc i" using Suc.hyps(2) by simp
  ultimately obtain u where u: "uart_read_loop (buf(i := x)) len (Suc i) es (s\<lparr>uart_rx := ?u\<rparr>) =
      Some (int len, (\<lambda>j. if Suc i \<le> j \<and> j < len then xs ! (j - Suc i) else (buf(i := x)) j), s\<lparr>uart_rx := u\<rparr>, es)"
      "ring_ok u" "rqueue u = drop (len - Suc i) xs"
    using Suc.hyps(1) [of "Suc i" "s\<lparr>uart_rx := ?u\<rparr>" "buf(i := x)"] lt g(2,3)
    by (simp cong: if_cong) blast
  have "uart_read_loop buf len i es s = uart_read_loop (buf(i := x)) len (Suc i) es (s\<lparr>uart_rx := ?u\<rparr>)"
    by (subst uart_read_loop.simps) (use lt g(1,4) in simp)
  moreover have "(\<lambda>j. if Suc i \<le> j \<and> j < len then xs ! (j - Suc i) else (buf(i := x)) j) =
      (\<lambda>j. if i \<le> j \<and> j < len then rqueue (uart_rx s) ! (j - i) else buf j)"
    using lt by (auto simp: q fun_eq_iff nth_Cons' Suc_le_eq)
  moreover have "drop (len - Suc i) xs = drop (len - i) (rqueue (uart_rx s))"
    using lt by (simp add: q Suc_diff_Suc drop_Cons')
  ultimately show ?case using u by auto
qed

text \<open>As long as enough bytes are queued, \<^verbatim>\<open>uart_read\<close> returns at once with the oldest ones, in
  order, removes exactly these from the ring, and changes nothing else.\<close>

theorem uart_read_fifo:
  assumes "ring_ok (uart_rx s)" "n \<le> rlen (uart_rx s)"
  shows "\<exists>u. uart_read buf n es s =
      Some (int n, (\<lambda>j. if j < n then rqueue (uart_rx s) ! j else buf j), s\<lparr>uart_rx := u\<rparr>, es) \<and>
    ring_ok u \<and> rqueue u = drop n (rqueue (uart_rx s))"
  using uart_read_loop_queue [of s 0 n buf es] assms by (simp add: uart_read_def cong: if_cong)

theorem uart_read_fifo_witness:
  "\<exists>buf s'. uart_read (\<lambda>_. 0) 1 [] ((demo_con [])\<lparr>uart_rx := \<lparr>rxbuf = (\<lambda>k. if k = 63 then 7 else 9), rxhead = 1, rxtail = 63\<rparr>\<rparr>)
      = Some (1, buf, s', []) \<and> buf 0 = 7"
  using uart_read_fifo [of "(demo_con [])\<lparr>uart_rx := \<lparr>rxbuf = (\<lambda>k. if k = 63 then 7 else 9), rxhead = 1, rxtail = 63\<rparr>\<rparr>" 1 "\<lambda>_. 0" "[]"]
  by (auto simp: ring_ok_def rlen_def rqueue_def)

end
