(* ===== verification/File.thy ===== *)
theory File
  imports Console
begin

text \<open>
  Open files, \<^verbatim>\<open>kernel/file.c\<close>, with the parts of other files that need them: \<^verbatim>\<open>pipealloc\<close> of \<^verbatim>\<open>kernel/pipe.c\<close>, the disk
  device \<^verbatim>\<open>kernel/disk.c\<close>, and the end of a process (\<^verbatim>\<open>proc_cleanup\<close>, \<^verbatim>\<open>proc_check_signals\<close> of \<^verbatim>\<open>kernel/proc.c\<close>). A
  \<^verbatim>\<open>struct file *\<close> is an index into the table. The device switches hold names of drivers in place of function
  pointers.
\<close>

definition NFILE :: nat where "NFILE = 100"
definition NDEV :: int where "NDEV = 10"
definition NBDEV :: int where "NBDEV = 4"
definition CONSOLE :: int where "CONSOLE = 1"
definition NULLDEV :: int where "NULLDEV = 2"
definition DISK :: int where "DISK = 1"

datatype fd_type = FD_NONE | FD_PIPE | FD_INODE | FD_DEVICE | FD_BDEVICE

record kfile =
  ftype :: fd_type
  fref :: int
  readable :: bool
  writable :: bool
  fappend :: bool
  fip :: "nat option"
  foff :: u32
  fmajor :: int
  fpipe :: u64

datatype device = ConsoleDev | NullDev
datatype bdevice = DiskDev

record file_st = con_st +
  ftable :: "nat \<Rightarrow> kfile"
  devsw :: "int \<Rightarrow> device option"
  bdevsw :: "int \<Rightarrow> bdevice option"

type_synonym 'a file_schedule = "('a file_st_scheme \<Rightarrow> 'a file_st_scheme) list"

definition upd_file :: "nat \<Rightarrow> (kfile \<Rightarrow> kfile) \<Rightarrow> 'a file_st_scheme \<Rightarrow> 'a file_st_scheme" where
  "upd_file f g s = s\<lparr>ftable := (ftable s)(f := g (ftable s f))\<rparr>"

subsection \<open>The disk device and the device switches\<close>

definition disk_read :: "u32 \<Rightarrow> bytes \<Rightarrow> 'a file_st_scheme \<Rightarrow> (int \<times> bytes \<times> 'a file_st_scheme) option" where
  "disk_read bn dst s =
     with_block 0 bn (\<lambda>s. Some (-1, dst, s))
       (\<lambda>b s. Some (0, blit dst 0 (bdata (bufs s b)) 0 BSIZE, bio_release b s)) s"

definition disk_write :: "u32 \<Rightarrow> bytes \<Rightarrow> 'a file_st_scheme \<Rightarrow> (int \<times> 'a file_st_scheme) option" where
  "disk_write bn src s =
     with_block 0 bn (\<lambda>s. Some (-1, s))
       (\<lambda>b s. do { (r, s) \<leftarrow> bio_write b (upd_buf b (\<lambda>u. u\<lparr>bdata := blit (bdata (bufs s b)) 0 src 0 BSIZE\<rparr>) s);
                   Some (r, bio_release b s) }) s"

definition disk_init :: "'a file_st_scheme \<Rightarrow> 'a file_st_scheme" where
  "disk_init s = s\<lparr>bdevsw := (bdevsw s)(DISK \<mapsto> DiskDev)\<rparr>"

definition console_init :: "'a file_st_scheme \<Rightarrow> 'a file_st_scheme" where
  "console_init s = s\<lparr>devsw := (devsw s)(CONSOLE \<mapsto> ConsoleDev, NULLDEV \<mapsto> NullDev)\<rparr>"

definition dev_read :: "device \<Rightarrow> bytes \<Rightarrow> int \<Rightarrow> 'a file_schedule \<Rightarrow> 'a file_st_scheme \<Rightarrow>
    (int \<times> bytes \<times> 'a file_st_scheme \<times> 'a file_schedule) option" where
  "dev_read d addr n es s =
     (case d of ConsoleDev \<Rightarrow> console_read addr n es s
      | NullDev \<Rightarrow> (let (r, addr) = nullread addr n in Some (r, addr, s, es)))"

definition dev_write :: "device \<Rightarrow> bytes \<Rightarrow> int \<Rightarrow> 'a file_st_scheme \<Rightarrow> int \<times> 'a file_st_scheme" where
  "dev_write d addr n s =
     (case d of ConsoleDev \<Rightarrow> console_write addr n s | NullDev \<Rightarrow> (nullwrite addr n, s))"

definition bdev_read :: "bdevice \<Rightarrow> u32 \<Rightarrow> bytes \<Rightarrow> 'a file_st_scheme \<Rightarrow> (int \<times> bytes \<times> 'a file_st_scheme) option" where
  "bdev_read d bn dst s = (case d of DiskDev \<Rightarrow> disk_read bn dst s)"

definition bdev_write :: "bdevice \<Rightarrow> u32 \<Rightarrow> bytes \<Rightarrow> 'a file_st_scheme \<Rightarrow> (int \<times> 'a file_st_scheme) option" where
  "bdev_write d bn src s = (case d of DiskDev \<Rightarrow> disk_write bn src s)"

subsection \<open>References\<close>

definition filealloc :: "'a file_st_scheme \<Rightarrow> nat option \<times> 'a file_st_scheme" where
  "filealloc s =
     (case List.find (\<lambda>i. fref (ftable s i) = 0) [0..<NFILE] of
        None \<Rightarrow> (None, s)
      | Some i \<Rightarrow>
          (Some i, upd_file i (\<lambda>f. f\<lparr>fref := 1, ftype := FD_NONE, readable := False, writable := False,
             fappend := False, fip := None, foff := 0, fmajor := 0, fpipe := 0\<rparr>) s))"

definition filedup :: "nat \<Rightarrow> 'a file_st_scheme \<Rightarrow> nat option \<times> 'a file_st_scheme" where
  "filedup f s =
     (if fref (ftable s f) < 1 then (None, s)
      else (Some f, upd_file f (\<lambda>f. f\<lparr>fref := fref f + 1\<rparr>) s))"

definition has_inode :: "kfile \<Rightarrow> bool" where
  "has_inode ff \<longleftrightarrow> ftype ff = FD_INODE \<or> ftype ff = FD_DEVICE \<or> ftype ff = FD_BDEVICE"

definition fileclose :: "nat \<Rightarrow> 'a file_st_scheme \<Rightarrow> 'a file_st_scheme option" where
  "fileclose f s =
     (if fref (ftable s f) < 1 then Some s
      else
        let s = upd_file f (\<lambda>f. f\<lparr>fref := fref f - 1\<rparr>) s in
        if fref (ftable s f) > 0 then Some s
        else
          let ff = ftable s f;
              s = upd_file f (\<lambda>f. f\<lparr>ftype := FD_NONE, fip := None, fpipe := 0\<rparr>) s
          in if ftype ff = FD_PIPE then pipeclose (fpipe ff) (writable ff) s
             else if has_inode ff then (case fip ff of None \<Rightarrow> Some s | Some ip \<Rightarrow> fs_iput ip s)
             else Some s)"

definition filestat :: "nat \<Rightarrow> stat \<Rightarrow> 'a file_st_scheme \<Rightarrow> (int \<times> stat \<times> 'a file_st_scheme) option" where
  "filestat f st s =
     (if has_inode (ftable s f) then
        (case fip (ftable s f) of
           None \<Rightarrow> Some (-1, st, s)
         | Some ip \<Rightarrow> do { s \<leftarrow> fs_ilock ip s; Some (0, fs_stati (icache s ip), fs_iunlock ip s) })
      else Some (-1, st, s))"

subsection \<open>Reading and writing\<close>

definition some_or_err :: "int \<Rightarrow> int" where
  "some_or_err tot = (if tot > 0 then tot else -1)"

lemma unat_word_of_int: "0 \<le> n \<Longrightarrow> n < 2 ^ LENGTH('a) \<Longrightarrow> unat (word_of_int n :: 'a::len word) = nat n"
proof -
  assume n: "0 \<le> n" "n < 2 ^ LENGTH('a)"
  obtain k where k: "n = int k" using n(1) by (rule nonneg_int_cases)
  then have "int k < int (2 ^ LENGTH('a))" using n(2) by simp
  then have "k < 2 ^ LENGTH('a)" by (simp only: of_nat_less_iff)
  then show ?thesis by (simp add: k unat_of_nat_small)
qed

lemma bdev_decrease: "0 < n \<Longrightarrow> n < 2 ^ 32 \<Longrightarrow> nat (n - uint (chunk off 0 (word_of_int n :: u32))) < nat n"
proof -
  assume n: "0 < n" "n < 2 ^ 32"
  then have "unat (word_of_int n :: u32) = nat n" by (subst unat_word_of_int) simp_all
  then have "0 < unat (chunk off 0 (word_of_int n :: u32))"
    using n(1) chunk_progress(1) [of 0 "word_of_int n" off] by (simp add: word_less_nat_alt)
  then have "0 < uint (chunk off 0 (word_of_int n :: u32))" by (simp only: unat_eq_nat_uint zero_less_nat_eq)
  then show ?thesis using n(1) by linarith
qed

text \<open>The loop of \<^verbatim>\<open>fileread\<close> on a block device; \<open>addr\<close> is written from index \<open>tot\<close> on. A count of an \<^verbatim>\<open>int\<close> is
  below \<open>2 ^ 31\<close>; the guard against larger ones makes the function total.\<close>

function bdev_read_loop :: "nat \<Rightarrow> bdevice \<Rightarrow> bytes \<Rightarrow> bytes \<Rightarrow> int \<Rightarrow> int \<Rightarrow> 'a file_st_scheme \<Rightarrow>
    (int \<times> bytes \<times> 'a file_st_scheme) option" where
  "bdev_read_loop f d blkbuf addr tot n s =
     (if 0 < n \<and> n < 2 ^ 32 then
        let off = foff (ftable s f); boff = off mod of_nat BSIZE in
        do {
          (r, blkbuf, s) \<leftarrow> bdev_read d (off div of_nat BSIZE) blkbuf s;
          if r < 0 then Some (some_or_err tot, addr, s)
          else
            let m = chunk off 0 (word_of_int n) in
            bdev_read_loop f d blkbuf (blit addr (nat tot) blkbuf (unat boff) (unat m)) (tot + uint m) (n - uint m)
              (upd_file f (\<lambda>f. f\<lparr>foff := foff f + m\<rparr>) s) }
      else Some (tot, addr, s))"
  by pat_completeness auto
termination
  by (relation "measure (\<lambda>(f, d, blkbuf, addr, tot, n, s). nat n)") (auto dest: bdev_decrease)

declare bdev_read_loop.simps [simp del]

function bdev_write_loop :: "nat \<Rightarrow> bdevice \<Rightarrow> bytes \<Rightarrow> bytes \<Rightarrow> int \<Rightarrow> int \<Rightarrow> 'a file_st_scheme \<Rightarrow>
    (int \<times> 'a file_st_scheme) option" where
  "bdev_write_loop f d blkbuf addr tot n s =
     (if 0 < n \<and> n < 2 ^ 32 then
        let off = foff (ftable s f); boff = off mod of_nat BSIZE; blockno = off div of_nat BSIZE;
            m = chunk off 0 (word_of_int n)
        in do {
          (r, blkbuf, s) \<leftarrow> (if boff \<noteq> 0 \<or> m < of_nat BSIZE then bdev_read d blockno blkbuf s else Some (0, blkbuf, s));
          if r < 0 then Some (some_or_err tot, s)
          else do {
            let blkbuf = blit blkbuf (unat boff) addr (nat tot) (unat m);
            (r, s) \<leftarrow> bdev_write d blockno blkbuf s;
            if r < 0 then Some (some_or_err tot, s)
            else bdev_write_loop f d blkbuf addr (tot + uint m) (n - uint m)
                   (upd_file f (\<lambda>f. f\<lparr>foff := foff f + m\<rparr>) s) } }
      else Some (tot, s))"
  by pat_completeness auto
termination
  by (relation "measure (\<lambda>(f, d, blkbuf, addr, tot, n, s). nat n)") (auto dest: bdev_decrease)

declare bdev_write_loop.simps [simp del]

definition dev_lookup :: "int \<Rightarrow> int \<Rightarrow> (int \<Rightarrow> 'd option) \<Rightarrow> 'd option" where
  "dev_lookup major n sw = (if major < 0 \<or> major \<ge> n then None else sw major)"

text \<open>\<open>junk\<close> is what the uninitialised \<^verbatim>\<open>blkbuf\<close> holds.\<close>

definition fileread :: "bytes \<Rightarrow> nat \<Rightarrow> bytes \<Rightarrow> int \<Rightarrow> 'a file_schedule \<Rightarrow> 'a file_st_scheme \<Rightarrow>
    (int \<times> bytes \<times> 'a file_st_scheme \<times> 'a file_schedule) option" where
  "fileread junk f addr n es s =
     (let ff = ftable s f in
      if \<not> readable ff then Some (-1, addr, s, es)
      else case ftype ff of
        FD_PIPE \<Rightarrow> piperead (fpipe ff) addr n es s
      | FD_DEVICE \<Rightarrow>
          (case dev_lookup (fmajor ff) NDEV (devsw s) of
             None \<Rightarrow> Some (-1, addr, s, es)
           | Some d \<Rightarrow> dev_read d addr n es s)
      | FD_INODE \<Rightarrow>
          do {
            ip \<leftarrow> fip ff;
            s \<leftarrow> fs_ilock ip s;
            (r, addr, s) \<leftarrow> fs_readi ip addr (foff (ftable s f)) (word_of_int n) s;
            let s = (if r > 0 then upd_file f (\<lambda>f. f\<lparr>foff := foff f + word_of_int r\<rparr>) s else s);
            Some (r, addr, fs_iunlock ip s, es) }
      | FD_BDEVICE \<Rightarrow>
          (case dev_lookup (fmajor ff) NBDEV (bdevsw s) of
             None \<Rightarrow> Some (-1, addr, s, es)
           | Some d \<Rightarrow> do { (r, addr, s) \<leftarrow> bdev_read_loop f d junk addr 0 n s; Some (r, addr, s, es) })
      | FD_NONE \<Rightarrow> Some (-1, addr, s, es))"

definition filewrite :: "bytes \<Rightarrow> nat \<Rightarrow> bytes \<Rightarrow> int \<Rightarrow> 'a file_schedule \<Rightarrow> 'a file_st_scheme \<Rightarrow>
    (int \<times> 'a file_st_scheme \<times> 'a file_schedule) option" where
  "filewrite junk f addr n es s =
     (let ff = ftable s f in
      if \<not> writable ff then Some (-1, s, es)
      else case ftype ff of
        FD_PIPE \<Rightarrow> pipewrite (fpipe ff) addr n es s
      | FD_DEVICE \<Rightarrow>
          (case dev_lookup (fmajor ff) NDEV (devsw s) of
             None \<Rightarrow> Some (-1, s, es)
           | Some d \<Rightarrow> (let (r, s) = dev_write d addr n s in Some (r, s, es)))
      | FD_INODE \<Rightarrow>
          do {
            ip \<leftarrow> fip ff;
            s \<leftarrow> fs_ilock ip s;
            let s = (if fappend (ftable s f) then upd_file f (\<lambda>f. f\<lparr>foff := isize (icache s ip)\<rparr>) s else s);
            (r, s) \<leftarrow> fs_writei ip addr (foff (ftable s f)) (word_of_int n) s;
            let s = (if r > 0 then upd_file f (\<lambda>f. f\<lparr>foff := foff f + word_of_int r\<rparr>) s else s);
            Some (r, fs_iunlock ip s, es) }
      | FD_BDEVICE \<Rightarrow>
          (case dev_lookup (fmajor ff) NBDEV (bdevsw s) of
             None \<Rightarrow> Some (-1, s, es)
           | Some d \<Rightarrow> do { (r, s) \<leftarrow> bdev_write_loop f d junk addr 0 n s; Some (r, s, es) })
      | FD_NONE \<Rightarrow> Some (-1, s, es))"

definition fdalloc :: "nat \<Rightarrow> 'a kst_scheme \<Rightarrow> (int \<times> 'a kst_scheme) option" where
  "fdalloc f s =
     do {
       p \<leftarrow> cur s;
       case List.find (\<lambda>fd. ofile p fd = None) [0..<NOFILE] of
         None \<Rightarrow> Some (-1, s)
       | Some fd \<Rightarrow> do { s \<leftarrow> upd_cur (\<lambda>p. p\<lparr>ofile := (ofile p)(fd \<mapsto> f)\<rparr>) s; Some (int fd, s) } }"

subsection \<open>Creating a pipe\<close>

definition close_opt :: "nat option \<Rightarrow> 'a file_st_scheme \<Rightarrow> 'a file_st_scheme option" where
  "close_opt f s = (case f of None \<Rightarrow> Some s | Some f \<Rightarrow> fileclose f s)"

text \<open>The page holds a \<^verbatim>\<open>struct pipe\<close> from here on; its data bytes are whatever the page held.\<close>

definition pipealloc :: "'a file_st_scheme \<Rightarrow> (int \<times> nat option \<times> nat option \<times> 'a file_st_scheme) option" where
  "pipealloc s =
     (let (f0, s) = filealloc s;
          (f1, s) = (if f0 = None then (None, s) else filealloc s);
          bad = (\<lambda>s. do { s \<leftarrow> close_opt f0 s; s \<leftarrow> close_opt f1 s; Some (-1, f0, f1, s) })
      in case (f0, f1) of
           (Some a, Some b) \<Rightarrow>
             (let (pa, m) = pmm_alloc (kpmm s); s = s\<lparr>kpmm := m\<rparr> in
              if pa = PMM_INVALID then bad s
              else
                let pi = PA_TO_VA pa;
                    s = upd_pipe pi (\<lambda>p. p\<lparr>readopen := True, writeopen := True, nread := 0, nwrite := 0\<rparr>) s;
                    s = upd_file a (\<lambda>f. f\<lparr>ftype := FD_PIPE, readable := True, writable := False, fpipe := pi\<rparr>) s;
                    s = upd_file b (\<lambda>f. f\<lparr>ftype := FD_PIPE, readable := False, writable := True, fpipe := pi\<rparr>) s
                in Some (0, f0, f1, s))
         | _ \<Rightarrow> bad s)"

subsection \<open>The end of a process\<close>

text \<open>One round of the loop over the descriptors.\<close>

definition close_fd :: "nat \<Rightarrow> 'a file_st_scheme \<Rightarrow> 'a file_st_scheme option" where
  "close_fd fd s =
     do {
       p \<leftarrow> cur s;
       case ofile p fd of
         None \<Rightarrow> Some s
       | Some f \<Rightarrow> do { s \<leftarrow> fileclose f s; upd_cur (\<lambda>p. p\<lparr>ofile := (ofile p)(fd := None)\<rparr>) s } }"

definition drop_cwd :: "'a file_st_scheme \<Rightarrow> 'a file_st_scheme option" where
  "drop_cwd s =
     do {
       p \<leftarrow> cur s;
       case cwd p of
         None \<Rightarrow> Some s
       | Some ip \<Rightarrow> do { s \<leftarrow> fs_iput ip s; upd_cur (\<lambda>p. p\<lparr>cwd := None\<rparr>) s } }"

text \<open>The state in which \<^verbatim>\<open>proc_cleanup\<close> calls \<^verbatim>\<open>proc_sched\<close>.\<close>

definition proc_teardown :: "int \<Rightarrow> 'a file_st_scheme \<Rightarrow> 'a file_st_scheme option" where
  "proc_teardown status s =
     do {
       s \<leftarrow> loop_option close_fd [0..<NOFILE] s;
       s \<leftarrow> drop_cwd s;
       s \<leftarrow> upd_cur (\<lambda>p. p\<lparr>exit_status := status\<rparr>) s;
       p \<leftarrow> cur s;
       case parent p of
         Some q \<Rightarrow> do { s \<leftarrow> upd_cur (\<lambda>p. p\<lparr>pstate := ZOMBIE\<rparr>) s; Some (proc_wakeup (ChProc q) s) }
       | None \<Rightarrow> upd_cur (\<lambda>p. p\<lparr>pstate := UNUSED\<rparr>) s }"

definition proc_cleanup :: "int \<Rightarrow> 'a file_schedule \<Rightarrow> 'a file_st_scheme \<Rightarrow> ('a file_st_scheme \<times> 'a file_schedule) option" where
  "proc_cleanup status es s = do { s \<leftarrow> proc_teardown status s; proc_sched es s }"

definition stop_sigs :: "int list" where "stop_sigs = [SIGSTOP, SIGTSTP, SIGTTIN, SIGTTOU]"

definition term_sigs :: "int list" where
  "term_sigs = [SIGTERM, SIGINT, SIGHUP, SIGQUIT, SIGPIPE, SIGALRM, SIGUSR1, SIGUSR2]"

definition is_pending :: "u32 \<Rightarrow> int \<Rightarrow> bool" where
  "is_pending w sig \<longleftrightarrow> w AND sigbit sig \<noteq> 0"

definition unpend :: "int \<Rightarrow> 'a kst_scheme \<Rightarrow> 'a kst_scheme option" where
  "unpend sig = upd_cur (\<lambda>p. p\<lparr>pending := pending p AND NOT (sigbit sig)\<rparr>)"

definition proc_check_signals :: "'a file_schedule \<Rightarrow> 'a file_st_scheme \<Rightarrow> ('a file_st_scheme \<times> 'a file_schedule) option" where
  "proc_check_signals es s =
     do {
       p \<leftarrow> cur s;
       if pending p = 0 then Some (s, es)
       else if is_pending (pending p) SIGKILL then
         do { s \<leftarrow> unpend SIGKILL s; proc_cleanup (-SIGKILL) es s }
       else case List.find (is_pending (pending p)) stop_sigs of
         Some sig \<Rightarrow>
           do {
             s \<leftarrow> unpend sig s;
             s \<leftarrow> upd_cur (\<lambda>p. p\<lparr>pstate := STOPPED, stop_signal := sig\<rparr>) s;
             p \<leftarrow> cur s;
             let s = (case parent p of None \<Rightarrow> s | Some q \<Rightarrow> proc_wakeup (ChProc q) s);
             (s, es) \<leftarrow> proc_sched es s;
             s \<leftarrow> unpend SIGCONT s;
             Some (s, es) }
       | None \<Rightarrow>
           do {
             s \<leftarrow> unpend SIGCONT s;
             p \<leftarrow> cur s;
             case List.find (is_pending (pending p)) term_sigs of
               None \<Rightarrow> Some (s, es)
             | Some sig \<Rightarrow> do { s \<leftarrow> unpend sig s; proc_cleanup (-sig) es s } } }"

end
