(* ===== verification/Fs_Layout.thy ===== *)
theory Fs_Layout
  imports Fs
begin

text \<open>
  The on-disk layout of \<^verbatim>\<open>kernel/fs.c\<close>: little-endian fields and disk inodes can be read back after they
  are written, and do not disturb each other.
\<close>

subsection \<open>Little-endian fields\<close>

lemma octets:
  fixes n :: nat
  assumes "n < 32"
  obtains k where "k < 8" "n = k" | k where "k < 8" "n = 8 + k" | k where "k < 8" "n = 16 + k" | k where "k < 8" "n = 24 + k"
proof -
  consider "n < 8" | "8 \<le> n" "n < 16" | "16 \<le> n" "n < 24" | "24 \<le> n" using assms by linarith
  then show thesis
    using that(1) [of n] that(2) [of "n - 8"] that(3) [of "n - 16"] that(4) [of "n - 24"] assms by cases auto
qed

lemma get16_put16 [simp]: "get16 (put16 i v d) i = v"
  by (rule bit_word_eqI) (auto simp: get16_def put16_def bit_simps)

lemma get32_put32 [simp]: "get32 (put32 i v d) i = v"
proof (rule bit_word_eqI)
  fix n assume "n < LENGTH(32)"
  then have "n < 32" by simp
  then show "bit (get32 (put32 i v d) i) n = bit v n"
    by (cases rule: octets) (auto simp: get32_def put32_def bit_simps)
qed

lemma put16_other: "j < i \<or> i + 2 \<le> j \<Longrightarrow> put16 i v d j = d j"
  by (auto simp: put16_def)

lemma put32_other: "j < i \<or> i + 4 \<le> j \<Longrightarrow> put32 i v d j = d j"
  by (auto simp: put32_def)

lemma get16_cong: "(\<And>j. i \<le> j \<Longrightarrow> j < i + 2 \<Longrightarrow> d j = d' j) \<Longrightarrow> get16 d i = get16 d' i"
  by (simp add: get16_def)

lemma get32_cong: "(\<And>j. i \<le> j \<Longrightarrow> j < i + 4 \<Longrightarrow> d j = d' j) \<Longrightarrow> get32 d i = get32 d' i"
  by (simp add: get32_def)

lemma get16_put16_other [simp]: "i + 2 \<le> j \<or> j + 2 \<le> i \<Longrightarrow> get16 (put16 i v d) j = get16 d j"
  by (rule get16_cong) (auto intro!: put16_other)

lemma get16_put32_other [simp]: "i + 4 \<le> j \<or> j + 2 \<le> i \<Longrightarrow> get16 (put32 i v d) j = get16 d j"
  by (rule get16_cong) (auto intro!: put32_other)

lemma get32_put16_other [simp]: "i + 2 \<le> j \<or> j + 4 \<le> i \<Longrightarrow> get32 (put16 i v d) j = get32 d j"
  by (rule get32_cong) (auto intro!: put16_other)

lemma get32_put32_other [simp]: "i + 4 \<le> j \<or> j + 4 \<le> i \<Longrightarrow> get32 (put32 i v d) j = get32 d j"
  by (rule get32_cong) (auto intro!: put32_other)

subsection \<open>Disk inodes\<close>

text \<open>An array of 32-bit fields written by a loop.\<close>

lemma fold_put32_other:
  "j < off \<or> off + 4 * n \<le> j \<Longrightarrow> fold (\<lambda>i d. put32 (off + 4 * i) (f i) d) [0..<n] d j = d j"
  by (induction n) (auto simp: put32_other)

lemma get32_fold_put32:
  "k < n \<Longrightarrow> get32 (fold (\<lambda>i d. put32 (off + 4 * i) (f i) d) [0..<n] d) (off + 4 * k) = f k"
  by (induction n) (auto simp: less_Suc_eq)

lemma store_dinode_other: "j < off \<or> off + DINODE_SIZE \<le> j \<Longrightarrow> store_dinode ip off d j = d j"
  unfolding store_dinode_def DINODE_SIZE_def NDIRECT_def
  by (subst fold_put32_other [of j "off + 12"]) (auto simp: put32_other put16_other)

lemma load_store_dinode:
  "load_dinode (store_dinode ip off d) off jp =
     jp\<lparr>itype := itype ip, imajor := imajor ip, iminor := iminor ip, inlink := inlink ip, isize := isize ip,
        iaddrs := (\<lambda>i. if i < NDIRECT + 2 then iaddrs ip i else iaddrs jp i)\<rparr>"
proof -
  let ?f = "\<lambda>i d. put32 (off + 12 + 4 * i) (iaddrs ip i) d"
  let ?d = "put32 (off + 8) (isize ip) (put16 (off + 6) (inlink ip) (put16 (off + 4) (iminor ip)
         (put16 (off + 2) (imajor ip) (put16 off (itype ip) d))))"
  have s: "store_dinode ip off d = fold ?f [0..<NDIRECT + 2] ?d" by (simp add: store_dinode_def)
  have g16: "get16 (fold ?f [0..<NDIRECT + 2] ?d) (off + k) = get16 ?d (off + k)" if "k + 2 \<le> 12" for k
    using that by (intro get16_cong fold_put32_other) auto
  have g32: "get32 (fold ?f [0..<NDIRECT + 2] ?d) (off + 8) = get32 ?d (off + 8)"
    by (intro get32_cong fold_put32_other) auto
  have a: "get32 (fold ?f [0..<NDIRECT + 2] ?d) (off + 12 + 4 * k) = iaddrs ip k" if "k < NDIRECT + 2" for k
    using get32_fold_put32 [OF that] .
  show ?thesis
    unfolding load_dinode_def s
    using g16 [of 0] g16 [of 2] g16 [of 4] g16 [of 6] g32 a by (simp cong: if_cong)
qed

end
