(* ===== verification/Fs_Blocks.thy ===== *)
theory Fs_Blocks
  imports Fs_Layout
begin

text \<open>
  The file system over an array of blocks. On a working disk every operation of \<^verbatim>\<open>kernel/fs.c\<close> is a function of the
  blocks on the disk, the inode cache and the superblock; the buffer cache does not show. This theory has the
  rules for reading and writing one block through the cache, and with them the disk inodes and the bitmap.
\<close>

subsection \<open>Blocks and steps\<close>

text \<open>The driver's sector numbers reach \<open>2 ^ 31\<close> blocks.\<close>

definition blocks :: "'a virtio_st_scheme \<Rightarrow> u32 \<Rightarrow> bytes" where
  "blocks s bn = (if unat bn < 2 ^ 31 then disk_block s bn else (\<lambda>_. 0))"

definition clip :: "bytes \<Rightarrow> bytes" where
  "clip d = (\<lambda>i. if i < BSIZE then d i else 0)"

lemma clip_blocks [simp]: "clip (blocks s bn) = blocks s bn"
  by (auto simp: clip_def blocks_def disk_block_def fun_eq_iff BSIZE_def)

lemma clip_less [simp]: "i < BSIZE \<Longrightarrow> clip d i = d i"
  by (simp add: clip_def)

text \<open>From \<open>s\<close> to \<open>s'\<close> the blocks have become \<open>B\<close> and the inode cache \<open>I\<close>; all references to buffers and everything
  outside the file system are as before.\<close>

definition did :: "'a fs_st_scheme \<Rightarrow> 'a fs_st_scheme \<Rightarrow> (u32 \<Rightarrow> bytes) \<Rightarrow> (nat \<Rightarrow> inode) \<Rightarrow> bool" where
  "did s s' B I \<longleftrightarrow> bio_ok s' \<and> balanced s s' \<and> outside_same (s\<lparr>icache := I\<rparr>) s' \<and> blocks s' = B"

lemma did_fields:
  assumes "did s s' B I"
  shows "bio_ok s'" "balanced s s'" "blocks s' = B" "icache s' = I" "sb s' = sb s" "held s' = held s"
    "fs_st.more s' = fs_st.more s" "current s' = current s"
proof -
  show b: "bio_ok s'" "balanced s s'" "blocks s' = B" using assms by (auto simp: did_def)
  show "held s' = held s" using balanced_held [OF b(2)] .
  have "bio_st.more s' = bio_st.more (s\<lparr>icache := I\<rparr>)" "current s' = current s"
    using assms by (auto simp: did_def outside_same_def)
  then show "icache s' = I" "sb s' = sb s" "fs_st.more s' = fs_st.more s" "current s' = current s"
    by (cases s, cases s', simp)+
qed

lemma did_refl: "bio_ok s \<Longrightarrow> did s s (blocks s) (icache s)"
  by (simp add: did_def)

lemma did_trans: "did s s1 B1 I1 \<Longrightarrow> did s1 s2 B2 I2 \<Longrightarrow> did s s2 B2 I2"
proof -
  assume a: "did s s1 B1 I1" and b: "did s1 s2 B2 I2"
  have "outside_same (s\<lparr>icache := I2\<rparr>) (s1\<lparr>icache := I2\<rparr>)"
    using a unfolding did_def outside_same_def by (cases s, cases s1) auto
  then show ?thesis using a b balanced_trans outside_same_trans unfolding did_def by blast
qed

lemma bio_ok_icache [simp]: "bio_ok (s\<lparr>icache := I\<rparr>) = bio_ok s"
  by (simp add: bio_ok_def bio_inv_def ring_def first_only_def coherent_def vio_ok_def qlist_def
      sorted_wrt_iff_nth_less disk_block_def)

lemma did_icache: "bio_ok s \<Longrightarrow> did s (s\<lparr>icache := I\<rparr>) (blocks s) I"
  by (simp add: did_def balanced_def blocks_def disk_block_def fun_eq_iff)

lemma did_upd_inode: "bio_ok s \<Longrightarrow> did s (upd_inode i f s) (blocks s) ((icache s)(i := f (icache s i)))"
  by (simp add: upd_inode_def did_icache)

lemma acquired_held: "acquired bn b s s1 \<Longrightarrow> held s1 = Suc (held s)"
proof -
  assume a: "acquired bn b s s1"
  let ?t = "s1\<lparr>bufs := (\<lambda>c. if c < NBUF then bufs s1 c else bufs s c)\<rparr>"
  have "held ?t = held s1" by (simp add: held_def)
  moreover have "held ?t + unat (refcnt (bufs s b)) = held s + unat (refcnt (bufs ?t b))"
    using a by (intro held_upd) (auto simp: acquired_def)
  ultimately show ?thesis using a by (simp add: acquired_def)
qed

subsection \<open>One block through the cache\<close>

lemma read_block:
  fixes s :: "'a fs_st_scheme"
  assumes "bio_ok s" "unat bn < 2 ^ 31" "held s < NBUF"
  obtains b s1 where "bio_read 0 bn s = Some (Some b, s1)" "bio_ok s1" "blocks s1 = blocks s" "acquired bn b s s1"
    "outside_same s s1" "icache s1 = icache s" "sb s1 = sb s"
proof -
  obtain b s1 where r: "bio_read 0 bn s = Some (Some b, s1)" "bio_ok s1" "disk_block s1 = disk_block s" "acquired bn b s s1"
    "outside_same s s1" using cache.read_law [OF assms] by blast
  moreover have "icache s1 = icache s" "sb s1 = sb s" using r(5) unfolding outside_same_def by (cases s, cases s1, simp)+
  moreover have "blocks s1 = blocks s" using r(3) by (auto simp: blocks_def fun_eq_iff)
  ultimately show thesis using that by blast
qed

text \<open>While a buffer is held and other operations run, it shows the block as it is on the disk.\<close>

lemma held_contents:
  assumes "acquired bn b s s1" "bio_ok s1" "balanced s1 s2" "bio_ok s2" "unat bn < 2 ^ 31"
  shows "\<forall>i<BSIZE. bdata (bufs s2 b) i = blocks s2 bn i"
  using cache.contents_law [OF assms(2,1,3,4)] assms(5) by (simp add: blocks_def)

lemma release_block:
  assumes "acquired bn b s s1" "outside_same s s1" "did s1 s2 B I"
  shows "did s (bio_release b s2) B I"
proof -
  have r: "bio_ok (bio_release b s2)" "balanced s (bio_release b s2)" "disk_block (bio_release b s2) = disk_block s2"
      "outside_same s2 (bio_release b s2)"
    using cache.release_law [OF assms(1)] assms(3) by (auto simp: did_def)
  have "outside_same (s\<lparr>icache := I\<rparr>) (s1\<lparr>icache := I\<rparr>)"
    using assms(2) unfolding outside_same_def by (cases s, cases s1) auto
  then have "outside_same (s\<lparr>icache := I\<rparr>) (bio_release b s2)"
    using outside_same_trans r(4) assms(3) unfolding did_def by blast
  then show ?thesis using r assms(3) by (auto simp: did_def blocks_def)
qed

lemma write_block:
  assumes "acquired bn b s s1" "outside_same s s1" "did s1 s2 B I" "unat bn < 2 ^ 31"
  obtains s' where "bio_write b (upd_buf b (\<lambda>u. u\<lparr>bdata := d\<rparr>) s2) = Some (0, s')" "did s (bio_release b s') (B(bn := clip d)) I"
proof -
  obtain s' where w: "bio_write b (upd_buf b (\<lambda>u. u\<lparr>bdata := d\<rparr>) s2) = Some (0, s')" "bio_ok s'" "balanced s2 s'"
      "outside_same s2 s'"
      "\<forall>n. unat n < 2 ^ 31 \<longrightarrow> disk_block s' n = (if n = bn then (\<lambda>i. if i < BSIZE then d i else 0) else disk_block s2 n)"
    using cache.write_law [OF assms(1)] assms(3) unfolding did_def set_bdata_def by blast
  have B: "B = blocks s2" using assms(3) by (simp add: did_def)
  have "blocks s' = B(bn := clip d)" unfolding B using w(5) assms(4) by (auto simp: blocks_def clip_def)
  then have "did s1 s' (B(bn := clip d)) I"
    using w assms(3) balanced_trans outside_same_trans unfolding did_def by blast
  from release_block [OF assms(1,2) this] show thesis by (rule that [OF w(1)])
qed

lemma write_release_block:
  assumes "acquired bn b s s1" "outside_same s s1" "did s1 s2 B I" "unat bn < 2 ^ 31"
  obtains s3 where "write_release b d s2 = Some s3" "did s s3 (B(bn := clip d)) I"
proof -
  obtain s' where "bio_write b (upd_buf b (\<lambda>u. u\<lparr>bdata := d\<rparr>) s2) = Some (0, s')" "did s (bio_release b s') (B(bn := clip d)) I"
    by (rule write_block [OF assms])
  then show thesis using that by (simp add: write_release_def)
qed

text \<open>A change of a block that computes each byte from the same byte before.\<close>

definition bytewise :: "(bytes \<Rightarrow> bytes) \<Rightarrow> bool" where
  "bytewise f \<longleftrightarrow> (\<forall>d d' j. d j = d' j \<longrightarrow> f d j = f d' j)"

lemma bytewiseD: "bytewise f \<Longrightarrow> d j = d' j \<Longrightarrow> f d j = f d' j"
  unfolding bytewise_def by blast

lemma bytewiseI: "(\<And>d d' j. d j = d' j \<Longrightarrow> f d j = f d' j) \<Longrightarrow> bytewise f"
  unfolding bytewise_def by blast

lemma clip_bytewise: "bytewise f \<Longrightarrow> \<forall>i<BSIZE. d i = d' i \<Longrightarrow> clip (f d) = clip (f d')"
proof
  fix i assume "bytewise f" "\<forall>i<BSIZE. d i = d' i"
  then show "clip (f d) i = clip (f d') i" using bytewiseD [of f d i d'] by (cases "i < BSIZE") (auto simp: clip_def)
qed

lemma modify_block:
  fixes s :: "'a fs_st_scheme"
  assumes "bio_ok s" "unat bn < 2 ^ 31" "held s < NBUF" "bytewise f"
  obtains b s1 s3 where "bio_read 0 bn s = Some (Some b, s1)" "icache s1 = icache s" "sb s1 = sb s"
    "write_release b (f (bdata (bufs s1 b))) s1 = Some s3" "did s s3 ((blocks s)(bn := clip (f (blocks s bn)))) (icache s)"
proof -
  obtain b s1 where r: "bio_read 0 bn s = Some (Some b, s1)" "bio_ok s1" "blocks s1 = blocks s" "acquired bn b s s1"
    "outside_same s s1" "icache s1 = icache s" "sb s1 = sb s" by (rule read_block [OF assms(1-3)])
  have "\<forall>i<BSIZE. bdata (bufs s1 b) i = blocks s bn i"
    using held_contents [OF r(4,2) balanced_refl r(2) assms(2)] r(3) by simp
  then have c: "clip (f (bdata (bufs s1 b))) = clip (f (blocks s bn))" by (rule clip_bytewise [OF assms(4)])
  have d: "did s1 s1 (blocks s) (icache s)" using did_refl [OF r(2)] r(3,6) by simp
  obtain s3 where "write_release b (f (bdata (bufs s1 b))) s1 = Some s3"
      "did s s3 ((blocks s)(bn := clip (f (bdata (bufs s1 b))))) (icache s)"
    by (rule write_release_block [OF r(4,5) d assms(2)])
  then show thesis using that r c by simp
qed

subsection \<open>Inodes on disk\<close>

lemma bytewise_put: "bytewise (put16 i v)" "bytewise (put32 i w)"
  by (auto simp: bytewise_def put16_def put32_def)

lemma bytewise_comp: "bytewise f \<Longrightarrow> bytewise g \<Longrightarrow> bytewise (\<lambda>d. f (g d))"
  by (rule bytewiseI) (erule bytewiseD, erule (1) bytewiseD)

lemma bytewise_fold: "(\<And>x. bytewise (f x)) \<Longrightarrow> bytewise (fold f xs)"
proof (induction xs)
  case Nil
  then show ?case by (intro bytewiseI) simp
next
  case (Cons x xs)
  then show ?case using bytewise_comp [of "fold f xs" "f x"] by (simp add: o_def)
qed

lemma bytewise_store_dinode: "bytewise (store_dinode ip off)"
proof -
  have "bytewise (fold (\<lambda>i d. put32 (off + 12 + 4 * i) (iaddrs ip i) d) [0..<NDIRECT + 2])"
    by (rule bytewise_fold) (rule bytewise_put)
  note a = bytewise_comp [OF this bytewise_put(2) [of "off + 8" "isize ip"]]
  note b = bytewise_comp [OF a bytewise_put(1) [of "off + 6" "inlink ip"]]
  note c = bytewise_comp [OF b bytewise_put(1) [of "off + 4" "iminor ip"]]
  note d = bytewise_comp [OF c bytewise_put(1) [of "off + 2" "imajor ip"]]
  note e = bytewise_comp [OF d bytewise_put(1) [of off "itype ip"]]
  have "store_dinode ip off = (\<lambda>d. fold (\<lambda>i d. put32 (off + 12 + 4 * i) (iaddrs ip i) d) [0..<NDIRECT + 2]
       (put32 (off + 8) (isize ip) (put16 (off + 6) (inlink ip) (put16 (off + 4) (iminor ip)
         (put16 (off + 2) (imajor ip) (put16 off (itype ip) d))))))"
    by (rule ext) (rule store_dinode_def)
  then show ?thesis using e by simp
qed

definition iblock :: "'a fs_st_scheme \<Rightarrow> nat \<Rightarrow> u32" where
  "iblock s i = IBLOCK (inum (icache s i)) (sb s)"

definition inode_ok :: "'a fs_st_scheme \<Rightarrow> nat \<Rightarrow> bool" where
  "inode_ok s i \<longleftrightarrow> idev (icache s i) = 0 \<and> unat (iblock s i) < 2 ^ 31"

lemma dinode_off_bound: "dinode_off n + DINODE_SIZE \<le> BSIZE"
proof -
  have "unat n mod 16 < 16" by simp
  then show ?thesis by (simp add: dinode_off_def fs_consts)
qed

lemma fs_iupdate_did:
  assumes "bio_ok s" "held s < NBUF" "inode_ok s i"
  obtains s' where "fs_iupdate i s = Some s'"
    "did s s' ((blocks s)(iblock s i := clip (store_dinode (icache s i) (dinode_off (inum (icache s i))) (blocks s (iblock s i))))) (icache s)"
proof -
  have dev: "idev (icache s i) = 0" and bn: "unat (iblock s i) < 2 ^ 31" using assms(3) by (auto simp: inode_ok_def)
  obtain b s1 s3 where "bio_read 0 (iblock s i) s = Some (Some b, s1)" "icache s1 = icache s" "sb s1 = sb s"
    "write_release b (store_dinode (icache s i) (dinode_off (inum (icache s i))) (bdata (bufs s1 b))) s1 = Some s3"
    "did s s3 ((blocks s)(iblock s i := clip (store_dinode (icache s i) (dinode_off (inum (icache s i))) (blocks s (iblock s i))))) (icache s)"
    by (rule modify_block [OF assms(1) bn assms(2) bytewise_store_dinode])
  then show thesis using that dev by (simp add: fs_iupdate_def iblock_def)
qed

lemma load_dinode_cong:
  "\<forall>i. off \<le> i \<and> i < off + DINODE_SIZE \<longrightarrow> d i = d' i \<Longrightarrow> load_dinode d off ip = load_dinode d' off ip"
proof -
  assume a: "\<forall>i. off \<le> i \<and> i < off + DINODE_SIZE \<longrightarrow> d i = d' i"
  have "get16 d (off + k) = get16 d' (off + k)" if "k + 2 \<le> 64" for k
    using a that by (intro get16_cong) (auto simp: DINODE_SIZE_def)
  note g16 = this [of 0] this [of 2] this [of 4] this [of 6]
  have g32: "get32 d (off + k) = get32 d' (off + k)" if "k + 4 \<le> 64" for k
    using a that by (intro get32_cong) (auto simp: DINODE_SIZE_def)
  have "get32 d (off + 12 + 4 * k) = get32 d' (off + 12 + 4 * k)" if "k < NDIRECT + 2" for k
    using g32 [of "12 + 4 * k"] that by (simp add: NDIRECT_def add.assoc)
  then show ?thesis using g16 g32 [of 8] by (simp add: load_dinode_def cong: if_cong)
qed

lemma fs_ilock_did:
  assumes "bio_ok s" "held s < NBUF" "inode_ok s i" "1 \<le> iref (icache s i)" "\<not> ilocked (icache s i)"
  defines "ip \<equiv> (icache s i)\<lparr>ilocked := True\<rparr>"
  obtains s' where "fs_ilock i s = Some s'"
    "did s s' (blocks s) ((icache s)(i := if ivalid ip then ip
       else (load_dinode (blocks s (iblock s i)) (dinode_off (inum ip)) ip)\<lparr>ivalid := True\<rparr>))"
proof -
  let ?t = "upd_inode i (\<lambda>ip. ip\<lparr>ilocked := True\<rparr>) s"
  have dev: "idev (icache s i) = 0" and bn: "unat (iblock s i) < 2 ^ 31" using assms(3) by (auto simp: inode_ok_def)
  have t: "did s ?t (blocks s) ((icache s)(i := ip))" using did_upd_inode [OF assms(1)] by (simp add: ip_def)
  note tf = did_fields [OF t]
  have i: "icache ?t i = ip" using tf(4) by simp
  have unf: "fs_ilock i s = (if ivalid ip then Some ?t else
      with_block 0 (iblock s i) Some (\<lambda>b s. let d = bdata (bufs s b); s = upd_inode i (load_dinode d (dinode_off (inum (icache s i)))) s
                   in Some (upd_inode i (\<lambda>ip. ip\<lparr>ivalid := True\<rparr>) (bio_release b s))) ?t)"
    using assms(4,5) dev i tf(5) by (simp add: fs_ilock_def Let_def iblock_def ip_def)
  show thesis
  proof (cases "ivalid ip")
    case True
    then show ?thesis using unf t that by simp
  next
    case False
    obtain b s1 where r: "bio_read 0 (iblock s i) ?t = Some (Some b, s1)" "bio_ok s1" "blocks s1 = blocks ?t"
      "acquired (iblock s i) b ?t s1" "outside_same ?t s1" "icache s1 = icache ?t" "sb s1 = sb ?t"
      using read_block [OF tf(1) bn] assms(2) tf(6) by metis
    have "\<forall>j<BSIZE. bdata (bufs s1 b) j = blocks s (iblock s i) j"
      using held_contents [OF r(4,2) balanced_refl r(2) bn] r(3) tf(3) by simp
    then have ld: "load_dinode (bdata (bufs s1 b)) (dinode_off (inum ip)) ip = load_dinode (blocks s (iblock s i)) (dinode_off (inum ip)) ip"
      using dinode_off_bound [of "inum ip"] by (intro load_dinode_cong) auto
    let ?u = "upd_inode i (load_dinode (bdata (bufs s1 b)) (dinode_off (inum ip))) s1"
    let ?I = "(icache s)(i := load_dinode (blocks s (iblock s i)) (dinode_off (inum ip)) ip)"
    have i1: "icache s1 i = ip" using r(6) i by simp
    have "did s1 ?u (blocks s) ((icache s1)(i := load_dinode (bdata (bufs s1 b)) (dinode_off (inum ip)) (icache s1 i)))"
      using did_upd_inode [OF r(2), of i "load_dinode (bdata (bufs s1 b)) (dinode_off (inum ip))"] r(3) tf(3) by simp
    then have u: "did s1 ?u (blocks s) ?I" using r(6) tf(4) i1 ld by simp
    have v: "did ?t (bio_release b ?u) (blocks s) ?I" by (rule release_block [OF r(4,5) u])
    note vf = did_fields [OF v]
    let ?w = "upd_inode i (\<lambda>ip. ip\<lparr>ivalid := True\<rparr>) (bio_release b ?u)"
    have "did (bio_release b ?u) ?w (blocks s) (?I(i := (?I i)\<lparr>ivalid := True\<rparr>))"
      using did_upd_inode [OF vf(1), of i "\<lambda>ip. ip\<lparr>ivalid := True\<rparr>"] unfolding vf(3,4) .
    then have "did s ?w (blocks s) (?I(i := (?I i)\<lparr>ivalid := True\<rparr>))" using did_trans [OF t did_trans [OF v]] by blast
    moreover have "fs_ilock i s = Some ?w" using False r(1) i1 by (simp add: unf Let_def)
    ultimately show ?thesis using that False by simp
  qed
qed

text \<open>Two different inodes never share bytes on the disk.\<close>

lemma dinode_disjoint:
  assumes "IBLOCK n b = IBLOCK k b" "n \<noteq> k"
  shows "dinode_off n + DINODE_SIZE \<le> dinode_off k \<or> dinode_off k + DINODE_SIZE \<le> dinode_off n"
proof -
  have "n div of_nat IPB = k div of_nat IPB" using assms(1) by (simp add: IBLOCK_def)
  then have "unat (n div of_nat IPB) = unat (k div of_nat IPB)" by simp
  then have "unat n div 16 = unat k div 16" by (simp add: unat_div fs_consts)
  moreover have "unat n \<noteq> unat k" using assms(2) by (simp add: word_unat_eq_iff)
  ultimately have "unat n mod 16 \<noteq> unat k mod 16" by (metis mod_div_decomp)
  then show ?thesis unfolding dinode_off_def fs_consts by auto
qed

definition on_disk :: "'a fs_st_scheme \<Rightarrow> u32 \<Rightarrow> inode \<Rightarrow> inode" where
  "on_disk s n ip = load_dinode (blocks s (IBLOCK n (sb s))) (dinode_off n) ip"

lemma on_disk_update:
  assumes "blocks s' = (blocks s)(IBLOCK k (sb s) := clip (store_dinode ip (dinode_off k) (blocks s (IBLOCK k (sb s)))))" "sb s' = sb s"
  shows "on_disk s' n jp = (if n = k then load_dinode (store_dinode ip (dinode_off k) (\<lambda>_. 0)) (dinode_off k) jp else on_disk s n jp)"
proof (cases "IBLOCK n (sb s) = IBLOCK k (sb s)")
  case False
  then show ?thesis using assms by (auto simp: on_disk_def)
next
  case True
  let ?d = "store_dinode ip (dinode_off k) (blocks s (IBLOCK k (sb s)))"
  have "on_disk s' n jp = load_dinode (clip ?d) (dinode_off n) jp" using assms True by (simp add: on_disk_def)
  also have "\<dots> = load_dinode ?d (dinode_off n) jp"
    using dinode_off_bound [of n] by (intro load_dinode_cong) auto
  also have "\<dots> = (if n = k then load_dinode (store_dinode ip (dinode_off k) (\<lambda>_. 0)) (dinode_off k) jp else on_disk s n jp)"
  proof (cases "n = k")
    case True
    then show ?thesis by (simp add: load_store_dinode)
  next
    case False
    then have "load_dinode ?d (dinode_off n) jp = load_dinode (blocks s (IBLOCK k (sb s))) (dinode_off n) jp"
      using dinode_disjoint [OF True] by (intro load_dinode_cong) (auto intro!: store_dinode_other)
    then show ?thesis using False True by (simp add: on_disk_def)
  qed
  finally show ?thesis .
qed

text \<open>Property C24. What \<^verbatim>\<open>fs_iupdate\<close> writes, \<^verbatim>\<open>fs_ilock\<close> reads back: after an update of inode \<open>k\<close>, locking any not yet
  loaded cache entry for \<open>k\<close> gives it the type, device numbers, link count, size and block addresses that were
  written; the disk copies of all other inodes are unchanged.\<close>

theorem inode_roundtrip:
  assumes "bio_ok s" "held s < NBUF" "inode_ok s i"
    "idev jp = 0" "inum jp = inum (icache s i)" "1 \<le> iref jp" "\<not> ilocked jp" "\<not> ivalid jp"
  shows "\<exists>s1 s2. fs_iupdate i s = Some s1 \<and> fs_ilock j (s1\<lparr>icache := (icache s1)(j := jp)\<rparr>) = Some s2 \<and>
    icache s2 j = jp\<lparr>ilocked := True, ivalid := True, itype := itype (icache s i), imajor := imajor (icache s i),
      iminor := iminor (icache s i), inlink := inlink (icache s i), isize := isize (icache s i),
      iaddrs := (\<lambda>a. if a < NDIRECT + 2 then iaddrs (icache s i) a else iaddrs jp a)\<rparr> \<and>
    (\<forall>n kp. n \<noteq> inum (icache s i) \<longrightarrow> on_disk s1 n kp = on_disk s n kp)"
proof -
  let ?ip = "icache s i" and ?k = "inum (icache s i)"
  obtain s1 where u: "fs_iupdate i s = Some s1"
    "did s s1 ((blocks s)(iblock s i := clip (store_dinode ?ip (dinode_off ?k) (blocks s (iblock s i))))) (icache s)"
    by (rule fs_iupdate_did [OF assms(1-3)])
  note f = did_fields [OF u(2)]
  have od: "on_disk s1 n kp = (if n = ?k then load_dinode (store_dinode ?ip (dinode_off ?k) (\<lambda>_. 0)) (dinode_off ?k) kp else on_disk s n kp)" for n kp
    using on_disk_update [OF _ f(5), of ?k ?ip n kp] f(3) by (simp add: iblock_def)
  let ?t = "s1\<lparr>icache := (icache s1)(j := jp)\<rparr>"
  have t: "did s1 ?t (blocks s1) ((icache s1)(j := jp))" by (rule did_icache [OF f(1)])
  note tf = did_fields [OF t]
  have ib: "iblock ?t j = IBLOCK ?k (sb s)" using f(5) assms(5) by (simp add: iblock_def)
  then have "inode_ok ?t j" using assms(3,4) by (simp add: inode_ok_def) (simp add: iblock_def)
  then obtain s2 where l: "fs_ilock j ?t = Some s2"
    "did ?t s2 (blocks ?t) ((icache ?t)(j := (load_dinode (blocks ?t (iblock ?t j)) (dinode_off ?k) (jp\<lparr>ilocked := True\<rparr>))\<lparr>ivalid := True\<rparr>))"
    using fs_ilock_did [OF tf(1), of j] tf(6) f(6) assms(2,5-8) by auto
  have "load_dinode (blocks ?t (iblock ?t j)) (dinode_off ?k) (jp\<lparr>ilocked := True\<rparr>) = on_disk s1 ?k (jp\<lparr>ilocked := True\<rparr>)"
    using ib tf(3) f(5) by (simp add: on_disk_def)
  then have "icache s2 j = (load_dinode (store_dinode ?ip (dinode_off ?k) (\<lambda>_. 0)) (dinode_off ?k) (jp\<lparr>ilocked := True\<rparr>))\<lparr>ivalid := True\<rparr>"
    using did_fields(4) [OF l(2)] by (simp add: od)
  then have "icache s2 j = jp\<lparr>ilocked := True, ivalid := True, itype := itype ?ip, imajor := imajor ?ip,
      iminor := iminor ?ip, inlink := inlink ?ip, isize := isize ?ip,
      iaddrs := (\<lambda>a. if a < NDIRECT + 2 then iaddrs ?ip a else iaddrs jp a)\<rparr>"
    by (simp add: load_store_dinode cong: if_cong)
  then show ?thesis using u(1) l(1) od by auto
qed

definition sb_ok :: "superblock \<Rightarrow> bool" where
  "sb_ok b \<longleftrightarrow> unat (sbsize b) < 2 ^ 30 \<and> unat (bmapstart b) < 2 ^ 30"

text \<open>A small disk for the examples: blocks 0 to 4 are marked in the bitmap, which is block 3.\<close>

definition demo_fs :: fs_st where
  "demo_fs = bio_st.extend (bio_init (demo_bio\<lparr>sectors := (\<lambda>_ i. if i = 0 then 31 else 0)\<rparr>)) (fs_st.fields
       (\<lambda>_. \<lparr>idev = 0, inum = 5, iref = 1, ivalid = True, ilocked = False, itype = T_FILE, imajor = 0, iminor = 0,
              inlink = 1, isize = 3, iaddrs = (\<lambda>_. 0)(0 := 4)\<rparr>)
       \<lparr>magic = 0x10203040, sbsize = 6, nblocks = 2, ninodes = 16, inodestart = 2, bmapstart = 3\<rparr>)"

lemma bio_ok_extend: "bio_ok (bio_st.extend s f) = bio_ok s" "held (bio_st.extend s f) = held s"
  by (simp_all add: bio_ok_def bio_inv_def ring_def first_only_def coherent_def vio_ok_def qlist_def held_def
      sorted_wrt_iff_nth_less disk_block_def bio_st.defs)

lemma demo_fs_ok: "bio_ok demo_fs" "held demo_fs = 0" "sb_ok (sb demo_fs)"
  "blocks demo_fs bn = (if unat bn < 2 ^ 31 then (\<lambda>i. if i = 0 \<or> i = 512 then 31 else 0) else (\<lambda>_. 0))"
proof -
  have "vio_ok (demo_bio\<lparr>sectors := (\<lambda>_ i. if i = 0 then 31 else 0)\<rparr>)"
    using demo_bio_ok(1) by (auto simp: bio_ok_def vio_ok_def qlist_def)
  from bio_init_ok [OF this] show "bio_ok demo_fs" "held demo_fs = 0"
    by (simp_all add: demo_fs_def bio_ok_extend)
  show "sb_ok (sb demo_fs)" by (simp add: demo_fs_def sb_ok_def bio_st.defs fs_st.defs)
  have "sectors demo_fs = (\<lambda>_ i. if i = 0 then 31 else 0)"
    using bio_init_frame(1) [of "demo_bio\<lparr>sectors := (\<lambda>_ i. if i = 0 then 31 else 0)\<rparr>"] by (simp add: demo_fs_def bio_st.defs fs_st.defs)
  then show "blocks demo_fs bn = (if unat bn < 2 ^ 31 then (\<lambda>i. if i = 0 \<or> i = 512 then 31 else 0) else (\<lambda>_. 0))"
    by (auto simp: blocks_def disk_block_def fun_eq_iff BSIZE_def)
qed

lemma demo_fs_held: "held demo_fs < NBUF" by (simp add: demo_fs_ok NBUF_def)

lemma demo_fs_fields:
  "sb demo_fs = \<lparr>magic = 0x10203040, sbsize = 6, nblocks = 2, ninodes = 16, inodestart = 2, bmapstart = 3\<rparr>"
  "icache demo_fs i = \<lparr>idev = 0, inum = 5, iref = 1, ivalid = True, ilocked = False, itype = T_FILE, imajor = 0, iminor = 0,
              inlink = 1, isize = 3, iaddrs = (\<lambda>_. 0)(0 := 4)\<rparr>"
  by (simp_all add: demo_fs_def bio_st.defs fs_st.defs)

theorem inode_roundtrip_witness:
  "\<exists>s1 s2. fs_iupdate 0 demo_fs = Some s1 \<and>
    fs_ilock 7 (s1\<lparr>icache := (icache s1)(7 := (icache demo_fs 0)\<lparr>ivalid := False, isize := 99\<rparr>)\<rparr>) = Some s2 \<and> isize (icache s2 7) = 3"
proof -
  have "inode_ok demo_fs 0" by (simp add: inode_ok_def iblock_def demo_fs_fields IBLOCK_def fs_consts)
  from inode_roundtrip [OF demo_fs_ok(1) demo_fs_held this, of "(icache demo_fs 0)\<lparr>ivalid := False, isize := 99\<rparr>" 7]
  show ?thesis by (auto simp: demo_fs_fields)
qed

subsection \<open>Block allocation\<close>

text \<open>Block \<open>k\<close> is marked as used.\<close>

definition marked :: "superblock \<Rightarrow> (u32 \<Rightarrow> bytes) \<Rightarrow> nat \<Rightarrow> bool" where
  "marked b B k \<longleftrightarrow> \<not> bit_clear (B (BBLOCK (of_nat k) b)) (k mod BPB)"

text \<open>What \<^verbatim>\<open>balloc\<close> does to the blocks: mark the first free block and fill it with zeros.\<close>

definition alloc_block :: "superblock \<Rightarrow> (u32 \<Rightarrow> bytes) \<Rightarrow> u32 \<times> (u32 \<Rightarrow> bytes)" where
  "alloc_block b B =
     (case List.find (\<lambda>k. \<not> marked b B k) [0..<unat (sbsize b)] of
        None \<Rightarrow> (0, B)
      | Some k \<Rightarrow>
          (of_nat k, B(BBLOCK (of_nat k) b := clip (bm_set (k mod BPB) (B (BBLOCK (of_nat k) b))), of_nat k := (\<lambda>_. 0))))"

lemma bytewise_bm: "bytewise (bm_set k)" "bytewise (bm_clear k)" "bytewise (\<lambda>d. memset d 0 0 BSIZE)"
  by (auto intro!: bytewiseI simp: bm_set_def bm_clear_def memset_eq)

lemma clip_memset: "clip (memset d 0 0 BSIZE) = (\<lambda>_. 0)"
  by (auto simp: clip_def memset_eq)

lemma zero_block_did:
  assumes "bio_ok s" "held s < NBUF" "unat bn < 2 ^ 31"
  obtains s' where "zero_block 0 bn s = Some s'" "did s s' ((blocks s)(bn := (\<lambda>_. 0))) (icache s)"
proof -
  obtain b s1 s3 where "bio_read 0 bn s = Some (Some b, s1)" "icache s1 = icache s" "sb s1 = sb s"
    "write_release b (memset (bdata (bufs s1 b)) 0 0 BSIZE) s1 = Some s3"
    "did s s3 ((blocks s)(bn := clip (memset (blocks s bn) 0 0 BSIZE))) (icache s)"
    by (rule modify_block [OF assms(1,3,2) bytewise_bm(3)])
  then show thesis using that by (simp add: zero_block_def clip_memset)
qed

lemma BBLOCK_bound: "sb_ok b \<Longrightarrow> n \<le> sbsize b \<Longrightarrow> unat (BBLOCK n b) < 2 ^ 31"
  by (auto simp: sb_ok_def BBLOCK_def fs_consts unat_word_ariths unat_div word_le_nat_alt
      intro!: le_less_trans [OF mod_less_eq_dividend])

lemma bit_clear_cong: "k < BPB \<Longrightarrow> \<forall>i<BSIZE. d i = d' i \<Longrightarrow> bit_clear d k = bit_clear d' k"
  by (simp add: bit_clear_def fs_consts)

lemma BBLOCK_block:
  assumes "c < 2 ^ 31" "c mod BPB = 0" "j < BPB"
  shows "BBLOCK (of_nat (c + j)) b = BBLOCK (of_nat c) b" "(c + j) mod BPB = j"
proof -
  have "unat (of_nat (c + j) :: u32) = c + j" "unat (of_nat c :: u32) = c"
    using assms by (simp_all add: unat_of_nat_small fs_consts del: of_nat_add)
  then have "unat (of_nat (c + j) div of_nat BPB :: u32) = unat (of_nat c div of_nat BPB :: u32)"
    using assms(2,3) by (auto simp: unat_div fs_consts simp del: of_nat_add)
  then show "BBLOCK (of_nat (c + j)) b = BBLOCK (of_nat c) b"
    by (simp only: BBLOCK_def word_unat_eq_iff [symmetric])
  show "(c + j) mod BPB = j" using assms by (metis add_0 mod_add_left_eq mod_less)
qed

lemma find_map: "List.find Q (map f xs) = map_option f (List.find (\<lambda>x. Q (f x)) xs)"
  by (induction xs) auto

lemma upt_split: "m \<le> n \<Longrightarrow> k \<le> m \<Longrightarrow> [k..<n] = [k..<m] @ [m..<n]"
  using upt_add_eq_append [of k m "n - m"] by simp

lemma find_shift:
  assumes "\<And>j. j < m \<Longrightarrow> P j \<longleftrightarrow> Q (c + j)"
  shows "List.find Q [c..<c + m] = map_option (\<lambda>j. c + j) (List.find P [0..<m])"
proof -
  have "[c..<c + m] = map (\<lambda>j. c + j) [0..<m]" by (simp add: map_add_upt add.commute)
  then have "List.find Q [c..<c + m] = map_option (\<lambda>j. c + j) (List.find (\<lambda>j. Q (c + j)) [0..<m])"
    by (simp only: find_map)
  also have "List.find (\<lambda>j. Q (c + j)) [0..<m] = List.find P [0..<m]"
    using assms by (intro find_cong) auto
  finally show ?thesis .
qed

lemma takeWhile_upto: "takeWhile (\<lambda>j. j < m) [0..<n] = [0..<min m n]"
proof (cases "m \<le> n")
  case True
  then have "[0..<n] = [0..<m] @ [m..<n]" by (rule upt_split) simp
  moreover have "takeWhile (\<lambda>j. j < m) [m..<n] = []" by (cases "m < n") (simp_all add: upt_conv_Cons)
  moreover have "takeWhile (\<lambda>j. j < m) ([0..<m] @ [m..<n]) = [0..<m] @ takeWhile (\<lambda>j. j < m) [m..<n]"
    by (rule takeWhile_append2) simp
  ultimately show ?thesis using True by simp
qed (simp add: takeWhile_eq_all_conv)

lemma balloc_loop_did:
  assumes "bio_ok s" "held s < NBUF" "sb_ok (sb s)" "unat b mod BPB = 0" "unat b < 2 ^ 31"
    "\<forall>k<unat b. k < unat (sbsize (sb s)) \<longrightarrow> marked (sb s) (blocks s) k"
  shows "\<exists>s'. balloc_loop 0 b s = Some (fst (alloc_block (sb s) (blocks s)), s') \<and>
    did s s' (snd (alloc_block (sb s) (blocks s))) (icache s)"
  using assms
proof (induction "unat (sbsize (sb s)) - unat b" arbitrary: b s rule: less_induct)
  case less
  let ?n = "unat (sbsize (sb s))"
  have n: "?n < 2 ^ 30" using less.prems(3) by (simp add: sb_ok_def)
  show ?case
  proof (cases "b < sbsize (sb s)")
    case False
    then have "List.find (\<lambda>k. \<not> marked (sb s) (blocks s) k) [0..<?n] = None"
      using less.prems(6) by (auto simp: find_None_iff word_less_nat_alt)
    then show ?thesis
      using False did_refl [OF less.prems(1)] by (subst balloc_loop.simps) (simp add: alloc_block_def)
  next
    case True
    then have bn: "unat b < ?n" by (simp add: word_less_nat_alt)
    define m where "m = min (?n - unat b) BPB"
    let ?bb = "BBLOCK b (sb s)"
    have bb: "unat ?bb < 2 ^ 31" using BBLOCK_bound [OF less.prems(3)] True by simp
    obtain bp s1 where r: "bio_read 0 ?bb s = Some (Some bp, s1)" "bio_ok s1" "blocks s1 = blocks s" "acquired ?bb bp s s1"
      "outside_same s s1" "icache s1 = icache s" "sb s1 = sb s" by (rule read_block [OF less.prems(1) bb less.prems(2)])
    have cont: "\<forall>i<BSIZE. bdata (bufs s1 bp) i = blocks s ?bb i"
      using held_contents [OF r(4,2) balanced_refl r(2) bb] r(3) by simp
    have d1: "did s1 s1 (blocks s) (icache s)" using did_refl [OF r(2)] r(3,6) by simp
    have ub: "b = of_nat (unat b)" by simp
    have blk: "BBLOCK (of_nat (unat b + j)) (sb s) = ?bb" "(unat b + j) mod BPB = j" if "j < BPB" for j
      using BBLOCK_block [OF less.prems(5,4) that] by simp_all
    have lt: "b + of_nat j < sbsize (sb s) \<longleftrightarrow> j < ?n - unat b" if "j < BPB" for j
    proof -
      have "unat (of_nat j :: u32) = j" using that by (simp add: unat_of_nat_small fs_consts)
      then have "unat (b + of_nat j) = unat b + j"
        using that bn n by (subst unat_plus_if_size) (auto simp: fs_consts)
      then show ?thesis by (auto simp: word_less_nat_alt)
    qed
    have scan: "takeWhile (\<lambda>bi. b + of_nat bi < sbsize (sb s)) [0..<BPB] = [0..<m]"
    proof -
      have "takeWhile (\<lambda>bi. b + of_nat bi < sbsize (sb s)) [0..<BPB] = takeWhile (\<lambda>bi. bi < ?n - unat b) [0..<BPB]"
        using lt by (intro takeWhile_cong) auto
      then show ?thesis by (simp add: takeWhile_upto m_def)
    qed
    have m: "m \<le> BPB" "unat b + m \<le> ?n" using bn by (auto simp: m_def)
    have fnd: "List.find (\<lambda>k. \<not> marked (sb s) (blocks s) k) [unat b..<unat b + m] =
        map_option (\<lambda>j. unat b + j) (List.find (bit_clear (bdata (bufs s1 bp))) [0..<m])"
    proof (rule find_shift)
      fix j assume "j < m"
      then have j: "j < BPB" using m by simp
      show "bit_clear (bdata (bufs s1 bp)) j \<longleftrightarrow> \<not> marked (sb s) (blocks s) (unat b + j)"
        using bit_clear_cong [OF j cont] blk [OF j] by (simp add: marked_def)
    qed
    have split: "[0..<?n] = [0..<unat b] @ [unat b..<unat b + m] @ [unat b + m..<?n]"
      using m upt_split [of "unat b" ?n 0] upt_split [of "unat b + m" ?n "unat b"] by simp
    have none: "List.find (\<lambda>k. \<not> marked (sb s) (blocks s) k) [0..<unat b] = None"
      using less.prems(6) bn by (auto simp: find_None_iff)
    show ?thesis
    proof (cases "List.find (bit_clear (bdata (bufs s1 bp))) [0..<m]")
      case (Some j)
      then have j: "j < m" "j < BPB" using m by (auto simp: find_Some_iff)
      let ?k = "unat b + j"
      have whole: "List.find (\<lambda>k. \<not> marked (sb s) (blocks s) k) [0..<?n] = Some ?k"
        unfolding split using none fnd Some by (simp add: find_append)
      obtain s2 where w: "write_release bp (bm_set j (bdata (bufs s1 bp))) s1 = Some s2"
          "did s s2 ((blocks s)(?bb := clip (bm_set j (bdata (bufs s1 bp))))) (icache s)"
        by (rule write_release_block [OF r(4,5) d1 bb])
      have cl: "clip (bm_set j (bdata (bufs s1 bp))) = clip (bm_set j (blocks s ?bb))"
        by (rule clip_bytewise [OF bytewise_bm(1) cont])
      note f2 = did_fields [OF w(2)]
      let ?a = "b + of_nat j :: u32"
      have uk: "of_nat ?k = ?a" by simp
      have "unat (of_nat ?k :: u32) < 2 ^ 31" using j m n by (subst unat_of_nat_small) auto
      then have kb: "unat ?a < 2 ^ 31" unfolding uk .
      obtain s3 where z: "zero_block 0 ?a s2 = Some s3" "did s2 s3 ((blocks s2)(?a := (\<lambda>_. 0))) (icache s2)"
        using zero_block_did [OF f2(1) _ kb] f2(6) less.prems(2) by metis
      have "balloc_loop 0 b s = Some (?a, s3)"
        using True r(1) w(1) z(1) Some scan r(7) by (subst balloc_loop.simps) simp
      moreover have "did s s3 ((blocks s)(?bb := clip (bm_set j (blocks s ?bb)), ?a := (\<lambda>_. 0))) (icache s)"
        using did_trans [OF w(2) z(2)] unfolding f2(3,4) cl .
      moreover have "alloc_block (sb s) (blocks s) = (?a, (blocks s)(?bb := clip (bm_set j (blocks s ?bb)), ?a := (\<lambda>_. 0)))"
        using blk [OF j(2)] whole by (simp add: alloc_block_def)
      ultimately show ?thesis by simp
    next
      case None
      let ?s = "bio_release bp s1"
      have rel: "did s ?s (blocks s) (icache s)" by (rule release_block [OF r(4,5) d1])
      note fr = did_fields [OF rel]
      have bp': "BPB = 8192" by (simp add: fs_consts)
      have step: "balloc_loop 0 b s = balloc_loop 0 (b + of_nat BPB) ?s"
        using True r(1) None scan r(7) by (subst balloc_loop.simps) simp
      have ub': "unat (b + of_nat BPB) = unat b + BPB"
        using bn n by (subst unat_plus_if_size) (auto simp: bp')
      have all: "\<forall>k<unat b + BPB. k < ?n \<longrightarrow> marked (sb s) (blocks s) k"
      proof (intro allI impI)
        fix k assume k: "k < unat b + BPB" "k < ?n"
        show "marked (sb s) (blocks s) k"
        proof (cases "k < unat b")
          case False
          then have "k \<in> set [unat b..<unat b + m]" using k by (auto simp: m_def)
          then show ?thesis using fnd None by (auto simp: find_None_iff)
        qed (use less.prems(6) k in simp)
      qed
      have "\<exists>s'. balloc_loop 0 (b + of_nat BPB) ?s = Some (fst (alloc_block (sb ?s) (blocks ?s)), s') \<and>
          did ?s s' (snd (alloc_block (sb ?s) (blocks ?s))) (icache ?s)"
      proof (rule less.hyps)
        show "unat (sbsize (sb ?s)) - unat (b + of_nat BPB) < ?n - unat b" using bn bp' unfolding fr(5) ub' by linarith
        show "bio_ok ?s" "held ?s < NBUF" "sb_ok (sb ?s)" using fr less.prems(2,3) by simp_all
        show "unat (b + of_nat BPB) mod BPB = 0" using less.prems(4) by (simp add: ub')
        show "unat (b + of_nat BPB) < 2 ^ 31" using bn n bp' unfolding ub' by simp
        show "\<forall>k<unat (b + of_nat BPB). k < unat (sbsize (sb ?s)) \<longrightarrow> marked (sb ?s) (blocks ?s) k"
          using all by (simp add: ub' fr(3,5))
      qed
      then show ?thesis using step did_trans [OF rel] by (auto simp: fr(3-5))
    qed
  qed
qed

lemma bit_clear_bit: "bit_clear d k \<longleftrightarrow> \<not> bit (d (k div 8)) (k mod 8)"
  by (simp add: bit_clear_def push_bit_eq_mult and_exp_eq_0_iff_not_bit)

lemma div_mod_8: "j \<noteq> k \<Longrightarrow> j div 8 = k div 8 \<Longrightarrow> j mod 8 \<noteq> k mod (8 :: nat)"
  by (metis div_mult_mod_eq)

lemma bit_clear_bm:
  "bit_clear (bm_set k d) j \<longleftrightarrow> bit_clear d j \<and> j \<noteq> k" "bit_clear (bm_clear k d) j \<longleftrightarrow> bit_clear d j \<or> j = k"
  using div_mod_8 [of j k] by (auto simp: bit_clear_bit bm_set_def bm_clear_def bit_simps)

lemma bit_clear_clip: "k < BPB \<Longrightarrow> bit_clear (clip d) k = bit_clear d k"
  by (rule bit_clear_cong) auto

lemma BBLOCK_eq:
  assumes "j < 2 ^ 32" "k < 2 ^ 32"
  shows "BBLOCK (of_nat j) b = BBLOCK (of_nat k) b \<longleftrightarrow> j div BPB = k div BPB"
proof -
  have "BBLOCK (of_nat j) b = BBLOCK (of_nat k) b \<longleftrightarrow> (of_nat j div of_nat BPB :: u32) = of_nat k div of_nat BPB"
    by (simp add: BBLOCK_def)
  also have "\<dots> \<longleftrightarrow> j div BPB = k div BPB"
    using assms by (simp add: word_unat_eq_iff unat_div unat_of_nat_small fs_consts)
  finally show ?thesis .
qed

lemma marked_other_block: "BBLOCK (of_nat j) b \<noteq> a \<Longrightarrow> marked b (B(a := x)) j = marked b B j"
  by (simp add: marked_def)

lemma marked_bm:
  fixes j k :: nat and b :: superblock
  assumes "j < 2 ^ 32" "k < 2 ^ 32"
  defines "bb \<equiv> BBLOCK (of_nat k) b"
  shows "marked b (B(bb := clip (bm_set (k mod BPB) (B bb)))) j \<longleftrightarrow> marked b B j \<or> j = k"
    "marked b (B(bb := clip (bm_clear (k mod BPB) (B bb)))) j \<longleftrightarrow> marked b B j \<and> j \<noteq> k"
proof -
  have "j mod BPB < BPB" by (simp add: fs_consts)
  note cl = bit_clear_clip [OF this]
  have "j mod BPB = k mod BPB \<longleftrightarrow> j = k" if "BBLOCK (of_nat j) b = bb"
    using that BBLOCK_eq [OF assms(1,2), of b] unfolding bb_def by (metis div_mult_mod_eq)
  then show "marked b (B(bb := clip (bm_set (k mod BPB) (B bb)))) j \<longleftrightarrow> marked b B j \<or> j = k"
    "marked b (B(bb := clip (bm_clear (k mod BPB) (B bb)))) j \<longleftrightarrow> marked b B j \<and> j \<noteq> k"
    using cl by (auto simp: marked_def bit_clear_bm bb_def)
qed

text \<open>The blocks of the bitmap exist and are themselves marked.\<close>

definition bitmap_ok :: "superblock \<Rightarrow> (u32 \<Rightarrow> bytes) \<Rightarrow> bool" where
  "bitmap_ok b B \<longleftrightarrow> (\<forall>k<unat (sbsize b). unat (BBLOCK (of_nat k) b) < unat (sbsize b) \<and> marked b B (unat (BBLOCK (of_nat k) b)))"

lemma alloc_block_cases:
  assumes "sb_ok b" "bitmap_ok b B"
  obtains "\<forall>k<unat (sbsize b). marked b B k" "alloc_block b B = (0, B)"
  | k where "k < unat (sbsize b)" "\<not> marked b B k" "\<forall>j<k. marked b B j" "fst (alloc_block b B) = of_nat k"
      "snd (alloc_block b B) (of_nat k) = (\<lambda>_. 0)"
      "\<forall>a. a \<noteq> of_nat k \<and> a \<noteq> BBLOCK (of_nat k) b \<longrightarrow> snd (alloc_block b B) a = B a"
      "\<forall>j<unat (sbsize b). marked b (snd (alloc_block b B)) j \<longleftrightarrow> marked b B j \<or> j = k"
proof (cases "List.find (\<lambda>k. \<not> marked b B k) [0..<unat (sbsize b)]")
  case None
  then have "alloc_block b B = (0, B)" by (simp add: alloc_block_def)
  with None show thesis using that(1) by (auto simp: find_None_iff)
next
  case (Some k)
  then have k: "k < unat (sbsize b)" "\<not> marked b B k" "\<forall>j<k. marked b B j" by (auto simp: find_Some_iff)
  let ?bb = "BBLOCK (of_nat k) b" and ?n = "unat (sbsize b)"
  let ?B = "B(?bb := clip (bm_set (k mod BPB) (B ?bb)))"
  have al: "alloc_block b B = (of_nat k, ?B(of_nat k := (\<lambda>_. 0)))" using Some by (simp add: alloc_block_def)
  have n: "?n < 2 ^ 32" using assms(1) by (simp add: sb_ok_def)
  have "BBLOCK (of_nat j) b \<noteq> of_nat k" if "j < ?n" for j
  proof
    assume "BBLOCK (of_nat j) b = of_nat k"
    then have "unat (BBLOCK (of_nat j) b) = k" using k(1) n by (simp add: unat_of_nat_small)
    then show False using assms(2) that k(2) by (auto simp: bitmap_ok_def)
  qed
  then have "marked b (?B(of_nat k := (\<lambda>_. 0))) j \<longleftrightarrow> marked b B j \<or> j = k" if "j < ?n" for j
    using that k(1) n marked_other_block marked_bm(1) [of j k b B] by simp
  then show thesis using k al by (intro that(2) [of k]) auto
qed

lemma demo_fs_marked: "k < 6 \<Longrightarrow> marked (sb demo_fs) (blocks demo_fs) k \<longleftrightarrow> k < 5"
proof -
  assume "k < 6"
  then have "k = 0 \<or> k = 1 \<or> k = 2 \<or> k = 3 \<or> k = 4 \<or> k = 5" by arith
  then show ?thesis by (elim disjE) (simp_all add: marked_def BBLOCK_def demo_fs_fields fs_consts demo_fs_ok(4) bit_clear_def)
qed

lemma demo_fs_BBLOCK: "k < 6 \<Longrightarrow> BBLOCK (of_nat k) (sb demo_fs) = 3"
proof -
  assume k: "k < 6"
  have "unat (of_nat k :: u32) = k" using k by (simp add: unat_of_nat_small)
  then have "(of_nat k div 8192 :: u32) = 0" using k by (intro word_unat_eq_iff [THEN iffD2]) (simp add: unat_div)
  then show ?thesis by (simp add: BBLOCK_def demo_fs_fields fs_consts)
qed

lemma demo_fs_bitmap: "bitmap_ok (sb demo_fs) (blocks demo_fs)"
  using demo_fs_marked demo_fs_BBLOCK by (auto simp: bitmap_ok_def demo_fs_fields(1))

text \<open>Property C25. On a working disk \<^verbatim>\<open>balloc\<close> returns the lowest block that the bitmap does not mark, marks it and fills it
  with zeros, and changes no other bit and no other block; with no such block it returns 0 and changes nothing.
  Freeing the block afterwards restores the bitmap.\<close>

theorem balloc_correct:
  assumes "bio_ok s" "held s < NBUF" "sb_ok (sb s)" "bitmap_ok (sb s) (blocks s)"
  shows "\<exists>r s'. balloc 0 s = Some (r, s') \<and> did s s' (blocks s') (icache s) \<and>
    ((\<forall>k<unat (sbsize (sb s)). marked (sb s) (blocks s) k) \<and> r = 0 \<and> blocks s' = blocks s \<or>
     (\<exists>k<unat (sbsize (sb s)). \<not> marked (sb s) (blocks s) k \<and> (\<forall>j<k. marked (sb s) (blocks s) j) \<and> r = of_nat k \<and>
        blocks s' r = (\<lambda>_. 0) \<and> (\<forall>a. a \<noteq> r \<and> a \<noteq> BBLOCK r (sb s) \<longrightarrow> blocks s' a = blocks s a) \<and>
        (\<forall>j<unat (sbsize (sb s)). marked (sb s) (blocks s') j \<longleftrightarrow> marked (sb s) (blocks s) j \<or> j = k) \<and>
        (\<exists>s''. bfree 0 r s' = Some s'' \<and>
           (\<forall>j<unat (sbsize (sb s)). marked (sb s) (blocks s'') j \<longleftrightarrow> marked (sb s) (blocks s) j))))"
proof -
  obtain s' where s': "balloc 0 s = Some (fst (alloc_block (sb s) (blocks s)), s')"
      "did s s' (snd (alloc_block (sb s) (blocks s))) (icache s)"
    using balloc_loop_did [OF assms(1-3), of 0] by (auto simp: balloc_def)
  note f = did_fields [OF s'(2)]
  let ?n = "unat (sbsize (sb s))"
  have n: "?n < 2 ^ 32" using assms(3) by (simp add: sb_ok_def)
  show ?thesis
  proof (cases rule: alloc_block_cases [OF assms(3,4)])
    case 1
    then show ?thesis using s' f(3) by auto
  next
    case (2 k)
    let ?bb = "BBLOCK (of_nat k) (sb s)"
    have uk: "unat (of_nat k :: u32) = k" using 2(1) n by (simp add: unat_of_nat_small)
    have bb: "unat ?bb < 2 ^ 31" using BBLOCK_bound [OF assms(3)] 2(1) uk by (simp add: word_le_nat_alt)
    obtain b s1 s3 where r: "bio_read 0 ?bb s' = Some (Some b, s1)" "icache s1 = icache s'" "sb s1 = sb s'"
      "write_release b (bm_clear (k mod BPB) (bdata (bufs s1 b))) s1 = Some s3"
      "did s' s3 ((blocks s')(?bb := clip (bm_clear (k mod BPB) (blocks s' ?bb)))) (icache s')"
      using modify_block [OF f(1) bb _ bytewise_bm(2)] f(6) assms(2) by metis
    have "bfree 0 (of_nat k) s' = Some s3" using r(1,4) f(5) uk by (simp add: bfree_def)
    moreover have "marked (sb s) (blocks s3) j \<longleftrightarrow> marked (sb s) (blocks s') j \<and> j \<noteq> k" if "j < ?n" for j
      using marked_bm(2) [of j k "sb s" "blocks s'"] that 2(1) n did_fields(3) [OF r(5)] by simp
    ultimately show ?thesis using 2 s' f(3) by (intro exI [of _ "of_nat k"] exI [of _ s']) auto
  qed
qed

theorem balloc_correct_witness:
  "\<exists>s'. balloc 0 demo_fs = Some (5, s') \<and> blocks s' 5 = (\<lambda>_. 0)"
proof -
  from balloc_correct [OF demo_fs_ok(1) demo_fs_held demo_fs_ok(3) demo_fs_bitmap] obtain r s' where
    "balloc 0 demo_fs = Some (r, s')"
    "(\<forall>k<6. marked (sb demo_fs) (blocks demo_fs) k) \<or>
     (\<exists>k<6. \<not> marked (sb demo_fs) (blocks demo_fs) k \<and> (\<forall>j<k. marked (sb demo_fs) (blocks demo_fs) j) \<and> r = of_nat k \<and> blocks s' r = (\<lambda>_. 0))"
    unfolding demo_fs_fields(1) by simp blast
  then obtain k where k: "k < 6" "\<not> marked (sb demo_fs) (blocks demo_fs) k" "r = of_nat k" "blocks s' r = (\<lambda>_. 0)"
    using demo_fs_marked [of 5] by auto
  then have "k = 5" using demo_fs_marked [of k] by auto
  then show ?thesis using k \<open>balloc 0 demo_fs = Some (r, s')\<close> by simp
qed

end
