(* ===== verification/Fs_Content.thy ===== *)
theory Fs_Content
  imports Fs_Blocks Fs_Inode
begin

text \<open>
  The contents of files. A file's blocks hang in a tree: its eleven direct blocks, an indirect block and a
  double-indirect block. This theory gives every block of the tree a path, and shows that \<^verbatim>\<open>fs_bmap\<close>,
  \<^verbatim>\<open>fs_readi\<close> and \<^verbatim>\<open>fs_writei\<close> of \<^verbatim>\<open>kernel/fs.c\<close> implement an array of bytes, allocating blocks
  on the way, without touching any block of another file.
\<close>

subsection \<open>The block tree\<close>

text \<open>A path lists the indices from the block up to the entry of \<^verbatim>\<open>ip->addrs\<close>.\<close>

fun slot :: "nat list \<Rightarrow> bool" where
  "slot [k] \<longleftrightarrow> k < NDIRECT + 2"
| "slot [k, r] \<longleftrightarrow> k < NINDIRECT \<and> (r = NDIRECT \<or> r = NDIRECT + 1)"
| "slot [l, k, r] \<longleftrightarrow> l < NINDIRECT \<and> k < NINDIRECT \<and> r = NDIRECT + 1"
| "slot p \<longleftrightarrow> False"

fun slot_addr :: "(u32 \<Rightarrow> bytes) \<Rightarrow> (nat \<Rightarrow> u32) \<Rightarrow> nat list \<Rightarrow> u32" where
  "slot_addr B A [] = 0"
| "slot_addr B A [k] = A k"
| "slot_addr B A (k # k' # p) = (let a = slot_addr B A (k' # p) in if a = 0 then 0 else get32 (B a) (4 * k))"

text \<open>The paths of data blocks.\<close>

definition data_slot :: "nat list \<Rightarrow> bool" where
  "data_slot p \<longleftrightarrow> slot p \<and> (\<forall>k. \<not> slot (k # p))"

definition fdata :: "(u32 \<Rightarrow> bytes) \<Rightarrow> (nat \<Rightarrow> u32) \<Rightarrow> nat list \<Rightarrow> bytes" where
  "fdata B A p = (let a = slot_addr B A p in if a = 0 then (\<lambda>_. 0) else B a)"

text \<open>A block that is in use, and not part of the bitmap.\<close>

definition used_block :: "superblock \<Rightarrow> (u32 \<Rightarrow> bytes) \<Rightarrow> u32 \<Rightarrow> bool" where
  "used_block b B x \<longleftrightarrow> unat x < unat (sbsize b) \<and> marked b B (unat x) \<and> (\<forall>k<unat (sbsize b). x \<noteq> BBLOCK (of_nat k) b)"

text \<open>A block in use that does not belong to the file.\<close>

definition foreign :: "superblock \<Rightarrow> (u32 \<Rightarrow> bytes) \<Rightarrow> (nat \<Rightarrow> u32) \<Rightarrow> u32 \<Rightarrow> bool" where
  "foreign b B A x \<longleftrightarrow> used_block b B x \<and> (\<forall>p. slot p \<longrightarrow> slot_addr B A p \<noteq> x)"

definition file_ok :: "superblock \<Rightarrow> (u32 \<Rightarrow> bytes) \<Rightarrow> (nat \<Rightarrow> u32) \<Rightarrow> bool" where
  "file_ok b B A \<longleftrightarrow> sb_ok b \<and> bitmap_ok b B \<and> 0 < sbsize b \<and> marked b B 0 \<and>
     (\<forall>p. slot p \<and> slot_addr B A p \<noteq> 0 \<longrightarrow> used_block b B (slot_addr B A p)) \<and>
     (\<forall>p q. slot p \<and> slot q \<and> slot_addr B A p \<noteq> 0 \<and> slot_addr B A p = slot_addr B A q \<longrightarrow> p = q)"

lemma file_okD:
  assumes "file_ok b B A"
  shows "sb_ok b" "bitmap_ok b B" "0 < sbsize b" "marked b B 0"
    "slot p \<Longrightarrow> slot_addr B A p \<noteq> 0 \<Longrightarrow> used_block b B (slot_addr B A p)"
    "slot p \<Longrightarrow> slot q \<Longrightarrow> slot_addr B A p \<noteq> 0 \<Longrightarrow> slot_addr B A p = slot_addr B A q \<Longrightarrow> p = q"
  using assms unfolding file_ok_def by blast+

lemma file_okI:
  assumes "sb_ok b" "bitmap_ok b B" "0 < sbsize b" "marked b B 0"
    "\<And>p. slot p \<Longrightarrow> slot_addr B A p \<noteq> 0 \<Longrightarrow> used_block b B (slot_addr B A p)"
    "\<And>p q. slot p \<Longrightarrow> slot q \<Longrightarrow> slot_addr B A p \<noteq> 0 \<Longrightarrow> slot_addr B A p = slot_addr B A q \<Longrightarrow> p = q"
  shows "file_ok b B A"
  using assms unfolding file_ok_def by blast

lemma slot_parent: "slot (k # p) \<Longrightarrow> p \<noteq> [] \<Longrightarrow> slot p \<and> k < NINDIRECT"
  by (cases "k # p" rule: slot.cases) (auto simp: fs_consts)

lemma slot_Nil [simp]: "\<not> slot []" by simp

lemma slot_addr_Cons: "p \<noteq> [] \<Longrightarrow> slot_addr B A (k # p) = (if slot_addr B A p = 0 then 0 else get32 (B (slot_addr B A p)) (4 * k))"
  by (cases p) (simp_all add: Let_def)

lemma used_block_small: "sb_ok b \<Longrightarrow> used_block b B x \<Longrightarrow> unat x < 2 ^ 31"
  by (auto simp: used_block_def sb_ok_def)

lemma marked_upd: "used_block b B x \<Longrightarrow> k < unat (sbsize b) \<Longrightarrow> marked b (B'(x := d)) k = marked b B' k"
  unfolding used_block_def by (intro marked_other_block) metis

lemma clip_zero [simp]: "clip (\<lambda>_. 0) = (\<lambda>_. 0)" by (auto simp: clip_def)

lemma get32_clip: "k < NINDIRECT \<Longrightarrow> get32 (clip d) (4 * k) = get32 d (4 * k)"
  by (rule get32_cong) (auto simp: fs_consts)

lemma get32_zero [simp]: "get32 (\<lambda>_. 0) k = 0" by (simp add: get32_def)

subsection \<open>Steps on one file\<close>

text \<open>The file now has the data \<open>D\<close>; blocks of other files are as before.\<close>

definition pstep :: "superblock \<Rightarrow> (u32 \<Rightarrow> bytes) \<Rightarrow> (nat \<Rightarrow> u32) \<Rightarrow> (u32 \<Rightarrow> bytes) \<Rightarrow> (nat \<Rightarrow> u32) \<Rightarrow> (nat list \<Rightarrow> bytes) \<Rightarrow> bool" where
  "pstep b B A B' A' D \<longleftrightarrow> file_ok b B' A' \<and> (\<forall>x. foreign b B A x \<longrightarrow> B' x = B x \<and> foreign b B' A' x) \<and>
     (\<forall>p. slot p \<and> slot_addr B A p \<noteq> 0 \<longrightarrow> slot_addr B' A' p = slot_addr B A p) \<and>
     (\<forall>p. data_slot p \<longrightarrow> fdata B' A' p = D p)"

lemma pstep_refl: "file_ok b B A \<Longrightarrow> pstep b B A B A (fdata B A)"
  by (simp add: pstep_def)

lemma pstep_trans: "pstep b B A B1 A1 D1 \<Longrightarrow> pstep b B1 A1 B2 A2 D2 \<Longrightarrow> pstep b B A B2 A2 D2"
  unfolding pstep_def by metis

text \<open>Overwriting a data block.\<close>

lemma pstep_leaf:
  assumes "file_ok b B A" "data_slot p" "slot_addr B A p = a" "a \<noteq> 0"
  shows "pstep b B A (B(a := d)) A ((fdata B A)(p := d))" "slot q \<Longrightarrow> slot_addr (B(a := d)) A q = slot_addr B A q"
proof -
  note f = file_okD [OF assms(1)]
  have p: "slot p" using assms(2) by (simp add: data_slot_def)
  have ub: "used_block b B a" using f(5) [OF p] assms(3,4) by simp
  have same: "slot_addr (B(a := d)) A q = slot_addr B A q" if "slot q" for q
    using that
  proof (induction q)
    case (Cons k q)
    show ?case
    proof (cases "q = []")
      case False
      then have q: "slot q" using slot_parent Cons.prems by blast
      have "slot_addr B A q \<noteq> a" if "slot_addr B A q \<noteq> 0"
        using f(6) [OF q p that] assms(2,3) Cons.prems by (auto simp: data_slot_def)
      then show ?thesis using Cons.IH [OF q] False by (simp add: slot_addr_Cons)
    qed simp
  qed simp
  then show "slot q \<Longrightarrow> slot_addr (B(a := d)) A q = slot_addr B A q" .
  have mk: "marked b (B(a := d)) k = marked b B k" if "k < unat (sbsize b)" for k by (rule marked_upd [OF ub that])
  have us: "used_block b (B(a := d)) x = used_block b B x" for x using mk by (auto simp: used_block_def)
  have fo: "foreign b (B(a := d)) A x = foreign b B A x" for x using same us by (auto simp: foreign_def)
  have "bitmap_ok b (B(a := d))" using f(2) mk unfolding bitmap_ok_def by auto
  moreover have "marked b (B(a := d)) 0" using f(3,4) mk [of 0] by (simp add: word_less_nat_alt)
  ultimately have ok: "file_ok b (B(a := d)) A"
  proof (rule file_okI [OF f(1) _ f(3)])
    fix q q' assume q: "slot q" "slot q'" "slot_addr (B(a := d)) A q \<noteq> 0" "slot_addr (B(a := d)) A q = slot_addr (B(a := d)) A q'"
    show "q = q'" by (rule f(6)) (use q same in simp_all)
  qed (use f(5) same us in simp)
  have "x \<noteq> a" if "foreign b B A x" for x using that p assms(3) by (auto simp: foreign_def)
  moreover have "fdata (B(a := d)) A q = ((fdata B A)(p := d)) q" if "data_slot q" for q
  proof -
    have q: "slot q" using that by (simp add: data_slot_def)
    have "slot_addr B A q \<noteq> a" if "q \<noteq> p" "slot_addr B A q \<noteq> 0" using f(6) [OF q p that(2)] that(1) assms(3) by auto
    then show ?thesis using same [OF q] assms(3,4) by (cases "q = p") (simp_all add: fdata_def Let_def)
  qed
  ultimately show "pstep b B A (B(a := d)) A ((fdata B A)(p := d))" using ok fo same unfolding pstep_def by auto
qed

text \<open>Linking a fresh block into the tree.\<close>

definition set_slot :: "(u32 \<Rightarrow> bytes) \<Rightarrow> (nat \<Rightarrow> u32) \<Rightarrow> nat list \<Rightarrow> u32 \<Rightarrow> (u32 \<Rightarrow> bytes) \<times> (nat \<Rightarrow> u32)" where
  "set_slot B A p r =
     (case p of [] \<Rightarrow> (B, A) | [k] \<Rightarrow> (B, A(k := r))
      | k # q \<Rightarrow> (let a = slot_addr B A q in (B(a := clip (put32 (4 * k) r (B a))), A)))"

definition fresh_block :: "superblock \<Rightarrow> (u32 \<Rightarrow> bytes) \<Rightarrow> u32 \<Rightarrow> (u32 \<Rightarrow> bytes) \<Rightarrow> bool" where
  "fresh_block b B r B1 \<longleftrightarrow> r \<noteq> 0 \<and> unat r < unat (sbsize b) \<and> \<not> marked b B (unat r) \<and> B1 r = (\<lambda>_. 0) \<and>
     (\<forall>x. used_block b B x \<longrightarrow> B1 x = B x) \<and> (\<forall>j<unat (sbsize b). marked b B1 j \<longleftrightarrow> marked b B j \<or> j = unat r)"

lemma alloc_fresh:
  assumes "file_ok b B A" "alloc_block b B = (r, B1)"
  shows "if r = 0 then B1 = B \<and> (\<forall>k<unat (sbsize b). marked b B k) else fresh_block b B r B1"
proof -
  note f = file_okD [OF assms(1)]
  show ?thesis
  proof (cases rule: alloc_block_cases [OF f(1,2)])
    case 1
    then show ?thesis using assms(2) by auto
  next
    case (2 k)
    have uk: "unat (of_nat k :: u32) = k" using 2(1) f(1) by (simp add: sb_ok_def unat_of_nat_small)
    have r: "r = of_nat k" "B1 = snd (alloc_block b B)" using 2(4) assms(2) by simp_all
    have "k \<noteq> 0" using 2(2) f(4) by (cases "k = 0") auto
    then have "r \<noteq> 0" using uk r by auto
    moreover have "B1 x = B x" if "used_block b B x" for x
    proof -
      have "x \<noteq> of_nat k" using that 2(2) uk by (auto simp: used_block_def)
      moreover have "x \<noteq> BBLOCK (of_nat k) b" using that 2(1) by (auto simp: used_block_def)
      ultimately show ?thesis using 2(6) r(2) by auto
    qed
    ultimately show ?thesis using 2 uk r unfolding fresh_block_def by auto
  qed
qed

lemma fresh_slot_addr:
  assumes "file_ok b B A" "fresh_block b B r B1" "slot q"
  shows "slot_addr B1 A q = slot_addr B A q"
  using assms(3)
proof (induction q)
  case (Cons k q)
  show ?case
  proof (cases "q = []")
    case False
    then have q: "slot q" using slot_parent Cons.prems by blast
    then have "B1 (slot_addr B A q) = B (slot_addr B A q)" if "slot_addr B A q \<noteq> 0"
      using assms(2) file_okD(5) [OF assms(1) q that] by (simp add: fresh_block_def)
    then show ?thesis using Cons.IH [OF q] False by (auto simp: slot_addr_Cons)
  qed simp
qed simp

lemma pstep_link:
  assumes ok: "file_ok b B A" and fr: "fresh_block b B r B1" and p: "slot p" "slot_addr B A p = 0"
    and par: "tl p = [] \<or> slot_addr B A (tl p) \<noteq> 0" and new: "set_slot B1 A p r = (B2, A2)"
  shows "pstep b B A B2 A2 (fdata B A)" "slot q \<Longrightarrow> slot_addr B2 A2 q = (if q = p then r else slot_addr B A q)"
proof -
  note f = file_okD [OF ok]
  have r: "r \<noteq> 0" "unat r < unat (sbsize b)" "\<not> marked b B (unat r)" "B1 r = (\<lambda>_. 0)"
    and keep: "\<And>x. used_block b B x \<Longrightarrow> B1 x = B x"
    and mk1: "\<And>j. j < unat (sbsize b) \<Longrightarrow> marked b B1 j \<longleftrightarrow> marked b B j \<or> j = unat r"
    using fr unfolding fresh_block_def by auto
  have nu: "\<not> used_block b B r" using r(3) by (auto simp: used_block_def)
  note same1 = fresh_slot_addr [OF ok fr]
  obtain k p' where pk: "p = k # p'" using p(1) by (cases p) auto
  have new': "(B2, A2) = (if p' = [] then (B1, A(k := r)) else
      (B1(slot_addr B A p' := clip (put32 (4 * k) r (B (slot_addr B A p')))), A))"
  proof (cases p')
    case Nil
    then show ?thesis using new pk by (simp add: set_slot_def)
  next
    case (Cons k' p'')
    have q: "slot p'" using slot_parent p(1) pk Cons by blast
    then have "B1 (slot_addr B A p') = B (slot_addr B A p')" using keep f(5) [OF q] par pk Cons by simp
    then show ?thesis using new pk Cons same1 [OF q] by (auto simp: set_slot_def Let_def)
  qed
  let ?a = "slot_addr B A p'"
  have parent: "slot p'" "?a \<noteq> 0" "used_block b B ?a" "k < NINDIRECT" if "p' \<noteq> []"
    using slot_parent p(1) pk that par f(5) [of p'] by auto
  have B2: "B2 x = (if p' \<noteq> [] \<and> x = ?a then clip (put32 (4 * k) r (B ?a)) else B1 x)" for x
    using new' by (auto split: if_splits)
  have B2r: "B2 r = (\<lambda>_. 0)" using B2 r(4) parent(3) nu by auto
  have sa: "slot_addr B2 A2 q = (if q = p then r else slot_addr B A q)" if "slot q" for q
    using that
  proof (induction q)
    case (Cons j q)
    show ?case
    proof (cases "q = []")
      case True
      then show ?thesis using new' pk by (auto split: if_splits)
    next
      case False
      then have q: "slot q" "j < NINDIRECT" using slot_parent Cons.prems by blast+
      note IH = Cons.IH [OF q(1)]
      consider "q = p" | "q \<noteq> p" "slot_addr B A q = 0" | "q \<noteq> p" "slot_addr B A q \<noteq> 0" "p' = q"
        | "q \<noteq> p" "slot_addr B A q \<noteq> 0" "p' \<noteq> q" by blast
      then show ?thesis
      proof cases
        case 1
        then show ?thesis using IH False p(2) B2r r(1) by (simp add: slot_addr_Cons)
      next
        case 2
        then have "j # q \<noteq> p" using par False by (auto simp: pk)
        then show ?thesis using 2 IH False by (simp add: slot_addr_Cons)
      next
        case 3
        then have "B2 (slot_addr B A q) = clip (put32 (4 * k) r (B (slot_addr B A q)))" using B2 False by simp
        moreover have "get32 (put32 (4 * k) r (B ?a)) (4 * j) = get32 (B ?a) (4 * j)" if "j \<noteq> k"
          by (rule get32_put32_other) (use that in linarith)
        ultimately show ?thesis using 3 IH False q(2) by (auto simp: slot_addr_Cons pk get32_clip)
      next
        case 4
        then have "slot_addr B A q \<noteq> ?a" if "p' \<noteq> []" using f(6) [OF q(1) parent(1) [OF that]] by auto
        then have "B2 (slot_addr B A q) = B (slot_addr B A q)" using B2 keep [OF f(5) [OF q(1) 4(2)]] by auto
        then show ?thesis using 4 IH False by (simp add: slot_addr_Cons pk)
      qed
    qed
  qed simp
  then show "slot q \<Longrightarrow> slot_addr B2 A2 q = (if q = p then r else slot_addr B A q)" .
  have mk: "marked b B2 j \<longleftrightarrow> marked b B j \<or> j = unat r" if "j < unat (sbsize b)" for j
  proof (cases "p' = []")
    case True
    then show ?thesis using new' mk1 [OF that] by simp
  next
    case False
    then show ?thesis using new' mk1 [OF that] marked_upd [OF parent(3) that] by simp
  qed
  have notbm: "r \<noteq> BBLOCK (of_nat j) b" if "j < unat (sbsize b)" for j
    using f(2) that r(3) unfolding bitmap_ok_def by auto
  have us: "used_block b B2 x \<longleftrightarrow> used_block b B x \<or> x = r" for x
  proof (cases "x = r")
    case True
    then show ?thesis using mk [OF r(2)] notbm r(2) by (auto simp: used_block_def)
  next
    case False
    then have "unat x \<noteq> unat r" by (simp add: word_unat_eq_iff)
    then show ?thesis using mk False by (auto simp: used_block_def)
  qed
  have "bitmap_ok b B2" using f(2) mk unfolding bitmap_ok_def by auto
  moreover have "marked b B2 0" using f(3,4) mk [of 0] by (simp add: word_less_nat_alt)
  moreover have "slot_addr B A q \<noteq> r" if "slot q" for q using f(5) [OF that] nu r(1) by auto
  ultimately have ok2: "file_ok b B2 A2"
  proof (intro file_okI [OF f(1) _ f(3)])
    fix q q' assume q: "slot q" "slot q'" "slot_addr B2 A2 q \<noteq> 0" "slot_addr B2 A2 q = slot_addr B2 A2 q'"
    show "q = q'"
    proof (cases "q = p \<or> q' = p")
      case True
      then show ?thesis using q sa \<open>\<And>q. slot q \<Longrightarrow> slot_addr B A q \<noteq> r\<close> by (metis (full_types))
    next
      case False
      then show ?thesis using f(6) [OF q(1,2)] q sa by simp
    qed
  qed (use f(5) sa us in auto)
  have "B2 x = B x \<and> foreign b B2 A2 x" if "foreign b B A x" for x
  proof -
    have x: "used_block b B x" "\<And>q. slot q \<Longrightarrow> slot_addr B A q \<noteq> x" using that by (auto simp: foreign_def)
    then have "x \<noteq> ?a" if "p' \<noteq> []" using parent(1) [OF that] by blast
    then have "B2 x = B x" using B2 keep [OF x(1)] by auto
    moreover have "r \<noteq> x" using nu x(1) by blast
    ultimately show ?thesis using x us sa by (auto simp: foreign_def)
  qed
  moreover have "fdata B2 A2 q = fdata B A q" if "data_slot q" for q
  proof -
    have q: "slot q" using that by (simp add: data_slot_def)
    show ?thesis
    proof (cases "q = p")
      case True
      then show ?thesis using sa [OF q] p(2) B2r r(1) by (simp add: fdata_def)
    next
      case False
      have "slot_addr B A q \<noteq> ?a" if "p' \<noteq> []" "slot_addr B A q \<noteq> 0"
        using f(6) [OF q parent(1) [OF that(1)] that(2)] p(1) \<open>data_slot q\<close> by (auto simp: data_slot_def pk)
      then have "B2 (slot_addr B A q) = B (slot_addr B A q)" if "slot_addr B A q \<noteq> 0"
        using that B2 keep [OF f(5) [OF q]] by auto
      then show ?thesis using sa [OF q] False by (simp add: fdata_def Let_def)
    qed
  qed
  moreover have "slot_addr B2 A2 q = slot_addr B A q" if "slot q" "slot_addr B A q \<noteq> 0" for q
    using that sa p(2) by auto
  ultimately show "pstep b B A B2 A2 (fdata B A)" using ok2 unfolding pstep_def by blast
qed

subsection \<open>Block lookup and allocation\<close>

abbreviation fok :: "'a fs_st_scheme \<Rightarrow> nat \<Rightarrow> bool" where
  "fok s i \<equiv> file_ok (sb s) (blocks s) (iaddrs (icache s i))"

abbreviation faddr :: "'a fs_st_scheme \<Rightarrow> nat \<Rightarrow> nat list \<Rightarrow> u32" where
  "faddr s i \<equiv> slot_addr (blocks s) (iaddrs (icache s i))"

abbreviation fdat :: "'a fs_st_scheme \<Rightarrow> nat \<Rightarrow> nat list \<Rightarrow> bytes" where
  "fdat s i \<equiv> fdata (blocks s) (iaddrs (icache s i))"

definition disk_full :: "'a fs_st_scheme \<Rightarrow> bool" where
  "disk_full s \<longleftrightarrow> (\<forall>k<unat (sbsize (sb s)). marked (sb s) (blocks s) k)"

text \<open>From \<open>s\<close> to \<open>s'\<close> only the file \<open>i\<close> changed, and its data is \<open>D\<close>.\<close>

definition fdid :: "'a fs_st_scheme \<Rightarrow> 'a fs_st_scheme \<Rightarrow> nat \<Rightarrow> (nat list \<Rightarrow> bytes) \<Rightarrow> bool" where
  "fdid s s' i D \<longleftrightarrow> (\<exists>A'. did s s' (blocks s') ((icache s)(i := (icache s i)\<lparr>iaddrs := A'\<rparr>)) \<and>
     pstep (sb s) (blocks s) (iaddrs (icache s i)) (blocks s') A' D)"

definition slot_step :: "'a fs_st_scheme \<Rightarrow> 'a fs_st_scheme \<Rightarrow> nat \<Rightarrow> nat list \<Rightarrow> u32 \<Rightarrow> bool" where
  "slot_step s s' i p r \<longleftrightarrow> fdid s s' i (fdat s i) \<and> (\<forall>q. slot q \<longrightarrow> faddr s' i q = (if q = p then r else faddr s i q)) \<and>
     (faddr s i p \<noteq> 0 \<longrightarrow> r = faddr s i p) \<and> (r = 0 \<longrightarrow> disk_full s')"

text \<open>The state in which a file can be used; up to two buffers are needed at a time.\<close>

definition ready :: "'a fs_st_scheme \<Rightarrow> nat \<Rightarrow> bool" where
  "ready s i \<longleftrightarrow> bio_ok s \<and> held s + 1 < NBUF \<and> idev (icache s i) = 0 \<and> fok s i"

lemma fdidD:
  assumes "fdid s s' i D"
  shows "did s s' (blocks s') (icache s')" "\<exists>A'. icache s' = (icache s)(i := (icache s i)\<lparr>iaddrs := A'\<rparr>)"
    "pstep (sb s) (blocks s) (iaddrs (icache s i)) (blocks s') (iaddrs (icache s' i)) D" "sb s' = sb s"
proof -
  obtain A' where a: "did s s' (blocks s') ((icache s)(i := (icache s i)\<lparr>iaddrs := A'\<rparr>))"
    "pstep (sb s) (blocks s) (iaddrs (icache s i)) (blocks s') A' D" using assms by (auto simp: fdid_def)
  note f = did_fields(4,5) [OF a(1)]
  show "did s s' (blocks s') (icache s')" "sb s' = sb s" "\<exists>A'. icache s' = (icache s)(i := (icache s i)\<lparr>iaddrs := A'\<rparr>)"
    using a(1) f by auto
  show "pstep (sb s) (blocks s) (iaddrs (icache s i)) (blocks s') (iaddrs (icache s' i)) D" using a(2) f(1) by simp
qed

lemma fdid_trans:
  assumes "fdid s s1 i D1" "fdid s1 s2 i D2"
  shows "fdid s s2 i D2"
proof -
  obtain A1 A2 where i: "icache s1 = (icache s)(i := (icache s i)\<lparr>iaddrs := A1\<rparr>)" "icache s2 = (icache s1)(i := (icache s1 i)\<lparr>iaddrs := A2\<rparr>)"
    using fdidD(2) [OF assms(1)] fdidD(2) [OF assms(2)] by blast
  then have i2: "icache s2 = (icache s)(i := (icache s i)\<lparr>iaddrs := A2\<rparr>)" by simp
  have "did s s2 (blocks s2) (icache s2)" by (rule did_trans [OF fdidD(1) [OF assms(1)] fdidD(1) [OF assms(2)]])
  moreover have "pstep (sb s) (blocks s) (iaddrs (icache s i)) (blocks s2) (iaddrs (icache s2 i)) D2"
    using pstep_trans [OF fdidD(3) [OF assms(1)]] fdidD(3) [OF assms(2)] fdidD(4) [OF assms(1)] by simp
  ultimately show ?thesis unfolding fdid_def by (intro exI [of _ A2]) (simp add: i2)
qed

lemma fdidI:
  assumes "did s s' B' ((icache s)(i := (icache s i)\<lparr>iaddrs := A'\<rparr>))"
    "pstep (sb s) (blocks s) (iaddrs (icache s i)) B' A' D"
  shows "fdid s s' i D"
  using assms did_fields(3) [OF assms(1)] unfolding fdid_def by blast

lemma fdid_same:
  assumes "did s s' (blocks s) (icache s)" "fok s i"
  shows "fdid s s' i (fdat s i)"
proof (rule fdidI [where A' = "iaddrs (icache s i)"])
  show "did s s' (blocks s) ((icache s)(i := (icache s i)\<lparr>iaddrs := iaddrs (icache s i)\<rparr>))" using assms(1) by simp
qed (rule pstep_refl [OF assms(2)])

lemma slot_step_same:
  assumes "did s s' (blocks s) (icache s)" "fok s i" "r = faddr s i p" "r = 0 \<Longrightarrow> disk_full s"
  shows "slot_step s s' i p r"
  using fdid_same [OF assms(1,2)] did_fields [OF assms(1)] assms(3,4) by (auto simp: slot_step_def disk_full_def)

lemma slot_step_link:
  assumes "fok s i" "alloc_block (sb s) (blocks s) = (r, B1)" "r \<noteq> 0" "slot p" "faddr s i p = 0"
    "tl p = [] \<or> faddr s i (tl p) \<noteq> 0" "set_slot B1 (iaddrs (icache s i)) p r = (B2, A2)"
    "did s s' B2 ((icache s)(i := (icache s i)\<lparr>iaddrs := A2\<rparr>))"
  shows "slot_step s s' i p r"
proof -
  have fr: "fresh_block (sb s) (blocks s) r B1" using alloc_fresh [OF assms(1,2)] assms(3) by simp
  note l = pstep_link [OF assms(1) fr assms(4-7)]
  note f = did_fields [OF assms(8)]
  have "iaddrs (icache s' i) = A2" "blocks s' = B2" using f(3,4) by simp_all
  then show ?thesis using fdidI [OF assms(8) l(1)] l(2) assms(3,5) by (simp add: slot_step_def)
qed

lemma balloc_did:
  assumes "bio_ok s" "held s < NBUF" "sb_ok (sb s)"
  obtains s' where "balloc 0 s = Some (fst (alloc_block (sb s) (blocks s)), s')" "did s s' (snd (alloc_block (sb s) (blocks s))) (icache s)"
  using balloc_loop_did [OF assms, of 0] by (auto simp: balloc_def)

lemma readyD:
  assumes "ready s i"
  shows "bio_ok s" "held s < NBUF" "idev (icache s i) = 0" "fok s i" "sb_ok (sb s)" "held s + 1 < NBUF"
  using assms file_okD(1) by (auto simp: ready_def)

lemma ready_step: "ready s i \<Longrightarrow> fdid s s' i D \<Longrightarrow> ready s' i"
  using fdidD [of s s' i D] did_fields [of s s' "blocks s'" "icache s'"] by (auto simp: ready_def pstep_def)

lemma alloc_full:
  assumes "fok s i" "fst (alloc_block (sb s) (blocks s)) = 0"
  shows "snd (alloc_block (sb s) (blocks s)) = blocks s" "disk_full s"
  using alloc_fresh [OF assms(1), of 0 "snd (alloc_block (sb s) (blocks s))"] assms(2)
  by (auto simp: disk_full_def prod_eq_iff)

lemma addr_slot_step:
  assumes "ready s i" "k < NDIRECT + 2"
  obtains r s' where "addr_slot i k s = Some (r, s')" "slot_step s s' i [k] r"
proof (cases "iaddrs (icache s i) k = 0")
  case False
  then show thesis
    using that slot_step_same [OF did_refl [OF readyD(1) [OF assms(1)]] readyD(4) [OF assms(1)], of "iaddrs (icache s i) k" "[k]"]
    by (simp add: addr_slot_def)
next
  case True
  note r = readyD [OF assms(1)]
  obtain s' where b: "balloc 0 s = Some (fst (alloc_block (sb s) (blocks s)), s')" "did s s' (snd (alloc_block (sb s) (blocks s))) (icache s)"
    by (rule balloc_did [OF r(1,2,5)])
  obtain a B1 where ab: "alloc_block (sb s) (blocks s) = (a, B1)" by fastforce
  show thesis
  proof (cases "a = 0")
    case True
    then have "addr_slot i k s = Some (0, s')" using b(1) ab \<open>iaddrs (icache s i) k = 0\<close> r(3) by (simp add: addr_slot_def)
    moreover have "slot_step s s' i [k] 0"
      using slot_step_same [OF _ r(4), of s' 0 "[k]"] b(2) alloc_full [OF r(4)] True ab \<open>iaddrs (icache s i) k = 0\<close> by simp
    ultimately show thesis by (rule that)
  next
    case False
    let ?s = "upd_inode i (\<lambda>ip. ip\<lparr>iaddrs := (iaddrs ip)(k := a)\<rparr>) s'"
    have d: "did s s' B1 (icache s)" using b(2) ab by simp
    note f = did_fields [OF d]
    have "did s ?s B1 ((icache s)(i := (icache s i)\<lparr>iaddrs := (iaddrs (icache s i))(k := a)\<rparr>))"
      using did_trans [OF d did_upd_inode [OF f(1), of i "\<lambda>ip. ip\<lparr>iaddrs := (iaddrs ip)(k := a)\<rparr>"]] unfolding f(3,4) .
    then have "slot_step s ?s i [k] a"
      using slot_step_link [OF r(4) ab False, of "[k]"] True assms(2) by (simp add: set_slot_def)
    moreover have "addr_slot i k s = Some (a, ?s)" using b(1) ab True False r(3) by (simp add: addr_slot_def)
    ultimately show thesis using that by blast
  qed
qed

lemma indirect_slot_step:
  assumes "ready s i" "slot (k # p)" "p \<noteq> []" "faddr s i p \<noteq> 0"
  obtains r s' where "indirect_slot i (faddr s i p) k s = Some (r, s')" "slot_step s s' i (k # p) r"
proof -
  note r = readyD [OF assms(1)]
  let ?bn = "faddr s i p" and ?A = "iaddrs (icache s i)"
  have k: "slot p" "k < NINDIRECT" using slot_parent assms(2,3) by auto
  have bn: "unat ?bn < 2 ^ 31" using used_block_small [OF r(5) file_okD(5) [OF r(4) k(1) assms(4)]] .
  obtain b s1 where b: "bio_read 0 ?bn s = Some (Some b, s1)" "bio_ok s1" "blocks s1 = blocks s" "acquired ?bn b s s1"
    "outside_same s s1" "icache s1 = icache s" "sb s1 = sb s" by (rule read_block [OF r(1) bn r(2)])
  have "\<forall>j<BSIZE. bdata (bufs s1 b) j = blocks s ?bn j"
    using held_contents [OF b(4,2) balanced_refl b(2) bn] b(3) by simp
  then have g: "get32 (bdata (bufs s1 b)) (4 * k) = get32 (blocks s ?bn) (4 * k)"
    using k(2) by (intro get32_cong) (auto simp: fs_consts)
  have fa: "faddr s i (k # p) = get32 (blocks s ?bn) (4 * k)" using assms(3,4) by (simp add: slot_addr_Cons)
  have d1: "did s1 s1 (blocks s) (icache s)" using did_refl [OF b(2)] b(3,6) by simp
  show thesis
  proof (cases "faddr s i (k # p) = 0")
    case False
    then have "indirect_slot i ?bn k s = Some (faddr s i (k # p), bio_release b s1)"
      using b(1) g fa r(3) by (simp add: indirect_slot_def Let_def)
    moreover have "slot_step s (bio_release b s1) i (k # p) (faddr s i (k # p))"
      using slot_step_same [OF release_block [OF b(4,5) d1] r(4)] False by simp
    ultimately show thesis by (rule that)
  next
    case True
    have h1: "held s1 < NBUF" using acquired_held [OF b(4)] r(6) by simp
    obtain s2 where al: "balloc 0 s1 = Some (fst (alloc_block (sb s) (blocks s)), s2)" "did s1 s2 (snd (alloc_block (sb s) (blocks s))) (icache s)"
      using balloc_did [OF b(2) h1] r(5) b(3,6,7) by metis
    obtain a B1 where ab: "alloc_block (sb s) (blocks s) = (a, B1)" by fastforce
    have d2: "did s1 s2 B1 (icache s)" using al(2) ab by simp
    note f2 = did_fields [OF d2]
    show thesis
    proof (cases "a = 0")
      case a0: True
      then have "indirect_slot i ?bn k s = Some (0, bio_release b s2)"
        using b(1,6) g fa True r(3) al(1) ab by (simp add: indirect_slot_def Let_def)
      moreover have "slot_step s (bio_release b s2) i (k # p) 0"
        using slot_step_same [OF release_block [OF b(4,5)] r(4), of s2 0 "k # p"] d2 alloc_full [OF r(4)] a0 ab True by simp
      ultimately show thesis by (rule that)
    next
      case False
      obtain s3 where w: "write_release b (put32 (4 * k) a (bdata (bufs s2 b))) s2 = Some s3"
          "did s s3 (B1(?bn := clip (put32 (4 * k) a (bdata (bufs s2 b))))) (icache s)"
        by (rule write_release_block [OF b(4,5) d2 bn])
      have "\<forall>j<BSIZE. bdata (bufs s2 b) j = B1 ?bn j" using held_contents [OF b(4,2) f2(2,1) bn] f2(3) by simp
      then have c: "clip (put32 (4 * k) a (bdata (bufs s2 b))) = clip (put32 (4 * k) a (B1 ?bn))"
        by (rule clip_bytewise [OF bytewise_put(2)])
      have fr: "fresh_block (sb s) (blocks s) a B1" using alloc_fresh [OF r(4) ab] False by simp
      have "set_slot B1 ?A (k # p) a = (B1(?bn := clip (put32 (4 * k) a (B1 ?bn))), ?A)"
        using fresh_slot_addr [OF r(4) fr k(1)] assms(3) by (cases p) (simp_all add: set_slot_def Let_def)
      then have "slot_step s s3 i (k # p) a"
        using slot_step_link [OF r(4) ab False assms(2) True] assms(3,4) w(2) by (simp add: c)
      moreover have "indirect_slot i ?bn k s = Some (a, s3)"
        using b(1,6) g fa True False r(3) al(1) ab w(1) by (simp add: indirect_slot_def Let_def)
      ultimately show thesis using that by blast
    qed
  qed
qed

text \<open>The path of the data block \<open>bn\<close> of a file.\<close>

definition fpath :: "nat \<Rightarrow> nat list" where
  "fpath bn = (if bn < NDIRECT then [bn]
     else let m = bn - NDIRECT in if m < NINDIRECT then [m, NDIRECT]
     else let m = m - NINDIRECT in [m mod NINDIRECT, m div NINDIRECT, NDIRECT + 1])"

lemma fpath_leaf: "bn < MAXFILE \<Longrightarrow> data_slot (fpath bn)"
proof -
  assume "bn < MAXFILE"
  then have "(bn - NDIRECT - NINDIRECT) div NINDIRECT < NINDIRECT"
    by (intro less_mult_imp_div_less) (auto simp: fs_consts)
  then show ?thesis by (auto simp: data_slot_def fpath_def Let_def fs_consts)
qed

lemma fpath_inj: "bn < MAXFILE \<Longrightarrow> bn' < MAXFILE \<Longrightarrow> fpath bn = fpath bn' \<Longrightarrow> bn = bn'"
proof -
  assume a: "bn < MAXFILE" "bn' < MAXFILE" "fpath bn = fpath bn'"
  have "bn - 267 = bn' - 267" if "(bn - 267) mod 256 = (bn' - 267) mod 256" "(bn - 267) div 256 = (bn' - 267) div 256"
    using that by (metis div_mult_mod_eq)
  then show ?thesis using a by (auto simp: fpath_def Let_def fs_consts split: if_splits)
qed

definition bmap_step :: "'a fs_st_scheme \<Rightarrow> 'a fs_st_scheme \<Rightarrow> nat \<Rightarrow> nat list \<Rightarrow> u32 \<Rightarrow> bool" where
  "bmap_step s s' i p r \<longleftrightarrow> fdid s s' i (fdat s i) \<and> faddr s' i p = r \<and> (faddr s i p \<noteq> 0 \<longrightarrow> r = faddr s i p) \<and> (r = 0 \<longrightarrow> disk_full s')"

lemma fdid_cong: "(\<And>q. data_slot q \<Longrightarrow> D q = D' q) \<Longrightarrow> fdid s s' i D = fdid s s' i D'"
  by (auto simp: fdid_def pstep_def)

lemma fdid_dat: "fdid s s' i D \<Longrightarrow> data_slot q \<Longrightarrow> fdat s' i q = D q"
  using fdidD(3) [of s s' i D] by (auto simp: pstep_def)

lemma fdid_keep: "fdid s s1 i (fdat s i) \<Longrightarrow> fdid s1 s2 i (fdat s1 i) \<Longrightarrow> fdid s s2 i (fdat s i)"
  using fdid_trans fdid_cong [of "fdat s1 i" "fdat s i" s s2 i] fdid_dat by blast

lemma bmap_step_last: "slot p \<Longrightarrow> slot_step s s' i p r \<Longrightarrow> bmap_step s s' i p r"
  by (simp add: slot_step_def bmap_step_def)

lemma bmap_step_next:
  assumes "slot_step s s1 i q a" "bmap_step s1 s2 i p r" "slot p" "p \<noteq> q"
  shows "bmap_step s s2 i p r"
  using assms fdid_keep [of s s1 i s2] by (auto simp: slot_step_def bmap_step_def)

lemma bmap_step_fail:
  assumes "slot_step s s1 i q 0" "slot q" "slot p" "p \<noteq> q" "faddr s1 i q = 0 \<Longrightarrow> faddr s1 i p = 0"
  shows "bmap_step s s1 i p 0"
  using assms by (auto simp: slot_step_def bmap_step_def)

lemma fs_bmap_step:
  assumes "ready s i" "unat bn < MAXFILE"
  obtains r s' where "fs_bmap i bn s = Some (r, s')" "bmap_step s s' i (fpath (unat bn)) r"
proof -
  let ?bn = "unat bn"
  have p: "slot (fpath ?bn)" using fpath_leaf [OF assms(2)] by (simp add: data_slot_def)
  have u1: "unat (bn - of_nat NDIRECT) = ?bn - NDIRECT" if "\<not> ?bn < NDIRECT"
    using that by (subst unat_sub) (auto simp: word_le_nat_alt fs_consts)
  have u2: "unat (bn - of_nat NDIRECT - of_nat NINDIRECT) = ?bn - NDIRECT - NINDIRECT" if "\<not> ?bn < NDIRECT" "\<not> ?bn - NDIRECT < NINDIRECT"
    using that u1 by (subst unat_sub) (auto simp: word_le_nat_alt fs_consts)
  consider "?bn < NDIRECT" | "\<not> ?bn < NDIRECT" "?bn - NDIRECT < NINDIRECT" | "\<not> ?bn < NDIRECT" "\<not> ?bn - NDIRECT < NINDIRECT" by blast
  then show thesis
  proof cases
    case 1
    then have fp: "fpath ?bn = [?bn]" by (simp add: fpath_def)
    obtain r s' where "addr_slot i ?bn s = Some (r, s')" "slot_step s s' i [?bn] r"
      using addr_slot_step [OF assms(1), of ?bn] 1 by auto
    then show thesis using that 1 bmap_step_last [of "[?bn]" s s' i r] p fp by (simp add: fs_bmap_def)
  next
    case 2
    let ?k = "?bn - NDIRECT"
    have fp: "fpath ?bn = [?k, NDIRECT]" using 2 by (simp add: fpath_def Let_def)
    have sl: "slot [NDIRECT]" by simp
    obtain a s1 where a: "addr_slot i NDIRECT s = Some (a, s1)" "slot_step s s1 i [NDIRECT] a"
      using addr_slot_step [OF assms(1), of NDIRECT] by auto
    have f: "fdid s s1 i (fdat s i)" "faddr s1 i [NDIRECT] = a" using a(2) sl unfolding slot_step_def by (auto simp del: slot_addr.simps)
    show thesis
    proof (cases "a = 0")
      case True
      then have "fs_bmap i bn s = Some (0, s1)" using 2 u1 a(1) by (simp add: fs_bmap_def Let_def)
      moreover have "bmap_step s s1 i (fpath ?bn) 0" by (rule bmap_step_fail [OF _ sl p]) (use a(2) True fp in \<open>simp_all add: Let_def\<close>)
      ultimately show thesis by (rule that)
    next
      case False
      obtain r s' where r: "indirect_slot i a ?k s1 = Some (r, s')" "slot_step s1 s' i [?k, NDIRECT] r"
        using indirect_slot_step [OF ready_step [OF assms(1) f(1)], of ?k "[NDIRECT]"] p fp f(2) False by auto
      then have "fs_bmap i bn s = Some (r, s')" using 2 u1 a(1) False by (simp add: fs_bmap_def Let_def)
      moreover have "bmap_step s s' i (fpath ?bn) r" using bmap_step_next [OF a(2) bmap_step_last] r(2) p fp by simp
      ultimately show thesis by (rule that)
    qed
  next
    case 3
    let ?k = "?bn - NDIRECT - NINDIRECT"
    have fp: "fpath ?bn = [?k mod NINDIRECT, ?k div NINDIRECT, NDIRECT + 1]" using 3 by (simp add: fpath_def Let_def)
    have lt: "?k < NDINDIRECT" using assms(2) 3 by (simp add: fs_consts)
    have sl: "slot [NDIRECT + 1]" "slot [?k div NINDIRECT, NDIRECT + 1]" using p fp by simp_all
    obtain a s1 where a: "addr_slot i (NDIRECT + 1) s = Some (a, s1)" "slot_step s s1 i [NDIRECT + 1] a"
      using addr_slot_step [OF assms(1), of "NDIRECT + 1"] by auto
    have f: "fdid s s1 i (fdat s i)" "faddr s1 i [NDIRECT + 1] = a" using a(2) sl(1) unfolding slot_step_def by (auto simp del: slot_addr.simps)
    note rd = ready_step [OF assms(1) f(1)]
    show thesis
    proof (cases "a = 0")
      case True
      then have "fs_bmap i bn s = Some (0, s1)" using 3 u1 u2 a(1) lt by (simp add: fs_bmap_def Let_def)
      moreover have "bmap_step s s1 i (fpath ?bn) 0" by (rule bmap_step_fail [OF _ sl(1) p]) (use a(2) True fp in \<open>simp_all add: Let_def\<close>)
      ultimately show thesis by (rule that)
    next
      case False
      obtain a2 s2 where a2: "indirect_slot i a (?k div NINDIRECT) s1 = Some (a2, s2)" "slot_step s1 s2 i [?k div NINDIRECT, NDIRECT + 1] a2"
        using indirect_slot_step [OF rd, of "?k div NINDIRECT" "[NDIRECT + 1]"] sl(2) f(2) False by auto
      have f2: "fdid s1 s2 i (fdat s1 i)" "faddr s2 i [?k div NINDIRECT, NDIRECT + 1] = a2"
        using a2(2) sl(2) unfolding slot_step_def by (auto simp del: slot_addr.simps)
      show thesis
      proof (cases "a2 = 0")
        case True
        then have "fs_bmap i bn s = Some (0, s2)" using 3 u1 u2 a(1) a2(1) False lt by (simp add: fs_bmap_def Let_def)
        moreover have "bmap_step s1 s2 i (fpath ?bn) 0"
          by (rule bmap_step_fail [OF _ sl(2) p]) (use a2(2) True fp in \<open>simp_all add: Let_def\<close>)
        then have "bmap_step s s2 i (fpath ?bn) 0" using bmap_step_next [OF a(2) _ p] fp by simp
        ultimately show thesis by (rule that)
      next
        case a2: False
        obtain r s' where r: "indirect_slot i a2 (?k mod NINDIRECT) s2 = Some (r, s')" "slot_step s2 s' i (fpath ?bn) r"
          using indirect_slot_step [OF ready_step [OF rd f2(1)], of "?k mod NINDIRECT" "[?k div NINDIRECT, NDIRECT + 1]"] p fp f2(2) a2 by auto
        then have "fs_bmap i bn s = Some (r, s')"
          using 3 u1 u2 a(1) \<open>indirect_slot i a (?k div NINDIRECT) s1 = Some (a2, s2)\<close> False a2 lt by (simp add: fs_bmap_def Let_def)
        moreover have "bmap_step s1 s' i (fpath ?bn) r"
          using bmap_step_next [OF \<open>slot_step s1 s2 i [?k div NINDIRECT, NDIRECT + 1] a2\<close> bmap_step_last [OF p r(2)] p] fp by simp
        then have "bmap_step s s' i (fpath ?bn) r" using bmap_step_next [OF a(2) _ p] fp by simp
        ultimately show thesis by (rule that)
      qed
    qed
  qed
qed

subsection \<open>Reading and writing\<close>

definition fbyte :: "'a fs_st_scheme \<Rightarrow> nat \<Rightarrow> nat \<Rightarrow> u8" where
  "fbyte s i x = fdat s i (fpath (x div BSIZE)) (x mod BSIZE)"

lemma fbyte_keep:
  assumes "fdid s s' i (fdat s i)" "x < MAXFILE * BSIZE"
  shows "fbyte s' i x = fbyte s i x"
  using fdid_dat [OF assms(1) fpath_leaf] assms(2) by (simp add: fbyte_def less_mult_imp_div_less)

lemma div_within:
  "c < BSIZE - off mod BSIZE \<Longrightarrow> (off + c) div BSIZE = off div BSIZE \<and> (off + c) mod BSIZE = off mod BSIZE + c"
proof -
  assume "c < BSIZE - off mod BSIZE"
  then have "off + c = off div BSIZE * BSIZE + (off mod BSIZE + c)" "off mod BSIZE + c < BSIZE"
    using div_mult_mod_eq [of off BSIZE] by linarith+
  then show ?thesis by (metis add.commute add.right_neutral div_less div_mult_self1 mod_less mod_mult_self1 less_nat_zero_code)
qed

text \<open>What one round of either loop starts from: the block of the current offset is looked up, and read through the cache.\<close>

lemma unat_block: "unat (off div of_nat BSIZE :: u32) = unat off div BSIZE" "unat (off mod of_nat BSIZE :: u32) = unat off mod BSIZE"
  by (simp_all add: unat_div unat_mod BSIZE_def)

lemma data_block:
  assumes "ready s i" "data_slot p" "faddr s i p = a" "a \<noteq> 0"
  obtains b s1 where "bio_read 0 a s = Some (Some b, s1)" "acquired a b s s1" "outside_same s s1" "did s1 s1 (blocks s) (icache s)"
    "\<forall>j<BSIZE. bdata (bufs s1 b) j = fdat s i p j" "unat a < 2 ^ 31"
proof -
  note r = readyD [OF assms(1)]
  have p: "slot p" using assms(2) by (simp add: data_slot_def)
  have a: "unat a < 2 ^ 31" using used_block_small [OF r(5) file_okD(5) [OF r(4) p]] assms(3,4) by simp
  obtain b s1 where b: "bio_read 0 a s = Some (Some b, s1)" "bio_ok s1" "blocks s1 = blocks s" "acquired a b s s1"
    "outside_same s s1" "icache s1 = icache s" "sb s1 = sb s" by (rule read_block [OF r(1) a r(2)])
  have "\<forall>j<BSIZE. bdata (bufs s1 b) j = blocks s a j" using held_contents [OF b(4,2) balanced_refl b(2) a] b(3) by simp
  moreover have "did s1 s1 (blocks s) (icache s)" using did_refl [OF b(2)] b(3,6) by simp
  ultimately show thesis using that b a assms(3,4) by (simp add: fdata_def)
qed

lemma off_chunk:
  assumes "tot < n" "unat off + (unat n - unat tot) \<le> MAXFILE * BSIZE"
  shows "unat (off + chunk off tot n) = unat off + unat (chunk off tot n)"
proof -
  have "unat off + unat (chunk off tot n) \<le> MAXFILE * BSIZE" using chunk_progress(2) [OF assms(1), of off] assms(2) by linarith
  moreover have "MAXFILE * BSIZE < 2 ^ 32" by (simp add: fs_consts)
  ultimately show ?thesis by (intro unat_plus_if_size) simp
qed

lemma readi_loop_correct:
  assumes "ready s i" "tot \<le> n" "unat off + (unat n - unat tot) \<le> MAXFILE * BSIZE"
  shows "\<exists>tot' dst' s'. readi_loop i dst off tot n s = Some (tot', dst', s') \<and> fdid s s' i (fdat s i) \<and> tot \<le> tot' \<and> tot' \<le> n \<and>
    (tot' < n \<longrightarrow> disk_full s' \<and> faddr s i (fpath ((unat off + (unat tot' - unat tot)) div BSIZE)) = 0) \<and>
    dst' = (\<lambda>j. if unat tot \<le> j \<and> j < unat tot' then fbyte s i (unat off + (j - unat tot)) else dst j)"
  using assms
proof (induction "unat n - unat tot" arbitrary: dst off tot s rule: less_induct)
  case less
  show ?case
  proof (cases "tot < n")
    case False
    then have "tot = n" using less.prems(2) by simp
    moreover have "fdid s s i (fdat s i)" by (rule fdid_same [OF did_refl readyD(4)]) (use readyD less.prems(1) in blast)+
    moreover have "dst = (\<lambda>j. if unat tot \<le> j \<and> j < unat tot then fbyte s i (unat off + (j - unat tot)) else dst j)" by (auto simp: fun_eq_iff)
    ultimately show ?thesis by (subst readi_loop.simps) simp
  next
    case True
    let ?p = "fpath (unat off div BSIZE)" and ?m = "chunk off tot n"
    note c = chunk_progress [OF True, of off]
    have small: "unat off < MAXFILE * BSIZE" using less.prems(3) True by (simp add: word_less_nat_alt)
    then have bn: "unat (off div of_nat BSIZE) < MAXFILE" by (simp add: unat_block less_mult_imp_div_less)
    have pl: "data_slot ?p" using fpath_leaf bn by (simp add: unat_block)
    obtain a s1 where a: "fs_bmap i (off div of_nat BSIZE) s = Some (a, s1)" "bmap_step s s1 i ?p a"
      using fs_bmap_step [OF less.prems(1) bn] unfolding unat_block by blast
    have f1: "fdid s s1 i (fdat s i)" "faddr s1 i ?p = a" using a(2) by (simp_all add: bmap_step_def)
    note rd1 = ready_step [OF less.prems(1) f1(1)]
    show ?thesis
    proof (cases "a = 0")
      case a0: True
      then have "disk_full s1" "faddr s i ?p = 0" using a(2) by (auto simp: bmap_step_def)
      then show ?thesis using a0 a(1) f1(1) True by (subst readi_loop.simps) (auto simp: fun_eq_iff)
    next
      case False
      obtain b s2 where b: "bio_read 0 a s1 = Some (Some b, s2)" "acquired a b s1 s2" "outside_same s1 s2"
        "did s2 s2 (blocks s1) (icache s1)" "\<forall>j<BSIZE. bdata (bufs s2 b) j = fdat s1 i ?p j" "unat a < 2 ^ 31"
        by (rule data_block [OF rd1 pl f1(2) False])
      let ?s3 = "bio_release b s2"
      have "fdid s1 ?s3 i (fdat s1 i)" by (rule fdid_same [OF release_block [OF b(2,3,4)] readyD(4) [OF rd1]])
      then have f3: "fdid s ?s3 i (fdat s i)" by (rule fdid_keep [OF f1(1)])
      let ?dst = "blit dst (unat tot) (bdata (bufs s2 b)) (unat (off mod of_nat BSIZE)) (unat ?m)"
      note uo = off_chunk [OF True less.prems(3)]
      have pre: "tot + ?m \<le> n" "unat (off + ?m) + (unat n - unat (tot + ?m)) \<le> MAXFILE * BSIZE"
        using c(2,3) uo less.prems(3) by (auto simp: word_le_nat_alt)
      have step: "readi_loop i dst off tot n s = readi_loop i ?dst (off + ?m) (tot + ?m) n ?s3"
        using True a(1) False b(1) readyD(3) [OF rd1] by (subst readi_loop.simps) (simp add: Let_def)
      obtain tot' dst' s' where IH: "readi_loop i ?dst (off + ?m) (tot + ?m) n ?s3 = Some (tot', dst', s')" "fdid ?s3 s' i (fdat ?s3 i)"
        "tot + ?m \<le> tot'" "tot' \<le> n"
        "tot' < n \<longrightarrow> disk_full s' \<and> faddr ?s3 i (fpath ((unat (off + ?m) + (unat tot' - unat (tot + ?m))) div BSIZE)) = 0"
        "dst' = (\<lambda>j. if unat (tot + ?m) \<le> j \<and> j < unat tot' then fbyte ?s3 i (unat (off + ?m) + (j - unat (tot + ?m))) else ?dst j)"
        using less.hyps [OF chunk_decrease [OF True, of off] ready_step [OF less.prems(1) f3] pre] by blast
      have t': "unat tot + unat ?m \<le> unat tot'" "unat tot' \<le> unat n" using IH(3,4) c(3) by (simp_all add: word_le_nat_alt)
      have "faddr s i (fpath ((unat off + (unat tot' - unat tot)) div BSIZE)) = 0" if "tot' < n"
      proof -
        let ?q = "fpath ((unat off + (unat tot' - unat tot)) div BSIZE)"
        have "unat off + (unat tot' - unat tot) < MAXFILE * BSIZE"
          using that less.prems(3) t' by (simp add: word_less_nat_alt)
        then have "slot ?q" using fpath_leaf [of "(unat off + (unat tot' - unat tot)) div BSIZE"] by (simp add: data_slot_def less_mult_imp_div_less)
        moreover have "faddr ?s3 i ?q = 0" using IH(5) that uo c(3) t' by simp
        ultimately show ?thesis using fdidD(3) [OF f3] by (auto simp: pstep_def)
      qed
      moreover have "dst' = (\<lambda>j. if unat tot \<le> j \<and> j < unat tot' then fbyte s i (unat off + (j - unat tot)) else dst j)"
      proof
        fix j
        consider "unat tot + unat ?m \<le> j" "j < unat tot'" | "unat tot \<le> j" "j < unat tot + unat ?m" | "j < unat tot" | "unat tot' \<le> j"
          by linarith
        then show "dst' j = (if unat tot \<le> j \<and> j < unat tot' then fbyte s i (unat off + (j - unat tot)) else dst j)"
        proof cases
          case 1
          then have "unat off + (j - unat tot) < MAXFILE * BSIZE" using less.prems(3) t' by linarith
          then show ?thesis using 1 IH(6) uo c(3) fbyte_keep [OF f3, of "unat off + (j - unat tot)"] by simp
        next
          case 2
          then have d: "j - unat tot < BSIZE - unat off mod BSIZE" using c(4) by simp
          then have "bdata (bufs s2 b) (unat off mod BSIZE + (j - unat tot)) = fdat s1 i ?p (unat off mod BSIZE + (j - unat tot))"
            using b(5) by simp
          then show ?thesis
            using 2 t' IH(6) c(3) div_within [OF d] fdid_dat [OF f1(1) pl] by (simp add: blit_def unat_block fbyte_def)
        qed (use IH(6) c(3) t' in \<open>auto simp: blit_def\<close>)
      qed
      ultimately show ?thesis
        using step IH(1-5) fdid_keep [OF f3] t' by (auto simp: word_le_nat_alt)
    qed
  qed
qed

lemma fdid_addr: "fdid s s' i D \<Longrightarrow> slot q \<Longrightarrow> faddr s i q \<noteq> 0 \<Longrightarrow> faddr s' i q = faddr s i q"
  using fdidD(3) [of s s' i D] by (auto simp: pstep_def)

lemma fdid_self: "fdid s s' i D \<Longrightarrow> fdid s s' i (fdat s' i)"
  using fdid_cong [of "fdat s' i" D s s' i] fdid_dat by blast

lemma fdid_write:
  assumes "ready s i" "data_slot p" "faddr s i p = a" "a \<noteq> 0" "did s s' ((blocks s)(a := d)) (icache s)"
  shows "fdid s s' i ((fdat s i)(p := d))"
proof (rule fdidI [where A' = "iaddrs (icache s i)"])
  show "did s s' ((blocks s)(a := d)) ((icache s)(i := (icache s i)\<lparr>iaddrs := iaddrs (icache s i)\<rparr>))" using assms(5) by simp
qed (rule pstep_leaf(1) [OF readyD(4) [OF assms(1)] assms(2-4)])

lemma fdat_clip: "clip (fdat s i p) = fdat s i p"
  by (simp add: fdata_def Let_def)

lemma writei_loop_correct:
  assumes "ready s i" "tot \<le> n" "unat off + (unat n - unat tot) \<le> MAXFILE * BSIZE"
  shows "\<exists>tot' off' s'. writei_loop i src off tot n s = Some (tot', off', s') \<and> fdid s s' i (fdat s' i) \<and> tot \<le> tot' \<and> tot' \<le> n \<and>
    unat off' = unat off + (unat tot' - unat tot) \<and> (tot' < n \<longrightarrow> disk_full s') \<and>
    (\<forall>x. unat off \<le> x \<and> x < unat off' \<longrightarrow> faddr s' i (fpath (x div BSIZE)) \<noteq> 0) \<and>
    (\<forall>x<MAXFILE * BSIZE. fbyte s' i x =
       (if unat off \<le> x \<and> x < unat off' then src (unat tot + (x - unat off)) else fbyte s i x))"
  using assms
proof (induction "unat n - unat tot" arbitrary: off tot s rule: less_induct)
  case less
  show ?case
  proof (cases "tot < n")
    case False
    then have "tot = n" using less.prems(2) by simp
    moreover have "fdid s s i (fdat s i)" by (rule fdid_same [OF did_refl readyD(4)]) (use readyD less.prems(1) in blast)+
    ultimately show ?thesis by (subst writei_loop.simps) auto
  next
    case True
    let ?p = "fpath (unat off div BSIZE)" and ?m = "chunk off tot n"
    note c = chunk_progress [OF True, of off]
    have small: "unat off < MAXFILE * BSIZE" using less.prems(3) True by (simp add: word_less_nat_alt)
    then have bn: "unat (off div of_nat BSIZE) < MAXFILE" by (simp add: unat_block less_mult_imp_div_less)
    have pl: "data_slot ?p" using fpath_leaf bn by (simp add: unat_block)
    obtain a s1 where a: "fs_bmap i (off div of_nat BSIZE) s = Some (a, s1)" "bmap_step s s1 i ?p a"
      using fs_bmap_step [OF less.prems(1) bn] unfolding unat_block by blast
    have f1: "fdid s s1 i (fdat s i)" "faddr s1 i ?p = a" using a(2) by (simp_all add: bmap_step_def)
    note rd1 = ready_step [OF less.prems(1) f1(1)]
    show ?thesis
    proof (cases "a = 0")
      case a0: True
      then have "disk_full s1" using a(2) by (auto simp: bmap_step_def)
      then show ?thesis using a0 a(1) fdid_self [OF f1(1)] fbyte_keep [OF f1(1)] True by (subst writei_loop.simps) auto
    next
      case False
      obtain b s2 where b: "bio_read 0 a s1 = Some (Some b, s2)" "acquired a b s1 s2" "outside_same s1 s2"
        "did s2 s2 (blocks s1) (icache s1)" "\<forall>j<BSIZE. bdata (bufs s2 b) j = fdat s1 i ?p j" "unat a < 2 ^ 31"
        by (rule data_block [OF rd1 pl f1(2) False])
      let ?d = "blit (bdata (bufs s2 b)) (unat (off mod of_nat BSIZE)) src (unat tot) (unat ?m)"
      obtain s3 where w: "write_release b ?d s2 = Some s3" "did s1 s3 ((blocks s1)(a := clip ?d)) (icache s1)"
        by (rule write_release_block [OF b(2,3,4,6)])
      have f3: "fdid s1 s3 i ((fdat s1 i)(?p := clip ?d))" by (rule fdid_write [OF rd1 pl f1(2) False w(2)])
      have f: "fdid s s3 i (fdat s3 i)" using fdid_self [OF fdid_trans [OF f1(1) f3]] .
      note uo = off_chunk [OF True less.prems(3)]
      have pre: "tot + ?m \<le> n" "unat (off + ?m) + (unat n - unat (tot + ?m)) \<le> MAXFILE * BSIZE"
        using c(2,3) uo less.prems(3) by (auto simp: word_le_nat_alt)
      have byte: "fbyte s3 i x = (if unat off \<le> x \<and> x < unat off + unat ?m then src (unat tot + (x - unat off)) else fbyte s i x)"
        if x: "x < MAXFILE * BSIZE" for x
      proof -
        have q: "x div BSIZE < MAXFILE" using x by (simp add: less_mult_imp_div_less)
        have xm: "x mod BSIZE < BSIZE" by (simp add: BSIZE_def)
        have one: "fbyte s3 i x = (if fpath (x div BSIZE) = ?p then clip ?d (x mod BSIZE) else fbyte s i x)"
          using fdid_dat [OF f3 fpath_leaf [OF q]] fdid_dat [OF f1(1) fpath_leaf [OF q]] by (simp add: fbyte_def)
        show ?thesis
        proof (cases "x div BSIZE = unat off div BSIZE")
          case True
          obtain q where q: "x = q + x mod BSIZE" "unat off = q + unat off mod BSIZE"
            using True div_mult_mod_eq [of x BSIZE] div_mult_mod_eq [of "unat off" BSIZE] by metis
          have within: "unat off \<le> x \<and> x < unat off + unat ?m \<longleftrightarrow>
              unat off mod BSIZE \<le> x mod BSIZE \<and> x mod BSIZE < unat off mod BSIZE + unat ?m"
            "unat off mod BSIZE \<le> x mod BSIZE \<Longrightarrow> x - unat off = x mod BSIZE - unat off mod BSIZE"
            using q by linarith+
          have "clip ?d (x mod BSIZE) = (if unat off \<le> x \<and> x < unat off + unat ?m then src (unat tot + (x - unat off)) else fdat s1 i ?p (x mod BSIZE))"
            using b(5) xm within by (auto simp: blit_def unat_block)
          then show ?thesis using one True fdid_dat [OF f1(1) pl] by (simp add: fbyte_def)
        next
          case False
          then have "fpath (x div BSIZE) \<noteq> ?p" using fpath_inj [OF q] bn by (auto simp: unat_block)
          moreover have "\<not> (unat off \<le> x \<and> x < unat off + unat ?m)"
          proof
            assume "unat off \<le> x \<and> x < unat off + unat ?m"
            then have "x - unat off < BSIZE - unat off mod BSIZE" using c(4) by linarith
            from div_within [OF this] show False using False \<open>unat off \<le> x \<and> x < unat off + unat ?m\<close> by simp
          qed
          ultimately show ?thesis using one by auto
        qed
      qed
      have step: "writei_loop i src off tot n s = writei_loop i src (off + ?m) (tot + ?m) n s3"
        using True a(1) False b(1) w(1) readyD(3) [OF rd1] by (subst writei_loop.simps) (simp add: Let_def)
      obtain tot' off' s' where IH: "writei_loop i src (off + ?m) (tot + ?m) n s3 = Some (tot', off', s')" "fdid s3 s' i (fdat s' i)"
        "tot + ?m \<le> tot'" "tot' \<le> n" "unat off' = unat (off + ?m) + (unat tot' - unat (tot + ?m))" "tot' < n \<longrightarrow> disk_full s'"
        "\<forall>x. unat (off + ?m) \<le> x \<and> x < unat off' \<longrightarrow> faddr s' i (fpath (x div BSIZE)) \<noteq> 0"
        "\<forall>x<MAXFILE * BSIZE. fbyte s' i x =
           (if unat (off + ?m) \<le> x \<and> x < unat off' then src (unat (tot + ?m) + (x - unat (off + ?m))) else fbyte s3 i x)"
        using less.hyps [OF chunk_decrease [OF True, of off] ready_step [OF less.prems(1) f] pre] by blast
      have t': "unat tot + unat ?m \<le> unat tot'" "unat tot' \<le> unat n" using IH(3,4) c(3) by (simp_all add: word_le_nat_alt)
      have o': "unat off' = unat off + (unat tot' - unat tot)" using IH(5) uo c(3) t' by simp
      have "fbyte s' i x = (if unat off \<le> x \<and> x < unat off' then src (unat tot + (x - unat off)) else fbyte s i x)"
        if x: "x < MAXFILE * BSIZE" for x
      proof (cases "unat off + unat ?m \<le> x \<and> x < unat off'")
        case True
        then have "fbyte s' i x = src (unat tot + unat ?m + (x - (unat off + unat ?m)))" using IH(8) x uo c(3) by simp
        also have "unat tot + unat ?m + (x - (unat off + unat ?m)) = unat tot + (x - unat off)" using True by linarith
        finally show ?thesis using True by simp
      next
        case False
        then have "fbyte s' i x = fbyte s3 i x" using IH(8) x uo c(3) by auto
        then show ?thesis using byte [OF x] False t' o' by auto
      qed
      moreover have "faddr s' i (fpath (x div BSIZE)) \<noteq> 0" if "unat off \<le> x" "x < unat off'" for x
      proof (cases "unat off + unat ?m \<le> x")
        case True
        then show ?thesis using IH(7) that uo by simp
      next
        case x: False
        then have d: "x - unat off < BSIZE - unat off mod BSIZE" using that(1) c(4) by linarith
        have "fpath (x div BSIZE) = ?p" using div_within [OF d] that(1) by simp
        then show ?thesis using fdid_addr [OF fdid_trans [OF f3 IH(2)], of ?p] pl f1(2) False by (simp add: data_slot_def)
      qed
      ultimately show ?thesis using step IH(1,4,6) fdid_trans [OF f IH(2)] t' o' by (auto simp: word_le_nat_alt)
    qed
  qed
qed

subsection \<open>Properties\<close>

text \<open>Writing a block of the disk that is not the file's.\<close>

lemma foreign_write:
  assumes "file_ok b B A" "foreign b B A x"
  shows "slot q \<Longrightarrow> slot_addr (B(x := d)) A q = slot_addr B A q" "file_ok b (B(x := d)) A"
    "foreign b (B(x := d)) A y = foreign b B A y" "data_slot q \<Longrightarrow> fdata (B(x := d)) A q = fdata B A q"
proof -
  note f = file_okD [OF assms(1)]
  have ub: "used_block b B x" and nf: "\<And>q. slot q \<Longrightarrow> slot_addr B A q \<noteq> x" using assms(2) by (auto simp: foreign_def)
  have same: "slot_addr (B(x := d)) A q = slot_addr B A q" if "slot q" for q
    using that
  proof (induction q)
    case (Cons k q)
    show ?case
    proof (cases "q = []")
      case False
      then have q: "slot q" using slot_parent Cons.prems by blast
      then show ?thesis using Cons.IH [OF q] False nf [OF q] by (simp add: slot_addr_Cons)
    qed simp
  qed simp
  then show "slot q \<Longrightarrow> slot_addr (B(x := d)) A q = slot_addr B A q" .
  have mk: "marked b (B(x := d)) k = marked b B k" if "k < unat (sbsize b)" for k by (rule marked_upd [OF ub that])
  have us: "used_block b (B(x := d)) y = used_block b B y" for y using mk by (auto simp: used_block_def)
  show "foreign b (B(x := d)) A y = foreign b B A y" using same us by (auto simp: foreign_def)
  have "bitmap_ok b (B(x := d))" using f(2) mk unfolding bitmap_ok_def by auto
  moreover have "marked b (B(x := d)) 0" using f(3,4) mk [of 0] by (simp add: word_less_nat_alt)
  ultimately show "file_ok b (B(x := d)) A"
  proof (rule file_okI [OF f(1) _ f(3)])
    fix q q' assume q: "slot q" "slot q'" "slot_addr (B(x := d)) A q \<noteq> 0" "slot_addr (B(x := d)) A q = slot_addr (B(x := d)) A q'"
    show "q = q'" by (rule f(6)) (use q same in simp_all)
  qed (use f(5) same us in simp)
  show "data_slot q \<Longrightarrow> fdata (B(x := d)) A q = fdata B A q" using same [of q] nf [of q] by (simp add: fdata_def data_slot_def Let_def)
qed

text \<open>A file in use: its disk inode is not in one of its own blocks, and its size is within the block map's reach.\<close>

definition open_file :: "'a fs_st_scheme \<Rightarrow> nat \<Rightarrow> bool" where
  "open_file s i \<longleftrightarrow> ready s i \<and> foreign (sb s) (blocks s) (iaddrs (icache s i)) (iblock s i) \<and>
     unat (isize (icache s i)) \<le> MAXFILE * BSIZE"

lemma open_file_step:
  assumes "open_file s i" "fdid s s' i D"
  shows "open_file s' i"
proof -
  obtain A' where i: "icache s' = (icache s)(i := (icache s i)\<lparr>iaddrs := A'\<rparr>)" using fdidD(2) [OF assms(2)] by blast
  have "iblock s' i = iblock s i" using i fdidD(4) [OF assms(2)] by (simp add: iblock_def)
  then show ?thesis
    using assms(1) ready_step [OF _ assms(2)] fdidD(3,4) [OF assms(2)] i by (auto simp: open_file_def pstep_def)
qed

text \<open>Recording a new size and writing the inode back leaves the contents alone.\<close>

lemma finish_write:
  assumes "open_file s i" "unat z \<le> MAXFILE * BSIZE"
  defines "t \<equiv> upd_inode i (\<lambda>ip. ip\<lparr>isize := z\<rparr>) s"
  obtains s' where "fs_iupdate i t = Some s'" "open_file s' i" "icache s' = icache t" "sb s' = sb s"
    "\<forall>x<MAXFILE * BSIZE. fbyte s' i x = fbyte s i x" "\<forall>x. x \<noteq> iblock s i \<longrightarrow> blocks s' x = blocks s x"
    "\<forall>p. slot p \<longrightarrow> faddr s' i p = faddr s i p" "on_disk s' (inum (icache s i)) (icache s' i) = icache s' i"
proof -
  have o: "ready s i" "foreign (sb s) (blocks s) (iaddrs (icache s i)) (iblock s i)" using assms(1) by (auto simp: open_file_def)
  note r = readyD [OF o(1)]
  have dt: "did s t (blocks s) ((icache s)(i := (icache s i)\<lparr>isize := z\<rparr>))"
    using did_upd_inode [OF r(1), of i "\<lambda>ip. ip\<lparr>isize := z\<rparr>"] by (simp add: t_def)
  note ft = did_fields [OF dt]
  have it: "icache t i = (icache s i)\<lparr>isize := z\<rparr>" "iblock t i = iblock s i" using ft(4,5) by (simp_all add: iblock_def)
  have "unat (iblock s i) < 2 ^ 31" using used_block_small [OF r(5)] o(2) by (auto simp: foreign_def)
  then have "inode_ok t i" using it r(3) by (simp add: inode_ok_def)
  then obtain s' where u: "fs_iupdate i t = Some s'"
    "did t s' ((blocks t)(iblock t i := clip (store_dinode (icache t i) (dinode_off (inum (icache t i))) (blocks t (iblock t i))))) (icache t)"
    using fs_iupdate_did [OF ft(1)] ft(6) r(2) by metis
  note fu = did_fields [OF u(2)]
  obtain d where d: "blocks s' = (blocks s)(iblock s i := d)" using fu(3) ft(3) it(2) by simp
  have A: "iaddrs (icache s' i) = iaddrs (icache s i)" "sb s' = sb s" using fu(4,5) it(1) ft(5) by simp_all
  note w = foreign_write [OF r(4) o(2), where d = d]
  have fa: "\<forall>p. slot p \<longrightarrow> faddr s' i p = faddr s i p" using w(1) A d by simp
  have fd: "fbyte s' i x = fbyte s i x" if "x < MAXFILE * BSIZE" for x
    using w(4) [OF fpath_leaf, of "x div BSIZE"] that A d by (simp add: fbyte_def less_mult_imp_div_less)
  have "iblock s' i = iblock s i" using fu(4) it A by (simp add: iblock_def)
  then have "open_file s' i"
    using w(2) w(3) [of "iblock s i"] o r A d fu(1,4,6) ft(6) it assms(2) by (simp add: open_file_def ready_def)
  moreover have "on_disk s' (inum (icache s i)) (icache s' i) = icache s' i"
  proof -
    have sbt: "sb s' = sb t" using fu(5) .
    have "on_disk s' (inum (icache t i)) (icache t i) =
        load_dinode (store_dinode (icache t i) (dinode_off (inum (icache t i))) (\<lambda>_. 0)) (dinode_off (inum (icache t i))) (icache t i)"
      using on_disk_update [OF _ sbt, of "inum (icache t i)" "icache t i" "inum (icache t i)" "icache t i"] fu(3) by (simp add: iblock_def)
    also have "\<dots> = icache t i" by (simp add: load_store_dinode cong: if_cong)
    finally show ?thesis using it(1) fu(4) by simp
  qed
  ultimately show thesis using that u(1) fu(4) A(2) fd fa d by auto
qed

text \<open>What \<^verbatim>\<open>fs_writei\<close> does when it accepts the request.\<close>

lemma fs_writei_outcome:
  assumes "open_file s i" "off \<le> isize (icache s i)" "unat off + unat n \<le> MAXFILE * BSIZE"
  obtains r s' where "fs_writei i src off n s = Some (int r, s')" "r \<le> unat n" "r < unat n \<longrightarrow> disk_full s'" "open_file s' i"
    "unat (isize (icache s' i)) = max (unat (isize (icache s i))) (unat off + r)"
    "\<forall>x<MAXFILE * BSIZE. fbyte s' i x = (if unat off \<le> x \<and> x < unat off + r then src (x - unat off) else fbyte s i x)"
    "\<forall>x. foreign (sb s) (blocks s) (iaddrs (icache s i)) x \<and> x \<noteq> iblock s i \<longrightarrow> blocks s' x = blocks s x"
    "\<forall>j. j \<noteq> i \<longrightarrow> icache s' j = icache s j" "on_disk s' (inum (icache s i)) (icache s' i) = icache s' i"
    "\<forall>x. unat off \<le> x \<and> x < unat off + r \<longrightarrow> faddr s' i (fpath (x div BSIZE)) \<noteq> 0"
proof -
  have "MAXFILE * BSIZE < 2 ^ 32" by (simp add: fs_consts)
  then have un: "unat (off + n) = unat off + unat n" using assms(3) by (intro unat_plus_if_size) simp
  have rd: "ready s i" and sz: "unat (isize (icache s i)) \<le> MAXFILE * BSIZE" using assms(1) by (auto simp: open_file_def)
  obtain tot off' s1 where l: "writei_loop i src off 0 n s = Some (tot, off', s1)" "fdid s s1 i (fdat s1 i)" "tot \<le> n"
    "unat off' = unat off + unat tot" "tot < n \<longrightarrow> disk_full s1"
    "\<forall>x. unat off \<le> x \<and> x < unat off' \<longrightarrow> faddr s1 i (fpath (x div BSIZE)) \<noteq> 0"
    "\<forall>x<MAXFILE * BSIZE. fbyte s1 i x = (if unat off \<le> x \<and> x < unat off' then src (x - unat off) else fbyte s i x)"
    using writei_loop_correct [OF rd, of 0 n off src, unfolded unsigned_0 diff_zero add_0, OF _ assms(3)]
    by (auto simp: word_le_nat_alt simp del: not_gr_zero)
  have o1: "open_file s1 i" by (rule open_file_step [OF assms(1) l(2)])
  obtain A' where i1: "icache s1 = (icache s)(i := (icache s i)\<lparr>iaddrs := A'\<rparr>)" using fdidD(2) [OF l(2)] by blast
  let ?z = "if off' > isize (icache s i) then off' else isize (icache s i)"
  have tn: "unat tot \<le> unat n" using l(3) by (simp add: word_le_nat_alt)
  have z: "unat ?z \<le> MAXFILE * BSIZE" using sz l(4) assms(3) tn by auto
  have t: "(if off' > isize (icache s1 i) then upd_inode i (\<lambda>ip. ip\<lparr>isize := off'\<rparr>) s1 else s1) = upd_inode i (\<lambda>ip. ip\<lparr>isize := ?z\<rparr>) s1"
    using i1 by (auto simp: upd_inode_def fun_upd_idem)
  obtain s' where w: "fs_iupdate i (upd_inode i (\<lambda>ip. ip\<lparr>isize := ?z\<rparr>) s1) = Some s'" "open_file s' i"
    "icache s' = icache (upd_inode i (\<lambda>ip. ip\<lparr>isize := ?z\<rparr>) s1)" "sb s' = sb s1"
    "\<forall>x<MAXFILE * BSIZE. fbyte s' i x = fbyte s1 i x" "\<forall>x. x \<noteq> iblock s1 i \<longrightarrow> blocks s' x = blocks s1 x"
    "\<forall>p. slot p \<longrightarrow> faddr s' i p = faddr s1 i p" "on_disk s' (inum (icache s1 i)) (icache s' i) = icache s' i"
    by (rule finish_write [OF o1 z])
  have ib: "iblock s1 i = iblock s i" "inum (icache s1 i) = inum (icache s i)" using i1 fdidD(4) [OF l(2)] by (simp_all add: iblock_def)
  have st: "sint tot = int (unat tot)" using tn assms(3) by (intro sint_small) (simp add: fs_consts)
  show thesis
  proof (rule that [of "unat tot" s'])
    show "fs_writei i src off n s = Some (int (unat tot), s')"
      using assms(2,3) un l(1) w(1) t st by (simp add: fs_writei_def Let_def word_less_nat_alt word_le_nat_alt)
    have "disk_full s1 \<Longrightarrow> disk_full s'"
    proof -
      have fo: "foreign (sb s1) (blocks s1) (iaddrs (icache s1 i)) (iblock s1 i)" using o1 by (simp add: open_file_def)
      then have "used_block (sb s1) (blocks s1) (iblock s1 i)" by (simp add: foreign_def)
      then have "marked (sb s1) (blocks s') k = marked (sb s1) (blocks s1) k" if "k < unat (sbsize (sb s1))" for k
        using that w(6) unfolding marked_def used_block_def by metis
      then show "disk_full s1 \<Longrightarrow> disk_full s'" using w(4) by (simp add: disk_full_def)
    qed
    then show "unat tot < unat n \<longrightarrow> disk_full s'" using l(5) by (simp add: word_less_nat_alt)
    show "unat (isize (icache s' i)) = max (unat (isize (icache s i))) (unat off + unat tot)"
      using w(3) l(4) by (auto simp: upd_inode_def word_less_nat_alt max_def)
    show "\<forall>x<MAXFILE * BSIZE. fbyte s' i x = (if unat off \<le> x \<and> x < unat off + unat tot then src (x - unat off) else fbyte s i x)"
      using w(5) l(4,7) by simp
    show "\<forall>x. foreign (sb s) (blocks s) (iaddrs (icache s i)) x \<and> x \<noteq> iblock s i \<longrightarrow> blocks s' x = blocks s x"
      using w(6) ib(1) fdidD(3) [OF l(2)] by (auto simp: pstep_def)
    show "\<forall>j. j \<noteq> i \<longrightarrow> icache s' j = icache s j" using w(3) i1 by (simp add: upd_inode_def)
    show "on_disk s' (inum (icache s i)) (icache s' i) = icache s' i" using w(8) ib(2) by simp
    show "\<forall>x. unat off \<le> x \<and> x < unat off + unat tot \<longrightarrow> faddr s' i (fpath (x div BSIZE)) \<noteq> 0"
    proof (intro allI impI)
      fix x assume x: "unat off \<le> x \<and> x < unat off + unat tot"
      then have "x < MAXFILE * BSIZE" using tn assms(3) by linarith
      then have "slot (fpath (x div BSIZE))" using fpath_leaf [of "x div BSIZE"] by (simp add: data_slot_def less_mult_imp_div_less)
      then show "faddr s' i (fpath (x div BSIZE)) \<noteq> 0" using w(7) l(4,6) x by simp
    qed
  qed (use tn w(2) in auto)
qed

lemma fs_readi_outcome:
  assumes "open_file s i" "off \<le> isize (icache s i)" "unat off + unat n < 2 ^ 32"
  defines "len \<equiv> min (unat n) (unat (isize (icache s i)) - unat off)"
  obtains r dst' s' where "fs_readi i dst off n s = Some (int r, dst', s')" "r \<le> len" "open_file s' i"
    "r < len \<longrightarrow> disk_full s' \<and> faddr s i (fpath ((unat off + r) div BSIZE)) = 0"
    "dst' = (\<lambda>j. if j < r then fbyte s i (unat off + j) else dst j)" "fdid s s' i (fdat s i)"
proof -
  have rd: "ready s i" and sz: "unat (isize (icache s i)) \<le> MAXFILE * BSIZE" using assms(1) by (auto simp: open_file_def)
  have un: "unat (off + n) = unat off + unat n" using assms(3) by (intro unat_plus_if_size) simp
  let ?n = "if off + n > isize (icache s i) then isize (icache s i) - off else n"
  have len: "unat ?n = len" using un assms(2) by (auto simp: len_def word_less_nat_alt word_le_nat_alt unat_sub)
  have le: "unat off + (unat ?n - unat (0 :: u32)) \<le> MAXFILE * BSIZE"
    using len sz assms(2) by (simp add: len_def word_le_nat_alt)
  obtain tot dst' s' where l: "readi_loop i dst off 0 ?n s = Some (tot, dst', s')" "fdid s s' i (fdat s i)" "tot \<le> ?n"
    "tot < ?n \<longrightarrow> disk_full s' \<and> faddr s i (fpath ((unat off + unat tot) div BSIZE)) = 0"
    "dst' = (\<lambda>j. if j < unat tot then fbyte s i (unat off + j) else dst j)"
    using readi_loop_correct [OF rd _ le, of dst, unfolded unsigned_0 diff_zero le0 simp_thms] by (auto simp: word_le_nat_alt)
  have tl: "unat tot \<le> len" using l(3) len by (simp add: word_le_nat_alt)
  then have "sint tot = int (unat tot)" using le len by (intro sint_small) (simp add: fs_consts)
  then have "fs_readi i dst off n s = Some (int (unat tot), dst', s')"
    using assms(2) l(1) by (auto simp: fs_readi_def Let_def)
  then show thesis using that [of "unat tot" dst' s'] tl l(2,4,5) len open_file_step [OF assms(1) l(2)]
    by (simp add: word_less_nat_alt)
qed

lemma demo_fs_slots:
  "slot p \<Longrightarrow> slot_addr (blocks demo_fs) (iaddrs (icache demo_fs 0)) p = (if p = [0] then 4 else 0)"
  by (cases p rule: slot.cases) (auto simp: demo_fs_fields fs_consts)

lemma demo_fs_used: "x \<in> {1, 2, 4} \<Longrightarrow> used_block (sb demo_fs) (blocks demo_fs) x"
  using demo_fs_marked demo_fs_BBLOCK by (auto simp: used_block_def demo_fs_fields(1))

lemma demo_fs_open: "open_file demo_fs 0"
proof -
  have "fok demo_fs 0"
  proof (rule file_okI)
    show "marked (sb demo_fs) (blocks demo_fs) 0" using demo_fs_marked by simp
    show "0 < sbsize (sb demo_fs)" by (simp add: demo_fs_fields)
  qed (use demo_fs_ok demo_fs_bitmap demo_fs_used in \<open>auto simp: demo_fs_slots split: if_splits\<close>)
  moreover have "iblock demo_fs 0 = 2" by (simp add: iblock_def demo_fs_fields IBLOCK_def fs_consts)
  moreover have "foreign (sb demo_fs) (blocks demo_fs) (iaddrs (icache demo_fs 0)) 2"
    using demo_fs_used by (auto simp: foreign_def demo_fs_slots)
  moreover have "idev (icache demo_fs 0) = 0" "unat (isize (icache demo_fs 0)) \<le> MAXFILE * BSIZE"
    by (simp_all add: demo_fs_fields fs_consts)
  ultimately show ?thesis using demo_fs_ok by (auto simp: open_file_def ready_def NBUF_def)
qed

text \<open>Property C3. \<^verbatim>\<open>fs_writei\<close> refines writing to an array of bytes. It refuses, changing nothing, an offset past the end,
  a wrap-around and a write past the largest file. Otherwise it writes the first \<open>r\<close> bytes, all \<open>n\<close> unless the
  disk is full: these bytes of the file change and no others, the size grows to cover them, the inode on the disk
  equals the one in the cache, blocks in use by anything else keep their contents, and the file is well-formed again,
  with whatever data and index blocks had to be allocated.\<close>

theorem fs_writei_correct:
  assumes "open_file s i"
  shows "if off > isize (icache s i) \<or> unat off + unat n > MAXFILE * BSIZE then fs_writei i src off n s = Some (-1, s)
    else \<exists>r s'. fs_writei i src off n s = Some (int r, s') \<and> r \<le> unat n \<and> (r < unat n \<longrightarrow> disk_full s') \<and> open_file s' i \<and>
      unat (isize (icache s' i)) = max (unat (isize (icache s i))) (unat off + r) \<and>
      (\<forall>x<MAXFILE * BSIZE. fbyte s' i x = (if unat off \<le> x \<and> x < unat off + r then src (x - unat off) else fbyte s i x)) \<and>
      (\<forall>x. foreign (sb s) (blocks s) (iaddrs (icache s i)) x \<and> x \<noteq> iblock s i \<longrightarrow> blocks s' x = blocks s x) \<and>
      (\<forall>j. j \<noteq> i \<longrightarrow> icache s' j = icache s j) \<and> on_disk s' (inum (icache s i)) (icache s' i) = icache s' i"
proof (cases "off > isize (icache s i) \<or> unat off + unat n > MAXFILE * BSIZE")
  case True
  have "off + n < off \<or> unat (off + n) > MAXFILE * BSIZE" if "unat off + unat n > MAXFILE * BSIZE"
  proof (cases "unat off + unat n < 2 ^ 32")
    case True
    then have "unat (off + n) = unat off + unat n" by (intro unat_plus_if_size) simp
    then show ?thesis using that by simp
  next
    case False
    have "unat off < 2 ^ 32" "unat n < 2 ^ 32" using unat_less_exp [of off] unat_less_exp [of n] by simp_all
    then have "(unat off + unat n) mod 2 ^ 32 = unat off + unat n - 2 ^ 32"
      using False by (subst le_mod_geq) auto
    then have "unat (off + n) = unat off + unat n - 2 ^ 32" by (simp add: unat_word_ariths)
    then have "unat (off + n) < unat off" using \<open>unat n < 2 ^ 32\<close> False by linarith
    then show ?thesis by (simp add: word_less_nat_alt)
  qed
  then show ?thesis using True by (auto simp: fs_writei_def)
next
  case False
  then have "off \<le> isize (icache s i)" "unat off + unat n \<le> MAXFILE * BSIZE" by auto
  from fs_writei_outcome [OF assms this, of src] obtain r s' where "fs_writei i src off n s = Some (int r, s')" "r \<le> unat n" "r < unat n \<longrightarrow> disk_full s'" "open_file s' i"
    "unat (isize (icache s' i)) = max (unat (isize (icache s i))) (unat off + r)"
    "\<forall>x<MAXFILE * BSIZE. fbyte s' i x = (if unat off \<le> x \<and> x < unat off + r then src (x - unat off) else fbyte s i x)"
    "\<forall>x. foreign (sb s) (blocks s) (iaddrs (icache s i)) x \<and> x \<noteq> iblock s i \<longrightarrow> blocks s' x = blocks s x"
    "\<forall>j. j \<noteq> i \<longrightarrow> icache s' j = icache s j" "on_disk s' (inum (icache s i)) (icache s' i) = icache s' i"
    "\<forall>x. unat off \<le> x \<and> x < unat off + r \<longrightarrow> faddr s' i (fpath (x div BSIZE)) \<noteq> 0" .
  then show ?thesis unfolding if_not_P [OF False] by blast
qed

theorem fs_writei_correct_witness:
  "\<exists>r s'. fs_writei 0 (\<lambda>_. 7) 2 1100 demo_fs = Some (int r, s') \<and> r \<le> 1100 \<and> open_file s' 0 \<and> fbyte s' 0 0 = fbyte demo_fs 0 0"
proof -
  have "\<not> ((2 :: u32) > isize (icache demo_fs 0) \<or> unat (2 :: u32) + unat (1100 :: u32) > MAXFILE * BSIZE)"
    by (simp add: demo_fs_fields fs_consts)
  from fs_writei_correct [OF demo_fs_open, of 2 1100 "\<lambda>_. 7", unfolded if_not_P [OF this]] show ?thesis
    by (auto simp: fs_consts)
qed



text \<open>Property C21. What was written is read back: after \<^verbatim>\<open>fs_writei\<close> accepted \<open>r\<close> bytes, \<^verbatim>\<open>fs_readi\<close> at the same offset
  returns exactly these \<open>r\<close> bytes.\<close>

theorem fs_write_read_roundtrip:
  assumes "open_file s i" "off \<le> isize (icache s i)" "unat off + unat n \<le> MAXFILE * BSIZE" "fs_writei i src off n s = Some (r, s1)"
  shows "\<exists>dst' s2. fs_readi i dst off (of_int r) s1 = Some (r, dst', s2) \<and> (\<forall>j<nat r. dst' j = src j)"
proof -
  obtain k s' where w: "fs_writei i src off n s = Some (int k, s')" "k \<le> unat n" "k < unat n \<longrightarrow> disk_full s'" "open_file s' i"
    "unat (isize (icache s' i)) = max (unat (isize (icache s i))) (unat off + k)"
    "\<forall>x<MAXFILE * BSIZE. fbyte s' i x = (if unat off \<le> x \<and> x < unat off + k then src (x - unat off) else fbyte s i x)"
    "\<forall>x. foreign (sb s) (blocks s) (iaddrs (icache s i)) x \<and> x \<noteq> iblock s i \<longrightarrow> blocks s' x = blocks s x"
    "\<forall>j. j \<noteq> i \<longrightarrow> icache s' j = icache s j" "on_disk s' (inum (icache s i)) (icache s' i) = icache s' i"
    "\<forall>x. unat off \<le> x \<and> x < unat off + k \<longrightarrow> faddr s' i (fpath (x div BSIZE)) \<noteq> 0"
    by (rule fs_writei_outcome [OF assms(1-3)])
  have r: "r = int k" "s1 = s'" using assms(4) w(1) by simp_all
  have ml: "MAXFILE * BSIZE < 2 ^ 32" by (simp add: fs_consts)
  then have uk: "unat (of_nat k :: u32) = k" using w(2) assms(3) by (intro unat_of_nat_small) simp
  have lim: "unat off + k \<le> MAXFILE * BSIZE" using w(2) assms(3) by linarith
  have le: "off \<le> isize (icache s' i)" using w(5) assms(2) by (simp add: word_le_nat_alt)
  have sm: "unat off + unat (of_nat k :: u32) < 2 ^ 32" using uk lim ml by simp
  obtain q dst' s2 where q: "fs_readi i dst off (of_nat k) s' = Some (int q, dst', s2)"
    "q \<le> min k (unat (isize (icache s' i)) - unat off)" "open_file s2 i"
    "q < min k (unat (isize (icache s' i)) - unat off) \<longrightarrow> disk_full s2 \<and> faddr s' i (fpath ((unat off + q) div BSIZE)) = 0"
    "dst' = (\<lambda>j. if j < q then fbyte s' i (unat off + j) else dst j)" "fdid s' s2 i (fdat s' i)"
    by (rule fs_readi_outcome [OF w(4) le sm, of dst, unfolded uk])
  have "min k (unat (isize (icache s' i)) - unat off) = k" using w(5) by simp
  then have "q = k" using q(2,4) w(10) by (metis le_add1 le_neq_implies_less nat_add_left_cancel_less)
  moreover have "dst' j = src j" if "j < k" for j using that q(5) \<open>q = k\<close> w(6) lim by simp
  ultimately show ?thesis using q(1) r by auto
qed

theorem fs_write_read_roundtrip_witness:
  "\<exists>r s1 dst' s2. fs_writei 0 (\<lambda>j. of_nat j) 3 5 demo_fs = Some (r, s1) \<and>
     fs_readi 0 (\<lambda>_. 0) 3 (of_int r) s1 = Some (r, dst', s2) \<and> (\<forall>j<nat r. dst' j = of_nat j)"
proof -
  have le: "(3 :: u32) \<le> isize (icache demo_fs 0)" "unat (3 :: u32) + unat (5 :: u32) \<le> MAXFILE * BSIZE"
    by (simp_all add: demo_fs_fields fs_consts)
  obtain k s1 where w: "fs_writei 0 (\<lambda>j. of_nat j) 3 5 demo_fs = Some (int k, s1)"
    using fs_writei_outcome [OF demo_fs_open le, of "\<lambda>j. of_nat j"] by metis
  from fs_write_read_roundtrip [OF demo_fs_open le w, of "\<lambda>_. 0"] w show ?thesis by blast
qed

end
