(* ===== verification/Filetable.thy ===== *)
theory Filetable
  imports File Fs_Content
begin

text \<open>
  Correctness of \<^verbatim>\<open>kernel/file.c\<close>: creating pipes, and reading and writing the disk as a device at any offset.
\<close>

subsection \<open>Block devices\<close>

definition disk_byte :: "'a virtio_st_scheme \<Rightarrow> nat \<Rightarrow> u8" where
  "disk_byte s x = blocks s (of_nat (x div BSIZE)) (x mod BSIZE)"

text \<open>What the loops keep: a working cache with the same references held, the inodes and all other files.\<close>

definition moved :: "'a file_st_scheme \<Rightarrow> 'a file_st_scheme \<Rightarrow> nat \<Rightarrow> nat \<Rightarrow> bool" where
  "moved s s' f k \<longleftrightarrow> bio_ok s' \<and> held s' = held s \<and> icache s' = icache s \<and> sb s' = sb s \<and>
     ftable s' = (ftable s)(f := (ftable s f)\<lparr>foff := foff (ftable s f) + of_nat k\<rparr>) \<and>
     devsw s' = devsw s \<and> bdevsw s' = bdevsw s"

lemma moved_refl: "bio_ok s \<Longrightarrow> moved s s f 0"
  by (simp add: moved_def)

lemma moved_trans: "moved s s1 f k \<Longrightarrow> moved s1 s2 f j \<Longrightarrow> moved s s2 f (k + j)"
  by (simp add: moved_def add.assoc)

lemma bio_ok_upd_file [simp]:
  "bio_ok (upd_file f g s) = bio_ok s" "held (upd_file f g s) = held s" "blocks (upd_file f g s) = blocks s"
  by (simp_all add: upd_file_def bio_ok_def bio_inv_def ring_def first_only_def coherent_def vio_ok_def qlist_def held_def
      sorted_wrt_iff_nth_less disk_block_def blocks_def fun_eq_iff)

lemma did_ftable:
  fixes s s' :: "'a file_st_scheme"
  assumes "did s s' B (icache s)"
  shows "ftable s' = ftable s" "devsw s' = devsw s" "bdevsw s' = bdevsw s"
  using did_fields(7) [OF assms] by (cases s, cases s', simp)+

lemma moved_advance:
  assumes "did s s' B (icache s)"
  shows "moved s (upd_file f (\<lambda>f. f\<lparr>foff := foff f + m\<rparr>) s') f (unat m)" "blocks (upd_file f (\<lambda>f. f\<lparr>foff := foff f + m\<rparr>) s') = B"
  using did_fields [OF assms] did_ftable [OF assms] by (simp_all add: moved_def) (simp_all add: upd_file_def)

lemma disk_read_did:
  assumes "bio_ok s" "held s < NBUF" "unat bn < 2 ^ 31"
  obtains s' where "disk_read bn dst s = Some (0, blit dst 0 (blocks s bn) 0 BSIZE, s')" "did s s' (blocks s) (icache s)"
proof -
  obtain b s1 where b: "bio_read 0 bn s = Some (Some b, s1)" "bio_ok s1" "blocks s1 = blocks s" "acquired bn b s s1"
    "outside_same s s1" "icache s1 = icache s" "sb s1 = sb s" by (rule read_block [OF assms(1,3,2)])
  have c: "\<forall>j<BSIZE. bdata (bufs s1 b) j = blocks s bn j" using held_contents [OF b(4,2) balanced_refl b(2) assms(3)] b(3) by simp
  have d1: "did s1 s1 (blocks s) (icache s)" using did_refl [OF b(2)] b(3,6) by simp
  have "blit dst 0 (bdata (bufs s1 b)) 0 BSIZE = blit dst 0 (blocks s bn) 0 BSIZE" using c by (auto simp: blit_def)
  then show thesis using that b(1) release_block [OF b(4,5) d1] by (simp add: disk_read_def)
qed

lemma disk_write_did:
  assumes "bio_ok s" "held s < NBUF" "unat bn < 2 ^ 31"
  obtains s' where "disk_write bn src s = Some (0, s')" "did s s' ((blocks s)(bn := clip src)) (icache s)"
proof -
  obtain b s1 where b: "bio_read 0 bn s = Some (Some b, s1)" "bio_ok s1" "blocks s1 = blocks s" "acquired bn b s s1"
    "outside_same s s1" "icache s1 = icache s" "sb s1 = sb s" by (rule read_block [OF assms(1,3,2)])
  have d1: "did s1 s1 (blocks s) (icache s)" using did_refl [OF b(2)] b(3,6) by simp
  let ?d = "blit (bdata (bufs s1 b)) 0 src 0 BSIZE"
  obtain s2 where w: "bio_write b (upd_buf b (\<lambda>u. u\<lparr>bdata := ?d\<rparr>) s1) = Some (0, s2)"
    "did s (bio_release b s2) ((blocks s)(bn := clip ?d)) (icache s)"
    using write_block [OF b(4,5) d1 assms(3)] by blast
  have "clip ?d = clip src" by (auto simp: clip_def blit_def)
  then show thesis using that b(1) w by (simp add: disk_write_def)
qed

text \<open>One round of the loops, with a count of \<open>k\<close> bytes left.\<close>

lemma bdev_chunk:
  fixes off :: u32
  assumes "0 < k" "unat off + k < 2 ^ 32"
  defines "m \<equiv> chunk off 0 (word_of_int (int k))"
  shows "unat m = min (BSIZE - unat off mod BSIZE) k" "0 < unat m" "unat m \<le> k" "unat (off + m) = unat off + unat m"
    "int k - uint m = int (k - unat m)"
proof -
  have uk: "unat (word_of_int (int k) :: u32) = k" using assms(2) by (subst unat_word_of_int) simp_all
  have lt: "(0 :: u32) < word_of_int (int k)" using assms(1) uk by (simp add: word_less_nat_alt)
  note c = chunk_progress [OF lt, of off, folded m_def, unfolded uk]
  show "unat m = min (BSIZE - unat off mod BSIZE) k" "0 < unat m" "unat m \<le> k" using c by simp_all
  then show "unat (off + m) = unat off + unat m" using assms(2) by (intro unat_plus_if_size) simp
  have "uint m = int (unat m)" by simp
  then show "int k - uint m = int (k - unat m)" using \<open>unat m \<le> k\<close> by (simp only: of_nat_diff)
qed

lemma block_small: "unat (off div of_nat BSIZE :: u32) < 2 ^ 31"
  using unat_less_exp [of off] by (simp add: unat_div BSIZE_def)

lemma disk_byte_same_block:
  fixes off :: u32
  assumes "c < BSIZE - unat off mod BSIZE"
  shows "disk_byte s (unat off + c) = blocks s (off div of_nat BSIZE) (unat (off mod of_nat BSIZE) + c)"
proof -
  have "of_nat (unat off div BSIZE) = off div of_nat BSIZE" by (simp flip: unat_block)
  then show ?thesis using div_within [OF assms] by (simp add: disk_byte_def unat_block)
qed

lemma bdev_read_loop_correct:
  assumes "bio_ok s" "held s < NBUF" "unat (foff (ftable s f)) + k < 2 ^ 32"
  shows "\<exists>s'. bdev_read_loop f DiskDev blkbuf addr (int t) (int k) s =
      Some (int (t + k), (\<lambda>j. if t \<le> j \<and> j < t + k then disk_byte s (unat (foff (ftable s f)) + (j - t)) else addr j), s') \<and>
    moved s s' f k \<and> blocks s' = blocks s"
  using assms
proof (induction k arbitrary: blkbuf addr t s rule: less_induct)
  case (less k)
  let ?off = "foff (ftable s f)"
  show ?case
  proof (cases "k = 0")
    case True
    then show ?thesis using less.prems(1) by (subst bdev_read_loop.simps) (auto simp: moved_refl fun_eq_iff)
  next
    case False
    let ?m = "chunk ?off 0 (word_of_int (int k))" and ?bn = "?off div of_nat BSIZE"
    note c = bdev_chunk [of k, OF _ less.prems(3)]
    obtain s1 where d: "disk_read ?bn blkbuf s = Some (0, blit blkbuf 0 (blocks s ?bn) 0 BSIZE, s1)" "did s s1 (blocks s) (icache s)"
      by (rule disk_read_did [OF less.prems(1,2) block_small])
    let ?s2 = "upd_file f (\<lambda>f. f\<lparr>foff := foff f + ?m\<rparr>) s1"
    note a = moved_advance [OF d(2), of f ?m]
    have o2: "foff (ftable ?s2 f) = ?off + ?m" "bio_ok ?s2" "held ?s2 = held s" using a(1) by (simp_all add: moved_def)
    let ?buf = "blit addr t (blit blkbuf 0 (blocks s ?bn) 0 BSIZE) (unat (?off mod of_nat BSIZE)) (unat ?m)"
    have db: "disk_byte ?s2 = disk_byte s" using a(2) by (simp add: disk_byte_def fun_eq_iff)
    have tm: "int t + uint ?m = int (t + unat ?m)" by simp
    have "bdev_read_loop f DiskDev blkbuf addr (int t) (int k) s =
        bdev_read_loop f DiskDev (blit blkbuf 0 (blocks s ?bn) 0 BSIZE) ?buf (int (t + unat ?m)) (int (k - unat ?m)) ?s2"
      using False less.prems(3) d(1) c(5) by (subst bdev_read_loop.simps) (simp add: bdev_read_def Let_def tm)
    moreover have p: "k - unat ?m < k" "bio_ok ?s2" "held ?s2 < NBUF" "unat (foff (ftable ?s2 f)) + (k - unat ?m) < 2 ^ 32"
      using c(2-4) False o2 less.prems(2,3) by simp_all
    obtain s' where IH: "bdev_read_loop f DiskDev (blit blkbuf 0 (blocks s ?bn) 0 BSIZE) ?buf (int (t + unat ?m)) (int (k - unat ?m)) ?s2 =
        Some (int (t + unat ?m + (k - unat ?m)), (\<lambda>j. if t + unat ?m \<le> j \<and> j < t + unat ?m + (k - unat ?m)
          then disk_byte s (unat (?off + ?m) + (j - (t + unat ?m))) else ?buf j), s')"
        "moved ?s2 s' f (k - unat ?m)" "blocks s' = blocks ?s2"
      using less.IH [OF p, of "blit blkbuf 0 (blocks s ?bn) 0 BSIZE" ?buf "t + unat ?m"] unfolding db o2(1) by blast
    moreover have "(\<lambda>j. if t + unat ?m \<le> j \<and> j < t + unat ?m + (k - unat ?m)
          then disk_byte s (unat (?off + ?m) + (j - (t + unat ?m))) else ?buf j) =
        (\<lambda>j. if t \<le> j \<and> j < t + k then disk_byte s (unat ?off + (j - t)) else addr j)"
    proof
      fix j
      have "?buf j = disk_byte s (unat ?off + (j - t))" if "t \<le> j" "j < t + unat ?m"
      proof -
        have j: "j - t < BSIZE - unat ?off mod BSIZE" using that c(1) False by simp
        then have "unat ?off mod BSIZE + (j - t) < BSIZE" by linarith
        then show ?thesis using that disk_byte_same_block [OF j, of s] by (simp add: blit_def unat_block)
      qed
      then show "(if t + unat ?m \<le> j \<and> j < t + unat ?m + (k - unat ?m)
          then disk_byte s (unat (?off + ?m) + (j - (t + unat ?m))) else ?buf j) =
        (if t \<le> j \<and> j < t + k then disk_byte s (unat ?off + (j - t)) else addr j)"
        using c(3,4) False by (auto simp: blit_def)
    qed
    moreover have "moved s s' f k" using moved_trans [OF a(1) IH(2)] c(3) False by simp
    ultimately show ?thesis using c(3) False a(2) by (intro exI [of _ s']) simp
  qed
qed

lemma blocks_small:
  assumes "x < 2 ^ 32" "of_nat (x div BSIZE) = (off div of_nat BSIZE :: u32)"
  shows "x div BSIZE = unat off div BSIZE"
proof -
  have "x div BSIZE < 2 ^ 32" using assms(1) by (simp add: BSIZE_def)
  then have "x div BSIZE = unat (of_nat (x div BSIZE) :: u32)" by (subst unat_of_nat_small) simp_all
  then show ?thesis by (simp add: assms(2) unat_block)
qed

text \<open>Writing one block of which the bytes from \<open>off\<close> on come from \<open>src\<close>.\<close>

lemma disk_byte_write:
  fixes off :: u32
  assumes "blocks s' = (blocks s)(off div of_nat BSIZE := clip (blit d (unat (off mod of_nat BSIZE)) src t m))"
    "m \<le> BSIZE - unat off mod BSIZE" "\<forall>j<BSIZE. j < unat off mod BSIZE \<or> unat off mod BSIZE + m \<le> j \<longrightarrow> d j = blocks s (off div of_nat BSIZE) j"
    "x < 2 ^ 32"
  shows "disk_byte s' x = (if unat off \<le> x \<and> x < unat off + m then src (t + (x - unat off)) else disk_byte s x)"
proof (cases "of_nat (x div BSIZE) = (off div of_nat BSIZE :: u32)")
  case True
  have xm: "x mod BSIZE < BSIZE" by (simp add: BSIZE_def)
  have q: "x div BSIZE = unat off div BSIZE" by (rule blocks_small [OF assms(4) True])
  obtain q where q: "x = q + x mod BSIZE" "unat off = q + unat off mod BSIZE"
    using q div_mult_mod_eq [of x BSIZE] div_mult_mod_eq [of "unat off" BSIZE] by metis
  have within: "unat off \<le> x \<and> x < unat off + m \<longleftrightarrow> unat off mod BSIZE \<le> x mod BSIZE \<and> x mod BSIZE < unat off mod BSIZE + m"
    "unat off mod BSIZE \<le> x mod BSIZE \<Longrightarrow> x - unat off = x mod BSIZE - unat off mod BSIZE"
    using q by linarith+
  have "disk_byte s' x = blit d (unat off mod BSIZE) src t m (x mod BSIZE)"
    using assms(1) True xm by (simp add: disk_byte_def unat_block)
  then show ?thesis using within assms(3) xm True by (auto simp: blit_def disk_byte_def)
next
  case False
  have "\<not> (unat off \<le> x \<and> x < unat off + m)"
  proof
    assume a: "unat off \<le> x \<and> x < unat off + m"
    then have "x - unat off < BSIZE - unat off mod BSIZE" using assms(2) by linarith
    from div_within [OF this] have "x div BSIZE = unat off div BSIZE" using a by simp
    then show False using False by (simp flip: unat_block)
  qed
  then show ?thesis using False assms(1) by (auto simp: disk_byte_def)
qed

lemma bdev_write_loop_correct:
  assumes "bio_ok s" "held s < NBUF" "unat (foff (ftable s f)) + k < 2 ^ 32"
  shows "\<exists>s'. bdev_write_loop f DiskDev blkbuf addr (int t) (int k) s = Some (int (t + k), s') \<and> moved s s' f k \<and>
    (\<forall>x<2 ^ 32. disk_byte s' x = (if unat (foff (ftable s f)) \<le> x \<and> x < unat (foff (ftable s f)) + k
       then addr (t + (x - unat (foff (ftable s f)))) else disk_byte s x))"
  using assms
proof (induction k arbitrary: blkbuf t s rule: less_induct)
  case (less k)
  let ?off = "foff (ftable s f)"
  show ?case
  proof (cases "k = 0")
    case True
    then show ?thesis using less.prems(1) by (subst bdev_write_loop.simps) (auto simp: moved_refl)
  next
    case False
    let ?m = "chunk ?off 0 (word_of_int (int k))" and ?bn = "?off div of_nat BSIZE" and ?bo = "?off mod of_nat BSIZE"
    note c = bdev_chunk [of k, OF _ less.prems(3)]
    have m: "unat ?m \<le> BSIZE - unat ?off mod BSIZE" using c(1) False by simp
    let ?part = "?bo \<noteq> 0 \<or> ?m < of_nat BSIZE"
    obtain d s1 where r: "(if ?part then bdev_read DiskDev ?bn blkbuf s else Some (0, blkbuf, s)) = Some (0, d, s1)"
      "did s s1 (blocks s) (icache s)"
      "\<forall>j<BSIZE. j < unat ?off mod BSIZE \<or> unat ?off mod BSIZE + unat ?m \<le> j \<longrightarrow> d j = blocks s ?bn j"
    proof (cases ?part)
      case True
      obtain s1 where "disk_read ?bn blkbuf s = Some (0, blit blkbuf 0 (blocks s ?bn) 0 BSIZE, s1)" "did s s1 (blocks s) (icache s)"
        by (rule disk_read_did [OF less.prems(1,2) block_small])
      then show thesis using that True by (simp add: bdev_read_def blit_def)
    next
      case False
      then have "unat ?off mod BSIZE = 0" "BSIZE \<le> unat ?m"
        using unat_block(2) [of ?off] by (simp_all add: word_less_nat_alt BSIZE_def)
      then show thesis using that [of blkbuf s] False did_refl [OF less.prems(1)] by simp
    qed
    note f1 = did_fields [OF r(2)]
    let ?d = "blit d (unat ?bo) addr t (unat ?m)"
    obtain s2 where w: "disk_write ?bn ?d s1 = Some (0, s2)" "did s1 s2 ((blocks s1)(?bn := clip ?d)) (icache s1)"
      using disk_write_did [OF f1(1) _ block_small] f1(6) less.prems(2) by metis
    have d2: "did s s2 ((blocks s)(?bn := clip ?d)) (icache s)" using did_trans [OF r(2) w(2)] unfolding f1(3,4) .
    let ?s3 = "upd_file f (\<lambda>f. f\<lparr>foff := foff f + ?m\<rparr>) s2"
    note a = moved_advance [OF d2, of f ?m]
    have o3: "foff (ftable ?s3 f) = ?off + ?m" "bio_ok ?s3" "held ?s3 = held s" using a(1) by (simp_all add: moved_def)
    note db = disk_byte_write [OF a(2) m r(3)]
    have tm: "int t + uint ?m = int (t + unat ?m)" by simp
    have step: "bdev_write_loop f DiskDev blkbuf addr (int t) (int k) s =
        bdev_write_loop f DiskDev ?d addr (int (t + unat ?m)) (int (k - unat ?m)) ?s3"
      using False less.prems(3) r(1) w(1) c(5) by (subst bdev_write_loop.simps) (simp add: bdev_write_def Let_def tm)
    have p: "k - unat ?m < k" "bio_ok ?s3" "held ?s3 < NBUF" "unat (foff (ftable ?s3 f)) + (k - unat ?m) < 2 ^ 32"
      using c(2-4) False o3 less.prems(2,3) by simp_all
    obtain s' where IH: "bdev_write_loop f DiskDev ?d addr (int (t + unat ?m)) (int (k - unat ?m)) ?s3 = Some (int (t + unat ?m + (k - unat ?m)), s')"
      "moved ?s3 s' f (k - unat ?m)"
      "\<forall>x<2 ^ 32. disk_byte s' x = (if unat (?off + ?m) \<le> x \<and> x < unat (?off + ?m) + (k - unat ?m)
         then addr (t + unat ?m + (x - unat (?off + ?m))) else disk_byte ?s3 x)"
      using less.IH [OF p, of ?d "t + unat ?m"] unfolding o3(1) by blast
    have um: "unat (?off + ?m) = unat ?off + unat ?m" "unat ?m \<le> k" using c(3,4) False by simp_all
    have "disk_byte s' x = (if unat ?off \<le> x \<and> x < unat ?off + k then addr (t + (x - unat ?off)) else disk_byte s x)" if "x < 2 ^ 32" for x
    proof (cases "unat ?off + unat ?m \<le> x \<and> x < unat ?off + k")
      case True
      then have "disk_byte s' x = addr (t + unat ?m + (x - (unat ?off + unat ?m)))" using IH(3) that um by simp
      also have "t + unat ?m + (x - (unat ?off + unat ?m)) = t + (x - unat ?off)" using True by linarith
      finally show ?thesis using True by simp
    next
      case False
      then have "disk_byte s' x = disk_byte ?s3 x" using IH(3) that um by auto
      then show ?thesis using db [OF that] False um by auto
    qed
    moreover have "moved s s' f k" using moved_trans [OF a(1) IH(2)] um(2) by simp
    ultimately show ?thesis using step IH(1) um(2) by (intro exI [of _ s']) simp
  qed
qed

text \<open>Two files are open in the example: the disk for reading and writing, and the file system's inode 0.\<close>

definition blank_file :: kfile where
  "blank_file = \<lparr>ftype = FD_NONE, fref = 0, readable = False, writable = False, fappend = False, fip = None, foff = 0, fmajor = 0, fpipe = 0\<rparr>"

definition demo_file :: file_st where
  "demo_file = con_st.extend (fs_st.extend demo_fs (con_st.fields \<lparr>rxbuf = (\<lambda>_. 0), rxhead = 0, rxtail = 0\<rparr> 1 False [] []))
     (file_st.fields ((\<lambda>_. blank_file)(0 := blank_file\<lparr>ftype := FD_BDEVICE, fref := 1, readable := True, writable := True, foff := 1000, fmajor := DISK\<rparr>,
        2 := blank_file\<lparr>ftype := FD_INODE, fref := 1, readable := True, fip := Some 0\<rparr>)) Map.empty [DISK \<mapsto> DiskDev])"

lemma demo_file_ok: "bio_ok demo_file" "held demo_file < NBUF"
proof -
  have "bio_ok demo_file = bio_ok demo_fs"
    by (simp add: demo_file_def bio_ok_def bio_inv_def ring_def first_only_def coherent_def vio_ok_def qlist_def
      sorted_wrt_iff_nth_less disk_block_def fs_st.defs con_st.defs)
  moreover have "held demo_file = held demo_fs" by (simp add: demo_file_def held_def fs_st.defs con_st.defs)
  ultimately show "bio_ok demo_file" "held demo_file < NBUF" using demo_fs_ok by (simp_all add: NBUF_def)
qed

lemma demo_file_fields:
  "ftable demo_file = (\<lambda>_. blank_file)(0 := blank_file\<lparr>ftype := FD_BDEVICE, fref := 1, readable := True, writable := True, foff := 1000, fmajor := DISK\<rparr>,
        2 := blank_file\<lparr>ftype := FD_INODE, fref := 1, readable := True, fip := Some 0\<rparr>)"
  "bdevsw demo_file = [DISK \<mapsto> DiskDev]"
  by (simp_all add: demo_file_def con_st.defs file_st.defs)

text \<open>Property C22. Through a file on the disk device, \<^verbatim>\<open>fileread\<close> returns the bytes of the disk from the file's offset on, and
  \<^verbatim>\<open>filewrite\<close> replaces exactly those bytes, at any offset and length, also where they cover only parts of blocks. Both
  advance the offset by the count and leave all other files, all inodes and all buffer references as they are. (The offset is
  an \<^verbatim>\<open>unsigned int\<close>; requests that would wrap it around are excluded.)\<close>

theorem block_device_correct:
  assumes "bio_ok s" "held s < NBUF" "ftype (ftable s f) = FD_BDEVICE" "fmajor (ftable s f) = DISK" "bdevsw s DISK = Some DiskDev"
    "unat (foff (ftable s f)) + k < 2 ^ 32"
  defines "off \<equiv> unat (foff (ftable s f))"
  shows "(if readable (ftable s f) then \<exists>s'. fileread junk f addr (int k) es s =
        Some (int k, (\<lambda>j. if j < k then disk_byte s (off + j) else addr j), s', es) \<and> moved s s' f k \<and> disk_byte s' = disk_byte s
      else fileread junk f addr (int k) es s = Some (-1, addr, s, es)) \<and>
    (if writable (ftable s f) then \<exists>s'. filewrite junk f addr (int k) es s = Some (int k, s', es) \<and> moved s s' f k \<and>
        (\<forall>x<2 ^ 32. disk_byte s' x = (if off \<le> x \<and> x < off + k then addr (x - off) else disk_byte s x))
      else filewrite junk f addr (int k) es s = Some (-1, s, es))"
proof -
  have dl: "dev_lookup DISK NBDEV (bdevsw s) = Some DiskDev" using assms(5) by (simp add: dev_lookup_def DISK_def NBDEV_def)
  obtain s1 where r: "bdev_read_loop f DiskDev junk addr 0 (int k) s = Some (int k, (\<lambda>j. if j < k then disk_byte s (off + j) else addr j), s1)"
    "moved s s1 f k" "blocks s1 = blocks s"
    using bdev_read_loop_correct [OF assms(1,2,6), of junk addr 0, unfolded diff_zero] unfolding off_def by auto
  obtain s2 where w: "bdev_write_loop f DiskDev junk addr 0 (int k) s = Some (int k, s2)" "moved s s2 f k"
    "\<forall>x<2 ^ 32. disk_byte s2 x = (if off \<le> x \<and> x < off + k then addr (x - off) else disk_byte s x)"
    using bdev_write_loop_correct [OF assms(1,2,6), of junk addr 0, unfolded diff_zero] unfolding off_def by auto
  have "disk_byte s1 = disk_byte s" using r(3) by (simp add: disk_byte_def fun_eq_iff)
  then have "if readable (ftable s f) then \<exists>s'. fileread junk f addr (int k) es s =
        Some (int k, (\<lambda>j. if j < k then disk_byte s (off + j) else addr j), s', es) \<and> moved s s' f k \<and> disk_byte s' = disk_byte s
      else fileread junk f addr (int k) es s = Some (-1, addr, s, es)"
    using r(1,2) assms(3,4) dl by (simp add: fileread_def)
  moreover have "if writable (ftable s f) then \<exists>s'. filewrite junk f addr (int k) es s = Some (int k, s', es) \<and> moved s s' f k \<and>
        (\<forall>x<2 ^ 32. disk_byte s' x = (if off \<le> x \<and> x < off + k then addr (x - off) else disk_byte s x))
      else filewrite junk f addr (int k) es s = Some (-1, s, es)"
    using w assms(3,4) dl by (simp add: filewrite_def)
  ultimately show ?thesis by blast
qed

theorem block_device_correct_witness:
  "\<exists>s'. filewrite (\<lambda>_. 0) 0 (\<lambda>j. of_nat j) 100 [] demo_file = Some (100, s', []) \<and> disk_byte s' 1050 = 50"
  using block_device_correct [OF demo_file_ok, of 0 100 "\<lambda>_. 0" "\<lambda>j. of_nat j" "[]"]
  by (auto simp: demo_file_fields blank_file_def)

subsection \<open>Creating pipes\<close>

text \<open>The two lowest free entries of the file table.\<close>

definition two_free :: "'a file_st_scheme \<Rightarrow> (nat \<times> nat) option" where
  "two_free s = (case filter (\<lambda>i. fref (ftable s i) = 0) [0..<NFILE] of a # b # _ \<Rightarrow> Some (a, b) | _ \<Rightarrow> None)"

lemma find_filter: "List.find P xs = (case filter P xs of [] \<Rightarrow> None | x # _ \<Rightarrow> Some x)"
  by (induction xs) auto

lemma filealloc_next:
  assumes "filter (\<lambda>i. fref (ftable s i) = 0) [0..<NFILE] = a # as"
  obtains s' where "filealloc s = (Some a, s')" "filter (\<lambda>i. fref (ftable s' i) = 0) [0..<NFILE] = as"
    "s' = s\<lparr>ftable := (ftable s)(a := blank_file\<lparr>fref := 1\<rparr>)\<rparr>"
proof -
  let ?s = "s\<lparr>ftable := (ftable s)(a := blank_file\<lparr>fref := 1\<rparr>)\<rparr>"
  have "filealloc s = (Some a, ?s)"
    using assms by (cases "ftable s a") (simp add: filealloc_def find_filter upd_file_def blank_file_def)
  moreover have "filter (\<lambda>i. fref (ftable ?s i) = 0) [0..<NFILE] = as"
  proof -
    have "distinct (a # as)" using assms distinct_filter [OF distinct_upt] by metis
    then have "filter (\<lambda>i. i \<noteq> a) as = as" by (intro filter_True) auto
    then have "as = filter (\<lambda>i. i \<noteq> a) (a # as)" by simp
    also have "\<dots> = filter (\<lambda>i. fref (ftable ?s i) = 0) [0..<NFILE]"
      unfolding assms [symmetric] filter_filter by (rule filter_cong) (auto simp: blank_file_def)
    finally show ?thesis by simp
  qed
  ultimately show thesis using that by blast
qed

lemma filealloc_none: "filter (\<lambda>i. fref (ftable s i) = 0) [0..<NFILE] = [] \<Longrightarrow> filealloc s = (None, s)"
  by (simp add: filealloc_def find_filter)

lemma fileclose_fresh:
  "ftable s a = blank_file\<lparr>fref := 1\<rparr> \<Longrightarrow> fileclose a s = Some (s\<lparr>ftable := (ftable s)(a := blank_file)\<rparr>)"
  by (simp add: fileclose_def Let_def upd_file_def blank_file_def has_inode_def)

text \<open>Property C23. \<^verbatim>\<open>pipealloc\<close> succeeds exactly when two file entries and a page are free. Then the two lowest entries become the
  reading and the writing end of an empty pipe in that page, with one reference each, and no other file changes. On failure it
  returns -1 and gives everything back: reference counts of all files, the free pages and all pipes are as before.\<close>

theorem pipealloc_correct:
  assumes "pmm_inv (kpmm s) ps"
  shows "case (two_free s, ps) of
      (Some (a, b), pg # ps') \<Rightarrow> a < b \<and> b < NFILE \<and> fref (ftable s a) = 0 \<and> fref (ftable s b) = 0 \<and>
        (\<exists>s'. pipealloc s = Some (0, Some a, Some b, s') \<and> pmm_inv (kpmm s') ps' \<and>
          ftable s' = (ftable s)(a := blank_file\<lparr>fref := 1, ftype := FD_PIPE, readable := True, fpipe := PA_TO_VA pg\<rparr>,
                                 b := blank_file\<lparr>fref := 1, ftype := FD_PIPE, writable := True, fpipe := PA_TO_VA pg\<rparr>) \<and>
          readopen (pipes s' (PA_TO_VA pg)) \<and> writeopen (pipes s' (PA_TO_VA pg)) \<and> pqueue (pipes s' (PA_TO_VA pg)) = [])
    | _ \<Rightarrow> \<exists>f0 f1 s'. pipealloc s = Some (-1, f0, f1, s') \<and> kpmm s' = kpmm s \<and> pipes s' = pipes s \<and>
        (\<forall>i. fref (ftable s' i) = fref (ftable s i))"
proof -
  let ?P = "\<lambda>s. filter (\<lambda>i. fref (ftable s i) = 0) [0..<NFILE]"
  consider "?P s = []" | a where "?P s = [a]" | a b xs where "?P s = a # b # xs" by (cases "?P s"; cases "tl (?P s)") auto
  then show ?thesis
  proof cases
    case 1
    then show ?thesis by (auto simp: two_free_def pipealloc_def filealloc_none close_opt_def)
  next
    case (2 a)
    have z: "fref (ftable s a) = 0" using arg_cong [OF 2, of set] by auto
    obtain s1 where f: "filealloc s = (Some a, s1)" "?P s1 = []" "s1 = s\<lparr>ftable := (ftable s)(a := blank_file\<lparr>fref := 1\<rparr>)\<rparr>"
      by (rule filealloc_next [OF 2])
    then show ?thesis using 2 z filealloc_none [OF f(2)] fileclose_fresh [of s1 a]
      by (auto simp: two_free_def pipealloc_def close_opt_def blank_file_def)
  next
    case (3 a b xs)
    have z: "fref (ftable s a) = 0" "fref (ftable s b) = 0" "b < NFILE" using arg_cong [OF 3, of set] by auto
    have "sorted_wrt (<) (a # b # xs)" using sorted_wrt_filter [OF sorted_wrt_upt] 3 by (metis (no_types, lifting))
    then have ab: "a < b" by simp
    obtain s1 where f: "filealloc s = (Some a, s1)" "?P s1 = b # xs" "s1 = s\<lparr>ftable := (ftable s)(a := blank_file\<lparr>fref := 1\<rparr>)\<rparr>"
      by (rule filealloc_next [OF 3])
    obtain s2 where g: "filealloc s1 = (Some b, s2)" "?P s2 = xs" "s2 = s1\<lparr>ftable := (ftable s1)(b := blank_file\<lparr>fref := 1\<rparr>)\<rparr>"
      by (rule filealloc_next [OF f(2)])
    have tf: "two_free s = Some (a, b)" using 3 by (simp add: two_free_def)
    show ?thesis
    proof (cases ps)
      case Nil
      then have pa: "pmm_alloc (kpmm s2) = (PMM_INVALID, kpmm s2)" using assms f(3) g(3) pmm_alloc_Nil by simp
      have k: "s2\<lparr>kpmm := kpmm s2\<rparr> = s2" by simp
      have "fileclose a s2 = Some (s2\<lparr>ftable := (ftable s2)(a := blank_file)\<rparr>)" using ab f(3) g(3) by (intro fileclose_fresh) simp
      moreover have "fileclose b (s2\<lparr>ftable := (ftable s2)(a := blank_file)\<rparr>) =
          Some (s2\<lparr>ftable := (ftable s2)(a := blank_file, b := blank_file)\<rparr>)"
        using ab g(3) fileclose_fresh [of "s2\<lparr>ftable := (ftable s2)(a := blank_file)\<rparr>" b] by simp
      ultimately have "pipealloc s = Some (-1, Some a, Some b, s2\<lparr>ftable := (ftable s2)(a := blank_file, b := blank_file)\<rparr>)"
        using f(1) g(1) pa k by (simp add: pipealloc_def close_opt_def)
      then show ?thesis using Nil tf z f(3) g(3) by (auto simp: blank_file_def)
    next
      case (Cons pg ps')
      note c = pmm_alloc_Cons [of "kpmm s" pg ps']
      have "page_ok pg" using assms Cons by (simp add: pmm_inv_def)
      then have pa: "pmm_alloc (kpmm s2) = (pg, snd (pmm_alloc (kpmm s)))" "pg \<noteq> PMM_INVALID"
        using c(1) assms Cons f(3) g(3) by (auto simp: prod_eq_iff)
      let ?pi = "PA_TO_VA pg"
      let ?s3 = "upd_pipe ?pi (\<lambda>p. p\<lparr>readopen := True, writeopen := True, nread := 0, nwrite := 0\<rparr>) (s2\<lparr>kpmm := snd (pmm_alloc (kpmm s))\<rparr>)"
      let ?s4 = "upd_file a (\<lambda>f. f\<lparr>ftype := FD_PIPE, readable := True, writable := False, fpipe := ?pi\<rparr>) ?s3"
      let ?s5 = "upd_file b (\<lambda>f. f\<lparr>ftype := FD_PIPE, readable := False, writable := True, fpipe := ?pi\<rparr>) ?s4"
      have "pipealloc s = Some (0, Some a, Some b, ?s5)" using f(1) g(1) pa by (simp add: pipealloc_def Let_def)
      moreover have "kpmm ?s5 = snd (pmm_alloc (kpmm s))" "pipes ?s5 ?pi = (pipes s ?pi)\<lparr>readopen := True, writeopen := True, nread := 0, nwrite := 0\<rparr>"
        using f(3) g(3) by (simp_all add: upd_file_def upd_pipe_def)
      moreover have "ftable ?s5 = (ftable s)(a := blank_file\<lparr>fref := 1, ftype := FD_PIPE, readable := True, fpipe := ?pi\<rparr>,
                                 b := blank_file\<lparr>fref := 1, ftype := FD_PIPE, writable := True, fpipe := ?pi\<rparr>)"
        using f(3) g(3) ab by (auto simp: upd_file_def upd_pipe_def blank_file_def fun_eq_iff)
      ultimately show ?thesis using Cons tf z ab c(2) assms by (simp add: pqueue_def pused_def)
    qed
  qed
qed

theorem pipealloc_correct_witness:
  "\<exists>s'. pipealloc (demo_file\<lparr>kpmm := two_pages\<rparr>) = Some (0, Some 1, Some 3, s') \<and> pqueue (pipes s' (PA_TO_VA 0x40100000)) = []"
proof -
  have "two_free (demo_file\<lparr>kpmm := two_pages\<rparr>) = Some (1, 3)"
    by (simp add: two_free_def demo_file_fields blank_file_def NFILE_def upt_rec)
  then show ?thesis using pipealloc_correct [of "demo_file\<lparr>kpmm := two_pages\<rparr>" "[0x40100000, 0x40101000]"] two_pages_inv by auto
qed

end
