(* ===== verification/Elf.thy ===== *)
theory Elf
  imports Fs_Inode Fs_Layout
begin

text \<open>
  The program loader, \<^verbatim>\<open>kernel/elf.c\<close>. Headers are read from an array of bytes (an image in kernel memory, or the
  copy \<^verbatim>\<open>fs_readi\<close> makes). The function pointer \<^verbatim>\<open>elf_reader\<close> is a function of the state that copies a part of the
  file to a kernel address.
\<close>

definition ELF_MAGIC :: u32 where "ELF_MAGIC = 0x464C457F"
definition ET_EXEC :: u16 where "ET_EXEC = 2"
definition EM_AARCH64 :: u16 where "EM_AARCH64 = 183"
definition PT_LOAD :: u32 where "PT_LOAD = 1"
definition PF_X :: u32 where "PF_X = 1"
definition PF_W :: u32 where "PF_W = 2"
definition EHDR_SIZE :: nat where "EHDR_SIZE = 64"
definition PHDR_SIZE :: nat where "PHDR_SIZE = 56"

definition get64 :: "bytes \<Rightarrow> nat \<Rightarrow> u64" where
  "get64 d i = ucast (get32 d i) OR push_bit 32 (ucast (get32 d (i + 4)))"

record elf_ehdr =
  e_magic :: u32
  e_type :: u16
  e_machine :: u16
  e_entry :: u64
  e_phoff :: u64
  e_phnum :: u16

record elf_phdr =
  p_type :: u32
  p_flags :: u32
  p_offset :: u64
  p_vaddr :: u64
  p_filesz :: u64
  p_memsz :: u64

definition read_ehdr :: "bytes \<Rightarrow> elf_ehdr" where
  "read_ehdr d = \<lparr>e_magic = get32 d 0, e_type = get16 d 16, e_machine = get16 d 18, e_entry = get64 d 24,
     e_phoff = get64 d 32, e_phnum = get16 d 56\<rparr>"

definition read_phdr :: "bytes \<Rightarrow> nat \<Rightarrow> elf_phdr" where
  "read_phdr d p = \<lparr>p_type = get32 d p, p_flags = get32 d (p + 4), p_offset = get64 d (p + 8), p_vaddr = get64 d (p + 16),
     p_filesz = get64 d (p + 32), p_memsz = get64 d (p + 40)\<rparr>"

definition elf_validate :: "elf_ehdr \<Rightarrow> int" where
  "elf_validate e =
     (if e_magic e \<noteq> ELF_MAGIC then -1
      else if e_machine e \<noteq> EM_AARCH64 then -1
      else if e_type e \<noteq> ET_EXEC then -1 else 0)"

text \<open>The part of the file that belongs to the page at \<open>page_va\<close>: from address \<open>copy_start\<close> to \<open>copy_end\<close>.\<close>

definition copy_start :: "elf_phdr \<Rightarrow> u64 \<Rightarrow> u64" where
  "copy_start ph page_va = (if page_va < p_vaddr ph then p_vaddr ph else page_va)"

definition copy_end :: "elf_phdr \<Rightarrow> u64 \<Rightarrow> u64" where
  "copy_end ph page_va =
     (if page_va + PAGE_SIZE > p_vaddr ph + p_filesz ph then p_vaddr ph + p_filesz ph else page_va + PAGE_SIZE)"

type_synonym 's elf_reader = "u64 \<Rightarrow> u64 \<Rightarrow> u64 \<Rightarrow> 's \<Rightarrow> (int \<times> 's) option"

definition free_pa :: "u64 \<Rightarrow> 'a kst_scheme \<Rightarrow> 'a kst_scheme option" where
  "free_pa pa s = do { m \<leftarrow> pmm_free pa (kpmm s); Some (s\<lparr>kpmm := m\<rparr>) }"

text \<open>One round of the loop over the pages of a segment.\<close>

definition load_page :: "'a kst_scheme elf_reader \<Rightarrow> elf_phdr \<Rightarrow> u64 \<Rightarrow> u64 \<Rightarrow> 'a kst_scheme \<Rightarrow> (int \<times> 'a kst_scheme) option" where
  "load_page reader ph pt page_va s =
     (let (pa, m) = pmm_alloc (kpmm s); s = s\<lparr>kpmm := m\<rparr> in
      if pa = PMM_INVALID then Some (-1, s)
      else do {
        (r, s) \<leftarrow>
          (if copy_end ph page_va > copy_start ph page_va then
             let page_offset = copy_start ph page_va - page_va;
                 file_offset = p_offset ph + (copy_start ph page_va - p_vaddr ph);
                 copy_len = copy_end ph page_va - copy_start ph page_va
             in do { (r, s) \<leftarrow> reader (PA_TO_VA pa + page_offset) file_offset copy_len s;
                     Some (if r \<noteq> int_of_u64 copy_len then (-1 :: int) else 0, s) }
           else Some (0, s));
        if r < 0 then do { s \<leftarrow> free_pa pa s; Some (-1, s) }
        else do {
          (r, m) \<leftarrow> vmm_map_page pt page_va pa (p_flags ph AND PF_W \<noteq> 0) (p_flags ph AND PF_X \<noteq> 0) (kpmm s);
          let s = s\<lparr>kpmm := m\<rparr>;
          if r < 0 then do { s \<leftarrow> free_pa pa s; Some (-1, s) } else Some (0, s) } })"

partial_function (option) load_pages ::
  "'a kst_scheme elf_reader \<Rightarrow> elf_phdr \<Rightarrow> u64 \<Rightarrow> u64 \<Rightarrow> u64 \<Rightarrow> 'a kst_scheme \<Rightarrow> (int \<times> 'a kst_scheme) option" where
  "load_pages reader ph pt page_va va_end s =
     (if page_va < va_end then
        do { (r, s) \<leftarrow> load_page reader ph pt page_va s;
             if r < 0 then Some (-1, s) else load_pages reader ph pt (page_va + PAGE_SIZE) va_end s }
      else Some (0, s))"

definition seg_start :: "elf_phdr \<Rightarrow> u64" where
  "seg_start ph = p_vaddr ph AND NOT (PAGE_SIZE - 1)"

definition seg_end :: "elf_phdr \<Rightarrow> u64" where
  "seg_end ph = (p_vaddr ph + p_memsz ph + PAGE_SIZE - 1) AND NOT (PAGE_SIZE - 1)"

fun load_segments :: "'a kst_scheme elf_reader \<Rightarrow> elf_phdr list \<Rightarrow> u64 \<Rightarrow> u64 \<Rightarrow> 'a kst_scheme \<Rightarrow> (int \<times> u64 \<times> 'a kst_scheme) option" where
  "load_segments reader [] pt max_addr s = Some (0, max_addr, s)"
| "load_segments reader (ph # phs) pt max_addr s =
     (if p_type ph \<noteq> PT_LOAD then load_segments reader phs pt max_addr s
      else do {
        (r, s) \<leftarrow> load_pages reader ph pt (seg_start ph) (seg_end ph) s;
        if r < 0 then Some (-1, max_addr, s)
        else load_segments reader phs pt (if seg_end ph > max_addr then seg_end ph else max_addr) s })"

text \<open>The second result is \<^verbatim>\<open>*brk\<close>, unchanged on failure.\<close>

definition elf_load_segments :: "elf_phdr list \<Rightarrow> u64 \<Rightarrow> u64 \<Rightarrow> 'a kst_scheme elf_reader \<Rightarrow> 'a kst_scheme \<Rightarrow> (int \<times> u64 \<times> 'a kst_scheme) option" where
  "elf_load_segments phs pt brk reader s =
     do { (r, top_addr, s) \<leftarrow> load_segments reader phs pt 0 s;
          Some (r, if r < 0 then brk else top_addr, s) }"

text \<open>Kernel memory as bytes.\<close>

definition kbytes :: "(u64 \<Rightarrow> u64) \<Rightarrow> u64 \<Rightarrow> bytes" where
  "kbytes m a = (\<lambda>i. load8 m (a + of_nat i))"

definition kstore :: "u64 \<Rightarrow> nat \<Rightarrow> bytes \<Rightarrow> 'a kst_scheme \<Rightarrow> 'a kst_scheme" where
  "kstore a n b s = s\<lparr>kpmm := (kpmm s)\<lparr>mem := fold (\<lambda>i m. store8 m (a + of_nat i) (b i)) [0..<n] (mem (kpmm s))\<rparr>\<rparr>"

definition buf_reader :: "u64 \<Rightarrow> 'a kst_scheme elf_reader" where
  "buf_reader data dst off len s =
     (let m = fold (\<lambda>i m. store8 m (dst + of_nat i) (load8 m (data + off + of_nat i))) [0..<unat len] (mem (kpmm s))
      in Some (int_of_u64 len, s\<lparr>kpmm := (kpmm s)\<lparr>mem := m\<rparr>\<rparr>))"

definition elf_load :: "u64 \<Rightarrow> u64 \<Rightarrow> u64 \<Rightarrow> u64 \<times> u64 \<Rightarrow> 'a kst_scheme \<Rightarrow> (int \<times> (u64 \<times> u64) \<times> 'a kst_scheme) option" where
  "elf_load data len pt out s =
     (if len < of_nat EHDR_SIZE then Some (-1, out, s)
      else
        let img = kbytes (mem (kpmm s)) data; e = read_ehdr img in
        if elf_validate e < 0 then Some (-1, out, s)
        else do {
          let phs = map (\<lambda>i. read_phdr (kbytes (mem (kpmm s)) (data + e_phoff e)) (PHDR_SIZE * i)) [0..<unat (e_phnum e)];
          (r, brk, s) \<leftarrow> elf_load_segments phs pt (snd out) (buf_reader data) s;
          if r < 0 then Some (-1, (fst out, brk), s) else Some (0, (e_entry e, brk), s) })"

text \<open>\<^verbatim>\<open>fs_readi\<close> into kernel memory; its offset and length are 32-bit.\<close>

definition inode_reader :: "nat \<Rightarrow> 'a fs_st_scheme elf_reader" where
  "inode_reader ip dst off len s =
     do { (r, b, s) \<leftarrow> fs_readi ip (kbytes (mem (kpmm s)) dst) (ucast off) (ucast len) s;
          Some (r, kstore dst (unat (ucast len :: u32)) b s) }"

definition elf_load_from_inode :: "nat \<Rightarrow> u64 \<Rightarrow> u64 \<times> u64 \<Rightarrow> 'a fs_st_scheme \<Rightarrow> (int \<times> (u64 \<times> u64) \<times> 'a fs_st_scheme) option" where
  "elf_load_from_inode ip pt out s =
     do {
       (r, hdr, s) \<leftarrow> fs_readi ip (\<lambda>_. 0) 0 (of_nat EHDR_SIZE) s;
       if r \<noteq> int EHDR_SIZE then Some (-1, out, s)
       else
         let e = read_ehdr hdr in
         if elf_validate e < 0 then Some (-1, out, s)
         else if e_phnum e > 16 then Some (-1, out, s)
         else do {
           let phsize = ucast (e_phnum e) * of_nat PHDR_SIZE;
           (r, tab, s) \<leftarrow> fs_readi ip (\<lambda>_. 0) (ucast (e_phoff e)) phsize s;
           if r \<noteq> sint phsize then Some (-1, out, s)
           else do {
             let phs = map (\<lambda>i. read_phdr tab (PHDR_SIZE * i)) [0..<unat (e_phnum e)];
             (r, brk, s) \<leftarrow> elf_load_segments phs pt (snd out) (inode_reader ip) s;
             if r < 0 then Some (-1, (fst out, brk), s) else Some (0, (e_entry e, brk), s) } } }"

end
