(* ===== verification/Bootinfo.thy ===== *)
theory Bootinfo
  imports Fs_Layout
begin

text \<open>
  What the boot loader hands to the kernel: the device tree (\<^verbatim>\<open>kernel/dtb.c\<close>), the initial file archive
  (\<^verbatim>\<open>kernel/initramfs.c\<close>, written by \<^verbatim>\<open>cmd/mkramfs\<close>) and the command line (\<^verbatim>\<open>kernel/cmdline.c\<close>). All three are read from
  memory through pointers, here indices into an array of bytes; index 0 is the null pointer. The address of
  a string literal is given by the parameter \<open>lit\<close>.
\<close>

subsection \<open>Device tree (dtb.c)\<close>

definition FDT_MAGIC :: u32 where "FDT_MAGIC = 0xd00dfeed"
definition FDT_BEGIN_NODE :: u32 where "FDT_BEGIN_NODE = 1"
definition FDT_END_NODE :: u32 where "FDT_END_NODE = 2"
definition FDT_PROP :: u32 where "FDT_PROP = 3"
definition FDT_NOP :: u32 where "FDT_NOP = 4"
definition FDT_END :: u32 where "FDT_END = 9"

lemmas fdt_defs = FDT_MAGIC_def FDT_BEGIN_NODE_def FDT_END_NODE_def FDT_PROP_def FDT_NOP_def FDT_END_def

record dtb_st =
  bootargs :: nat
  initrd_start :: u64
  initrd_end :: u64

definition be32_to_cpu :: "u32 \<Rightarrow> u32" where
  "be32_to_cpu be = push_bit 24 (be AND 0xff) OR push_bit 8 (be AND 0xff00) OR drop_bit 8 (be AND 0xff0000) OR
     drop_bit 24 (be AND 0xff000000)"

definition align4 :: "u32 \<Rightarrow> u32" where
  "align4 v = (v + 3) AND NOT 3"

definition str_chosen :: "u8 list" where "str_chosen = map of_char ''chosen''"
definition str_bootargs :: "u8 list" where "str_bootargs = map of_char ''bootargs''"
definition str_initrd_start :: "u8 list" where "str_initrd_start = map of_char ''linux,initrd-start''"
definition str_initrd_end :: "u8 list" where "str_initrd_end = map of_char ''linux,initrd-end''"

text \<open>The value of an address property: two cells if its length is 8, else one.\<close>

definition initrd_value :: "bytes \<Rightarrow> u32 \<Rightarrow> nat \<Rightarrow> u64" where
  "initrd_value m len propdata =
     (if len = 8 then push_bit 32 (ucast (be32_to_cpu (get32 m propdata))) OR ucast (be32_to_cpu (get32 m (propdata + 4)))
      else ucast (be32_to_cpu (get32 m propdata)))"

definition dtb_prop :: "(u8 list \<Rightarrow> nat) \<Rightarrow> bytes \<Rightarrow> bool \<Rightarrow> nat \<Rightarrow> u32 \<Rightarrow> nat \<Rightarrow> dtb_st \<Rightarrow> dtb_st option" where
  "dtb_prop lit m in_chosen propname len propdata s =
     (if \<not> in_chosen then Some s
      else do {
        c \<leftarrow> strcmp m propname (lit str_bootargs);
        let s = (if c = 0 then s\<lparr>bootargs := propdata\<rparr> else s);
        c \<leftarrow> strcmp m propname (lit str_initrd_start);
        let s = (if c = 0 then s\<lparr>initrd_start := initrd_value m len propdata\<rparr> else s);
        c \<leftarrow> strcmp m propname (lit str_initrd_end);
        Some (if c = 0 then s\<lparr>initrd_end := initrd_value m len propdata\<rparr> else s) })"

partial_function (option) dtb_loop :: "(u8 list \<Rightarrow> nat) \<Rightarrow> bytes \<Rightarrow> nat \<Rightarrow> nat \<Rightarrow> bool \<Rightarrow> dtb_st \<Rightarrow> dtb_st option" where
  "dtb_loop lit m strings p in_chosen s =
     (let token = be32_to_cpu (get32 m p); p = p + 4 in
      if token = FDT_BEGIN_NODE then
        do {
          namelen \<leftarrow> strlen m p;
          c \<leftarrow> strcmp m p (lit str_chosen);
          dtb_loop lit m strings (p + unat (align4 (of_nat namelen + 1))) (if c = 0 then True else in_chosen) s }
      else if token = FDT_END_NODE then dtb_loop lit m strings p False s
      else if token = FDT_PROP then
        let len = be32_to_cpu (get32 m p); nameoff = be32_to_cpu (get32 m (p + 4)); propdata = p + 8 in
        do {
          s \<leftarrow> dtb_prop lit m in_chosen (strings + unat nameoff) len propdata s;
          dtb_loop lit m strings (propdata + unat (align4 len)) in_chosen s }
      else if token = FDT_NOP then dtb_loop lit m strings p in_chosen s
      else Some s)"

definition dtb_init :: "(u8 list \<Rightarrow> nat) \<Rightarrow> bytes \<Rightarrow> nat \<Rightarrow> dtb_st option" where
  "dtb_init lit m dtb_addr =
     (let s = \<lparr>bootargs = 0, initrd_start = 0, initrd_end = 0\<rparr> in
      if dtb_addr = 0 then Some s
      else if be32_to_cpu (get32 m dtb_addr) \<noteq> FDT_MAGIC then Some s
      else
        let off_dt_struct = be32_to_cpu (get32 m (dtb_addr + 8));
            off_dt_strings = be32_to_cpu (get32 m (dtb_addr + 12))
        in dtb_loop lit m (dtb_addr + unat off_dt_strings) (dtb_addr + unat off_dt_struct) False s)"

subsection \<open>Initial archive (initramfs.c)\<close>

definition INITRAMFS_MAGIC :: u32 where "INITRAMFS_MAGIC = 0x4D415253"

record initramfs_st =
  initramfs_data :: u64
  initramfs_size :: u64

record initramfs_entry =
  ename :: nat
  edata :: nat
  esize :: u32

definition initramfs_init :: "dtb_st \<Rightarrow> initramfs_st" where
  "initramfs_init d =
     (let pa_start = initrd_start d; pa_end = initrd_end d in
      if pa_start = 0 \<or> pa_end = 0 \<or> pa_end \<le> pa_start then \<lparr>initramfs_data = 0, initramfs_size = 0\<rparr>
      else \<lparr>initramfs_data = PA_TO_VA pa_start, initramfs_size = pa_end - pa_start\<rparr>)"

text \<open>The loop over the files, with the number of files left.\<close>

primrec initramfs_scan :: "nat \<Rightarrow> bytes \<Rightarrow> nat \<Rightarrow> u32 \<Rightarrow> nat \<Rightarrow> initramfs_entry option" where
  "initramfs_scan 0 m name name_len ptr = None"
| "initramfs_scan (Suc k) m name name_len ptr =
     (let nl = get32 m ptr; dl = get32 m (ptr + 4);
          file_name = ptr + 8; file_data = file_name + unat (align4 nl)
      in if nl = name_len \<and> strncmp m name file_name (unat name_len) = 0
         then Some \<lparr>ename = file_name, edata = file_data, esize = dl\<rparr>
         else initramfs_scan k m name name_len (file_data + unat (align4 dl)))"

definition initramfs_find :: "bytes \<Rightarrow> initramfs_st \<Rightarrow> nat \<Rightarrow> initramfs_entry \<Rightarrow> (int \<times> initramfs_entry) option" where
  "initramfs_find m s name entry =
     (if initramfs_data s = 0 \<or> initramfs_size s = 0 then Some (-1, entry)
      else
        let hdr = unat (initramfs_data s) in
        if get32 m hdr \<noteq> INITRAMFS_MAGIC then Some (-1, entry)
        else do {
          n \<leftarrow> strlen m name;
          Some (case initramfs_scan (unat (get32 m (hdr + 4))) m name (of_nat n) (hdr + 8) of
                  None \<Rightarrow> (-1, entry) | Some e \<Rightarrow> (0, e)) })"

subsection \<open>The archive writer (cmd/mkramfs)\<close>

text \<open>What \<^verbatim>\<open>fwrite\<close> of a 32-bit variable puts into the file.\<close>

definition le32 :: "u32 \<Rightarrow> u8 list" where
  "le32 v = [ucast v, ucast (drop_bit 8 v), ucast (drop_bit 16 v), ucast (drop_bit 24 v)]"

definition write_padding :: "u32 \<Rightarrow> u8 list" where
  "write_padding len = replicate (unat (align4 len) - unat len) 0"

text \<open>The name in the archive: without directories and without the last extension.\<close>

definition base_name :: "u8 list \<Rightarrow> u8 list" where
  "base_name path = rev (takeWhile (\<lambda>c. c \<noteq> 47) (rev path))"

definition stem :: "u8 list \<Rightarrow> u8 list" where
  "stem name = (if 46 \<in> set name then rev (tl (dropWhile (\<lambda>c. c \<noteq> 46) (rev name))) else name)"

definition mkramfs_file :: "u8 list \<times> u8 list \<Rightarrow> u8 list" where
  "mkramfs_file = (\<lambda>(path, data).
     (let name = stem (base_name path); name_len = of_nat (length name); data_len = of_nat (length data)
      in le32 name_len @ le32 data_len @ name @ write_padding name_len @ data @ write_padding data_len))"

definition mkramfs :: "(u8 list \<times> u8 list) list \<Rightarrow> u8 list" where
  "mkramfs files = le32 INITRAMFS_MAGIC @ le32 (of_nat (length files)) @ concat (map mkramfs_file files)"

subsection \<open>Command line (cmdline.c)\<close>

definition CMDLINE_MAX :: nat where "CMDLINE_MAX = 256"

text \<open>\<open>buf\<close> is \<^verbatim>\<open>cmdline_buf\<close>, a separate array.\<close>

definition cmdline_init :: "bytes \<Rightarrow> nat \<Rightarrow> bytes \<Rightarrow> bytes option" where
  "cmdline_init m args buf =
     (if args = 0 then Some (buf(0 := 0))
      else do {
        n \<leftarrow> strlen m args;
        let len = (if n \<ge> CMDLINE_MAX then CMDLINE_MAX - 1 else n);
        Some ((\<lambda>i. if i < len then m (args + i) else buf i)(len := 0)) })"

text \<open>The outer loop of \<^verbatim>\<open>cmdline_get\<close>; \<open>line\<close> is the rest of the buffer before the terminator, \<open>k\<close> its position,
  and the result the position of the value.\<close>

function cmdline_scan :: "u8 list \<Rightarrow> nat \<Rightarrow> u8 list \<Rightarrow> nat option" where
  "cmdline_scan key k line =
     (let sp = length (takeWhile (\<lambda>c. c = 32) line); line = dropWhile (\<lambda>c. c = 32) line; k = k + sp in
      if line = [] then None
      else if take (length key) line = key \<and> length key < length line \<and> line ! length key = 61 then Some (k + length key + 1)
      else cmdline_scan key (k + length (takeWhile (\<lambda>c. c \<noteq> 32) line)) (dropWhile (\<lambda>c. c \<noteq> 32) line))"
  by pat_completeness auto
termination
proof (relation "measure (\<lambda>(key, k, line). length line)", goal_cases)
  case (2 key k line sp l k')
  obtain c cs where l: "l = c # cs" using 2(4) by (cases l) auto
  have "c \<noteq> 32" using hd_dropWhile [of "\<lambda>c. c = 32" line] 2(2) l by force
  then have "length (dropWhile (\<lambda>c. c \<noteq> 32) l) \<le> length cs" using l length_dropWhile_le [of _ cs] by simp
  moreover have "length l \<le> length line" using 2(2) by (simp add: length_dropWhile_le)
  ultimately show ?case using l by simp
qed simp

declare cmdline_scan.simps [simp del]

definition cmdline_get :: "u8 list \<Rightarrow> u8 list \<Rightarrow> nat option" where
  "cmdline_get key line = cmdline_scan key 0 line"

subsection \<open>Bytes in memory\<close>

definition mem_at :: "bytes \<Rightarrow> nat \<Rightarrow> u8 list \<Rightarrow> bool" where
  "mem_at m p bs \<longleftrightarrow> (\<forall>i<length bs. m (p + i) = bs ! i)"

lemma mem_at_Nil [simp]: "mem_at m p []"
  by (simp add: mem_at_def)

lemma mem_at_Cons [simp]: "mem_at m p (b # bs) \<longleftrightarrow> m p = b \<and> mem_at m (Suc p) bs"
  by (auto simp: mem_at_def nth_Cons' less_Suc_eq_0_disj)

lemma mem_at_append [simp]: "mem_at m p (xs @ ys) \<longleftrightarrow> mem_at m p xs \<and> mem_at m (p + length xs) ys"
  by (induction xs arbitrary: p) auto

lemma get32_le32: "mem_at m p (le32 v) \<Longrightarrow> get32 m p = v"
proof -
  assume "mem_at m p (le32 v)"
  then have "get32 m p = get32 (put32 p v m) p"
    by (auto simp: le32_def get32_def put32_def numeral_2_eq_2 numeral_3_eq_3)
  then show ?thesis by simp
qed

lemma length_le32 [simp]: "length (le32 v) = 4"
  by (simp add: le32_def)

lemma strncmp_mem: "str_at m p xs \<Longrightarrow> strncmp m p q (length xs) = 0 \<longleftrightarrow> mem_at m q xs"
  by (induction xs arbitrary: p q) (auto simp flip: word_uint_eq_iff)

lemma unat_align4: "unat v < 2 ^ 32 - 3 \<Longrightarrow> unat (align4 v) = (unat v + 3) div 4 * 4"
proof -
  assume v: "unat v < 2 ^ 32 - 3"
  have "unat (align4 v) = unat (v + 3) div 2 ^ 2 * 2 ^ 2"
    unfolding align4_def using unat_and_not_mask [of "v + 3" 2] by (simp add: mask_eq_exp_minus_1)
  also have "unat (v + 3) = unat v + 3" using v by (subst unat_plus_if_size) auto
  finally show ?thesis by simp
qed

lemma align4_ge: "unat v < 2 ^ 32 - 3 \<Longrightarrow> unat v \<le> unat (align4 v)"
  by (simp add: unat_align4)

lemma length_padded: "unat v < 2 ^ 32 - 3 \<Longrightarrow> unat v + length (write_padding v) = unat (align4 v)"
  using align4_ge [of v] by (simp add: write_padding_def)

subsection \<open>The archive is found again\<close>

definition archive_name :: "u8 list \<times> u8 list \<Rightarrow> u8 list" where
  "archive_name f = stem (base_name (fst f))"

definition fits :: "u8 list \<times> u8 list \<Rightarrow> bool" where
  "fits f \<longleftrightarrow> length (archive_name f) < 2 ^ 32 - 3 \<and> length (snd f) < 2 ^ 32 - 3"

lemma initramfs_scan_step:
  assumes "mem_at m p (mkramfs_file f)" "fits f" "str_at m name nm" "length nm < 2 ^ 32"
  defines "d \<equiv> p + 8 + unat (align4 (of_nat (length (archive_name f))))"
  shows "initramfs_scan (Suc k) m name (of_nat (length nm)) p =
    (if archive_name f = nm then Some \<lparr>ename = p + 8, edata = d, esize = of_nat (length (snd f))\<rparr>
     else initramfs_scan k m name (of_nat (length nm)) (p + length (mkramfs_file f)))"
    "mem_at m (p + 8) (archive_name f)" "mem_at m d (snd f)"
proof -
  let ?n = "archive_name f" and ?d = "snd f"
  let ?nl = "of_nat (length ?n) :: u32" and ?dl = "of_nat (length ?d) :: u32"
  have enc: "mkramfs_file f = le32 ?nl @ le32 ?dl @ ?n @ write_padding ?nl @ ?d @ write_padding ?dl"
    by (simp add: mkramfs_file_def archive_name_def Let_def split: prod.splits)
  have u: "unat ?nl = length ?n" "unat ?dl = length ?d" using assms(2) by (auto simp: fits_def unat_of_nat_small)
  note pad = length_padded [of ?nl] length_padded [of ?dl]
  have fit: "unat ?nl < 2 ^ 32 - 3" "unat ?dl < 2 ^ 32 - 3" using assms(2) u by (auto simp: fits_def)
  have g: "get32 m p = ?nl" "get32 m (p + 4) = ?dl" and n: "mem_at m (p + 8) ?n"
    using assms(1) unfolding enc by (auto intro!: get32_le32 simp: add.assoc)
  have d: "d = p + 8 + length ?n + length (write_padding ?nl)" using pad(1) [OF fit(1)] u by (simp add: d_def)
  then have dm: "mem_at m d ?d" using assms(1) unfolding enc by (simp add: add.assoc add.commute add.left_commute)
  have len: "p + length (mkramfs_file f) = d + unat (align4 ?dl)" using pad(2) [OF fit(2)] u d unfolding enc by simp
  have unm: "unat (of_nat (length nm) :: u32) = length nm" using assms(4) by (simp add: unat_of_nat_small)
  have "?nl = of_nat (length nm) \<longleftrightarrow> length ?n = length nm" using u unm by metis
  moreover have "strncmp m name (p + 8) (length nm) = 0 \<longleftrightarrow> ?n = nm" if "length ?n = length nm"
    using strncmp_mem [OF assms(3)] n that by (auto simp: mem_at_def list_eq_iff_nth_eq)
  ultimately have "?nl = of_nat (length nm) \<and> strncmp m name (p + 8) (length nm) = 0 \<longleftrightarrow> ?n = nm" by auto
  then show "initramfs_scan (Suc k) m name (of_nat (length nm)) p =
    (if ?n = nm then Some \<lparr>ename = p + 8, edata = d, esize = ?dl\<rparr>
     else initramfs_scan k m name (of_nat (length nm)) (p + length (mkramfs_file f)))"
    by (simp add: g unm len d_def Let_def)
  show "mem_at m (p + 8) ?n" "mem_at m d ?d" by (rule n, rule dm)
qed

lemma initramfs_scan_archive:
  assumes "mem_at m p (concat (map mkramfs_file fs))" "\<forall>f\<in>set fs. fits f" "str_at m name nm" "length nm < 2 ^ 32"
  shows "case List.find (\<lambda>f. archive_name f = nm) fs of
      None \<Rightarrow> initramfs_scan (length fs) m name (of_nat (length nm)) p = None
    | Some f \<Rightarrow> \<exists>e. initramfs_scan (length fs) m name (of_nat (length nm)) p = Some e \<and>
        mem_at m (ename e) nm \<and> mem_at m (edata e) (snd f) \<and> unat (esize e) = length (snd f)"
  using assms(1,2)
proof (induction fs arbitrary: p)
  case (Cons f fs)
  have f: "mem_at m p (mkramfs_file f)" "fits f" and rest: "mem_at m (p + length (mkramfs_file f)) (concat (map mkramfs_file fs))"
    using Cons.prems by auto
  note st = initramfs_scan_step [OF f assms(3,4)]
  show ?case
  proof (cases "archive_name f = nm")
    case True
    then show ?thesis using st f(2) by (simp add: fits_def unat_of_nat_small)
  next
    case False
    then show ?thesis using Cons.IH [OF rest] Cons.prems(2) st(1) [of "length fs"]
      by (cases "List.find (\<lambda>f. archive_name f = nm) fs") (simp_all del: initramfs_scan.simps)
  qed
qed simp

text \<open>Property C16. Whatever files \<^verbatim>\<open>mkramfs\<close> packs, \<^verbatim>\<open>initramfs_find\<close> finds in the archive loaded into memory: for every
  name it returns the first file stored under that name, with exactly the bytes that were packed, and it
  returns -1 if there is no such file. Files are stored under their base name without extension.\<close>

theorem initramfs_roundtrip:
  assumes "initramfs_data s \<noteq> 0" "initramfs_size s \<noteq> 0"
    "mem_at m (unat (initramfs_data s)) (mkramfs fs)" "\<forall>f\<in>set fs. fits f" "length fs < 2 ^ 32"
    "str_at m name nm" "length nm < 2 ^ 32"
  shows "\<exists>r e. initramfs_find m s name e0 = Some (r, e) \<and>
    (case List.find (\<lambda>f. archive_name f = nm) fs of
       None \<Rightarrow> r = -1 \<and> e = e0
     | Some f \<Rightarrow> r = 0 \<and> mem_at m (ename e) nm \<and> mem_at m (edata e) (snd f) \<and> unat (esize e) = length (snd f))"
proof -
  let ?h = "unat (initramfs_data s)"
  have a: "mem_at m ?h (le32 INITRAMFS_MAGIC)" "mem_at m (?h + 4) (le32 (of_nat (length fs)))"
    "mem_at m (?h + 8) (concat (map mkramfs_file fs))"
    using assms(3) by (auto simp: mkramfs_def add.assoc)
  have g: "get32 m ?h = INITRAMFS_MAGIC" "unat (get32 m (?h + 4)) = length fs"
    using get32_le32 [OF a(1)] get32_le32 [OF a(2)] assms(5) by (simp_all add: unat_of_nat_small)
  have "strlen m name = Some (length nm)" using strlen_loop_str [of m name 0 nm] assms(6) by (simp add: strlen_def)
  then have "initramfs_find m s name e0 =
      Some (case initramfs_scan (length fs) m name (of_nat (length nm)) (?h + 8) of None \<Rightarrow> (-1, e0) | Some e \<Rightarrow> (0, e))"
    using assms(1,2) g by (simp add: initramfs_find_def Let_def)
  then show ?thesis
    using initramfs_scan_archive [OF a(3) assms(4,6,7)] by (auto split: option.splits)
qed

definition demo_files :: "(u8 list \<times> u8 list) list" where
  "demo_files = [([97, 47, 98, 46, 111], [1, 2, 3])]"

definition demo_ram :: bytes where
  "demo_ram = (\<lambda>i. if i < 8 then [0, 98, 0, 0, 0, 0, 0, 0] ! i else (mkramfs demo_files @ replicate 8 0) ! (i - 8))"

theorem initramfs_roundtrip_witness:
  "\<exists>e. initramfs_find demo_ram \<lparr>initramfs_data = 8, initramfs_size = 24\<rparr> 1 \<lparr>ename = 0, edata = 0, esize = 0\<rparr> = Some (0, e) \<and>
    mem_at demo_ram (edata e) [1, 2, 3] \<and> unat (esize e) = 3"
proof -
  have "mem_at demo_ram 8 (mkramfs demo_files)" unfolding mem_at_def by (simp add: demo_ram_def nth_append)
  moreover have "str_at demo_ram 1 [98]" by (simp add: demo_ram_def)
  moreover have "fits ([97, 47, 98, 46, 111], [1, 2, 3])"
    by (simp add: fits_def archive_name_def stem_def base_name_def)
  moreover have "archive_name ([97, 47, 98, 46, 111], [1, 2, 3]) = [98]"
    by (simp add: archive_name_def stem_def base_name_def)
  ultimately show ?thesis
    using initramfs_roundtrip [of "\<lparr>initramfs_data = 8, initramfs_size = 24\<rparr>" demo_ram demo_files 1 "[98]" "\<lparr>ename = 0, edata = 0, esize = 0\<rparr>"]
    by (auto simp: demo_files_def numeral_3_eq_3)
qed

subsection \<open>The device tree is understood\<close>

datatype fdt_item = BeginNode "u8 list" | EndNode | Property u32 "u8 list" | Nop

definition be32 :: "u32 \<Rightarrow> u8 list" where
  "be32 v = [ucast (drop_bit 24 v), ucast (drop_bit 16 v), ucast (drop_bit 8 v), ucast v]"

text \<open>The structure block of a flattened device tree (a property names an offset into the strings block).\<close>

fun fdt_bytes :: "fdt_item \<Rightarrow> u8 list" where
  "fdt_bytes (BeginNode name) = be32 FDT_BEGIN_NODE @ name @ [0] @ write_padding (of_nat (length name) + 1)"
| "fdt_bytes EndNode = be32 FDT_END_NODE"
| "fdt_bytes (Property off data) = be32 FDT_PROP @ be32 (of_nat (length data)) @ be32 off @ data @ write_padding (of_nat (length data))"
| "fdt_bytes Nop = be32 FDT_NOP"

text \<open>The properties of the nodes called "chosen", in order; the end of any node ends the search.\<close>

fun chosen_props :: "(u32 \<Rightarrow> u8 list) \<Rightarrow> bool \<Rightarrow> fdt_item list \<Rightarrow> (u8 list \<times> u8 list) list" where
  "chosen_props names c [] = []"
| "chosen_props names c (BeginNode name # its) = chosen_props names (name = str_chosen \<or> c) its"
| "chosen_props names c (EndNode # its) = chosen_props names False its"
| "chosen_props names c (Property off data # its) = (if c then [(names off, data)] else []) @ chosen_props names c its"
| "chosen_props names c (Nop # its) = chosen_props names c its"

definition be_value :: "u8 list \<Rightarrow> u64" where
  "be_value bs = foldl (\<lambda>v b. push_bit 8 v OR ucast b) 0 bs"

text \<open>The last property with the name counts.\<close>

definition last_prop :: "u8 list \<Rightarrow> (u8 list \<times> u8 list) list \<Rightarrow> u8 list option" where
  "last_prop name ps = map_of (rev ps) name"

fun item_ok :: "(u32 \<Rightarrow> u8 list) \<Rightarrow> fdt_item \<Rightarrow> bool" where
  "item_ok names (BeginNode name) \<longleftrightarrow> 0 \<notin> set name \<and> length name < 2 ^ 32 - 4"
| "item_ok names (Property off data) \<longleftrightarrow> length data < 2 ^ 32 - 3 \<and>
     (names off \<in> {str_initrd_start, str_initrd_end} \<longrightarrow> length data = 4 \<or> length data = 8)"
| "item_ok names _ \<longleftrightarrow> True"

lemma length_be32 [simp]: "length (be32 v) = 4"
  by (simp add: be32_def)

lemma octet_masks: "(0xff::u32) = mask 8" "(0xff00::u32) = push_bit 8 (mask 8)"
  "(0xff0000::u32) = push_bit 16 (mask 8)" "(0xff000000::u32) = push_bit 24 (mask 8)"
  by (simp_all add: mask_eq_exp_minus_1 push_bit_eq_mult)

lemma bit_octet_False [simp]: "\<not> bit (w :: u8) (8 + k)" "\<not> bit (w :: u8) (16 + k)" "\<not> bit (w :: u8) (24 + k)"
  using bit_imp_le_length [of w "8 + k"] bit_imp_le_length [of w "16 + k"] bit_imp_le_length [of w "24 + k"] by auto

lemma be32_to_cpu_octets:
  "be32_to_cpu (get32 m p) =
     push_bit 24 (ucast (m p)) OR push_bit 16 (ucast (m (p + 1))) OR push_bit 8 (ucast (m (p + 2))) OR ucast (m (p + 3))"
  unfolding be32_to_cpu_def get32_def octet_masks
proof (rule bit_word_eqI, goal_cases)
  case (1 n)
  then have "n < 32" by simp
  then show ?case by (cases rule: octets) (simp_all add: bit_simps)
qed

lemma be32_mem: "mem_at m p (be32 v) \<Longrightarrow> be32_to_cpu (get32 m p) = v"
  unfolding be32_to_cpu_octets
proof (rule bit_word_eqI, goal_cases)
  case (1 n)
  then have "n < 32" by simp
  moreover have "m p = ucast (drop_bit 24 v)" "m (p + 1) = ucast (drop_bit 16 v)" "m (p + 2) = ucast (drop_bit 8 v)"
    "m (p + 3) = ucast v" using 1(1) by (simp_all add: be32_def numeral_2_eq_2 numeral_3_eq_3)
  ultimately show ?case by (cases rule: octets) (simp_all add: bit_simps)
qed

lemma be_value_4: "be_value [a, b, c, d] = push_bit 24 (ucast a) OR push_bit 16 (ucast b) OR push_bit 8 (ucast c) OR ucast d"
  by (simp add: be_value_def push_bit_or or.assoc)

lemma be_value_8:
  "be_value [a, b, c, d, e, f, g, h] = push_bit 32 (be_value [a, b, c, d]) OR be_value [e, f, g, h]"
  by (simp add: be_value_def push_bit_or or.assoc)

lemma ucast_be32: "(ucast (be32_to_cpu (get32 m p)) :: u64) = be_value [m p, m (p + 1), m (p + 2), m (p + 3)]"
  unfolding be32_to_cpu_octets be_value_4
proof (rule bit_word_eqI, goal_cases)
  case (1 n)
  show ?case
  proof (cases "n < 32")
    case True
    then show ?thesis by (cases rule: octets) (simp_all add: bit_simps)
  next
    case False
    then obtain k where "n = 32 + k" by (metis le_Suc_ex not_less)
    moreover have "\<not> bit (w :: u8) (32 + j)" for w j using bit_imp_le_length [of w "32 + j"] by auto
    ultimately show ?thesis
      using bit_octet_False [of _ "k"] bit_octet_False [of _ "8 + k"] bit_octet_False [of _ "16 + k"]
      by (auto simp: bit_simps)
  qed
qed

lemma initrd_value_mem:
  assumes "mem_at m p data" "length data = 4 \<or> length data = 8"
  shows "initrd_value m (of_nat (length data)) p = be_value data"
proof -
  have m: "m (p + i) = data ! i" if "i < length data" for i using assms(1) that by (simp add: mem_at_def)
  show ?thesis
  proof (cases "length data = 4")
    case True
    then have "data = [m p, m (p + 1), m (p + 2), m (p + 3)]"
      using m [of 0] m [of 1] m [of 2] m [of 3] by (auto simp: numeral_eq_Suc length_Suc_conv)
    then show ?thesis using True by (simp add: initrd_value_def ucast_be32 del: One_nat_def)
  next
    case False
    then have 8: "length data = 8" using assms(2) by simp
    then have "data = [m p, m (p + 1), m (p + 2), m (p + 3), m (p + 4), m (p + 4 + 1), m (p + 4 + 2), m (p + 4 + 3)]"
      using m [of 0] m [of 1] m [of 2] m [of 3] m [of 4] m [of 5] m [of 6] m [of 7]
      by (auto simp: numeral_eq_Suc length_Suc_conv)
    then show ?thesis using 8 be_value_8 ucast_be32 [of m p] ucast_be32 [of m "p + 4"]
      by (simp only: initrd_value_def) simp
  qed
qed

text \<open>The strings the code compares with are in memory.\<close>

definition literals_ok :: "(u8 list \<Rightarrow> nat) \<Rightarrow> bytes \<Rightarrow> bool" where
  "literals_ok lit m \<longleftrightarrow>
     (\<forall>x\<in>{str_chosen, str_bootargs, str_initrd_start, str_initrd_end}. str_at m (lit x) x)"

lemma strcmp_lit:
  assumes "literals_ok lit m" "x \<in> {str_chosen, str_bootargs, str_initrd_start, str_initrd_end}" "str_at m p xs"
  obtains r where "strcmp m p (lit x) = Some r" "r = 0 \<longleftrightarrow> xs = x"
proof -
  have "str_at m (lit x) x" using assms(1,2) by (auto simp: literals_ok_def)
  then show thesis using strcmp_str [OF assms(3)] that by blast
qed

text \<open>The effect of one property of a "chosen" node.\<close>

definition seen :: "bytes \<Rightarrow> u8 list \<Rightarrow> u8 list \<Rightarrow> nat \<Rightarrow> dtb_st \<Rightarrow> dtb_st" where
  "seen m name data p s =
     (if name = str_bootargs then s\<lparr>bootargs := p\<rparr>
      else if name = str_initrd_start then s\<lparr>initrd_start := be_value data\<rparr>
      else if name = str_initrd_end then s\<lparr>initrd_end := be_value data\<rparr> else s)"

lemma literals_distinct:
  "str_bootargs \<noteq> str_initrd_start" "str_bootargs \<noteq> str_initrd_end" "str_initrd_start \<noteq> str_initrd_end"
  by (simp_all add: str_bootargs_def str_initrd_start_def str_initrd_end_def)

lemma dtb_prop_seen:
  assumes "literals_ok lit m" "str_at m q name" "mem_at m p data"
    "name \<in> {str_initrd_start, str_initrd_end} \<longrightarrow> length data = 4 \<or> length data = 8"
  shows "dtb_prop lit m c q (of_nat (length data)) p s = Some (if c then seen m name data p s else s)"
proof -
  obtain r1 r2 r3 where r: "strcmp m q (lit str_bootargs) = Some r1" "r1 = 0 \<longleftrightarrow> name = str_bootargs"
    "strcmp m q (lit str_initrd_start) = Some r2" "r2 = 0 \<longleftrightarrow> name = str_initrd_start"
    "strcmp m q (lit str_initrd_end) = Some r3" "r3 = 0 \<longleftrightarrow> name = str_initrd_end"
    using strcmp_lit [OF assms(1) _ assms(2)] by (metis insert_iff)
  then show ?thesis
    using initrd_value_mem [OF assms(3)] assms(4) literals_distinct by (auto simp: dtb_prop_def seen_def Let_def)
qed

lemma str_at_mem: "mem_at m p (xs @ [0]) \<Longrightarrow> 0 \<notin> set xs \<Longrightarrow> str_at m p xs"
  by (induction xs arbitrary: p) auto

definition told :: "bytes \<Rightarrow> (u8 list \<times> u8 list) list \<Rightarrow> dtb_st \<Rightarrow> dtb_st \<Rightarrow> bool" where
  "told m ps s s' \<longleftrightarrow>
     (case last_prop str_bootargs ps of None \<Rightarrow> bootargs s' = bootargs s | Some d \<Rightarrow> mem_at m (bootargs s') d) \<and>
     initrd_start s' = (case last_prop str_initrd_start ps of None \<Rightarrow> initrd_start s | Some d \<Rightarrow> be_value d) \<and>
     initrd_end s' = (case last_prop str_initrd_end ps of None \<Rightarrow> initrd_end s | Some d \<Rightarrow> be_value d)"

lemma last_prop_Cons:
  "last_prop nm ((n, d) # ps) = (case last_prop nm ps of None \<Rightarrow> if n = nm then Some d else None | Some x \<Rightarrow> Some x)"
  by (auto simp: last_prop_def map_add_def split: option.splits)

lemma told_Cons: "mem_at m p d \<Longrightarrow> told m ps (seen m n d p s) s' \<Longrightarrow> told m ((n, d) # ps) s s'"
  using literals_distinct by (auto simp: told_def seen_def last_prop_Cons split: option.splits if_splits)

definition named :: "bytes \<Rightarrow> nat \<Rightarrow> (u32 \<Rightarrow> u8 list) \<Rightarrow> fdt_item \<Rightarrow> bool" where
  "named m strings names it \<longleftrightarrow>
     item_ok names it \<and> (\<forall>off data. it = Property off data \<longrightarrow> str_at m (strings + unat off) (names off))"

lemma dtb_loop_end: "mem_at m p (be32 FDT_END) \<Longrightarrow> dtb_loop lit m strings p c s = Some s"
  using be32_mem [of m p FDT_END] by (subst dtb_loop.simps) (simp add: fdt_defs)

lemma dtb_loop_begin:
  assumes "literals_ok lit m" "mem_at m p (fdt_bytes (BeginNode name))" "item_ok names (BeginNode name)"
  shows "dtb_loop lit m strings p c s = dtb_loop lit m strings (p + length (fdt_bytes (BeginNode name))) (name = str_chosen \<or> c) s"
proof -
  have tok: "be32_to_cpu (get32 m p) = FDT_BEGIN_NODE" using assms(2) by (intro be32_mem) simp
  have str: "str_at m (p + 4) name" using assms(2,3) by (intro str_at_mem) simp_all
  obtain r where r: "strcmp m (p + 4) (lit str_chosen) = Some r" "r = 0 \<longleftrightarrow> name = str_chosen"
    using strcmp_lit [OF assms(1) _ str] by blast
  have len: "strlen m (p + 4) = Some (length name)" using strlen_loop_str [of m "p + 4" 0 name] str by (simp add: strlen_def)
  have "unat (of_nat (length name) + 1 :: u32) = length name + 1"
    using assms(3) by (subst unat_plus_if_size) (auto simp: unat_of_nat_small)
  then have "length name + 1 + length (write_padding (of_nat (length name) + 1)) = unat (align4 (of_nat (length name) + 1))"
    using length_padded [of "of_nat (length name) + 1"] assms(3) by simp
  then have "p + length (fdt_bytes (BeginNode name)) = p + 4 + unat (align4 (of_nat (length name) + 1))" by simp
  then show ?thesis
    by (subst dtb_loop.simps) (simp add: tok len r Let_def add.assoc del: fdt_bytes.simps)
qed

lemma dtb_loop_property:
  assumes "literals_ok lit m" "mem_at m p (fdt_bytes (Property off data))" "named m strings names (Property off data)"
  shows "dtb_loop lit m strings p c s =
      dtb_loop lit m strings (p + length (fdt_bytes (Property off data))) c (if c then seen m (names off) data (p + 12) s else s)"
    "mem_at m (p + 12) data"
proof -
  have mm: "mem_at m p (be32 FDT_PROP)" "mem_at m (p + 4) (be32 (of_nat (length data)))" "mem_at m (p + 8) (be32 off)"
    "mem_at m (p + 12) data" using assms(2) by (simp_all add: add.assoc)
  note tok = be32_mem [OF mm(1)] be32_mem [OF mm(2)] be32_mem [OF mm(3)]
  have nm: "str_at m (strings + unat off) (names off)" "length data < 2 ^ 32 - 3"
    "names off \<in> {str_initrd_start, str_initrd_end} \<longrightarrow> length data = 4 \<or> length data = 8"
    using assms(3) by (auto simp: named_def)
  note pr = dtb_prop_seen [OF assms(1) nm(1) mm(4) nm(3), of c s]
  have "length data + length (write_padding (of_nat (length data))) = unat (align4 (of_nat (length data)))"
    using length_padded [of "of_nat (length data)"] nm(2) by (simp add: unat_of_nat_small)
  then have "p + length (fdt_bytes (Property off data)) = p + 12 + unat (align4 (of_nat (length data)))" by simp
  then show "dtb_loop lit m strings p c s =
      dtb_loop lit m strings (p + length (fdt_bytes (Property off data))) c (if c then seen m (names off) data (p + 12) s else s)"
    using pr by (subst dtb_loop.simps) (simp add: tok Let_def add.assoc fdt_defs del: fdt_bytes.simps)
  show "mem_at m (p + 12) data" by (rule mm(4))
qed

lemma dtb_loop_items:
  assumes "literals_ok lit m" "\<forall>it\<in>set its. named m strings names it" "mem_at m p (concat (map fdt_bytes its) @ be32 FDT_END)"
  shows "\<exists>s'. dtb_loop lit m strings p c s = Some s' \<and> told m (chosen_props names c its) s s'"
  using assms(2,3)
proof (induction its arbitrary: p c s)
  case Nil
  then show ?case using dtb_loop_end [of m p lit strings c s] by (simp add: told_def last_prop_def)
next
  case (Cons it its)
  have it: "named m strings names it" "mem_at m p (fdt_bytes it)"
    and rest: "mem_at m (p + length (fdt_bytes it)) (concat (map fdt_bytes its) @ be32 FDT_END)"
    using Cons.prems by simp_all
  note IH = Cons.IH [OF _ rest]
  show ?case
  proof (cases it)
    case (BeginNode name)
    then show ?thesis
      using dtb_loop_begin [OF assms(1), of p name names strings c s] it Cons.prems(1) IH
      by (simp add: named_def del: fdt_bytes.simps)
  next
    case EndNode
    then have "dtb_loop lit m strings p c s = dtb_loop lit m strings (p + 4) False s"
      using be32_mem [of m p FDT_END_NODE] it(2) by (subst dtb_loop.simps) (simp add: fdt_defs)
    then show ?thesis using EndNode Cons.prems(1) IH by simp
  next
    case (Property off data)
    note pr = dtb_loop_property [OF assms(1) it(2) [unfolded Property] it(1) [unfolded Property]]
    show ?thesis
    proof (cases c)
      case True
      obtain s' where "dtb_loop lit m strings (p + length (fdt_bytes it)) True (seen m (names off) data (p + 12) s) = Some s'"
        "told m (chosen_props names True its) (seen m (names off) data (p + 12) s) s'"
        using IH [of True "seen m (names off) data (p + 12) s"] Cons.prems(1) by (meson list.set_intros(2))
      then show ?thesis using True Property pr it told_Cons by (auto simp del: fdt_bytes.simps)
    next
      case False
      then show ?thesis using Property pr(1) it IH Cons.prems(1) by (simp del: fdt_bytes.simps)
    qed
  next
    case Nop
    then have "dtb_loop lit m strings p c s = dtb_loop lit m strings (p + 4) c s"
      using be32_mem [of m p FDT_NOP] it(2) by (subst dtb_loop.simps) (simp add: fdt_defs)
    then show ?thesis using Nop Cons.prems(1) IH by simp
  qed
qed


text \<open>A small tree: the literals, a header at 64, the name of the property at 96, and the structure block at 128.\<close>

definition demo_tree :: "u8 list" where
  "demo_tree = [0] @ (str_chosen @ [0]) @ (str_bootargs @ [0]) @ (str_initrd_start @ [0]) @ (str_initrd_end @ [0]) @ replicate 10 0 @
     be32 FDT_MAGIC @ be32 0 @ be32 64 @ be32 32 @ replicate 16 0 @ (str_initrd_start @ [0]) @ replicate 13 0 @
     fdt_bytes (BeginNode str_chosen) @ fdt_bytes (Property 0 [0, 0, 1, 2]) @ fdt_bytes EndNode @ be32 FDT_END"

definition demo_dtb :: bytes where
  "demo_dtb = (\<lambda>i. if i < length demo_tree then demo_tree ! i else 0)"

definition demo_lit :: "u8 list \<Rightarrow> nat" where
  "demo_lit x = (if x = str_chosen then 1 else if x = str_bootargs then 8 else if x = str_initrd_start then 17 else 36)"

lemma literal_lengths: "length str_chosen = 6" "length str_bootargs = 8" "length str_initrd_start = 18" "length str_initrd_end = 16"
  by (simp_all add: str_chosen_def str_bootargs_def str_initrd_start_def str_initrd_end_def)

lemma literals_nonzero: "0 \<notin> set str_chosen" "0 \<notin> set str_bootargs" "0 \<notin> set str_initrd_start" "0 \<notin> set str_initrd_end"
  by (simp_all add: str_chosen_def str_bootargs_def str_initrd_start_def str_initrd_end_def)

lemma demo_dtb_mem:
  "mem_at demo_dtb 0 demo_tree"
  by (simp add: mem_at_def demo_dtb_def)

lemma demo_dtb_parts:
  "mem_at demo_dtb 1 (str_chosen @ [0])" "mem_at demo_dtb 8 (str_bootargs @ [0])" "mem_at demo_dtb 17 (str_initrd_start @ [0])"
  "mem_at demo_dtb 36 (str_initrd_end @ [0])" "mem_at demo_dtb 63 (be32 FDT_MAGIC)" "mem_at demo_dtb 71 (be32 64)"
  "mem_at demo_dtb 75 (be32 32)" "mem_at demo_dtb 95 (str_initrd_start @ [0])"
  "mem_at demo_dtb 127 (concat (map fdt_bytes [BeginNode str_chosen, Property 0 [0, 0, 1, 2], EndNode]) @ be32 FDT_END)"
  using demo_dtb_mem unfolding demo_tree_def by (simp_all add: literal_lengths write_padding_def align4_def)


end
