(* ===== verification/Syscall_Proc.thy ===== *)
theory Syscall_Proc
  imports File Fs_Dir Elf Bootinfo
begin

text \<open>
  System calls on processes and memory, \<^verbatim>\<open>kernel/syscall.c\<close>. User memory is reached through the page table of the current process,
  as the hardware does it; an access that faults stops the kernel (result \<open>None\<close>). A handler returns the value of its \<^verbatim>\<open>long\<close>
  result; those that may sleep also return what is left of the schedule. Registers in a trap frame are words of the kernel stack.
\<close>

subsection \<open>User memory\<close>

definition utrans :: "u64 \<Rightarrow> bool \<Rightarrow> pmm \<Rightarrow> u64 \<Rightarrow> u64 option" where
  "utrans pt wr s va =
     do { (pte, s) \<leftarrow> walk pt va False s;
          if pte = 0 \<or> mem s pte AND PTE_VALID = 0 \<or> wr \<and> mem s pte AND PTE_AP_RO_BIT \<noteq> 0 then None
          else Some (PA_TO_VA ((mem s pte AND PTE_ADDR_MASK) + (va AND (PAGE_SIZE - 1)))) }"

fun ufetch :: "u64 \<Rightarrow> u64 \<Rightarrow> nat \<Rightarrow> pmm \<Rightarrow> u8 list option" where
  "ufetch pt va 0 s = Some []"
| "ufetch pt va (Suc n) s =
     do { a \<leftarrow> utrans pt False s va; cs \<leftarrow> ufetch pt (va + 1) n s; Some (load8 (mem s) a # cs) }"

fun ustore :: "u64 \<Rightarrow> u64 \<Rightarrow> u8 list \<Rightarrow> pmm \<Rightarrow> pmm option" where
  "ustore pt va [] s = Some s"
| "ustore pt va (c # cs) s =
     do { a \<leftarrow> utrans pt True s va; ustore pt (va + 1) cs (s\<lparr>mem := store8 (mem s) a c\<rparr>) }"

text \<open>The current process's memory.\<close>

definition copyin :: "u64 \<Rightarrow> nat \<Rightarrow> 'a kst_scheme \<Rightarrow> bytes option" where
  "copyin va n s = do { p \<leftarrow> cur s; cs \<leftarrow> ufetch (pagetable p) va n (kpmm s); Some (\<lambda>i. if i < n then cs ! i else 0) }"

definition copyout :: "u64 \<Rightarrow> nat \<Rightarrow> bytes \<Rightarrow> 'a kst_scheme \<Rightarrow> 'a kst_scheme option" where
  "copyout va n b s = do { p \<leftarrow> cur s; m \<leftarrow> ustore (pagetable p) va (map b [0..<n]) (kpmm s); Some (s\<lparr>kpmm := m\<rparr>) }"

definition valid_buf :: "u64 \<Rightarrow> u64 \<Rightarrow> bool \<Rightarrow> 'a kst_scheme \<Rightarrow> bool option" where
  "valid_buf va len wr s = do { p \<leftarrow> cur s; r \<leftarrow> vmm_validate (pagetable p) va len wr (kpmm s); Some (\<not> r < 0) }"

text \<open>\<^verbatim>\<open>vmm_copyinstr\<close> into a kernel buffer: the bytes before the terminator, or \<open>None\<close> for -1.\<close>

definition copyinstr :: "u64 \<Rightarrow> u64 \<Rightarrow> 'a kst_scheme \<Rightarrow> u8 list option option" where
  "copyinstr va maxlen s =
     do { p \<leftarrow> cur s;
          (r, b) \<leftarrow> vmm_copyinstr (pagetable p) (\<lambda>_. 0) va maxlen (kpmm s);
          Some (if r < 0 then None else Some (map b [0..<nat r])) }"

definition le_bytes :: "nat \<Rightarrow> u64 \<Rightarrow> u8 list" where
  "le_bytes n v = map (\<lambda>i. ucast (drop_bit (8 * i) v)) [0..<n]"

definition put_user :: "u64 \<Rightarrow> u8 list \<Rightarrow> 'a kst_scheme \<Rightarrow> 'a kst_scheme option" where
  "put_user va cs s = do { p \<leftarrow> cur s; m \<leftarrow> ustore (pagetable p) va cs (kpmm s); Some (s\<lparr>kpmm := m\<rparr>) }"

subsection \<open>Processes\<close>

definition sys_getpid :: "'a kst_scheme \<Rightarrow> int option" where
  "sys_getpid s = map_option pid (cur s)"

definition sys_getppid :: "'a kst_scheme \<Rightarrow> int option" where
  "sys_getppid s = do { p \<leftarrow> cur s; Some (case parent p of None \<Rightarrow> 0 | Some q \<Rightarrow> pid (procs s q)) }"

definition sys_exit :: "int \<Rightarrow> 'a file_schedule \<Rightarrow> 'a file_st_scheme \<Rightarrow> (int \<times> 'a file_st_scheme \<times> 'a file_schedule) option" where
  "sys_exit status es s = do { (s, es) \<leftarrow> proc_cleanup status es s; Some (0, s, es) }"

definition sys_sleep :: "u64 \<Rightarrow> 'a schedule \<Rightarrow> 'a kst_scheme \<Rightarrow> (int \<times> 'a kst_scheme \<times> 'a schedule) option" where
  "sys_sleep ms es s =
     (let n = ms div 10; n = (if n = 0 \<and> ms > 0 then 1 else n) in
      do { (r, s, es) \<leftarrow> proc_sleep n es s; Some (if r < 0 then -EINTR else 0, s, es) })"

definition sys_kill :: "int \<Rightarrow> int \<Rightarrow> 'a kst_scheme \<Rightarrow> int \<times> 'a kst_scheme" where
  "sys_kill target sig s =
     (if target > 0 then proc_signal target sig s
      else if target < -1 then proc_signal_pgrp (-target) sig s
      else (-EINVAL, s))"

text \<open>The addresses of \<^verbatim>\<open>regs[i]\<close>, \<^verbatim>\<open>sp_el0\<close>, \<^verbatim>\<open>elr\<close> and \<^verbatim>\<open>spsr\<close> in a trap frame are consecutive words 0 to 33.\<close>

definition tf_word :: "u64 \<Rightarrow> nat \<Rightarrow> u64" where
  "tf_word frame i = frame + 8 * of_nat i"

definition set_mem :: "u64 \<Rightarrow> u64 \<Rightarrow> 'a kst_scheme \<Rightarrow> 'a kst_scheme" where
  "set_mem a v s = s\<lparr>kpmm := (kpmm s)\<lparr>mem := (mem (kpmm s))(a := v)\<rparr>\<rparr>"

definition copy_frame :: "u64 \<Rightarrow> u64 \<Rightarrow> 'a kst_scheme \<Rightarrow> 'a kst_scheme" where
  "copy_frame src dst s = fold (\<lambda>i s. set_mem (tf_word dst i) (mem (kpmm s) (tf_word src i)) s) [0..<34] s"

definition dup_fd :: "nat \<Rightarrow> nat \<Rightarrow> nat \<Rightarrow> 'a file_st_scheme \<Rightarrow> 'a file_st_scheme" where
  "dup_fd me child fd s =
     (case ofile (procs s me) fd of
        None \<Rightarrow> s
      | Some f \<Rightarrow> (let (g, s) = filedup f s in upd_proc child (\<lambda>p. p\<lparr>ofile := (ofile p)(fd := g)\<rparr>) s))"

definition sys_fork :: "u64 \<Rightarrow> 'a file_st_scheme \<Rightarrow> (int \<times> 'a file_st_scheme) option" where
  "sys_fork usertrap_first s =
     do {
       me \<leftarrow> current s;
       (child_pt, m) \<leftarrow> vmm_copy (pagetable (procs s me)) (kpmm s);
       let s = s\<lparr>kpmm := m\<rparr>;
       if child_pt = 0 then Some (-ENOMEM, s)
       else do {
         (c, s) \<leftarrow> proc_alloc s;
         case c of
           None \<Rightarrow> do { m \<leftarrow> vmm_free child_pt (kpmm s); Some (-ENOMEM, s\<lparr>kpmm := m\<rparr>) }
         | Some child \<Rightarrow>
             do {
               let s = upd_proc child (\<lambda>p. p\<lparr>pagetable := child_pt, parent := Some me, pgid := pgid (procs s me)\<rparr>) s;
               let frame = (kstack (procs s child) + KSTACK_SIZE - trap_frame_size) AND NOT 0xF;
               let s = upd_proc child (\<lambda>p. p\<lparr>tf := frame\<rparr>) s;
               let s = copy_frame (tf (procs s me)) frame s;
               let s = set_mem (tf_word frame 0) 0 s;
               let s = upd_proc child (\<lambda>p. p\<lparr>ctx := (ctx p)\<lparr>x30 := usertrap_first, ctx_sp := frame, x29 := 0\<rparr>\<rparr>) s;
               let s = (case cwd (procs s me) of None \<Rightarrow> s
                        | Some d \<Rightarrow> (let (d, s) = fs_idup d s in upd_proc child (\<lambda>p. p\<lparr>cwd := Some d\<rparr>) s));
               let s = fold (dup_fd me child) [0..<NOFILE] s;
               let s = upd_proc child (\<lambda>p. p\<lparr>pstate := RUNNABLE\<rparr>) s;
               Some (pid (procs s child), s) } } }"

text \<open>C \<^verbatim>\<open>int\<close> shifts, at 32 bits.\<close>

definition wait_word :: "int \<Rightarrow> u32 \<Rightarrow> int" where
  "wait_word child low = sint (push_bit 16 (word_of_int child) OR low)"

text \<open>The value of a process that is gone: by exit, or, for a negative status, by the signal it negates.\<close>

definition wait_status :: "int \<Rightarrow> int \<Rightarrow> int" where
  "wait_status child_pid exit_code =
     (if exit_code < 0 then wait_word child_pid (word_of_int (-exit_code) AND 0x7f)
      else wait_word child_pid (push_bit 8 (word_of_int exit_code)))"

definition stop_status :: "int \<Rightarrow> int \<Rightarrow> int" where
  "stop_status child_pid sig = wait_word child_pid (push_bit 8 (word_of_int sig) OR 0x7f)"

definition encode_wait_status :: "nat \<Rightarrow> 'a kst_scheme \<Rightarrow> (int \<times> 'a kst_scheme) option" where
  "encode_wait_status i s =
     do {
       let exit_code = exit_status (procs s i);
       let child_pid = pid (procs s i);
       s \<leftarrow> (if pagetable (procs s i) \<noteq> 0 then
               do { m \<leftarrow> vmm_free (pagetable (procs s i)) (kpmm s);
                    Some (upd_proc i (\<lambda>p. p\<lparr>pagetable := 0\<rparr>) (s\<lparr>kpmm := m\<rparr>)) }
             else Some s);
       s \<leftarrow> (if kstack (procs s i) \<noteq> 0 then
               do { m \<leftarrow> pmm_free_contiguous (VA_TO_PA (kstack (procs s i))) (int KSTACK_PAGES) (kpmm s);
                    Some (upd_proc i (\<lambda>p. p\<lparr>kstack := 0\<rparr>) (s\<lparr>kpmm := m\<rparr>)) }
             else Some s);
       let s = upd_proc i (\<lambda>p. p\<lparr>pstate := UNUSED\<rparr>) s;
       Some (wait_status child_pid exit_code, s) }"

definition is_child :: "nat \<Rightarrow> proc \<Rightarrow> bool" where
  "is_child me p \<longleftrightarrow> parent p = Some me \<and> pstate p \<noteq> UNUSED"

partial_function (option) sys_wait :: "'a schedule \<Rightarrow> 'a kst_scheme \<Rightarrow> (int \<times> 'a kst_scheme \<times> 'a schedule) option" where
  "sys_wait es s =
     do {
       me \<leftarrow> current s;
       case find_proc (\<lambda>p. is_child me p \<and> pstate p = ZOMBIE) s of
         Some i \<Rightarrow> do { (r, s) \<leftarrow> encode_wait_status i s; Some (r, s, es) }
       | None \<Rightarrow>
           if find_proc (is_child me) s = None then Some (-ESRCH, s, es)
           else do {
             (r, s, es) \<leftarrow> proc_wait (ChProc me) es s;
             if r < 0 then Some (-EINTR, s, es) else sys_wait es s } }"

definition waited :: "nat \<Rightarrow> int \<Rightarrow> proc \<Rightarrow> bool" where
  "waited me target p \<longleftrightarrow> is_child me p \<and> \<not> (target > 0 \<and> pid p \<noteq> target)"

text \<open>The last stopped child the scan saw.\<close>

definition last_stopped :: "nat \<Rightarrow> int \<Rightarrow> 'a kst_scheme \<Rightarrow> nat option" where
  "last_stopped me target s = List.find (\<lambda>i. waited me target (procs s i) \<and> pstate (procs s i) = STOPPED) (rev [0..<NPROC])"

partial_function (option) sys_waitpid :: "int \<Rightarrow> u32 \<Rightarrow> 'a schedule \<Rightarrow> 'a kst_scheme \<Rightarrow> (int \<times> 'a kst_scheme \<times> 'a schedule) option" where
  "sys_waitpid target options es s =
     do {
       me \<leftarrow> current s;
       case find_proc (\<lambda>p. waited me target p \<and> pstate p = ZOMBIE) s of
         Some i \<Rightarrow> do { (r, s) \<leftarrow> encode_wait_status i s; Some (r, s, es) }
       | None \<Rightarrow>
           if find_proc (waited me target) s = None then Some (-ESRCH, s, es)
           else case (if options AND 2 \<noteq> 0 then last_stopped me target s else None) of
             Some i \<Rightarrow>
               (let sig = (if stop_signal (procs s i) \<noteq> 0 then stop_signal (procs s i) else SIGTSTP) in
                Some (stop_status (pid (procs s i)) sig, s, es))
           | None \<Rightarrow>
               if options AND 1 \<noteq> 0 then Some (0, s, es)
               else do {
                 (r, s, es) \<leftarrow> proc_wait (ChProc me) es s;
                 if r < 0 then Some (-EINTR, s, es) else sys_waitpid target options es s } }"

text \<open>A process in the table, as 28 bytes of \<^verbatim>\<open>struct procinfo\<close>; the name has at most 15 bytes, and what follows its
  terminator is not written.\<close>

definition state_num :: "proc_state \<Rightarrow> u64" where
  "state_num st = (case st of UNUSED \<Rightarrow> 0 | EMBRYO \<Rightarrow> 1 | RUNNABLE \<Rightarrow> 2 | RUNNING \<Rightarrow> 3 | SLEEPING \<Rightarrow> 4 | STOPPED \<Rightarrow> 5 | ZOMBIE \<Rightarrow> 6)"

definition name15 :: "bytes \<Rightarrow> u8 list" where
  "name15 nm = takeWhile (\<lambda>c. c \<noteq> 0) (map nm [0..<15]) @ [0]"

definition procinfo_bytes :: "'a kst_scheme \<Rightarrow> proc \<Rightarrow> u8 list" where
  "procinfo_bytes s p =
     le_bytes 4 (word_of_int (pid p)) @
     le_bytes 4 (word_of_int (case parent p of None \<Rightarrow> 0 | Some q \<Rightarrow> pid (procs s q))) @
     le_bytes 4 (state_num (pstate p)) @ name15 (pname p)"

definition sys_getprocs :: "u64 \<Rightarrow> int \<Rightarrow> 'a kst_scheme \<Rightarrow> (int \<times> 'a kst_scheme) option" where
  "sys_getprocs buf n s =
     (if n \<le> 0 then Some (-EINVAL, s)
      else do {
        ok \<leftarrow> valid_buf buf (word_of_int n * 28) True s;
        if \<not> ok then Some (-EFAULT, s)
        else
          let ps = take (nat n) (filter (\<lambda>i. pstate (procs s i) \<noteq> UNUSED) [0..<NPROC]) in
          do { s \<leftarrow> loop_option (\<lambda>(k, i) s. put_user (buf + 28 * of_nat k) (procinfo_bytes s (procs s i)) s) (enumerate 0 ps) s;
               Some (int (length ps), s) } })"

subsection \<open>Memory\<close>

definition page_up :: "u64 \<Rightarrow> u64" where
  "page_up n = (n + PAGE_SIZE - 1) AND NOT (PAGE_SIZE - 1)"

text \<open>Allocate a page and map it in the current process; -1 if either fails.\<close>

definition map_new_page :: "bool \<Rightarrow> u64 \<Rightarrow> bool \<Rightarrow> u64 \<Rightarrow> pmm \<Rightarrow> (int \<times> pmm) option" where
  "map_new_page clear pt wr va m =
     (let (pa, m) = pmm_alloc m in
      if pa = PMM_INVALID then Some (-1, m)
      else
        let m = (if clear then zero_page pa m else m) in
        do { (r, m) \<leftarrow> vmm_map_page pt va pa wr False m;
             if r < 0 then do { m \<leftarrow> pmm_free pa m; Some (-1, m) } else Some (0, m) })"

partial_function (option) sbrk_loop :: "u64 \<Rightarrow> u64 \<Rightarrow> u64 \<Rightarrow> pmm \<Rightarrow> (int \<times> pmm) option" where
  "sbrk_loop pt va new_end m =
     (if va < new_end then
        do { (r, m) \<leftarrow> map_new_page False pt True va m;
             if r < 0 then Some (-1, m) else sbrk_loop pt (va + PAGE_SIZE) new_end m }
      else Some (0, m))"

definition sys_sbrk :: "int \<Rightarrow> 'a kst_scheme \<Rightarrow> (int \<times> 'a kst_scheme) option" where
  "sys_sbrk n s =
     do {
       p \<leftarrow> cur s;
       let old_sz = sz p;
       let new_sz = old_sz + word_of_int n;
       if n < 0 \<and> new_sz > old_sz then Some (-EINVAL, s)
       else do {
         (r, m) \<leftarrow> (if n > 0 then sbrk_loop (pagetable p) (page_up old_sz) (page_up new_sz) (kpmm s) else Some (0, kpmm s));
         let s = s\<lparr>kpmm := m\<rparr>;
         if r < 0 then Some (-ENOMEM, s)
         else do { s \<leftarrow> upd_cur (\<lambda>p. p\<lparr>sz := new_sz\<rparr>) s; Some (sint old_sz, s) } } }"

definition PROT_WRITE :: u32 where "PROT_WRITE = 0x2"
definition MAP_PRIVATE :: u32 where "MAP_PRIVATE = 0x02"
definition MAP_ANONYMOUS :: u32 where "MAP_ANONYMOUS = 0x20"
definition MAP_FIXED :: u32 where "MAP_FIXED = 0x10"

text \<open>Unmap and free the pages from \<open>va\<close> to \<open>va_end\<close>, skipping those that are not mapped.\<close>

partial_function (option) unmap_range :: "u64 \<Rightarrow> u64 \<Rightarrow> u64 \<Rightarrow> pmm \<Rightarrow> pmm option" where
  "unmap_range pt va va_end m =
     (if va < va_end then
        do { (r, pa, m) \<leftarrow> vmm_unmap_page pt va m;
             m \<leftarrow> (case pa of Some pa \<Rightarrow> (if r = 0 then pmm_free pa m else Some m) | None \<Rightarrow> Some m);
             unmap_range pt (va + PAGE_SIZE) va_end m }
      else Some m)"

partial_function (option) mmap_loop :: "u64 \<Rightarrow> bool \<Rightarrow> u64 \<Rightarrow> u64 \<Rightarrow> u64 \<Rightarrow> pmm \<Rightarrow> (int \<times> pmm) option" where
  "mmap_loop pt wr va page_va va_end m =
     (if page_va < va_end then
        do { (r, m) \<leftarrow> map_new_page True pt wr page_va m;
             if r < 0 then do { m \<leftarrow> unmap_range pt va page_va m; Some (-1, m) }
             else mmap_loop pt wr va (page_va + PAGE_SIZE) va_end m }
      else Some (0, m))"

definition sys_mmap :: "u64 \<Rightarrow> u64 \<Rightarrow> u32 \<Rightarrow> u32 \<Rightarrow> 'a kst_scheme \<Rightarrow> (int \<times> 'a kst_scheme) option" where
  "sys_mmap addr len prot flags s =
     (if len = 0 then Some (-EINVAL, s)
      else if flags AND MAP_ANONYMOUS = 0 \<or> flags AND MAP_PRIVATE = 0 then Some (-EINVAL, s)
      else do {
        p \<leftarrow> cur s;
        let len = page_up len;
        if flags AND MAP_FIXED \<noteq> 0 \<and> addr AND (PAGE_SIZE - 1) \<noteq> 0 then Some (-EINVAL, s)
        else
          let va = (if flags AND MAP_FIXED \<noteq> 0 then addr else page_up (sz p)) in
          if va + len > USER_STACK - PAGE_SIZE \<or> va + len < va then Some (-ENOMEM, s)
          else do {
            (r, m) \<leftarrow> mmap_loop (pagetable p) (prot AND PROT_WRITE \<noteq> 0) va va (va + len) (kpmm s);
            let s = s\<lparr>kpmm := m\<rparr>;
            if r < 0 then Some (-ENOMEM, s)
            else do {
              s \<leftarrow> (if va + len > sz p then upd_cur (\<lambda>p. p\<lparr>sz := va + len\<rparr>) s else Some s);
              Some (sint va, s) } } })"

definition sys_munmap :: "u64 \<Rightarrow> u64 \<Rightarrow> 'a kst_scheme \<Rightarrow> (int \<times> 'a kst_scheme) option" where
  "sys_munmap addr len s =
     (if addr AND (PAGE_SIZE - 1) \<noteq> 0 then Some (-EINVAL, s)
      else if len = 0 then Some (-EINVAL, s)
      else do {
        p \<leftarrow> cur s;
        m \<leftarrow> unmap_range (pagetable p) addr (addr + page_up len) (kpmm s);
        Some (0, s\<lparr>kpmm := m\<rparr>) })"

subsection \<open>Running a program\<close>

text \<open>The words of the command line, at most \<open>n\<close> of them.\<close>

fun parse_args :: "nat \<Rightarrow> u8 list \<Rightarrow> u8 list list" where
  "parse_args 0 cs = []"
| "parse_args (Suc n) cs =
     (let cs = dropWhile (\<lambda>c. c = 32) cs in
      if cs = [] then []
      else takeWhile (\<lambda>c. c \<noteq> 32) cs # parse_args n (drop 1 (dropWhile (\<lambda>c. c \<noteq> 32) cs)))"

definition initramfs_prefix :: "u8 list" where
  "initramfs_prefix = [105, 110, 105, 116, 114, 97, 109, 102, 115, 58]"

text \<open>Kernel memory with a string beside it, at an address no pointer has.\<close>

definition with_string :: "u8 list \<Rightarrow> (u64 \<Rightarrow> u64) \<Rightarrow> bytes" where
  "with_string cs m = (\<lambda>a. if a < 2 ^ 64 then load8 m (of_nat a) else (cs @ [0]) ! min (a - 2 ^ 64) (length cs))"

definition load_initramfs :: "initramfs_st \<Rightarrow> u8 list \<Rightarrow> 'a file_st_scheme \<Rightarrow> ((int + u64 \<times> u64 \<times> u64) \<times> 'a file_st_scheme) option" where
  "load_initramfs img nm s =
     do {
       (r, e) \<leftarrow> initramfs_find (with_string nm (mem (kpmm s))) img (2 ^ 64) \<lparr>ename = 0, edata = 0, esize = 0\<rparr>;
       if r < 0 then Some (Inl (-ENOENT), s)
       else
         let (pt, m) = vmm_create (kpmm s); s = s\<lparr>kpmm := m\<rparr> in
         if pt = 0 then Some (Inl (-ENOMEM), s)
         else do {
           (r, (entry, brk), s) \<leftarrow> elf_load (of_nat (edata e)) (ucast (esize e)) pt (0, 0) s;
           if r < 0 then do { m \<leftarrow> vmm_free pt (kpmm s); Some (Inl (-ENOENT), s\<lparr>kpmm := m\<rparr>) }
           else Some (Inr (pt, entry, brk), s) } }"

definition load_file :: "u8 list \<Rightarrow> 'a file_st_scheme \<Rightarrow> ((int + u64 \<times> u64 \<times> u64) \<times> 'a file_st_scheme) option" where
  "load_file path s =
     do {
       (r, s) \<leftarrow> fs_namei path s;
       case r of
         None \<Rightarrow> Some (Inl (-ENOENT), s)
       | Some ip \<Rightarrow>
           do {
             s \<leftarrow> fs_ilock ip s;
             if itype (icache s ip) \<noteq> T_FILE then do { s \<leftarrow> fs_iunlockput ip s; Some (Inl (-EACCES), s) }
             else
               let (pt, m) = vmm_create (kpmm s); s = s\<lparr>kpmm := m\<rparr> in
               if pt = 0 then do { s \<leftarrow> fs_iunlockput ip s; Some (Inl (-ENOMEM), s) }
               else do {
                 (r, (entry, brk), s) \<leftarrow> elf_load_from_inode ip pt (0, 0) s;
                 s \<leftarrow> fs_iunlockput ip s;
                 if r < 0 then do { m \<leftarrow> vmm_free pt (kpmm s); Some (Inl (-ENOENT), s\<lparr>kpmm := m\<rparr>) }
                 else Some (Inr (pt, entry, brk), s) } } }"

definition USER_STACK_PAGES :: nat where "USER_STACK_PAGES = 16"

text \<open>Maps the stack pages from the top down; the result is the address of the topmost, or \<open>None\<close> when memory is exhausted.\<close>

fun map_stack :: "u64 \<Rightarrow> nat list \<Rightarrow> u64 \<Rightarrow> pmm \<Rightarrow> (u64 option \<times> pmm) option" where
  "map_stack pt [] stack_pa m = Some (Some stack_pa, m)"
| "map_stack pt (i # is) stack_pa m =
     (let (pa, m) = pmm_alloc m in
      if pa = PMM_INVALID then Some (None, m)
      else do {
        (r, m) \<leftarrow> vmm_map_page pt (USER_STACK - of_nat (i + 1) * PAGE_SIZE) pa True False m;
        if r < 0 then do { m \<leftarrow> pmm_free pa m; Some (None, m) }
        else map_stack pt is (if i = 0 then pa else stack_pa) m })"

text \<open>Copies one argument below the stack top; the pointers of the arguments so far are collected.\<close>

definition push_arg :: "u8 list \<Rightarrow> u64 \<times> u64 \<times> u64 list \<times> 'a kst_scheme \<Rightarrow> u64 \<times> u64 \<times> u64 list \<times> 'a kst_scheme" where
  "push_arg arg = (\<lambda>(ktop, utop, ustr, s).
     let len = length arg + 1; ktop = ktop - of_nat len; utop = utop - of_nat len
     in (ktop, utop, utop # ustr, kstore ktop len (\<lambda>k. (arg @ [0]) ! k) s))"

text \<open>Lays out the arguments; the result is the user address of \<^verbatim>\<open>argv\<close>.\<close>

definition push_args :: "u64 \<Rightarrow> u8 list list \<Rightarrow> 'a kst_scheme \<Rightarrow> u64 \<times> 'a kst_scheme" where
  "push_args stack_pa argv s =
     (let (_, utop, ustr, s) = foldr push_arg argv (PA_TO_VA stack_pa + PAGE_SIZE, USER_STACK, [], s);
          utop = utop AND NOT 7;
          ktop = PA_TO_VA stack_pa + PAGE_SIZE - (USER_STACK - utop);
          argv_size = of_nat ((length argv + 1) * 8);
          utop = utop - argv_size; ktop = ktop - argv_size;
          s = fold (\<lambda>(j, v) s. set_mem (ktop + 8 * of_nat j) v s) (enumerate 0 (ustr @ [0])) s
      in (utop, s))"

definition exec_base_name :: "u8 list \<Rightarrow> u8 list" where
  "exec_base_name path = rev (takeWhile (\<lambda>c. c \<noteq> SLASH) (rev path))"

definition set_name :: "u8 list \<Rightarrow> bytes \<Rightarrow> bytes" where
  "set_name nm old = (\<lambda>k. let nm = take 15 nm in if k < length nm then nm ! k else if k = length nm then 0 else old k)"

text \<open>Everything after the new address space is complete: switch to it and start the program.\<close>

definition exec_commit :: "u64 \<Rightarrow> u64 \<Rightarrow> u64 \<Rightarrow> u64 \<Rightarrow> u8 list list \<Rightarrow> 'a kst_scheme \<Rightarrow> (int \<times> 'a kst_scheme) option" where
  "exec_commit pt entry brk stack_pa argv s =
     do {
       let (utop, s) = push_args stack_pa argv s;
       p \<leftarrow> cur s;
       s \<leftarrow> upd_cur (\<lambda>p. p\<lparr>pagetable := pt, sz := brk\<rparr>) s;
       let s = s\<lparr>ttbr0 := VA_TO_PA pt\<rparr>;
       m \<leftarrow> (if pagetable p \<noteq> 0 then vmm_free (pagetable p) (kpmm s) else Some (kpmm s));
       let s = s\<lparr>kpmm := m\<rparr>;
       let s = set_mem (tf_word (tf p) 32) entry s;
       let s = set_mem (tf_word (tf p) 31) (utop AND NOT 0xF) s;
       let s = set_mem (tf_word (tf p) 1) utop s;
       s \<leftarrow> upd_cur (\<lambda>p. p\<lparr>pname := set_name (exec_base_name (hd argv)) (pname p)\<rparr>) s;
       Some (int (length argv), s) }"

definition sys_exec :: "initramfs_st \<Rightarrow> u64 \<Rightarrow> 'a file_st_scheme \<Rightarrow> (int \<times> 'a file_st_scheme) option" where
  "sys_exec img cmdline s =
     do {
       c \<leftarrow> copyinstr cmdline 2048 s;
       case c of
         None \<Rightarrow> Some (-EFAULT, s)
       | Some kcmd \<Rightarrow>
           let argv = parse_args 64 kcmd in
           if argv = [] then Some (-EINVAL, s)
           else do {
             (r, s) \<leftarrow> (if take 10 (hd argv) = initramfs_prefix then load_initramfs img (drop 10 (hd argv)) s else load_file (hd argv) s);
             case r of
               Inl e \<Rightarrow> Some (e, s)
             | Inr (pt, entry, brk) \<Rightarrow>
                 do {
                   (st, m) \<leftarrow> map_stack pt [0..<USER_STACK_PAGES] 0 (kpmm s);
                   let s = s\<lparr>kpmm := m\<rparr>;
                   case st of
                     None \<Rightarrow> do { m \<leftarrow> vmm_free pt (kpmm s); Some (-ENOMEM, s\<lparr>kpmm := m\<rparr>) }
                   | Some stack_pa \<Rightarrow> exec_commit pt entry brk stack_pa argv s } } }"

end
