(* ===== verification/Syscall_File.thy ===== *)
theory Syscall_File
  imports Syscall_Proc
begin

text \<open>
  System calls on files, directories and the terminal, \<^verbatim>\<open>kernel/syscall.c\<close>. A path is copied in as a list of bytes. The uninitialised
  block buffer of \<^verbatim>\<open>file.c\<close> is the parameter \<open>junk\<close>.
\<close>

subsection \<open>Descriptors\<close>

text \<open>The open file of a descriptor: \<open>Some None\<close> for a bad one.\<close>

definition fd_file :: "int \<Rightarrow> 'a kst_scheme \<Rightarrow> nat option option" where
  "fd_file fd s = (if fd < 0 \<or> fd \<ge> int NOFILE then Some None else do { p \<leftarrow> cur s; Some (ofile p (nat fd)) })"

definition sys_write :: "bytes \<Rightarrow> int \<Rightarrow> u64 \<Rightarrow> u64 \<Rightarrow> 'a file_schedule \<Rightarrow> 'a file_st_scheme \<Rightarrow>
    (int \<times> 'a file_st_scheme \<times> 'a file_schedule) option" where
  "sys_write junk fd buf len es s =
     do {
       f \<leftarrow> fd_file fd s;
       case f of
         None \<Rightarrow> Some (-EBADF, s, es)
       | Some f \<Rightarrow>
           do {
             ok \<leftarrow> valid_buf buf len False s;
             if \<not> ok then Some (-EFAULT, s, es)
             else do { b \<leftarrow> copyin buf (unat len) s; filewrite junk f b (int_of_u64 len) es s } } }"

definition sys_read :: "bytes \<Rightarrow> int \<Rightarrow> u64 \<Rightarrow> u64 \<Rightarrow> 'a file_schedule \<Rightarrow> 'a file_st_scheme \<Rightarrow>
    (int \<times> 'a file_st_scheme \<times> 'a file_schedule) option" where
  "sys_read junk fd buf len es s =
     do {
       f \<leftarrow> fd_file fd s;
       case f of
         None \<Rightarrow> Some (-EBADF, s, es)
       | Some f \<Rightarrow>
           do {
             ok \<leftarrow> valid_buf buf len True s;
             if \<not> ok then Some (-EFAULT, s, es)
             else do {
               b \<leftarrow> copyin buf (unat len) s;
               (r, b, s, es) \<leftarrow> fileread junk f b (int_of_u64 len) es s;
               s \<leftarrow> copyout buf (nat (int_of_u64 len)) b s;
               Some (r, s, es) } } }"

definition sys_close :: "int \<Rightarrow> 'a file_st_scheme \<Rightarrow> (int \<times> 'a file_st_scheme) option" where
  "sys_close fd s =
     do {
       f \<leftarrow> fd_file fd s;
       case f of
         None \<Rightarrow> Some (-EBADF, s)
       | Some f \<Rightarrow>
           do { s \<leftarrow> upd_cur (\<lambda>p. p\<lparr>ofile := (ofile p)(nat fd := None)\<rparr>) s; s \<leftarrow> fileclose f s; Some (0, s) } }"

definition sys_dup :: "int \<Rightarrow> 'a file_st_scheme \<Rightarrow> (int \<times> 'a file_st_scheme) option" where
  "sys_dup fd s =
     do {
       f \<leftarrow> fd_file fd s;
       case f of
         None \<Rightarrow> Some (-EBADF, s)
       | Some f \<Rightarrow>
           do { (newfd, s) \<leftarrow> fdalloc f s;
                if newfd < 0 then Some (-ENOMEM, s) else Some (newfd, snd (filedup f s)) } }"

definition stat_bytes :: "stat \<Rightarrow> u8 list" where
  "stat_bytes st = le_bytes 4 (ucast (st_dev st)) @ le_bytes 4 (ucast (st_ino st)) @ le_bytes 2 (ucast (st_mode st)) @
     le_bytes 2 (ucast (st_nlink st)) @ le_bytes 4 (ucast (st_size st))"

definition no_stat :: stat where
  "no_stat = \<lparr>st_dev = 0, st_ino = 0, st_mode = 0, st_nlink = 0, st_size = 0\<rparr>"

definition sys_fstat :: "int \<Rightarrow> u64 \<Rightarrow> 'a file_st_scheme \<Rightarrow> (int \<times> 'a file_st_scheme) option" where
  "sys_fstat fd st s =
     do {
       f \<leftarrow> fd_file fd s;
       case f of
         None \<Rightarrow> Some (-EBADF, s)
       | Some f \<Rightarrow>
           do {
             ok \<leftarrow> valid_buf st 16 True s;
             if \<not> ok then Some (-EFAULT, s)
             else do {
               (r, x, s) \<leftarrow> filestat f no_stat s;
               s \<leftarrow> (if r = 0 then put_user st (stat_bytes x) s else Some s);
               Some (r, s) } } }"

definition sys_pipe :: "u64 \<Rightarrow> 'a file_st_scheme \<Rightarrow> (int \<times> 'a file_st_scheme) option" where
  "sys_pipe fdarray s =
     do {
       ok \<leftarrow> valid_buf fdarray 8 True s;
       if \<not> ok then Some (-EFAULT, s)
       else do {
         (r, f0, f1, s) \<leftarrow> pipealloc s;
         if r < 0 then Some (-ENOMEM, s)
         else do {
           rf \<leftarrow> f0;
           wf \<leftarrow> f1;
           (fd0, s) \<leftarrow> fdalloc rf s;
           if fd0 < 0 then do { s \<leftarrow> fileclose rf s; s \<leftarrow> fileclose wf s; Some (-ENOMEM, s) }
           else do {
             (fd1, s) \<leftarrow> fdalloc wf s;
             if fd1 < 0 then
               do { s \<leftarrow> upd_cur (\<lambda>p. p\<lparr>ofile := (ofile p)(nat fd0 := None)\<rparr>) s;
                    s \<leftarrow> fileclose rf s; s \<leftarrow> fileclose wf s; Some (-ENOMEM, s) }
             else do {
               s \<leftarrow> put_user fdarray (le_bytes 4 (word_of_int fd0) @ le_bytes 4 (word_of_int fd1)) s;
               Some (0, s) } } } } }"

text \<open>Offsets are added as 64-bit values.\<close>

definition sys_lseek :: "int \<Rightarrow> int \<Rightarrow> int \<Rightarrow> 'a file_st_scheme \<Rightarrow> (int \<times> 'a file_st_scheme) option" where
  "sys_lseek fd offset whence s =
     do {
       f \<leftarrow> fd_file fd s;
       case f of
         None \<Rightarrow> Some (-EBADF, s)
       | Some f \<Rightarrow>
           if ftype (ftable s f) \<noteq> FD_INODE \<and> ftype (ftable s f) \<noteq> FD_BDEVICE then Some (-EBADF, s)
           else do {
             (base, s) \<leftarrow>
               (if whence = 0 then Some (Some 0, s)
                else if whence = 1 then Some (Some (ucast (foff (ftable s f)) :: u64), s)
                else if whence = 2 then
                  do { ip \<leftarrow> fip (ftable s f); s \<leftarrow> fs_ilock ip s;
                       Some (Some (ucast (isize (icache s ip))), fs_iunlock ip s) }
                else Some (None, s));
             case base of
               None \<Rightarrow> Some (-EINVAL, s)
             | Some b \<Rightarrow>
                 (let newoff = sint (b + word_of_int offset) in
                  if newoff < 0 then Some (-EINVAL, s)
                  else Some (newoff, upd_file f (\<lambda>f. f\<lparr>foff := word_of_int newoff\<rparr>) s)) } }"

definition sys_ftruncate :: "int \<Rightarrow> int \<Rightarrow> 'a file_st_scheme \<Rightarrow> (int \<times> 'a file_st_scheme) option" where
  "sys_ftruncate fd len s =
     do {
       f \<leftarrow> fd_file fd s;
       case f of
         None \<Rightarrow> Some (-EBADF, s)
       | Some f \<Rightarrow>
           (case fip (ftable s f) of
              None \<Rightarrow> Some (-EINVAL, s)
            | Some ip \<Rightarrow>
                if ftype (ftable s f) \<noteq> FD_INODE then Some (-EINVAL, s)
                else if \<not> writable (ftable s f) then Some (-EACCES, s)
                else if len < 0 then Some (-EINVAL, s)
                else do {
                  s \<leftarrow> fs_ilock ip s;
                  (r, s) \<leftarrow> fs_itrunc_to ip (word_of_int len) s;
                  Some (r, fs_iunlock ip s) }) }"

definition sys_poll :: "int \<Rightarrow> int \<Rightarrow> 'a file_schedule \<Rightarrow> 'a file_st_scheme \<Rightarrow> (int \<times> 'a file_st_scheme \<times> 'a file_schedule) option" where
  "sys_poll fd timeout_ms es s =
     do {
       f \<leftarrow> fd_file fd s;
       case f of
         None \<Rightarrow> Some (-EBADF, s, es)
       | Some f \<Rightarrow>
           if ftype (ftable s f) \<noteq> FD_DEVICE \<or> fmajor (ftable s f) \<noteq> CONSOLE then Some (-ENOTTY, s, es)
           else
             let n = (if timeout_ms < 0 then - ((- timeout_ms) div 10) else timeout_ms div 10);
                 n = (if n = 0 \<and> timeout_ms > 0 then 1 else n)
             in uart_poll_timeout (word_of_int n) es s }"

subsection \<open>The terminal\<close>

definition sys_tcsetpgrp :: "int \<Rightarrow> 'a con_st_scheme \<Rightarrow> int \<times> 'a con_st_scheme" where
  "sys_tcsetpgrp grp s = (if grp < 0 then (-EINVAL, s) else (0, console_set_fg_pgid grp s))"

definition sys_tcsetraw :: "int \<Rightarrow> int \<Rightarrow> 'a con_st_scheme \<Rightarrow> int \<times> 'a con_st_scheme" where
  "sys_tcsetraw fd raw s = (if fd < 0 \<or> fd > 2 then (-EBADF, s) else (0, console_set_raw raw s))"

subsection \<open>Paths\<close>

definition O_WRONLY :: u32 where "O_WRONLY = 0x001"
definition O_RDWR :: u32 where "O_RDWR = 0x002"
definition O_CREAT :: u32 where "O_CREAT = 0x100"
definition O_TRUNC :: u32 where "O_TRUNC = 0x200"
definition O_APPEND :: u32 where "O_APPEND = 0x400"
definition O_EXCL :: u32 where "O_EXCL = 0x800"

text \<open>The inode to open, locked, or the error.\<close>

definition open_inode :: "u8 list \<Rightarrow> u32 \<Rightarrow> 'a file_st_scheme \<Rightarrow> ((int + nat) \<times> 'a file_st_scheme) option" where
  "open_inode path flags s =
     do {
       (r, s) \<leftarrow> fs_namei path s;
       case r of
         None \<Rightarrow>
           if flags AND O_CREAT \<noteq> 0 then
             do { (r, s) \<leftarrow> fs_create path T_FILE 0 0 s;
                  Some (case r of None \<Rightarrow> Inl (-ENOSPC) | Some ip \<Rightarrow> Inr ip, s) }
           else Some (Inl (-ENOENT), s)
       | Some ip \<Rightarrow>
           if flags AND O_CREAT \<noteq> 0 \<and> flags AND O_EXCL \<noteq> 0 then do { s \<leftarrow> fs_iput ip s; Some (Inl (-EEXIST), s) }
           else do { s \<leftarrow> fs_ilock ip s; Some (Inr ip, s) } }"

definition sys_open :: "u64 \<Rightarrow> u32 \<Rightarrow> 'a file_st_scheme \<Rightarrow> (int \<times> 'a file_st_scheme) option" where
  "sys_open path flags s =
     do {
       c \<leftarrow> copyinstr path 128 s;
       case c of
         None \<Rightarrow> Some (-EFAULT, s)
       | Some kpath \<Rightarrow>
           do {
             (r, s) \<leftarrow> open_inode kpath flags s;
             case r of
               Inl e \<Rightarrow> Some (e, s)
             | Inr ip \<Rightarrow>
                 let (f, s) = filealloc s in
                 case f of
                   None \<Rightarrow> do { s \<leftarrow> fs_iunlockput ip s; Some (-ENOMEM, s) }
                 | Some f \<Rightarrow>
                     do {
                       let ty = itype (icache s ip);
                       let major = uint (imajor (icache s ip));
                       let wr = (flags AND O_WRONLY \<noteq> 0 \<or> flags AND O_RDWR \<noteq> 0);
                       let s = upd_file f (\<lambda>x. x\<lparr>ftype := (if ty = T_DEVICE then FD_DEVICE else if ty = T_BDEVICE then FD_BDEVICE else FD_INODE),
                                 fmajor := (if ty = T_DEVICE \<or> ty = T_BDEVICE then major else fmajor x), fip := Some ip, foff := 0,
                                 readable := (flags AND O_WRONLY = 0), writable := wr, fappend := (flags AND O_APPEND \<noteq> 0)\<rparr>) s;
                       s \<leftarrow> (if flags AND O_TRUNC \<noteq> 0 \<and> wr \<and> ty = T_FILE then fs_itrunc ip s else Some s);
                       let s = fs_iunlock ip s;
                       (fd, s) \<leftarrow> fdalloc f s;
                       if fd < 0 then do { s \<leftarrow> fileclose f s; Some (-ENOMEM, s) } else Some (fd, s) } } }"

definition make_node :: "u64 \<Rightarrow> u16 \<Rightarrow> u16 \<Rightarrow> u16 \<Rightarrow> 'a file_st_scheme \<Rightarrow> (int \<times> 'a file_st_scheme) option" where
  "make_node path type major minor s =
     do {
       c \<leftarrow> copyinstr path 128 s;
       case c of
         None \<Rightarrow> Some (-EFAULT, s)
       | Some kpath \<Rightarrow>
           do { (r, s) \<leftarrow> fs_create kpath type major minor s;
                case r of None \<Rightarrow> Some (-EEXIST, s) | Some ip \<Rightarrow> do { s \<leftarrow> fs_iunlockput ip s; Some (0, s) } } }"

definition sys_mkdir :: "u64 \<Rightarrow> 'a file_st_scheme \<Rightarrow> (int \<times> 'a file_st_scheme) option" where
  "sys_mkdir path s = make_node path T_DIR 0 0 s"

definition sys_mknod :: "u64 \<Rightarrow> int \<Rightarrow> int \<Rightarrow> 'a file_st_scheme \<Rightarrow> (int \<times> 'a file_st_scheme) option" where
  "sys_mknod path major minor s = make_node path T_DEVICE (word_of_int major) (word_of_int minor) s"

definition sys_chdir :: "u64 \<Rightarrow> 'a file_st_scheme \<Rightarrow> (int \<times> 'a file_st_scheme) option" where
  "sys_chdir path s =
     do {
       c \<leftarrow> copyinstr path 128 s;
       case c of
         None \<Rightarrow> Some (-EFAULT, s)
       | Some kpath \<Rightarrow>
           do {
             (r, s) \<leftarrow> fs_namei kpath s;
             case r of
               None \<Rightarrow> Some (-ENOENT, s)
             | Some ip \<Rightarrow>
                 do {
                   s \<leftarrow> fs_ilock ip s;
                   if itype (icache s ip) \<noteq> T_DIR then do { s \<leftarrow> fs_iunlockput ip s; Some (-ENOTDIR, s) }
                   else do {
                     let s = fs_iunlock ip s;
                     p \<leftarrow> cur s;
                     d \<leftarrow> cwd p;
                     s \<leftarrow> fs_iput d s;
                     s \<leftarrow> upd_cur (\<lambda>p. p\<lparr>cwd := Some ip\<rparr>) s;
                     Some (0, s) } } } }"

definition sys_stat :: "u64 \<Rightarrow> u64 \<Rightarrow> 'a file_st_scheme \<Rightarrow> (int \<times> 'a file_st_scheme) option" where
  "sys_stat path st s =
     do {
       c \<leftarrow> copyinstr path 128 s;
       case c of
         None \<Rightarrow> Some (-EFAULT, s)
       | Some kpath \<Rightarrow>
           do {
             ok \<leftarrow> valid_buf st 16 True s;
             if \<not> ok then Some (-EFAULT, s)
             else do {
               (r, s) \<leftarrow> fs_namei kpath s;
               case r of
                 None \<Rightarrow> Some (-ENOENT, s)
               | Some ip \<Rightarrow>
                   do {
                     s \<leftarrow> fs_ilock ip s;
                     s \<leftarrow> put_user st (stat_bytes (fs_stati (icache s ip))) s;
                     s \<leftarrow> fs_iunlockput ip s;
                     Some (0, s) } } } }"

text \<open>Change the link count of a locked inode and write it back.\<close>

definition add_nlink :: "nat \<Rightarrow> u16 \<Rightarrow> 'a fs_st_scheme \<Rightarrow> 'a fs_st_scheme option" where
  "add_nlink i d s = fs_iupdate i (upd_inode i (\<lambda>ip. ip\<lparr>inlink := inlink ip + d\<rparr>) s)"

text \<open>The cleanup at the label \<^verbatim>\<open>bad\<close> of \<^verbatim>\<open>sys_link\<close> and \<^verbatim>\<open>fail\<close> of \<^verbatim>\<open>sys_rename\<close>.\<close>

definition drop_link :: "nat \<Rightarrow> 'a fs_st_scheme \<Rightarrow> 'a fs_st_scheme option" where
  "drop_link ip s = do { s \<leftarrow> fs_ilock ip s; s \<leftarrow> add_nlink ip (-1) s; fs_iunlockput ip s }"

definition sys_link :: "u64 \<Rightarrow> u64 \<Rightarrow> 'a file_st_scheme \<Rightarrow> (int \<times> 'a file_st_scheme) option" where
  "sys_link old new s =
     do {
       c1 \<leftarrow> copyinstr old 128 s;
       c2 \<leftarrow> (if c1 = None then Some None else copyinstr new 128 s);
       case (c1, c2) of
         (Some kold, Some knew) \<Rightarrow>
           do {
             (r, s) \<leftarrow> fs_namei kold s;
             case r of
               None \<Rightarrow> Some (-ENOENT, s)
             | Some ip \<Rightarrow>
                 do {
                   s \<leftarrow> fs_ilock ip s;
                   if itype (icache s ip) = T_DIR then do { s \<leftarrow> fs_iunlockput ip s; Some (-EPERM, s) }
                   else do {
                     s \<leftarrow> add_nlink ip 1 s;
                     let s = fs_iunlock ip s;
                     ((r, name), s) \<leftarrow> fs_nameiparent knew (\<lambda>_. 0) s;
                     case r of
                       None \<Rightarrow> do { s \<leftarrow> drop_link ip s; Some (-ENOENT, s) }
                     | Some dp \<Rightarrow>
                         do {
                           s \<leftarrow> fs_ilock dp s;
                           (r, s) \<leftarrow> (if idev (icache s dp) \<noteq> idev (icache s ip) then Some (-1, s)
                                      else fs_dirlink dp name (inum (icache s ip)) s);
                           s \<leftarrow> fs_iunlockput dp s;
                           if r < 0 then do { s \<leftarrow> drop_link ip s; Some (-ENOENT, s) }
                           else do { s \<leftarrow> fs_iput ip s; Some (0, s) } } } } }
       | _ \<Rightarrow> Some (-EFAULT, s) }"

definition is_dot :: "bytes \<Rightarrow> bool" where
  "is_dot nm \<longleftrightarrow> nm 0 = 46 \<and> nm 1 = 0"

definition is_dotdot :: "bytes \<Rightarrow> bool" where
  "is_dotdot nm \<longleftrightarrow> nm 0 = 46 \<and> nm 1 = 46 \<and> nm 2 = 0"

text \<open>Overwrite a directory entry with zeros.\<close>

definition clear_entry :: "nat \<Rightarrow> u32 \<Rightarrow> 'a fs_st_scheme \<Rightarrow> (int \<times> 'a fs_st_scheme) option" where
  "clear_entry dp off s = fs_writei dp (\<lambda>_. 0) off (of_nat DIRENT_SIZE) s"

definition unlink_entry :: "nat \<Rightarrow> nat \<Rightarrow> u32 \<Rightarrow> 'a file_st_scheme \<Rightarrow> (int \<times> 'a file_st_scheme) option" where
  "unlink_entry dp ip off s =
     do {
       s \<leftarrow> fs_ilock ip s;
       (full, s) \<leftarrow> (if itype (icache s ip) = T_DIR then do { (r, s) \<leftarrow> fs_isdirempty ip s; Some (r = 0, s) } else Some (False, s));
       if full then do { s \<leftarrow> fs_iunlockput ip s; s \<leftarrow> fs_iunlockput dp s; Some (-ENOTEMPTY, s) }
       else do {
         (r, s) \<leftarrow> clear_entry dp off s;
         if r \<noteq> int DIRENT_SIZE then do { s \<leftarrow> fs_iunlockput ip s; s \<leftarrow> fs_iunlockput dp s; Some (-EIO, s) }
         else do {
           s \<leftarrow> (if itype (icache s ip) = T_DIR then add_nlink dp (-1) s else Some s);
           s \<leftarrow> fs_iunlockput dp s;
           s \<leftarrow> add_nlink ip (-1) s;
           s \<leftarrow> fs_iunlockput ip s;
           Some (0, s) } } }"

definition sys_unlink :: "u64 \<Rightarrow> 'a file_st_scheme \<Rightarrow> (int \<times> 'a file_st_scheme) option" where
  "sys_unlink path s =
     do {
       c \<leftarrow> copyinstr path 128 s;
       case c of
         None \<Rightarrow> Some (-EFAULT, s)
       | Some kpath \<Rightarrow>
           do {
             ((r, name), s) \<leftarrow> fs_nameiparent kpath (\<lambda>_. 0) s;
             case r of
               None \<Rightarrow> Some (-ENOENT, s)
             | Some dp \<Rightarrow>
                 do {
                   s \<leftarrow> fs_ilock dp s;
                   if is_dot name \<or> is_dotdot name then do { s \<leftarrow> fs_iunlockput dp s; Some (-EINVAL, s) }
                   else do {
                     ((r, off), s) \<leftarrow> fs_dirlookup dp name s;
                     case (r, off) of
                       (Some ip, Some off) \<Rightarrow> unlink_entry dp ip off s
                     | _ \<Rightarrow> do { s \<leftarrow> fs_iunlockput dp s; Some (-ENOENT, s) } } } } }"

end
