(* ===== verification/Kprintf.thy ===== *)
theory Kprintf
  imports Console
begin

text \<open>
  Formatted output of the kernel, \<^verbatim>\<open>kernel/kprintf.c\<close>. A \<^verbatim>\<open>va_list\<close> is the list of the arguments not yet taken: a
  register, or a pointer to a string (\<open>None\<close> for the null pointer); taking an argument that is not there or has
  the wrong kind is undefined in C and gives \<open>None\<close> here. Positions in the buffer are the \<^verbatim>\<open>int\<close> of the code.
\<close>

datatype va_arg = VReg u64 | VStr "u8 list option"

subsection \<open>Numbers\<close>

text \<open>The loop of \<^verbatim>\<open>reverse\<close>, on the part of the buffer that begins at \<open>s\<close>.\<close>

function reverse_loop :: "bytes \<Rightarrow> nat \<Rightarrow> int \<Rightarrow> int \<Rightarrow> bytes" where
  "reverse_loop b s i j =
     (if i < j then
        reverse_loop (b(s + nat i := b (s + nat j), s + nat j := b (s + nat i))) s (i + 1) (j - 1)
      else b)"
  by pat_completeness auto
termination
  by (relation "measure (\<lambda>(b, s, i, j). nat (j - i))") auto

declare reverse_loop.simps [simp del]

definition reverse :: "bytes \<Rightarrow> nat \<Rightarrow> int \<Rightarrow> bytes" where
  "reverse b s len = reverse_loop b s 0 (len - 1)"

definition digit :: "u64 \<Rightarrow> u8" where
  "digit d = 48 + ucast d"

function dec_loop :: "u64 \<Rightarrow> int \<Rightarrow> int \<Rightarrow> bytes \<Rightarrow> int \<times> bytes" where
  "dec_loop uval pos room buf =
     (if uval > 0 \<and> pos < room - 1
      then dec_loop (uval div 10) (pos + 1) room (buf(nat pos := digit (uval mod 10)))
      else (pos, buf))"
  by pat_completeness auto
termination
proof (relation "measure (\<lambda>(uval, pos, room, buf). unat uval)", goal_cases)
  case (2 uval pos room buf)
  then have "0 < unat uval" by (auto simp: unat_gt_0)
  then show ?case by (simp add: unat_div)
qed simp

declare dec_loop.simps [simp del]

definition format_dec :: "bytes \<Rightarrow> int \<Rightarrow> int \<Rightarrow> u64 \<Rightarrow> bool \<Rightarrow> int \<times> bytes" where
  "format_dec buf pos room val is_signed =
     (let start = pos;
          neg = (is_signed \<and> sint val < 0);
          uval = (if neg then - val else val)
      in if uval = 0 then (pos + 1, if pos < room - 1 then buf(nat pos := 48) else buf)
         else
           let (pos, buf) = dec_loop uval pos room buf;
               (pos, buf) = (if neg \<and> pos < room - 1 then (pos + 1, buf(nat pos := 45)) else (pos, buf))
           in (pos, reverse buf (nat start) (pos - start)))"

definition hex_digit :: "bool \<Rightarrow> u64 \<Rightarrow> u8" where
  "hex_digit upper d = (if d < 10 then 48 + ucast d else (if upper then 65 else 97) + ucast (d - 10))"

text \<open>The loop stops by its \<^verbatim>\<open>break\<close> or its condition as soon as no digit is left and the width is reached.\<close>

function hex_loop :: "u64 \<Rightarrow> int \<Rightarrow> int \<Rightarrow> bool \<Rightarrow> int \<Rightarrow> int \<Rightarrow> bytes \<Rightarrow> int \<times> bytes" where
  "hex_loop tmp digits width upper pos room buf =
     (if tmp > 0 \<or> digits < width then
        let (pos, buf) = (if pos < room - 1 then (pos + 1, buf(nat pos := hex_digit upper (tmp AND 0xf))) else (pos, buf));
            tmp = drop_bit 4 tmp; digits = digits + 1
        in if digits \<ge> width \<and> tmp = 0 then (pos, buf) else hex_loop tmp digits width upper pos room buf
      else (pos, buf))"
  by pat_completeness auto
termination
proof (relation "measure (\<lambda>(tmp, digits, width, upper, pos, room, buf). unat tmp + nat (width - digits))", goal_cases)
  case (2 tmp digits width upper pos room buf x a b t d)
  have "unat (drop_bit 4 tmp) = unat tmp div 16" by (simp add: drop_bit_eq_div unat_div)
  moreover have "0 < unat tmp \<or> digits < width" using 2(1) by (auto simp: unat_gt_0)
  ultimately show ?case using 2(3,4,5) by (auto simp: div_less_dividend)
qed simp

declare hex_loop.simps [simp del]

definition format_hex :: "bytes \<Rightarrow> int \<Rightarrow> int \<Rightarrow> u64 \<Rightarrow> int \<Rightarrow> bool \<Rightarrow> int \<times> bytes" where
  "format_hex buf pos room val width upper =
     (let start = pos in
      if val = 0 \<and> width = 0 then (pos + 1, if pos < room - 1 then buf(nat pos := 48) else buf)
      else let (pos, buf) = hex_loop val 0 width upper pos room buf
           in (pos, reverse buf (nat start) (pos - start)))"

subsection \<open>Formats\<close>

definition emit :: "int \<Rightarrow> u8 \<Rightarrow> int \<times> bytes \<Rightarrow> int \<times> bytes" where
  "emit room c = (\<lambda>(pos, buf). if pos < room - 1 then (pos + 1, buf(nat pos := c)) else (pos, buf))"

definition null_string :: "u8 list" where
  "null_string = map of_char ''(null)''"

fun take_reg :: "va_arg list \<Rightarrow> (u64 \<times> va_arg list) option" where
  "take_reg (VReg w # ap) = Some (w, ap)"
| "take_reg _ = None"

fun take_str :: "va_arg list \<Rightarrow> (u8 list \<times> va_arg list) option" where
  "take_str (VStr s # ap) = Some (case s of None \<Rightarrow> null_string | Some s \<Rightarrow> s, ap)"
| "take_str _ = None"

definition int_arg :: "bool \<Rightarrow> u64 \<Rightarrow> u64" where
  "int_arg is_long w = (if is_long then w else scast (ucast w :: u32))"

definition uint_arg :: "bool \<Rightarrow> u64 \<Rightarrow> u64" where
  "uint_arg is_long w = (if is_long then w else ucast (ucast w :: u32))"

text \<open>The \<^verbatim>\<open>switch\<close> on the conversion character; the end of the format counts as the character 0.\<close>

definition conversion :: "int \<Rightarrow> bool \<Rightarrow> u8 \<Rightarrow> va_arg list \<Rightarrow> int \<times> bytes \<Rightarrow> ((int \<times> bytes) \<times> va_arg list) option" where
  "conversion room is_long c ap = (\<lambda>(pos, buf).
     if c = 99 then do { (w, ap) \<leftarrow> take_reg ap; Some (emit room (ucast w) (pos, buf), ap) }
     else if c = 115 then do { (s, ap) \<leftarrow> take_str ap; Some (fold (emit room) s (pos, buf), ap) }
     else if c = 100 then do { (w, ap) \<leftarrow> take_reg ap; Some (format_dec buf pos room (int_arg is_long w) True, ap) }
     else if c = 117 then do { (w, ap) \<leftarrow> take_reg ap; Some (format_dec buf pos room (uint_arg is_long w) False, ap) }
     else if c = 120 then do { (w, ap) \<leftarrow> take_reg ap; Some (format_hex buf pos room (uint_arg is_long w) 0 False, ap) }
     else if c = 88 then do { (w, ap) \<leftarrow> take_reg ap; Some (format_hex buf pos room (uint_arg is_long w) 0 True, ap) }
     else if c = 112 then do {
       (w, ap) \<leftarrow> take_reg ap;
       let (pos, buf) = emit room 120 (emit room 48 (pos, buf));
       Some (format_hex buf pos room w 16 False, ap) }
     else if c = 37 then Some (emit room 37 (pos, buf), ap)
     else
       let r = emit room 37 (pos, buf); r = (if is_long then emit room 108 r else r)
       in Some (emit room c r, ap))"

function kvsnprintf_loop :: "int \<Rightarrow> u8 list \<Rightarrow> va_arg list \<Rightarrow> int \<times> bytes \<Rightarrow> (int \<times> bytes) option" where
  "kvsnprintf_loop room fmt ap r =
     (case fmt of
        [] \<Rightarrow> Some r
      | c # fmt \<Rightarrow>
          if \<not> fst r < room - 1 then Some r
          else if c \<noteq> 37 then kvsnprintf_loop room fmt ap (fst r + 1, (snd r)(nat (fst r) := c))
          else
            let (is_long, fmt) = (case fmt of c # cs \<Rightarrow> if c = 108 then (True, cs) else (False, fmt) | [] \<Rightarrow> (False, fmt)) in
            do {
              (r, ap) \<leftarrow> conversion room is_long (case fmt of [] \<Rightarrow> 0 | c # _ \<Rightarrow> c) ap r;
              kvsnprintf_loop room (tl fmt) ap r })"
  by pat_completeness auto
termination
  by (relation "measure (\<lambda>(room, fmt, ap, r). length fmt)") (auto split: list.splits if_splits simp: le_imp_less_Suc)

declare kvsnprintf_loop.simps [simp del]

definition kvsnprintf :: "bytes \<Rightarrow> int \<Rightarrow> u8 list \<Rightarrow> va_arg list \<Rightarrow> (int \<times> bytes) option" where
  "kvsnprintf buf room fmt ap =
     do {
       (pos, buf) \<leftarrow> kvsnprintf_loop room fmt ap (0, buf);
       Some (pos, if room > 0 then buf(nat (if pos < room then pos else room - 1) := 0) else buf) }"

definition ksnprintf :: "bytes \<Rightarrow> int \<Rightarrow> u8 list \<Rightarrow> va_arg list \<Rightarrow> (int \<times> bytes) option" where
  "ksnprintf buf room fmt ap = kvsnprintf buf room fmt ap"

text \<open>The bytes of a buffer before the terminator, which the buffer has.\<close>

definition cstring :: "bytes \<Rightarrow> nat \<Rightarrow> u8 list" where
  "cstring buf n = takeWhile (\<lambda>c. c \<noteq> 0) (map buf [0..<n])"

definition kprintf :: "bytes \<Rightarrow> u8 list \<Rightarrow> va_arg list \<Rightarrow> 'a con_st_scheme \<Rightarrow> 'a con_st_scheme option" where
  "kprintf junk fmt ap s =
     do { (_, buf) \<leftarrow> kvsnprintf junk 256 fmt ap; Some (uart_puts (cstring buf 256) s) }"

subsection \<open>Decimal numbers\<close>

text \<open>The bytes \<open>xs\<close> at position \<open>p\<close> of a buffer.\<close>

definition overlay :: "bytes \<Rightarrow> nat \<Rightarrow> u8 list \<Rightarrow> bytes" where
  "overlay b p xs = (\<lambda>i. if p \<le> i \<and> i < p + length xs then xs ! (i - p) else b i)"

fun low_digits :: "nat \<Rightarrow> u8 list" where
  "low_digits n = (if n = 0 then [] else of_nat (48 + n mod 10) # low_digits (n div 10))"

declare low_digits.simps [simp del]

text \<open>The usual decimal notation.\<close>

fun decimal :: "nat \<Rightarrow> u8 list" where
  "decimal n = (if n < 10 then [of_nat (48 + n)] else decimal (n div 10) @ [of_nat (48 + n mod 10)])"

declare decimal.simps [simp del]

definition decimal_int :: "int \<Rightarrow> u8 list" where
  "decimal_int n = (if n < 0 then [45] else []) @ decimal (nat \<bar>n\<bar>)"

lemma decimal_low_digits: "n \<noteq> 0 \<Longrightarrow> decimal n = rev (low_digits n)"
proof (induction n rule: decimal.induct)
  case (1 n)
  then show ?case
    by (subst decimal.simps, subst low_digits.simps) (auto simp: low_digits.simps [of "n div 10"])
qed

lemma length_low_digits: "n < 10 ^ k \<Longrightarrow> length (low_digits n) \<le> k"
proof (induction k arbitrary: n)
  case 0
  then show ?case by (simp add: low_digits.simps)
next
  case (Suc k)
  then have "n div 10 < 10 ^ k" by (simp add: less_mult_imp_div_less mult.commute)
  then show ?case using Suc.IH by (simp add: low_digits.simps [of n])
qed

lemma overlay_Nil [simp]: "overlay b p [] = b"
  by (auto simp: overlay_def fun_eq_iff)

lemma overlay_Cons: "overlay (b(p := x)) (Suc p) xs = overlay b p (x # xs)"
  by (auto simp: overlay_def fun_eq_iff nth_Cons' Suc_diff_Suc)

lemma overlay_snoc: "(overlay b p xs)(p + length xs := x) = overlay b p (xs @ [x])"
  by (auto simp: overlay_def fun_eq_iff nth_append)

lemma reverse_loop_eq:
  "0 \<le> i \<Longrightarrow> reverse_loop b s i j =
     (\<lambda>k. if s + nat i \<le> k \<and> int k \<le> int s + j then b (nat (2 * int s + i + j - int k)) else b k)"
proof (induction b s i j rule: reverse_loop.induct)
  case (1 b s i j)
  show ?case
  proof (cases "i < j")
    case True
    let ?b = "b(s + nat i := b (s + nat j), s + nat j := b (s + nat i))"
    have step: "reverse_loop b s i j = reverse_loop ?b s (i + 1) (j - 1)"
      using True by (simp add: reverse_loop.simps [of b s i j])
    have IH: "reverse_loop ?b s (i + 1) (j - 1) =
        (\<lambda>k. if s + nat (i + 1) \<le> k \<and> int k \<le> int s + (j - 1) then ?b (nat (2 * int s + (i + 1) + (j - 1) - int k)) else ?b k)"
      using 1(2) by (intro 1(1) [OF True]) simp
    show ?thesis
    proof
      fix k
      consider "k < s + nat i" | "k = s + nat i" | "s + nat i < k" "k < s + nat j" | "k = s + nat j" | "s + nat j < k"
        by linarith
      then show "reverse_loop b s i j k =
          (if s + nat i \<le> k \<and> int k \<le> int s + j then b (nat (2 * int s + i + j - int k)) else b k)"
      proof cases
        case 3
        then have "nat (2 * int s + i + j - int k) \<noteq> s + nat i" "nat (2 * int s + i + j - int k) \<noteq> s + nat j"
          using True 1(2) by linarith+
        then show ?thesis using 3 True 1(2) by (auto simp: step IH add.assoc)
      next
        case 2
        have "nat (2 * int s + i + j - int k) = s + nat j" using 2 1(2) True by linarith
        then show ?thesis using 2 True 1(2) by (auto simp: step IH)
      next
        case 4
        have "nat (2 * int s + i + j - int k) = s + nat i" using 4 1(2) True by linarith
        then show ?thesis using 4 True 1(2) by (auto simp: step IH)
      next
        case 1
        then have "k \<noteq> s + nat j" "\<not> s + nat (i + 1) \<le> k" using True \<open>0 \<le> i\<close> by linarith+
        then show ?thesis using 1 by (simp add: step IH)
      next
        case 5
        then have "int s + j < int k" using True \<open>0 \<le> i\<close> by linarith
        then show ?thesis using 5 True by (simp add: step IH)
      qed
    qed
  next
    case False
    then have "nat (2 * int s + i + j - int k) = k" if "s + nat i \<le> k" "int k \<le> int s + j" for k
      using that 1(2) by linarith
    then show ?thesis using False by (auto simp: reverse_loop.simps [of b s i j] fun_eq_iff)
  qed
qed

lemma reverse_overlay: "reverse (overlay b p xs) p (int (length xs)) = overlay b p (rev xs)"
proof
  fix k
  have "nat (2 * int p + 0 + (int (length xs) - 1) - int k) = p + (length xs - Suc (k - p))"
    if "p \<le> k" "k < p + length xs" using that by linarith
  then show "reverse (overlay b p xs) p (int (length xs)) k = overlay b p (rev xs) k"
    by (auto simp: reverse_def reverse_loop_eq overlay_def rev_nth)
qed

lemma digit_of_nat: "digit (w mod 10) = of_nat (48 + unat w mod 10)"
proof -
  have "(ucast (w mod 10) :: u8) = of_nat (unat (w mod 10))" by simp
  then show ?thesis by (simp add: digit_def unat_mod)
qed

lemma dec_loop_digits:
  assumes "0 \<le> pos" "pos + int (length (low_digits (unat w))) < room"
  shows "dec_loop w pos room buf = (pos + int (length (low_digits (unat w))), overlay buf (nat pos) (low_digits (unat w)))"
  using assms
proof (induction w pos room buf rule: dec_loop.induct)
  case (1 w pos room buf)
  show ?case
  proof (cases "w = 0")
    case True
    then show ?thesis by (simp add: dec_loop.simps [of 0] low_digits.simps)
  next
    case False
    then have pos: "0 < w" "unat w \<noteq> 0" by (simp_all add: word_neq_0_conv unat_eq_0)
    have ds: "low_digits (unat w) = digit (w mod 10) # low_digits (unat (w div 10))"
      using pos(2) by (subst low_digits.simps) (simp add: digit_of_nat unat_div)
    have lt: "pos < room - 1" using 1(3) by (simp add: ds)
    have "dec_loop w pos room buf = dec_loop (w div 10) (pos + 1) room (buf(nat pos := digit (w mod 10)))"
      using pos lt by (subst dec_loop.simps) simp
    also have "\<dots> = (pos + 1 + int (length (low_digits (unat (w div 10)))),
        overlay (buf(nat pos := digit (w mod 10))) (nat (pos + 1)) (low_digits (unat (w div 10))))"
      using 1 pos lt by (intro 1(1)) (simp_all add: ds)
    finally show ?thesis using 1(2) by (simp add: ds overlay_Cons nat_add_distrib)
  qed
qed

lemma length_low_digits_word: "length (low_digits (unat (w :: u64))) \<le> 20"
  using unat_less_exp [of w] by (intro length_low_digits) simp

lemma sint_u64: "sint (w :: u64) = (if bit w 63 then uint w - 2 ^ 64 else uint w)"
proof -
  have "take_bit 64 (uint w) = uint w" by (intro take_bit_int_eq_self) (use uint_lt2p [of w] in auto)
  then show ?thesis
    by (simp add: sint_uint signed_take_bit_eq_take_bit_minus bit_uint_iff)
qed

lemma unat_neg_u64: "w \<noteq> 0 \<Longrightarrow> int (unat (- w)) = 2 ^ 64 - uint w" for w :: u64
proof -
  assume "w \<noteq> 0"
  then have "0 < uint w" by (simp add: uint_0_iff order_less_le)
  moreover have "uint w < 2 ^ 64" using uint_lt2p [of w] by simp
  ultimately have "(- uint w) mod 2 ^ 64 = 2 ^ 64 - uint w"
    using zmod_zminus1_eq_if [of "uint w" "2 ^ 64"] by simp
  then show ?thesis by (simp add: uint_word_arith_bintrs take_bit_eq_mod)
qed

lemma magnitude:
  assumes "neg \<longleftrightarrow> is_signed \<and> sint (val :: u64) < 0"
  shows "unat (if neg then - val else val) = nat \<bar>if is_signed then sint val else uint val\<bar>"
proof (cases neg)
  case True
  then have "bit val 63" "val \<noteq> 0" "sint val = uint val - 2 ^ 64"
    using assms sint_u64 [of val] by (auto simp: uint_nonnegative not_less split: if_splits)
  then show ?thesis using True assms unat_neg_u64 [of val] by (auto simp: unat_eq_nat_uint simp del: nat_uint_eq)
next
  case False
  then have "(if is_signed then sint val else uint val) = uint val"
    using assms sint_u64 [of val] uint_lt2p [of val] by (auto split: if_splits)
  then show ?thesis using False by simp
qed

text \<open>With room for 21 more characters \<^verbatim>\<open>format_dec\<close> writes the decimal notation of the value, with a minus
  sign for a negative signed one (the smallest \<^verbatim>\<open>long\<close> included), at the current position, changes no other byte and
  returns the position behind it.\<close>

theorem format_dec_correct:
  fixes val :: u64 and is_signed :: bool
  assumes "0 \<le> pos" "pos + 21 < room"
  defines "str \<equiv> decimal_int (if is_signed then sint val else uint val)"
  shows "format_dec buf pos room val is_signed = (pos + int (length str), overlay buf (nat pos) str)"
proof -
  define neg where "neg = (is_signed \<and> sint val < 0)"
  define w where "w = (if neg then - val else val)"
  define n where "n = (if is_signed then sint val else uint val)"
  have u: "unat w = nat \<bar>n\<bar>" unfolding w_def n_def by (rule magnitude) (simp add: neg_def)
  have neg: "neg \<longleftrightarrow> n < 0" by (auto simp: neg_def n_def)
  have f: "format_dec buf pos room val is_signed =
      (if w = 0 then (pos + 1, if pos < room - 1 then buf(nat pos := 48) else buf)
       else let (p, b) = dec_loop w pos room buf;
                (p, b) = (if neg \<and> p < room - 1 then (p + 1, b(nat p := 45)) else (p, b))
            in (p, reverse b (nat pos) (p - pos)))"
    by (simp add: format_dec_def neg_def w_def Let_def)
  show ?thesis
  proof (cases "w = 0")
    case True
    then have "n = 0" using u by simp
    then have "str = [48]" by (simp add: str_def n_def [symmetric] decimal_int_def decimal.simps)
    moreover have "overlay buf (nat pos) [48] = buf(nat pos := 48)" by (auto simp: overlay_def fun_eq_iff)
    ultimately show ?thesis using True f assms(2) by simp
  next
    case False
    then have n0: "nat \<bar>n\<bar> \<noteq> 0" using u by (metis unat_eq_0)
    let ?ds = "low_digits (unat w)"
    have len: "length ?ds \<le> 20" by (rule length_low_digits_word)
    then have d: "dec_loop w pos room buf = (pos + int (length ?ds), overlay buf (nat pos) ?ds)"
      using assms by (intro dec_loop_digits) auto
    have at: "nat (pos + int (length ?ds)) = nat pos + length ?ds" using assms(1) by linarith
    have st: "str = rev (?ds @ (if neg then [45] else []))"
      using decimal_low_digits [OF n0] by (simp add: str_def n_def [symmetric] decimal_int_def u neg)
    have b: "(if neg then (overlay buf (nat pos) ?ds)(nat (pos + int (length ?ds)) := 45) else overlay buf (nat pos) ?ds) =
        overlay buf (nat pos) (?ds @ (if neg then [45] else []))" by (simp add: at overlay_snoc)
    have "format_dec buf pos room val is_signed =
        (pos + int (length str), reverse (overlay buf (nat pos) (?ds @ (if neg then [45] else []))) (nat pos) (int (length str)))"
      using False len assms(2) b st by (cases neg) (simp_all add: f d add.commute)
    moreover have "length str = length (?ds @ (if neg then [45] else []))" unfolding st by (rule length_rev)
    ultimately show ?thesis using reverse_overlay [of buf "nat pos" "?ds @ (if neg then [45] else [])"] st by metis
  qed
qed

theorem format_dec_correct_witness:
  "format_dec (\<lambda>_. 0) 0 32 (-120) True = (4, overlay (\<lambda>_. 0) 0 [45, 49, 50, 48])"
proof -
  have "decimal_int (-120) = [45, 49, 50, 48]" by (simp add: decimal_int_def decimal.simps)
  moreover have "sint (-120 :: u64) = -120" by simp
  ultimately show ?thesis using format_dec_correct [of 0 32 "\<lambda>_. 0" "-120" True] by simp
qed

subsection \<open>Staying inside the buffer\<close>

definition inside :: "int \<Rightarrow> bytes \<Rightarrow> int \<times> bytes \<Rightarrow> bool" where
  "inside room b0 r \<longleftrightarrow> 0 \<le> fst r \<and> fst r \<le> room - 1 \<and> (\<forall>i\<ge>nat (room - 1). snd r i = b0 i)"

lemma inside_emit: "inside room b0 r \<Longrightarrow> inside room b0 (emit room c r)"
  by (auto simp: inside_def emit_def split: prod.splits)

lemma inside_emits: "inside room b0 r \<Longrightarrow> inside room b0 (fold (emit room) cs r)"
  by (induction cs arbitrary: r) (simp_all add: inside_emit)

lemma dec_loop_inside:
  "inside room b0 (pos, buf) \<Longrightarrow> inside room b0 (dec_loop w pos room buf) \<and> pos \<le> fst (dec_loop w pos room buf)"
proof (induction w pos room buf rule: dec_loop.induct)
  case (1 w pos room buf)
  show ?case
  proof (cases "w > 0 \<and> pos < room - 1")
    case True
    then have "inside room b0 (pos + 1, buf(nat pos := digit (w mod 10)))" using 1(2) by (auto simp: inside_def)
    note IH = 1(1) [OF True this]
    have "dec_loop w pos room buf = dec_loop (w div 10) (pos + 1) room (buf(nat pos := digit (w mod 10)))"
      using True by (subst dec_loop.simps) simp
    then show ?thesis using IH by (simp add: fun_upd_def)
  next
    case False
    then have "dec_loop w pos room buf = (pos, buf)" by (subst dec_loop.simps) auto
    then show ?thesis using 1(2) by simp
  qed
qed

lemma hex_loop_inside:
  "inside room b0 (pos, buf) \<Longrightarrow>
   inside room b0 (hex_loop tmp digits width upper pos room buf) \<and> pos \<le> fst (hex_loop tmp digits width upper pos room buf)"
proof (induction tmp digits width upper pos room buf rule: hex_loop.induct)
  case (1 tmp digits width upper pos room buf)
  define pb where "pb = emit room (hex_digit upper (tmp AND 0xf)) (pos, buf)"
  have pb: "(if pos < room - 1 then (pos + 1, buf(nat pos := hex_digit upper (tmp AND 0xf))) else (pos, buf)) = (fst pb, snd pb)"
    by (simp add: pb_def emit_def)
  have in_pb: "inside room b0 (fst pb, snd pb)" using inside_emit [OF 1(2)] by (simp add: pb_def)
  have ge: "pos \<le> fst pb" by (simp add: pb_def emit_def)
  show ?case
  proof (cases "tmp > 0 \<or> digits < width")
    case True
    have step: "hex_loop tmp digits width upper pos room buf =
        (if digits + 1 \<ge> width \<and> drop_bit 4 tmp = 0 then (fst pb, snd pb)
         else hex_loop (drop_bit 4 tmp) (digits + 1) width upper (fst pb) room (snd pb))"
      using True by (subst hex_loop.simps) (simp add: pb Let_def case_prod_unfold)
    show ?thesis
      using 1(1) [OF True pb [symmetric] refl refl refl _ in_pb] in_pb ge by (auto simp: step)
  next
    case False
    then have "hex_loop tmp digits width upper pos room buf = (pos, buf)" by (subst hex_loop.simps) simp
    then show ?thesis using 1(2) by simp
  qed
qed

lemma reverse_inside:
  assumes "inside room b0 (p', buf)" "0 \<le> pos" "pos \<le> p'"
  shows "inside room b0 (p', reverse buf (nat pos) (p' - pos))"
proof -
  have "reverse buf (nat pos) (p' - pos) i = buf i" if "nat (room - 1) \<le> i" for i
    using that assms by (auto simp: reverse_def reverse_loop_eq inside_def)
  then show ?thesis using assms(1) by (auto simp: inside_def)
qed

lemma format_dec_inside:
  assumes "inside room b0 (pos, buf)" "pos < room - 1"
  shows "inside room b0 (format_dec buf pos room val sg)"
proof -
  define neg w where "neg = (sg \<and> sint val < 0)" and "w = (if neg then - val else val)"
  obtain p b where d: "dec_loop w pos room buf = (p, b)" by fastforce
  then have pb: "inside room b0 (p, b)" "pos \<le> p" using dec_loop_inside [OF assms(1), of w] by simp_all
  define q where "q = (if neg then emit room 45 (p, b) else (p, b))"
  have q: "inside room b0 (fst q, snd q)" "pos \<le> fst q" "(if neg \<and> p < room - 1 then (p + 1, b(nat p := 45)) else (p, b)) = q"
    using inside_emit [OF pb(1), of 45] pb by (auto simp: q_def emit_def split: if_splits)
  have "format_dec buf pos room val sg =
      (if w = 0 then (pos + 1, buf(nat pos := 48)) else (fst q, reverse (snd q) (nat pos) (fst q - pos)))"
    using assms(2) q(3) by (auto simp: format_dec_def neg_def [symmetric] w_def [symmetric] d Let_def split: prod.splits)
  moreover have "inside room b0 (pos + 1, buf(nat pos := 48))" using assms by (auto simp: inside_def)
  ultimately show ?thesis using reverse_inside [OF q(1) _ q(2)] assms(1) by (simp add: inside_def)
qed

lemma format_hex_inside:
  assumes "inside room b0 (pos, buf)" "pos < room - 1 \<or> width \<noteq> 0"
  shows "inside room b0 (format_hex buf pos room val width up)"
proof -
  obtain p b where d: "hex_loop val 0 width up pos room buf = (p, b)" by fastforce
  then have pb: "inside room b0 (p, b)" "pos \<le> p" using hex_loop_inside [OF assms(1), of val 0 width up] by simp_all
  have "inside room b0 (pos + 1, buf(nat pos := 48))" if "pos < room - 1" using assms that by (auto simp: inside_def)
  then show ?thesis
    using reverse_inside [OF pb(1) _ pb(2)] assms by (auto simp: format_hex_def d Let_def inside_def)
qed

lemma conversion_inside:
  assumes "conversion room is_long c ap r = Some (r', ap')" "inside room b0 r" "fst r < room - 1"
  shows "inside room b0 r'"
proof -
  obtain pos buf where r: "r = (pos, buf)" by fastforce
  have i: "inside room b0 (pos, buf)" "pos < room - 1" using assms(2,3) r by simp_all
  obtain p2 b2 where e: "emit room 120 (emit room 48 (pos, buf)) = (p2, b2)" by fastforce
  then have "inside room b0 (p2, b2)" using inside_emit [OF inside_emit [OF i(1), of 48], of 120] by simp
  then show ?thesis
    using assms(1) i unfolding conversion_def r
    by (auto simp: bind_Some_iff e Let_def
        intro: inside_emit inside_emits format_dec_inside format_hex_inside split: if_splits prod.splits)
qed

lemma kvsnprintf_loop_inside:
  "kvsnprintf_loop room fmt ap r = Some r' \<Longrightarrow> inside room b0 r \<Longrightarrow> inside room b0 r'"
proof (induction room fmt ap r rule: kvsnprintf_loop.induct)
  case (1 room fmt ap r)
  show ?case
  proof (cases fmt)
    case Nil
    then show ?thesis using 1(3,4) by (simp add: kvsnprintf_loop.simps [of room "[]"])
  next
    case (Cons c cs)
    show ?thesis
    proof (cases "fst r < room - 1")
      case False
      then show ?thesis using 1(3,4) Cons by (simp add: kvsnprintf_loop.simps [of room "c # cs"])
    next
      case True
      show ?thesis
      proof (cases "c = 37")
        case False
        have "inside room b0 (fst r + 1, (snd r)(nat (fst r) := c))" using 1(4) True by (auto simp: inside_def)
        then show ?thesis using 1(1) [OF Cons _ False] 1(3) Cons True False by (simp add: kvsnprintf_loop.simps [of room "c # cs"])
      next
        case c: True
        obtain is_long rest where l: "(case cs of c # cs' \<Rightarrow> if c = 108 then (True, cs') else (False, cs) | [] \<Rightarrow> (False, cs)) = (is_long, rest)"
          by fastforce
        obtain r2 ap2 where cv: "conversion room is_long (case rest of [] \<Rightarrow> 0 | c # _ \<Rightarrow> c) ap r = Some (r2, ap2)"
            "kvsnprintf_loop room (tl rest) ap2 r2 = Some r'"
          using 1(3) Cons True c l by (auto simp: kvsnprintf_loop.simps [of room "37 # cs"] bind_Some_iff)
        show ?thesis using 1(2) [OF Cons _ _ l [symmetric] refl cv(1) refl cv(2) conversion_inside [OF cv(1) 1(4) True]] True c by simp
      qed
    qed
  qed
qed

text \<open>The arguments fit the format.\<close>

definition reg_conv :: "u8 \<Rightarrow> bool" where
  "reg_conv c \<longleftrightarrow> c \<in> {99, 100, 117, 120, 88, 112}"

definition skip_l :: "u8 list \<Rightarrow> u8 list" where
  "skip_l fmt = (case fmt of c # cs \<Rightarrow> if c = 108 then cs else fmt | [] \<Rightarrow> fmt)"

function args_fit :: "u8 list \<Rightarrow> va_arg list \<Rightarrow> bool" where
  "args_fit [] ap \<longleftrightarrow> True"
| "args_fit (c # fmt) ap \<longleftrightarrow>
     (if c \<noteq> 37 then args_fit fmt ap
      else case skip_l fmt of
        [] \<Rightarrow> True
      | c # cs \<Rightarrow>
          if reg_conv c then (case ap of VReg _ # ap \<Rightarrow> args_fit cs ap | _ \<Rightarrow> False)
          else if c = 115 then (case ap of VStr _ # ap \<Rightarrow> args_fit cs ap | _ \<Rightarrow> False)
          else args_fit cs ap)"
  by pat_completeness auto
termination
  by (relation "measure (\<lambda>(fmt, ap). length fmt)") (auto simp: skip_l_def split: list.splits if_splits)

lemma conversion_reg: "reg_conv c \<Longrightarrow> \<exists>r'. conversion room l c (VReg w # ap) r = Some (r', ap)"
  by (cases r) (auto simp: conversion_def reg_conv_def Let_def split: prod.splits)

lemma conversion_str: "\<exists>r'. conversion room l 115 (VStr w # ap) r = Some (r', ap)"
  by (cases r) (auto simp: conversion_def)

lemma conversion_other: "\<not> reg_conv c \<Longrightarrow> c \<noteq> 115 \<Longrightarrow> \<exists>r'. conversion room l c ap r = Some (r', ap)"
  by (cases r) (auto simp: conversion_def reg_conv_def Let_def)

lemma kvsnprintf_loop_returns: "args_fit fmt ap \<Longrightarrow> \<exists>r'. kvsnprintf_loop room fmt ap r = Some r'"
proof (induction "length fmt" arbitrary: fmt ap r rule: less_induct)
  case less
  show ?case
  proof (cases fmt)
    case Nil
    then show ?thesis by (simp add: kvsnprintf_loop.simps)
  next
    case fmt: (Cons c cs)
    show ?thesis
    proof (cases "fst r < room - 1 \<and> c = 37")
      case False
      then show ?thesis using less fmt
        by (cases "fst r < room - 1") (auto simp: kvsnprintf_loop.simps [of room "c # cs"])
    next
      case True
      obtain l where l: "(case cs of c # cs' \<Rightarrow> if c = 108 then (True, cs') else (False, cs) | [] \<Rightarrow> (False, cs)) = (l, skip_l cs)"
        using that by (cases cs; cases "hd cs = 108") (auto simp: skip_l_def)
      have unf: "kvsnprintf_loop room fmt ap r =
          do { (r, ap) \<leftarrow> conversion room l (case skip_l cs of [] \<Rightarrow> 0 | c # _ \<Rightarrow> c) ap r; kvsnprintf_loop room (tl (skip_l cs)) ap r }"
        using True fmt by (simp add: kvsnprintf_loop.simps [of room "37 # cs"] l)
      show ?thesis
      proof (cases "skip_l cs")
        case Nil
        then show ?thesis using unf conversion_other [of 0 room l ap r] by (auto simp: reg_conv_def kvsnprintf_loop.simps [of _ "[]"])
      next
        case (Cons d ds)
        have "length ds < length fmt" using Cons fmt by (auto simp: skip_l_def split: list.splits if_splits)
        note IH = less.hyps [OF this]
        obtain r' ap' where "conversion room l d ap r = Some (r', ap')" "args_fit ds ap'"
          using less.prems fmt True Cons conversion_reg [where r = r and c = d and room = room and l = l]
            conversion_str [where r = r and room = room and l = l] conversion_other [of d room l ap r]
          by (auto split: if_splits list.splits va_arg.splits) (metis+)?
        then show ?thesis using unf Cons IH by auto
      qed
    qed
  qed
qed

text \<open>Property C18. With arguments that fit the format, \<^verbatim>\<open>ksnprintf\<close> returns, and whatever the format and the arguments it
  writes only into the first \<open>size\<close> bytes of the buffer and terminates the string there: output that does not fit
  is cut off, numbers included.\<close>

theorem ksnprintf_safe:
  assumes "args_fit fmt ap" "0 < room"
  shows "\<exists>pos buf'. ksnprintf buf room fmt ap = Some (pos, buf') \<and> 0 \<le> pos \<and> pos < room \<and> buf' (nat pos) = 0 \<and>
    (\<forall>i\<ge>nat room. buf' i = buf i)"
proof -
  obtain r where r: "kvsnprintf_loop room fmt ap (0, buf) = Some r" using kvsnprintf_loop_returns [OF assms(1)] by blast
  have "inside room buf (0, buf)" using assms(2) by (simp add: inside_def)
  from kvsnprintf_loop_inside [OF r this] show ?thesis
    using assms(2) r by (cases r) (auto simp: ksnprintf_def kvsnprintf_def inside_def)
qed

theorem ksnprintf_safe_witness:
  "\<exists>pos buf'. ksnprintf (\<lambda>_. 1) 4 [37, 100] [VReg 123456] = Some (pos, buf') \<and> 0 \<le> pos \<and> pos < 4 \<and> buf' (nat pos) = 0 \<and>
    (\<forall>i\<ge>4. buf' i = 1)"
  using ksnprintf_safe [of "[37, 100]" "[VReg 123456]" 4 "\<lambda>_. 1"] by (auto simp: skip_l_def reg_conv_def)

end
