(* ===== verification/Syscall.thy ===== *)
theory Syscall
  imports Syscall_File Kprintf
begin

text \<open>
  The remaining system calls and the dispatcher, \<^verbatim>\<open>kernel/syscall.c\<close>, with the handler of exceptions from user mode
  (\<^verbatim>\<open>kernel/exception.c\<close>). What the kernel gets from outside is a parameter: the addresses the linker chooses, the initial archive, the
  clock, the date of the build.
\<close>

subsection \<open>Reading directories\<close>

text \<open>A name in a directory entry: the bytes before a terminator, at most \<^verbatim>\<open>DIRSIZ\<close>.\<close>

definition entry_name :: "bytes \<Rightarrow> u8 list" where
  "entry_name de = takeWhile (\<lambda>c. c \<noteq> 0) (map (de_name de) [0..<DIRSIZ])"

text \<open>The search of \<^verbatim>\<open>sys_getcwd\<close> for the name of inode \<open>n\<close> in its parent directory.\<close>

partial_function (option) find_name :: "nat \<Rightarrow> u32 \<Rightarrow> u32 \<Rightarrow> bytes \<Rightarrow> 'a fs_st_scheme \<Rightarrow> (u8 list option \<times> 'a fs_st_scheme) option" where
  "find_name dp n off de s =
     (if off < isize (icache s dp) then
        do {
          (r, de, s) \<leftarrow> fs_readi dp de off (of_nat DIRENT_SIZE) s;
          if r \<noteq> int DIRENT_SIZE then Some (None, s)
          else if ucast (de_inum de) = n \<and> \<not> is_dot (de_name de) \<and> \<not> is_dotdot (de_name de) then Some (Some (entry_name de), s)
          else find_name dp n (off + of_nat DIRENT_SIZE) de s }
      else Some (None, s))"

text \<open>From a directory up to the root, at most \<open>k\<close> levels; the names are collected from the top down.\<close>

fun climb :: "nat \<Rightarrow> nat \<Rightarrow> u8 list list \<Rightarrow> 'a fs_st_scheme \<Rightarrow> (u8 list list option \<times> 'a fs_st_scheme) option" where
  "climb k ip names s =
     (if inum (icache s ip) \<noteq> ROOTINO \<and> k > 0 then
        do {
          s \<leftarrow> fs_ilock ip s;
          ((r, _), s) \<leftarrow> fs_dirlookup ip dotdot_name s;
          case r of
            None \<Rightarrow> do { s \<leftarrow> fs_iunlockput ip s; Some (None, s) }
          | Some up \<Rightarrow>
              do {
                s \<leftarrow> fs_ilock up (fs_iunlock ip s);
                (nm, s) \<leftarrow> find_name up (inum (icache s ip)) 0 (\<lambda>_. 0) s;
                s \<leftarrow> fs_iput ip (fs_iunlock up s);
                case nm of
                  None \<Rightarrow> do { s \<leftarrow> fs_iput up s; Some (None, s) }
                | Some nm \<Rightarrow> climb (k - 1) up (nm # names) s } }
      else do { s \<leftarrow> fs_iput ip s; Some (Some names, s) })"

declare climb.simps [simp del]

text \<open>The bytes written to the user's buffer, from position \<open>pos\<close> on, and whether the path fitted.\<close>

fun put_chars :: "u8 list \<Rightarrow> nat \<Rightarrow> nat \<Rightarrow> bool \<times> u8 list" where
  "put_chars [] pos n = (True, [])"
| "put_chars (c # cs) pos n =
     (if pos + 1 \<ge> n then (False, [])
      else let (ok, out) = put_chars cs (pos + 1) n in (ok, c # out))"

fun put_path :: "u8 list list \<Rightarrow> nat \<Rightarrow> nat \<Rightarrow> bool \<times> u8 list" where
  "put_path [] pos n = (True, [])"
| "put_path (nm # nms) pos n =
     (let (ok, out) = put_chars nm (pos + 1) n in
      if \<not> ok then (False, SLASH # out)
      else let (ok, rest) = put_path nms (pos + 1 + length nm) n in (ok, SLASH # out @ rest))"

definition cwd_bytes :: "u8 list list \<Rightarrow> nat \<Rightarrow> bool \<times> u8 list" where
  "cwd_bytes names n = (if names = [] then (True, [SLASH]) else put_path names 0 n)"

definition sys_getcwd :: "u64 \<Rightarrow> u64 \<Rightarrow> 'a file_st_scheme \<Rightarrow> (int \<times> 'a file_st_scheme) option" where
  "sys_getcwd buf len s =
     (if len < 2 then Some (-EINVAL, s)
      else do {
        ok \<leftarrow> valid_buf buf len True s;
        if \<not> ok then Some (-EFAULT, s)
        else do {
          p \<leftarrow> cur s;
          d \<leftarrow> cwd p;
          let (ip, s) = fs_idup d s;
          (r, s) \<leftarrow> climb 16 ip [] s;
          case r of
            None \<Rightarrow> Some (-EIO, s)
          | Some names \<Rightarrow>
              (case cwd_bytes names (unat len) of
                 (False, out) \<Rightarrow> do { s \<leftarrow> put_user buf out s; Some (-EINVAL, s) }
               | (True, out) \<Rightarrow> do { s \<leftarrow> put_user buf (out @ [0]) s; Some (int (length out), s) }) } })"

text \<open>A \<^verbatim>\<open>struct linux_dirent\<close>: two 8-byte fields, a 2-byte length and the name with its terminator, rounded up to 8 bytes. The
  padding is not written.\<close>

definition dirent_len :: "nat \<Rightarrow> nat" where
  "dirent_len namelen = (8 * 2 + 2 + namelen + 1 + 7) div 8 * 8"

definition dirent_bytes :: "u16 \<Rightarrow> u32 \<Rightarrow> u8 list \<Rightarrow> u8 list" where
  "dirent_bytes n off nm = le_bytes 8 (ucast n) @ le_bytes 8 (ucast off) @ le_bytes 2 (of_nat (dirent_len (length nm))) @ nm @ [0]"

partial_function (option) getdents_loop :: "nat \<Rightarrow> nat \<Rightarrow> u64 \<Rightarrow> u32 \<Rightarrow> u32 \<Rightarrow> bytes \<Rightarrow> 'a file_st_scheme \<Rightarrow> (u32 \<times> 'a file_st_scheme) option" where
  "getdents_loop f ip buf bpos count de s =
     (if foff (ftable s f) < isize (icache s ip) \<and> bpos < count then
        do {
          (r, de, s) \<leftarrow> fs_readi ip de (foff (ftable s f)) (of_nat DIRENT_SIZE) s;
          if r \<noteq> int DIRENT_SIZE then Some (bpos, s)
          else do {
            let s = upd_file f (\<lambda>f. f\<lparr>foff := foff f + of_nat DIRENT_SIZE\<rparr>) s;
            if de_inum de = 0 then getdents_loop f ip buf bpos count de s
            else
              let nm = entry_name de; reclen = of_nat (dirent_len (length nm)) in
              if bpos + reclen > count then Some (bpos, upd_file f (\<lambda>f. f\<lparr>foff := foff f - of_nat DIRENT_SIZE\<rparr>) s)
              else do {
                s \<leftarrow> put_user (buf + ucast bpos) (dirent_bytes (de_inum de) (foff (ftable s f)) nm) s;
                getdents_loop f ip buf (bpos + reclen) count de s } } }
      else Some (bpos, s))"

definition sys_getdents :: "int \<Rightarrow> u64 \<Rightarrow> u32 \<Rightarrow> 'a file_st_scheme \<Rightarrow> (int \<times> 'a file_st_scheme) option" where
  "sys_getdents fd buf count s =
     do {
       f \<leftarrow> fd_file fd s;
       case f of
         None \<Rightarrow> Some (-EBADF, s)
       | Some f \<Rightarrow>
           if ftype (ftable s f) \<noteq> FD_INODE then Some (-EBADF, s)
           else do {
             ok \<leftarrow> valid_buf buf (ucast count) True s;
             if \<not> ok then Some (-EFAULT, s)
             else do {
               ip \<leftarrow> fip (ftable s f);
               s \<leftarrow> fs_ilock ip s;
               if itype (icache s ip) \<noteq> T_DIR then Some (-ENOTDIR, fs_iunlock ip s)
               else do {
                 (bpos, s) \<leftarrow> getdents_loop f ip buf 0 count (\<lambda>_. 0) s;
                 Some (uint bpos, fs_iunlock ip s) } } } }"

subsection \<open>Renaming\<close>

text \<open>The sleep lock \<^verbatim>\<open>rename_lock\<close> among the kernel's locks.\<close>

definition rename_lock :: nat where "rename_lock = 0"

text \<open>The walk from the new parent to the root, looking for the directory that is moved: \<open>True\<close> if it is not found. (Each
  directory on the way is released.)\<close>

partial_function (option) no_cycle :: "nat \<Rightarrow> nat \<Rightarrow> 'a fs_st_scheme \<Rightarrow> (bool \<times> 'a fs_st_scheme) option" where
  "no_cycle ip check s =
     (if inum (icache s check) \<noteq> ROOTINO then
        if inum (icache s check) = inum (icache s ip) then do { s \<leftarrow> fs_iput check s; Some (False, s) }
        else do {
          s \<leftarrow> fs_ilock check s;
          ((r, _), s) \<leftarrow> fs_dirlookup check dotdot_name s;
          s \<leftarrow> fs_iunlockput check s;
          case r of None \<Rightarrow> Some (False, s) | Some up \<Rightarrow> no_cycle ip up s }
      else do { s \<leftarrow> fs_iput check s; Some (True, s) })"

text \<open>Link the inode under its new name, replacing a file that has it; \<open>False\<close> for the label \<^verbatim>\<open>fail\<close>.\<close>

definition rename_link :: "nat \<Rightarrow> nat \<Rightarrow> bytes \<Rightarrow> bool \<Rightarrow> 'a file_st_scheme \<Rightarrow> (bool \<times> 'a file_st_scheme) option" where
  "rename_link ip new_dp newname is_dir s =
     do {
       s \<leftarrow> fs_ilock new_dp s;
       ((r, off), s) \<leftarrow> fs_dirlookup new_dp newname s;
       (ok, s) \<leftarrow>
         (case (r, off) of
            (Some existing, Some off) \<Rightarrow>
              do {
                s \<leftarrow> fs_ilock existing s;
                if itype (icache s existing) = T_DIR then
                  do { s \<leftarrow> fs_iunlockput existing s; s \<leftarrow> fs_iunlockput new_dp s; Some (False, s) }
                else do {
                  (_, s) \<leftarrow> clear_entry new_dp off s;
                  s \<leftarrow> add_nlink existing (-1) s;
                  s \<leftarrow> fs_iunlockput existing s;
                  Some (True, s) } }
          | _ \<Rightarrow> Some (True, s));
       if \<not> ok then Some (False, s)
       else do {
         (r, s) \<leftarrow> (if idev (icache s new_dp) \<noteq> idev (icache s ip) then Some (-1, s)
                    else fs_dirlink new_dp newname (inum (icache s ip)) s);
         if r < 0 then do { s \<leftarrow> fs_iunlockput new_dp s; Some (False, s) }
         else do {
           s \<leftarrow> (if is_dir then add_nlink new_dp 1 s else Some s);
           s \<leftarrow> fs_iunlockput new_dp s;
           Some (True, s) } } }"

text \<open>Remove the old name; \<open>False\<close> when it is gone or names something else.\<close>

definition rename_unlink :: "nat \<Rightarrow> u8 list \<Rightarrow> bool \<Rightarrow> 'a file_st_scheme \<Rightarrow> (bool \<times> 'a file_st_scheme) option" where
  "rename_unlink ip kold is_dir s =
     do {
       ((r, oldname), s) \<leftarrow> fs_nameiparent kold (\<lambda>_. 0) s;
       case r of
         None \<Rightarrow> do { s \<leftarrow> fs_iput ip s; Some (False, s) }
       | Some old_dp \<Rightarrow>
           do {
             s \<leftarrow> fs_ilock old_dp s;
             ((r, off), s) \<leftarrow> fs_dirlookup old_dp oldname s;
             case (r, off) of
               (Some check, Some off) \<Rightarrow>
                 if inum (icache s check) \<noteq> inum (icache s ip) then
                   do { s \<leftarrow> fs_iput check s; s \<leftarrow> fs_iunlockput old_dp s; s \<leftarrow> fs_iput ip s; Some (False, s) }
                 else do {
                   s \<leftarrow> fs_iput check s;
                   (_, s) \<leftarrow> clear_entry old_dp off s;
                   s \<leftarrow> (if is_dir then add_nlink old_dp (-1) s else Some s);
                   s \<leftarrow> fs_iunlockput old_dp s;
                   Some (True, s) }
             | _ \<Rightarrow> do { s \<leftarrow> fs_iunlockput old_dp s; s \<leftarrow> fs_iput ip s; Some (False, s) } } }"

text \<open>Point the entry \<^verbatim>\<open>..\<close> of a moved directory to its new parent.\<close>

partial_function (option) set_dotdot :: "nat \<Rightarrow> u32 \<Rightarrow> u32 \<Rightarrow> bytes \<Rightarrow> 'a fs_st_scheme \<Rightarrow> 'a fs_st_scheme option" where
  "set_dotdot ip n off de s =
     (if off < isize (icache s ip) then
        do {
          (r, de, s) \<leftarrow> fs_readi ip de off (of_nat DIRENT_SIZE) s;
          if r \<noteq> int DIRENT_SIZE then Some s
          else if is_dotdot (de_name de) then
            do { (_, s) \<leftarrow> fs_writei ip (put16 0 (ucast n) de) off (of_nat DIRENT_SIZE) s; Some s }
          else set_dotdot ip n (off + of_nat DIRENT_SIZE) de s }
      else Some s)"

text \<open>What happens under the lock.\<close>

definition do_rename :: "u8 list \<Rightarrow> u8 list \<Rightarrow> 'a file_st_scheme \<Rightarrow> (int \<times> 'a file_st_scheme) option" where
  "do_rename kold knew s =
     do {
       (r, s) \<leftarrow> fs_namei kold s;
       case r of
         None \<Rightarrow> Some (-ENOENT, s)
       | Some ip \<Rightarrow>
           do {
             s \<leftarrow> fs_ilock ip s;
             let is_dir = (itype (icache s ip) = T_DIR);
             s \<leftarrow> add_nlink ip 1 s;
             let s = fs_iunlock ip s;
             ((r, newname), s) \<leftarrow> fs_nameiparent knew (\<lambda>_. 0) s;
             case r of
               None \<Rightarrow> do { s \<leftarrow> drop_link ip s; Some (-EINVAL, s) }
             | Some new_dp \<Rightarrow>
                 do {
                   (ok, s) \<leftarrow> (if is_dir then (let (check, s) = fs_idup new_dp s in no_cycle ip check s) else Some (True, s));
                   if \<not> ok then do { s \<leftarrow> fs_iput new_dp s; s \<leftarrow> drop_link ip s; Some (-EINVAL, s) }
                   else do {
                     let new_parent_inum = inum (icache s new_dp);
                     (ok, s) \<leftarrow> rename_link ip new_dp newname is_dir s;
                     if \<not> ok then do { s \<leftarrow> drop_link ip s; Some (-EINVAL, s) }
                     else do {
                       (ok, s) \<leftarrow> rename_unlink ip kold is_dir s;
                       if \<not> ok then Some (-ENOENT, s)
                       else do {
                         s \<leftarrow> (if is_dir then
                                 do { s \<leftarrow> fs_ilock ip s; s \<leftarrow> set_dotdot ip new_parent_inum 0 (\<lambda>_. 0) s; Some (fs_iunlock ip s) }
                               else Some s);
                         s \<leftarrow> drop_link ip s;
                         Some (0, s) } } } } } }"

definition sys_rename :: "u64 \<Rightarrow> u64 \<Rightarrow> 'a file_schedule \<Rightarrow> 'a file_st_scheme \<Rightarrow> (int \<times> 'a file_st_scheme \<times> 'a file_schedule) option" where
  "sys_rename oldpath newpath es s =
     do {
       c1 \<leftarrow> copyinstr oldpath 128 s;
       c2 \<leftarrow> (if c1 = None then Some None else copyinstr newpath 128 s);
       case (c1, c2) of
         (Some kold, Some knew) \<Rightarrow>
           do {
             (s, es) \<leftarrow> sleep_lock rename_lock es s;
             (r, s) \<leftarrow> do_rename kold knew s;
             s \<leftarrow> sleep_unlock rename_lock s;
             Some (r, s, es) }
       | _ \<Rightarrow> Some (-EFAULT, s, es) }"

subsection \<open>Names and the clock\<close>

definition ascii :: "string \<Rightarrow> u8 list" where "ascii cs = map of_char cs"

text \<open>What comes from outside this code: uninitialised stack contents, the address of \<^verbatim>\<open>usertrap_first\<close>, the initial archive, the value
  of the clock's register, the date of the build, and whether the firmware returns from a call.\<close>

record sys_env =
  stack_junk :: bytes
  usertrap_first :: u64
  archive :: initramfs_st
  clock :: int
  build_date :: "u8 list"
  firmware_returns :: "u64 \<Rightarrow> bool"

definition PSCI_SYSTEM_OFF :: u64 where "PSCI_SYSTEM_OFF = 0x84000008"
definition PSCI_SYSTEM_RESET :: u64 where "PSCI_SYSTEM_RESET = 0x84000009"

definition psci_call :: "sys_env \<Rightarrow> u64 \<Rightarrow> 's \<Rightarrow> (int \<times> 's) option" where
  "psci_call env f s = (if firmware_returns env f then Some (0, s) else None)"

text \<open>\<^verbatim>\<open>strncpy\<close> into a field of 32 zero bytes.\<close>

definition field32 :: "u8 list \<Rightarrow> u8 list" where
  "field32 cs = take 32 (cs @ replicate 32 0)"

definition sys_uname :: "sys_env \<Rightarrow> u64 \<Rightarrow> 'a kst_scheme \<Rightarrow> (int \<times> 'a kst_scheme) option" where
  "sys_uname env buf s =
     do {
       ok \<leftarrow> valid_buf buf 160 True s;
       if \<not> ok then Some (-EFAULT, s)
       else do {
         s \<leftarrow> put_user buf (field32 (ascii ''Slopix'') @ field32 (ascii ''slopix'') @ field32 (ascii ''0.1.0'') @
                field32 (build_date env) @ field32 (ascii ''aarch64'')) s;
         Some (0, s) } }"

subsection \<open>The dispatcher\<close>

definition SYS_write :: u64 where "SYS_write = 0"
definition SYS_exit :: u64 where "SYS_exit = 1"
definition SYS_read :: u64 where "SYS_read = 2"
definition SYS_sleep :: u64 where "SYS_sleep = 3"
definition SYS_getpid :: u64 where "SYS_getpid = 4"
definition SYS_fork :: u64 where "SYS_fork = 5"
definition SYS_wait :: u64 where "SYS_wait = 6"
definition SYS_exec :: u64 where "SYS_exec = 7"
definition SYS_poll :: u64 where "SYS_poll = 8"
definition SYS_poweroff :: u64 where "SYS_poweroff = 9"
definition SYS_sbrk :: u64 where "SYS_sbrk = 10"
definition SYS_open :: u64 where "SYS_open = 11"
definition SYS_close :: u64 where "SYS_close = 12"
definition SYS_fstat :: u64 where "SYS_fstat = 13"
definition SYS_dup :: u64 where "SYS_dup = 14"
definition SYS_mkdir :: u64 where "SYS_mkdir = 15"
definition SYS_mknod :: u64 where "SYS_mknod = 16"
definition SYS_link :: u64 where "SYS_link = 17"
definition SYS_unlink :: u64 where "SYS_unlink = 18"
definition SYS_chdir :: u64 where "SYS_chdir = 19"
definition SYS_pipe :: u64 where "SYS_pipe = 20"
definition SYS_stat :: u64 where "SYS_stat = 21"
definition SYS_getcwd :: u64 where "SYS_getcwd = 22"
definition SYS_lseek :: u64 where "SYS_lseek = 23"
definition SYS_rename :: u64 where "SYS_rename = 24"
definition SYS_mmap :: u64 where "SYS_mmap = 25"
definition SYS_munmap :: u64 where "SYS_munmap = 26"
definition SYS_kill :: u64 where "SYS_kill = 27"
definition SYS_getprocs :: u64 where "SYS_getprocs = 28"
definition SYS_getppid :: u64 where "SYS_getppid = 29"
definition SYS_waitpid :: u64 where "SYS_waitpid = 30"
definition SYS_setpgid :: u64 where "SYS_setpgid = 31"
definition SYS_getpgid :: u64 where "SYS_getpgid = 32"
definition SYS_tcsetpgrp :: u64 where "SYS_tcsetpgrp = 33"
definition SYS_tcgetpgrp :: u64 where "SYS_tcgetpgrp = 34"
definition SYS_tcsetraw :: u64 where "SYS_tcsetraw = 35"
definition SYS_tcgetraw :: u64 where "SYS_tcgetraw = 36"
definition SYS_ftruncate :: u64 where "SYS_ftruncate = 37"
definition SYS_getdents :: u64 where "SYS_getdents = 38"
definition SYS_reboot :: u64 where "SYS_reboot = 39"
definition SYS_uname :: u64 where "SYS_uname = 40"
definition SYS_time :: u64 where "SYS_time = 41"

text \<open>A handler that does not sleep.\<close>

definition quick :: "(int \<times> 's) option \<Rightarrow> 'e \<Rightarrow> (int \<times> 's \<times> 'e) option" where
  "quick x es = do { (r, s) \<leftarrow> x; Some (r, s, es) }"

definition pure_ret :: "int option \<Rightarrow> 'e \<Rightarrow> 's \<Rightarrow> (int \<times> 's \<times> 'e) option" where
  "pure_ret x es s = do { r \<leftarrow> x; Some (r, s, es) }"

definition syscall_ret :: "sys_env \<Rightarrow> (nat \<Rightarrow> u64) \<Rightarrow> 'a file_schedule \<Rightarrow> 'a file_st_scheme \<Rightarrow> (int \<times> 'a file_st_scheme \<times> 'a file_schedule) option" where
  "syscall_ret env regs es s =
     (let num = regs 8; a0 = regs 0; a1 = regs 1; a2 = regs 2; a3 = regs 3; i0 = int_of_u64 a0; i1 = int_of_u64 a1; i2 = int_of_u64 a2 in
      if num = SYS_write then sys_write (stack_junk env) i0 a1 a2 es s
      else if num = SYS_exit then sys_exit i0 es s
      else if num = SYS_read then sys_read (stack_junk env) i0 a1 a2 es s
      else if num = SYS_sleep then sys_sleep a0 es s
      else if num = SYS_getpid then pure_ret (sys_getpid s) es s
      else if num = SYS_exec then quick (sys_exec (archive env) a0 s) es
      else if num = SYS_fork then quick (sys_fork (usertrap_first env) s) es
      else if num = SYS_wait then sys_wait es s
      else if num = SYS_poll then sys_poll i0 (sint a1) es s
      else if num = SYS_poweroff then quick (psci_call env PSCI_SYSTEM_OFF s) es
      else if num = SYS_sbrk then quick (sys_sbrk (sint a0) s) es
      else if num = SYS_open then quick (sys_open a0 (ucast a1) s) es
      else if num = SYS_close then quick (sys_close i0 s) es
      else if num = SYS_fstat then quick (sys_fstat i0 a1 s) es
      else if num = SYS_dup then quick (sys_dup i0 s) es
      else if num = SYS_mkdir then quick (sys_mkdir a0 s) es
      else if num = SYS_mknod then quick (sys_mknod a0 i1 i2 s) es
      else if num = SYS_link then quick (sys_link a0 a1 s) es
      else if num = SYS_unlink then quick (sys_unlink a0 s) es
      else if num = SYS_chdir then quick (sys_chdir a0 s) es
      else if num = SYS_pipe then quick (sys_pipe a0 s) es
      else if num = SYS_stat then quick (sys_stat a0 a1 s) es
      else if num = SYS_getcwd then quick (sys_getcwd a0 a1 s) es
      else if num = SYS_lseek then quick (sys_lseek i0 (sint a1) i2 s) es
      else if num = SYS_rename then sys_rename a0 a1 es s
      else if num = SYS_mmap then quick (sys_mmap a0 a1 (ucast a2) (ucast a3) s) es
      else if num = SYS_munmap then quick (sys_munmap a0 a1 s) es
      else if num = SYS_kill then quick (Some (sys_kill i0 i1 s)) es
      else if num = SYS_getprocs then quick (sys_getprocs a0 i1 s) es
      else if num = SYS_getppid then pure_ret (sys_getppid s) es s
      else if num = SYS_waitpid then sys_waitpid i0 (ucast a1) es s
      else if num = SYS_setpgid then quick (proc_setpgid i0 i1 s) es
      else if num = SYS_getpgid then pure_ret (proc_getpgid i0 s) es s
      else if num = SYS_tcsetpgrp then quick (Some (sys_tcsetpgrp i1 s)) es
      else if num = SYS_tcgetpgrp then pure_ret (Some (console_get_fg_pgid s)) es s
      else if num = SYS_tcsetraw then quick (Some (sys_tcsetraw i0 i1 s)) es
      else if num = SYS_tcgetraw then pure_ret (Some (if console_get_raw s then 1 else 0)) es s
      else if num = SYS_ftruncate then quick (sys_ftruncate i0 (sint a1) s) es
      else if num = SYS_getdents then quick (sys_getdents i0 a1 (ucast a2) s) es
      else if num = SYS_reboot then quick (psci_call env PSCI_SYSTEM_RESET s) es
      else if num = SYS_uname then quick (sys_uname env a0 s) es
      else if num = SYS_time then pure_ret (Some (clock env)) es s
      else do { s \<leftarrow> kprintf (stack_junk env) (ascii ''Unknown syscall %lu'' @ [10]) [VReg num] s; Some (-1, s, es) })"

text \<open>The registers are read from the trap frame when the call begins, and the result is stored in it.\<close>

definition syscall :: "sys_env \<Rightarrow> u64 \<Rightarrow> 'a file_schedule \<Rightarrow> 'a file_st_scheme \<Rightarrow> ('a file_st_scheme \<times> 'a file_schedule) option" where
  "syscall env frame es s =
     do { (r, s, es) \<leftarrow> syscall_ret env (\<lambda>i. mem (kpmm s) (tf_word frame i)) es s;
          Some (set_mem (tf_word frame 0) (word_of_int r) s, es) }"

subsection \<open>Exceptions from user mode\<close>

definition ESR_EC :: "u64 \<Rightarrow> u64" where "ESR_EC esr = drop_bit 26 esr AND 0x3F"
definition ESR_ISS :: "u64 \<Rightarrow> u64" where "ESR_ISS esr = esr AND 0x1FFFFFF"

definition fault_status_string :: "u64 \<Rightarrow> u8 list" where
  "fault_status_string fsc =
     (let f = fsc AND 0x3F in
      if f = 0x00 then ascii ''Address size fault, L0''
      else if f = 0x01 then ascii ''Address size fault, L1''
      else if f = 0x02 then ascii ''Address size fault, L2''
      else if f = 0x03 then ascii ''Address size fault, L3''
      else if f = 0x04 then ascii ''Translation fault, L0''
      else if f = 0x05 then ascii ''Translation fault, L1''
      else if f = 0x06 then ascii ''Translation fault, L2''
      else if f = 0x07 then ascii ''Translation fault, L3''
      else if f = 0x09 then ascii ''Access flag fault, L1''
      else if f = 0x0A then ascii ''Access flag fault, L2''
      else if f = 0x0B then ascii ''Access flag fault, L3''
      else if f = 0x0D then ascii ''Permission fault, L1''
      else if f = 0x0E then ascii ''Permission fault, L2''
      else if f = 0x0F then ascii ''Permission fault, L3''
      else if f = 0x10 then ascii ''Synchronous external abort''
      else if f = 0x21 then ascii ''Alignment fault''
      else ascii ''Unknown fault'')"

definition proc_label :: "proc \<Rightarrow> va_arg list" where
  "proc_label p = [VReg (word_of_int (pid p)), VStr (Some (takeWhile (\<lambda>c. c \<noteq> 0) (map (pname p) [0..<16])))]"

text \<open>An abort is reported and kills the process.\<close>

definition user_abort :: "bytes \<Rightarrow> u8 list \<Rightarrow> va_arg list \<Rightarrow> u64 \<Rightarrow> u64 \<Rightarrow> u64 \<Rightarrow> 'a file_st_scheme \<Rightarrow> 'a file_st_scheme option" where
  "user_abort junk fmt lead elr far iss s =
     do {
       p \<leftarrow> cur s;
       s \<leftarrow> kprintf junk fmt (lead @ proc_label p @ [VReg elr]) s;
       s \<leftarrow> kprintf junk (ascii ''  FAR: 0x%lx, Fault: %s (0x%x)'' @ [10])
              [VReg far, VStr (Some (fault_status_string (iss AND 0x3F))), VReg (iss AND 0x3F)] s;
       upd_cur (\<lambda>p. p\<lparr>pending := pending p OR sigbit SIGKILL\<rparr>) s }"

definition sync_exception_handler_user ::
  "sys_env \<Rightarrow> u64 \<Rightarrow> u64 \<Rightarrow> u64 \<Rightarrow> 'a file_schedule \<Rightarrow> 'a file_st_scheme \<Rightarrow> ('a file_st_scheme \<times> 'a file_schedule) option" where
  "sync_exception_handler_user env esr far frame es s =
     (let ec = ESR_EC esr; iss = ESR_ISS esr; junk = stack_junk env; elr = mem (kpmm s) (tf_word frame 32) in
      do {
        (s, es) \<leftarrow>
          (if ec = 0x15 then do { (s, es) \<leftarrow> syscall env frame es s; proc_check_signals es s }
           else if ec = 0x20 then
             do { s \<leftarrow> user_abort junk (ascii ''USER INSTRUCTION ABORT (pid %d: %s) at 0x%lx'' @ [10]) [] elr far iss s; Some (s, es) }
           else if ec = 0x24 then
             do { s \<leftarrow> user_abort junk (ascii ''USER DATA ABORT (%s, pid %d: %s) at 0x%lx'' @ [10])
                         [VStr (Some (if iss AND 0x40 \<noteq> 0 then ascii ''write'' else ascii ''read''))] elr far iss s; Some (s, es) }
           else
             do {
               p \<leftarrow> cur s;
               s \<leftarrow> kprintf junk (ascii ''UNHANDLED USER EXCEPTION (pid %d: %s): EC=0x%x, ISS=0x%x, ELR=0x%lx'' @ [10])
                      (proc_label p @ [VReg ec, VReg iss, VReg elr]) s;
               s \<leftarrow> upd_cur (\<lambda>p. p\<lparr>pending := pending p OR sigbit SIGKILL\<rparr>) s;
               Some (s, es) });
        p \<leftarrow> cur s;
        if is_pending (pending p) SIGKILL then proc_cleanup (-1) es s else Some (s, es) })"

text \<open>An exception in the kernel itself: all but two kinds stop it.\<close>

definition sync_exception_handler :: "bytes \<Rightarrow> u64 \<Rightarrow> u64 \<Rightarrow> 'a file_st_scheme \<Rightarrow> 'a file_st_scheme option" where
  "sync_exception_handler junk esr frame s =
     (let ec = ESR_EC esr; iss = ESR_ISS esr; elr = mem (kpmm s) (tf_word frame 32) in
      if ec = 0 then
        do { s \<leftarrow> kprintf junk (ascii ''UNDEFINED INSTRUCTION at 0x%lx'' @ [10]) [VReg elr] s;
             Some (set_mem (tf_word frame 32) (elr + 4) s) }
      else if ec = 0x15 then kprintf junk (ascii ''SVC #%d at 0x%lx'' @ [10]) [VReg (iss AND 0xFFFF), VReg elr] s
      else None)"

text \<open>The interrupt handler; \<open>intid\<close> is the number the interrupt controller reports (1023 for a spurious one).\<close>

definition virtio_intr :: "'a kst_scheme \<Rightarrow> 'a kst_scheme" where
  "virtio_intr s = proc_wakeup ChVirtio s"

definition irq_handler :: "bytes \<Rightarrow> u32 \<Rightarrow> 'a file_schedule \<Rightarrow> 'a file_st_scheme \<Rightarrow> ('a file_st_scheme \<times> 'a file_schedule) option" where
  "irq_handler junk intid es s =
     (if intid = 30 then timer_handler es s
      else if intid = 33 then Some (uart_irq_handler s, es)
      else if intid = 79 then Some (virtio_intr s, es)
      else if intid \<noteq> 1023 then do { s \<leftarrow> kprintf junk (ascii ''Unhandled IRQ: %u'' @ [10]) [VReg (ucast intid)] s; Some (s, es) }
      else Some (s, es))"

subsection \<open>The first process\<close>

text \<open>\<^verbatim>\<open>init\<close> of \<^verbatim>\<open>kernel/init.c\<close>; a call of \<^verbatim>\<open>kpanic\<close> stops the kernel.\<close>

fun init_stack :: "u64 \<Rightarrow> nat list \<Rightarrow> pmm \<Rightarrow> pmm option" where
  "init_stack pt [] m = Some m"
| "init_stack pt (i # is) m =
     (let (pa, m) = pmm_alloc m in
      if pa = PMM_INVALID then None
      else do {
        (r, m) \<leftarrow> vmm_map_page pt (USER_STACK - of_nat (i + 1) * PAGE_SIZE) pa True False m;
        if r < 0 then None else init_stack pt is m })"

text \<open>Descriptor \<open>fd\<close> of process \<open>i\<close> becomes the console, if a file entry is free.\<close>

definition open_console :: "nat \<Rightarrow> nat \<Rightarrow> bool \<Rightarrow> 'a file_st_scheme \<Rightarrow> 'a file_st_scheme" where
  "open_console i fd input s =
     (let (f, s) = filealloc s in
      case f of
        None \<Rightarrow> s
      | Some f \<Rightarrow>
          let s = upd_file f (\<lambda>x. x\<lparr>ftype := FD_DEVICE, fmajor := CONSOLE, readable := input, writable := \<not> input\<rparr>) s
          in upd_proc i (\<lambda>p. p\<lparr>ofile := (ofile p)(fd \<mapsto> f)\<rparr>) s)"

definition init_process :: "nat \<Rightarrow> 'a file_st_scheme \<Rightarrow> 'a file_st_scheme option" where
  "init_process i s =
     (case fs_iget 0 ROOTINO s of
        (None, s) \<Rightarrow> None
      | (Some root, s) \<Rightarrow>
          do {
            s \<leftarrow> fs_ilock root s;
            let s = upd_proc i (\<lambda>p. p\<lparr>cwd := Some root\<rparr>) (fs_iunlock root s);
            Some (open_console i 2 False (open_console i 1 False (open_console i 0 True s))) })"

definition init :: "sys_env \<Rightarrow> u8 list \<Rightarrow> 'a file_st_scheme \<Rightarrow> 'a file_st_scheme option" where
  "init env program s =
     (let (pt, m) = vmm_create (kpmm s); s = s\<lparr>kpmm := m\<rparr> in
      if pt = 0 then None
      else do {
        ((entry, brk), s) \<leftarrow>
          (if take 10 program = initramfs_prefix then
             do {
               (r, e) \<leftarrow> initramfs_find (with_string (drop 10 program) (mem (kpmm s))) (archive env) (2 ^ 64)
                          \<lparr>ename = 0, edata = 0, esize = 0\<rparr>;
               if r < 0 then None
               else do {
                 (r, out, s) \<leftarrow> elf_load (of_nat (edata e)) (ucast (esize e)) pt (0, 0) s;
                 if r < 0 then None else Some (out, s) } }
           else if program \<noteq> [] \<and> hd program = SLASH then
             do {
               (r, s) \<leftarrow> fs_namei (take 127 program) s;
               ip \<leftarrow> r;
               s \<leftarrow> fs_ilock ip s;
               if itype (icache s ip) \<noteq> T_FILE then None
               else do {
                 (r, out, s) \<leftarrow> elf_load_from_inode ip pt (0, 0) s;
                 if r < 0 then None else do { s \<leftarrow> fs_iunlockput ip s; Some (out, s) } } }
           else None);
        m \<leftarrow> init_stack pt [0..<USER_STACK_PAGES] (kpmm s);
        (child, s) \<leftarrow> proc_create_user (usertrap_first env) pt entry USER_STACK brk (s\<lparr>kpmm := m\<rparr>);
        if child < 0 then None
        else case find_proc (\<lambda>p. pid p = child) s of None \<Rightarrow> Some s | Some i \<Rightarrow> init_process i s })"

end
