(* ===== verification/Libc_Malloc.thy ===== *)
theory Libc_Malloc
  imports Vmm
begin

text \<open>
  The allocator of the C library, \<^verbatim>\<open>libc/malloc.c\<close>: a first-fit list of free blocks, each with a 32-byte header. The memory of the
  process is a function on 64-bit words, read and written by bytes through \<open>load8\<close> and \<open>store8\<close>. Whether the kernel grants a larger
  heap is the parameter \<open>grant\<close>; the arithmetic of \<^verbatim>\<open>sys_sbrk\<close> is part of the model.
\<close>

subsection \<open>The program\<close>

record heap_st =
  hmem :: "u64 \<Rightarrow> u64"
  free_list :: u64
  brk :: u64

definition FLAG_FREE :: u64 where "FLAG_FREE = 1"
definition HEADER_SIZE :: u64 where "HEADER_SIZE = 32"
definition MIN_ALLOC :: u64 where "MIN_ALLOC = 16"
definition ALIGN_UP :: "u64 \<Rightarrow> u64" where "ALIGN_UP x = (x + 15) AND NOT 15"

text \<open>The fields of \<^verbatim>\<open>struct block_header\<close>.\<close>

definition bsize :: "heap_st \<Rightarrow> u64 \<Rightarrow> u64" where "bsize h a = hmem h a"
definition bnext :: "heap_st \<Rightarrow> u64 \<Rightarrow> u64" where "bnext h a = hmem h (a + 8)"
definition bflags :: "heap_st \<Rightarrow> u64 \<Rightarrow> u64" where "bflags h a = hmem h (a + 16)"

definition set_word :: "u64 \<Rightarrow> u64 \<Rightarrow> heap_st \<Rightarrow> heap_st" where
  "set_word a v h = h\<lparr>hmem := (hmem h)(a := v)\<rparr>"

text \<open>A break that shrinks past zero is refused, one that grows needs the kernel's memory; -1 is the error value.\<close>

definition sbrk :: "(int \<Rightarrow> heap_st \<Rightarrow> bool) \<Rightarrow> int \<Rightarrow> heap_st \<Rightarrow> u64 \<times> heap_st" where
  "sbrk grant n h =
     (let new = brk h + word_of_int n in
      if n < 0 \<and> new > brk h \<or> n > 0 \<and> \<not> grant n h then (-1, h) else (brk h, h\<lparr>brk := new\<rparr>))"

definition split_block :: "u64 \<Rightarrow> u64 \<Rightarrow> heap_st \<Rightarrow> heap_st" where
  "split_block n blk h =
     (let new_block = blk + HEADER_SIZE + n;
          h = set_word new_block (bsize h blk - n - HEADER_SIZE) h;
          h = set_word (new_block + 8) (bnext h blk) h;
          h = set_word (new_block + 16) FLAG_FREE h;
          h = set_word blk n h
      in set_word (blk + 8) new_block h)"

definition take_block :: "u64 \<Rightarrow> u64 \<Rightarrow> u64 \<Rightarrow> heap_st \<Rightarrow> heap_st" where
  "take_block n prev blk h =
     (let h = (if bsize h blk \<ge> n + HEADER_SIZE + MIN_ALLOC then split_block n blk h else h);
          h = (if prev \<noteq> 0 then set_word (prev + 8) (bnext h blk) h else h\<lparr>free_list := bnext h blk\<rparr>);
          h = set_word (blk + 16) (bflags h blk AND NOT FLAG_FREE) h
      in set_word (blk + 8) 0 h)"

partial_function (option) malloc_loop :: "u64 \<Rightarrow> u64 \<Rightarrow> u64 \<Rightarrow> heap_st \<Rightarrow> (u64 option \<times> heap_st) option" where
  "malloc_loop n prev blk h =
     (if blk \<noteq> 0 then
        if bflags h blk AND FLAG_FREE \<noteq> 0 \<and> bsize h blk \<ge> n then Some (Some (blk + HEADER_SIZE), take_block n prev blk h)
        else malloc_loop n blk (bnext h blk) h
      else Some (None, h))"

definition request :: "u64 \<Rightarrow> u64" where
  "request n = (let n = ALIGN_UP n in if n < MIN_ALLOC then MIN_ALLOC else n)"

definition malloc :: "(int \<Rightarrow> heap_st \<Rightarrow> bool) \<Rightarrow> u64 \<Rightarrow> heap_st \<Rightarrow> (u64 \<times> heap_st) option" where
  "malloc grant n h =
     (if n = 0 then Some (0, h)
      else
        let n = request n in
        do {
          (r, h) \<leftarrow> malloc_loop n 0 (free_list h) h;
          case r of
            Some p \<Rightarrow> Some (p, h)
          | None \<Rightarrow>
              let (block, h) = sbrk grant (sint (HEADER_SIZE + n)) h in
              if block = -1 then Some (0, h)
              else Some (block + HEADER_SIZE, set_word (block + 16) 0 (set_word (block + 8) 0 (set_word block n h))) })"

definition free :: "u64 \<Rightarrow> heap_st \<Rightarrow> heap_st" where
  "free ptr h =
     (if ptr = 0 then h
      else let block = ptr - HEADER_SIZE;
               h = set_word (block + 16) (bflags h block OR FLAG_FREE) h;
               h = set_word (block + 8) (free_list h) h
           in h\<lparr>free_list := block\<rparr>)"

definition memset_heap :: "u64 \<Rightarrow> u8 \<Rightarrow> u64 \<Rightarrow> heap_st \<Rightarrow> heap_st" where
  "memset_heap p c n h = h\<lparr>hmem := fold (\<lambda>i m. store8 m (p + of_nat i) c) [0..<unat n] (hmem h)\<rparr>"

definition memcpy_heap :: "u64 \<Rightarrow> u64 \<Rightarrow> u64 \<Rightarrow> heap_st \<Rightarrow> heap_st" where
  "memcpy_heap dest src n h = h\<lparr>hmem := fold (\<lambda>i m. store8 m (dest + of_nat i) (load8 m (src + of_nat i))) [0..<unat n] (hmem h)\<rparr>"

definition calloc :: "(int \<Rightarrow> heap_st \<Rightarrow> bool) \<Rightarrow> u64 \<Rightarrow> u64 \<Rightarrow> heap_st \<Rightarrow> (u64 \<times> heap_st) option" where
  "calloc grant count n h =
     (if count = 0 \<or> n = 0 then Some (0, h)
      else if count > (-1) div n then Some (0, h)
      else do {
        (ptr, h) \<leftarrow> malloc grant (count * n) h;
        Some (ptr, if ptr \<noteq> 0 then memset_heap ptr 0 (count * n) h else h) })"

definition realloc :: "(int \<Rightarrow> heap_st \<Rightarrow> bool) \<Rightarrow> u64 \<Rightarrow> u64 \<Rightarrow> heap_st \<Rightarrow> (u64 \<times> heap_st) option" where
  "realloc grant ptr n h =
     (if ptr = 0 then malloc grant n h
      else if n = 0 then Some (0, free ptr h)
      else
        let block = ptr - HEADER_SIZE; old_size = bsize h block; n = request n in
        if old_size \<ge> n then Some (ptr, set_word block n h)
        else do {
          (new_ptr, h) \<leftarrow> malloc grant n h;
          if new_ptr = 0 then Some (0, h)
          else Some (new_ptr, free ptr (memcpy_heap new_ptr ptr old_size h)) })"

subsection \<open>Free list\<close>

text \<open>A links of non-null addresses from \<open>p\<close> to \<open>q\<close>.\<close>

primrec links :: "(u64 \<Rightarrow> u64) \<Rightarrow> u64 \<Rightarrow> u64 list \<Rightarrow> u64 \<Rightarrow> bool" where
  "links nx p [] q \<longleftrightarrow> p = q"
| "links nx p (a # as) q \<longleftrightarrow> p = a \<and> a \<noteq> 0 \<and> links nx (nx a) as q"

lemma links_append: "links nx p (as @ bs) q \<longleftrightarrow> (\<exists>r. links nx p as r \<and> links nx r bs q)"
  by (induction as arbitrary: p) auto

lemma links_cong: "(\<And>a. a \<in> set as \<Longrightarrow> nx' a = nx a) \<Longrightarrow> links nx' p as q = links nx p as q"
  by (induction as arbitrary: p) auto

text \<open>Taking \<open>a\<close> out of a links, with \<open>mid\<close> in its place.\<close>

lemma links_replace:
  assumes "links nx p (pre @ a # post) 0" and "distinct (pre @ a # post)"
    and "\<And>b. b \<in> set (pre @ post) \<Longrightarrow> b \<noteq> last pre \<or> pre = [] \<Longrightarrow> nx' b = nx b"
    and "pre \<noteq> [] \<Longrightarrow> nx' (last pre) = r"
    and "links nx' r mid (nx a)"
  shows "links nx' (if pre = [] then r else p) (pre @ mid @ post) 0"
proof -
  have post: "links nx (nx a) post 0" using assms(1) by (auto simp: links_append)
  have "nx' b = nx b" if "b \<in> set post" for b
  proof (rule assms(3))
    show "b \<noteq> last pre \<or> pre = []"
    proof (cases "pre = []")
      case False
      then have "last pre \<in> set pre" by simp
      then show ?thesis using assms(2) that by auto
    qed simp
  qed (use that in simp)
  then have post': "links nx' (nx a) post 0" using post links_cong [of post nx' nx "nx a" 0] by simp
  show ?thesis
  proof (cases pre rule: rev_cases)
    case Nil
    then show ?thesis using post' assms(5) by (auto simp: links_append)
  next
    case (snoc front l)
    have "links nx p front l" "l \<noteq> 0" using assms(1) by (auto simp: snoc links_append)
    moreover have "nx' b = nx b" if "b \<in> set front" for b using assms(2,3) that by (auto simp: snoc)
    ultimately have "links nx' p front l" using links_cong [of front nx' nx p l] by simp
    moreover have "nx' l = r" using assms(4) by (simp add: snoc)
    ultimately show ?thesis using post' assms(5) \<open>l \<noteq> 0\<close> by (auto simp: snoc links_append)
  qed
qed

lemma malloc_loop_search:
  assumes "links (bnext h) blk rest 0" and "\<And>a. a \<in> set rest \<Longrightarrow> bflags h a AND FLAG_FREE \<noteq> 0"
  shows "malloc_loop n (if pre = [] then 0 else last pre) blk h = Some (None, h) \<and> (\<forall>a \<in> set rest. bsize h a < n) \<or>
    (\<exists>front a post. rest = front @ a # post \<and> n \<le> bsize h a \<and>
      malloc_loop n (if pre = [] then 0 else last pre) blk h =
        Some (Some (a + HEADER_SIZE), take_block n (if pre @ front = [] then 0 else last (pre @ front)) a h))"
  using assms
proof (induction rest arbitrary: blk pre)
  case Nil
  then show ?case by (simp add: malloc_loop.simps [of n _ 0])
next
  case (Cons a rest)
  have a: "blk = a" "a \<noteq> 0" "links (bnext h) (bnext h a) rest 0" "bflags h a AND FLAG_FREE \<noteq> 0" using Cons.prems by auto
  show ?case
  proof (cases "n \<le> bsize h a")
    case True
    then show ?thesis using a by (intro disjI2 exI [of _ "[]"]) (auto simp: malloc_loop.simps [of n _ a])
  next
    case False
    have eq: "malloc_loop n p blk h = malloc_loop n (if pre @ [a] = [] then 0 else last (pre @ [a])) (bnext h a) h" for p
      using a False by (simp add: malloc_loop.simps [of n _ a])
    from Cons.IH [OF a(3), of "pre @ [a]"] Cons.prems(2) consider
      "malloc_loop n (if pre @ [a] = [] then 0 else last (pre @ [a])) (bnext h a) h = Some (None, h)" "\<forall>b \<in> set rest. bsize h b < n"
      | front b post where "rest = front @ b # post" "n \<le> bsize h b"
        "malloc_loop n (if pre @ [a] = [] then 0 else last (pre @ [a])) (bnext h a) h =
          Some (Some (b + HEADER_SIZE), take_block n (if (pre @ [a]) @ front = [] then 0 else last ((pre @ [a]) @ front)) b h)"
      by auto
    then show ?thesis
    proof cases
      case 1
      then show ?thesis using False by (intro disjI1) (simp only: eq, auto)
    next
      case 2
      then show ?thesis by (intro disjI2 exI [of _ "a # front"] exI [of _ b] exI [of _ post]) (simp only: eq, auto)
    qed
  qed
qed

subsection \<open>Invariant of the heap\<close>

definition block_end :: "heap_st \<Rightarrow> u64 \<Rightarrow> nat" where
  "block_end h a = unat a + 32 + unat (bsize h a)"

text \<open>The blocks of the heap: \<open>fs\<close> are the free ones in the order of the list, \<open>ls\<close> those in use.\<close>

definition block_ok :: "heap_st \<Rightarrow> u64 \<Rightarrow> bool" where
  "block_ok h a \<longleftrightarrow> a \<noteq> 0 \<and> 16 dvd unat a \<and> 16 dvd unat (bsize h a) \<and> 16 \<le> unat (bsize h a) \<and> block_end h a \<le> unat (brk h)"

definition blocks_apart :: "heap_st \<Rightarrow> u64 \<Rightarrow> u64 \<Rightarrow> bool" where
  "blocks_apart h a b \<longleftrightarrow> block_end h a \<le> unat b \<or> block_end h b \<le> unat a"

definition heap_inv :: "heap_st \<Rightarrow> u64 list \<Rightarrow> u64 set \<Rightarrow> bool" where
  "heap_inv h fs ls \<longleftrightarrow>
     links (bnext h) (free_list h) fs 0 \<and> distinct fs \<and> set fs \<inter> ls = {} \<and>
     (\<forall>a \<in> set fs. bflags h a AND FLAG_FREE \<noteq> 0) \<and> (\<forall>a \<in> set fs \<union> ls. block_ok h a) \<and>
     (\<forall>a \<in> set fs \<union> ls. \<forall>b \<in> set fs \<union> ls. a \<noteq> b \<longrightarrow> blocks_apart h a b) \<and>
     0 < unat (brk h) \<and> 16 dvd unat (brk h) \<and> unat (brk h) < 2 ^ 63"

text \<open>An operation changed at most the words at addresses in \<open>S\<close>.\<close>

definition changes :: "nat set \<Rightarrow> heap_st \<Rightarrow> heap_st \<Rightarrow> bool" where
  "changes S h h' \<longleftrightarrow> (\<forall>x. hmem h' x \<noteq> hmem h x \<longrightarrow> unat x \<in> S)"

lemma changesD: "changes S h h' \<Longrightarrow> unat x \<notin> S \<Longrightarrow> hmem h' x = hmem h x"
  by (auto simp: changes_def)

lemma unat_add_small:
  fixes a :: u64
  assumes "unat a + k < 2 ^ 64"
  shows "unat (a + of_nat k) = unat a + k"
  using assms unat_plus_if_size [of a "of_nat k"] unat_of_nat_small [of k, where 'a = 64] by simp

lemma header_addr:
  assumes "block_ok h a" "unat (brk h) < 2 ^ 63"
  shows "unat (a + 8) = unat a + 8" "unat (a + 16) = unat a + 16" "unat (a + 32) = unat a + 32"
  using assms unat_add_small [of a 8] unat_add_small [of a 16] unat_add_small [of a 32]
  by (simp_all add: block_ok_def block_end_def)

text \<open>The header of a block keeps its fields when nothing inside the block changes.\<close>

lemma header_frame:
  assumes "block_ok h a" "unat (brk h) < 2 ^ 63" "changes S h h'" "{unat a..<unat a + 32} \<inter> S = {}"
  shows "bsize h' a = bsize h a" "bnext h' a = bnext h a" "bflags h' a = bflags h a"
  using changesD [OF assms(3)] assms(4) header_addr [OF assms(1,2)] unfolding bsize_def bnext_def bflags_def
  by (auto simp: disjoint_iff)

lemma changes_set_word: "changes S h h' \<Longrightarrow> unat a \<in> S \<Longrightarrow> changes S h (set_word a v h')"
  by (auto simp: changes_def set_word_def)

lemma changes_list: "changes S h (h'\<lparr>free_list := v\<rparr>) = changes S h h'"
  by (simp add: changes_def)

lemma changes_refl [simp]: "changes S h h"
  by (simp add: changes_def)

lemma set_word_simps [simp]:
  "hmem (set_word a v h) = (hmem h)(a := v)" "free_list (set_word a v h) = free_list h" "brk (set_word a v h) = brk h"
  by (simp_all add: set_word_def)

lemma take_block_brk [simp]: "brk (take_block n prev a h) = brk h"
  by (simp add: take_block_def split_block_def Let_def)

text \<open>The words a block's header and its neighbours occupy are different.\<close>

lemma distinct_words: "distinct (map unat xs) \<Longrightarrow> distinct (xs :: u64 list)"
  by (simp add: distinct_map)

text \<open>\<open>link_field prev\<close>: the address of the field that links \<open>prev\<close> (none for the head of the list).\<close>

definition link_field :: "u64 \<Rightarrow> nat set" where
  "link_field prev = (if prev = 0 then {} else {unat prev + 8})"

lemma take_block_whole:
  assumes a: "block_ok h a" and lim: "unat (brk h) < 2 ^ 63" and prev: "prev \<noteq> 0 \<Longrightarrow> block_ok h prev \<and> blocks_apart h prev a"
    and n: "\<not> bsize h a \<ge> n + HEADER_SIZE + MIN_ALLOC"
  defines "h' \<equiv> take_block n prev a h"
  shows "bsize h' a = bsize h a" and "prev \<noteq> 0 \<Longrightarrow> bnext h' prev = bnext h a"
    and "free_list h' = (if prev = 0 then bnext h a else free_list h)"
    and "changes ({unat a..<unat a + 32} \<union> link_field prev) h h'"
proof -
  note ha = header_addr [OF a lim]
  have hp: "unat (prev + 8) = unat prev + 8" "unat prev + 32 \<le> unat a \<or> unat a + 32 \<le> unat prev" if "prev \<noteq> 0"
    using prev [OF that] header_addr [of h prev] lim by (auto simp: blocks_apart_def block_end_def)
  have d: "prev \<noteq> 0 \<Longrightarrow> distinct [a, a + 8, a + 16, prev + 8]" "distinct [a, a + 8, a + 16]"
    using hp ha by (intro distinct_words; auto)+
  show "bsize h' a = bsize h a" "prev \<noteq> 0 \<Longrightarrow> bnext h' prev = bnext h a" "free_list h' = (if prev = 0 then bnext h a else free_list h)"
    using n d by (auto simp: h'_def take_block_def Let_def bsize_def bnext_def)
  show "changes ({unat a..<unat a + 32} \<union> link_field prev) h h'"
    using n ha hp by (auto simp: h'_def take_block_def Let_def link_field_def changes_list intro!: changes_set_word)
qed

lemma take_block_split:
  assumes a: "block_ok h a" and lim: "unat (brk h) < 2 ^ 63" and prev: "prev \<noteq> 0 \<Longrightarrow> block_ok h prev \<and> blocks_apart h prev a"
    and n: "bsize h a \<ge> n + HEADER_SIZE + MIN_ALLOC" "unat n + 48 \<le> unat (bsize h a)"
  defines "h' \<equiv> take_block n prev a h" and "nb \<equiv> a + HEADER_SIZE + n"
  shows "unat nb = unat a + 32 + unat n" and "bsize h' a = n" and "unat (bsize h' nb) = unat (bsize h a) - unat n - 32"
    and "bnext h' nb = bnext h a" and "bflags h' nb = FLAG_FREE" and "prev \<noteq> 0 \<Longrightarrow> bnext h' prev = nb"
    and "free_list h' = (if prev = 0 then nb else free_list h)"
    and "changes ({unat a..<block_end h a} \<union> link_field prev) h h'"
proof -
  note ha = header_addr [OF a lim]
  have e: "block_end h a = unat a + 32 + unat (bsize h a)" "block_end h a < 2 ^ 63"
    using a lim by (auto simp: block_ok_def block_end_def)
  have nb: "unat nb = unat a + 32 + unat n"
    using ha(3) unat_plus_if_size [of "a + 32" n] e n(2) by (simp add: nb_def HEADER_SIZE_def)
  then show "unat nb = unat a + 32 + unat n" .
  have hn: "unat (nb + 8) = unat a + unat n + 40" "unat (nb + 16) = unat a + unat n + 48"
    using unat_add_small [of nb 8] unat_add_small [of nb 16] nb e n(2) by simp_all
  have hp: "unat (prev + 8) = unat prev + 8" "unat prev + 32 \<le> unat a \<or> block_end h a \<le> unat prev" if "prev \<noteq> 0"
    using prev [OF that] header_addr [of h prev] lim by (auto simp: blocks_apart_def block_end_def)
  have d: "prev \<noteq> 0 \<Longrightarrow> distinct [a, a + 8, a + 16, nb, nb + 8, nb + 16, prev + 8]" "distinct [a, a + 8, a + 16, nb, nb + 8, nb + 16]"
    using hp ha hn nb e n(2) by (intro distinct_words; auto)+
  have "unat (bsize h a - n - HEADER_SIZE) = unat (bsize h a) - unat n - 32"
    using n(2) by (simp add: unat_sub word_le_nat_alt HEADER_SIZE_def)
  then show "unat (bsize h' nb) = unat (bsize h a) - unat n - 32"
    using n(1) d by (auto simp: h'_def take_block_def split_block_def Let_def bsize_def bnext_def simp flip: nb_def)
  show "bsize h' a = n" "bnext h' nb = bnext h a" "bflags h' nb = FLAG_FREE" "prev \<noteq> 0 \<Longrightarrow> bnext h' prev = nb"
    "free_list h' = (if prev = 0 then nb else free_list h)"
    using n(1) d by (auto simp: h'_def take_block_def split_block_def Let_def bsize_def bnext_def bflags_def simp flip: nb_def)
  show "changes ({unat a..<block_end h a} \<union> link_field prev) h h'"
    using n ha hp hn nb e by (auto simp: h'_def take_block_def split_block_def Let_def link_field_def changes_list simp flip: nb_def intro!: changes_set_word)
qed

text \<open>The other blocks keep their headers, but for the link of the predecessor.\<close>

lemma take_frame:
  assumes ch: "changes ({unat a..<block_end h a} \<union> link_field prev) h h'" and b: "block_ok h b" and lim: "unat (brk h) < 2 ^ 63"
    and ab: "blocks_apart h a b" and pb: "prev = 0 \<or> prev = b \<or> blocks_apart h prev b"
  shows "bsize h' b = bsize h b" and "bflags h' b = bflags h b" and "b \<noteq> prev \<Longrightarrow> bnext h' b = bnext h b"
proof -
  note hb = header_addr [OF b lim]
  have "unat b \<notin> {unat a..<block_end h a} \<union> link_field prev" "unat (b + 16) \<notin> {unat a..<block_end h a} \<union> link_field prev"
    "b \<noteq> prev \<Longrightarrow> unat (b + 8) \<notin> {unat a..<block_end h a} \<union> link_field prev"
    using ab pb hb by (auto simp: blocks_apart_def block_end_def link_field_def)
  then show "bsize h' b = bsize h b" "bflags h' b = bflags h b" "b \<noteq> prev \<Longrightarrow> bnext h' b = bnext h b"
    using changesD [OF ch] by (auto simp: bsize_def bflags_def bnext_def)
qed

text \<open>The invariant with \<open>mid\<close> in place of the block \<open>a\<close>, which is in use from now on.\<close>

lemma heap_inv_take:
  assumes inv: "heap_inv h (pre @ a # post) ls" and prev: "prev = (if pre = [] then 0 else last pre)"
    and ch: "changes ({unat a..<block_end h a} \<union> link_field prev) h h'" and brk: "brk h' = brk h"
    and fl: "free_list h' = (if prev = 0 then r else free_list h)" and nx: "prev \<noteq> 0 \<Longrightarrow> bnext h' prev = r"
    and mid: "links (bnext h') r mid (bnext h a)" "distinct mid" "\<And>m. m \<in> set mid \<Longrightarrow> bflags h' m AND FLAG_FREE \<noteq> 0"
    and inside: "\<And>m. m \<in> insert a (set mid) \<Longrightarrow> block_ok h' m \<and> unat a \<le> unat m \<and> block_end h' m \<le> block_end h a"
    and apart: "\<And>m m'. m \<in> insert a (set mid) \<Longrightarrow> m' \<in> insert a (set mid) \<Longrightarrow> m \<noteq> m' \<Longrightarrow> blocks_apart h' m m'" and "a \<notin> set mid"
  shows "heap_inv h' (pre @ mid @ post) (insert a ls)"
proof -
  let ?B = "set (pre @ post) \<union> ls"
  have lim: "unat (brk h) < 2 ^ 63" and dis: "distinct (pre @ a # post)" and ls: "set (pre @ a # post) \<inter> ls = {}"
    and ch0: "links (bnext h) (free_list h) (pre @ a # post) 0"
    and ok: "\<And>b. b \<in> insert a ?B \<Longrightarrow> block_ok h b" and ap: "\<And>b c. b \<in> insert a ?B \<Longrightarrow> c \<in> insert a ?B \<Longrightarrow> b \<noteq> c \<Longrightarrow> blocks_apart h b c"
    and fr: "\<And>b. b \<in> set (pre @ post) \<Longrightarrow> bflags h b AND FLAG_FREE \<noteq> 0"
    using inv by (auto simp: heap_inv_def)
  have nota: "b \<noteq> a" if "b \<in> ?B" for b using that dis ls by auto
  have pr: "prev = 0 \<or> prev \<in> ?B" using prev last_in_set [of pre] by auto
  have b: "bsize h' b = bsize h b" "bflags h' b = bflags h b" "b \<noteq> prev \<Longrightarrow> bnext h' b = bnext h b" if "b \<in> ?B" for b
  proof -
    have "block_ok h b" "blocks_apart h a b" "prev = 0 \<or> prev = b \<or> blocks_apart h prev b"
      using ok [of b] ap [of a b] ap [of prev b] pr nota [OF that] that by auto
    then show "bsize h' b = bsize h b" "bflags h' b = bflags h b" "b \<noteq> prev \<Longrightarrow> bnext h' b = bnext h b"
      using take_frame [OF ch _ lim] by auto
  qed
  have e: "block_end h' b = block_end h b" if "b \<in> ?B" for b using b [OF that] by (simp add: block_end_def)
  have okB: "block_ok h' b" if "b \<in> ?B" for b using ok [of b] b [OF that] e [OF that] brk that by (simp add: block_ok_def)
  have mB: "blocks_apart h' m b \<and> blocks_apart h' b m \<and> m \<noteq> b" if "m \<in> insert a (set mid)" "b \<in> ?B" for m b
  proof -
    have "unat a \<le> unat m" "block_end h' m \<le> block_end h a" "0 < unat (bsize h' m)" using inside [OF that(1)] by (auto simp: block_ok_def)
    moreover have "blocks_apart h a b" using ap [of a b] nota that(2) by auto
    ultimately show ?thesis using e [OF that(2)] by (auto simp: blocks_apart_def block_end_def)
  qed
  have "pre = [] \<longleftrightarrow> prev = 0"
  proof (cases "pre = []")
    case False
    then have "last pre \<in> insert a ?B" by simp
    then show ?thesis using ok [of "last pre"] prev by (simp add: block_ok_def)
  qed (simp add: prev)
  moreover have "bnext h' b = bnext h b" if "b \<in> set (pre @ post)" "b \<noteq> last pre \<or> pre = []" for b
    using b(3) [of b] that ok [of b] prev by (auto simp: block_ok_def split: if_splits)
  ultimately have "links (bnext h') (if pre = [] then r else free_list h) (pre @ mid @ post) 0"
    using prev nx by (intro links_replace [OF ch0 dis _ _ mid(1)]) auto
  then have "links (bnext h') (free_list h') (pre @ mid @ post) 0" using fl \<open>pre = [] \<longleftrightarrow> prev = 0\<close> by simp
  moreover have "distinct (pre @ mid @ post)" using dis mid(2) mB by auto
  moreover have "set (pre @ mid @ post) \<inter> insert a ls = {}" using ls dis mB \<open>a \<notin> set mid\<close> by auto
  moreover have "bflags h' c AND FLAG_FREE \<noteq> 0" if "c \<in> set (pre @ mid @ post)" for c
    using that b(2) [of c] fr [of c] mid(3) by auto
  moreover have "block_ok h' c" if "c \<in> set (pre @ mid @ post) \<union> insert a ls" for c using that okB inside by auto
  moreover have "blocks_apart h' c d" if cd: "c \<in> set (pre @ mid @ post) \<union> insert a ls" "d \<in> set (pre @ mid @ post) \<union> insert a ls" "c \<noteq> d" for c d
  proof -
    consider "c \<in> ?B" "d \<in> ?B" | "c \<in> ?B" "d \<in> insert a (set mid)" | "c \<in> insert a (set mid)" "d \<in> ?B"
      | "c \<in> insert a (set mid)" "d \<in> insert a (set mid)" using cd by auto
    then show ?thesis
    proof cases
      case 1
      then show ?thesis using ap [of c d] cd(3) e unfolding blocks_apart_def by auto
    qed (use mB apart cd(3) in auto)
  qed
  ultimately show ?thesis using inv brk unfolding heap_inv_def by auto
qed

lemma take_block_inv:
  assumes inv: "heap_inv h (pre @ a # post) ls" and prev: "prev = (if pre = [] then 0 else last pre)"
    and n: "unat n \<le> unat (bsize h a)" "16 dvd unat n" "16 \<le> unat n"
  defines "h' \<equiv> take_block n prev a h"
  shows "\<exists>mid. heap_inv h' (pre @ mid @ post) (insert a ls)" and "n \<le> bsize h' a"
    and "changes ({unat a..<block_end h a} \<union> link_field prev) h h'"
proof -
  have a: "block_ok h a" and lim: "unat (brk h) < 2 ^ 63" using inv by (auto simp: heap_inv_def)
  have ca: "links (bnext h) (free_list h) (pre @ a # post) 0" "distinct (pre @ a # post)" using inv by (auto simp: heap_inv_def)
  have p: "block_ok h prev \<and> blocks_apart h prev a" if "prev \<noteq> 0"
  proof -
    have "prev \<in> set pre" using that prev by (auto split: if_splits)
    then show ?thesis using inv ca(2) by (auto simp: heap_inv_def)
  qed
  have e: "unat (bsize h a) + 48 < 2 ^ 64" using a lim by (auto simp: block_ok_def block_end_def)
  have "unat (n + HEADER_SIZE + MIN_ALLOC) = unat n + 48"
    using unat_add_small [of n 48] n(1) e by (simp add: HEADER_SIZE_def MIN_ALLOC_def add.commute [of 48])
  then have cond: "n + HEADER_SIZE + MIN_ALLOC \<le> bsize h a \<longleftrightarrow> unat n + 48 \<le> unat (bsize h a)" by (simp add: word_le_nat_alt)
  have brk: "brk h' = brk h" by (simp add: h'_def)
  show "\<exists>mid. heap_inv h' (pre @ mid @ post) (insert a ls)" and "n \<le> bsize h' a"
    and "changes ({unat a..<block_end h a} \<union> link_field prev) h h'"
  proof (atomize (full), cases "n + HEADER_SIZE + MIN_ALLOC \<le> bsize h a")
    case False
    note w = take_block_whole [OF a lim p False, folded h'_def]
    have ch: "changes ({unat a..<block_end h a} \<union> link_field prev) h h'"
      using w(4) by (auto simp: changes_def block_end_def)
    have "heap_inv h' (pre @ [] @ post) (insert a ls)"
      using w a brk by (intro heap_inv_take [OF inv prev ch, where r = "bnext h a"]) (auto simp: block_ok_def block_end_def)
    then show "(\<exists>mid. heap_inv h' (pre @ mid @ post) (insert a ls)) \<and> n \<le> bsize h' a \<and> changes ({unat a..<block_end h a} \<union> link_field prev) h h'"
      using ch n(1) w(1) unfolding word_le_nat_alt by (intro conjI) (blast, simp_all)
  next
    case True
    note w = take_block_split [OF a lim p True cond [THEN iffD1, OF True], folded h'_def]
    let ?m = "a + HEADER_SIZE + n"
    have ne: "unat ?m \<noteq> unat a" "?m \<noteq> 0" using w(1) by (auto simp: unat_eq_0 [symmetric] simp del: unat_eq_0)
    have ne3: "HEADER_SIZE + n \<noteq> 0" using ne(1) by (auto simp: add.assoc)
    have ends: "block_end h' a = unat ?m" "block_end h' ?m = block_end h a"
      using w(1-3) True cond by (auto simp: block_end_def)
    have ok: "block_ok h' a" "block_ok h' ?m"
      using a n brk w(1-3) ends ne cond True by (auto simp: block_ok_def block_end_def intro: dvd_add dvd_diff_nat)
    have "heap_inv h' (pre @ [?m] @ post) (insert a ls)"
      using w ok ends ne ne3 brk cond True
      by (intro heap_inv_take [OF inv prev w(8), where r = ?m]) (auto simp: blocks_apart_def block_end_def FLAG_FREE_def)
    then show "(\<exists>mid. heap_inv h' (pre @ mid @ post) (insert a ls)) \<and> n \<le> bsize h' a \<and> changes ({unat a..<block_end h a} \<union> link_field prev) h h'"
      using w(2,8) by blast
  qed
qed

lemma request_bounds:
  assumes "unat n < 2 ^ 62"
  shows "unat n \<le> unat (request n)" "16 dvd unat (request n)" "16 \<le> unat (request n)" "unat (request n) \<le> unat n + 16"
proof -
  have "unat (n + 15) = unat n + 15" using unat_add_small [of n 15] assms by simp
  then have al: "unat (ALIGN_UP n) = (unat n + 15) div 16 * 16"
    using unat_and_not_mask [of "n + 15" 4] by (simp add: ALIGN_UP_def mask_eq_exp_minus_1)
  then have r: "unat (request n) = max 16 ((unat n + 15) div 16 * 16)"
    by (auto simp: request_def Let_def MIN_ALLOC_def word_less_nat_alt)
  show "unat n \<le> unat (request n)" "16 dvd unat (request n)" "16 \<le> unat (request n)" "unat (request n) \<le> unat n + 16"
    unfolding r by (auto simp: max_def)
qed

text \<open>Every word of the blocks in \<open>ls\<close>, headers included, is as before.\<close>

definition untouched :: "heap_st \<Rightarrow> heap_st \<Rightarrow> u64 set \<Rightarrow> bool" where
  "untouched h h' ls \<longleftrightarrow> (\<forall>a \<in> ls. \<forall>x. unat a \<le> unat x \<and> unat x < block_end h a \<longrightarrow> hmem h' x = hmem h x)"

lemma untouched_changes:
  assumes "changes S h h'" and "\<And>a. a \<in> ls \<Longrightarrow> {unat a..<block_end h a} \<inter> S = {}"
  shows "untouched h h' ls"
  using assms unfolding untouched_def changes_def by fastforce

text \<open>A new block at the end of the heap.\<close>

lemma heap_inv_grow:
  assumes inv: "heap_inv h fs ls" and n: "16 dvd unat n" "16 \<le> unat n" "unat (brk h) + 32 + unat n < 2 ^ 63"
  defines "b \<equiv> brk h"
  defines "h' \<equiv> set_word (b + 16) 0 (set_word (b + 8) 0 (set_word b n (h\<lparr>brk := b + (HEADER_SIZE + n)\<rparr>)))"
  shows "heap_inv h' fs (insert b ls)" and "bsize h' b = n" and "b \<notin> ls" and "untouched h h' ls"
proof -
  let ?S = "{unat b..<unat b + 32}"
  have b: "unat (b + 8) = unat b + 8" "unat (b + 16) = unat b + 16" "unat (b + (HEADER_SIZE + n)) = unat b + 32 + unat n"
    using n(3) unat_add_small [of b 8] unat_add_small [of b 16] unat_plus_if_size [of "b + 32" n] unat_add_small [of b 32]
    by (simp_all add: b_def HEADER_SIZE_def add.assoc)
  have d: "distinct [b, b + 8, b + 16]" using b by (intro distinct_words) auto
  have ch: "changes ?S h h'" using b by (auto simp: changes_def h'_def word_unat_eq_iff split: if_splits)
  have lim: "unat (brk h) < 2 ^ 63" using n(3) by simp
  let ?B = "set fs \<union> ls"
  have ok: "block_ok h a" if "a \<in> ?B" for a using inv that by (auto simp: heap_inv_def)
  have below: "block_end h a \<le> unat b" "unat a < unat b" if "a \<in> ?B" for a
    using ok [OF that] by (auto simp: block_ok_def block_end_def b_def)
  have same: "bsize h' a = bsize h a" "bnext h' a = bnext h a" "bflags h' a = bflags h a" if "a \<in> ?B" for a
    using below [OF that] by (intro header_frame [OF ok [OF that] lim ch]; fastforce simp: block_end_def)+
  have e: "block_end h' a = block_end h a" if "a \<in> ?B" for a using same [OF that] by (simp add: block_end_def)
  show bs: "bsize h' b = n" using d by (simp add: bsize_def h'_def)
  show "b \<notin> ls" using below by blast
  show "untouched h h' ls" using below by (intro untouched_changes [OF ch]) fastforce
  have "block_ok h' a" if "a \<in> insert b ?B" for a
  proof (cases "a = b")
    case True
    then show ?thesis using bs b n inv unfolding heap_inv_def block_ok_def block_end_def b_def [symmetric] by (auto simp: h'_def)
  next
    case False
    then show ?thesis using that ok [of a] same [of a] e [of a] b by (auto simp: block_ok_def h'_def b_def [symmetric])
  qed
  moreover have "blocks_apart h' a c" if ac: "a \<in> insert b ?B" "c \<in> insert b ?B" "a \<noteq> c" for a c
  proof -
    have "blocks_apart h a c" if "a \<in> ?B" "c \<in> ?B" using inv that ac(3) by (auto simp: heap_inv_def)
    then show ?thesis using ac e below unfolding blocks_apart_def by auto
  qed
  moreover have "links (bnext h') (free_list h') fs 0"
    using inv links_cong [of fs "bnext h'" "bnext h"] same by (auto simp: heap_inv_def h'_def [symmetric], simp add: h'_def)
  moreover have "b \<notin> set fs" using below by blast
  moreover have "brk h' = b + (HEADER_SIZE + n)" by (simp add: h'_def)
  ultimately show "heap_inv h' fs (insert b ls)"
    using inv b n same unfolding heap_inv_def by (auto simp: b_def [symmetric])
qed

lemma heap_inv_apart: "heap_inv h fs ls \<Longrightarrow> a \<in> set fs \<Longrightarrow> b \<in> ls \<Longrightarrow> blocks_apart h a b"
  by (cases "a = b") (auto simp: heap_inv_def)

lemma malloc_outcome:
  assumes inv: "heap_inv h fs ls" and n: "0 < unat n" "unat n < 2 ^ 62"
    and grant: "\<And>k. grant k h \<Longrightarrow> uint (brk h) + k < 2 ^ 63"
  shows "\<exists>p h'. malloc grant n h = Some (p, h') \<and>
    (p = 0 \<and> h' = h \<and> \<not> grant (32 + uint (request n)) h \<and> (\<forall>a \<in> set fs. bsize h a < request n) \<or>
     p \<noteq> 0 \<and> p - 32 \<notin> ls \<and> n \<le> bsize h' (p - 32) \<and> (\<exists>fs'. heap_inv h' fs' (insert (p - 32) ls)) \<and> untouched h h' ls)"
proof -
  note r = request_bounds [OF n(2)]
  have n0: "n \<noteq> 0" using n(1) by auto
  have chn: "links (bnext h) (free_list h) fs 0" "\<And>a. a \<in> set fs \<Longrightarrow> bflags h a AND FLAG_FREE \<noteq> 0"
    using inv by (auto simp: heap_inv_def)
  from malloc_loop_search [OF chn, of "request n" "[]"] consider
    (none) "malloc_loop (request n) 0 (free_list h) h = Some (None, h)" "\<forall>a \<in> set fs. bsize h a < request n"
    | (found) pre a post where "fs = pre @ a # post" "request n \<le> bsize h a"
      "malloc_loop (request n) 0 (free_list h) h = Some (Some (a + HEADER_SIZE), take_block (request n) (if pre = [] then 0 else last pre) a h)"
    by auto
  then show ?thesis
  proof cases
    case none
    have sm: "unat (HEADER_SIZE + request n) = 32 + unat (request n)"
      using unat_add_small [of "request n" 32] r n(2) by (simp add: HEADER_SIZE_def add.commute)
    then have si: "sint (HEADER_SIZE + request n) = 32 + uint (request n)"
      using sint_small [of "HEADER_SIZE + request n"] r n(2) by simp
    have pos: "0 < 32 + uint (request n)" using uint_nonnegative [of "request n"] by linarith
    have sb: "sbrk grant (sint (HEADER_SIZE + request n)) h =
        (if grant (32 + uint (request n)) h then (brk h, h\<lparr>brk := brk h + (HEADER_SIZE + request n)\<rparr>) else (-1, h))"
      using pos unfolding si by (auto simp: sbrk_def Let_def HEADER_SIZE_def)
    show ?thesis
    proof (cases "grant (32 + uint (request n)) h")
      case False
      then show ?thesis using none n0 by (simp add: malloc_def sb Let_def)
    next
      case True
      have "int (unat (brk h) + 32 + unat (request n)) < int (2 ^ 63)" using grant [OF True] by simp
      then have fits: "unat (brk h) + 32 + unat (request n) < 2 ^ 63" by (simp only: of_nat_less_iff)
      note g = heap_inv_grow [OF inv r(2,3) fits]
      have nm: "brk h \<noteq> -1" using fits by (auto simp: unsigned_minus_1_eq_mask mask_eq_exp_minus_1)
      have "unat (brk h + HEADER_SIZE) = unat (brk h) + 32"
        using fits unat_add_small [of "brk h" 32] by (simp add: HEADER_SIZE_def)
      then have nz: "brk h + HEADER_SIZE \<noteq> 0" by auto
      have m: "brk h + HEADER_SIZE - 32 = brk h" by (simp add: HEADER_SIZE_def)
      obtain h' where h': "malloc grant n h = Some (brk h + HEADER_SIZE, h')" "heap_inv h' fs (insert (brk h) ls)"
        "bsize h' (brk h) = request n" "brk h \<notin> ls" "untouched h h' ls"
        using none n0 True nm g by (simp add: malloc_def sb Let_def)
      then show ?thesis using nz r(1) m by (auto simp: word_le_nat_alt)
    qed
  next
    case found
    let ?prev = "if pre = [] then 0 else last pre"
    let ?h = "take_block (request n) ?prev a h"
    note t = take_block_inv [OF inv [unfolded found(1)] refl found(2) [unfolded word_le_nat_alt] r(2,3)]
    have a: "block_ok h a" "unat (brk h) < 2 ^ 63" "a \<notin> ls" using inv by (auto simp: heap_inv_def found(1))
    have nz: "a + HEADER_SIZE \<noteq> 0" using header_addr(3) [OF a(1,2)] by (auto simp: HEADER_SIZE_def)
    have "untouched h ?h ls"
    proof (rule untouched_changes [OF t(3)])
      fix b assume b: "b \<in> ls"
      have "?prev = 0 \<or> ?prev \<in> set fs" by (simp add: found(1))
      then have "blocks_apart h a b" "?prev = 0 \<or> blocks_apart h ?prev b"
        using heap_inv_apart [OF inv _ b] by (auto simp: found(1) simp del: if_split)
      then show "{unat b..<block_end h b} \<inter> ({unat a..<block_end h a} \<union> link_field ?prev) = {}"
        by (auto simp: blocks_apart_def block_end_def link_field_def simp del: if_split)
    qed
    moreover have "malloc grant n h = Some (a + HEADER_SIZE, ?h)" using found n0 by (simp add: malloc_def Let_def)
    moreover have "a + HEADER_SIZE - 32 = a" by (simp add: HEADER_SIZE_def)
    moreover have "n \<le> bsize ?h a" using t(2) r(1) by (simp add: word_le_nat_alt)
    ultimately show ?thesis using t(1) a(3) nz by auto
  qed
qed

lemma free_outcome:
  assumes inv: "heap_inv h fs ls" and a: "a \<in> ls"
  defines "h' \<equiv> free (a + HEADER_SIZE) h"
  shows "heap_inv h' (a # fs) (ls - {a})" and "bsize h' a = bsize h a" and "untouched h h' (ls - {a})"
proof -
  have ok: "block_ok h b" if "b \<in> set fs \<union> ls" for b using inv that by (auto simp: heap_inv_def)
  have lim: "unat (brk h) < 2 ^ 63" and dis: "a \<notin> set fs" using inv a by (auto simp: heap_inv_def)
  note ha = header_addr [OF ok lim, of a]
  have b: "unat (a + 8) = unat a + 8" "unat (a + 16) = unat a + 16" "unat (a + 32) = unat a + 32" using ha a by auto
  then have nz: "a + HEADER_SIZE \<noteq> 0" by (auto simp: HEADER_SIZE_def)
  have d: "distinct [a, a + 8, a + 16]" using b by (intro distinct_words) auto
  have h': "h' = (set_word (a + 8) (free_list h) (set_word (a + 16) (bflags h a OR FLAG_FREE) h))\<lparr>free_list := a\<rparr>"
    using nz by (simp add: h'_def free_def Let_def)
  have ch: "changes {unat a + 8..<unat a + 32} h h'"
    unfolding h' changes_list using b by (intro changes_set_word changes_refl) auto
  show bs: "bsize h' a = bsize h a" using d by (simp add: h' bsize_def)
  have nx: "bnext h' a = free_list h" and fl: "bflags h' a = bflags h a OR FLAG_FREE" using d by (auto simp: h' bnext_def bflags_def)
  have ap: "blocks_apart h c e" if "c \<in> set fs \<union> ls" "e \<in> set fs \<union> ls" "c \<noteq> e" for c e
    using inv that by (auto simp: heap_inv_def)
  have same: "bsize h' c = bsize h c" "bnext h' c = bnext h c" "bflags h' c = bflags h c" if "c \<in> set fs \<union> ls" "c \<noteq> a" for c
    using ap [OF that(1) _ that(2)] a
    by (intro header_frame [OF ok [OF that(1)] lim ch]; fastforce simp: blocks_apart_def block_end_def)+
  have e: "block_end h' c = block_end h c" if "c \<in> set fs \<union> ls" for c
    using same [OF that] bs by (cases "c = a") (auto simp: block_end_def)
  show "untouched h h' (ls - {a})"
    using ap a by (intro untouched_changes [OF ch]) (fastforce simp: blocks_apart_def block_end_def)
  have "bflags h' a AND FLAG_FREE \<noteq> 0"
  proof -
    have "bit (bflags h' a AND FLAG_FREE) 0" by (simp add: fl FLAG_FREE_def bit_simps)
    then show ?thesis by auto
  qed
  then have "bflags h' c AND FLAG_FREE \<noteq> 0" if "c \<in> set (a # fs)" for c
    using that same(3) [of c] inv by (cases "c = a") (auto simp: heap_inv_def)
  moreover have "blocks_apart h' c d" if "c \<in> set fs \<union> ls" "d \<in> set fs \<union> ls" "c \<noteq> d" for c d
    using ap [OF that] e that(1,2) unfolding blocks_apart_def by simp
  moreover have "block_ok h' c" if "c \<in> set fs \<union> ls" for c
    using ok [OF that] e [OF that] same [OF that] bs by (cases "c = a") (auto simp: block_ok_def h')
  moreover have "links (bnext h') (bnext h' a) fs 0"
    using inv links_cong [of fs "bnext h'" "bnext h"] same dis nx by (fastforce simp: heap_inv_def)
  moreover have "a \<noteq> 0" using ok [of a] a by (simp add: block_ok_def)
  moreover have "free_list h' = a" "brk h' = brk h" by (simp_all add: h')
  moreover have "set (a # fs) \<union> (ls - {a}) = set fs \<union> ls" using a by auto
  moreover have "set (a # fs) \<inter> (ls - {a}) = {}" "distinct (a # fs)" "0 < unat (brk h) \<and> 16 dvd unat (brk h) \<and> unat (brk h) < 2 ^ 63"
    using inv dis by (auto simp: heap_inv_def)
  ultimately show "heap_inv h' (a # fs) (ls - {a})"
    unfolding heap_inv_def by (simp only: links.simps) blast
qed

subsection \<open>What the allocator promises\<close>

text \<open>Property C26. In a heap whose blocks do not overlap, \<^verbatim>\<open>malloc\<close> of \<open>n\<close> bytes (below \<open>2 ^ 62\<close>) returns: either null with
  the heap as it was, and then no free block is large enough and the kernel refused to grow the heap; or a pointer behind the header of a block
  that was not in use, has at least \<open>n\<close> bytes, is aligned to 16 bytes and overlaps no other block, while every word of the
  blocks in use is unchanged. The kernel is assumed to keep the break below \<open>2 ^ 63\<close>.\<close>

theorem malloc_correct:
  assumes "heap_inv h fs ls" and "0 < unat n" "unat n < 2 ^ 62"
    and "\<And>k. grant k h \<Longrightarrow> uint (brk h) + k < 2 ^ 63"
  shows "\<exists>p h'. malloc grant n h = Some (p, h') \<and>
    (p = 0 \<and> h' = h \<and> \<not> grant (32 + uint (request n)) h \<and> (\<forall>a \<in> set fs. bsize h a < request n) \<or>
     p \<noteq> 0 \<and> p - 32 \<notin> ls \<and> n \<le> bsize h' (p - 32) \<and> (\<exists>fs'. heap_inv h' fs' (insert (p - 32) ls)) \<and> untouched h h' ls)"
  by (rule malloc_outcome [OF assms])

text \<open>A heap with a free block of 96 bytes and, behind it, a block of 32 bytes in use.\<close>

definition demo_heap :: heap_st where
  "demo_heap = \<lparr>hmem = (\<lambda>_. 0)(0x10000 := 96, 0x10010 := 1, 0x10080 := 32), free_list = 0x10000, brk = 0x100C0\<rparr>"

lemma demo_heap_inv: "heap_inv demo_heap [0x10000] {0x10080}"
  by (simp add: heap_inv_def demo_heap_def bnext_def bsize_def bflags_def block_ok_def block_end_def blocks_apart_def FLAG_FREE_def)

theorem malloc_correct_witness:
  "\<exists>p h'. malloc (\<lambda>k h. uint (brk h) + k < 2 ^ 63) 40 demo_heap = Some (p, h') \<and>
    (p = 0 \<and> h' = demo_heap \<and> \<not> uint (brk demo_heap) + (32 + uint (request 40)) < 2 ^ 63 \<and> (\<forall>a \<in> set [0x10000]. bsize demo_heap a < request 40) \<or>
     p \<noteq> 0 \<and> p - 32 \<notin> {0x10080} \<and> 40 \<le> bsize h' (p - 32) \<and> (\<exists>fs'. heap_inv h' fs' (insert (p - 32) {0x10080})) \<and>
     untouched demo_heap h' {0x10080})"
  by (rule malloc_correct [OF demo_heap_inv]) simp_all

text \<open>\<^verbatim>\<open>free\<close> of a block in use puts it at the head of the free list, keeps the heap well formed and leaves the other blocks in
  use untouched; a following request that fits gets the same pointer back. Freeing null does nothing.\<close>

theorem free_malloc_reuse:
  assumes "heap_inv h fs ls" and "a \<in> ls" and "0 < unat n" "unat n < 2 ^ 62" and "request n \<le> bsize h a"
  shows "heap_inv (free (a + HEADER_SIZE) h) (a # fs) (ls - {a}) \<and> untouched h (free (a + HEADER_SIZE) h) (ls - {a}) \<and>
    (\<exists>h'. malloc grant n (free (a + HEADER_SIZE) h) = Some (a + HEADER_SIZE, h')) \<and> free 0 h = h"
proof -
  note f = free_outcome [OF assms(1,2)]
  let ?h = "free (a + HEADER_SIZE) h"
  have "free_list ?h = a" "a \<noteq> 0" "bflags ?h a AND FLAG_FREE \<noteq> 0" using f(1) by (auto simp: heap_inv_def)
  then have "malloc_loop (request n) 0 (free_list ?h) ?h = Some (Some (a + HEADER_SIZE), take_block (request n) 0 a ?h)"
    using assms(5) f(2) by (simp add: malloc_loop.simps [of "request n" 0 a])
  then have "malloc grant n ?h = Some (a + HEADER_SIZE, take_block (request n) 0 a ?h)"
    using assms(3) by (auto simp: malloc_def Let_def)
  then show ?thesis using f by (simp add: free_def)
qed

theorem free_malloc_reuse_witness:
  "heap_inv (free (0x10080 + HEADER_SIZE) demo_heap) [0x10080, 0x10000] ({0x10080} - {0x10080}) \<and>
   untouched demo_heap (free (0x10080 + HEADER_SIZE) demo_heap) ({0x10080} - {0x10080}) \<and>
   (\<exists>h'. malloc (\<lambda>_ _. False) 20 (free (0x10080 + HEADER_SIZE) demo_heap) = Some (0x10080 + HEADER_SIZE, h')) \<and> free 0 demo_heap = demo_heap"
proof (rule free_malloc_reuse [OF demo_heap_inv])
  show "request 20 \<le> bsize demo_heap 0x10080"
    by (simp add: request_def ALIGN_UP_def MIN_ALLOC_def demo_heap_def bsize_def)
qed simp_all

text \<open>The rounding wraps around for the largest requests: all of memory becomes 16 bytes.\<close>

lemma request_wraps: "request (-1) = 16"
  by (simp add: request_def ALIGN_UP_def MIN_ALLOC_def)

text \<open>A request just below \<open>2 ^ 64\<close> reaches \<^verbatim>\<open>sbrk\<close> as a negative number: the heap shrinks, and the old break is handed out as a block.\<close>

lemma malloc_huge_shrinks:
  "\<exists>h'. malloc (\<lambda>_ _. False) (-4096) demo_heap = Some (0x100E0, h') \<and> brk h' = 0xF0E0"
proof -
  have "malloc_loop (-4096) 0 0x10000 demo_heap = malloc_loop (-4096) 0x10000 0 demo_heap"
    by (simp add: malloc_loop.simps [of "-4096" 0 "0x10000"] demo_heap_def bsize_def bnext_def bflags_def)
  also have "\<dots> = Some (None, demo_heap)" by (simp add: malloc_loop.simps [of "-4096" "0x10000" 0])
  finally have "malloc_loop (-4096) 0 (free_list demo_heap) demo_heap = Some (None, demo_heap)" by (simp add: demo_heap_def)
  moreover have "request (-4096) = -4096" by (simp add: request_def ALIGN_UP_def MIN_ALLOC_def)
  ultimately show ?thesis
    by (simp add: malloc_def Let_def sbrk_def HEADER_SIZE_def) (simp add: demo_heap_def)
qed

end
