(* ===== verification/Libc_Sort.thy ===== *)
theory Libc_Sort
  imports Prelude "HOL-Library.Multiset"
begin

text \<open>
  \<^verbatim>\<open>qsort\<close> of the C library (\<^verbatim>\<open>libc/stdlib.c\<close>): quicksort with an explicit stack of 64 pending ranges. The array is the list of its
  elements; a write past the end of the stack is the result \<open>None\<close>. Indices are below the number of elements, so they do not wrap.
\<close>

subsection \<open>The program\<close>

definition swap :: "nat \<Rightarrow> nat \<Rightarrow> 'a list \<Rightarrow> 'a list" where
  "swap i j xs = xs[i := xs ! j, j := xs ! i]"

definition swap_if :: "('a \<Rightarrow> 'a \<Rightarrow> int) \<Rightarrow> nat \<Rightarrow> nat \<Rightarrow> 'a list \<Rightarrow> 'a list" where
  "swap_if compar i j xs = (if compar (xs ! i) (xs ! j) < 0 then swap i j xs else xs)"

definition median_of_three :: "('a \<Rightarrow> 'a \<Rightarrow> int) \<Rightarrow> nat \<Rightarrow> nat \<Rightarrow> 'a list \<Rightarrow> 'a list" where
  "median_of_three compar lo hi xs =
     (let mid = lo + (hi - lo) div 2 in
      swap_if compar mid hi (swap_if compar hi lo (swap_if compar mid lo xs)))"

function partition_loop :: "('a \<Rightarrow> 'a \<Rightarrow> int) \<Rightarrow> nat \<Rightarrow> nat \<Rightarrow> nat \<Rightarrow> 'a list \<Rightarrow> nat \<times> 'a list" where
  "partition_loop compar hi j i xs =
     (if j < hi then
        if compar (xs ! j) (xs ! hi) < 0 then partition_loop compar hi (j + 1) (i + 1) (swap i j xs)
        else partition_loop compar hi (j + 1) i xs
      else (i, xs))"
  by pat_completeness auto
termination by (relation "measure (\<lambda>(_, hi, j, _). hi - j)") auto

declare partition_loop.simps [simp del]

definition push_range :: "nat \<Rightarrow> nat \<Rightarrow> (nat \<times> nat) list \<Rightarrow> (nat \<times> nat) list option" where
  "push_range lo hi st = (if length st < 64 then Some ((lo, hi) # st) else None)"

partial_function (option) qsort_range ::
  "('a \<Rightarrow> 'a \<Rightarrow> int) \<Rightarrow> nat \<Rightarrow> nat \<Rightarrow> (nat \<times> nat) list \<Rightarrow> 'a list \<Rightarrow> ((nat \<times> nat) list \<times> 'a list) option" where
  "qsort_range compar lo hi st xs =
     (if lo < hi then
        let (i, xs) = partition_loop compar hi lo lo (median_of_three compar lo hi xs);
            xs = swap i hi xs;
            left_size = (if i > lo then i - lo else 0);
            right_size = (if hi > i then hi - i else 0)
        in if left_size > right_size then
             do { st \<leftarrow> (if i > lo + 1 then push_range lo (i - 1) st else Some st);
                  qsort_range compar (i + 1) hi st xs }
           else
             do { st \<leftarrow> (if i + 1 < hi then push_range (i + 1) hi st else Some st);
                  if i = 0 then Some (st, xs) else qsort_range compar lo (i - 1) st xs }
      else Some (st, xs))"

partial_function (option) qsort_loop :: "('a \<Rightarrow> 'a \<Rightarrow> int) \<Rightarrow> (nat \<times> nat) list \<Rightarrow> 'a list \<Rightarrow> 'a list option" where
  "qsort_loop compar st xs =
     (case st of
        [] \<Rightarrow> Some xs
      | (lo, hi) # st \<Rightarrow> do { (st, xs) \<leftarrow> qsort_range compar lo hi st xs; qsort_loop compar st xs })"

definition qsort :: "('a \<Rightarrow> 'a \<Rightarrow> int) \<Rightarrow> 'a list \<Rightarrow> 'a list option" where
  "qsort compar xs = (if length xs < 2 then Some xs else qsort_loop compar [(0, length xs - 1)] xs)"

text \<open>The comparison \<^verbatim>\<open>ls\<close> sorts with: \<^verbatim>\<open>strcmp\<close> of two names, given by the bytes before their terminators.\<close>

fun str_compare :: "u8 list \<Rightarrow> u8 list \<Rightarrow> int" where
  "str_compare [] [] = 0"
| "str_compare [] (d # ds) = - uint d"
| "str_compare (c # cs) [] = uint c"
| "str_compare (c # cs) (d # ds) = (if c \<noteq> 0 \<and> c = d then str_compare cs ds else uint c - uint d)"

record ls_entry =
  name :: "u8 list"
  etype :: u8
  entry_size :: int

definition cmp_entry :: "ls_entry \<Rightarrow> ls_entry \<Rightarrow> int" where
  "cmp_entry a b = str_compare (name a) (name b)"

subsection \<open>Rearranging a range\<close>

text \<open>\<open>ys\<close> is a rearrangement of \<open>xs\<close> that moves elements only inside the range.\<close>

definition within :: "nat \<Rightarrow> nat \<Rightarrow> 'a list \<Rightarrow> 'a list \<Rightarrow> bool" where
  "within lo hi xs ys \<longleftrightarrow>
     length ys = length xs \<and> mset ys = mset xs \<and> (\<forall>k. k < lo \<or> hi < k \<longrightarrow> ys ! k = xs ! k) \<and>
     (\<forall>k. lo \<le> k \<and> k \<le> hi \<longrightarrow> (\<exists>k'. lo \<le> k' \<and> k' \<le> hi \<and> ys ! k = xs ! k'))"

lemma within_refl [simp]: "within lo hi xs xs"
  by (auto simp: within_def)

lemma within_trans [trans]:
  assumes "within lo hi xs ys" and "within lo hi ys zs"
  shows "within lo hi xs zs"
  using assms unfolding within_def by metis

lemma length_swap [simp]: "length (swap i j xs) = length xs"
  by (simp add: swap_def)

lemma swap_nth:
  assumes "i < length xs" "j < length xs"
  shows "swap i j xs ! k = xs ! (if k = j then i else if k = i then j else k)"
  using assms by (auto simp: swap_def nth_list_update)

lemma within_swap:
  assumes "lo \<le> i" "i \<le> hi" "lo \<le> j" "j \<le> hi" "hi < length xs"
  shows "within lo hi xs (swap i j xs)"
proof -
  have "mset (swap i j xs) = mset xs" using assms by (simp add: swap_def mset_swap)
  then show ?thesis using assms by (auto simp: within_def swap_nth)
qed

lemma within_swap_if:
  assumes "lo \<le> i" "i \<le> hi" "lo \<le> j" "j \<le> hi" "hi < length xs"
  shows "within lo hi xs (swap_if compar i j xs)"
  using within_swap [OF assms] by (simp add: swap_if_def)

lemma within_length: "within lo hi xs ys \<Longrightarrow> length ys = length xs"
  by (simp add: within_def)

lemma within_median:
  assumes "lo < hi" "hi < length xs"
  shows "within lo hi xs (median_of_three compar lo hi xs)"
proof -
  let ?m = "lo + (hi - lo) div 2"
  have m: "lo \<le> ?m" "?m \<le> hi" using assms by auto
  let ?a = "swap_if compar ?m lo xs" and ?b = "swap_if compar hi lo (swap_if compar ?m lo xs)"
  have 1: "within lo hi xs ?a" using within_swap_if [of lo ?m hi lo xs compar] assms m by simp
  have 2: "within lo hi ?a ?b" using within_swap_if [of lo hi hi lo ?a compar] assms within_length [OF 1] by simp
  have 3: "within lo hi ?b (swap_if compar ?m hi ?b)"
    using within_swap_if [of lo ?m hi hi ?b compar] assms m within_length [OF 1] within_length [OF 2] by simp
  show ?thesis unfolding median_of_three_def Let_def using within_trans [OF within_trans [OF 1 2] 3] .
qed

subsection \<open>Partition\<close>

lemma partition_loop_spec:
  assumes "lo \<le> i" "i \<le> j" "j \<le> hi" "hi < length xs"
    and "\<And>k. lo \<le> k \<Longrightarrow> k < i \<Longrightarrow> compar (xs ! k) (xs ! hi) < 0"
    and "\<And>k. i \<le> k \<Longrightarrow> k < j \<Longrightarrow> 0 \<le> compar (xs ! k) (xs ! hi)"
    and "partition_loop compar hi j i xs = (p, ys)"
  shows "i \<le> p \<and> p \<le> hi \<and> within lo hi xs ys \<and> ys ! hi = xs ! hi \<and>
    (\<forall>k. lo \<le> k \<and> k < p \<longrightarrow> compar (ys ! k) (ys ! hi) < 0) \<and> (\<forall>k. p \<le> k \<and> k < hi \<longrightarrow> 0 \<le> compar (ys ! k) (ys ! hi))"
  using assms
proof (induction compar hi j i xs rule: partition_loop.induct)
  case (1 compar hi j i xs)
  note less = "1.prems"(5) and ge = "1.prems"(6)
  consider "j = hi" | "j < hi" "compar (xs ! j) (xs ! hi) < 0" | "j < hi" "0 \<le> compar (xs ! j) (xs ! hi)"
    using "1.prems"(3) by linarith
  then show ?case
  proof cases
    case 1
    then show ?thesis using "1.prems" by (auto simp: partition_loop.simps [of compar hi])
  next
    case 2
    let ?xs = "swap i j xs"
    have nth: "?xs ! k = xs ! (if k = j then i else if k = i then j else k)" for k
      using "1.prems"(2-4) by (simp add: swap_nth)
    have hi: "?xs ! hi = xs ! hi" using nth 2 "1.prems"(2) by simp
    have sw: "within lo hi xs ?xs" using within_swap [of lo i hi j xs] "1.prems"(1-4) by simp
    have eq: "partition_loop compar hi (j + 1) (i + 1) ?xs = (p, ys)"
      using "1.prems"(7) 2 by (simp add: partition_loop.simps [of compar hi j])
    have l: "compar (?xs ! k) (?xs ! hi) < 0" if "lo \<le> k" "k < i + 1" for k
      using less [of k] that 2 "1.prems"(2) unfolding hi nth by auto
    have g: "0 \<le> compar (?xs ! k) (?xs ! hi)" if "i + 1 \<le> k" "k < j + 1" for k
      using ge [of k] ge [of i] that 2 "1.prems"(2) unfolding hi nth by (cases "k = j") auto
    have "i + 1 \<le> p \<and> p \<le> hi \<and> within lo hi ?xs ys \<and> ys ! hi = ?xs ! hi \<and>
        (\<forall>k. lo \<le> k \<and> k < p \<longrightarrow> compar (ys ! k) (ys ! hi) < 0) \<and> (\<forall>k. p \<le> k \<and> k < hi \<longrightarrow> 0 \<le> compar (ys ! k) (ys ! hi))"
      using "1.prems"(1-4) 2 eq by (intro "1.IH"(1) l g) auto
    then show ?thesis using hi within_trans [OF sw] by auto
  next
    case 3
    have eq: "partition_loop compar hi (j + 1) i xs = (p, ys)"
      using "1.prems"(7) 3 by (simp add: partition_loop.simps [of compar hi j])
    have g: "0 \<le> compar (xs ! k) (xs ! hi)" if "i \<le> k" "k < j + 1" for k
      using ge [of k] that 3 by (cases "k = j") auto
    show ?thesis using "1.prems"(1-4) 3 eq by (intro "1.IH"(2) less g) auto
  qed
qed

lemma partition_step:
  assumes "lo < hi" "hi < length xs"
    and "partition_loop compar hi lo lo (median_of_three compar lo hi xs) = (p, ys)"
  shows "lo \<le> p \<and> p \<le> hi \<and> within lo hi xs (swap p hi ys) \<and>
    (\<forall>k. lo \<le> k \<and> k < p \<longrightarrow> compar (swap p hi ys ! k) (swap p hi ys ! p) < 0) \<and>
    (\<forall>k. p < k \<and> k \<le> hi \<longrightarrow> 0 \<le> compar (swap p hi ys ! k) (swap p hi ys ! p))"
proof -
  let ?zs = "median_of_three compar lo hi xs"
  have med: "within lo hi xs ?zs" by (rule within_median [OF assms(1,2)])
  have p: "lo \<le> p \<and> p \<le> hi \<and> within lo hi ?zs ys \<and> ys ! hi = ?zs ! hi \<and>
      (\<forall>k. lo \<le> k \<and> k < p \<longrightarrow> compar (ys ! k) (ys ! hi) < 0) \<and> (\<forall>k. p \<le> k \<and> k < hi \<longrightarrow> 0 \<le> compar (ys ! k) (ys ! hi))"
    using assms within_length [OF med] by (intro partition_loop_spec [where j = lo]) auto
  have len: "length ys = length xs" using p within_length [OF med] within_length [of lo hi ?zs ys] by simp
  have nth: "swap p hi ys ! k = ys ! (if k = hi then p else if k = p then hi else k)" for k
    using p len assms(2) by (simp add: swap_nth)
  have "within lo hi ys (swap p hi ys)" using within_swap [of lo p hi hi ys] p len assms(1,2) by simp
  with p have "within lo hi xs (swap p hi ys)" using within_trans [OF within_trans [OF med]] by blast
  moreover have "0 \<le> compar (swap p hi ys ! k) (swap p hi ys ! p)" if "p < k" "k \<le> hi" for k
    using p that unfolding nth by auto
  moreover have "compar (swap p hi ys ! k) (swap p hi ys ! p) < 0" if "lo \<le> k" "k < p" for k
    using p that unfolding nth by auto
  ultimately show ?thesis using p by blast
qed

subsection \<open>Pending ranges\<close>

type_synonym range = "nat \<times> nat"

definition range_size :: "range \<Rightarrow> nat" where
  "range_size = (\<lambda>(lo, hi). hi + 1 - lo)"

definition apart :: "range \<Rightarrow> range \<Rightarrow> bool" where
  "apart = (\<lambda>(lo, hi) (lo', hi'). hi < lo' \<or> hi' < lo)"

text \<open>A range at height \<open>k\<close> of the stack has at most \<open>n / 2 ^ k\<close> elements.\<close>

primrec stack_ok :: "nat \<Rightarrow> range list \<Rightarrow> bool" where
  "stack_ok n [] = True"
| "stack_ok n (r # st) \<longleftrightarrow> fst r < snd r \<and> snd r < n \<and> range_size r * 2 ^ length st \<le> n \<and> stack_ok n st"

text \<open>The comparison function is consistent, as the C standard demands of it.\<close>

locale comparison =
  fixes compar :: "'a \<Rightarrow> 'a \<Rightarrow> int"
  assumes antisym: "compar a b < 0 \<Longrightarrow> 0 \<le> compar b a"
    and trans: "0 \<le> compar b a \<Longrightarrow> 0 \<le> compar c b \<Longrightarrow> 0 \<le> compar c a"
begin

definition le :: "'a \<Rightarrow> 'a \<Rightarrow> bool" where
  "le a b \<longleftrightarrow> 0 \<le> compar b a"

lemma le_trans: "le a b \<Longrightarrow> le b c \<Longrightarrow> le a c"
  using trans unfolding le_def by blast

lemma less_le: "compar a b < 0 \<Longrightarrow> le a b"
  using antisym unfolding le_def by blast

text \<open>The array is in order except for pairs inside one pending range.\<close>

definition ordered_but :: "range set \<Rightarrow> 'a list \<Rightarrow> bool" where
  "ordered_but R xs \<longleftrightarrow>
     (\<forall>p q. p < q \<and> q < length xs \<and> (\<forall>(lo, hi) \<in> R. \<not> (lo \<le> p \<and> q \<le> hi)) \<longrightarrow> le (xs ! p) (xs ! q))"

lemma ordered_butD:
  assumes "ordered_but R xs" "p < q" "q < length xs" "\<And>lo hi. (lo, hi) \<in> R \<Longrightarrow> \<not> (lo \<le> p \<and> q \<le> hi)"
  shows "le (xs ! p) (xs ! q)"
  using assms unfolding ordered_but_def by blast

lemma ordered_drop_trivial:
  assumes "ordered_but (insert (lo, hi) R) xs" "hi \<le> lo"
  shows "ordered_but R xs"
  using assms unfolding ordered_but_def by fastforce

lemma ordered_split:
  assumes ord: "ordered_but (insert (lo, hi) R) xs" and R: "\<And>r. r \<in> R \<Longrightarrow> apart (lo, hi) r"
    and w: "within lo hi xs ys" and p: "lo \<le> p" "p \<le> hi" "hi < length xs"
    and left: "\<And>k. lo \<le> k \<Longrightarrow> k < p \<Longrightarrow> compar (ys ! k) (ys ! p) < 0"
    and right: "\<And>k. p < k \<Longrightarrow> k \<le> hi \<Longrightarrow> 0 \<le> compar (ys ! k) (ys ! p)"
    and cover: "\<And>a b. a < b \<Longrightarrow> lo \<le> a \<Longrightarrow> b \<le> hi \<Longrightarrow> b < p \<or> p < a \<Longrightarrow> \<exists>(l, h) \<in> R'. l \<le> a \<and> b \<le> h"
    and "R \<subseteq> R'"
  shows "ordered_but R' ys"
  unfolding ordered_but_def
proof (intro allI impI, elim conjE)
  fix a b assume ab: "a < b" "b < length ys" and out: "\<forall>(l, h)\<in>R'. \<not> (l \<le> a \<and> b \<le> h)"
  have same: "ys ! k = xs ! k" if "k < lo \<or> hi < k" for k using w that unfolding within_def by blast
  have moved: "\<exists>k'. lo \<le> k' \<and> k' \<le> hi \<and> ys ! k = xs ! k'" if "lo \<le> k" "k \<le> hi" for k
    using w that unfolding within_def by blast
  have outR: "\<not> (l \<le> a \<and> b \<le> h)" if "(l, h) \<in> R" for l h using out that \<open>R \<subseteq> R'\<close> by blast
  have far: "h < lo \<or> hi < l" if "(l, h) \<in> R" for l h using R [OF that] by (auto simp: apart_def)
  have len: "length ys = length xs" using w by (rule within_length)
  consider "lo \<le> a" "b \<le> hi" | "a < lo" "lo \<le> b" "b \<le> hi" | "lo \<le> a" "a \<le> hi" "hi < b"
    | "a < lo \<or> hi < a" "b < lo \<or> hi < b" using ab by linarith
  then show "le (ys ! a) (ys ! b)"
  proof cases
    case 1
    then have "a \<le> p \<and> p \<le> b" using cover [of a b] ab out by force
    then show ?thesis
      using left [of a] right [of b] 1 ab less_le le_trans [of "ys ! a" "ys ! p" "ys ! b"] unfolding le_def
      by (cases "a = p"; cases "b = p") auto
  next
    case 2
    then obtain b' where b': "lo \<le> b'" "b' \<le> hi" "ys ! b = xs ! b'" using moved by blast
    have "le (xs ! a) (xs ! b')"
    proof (rule ordered_butD [OF ord])
      fix l h assume "(l, h) \<in> insert (lo, hi) R"
      then show "\<not> (l \<le> a \<and> b' \<le> h)" using far [of l h] 2 b' by auto
    qed (use 2 b' p in auto)
    then show ?thesis using same [of a] 2 b' by simp
  next
    case 3
    then obtain a' where a': "lo \<le> a'" "a' \<le> hi" "ys ! a = xs ! a'" using moved by blast
    have "le (xs ! a') (xs ! b)"
    proof (rule ordered_butD [OF ord])
      fix l h assume "(l, h) \<in> insert (lo, hi) R"
      then show "\<not> (l \<le> a' \<and> b \<le> h)" using far [of l h] 3 a' by auto
    qed (use 3 a' ab len in auto)
    then show ?thesis using same [of b] 3 a' by simp
  next
    case 4
    have "le (xs ! a) (xs ! b)"
    proof (rule ordered_butD [OF ord])
      fix l h assume "(l, h) \<in> insert (lo, hi) R"
      then show "\<not> (l \<le> a \<and> b \<le> h)" using outR [of l h] 4 ab by auto
    qed (use ab len in auto)
    then show ?thesis using same 4 by simp
  qed
qed

text \<open>One round: the range is split at \<open>p\<close> into the parts \<open>big\<close> (pending from now on) and \<open>small\<close>.\<close>

definition range_inv :: "nat \<Rightarrow> range \<Rightarrow> range list \<Rightarrow> 'a list \<Rightarrow> bool" where
  "range_inv n r st xs \<longleftrightarrow>
     length xs = n \<and> n < 2 ^ 64 \<and> ordered_but (insert r (set st)) xs \<and> stack_ok n st \<and> sorted_wrt apart (r # st) \<and>
     snd r < n \<and> range_size r * 2 ^ length st \<le> n"

lemma push_fits:
  assumes "range_inv n (lo, hi) st xs" "lo < hi"
  shows "push_range a b st = Some ((a, b) # st)"
proof -
  have "2 * 2 ^ length st \<le> range_size (lo, hi) * 2 ^ length st" using assms(2) by (simp add: range_size_def)
  also have "\<dots> < 2 ^ 64" using assms(1) by (simp add: range_inv_def)
  finally have "(2 :: nat) ^ Suc (length st) < 2 ^ 64" by simp
  then have "Suc (length st) < 64" by (rule power_less_imp_less_exp [rotated]) simp
  then show ?thesis by (simp add: push_range_def)
qed

lemma range_inv_split:
  assumes inv: "range_inv n (lo, hi) st xs" and w: "within lo hi xs ys" and p: "lo \<le> p" "p \<le> hi"
    and left: "\<And>k. lo \<le> k \<Longrightarrow> k < p \<Longrightarrow> compar (ys ! k) (ys ! p) < 0"
    and right: "\<And>k. p < k \<Longrightarrow> k \<le> hi \<Longrightarrow> 0 \<le> compar (ys ! k) (ys ! p)"
    and parts: "big = (lo, p - 1) \<and> small = (p + 1, hi) \<and> 0 < p \<or>
      big = (p + 1, hi) \<and> small = (if p = 0 then (1, 0) else (lo, p - 1))"
    and half: "range_size small \<le> range_size big"
  shows "range_inv n small (if fst big < snd big then big # st else st) ys"
proof -
  have ord: "ordered_but (insert (lo, hi) (set st)) xs" and st: "stack_ok n st" and ap: "\<And>r. r \<in> set st \<Longrightarrow> apart (lo, hi) r"
    and srt: "sorted_wrt apart st" and len: "length xs = n" "n < 2 ^ 64" "hi < n" and fit: "range_size (lo, hi) * 2 ^ length st \<le> n"
    using inv by (auto simp: range_inv_def)
  let ?st = "if fst big < snd big then big # st else st"
  have sz: "range_size big + range_size small < range_size (lo, hi)"
    using parts p by (auto simp: range_size_def split: if_splits)
  have "range_size small * (2 * 2 ^ length st) = 2 * range_size small * 2 ^ length st" by simp
  also have "\<dots> \<le> range_size (lo, hi) * 2 ^ length st" using sz half by (intro mult_right_mono) auto
  finally have small: "range_size small * (2 * 2 ^ length st) \<le> n" using fit by (rule order_trans)
  have "range_size big * 2 ^ length st \<le> range_size (lo, hi) * 2 ^ length st" using sz by (intro mult_right_mono) auto
  then have big: "range_size big * 2 ^ length st \<le> n" using fit by (rule order_trans)
  have "ordered_but (insert small (set ?st)) ys"
  proof (rule ordered_split [OF ord ap w p])
    show "set st \<subseteq> insert small (set ?st)" by auto
  next
    fix a b assume "a < b" "lo \<le> a" "b \<le> hi" "b < p \<or> p < a"
    then show "\<exists>(l, h)\<in>insert small (set ?st). l \<le> a \<and> b \<le> h" using parts by auto
  qed (use left right len in auto)
  moreover have "apart small r \<and> apart big r" if "r \<in> set st" for r
    using ap [OF that] parts p by (auto simp: apart_def split: prod.splits if_splits)
  moreover have "apart small big" using parts p by (auto simp: apart_def split: if_splits)
  moreover have "stack_ok n ?st" using st big parts p len by auto
  moreover have "snd small < n" using parts p len by (auto split: if_splits)
  moreover have "range_size small * 2 ^ length ?st \<le> n" using small by (auto intro: order_trans [rotated])
  ultimately show ?thesis using within_length [OF w] len srt by (auto simp: range_inv_def)
qed

lemma qsort_range_correct:
  assumes "range_inv n (lo, hi) st xs"
  shows "\<exists>st' ys. qsort_range compar lo hi st xs = Some (st', ys) \<and> length ys = n \<and> mset ys = mset xs \<and>
    ordered_but (set st') ys \<and> stack_ok n st' \<and> sorted_wrt apart st' \<and>
    sum_list (map range_size st') \<le> sum_list (map range_size st) + range_size (lo, hi) \<and>
    (lo < hi \<longrightarrow> sum_list (map range_size st') < sum_list (map range_size st) + range_size (lo, hi))"
  using assms
proof (induction "hi + 1 - lo" arbitrary: lo hi st xs rule: less_induct)
  case less
  note inv = less.prems
  show ?case
  proof (cases "lo < hi")
    case False
    then have "ordered_but (set st) xs" using inv ordered_drop_trivial [of lo hi "set st" xs] by (simp add: range_inv_def)
    then show ?thesis using False inv by (simp add: qsort_range.simps [of compar lo] range_inv_def)
  next
    case True
    obtain p zs where part: "partition_loop compar hi lo lo (median_of_three compar lo hi xs) = (p, zs)" by fastforce
    let ?ys = "swap p hi zs"
    have ps: "lo \<le> p \<and> p \<le> hi \<and> within lo hi xs ?ys \<and> (\<forall>k. lo \<le> k \<and> k < p \<longrightarrow> compar (?ys ! k) (?ys ! p) < 0) \<and>
        (\<forall>k. p < k \<and> k \<le> hi \<longrightarrow> 0 \<le> compar (?ys ! k) (?ys ! p))"
      using inv by (intro partition_step [OF True _ part]) (simp add: range_inv_def)
    have ms: "mset ?ys = mset xs" using ps by (simp add: within_def)
    define big where "big = (if p - lo > hi - p then (lo, p - 1) else (p + 1, hi))"
    define small where "small = (if p - lo > hi - p then (p + 1, hi) else if p = 0 then (1, 0) else (lo, p - 1))"
    define st2 where "st2 = (if fst big < snd big then big # st else st)"
    have inv2: "range_inv n small st2 ?ys"
      unfolding st2_def by (rule range_inv_split [OF inv, of ?ys p]) (use ps in \<open>auto simp: big_def small_def range_size_def\<close>)
    have smaller: "range_size small < range_size (lo, hi)" using True ps by (auto simp: small_def range_size_def)
    have total: "range_size big + range_size small < range_size (lo, hi)"
      using True ps by (auto simp: small_def big_def range_size_def)
    have eq: "qsort_range compar lo hi st xs =
        (if \<not> p - lo > hi - p \<and> p = 0 then Some (st2, ?ys) else qsort_range compar (fst small) (snd small) st2 ?ys)"
      using True ps part push_fits [OF inv True]
      by (auto simp: qsort_range.simps [of compar lo hi] st2_def big_def small_def Let_def)
    have triv: "qsort_range compar 1 0 st2 ?ys = Some (st2, ?ys)" by (subst qsort_range.simps) simp
    have run: "qsort_range compar lo hi st xs = qsort_range compar (fst small) (snd small) st2 ?ys"
      unfolding eq using triv by (auto simp: small_def)
    have "\<exists>st' ys. qsort_range compar (fst small) (snd small) st2 ?ys = Some (st', ys) \<and> length ys = n \<and> mset ys = mset ?ys \<and>
      ordered_but (set st') ys \<and> stack_ok n st' \<and> sorted_wrt apart st' \<and>
      sum_list (map range_size st') \<le> sum_list (map range_size st2) + range_size (fst small, snd small) \<and>
      (fst small < snd small \<longrightarrow> sum_list (map range_size st') < sum_list (map range_size st2) + range_size (fst small, snd small))"
      using smaller inv2 by (intro less.hyps) (auto simp: range_size_def split_def)
    moreover have "sum_list (map range_size st2) + range_size small < sum_list (map range_size st) + range_size (lo, hi)"
      using total by (simp add: st2_def)
    ultimately show ?thesis unfolding run using ms by fastforce
  qed
qed

lemma qsort_loop_correct:
  assumes "length xs = n" "n < 2 ^ 64" "ordered_but (set st) xs" "stack_ok n st" "sorted_wrt apart st"
  shows "\<exists>ys. qsort_loop compar st xs = Some ys \<and> mset ys = mset xs \<and> ordered_but {} ys"
  using assms
proof (induction "sum_list (map range_size st)" arbitrary: st xs rule: less_induct)
  case less
  show ?case
  proof (cases st)
    case Nil
    then show ?thesis using less.prems by (simp add: qsort_loop.simps [of compar "[]"])
  next
    case (Cons r rest)
    obtain lo hi where r: "r = (lo, hi)" by fastforce
    have "range_inv n (lo, hi) rest xs" and "lo < hi" using less.prems by (auto simp: Cons r range_inv_def)
    from qsort_range_correct [OF this(1)] this(2) obtain st' ys where
      ok: "qsort_range compar lo hi rest xs = Some (st', ys)" "length ys = n" "mset ys = mset xs" "ordered_but (set st') ys"
        "stack_ok n st'" "sorted_wrt apart st'" "sum_list (map range_size st') < sum_list (map range_size rest) + range_size (lo, hi)"
      by blast
    have "\<exists>zs. qsort_loop compar st' ys = Some zs \<and> mset zs = mset ys \<and> ordered_but {} zs"
      using ok less.prems(2) by (intro less.hyps) (auto simp: Cons r)
    then show ?thesis using ok by (simp add: Cons r qsort_loop.simps [of compar "_ # _"])
  qed
qed

lemma sorted_wrt_ordered: "ordered_but {} xs \<longleftrightarrow> sorted_wrt le xs"
  by (auto simp: ordered_but_def sorted_wrt_iff_nth_less)

lemma qsort_sorts:
  assumes "length xs < 2 ^ 64"
  shows "\<exists>ys. qsort compar xs = Some ys \<and> mset ys = mset xs \<and> sorted_wrt le ys"
proof (cases "length xs < 2")
  case True
  then show ?thesis by (auto simp: qsort_def sorted_wrt_iff_nth_less)
next
  case False
  have "ordered_but {(0, length xs - 1)} xs" unfolding ordered_but_def by auto
  then have "\<exists>ys. qsort_loop compar [(0, length xs - 1)] xs = Some ys \<and> mset ys = mset xs \<and> ordered_but {} ys"
    using False assms by (intro qsort_loop_correct) (auto simp: range_size_def)
  then show ?thesis using False by (simp add: qsort_def sorted_wrt_ordered)
qed

end

subsection \<open>Sorting the entries of a directory\<close>

lemma str_compare_self [simp]: "str_compare xs xs = 0"
  by (induction xs) auto

lemma str_compare_flip: "str_compare xs ys = - str_compare ys xs"
  by (induction xs ys rule: str_compare.induct) auto

lemma str_compare_trans: "str_compare xs ys \<le> 0 \<Longrightarrow> str_compare ys zs \<le> 0 \<Longrightarrow> str_compare xs zs \<le> 0"
proof (induction xs ys arbitrary: zs rule: str_compare.induct)
  case (1 zs)
  then show ?case by simp
next
  case (2 d ds zs)
  then show ?case by (cases zs) auto
next
  case (3 c cs zs)
  then have "c = 0" by (simp add: uint_0_iff)
  then show ?case by (cases zs) auto
next
  case (4 c cs d ds zs)
  show ?case
  proof (cases zs)
    case Nil
    then show ?thesis using "4.prems" "4.IH" [of "[]"] by (cases ds) (auto split: if_splits simp: uint_0_iff)
  next
    case (Cons e es)
    then show ?thesis using "4.prems" "4.IH" [of es] by (auto split: if_splits simp: uint_0_iff simp flip: word_uint_eq_iff)
  qed
qed

interpretation ls: comparison cmp_entry
proof unfold_locales
  fix a b c
  show "cmp_entry a b < 0 \<Longrightarrow> 0 \<le> cmp_entry b a"
    using str_compare_flip [of "name a" "name b"] by (simp add: cmp_entry_def)
  show "0 \<le> cmp_entry b a \<Longrightarrow> 0 \<le> cmp_entry c b \<Longrightarrow> 0 \<le> cmp_entry c a"
    unfolding cmp_entry_def str_compare_flip [of "name b" "name a"] str_compare_flip [of "name c"]
    using str_compare_trans [of "name a" "name b" "name c"] by simp
qed

text \<open>Property C27. For a consistent comparison function and an array of fewer than \<open>2 ^ 64\<close> elements, \<^verbatim>\<open>qsort\<close> ends
  with the same elements in ascending order, and its stack of 64 pending ranges never overflows: the range it goes on with has at
  most half the elements of the one it came from.\<close>

theorem qsort_correct:
  assumes "\<And>a b. compar a b < 0 \<Longrightarrow> 0 \<le> compar b a"
    and "\<And>a b c. 0 \<le> compar b a \<Longrightarrow> 0 \<le> compar c b \<Longrightarrow> 0 \<le> compar c a"
    and "length xs < 2 ^ 64"
  shows "\<exists>ys. qsort compar xs = Some ys \<and> mset ys = mset xs \<and> sorted_wrt (\<lambda>a b. 0 \<le> compar b a) ys"
proof -
  have c: "comparison compar" using assms(1,2) by unfold_locales blast+
  have "comparison.le compar = (\<lambda>a b. 0 \<le> compar b a)" by (intro ext) (simp add: comparison.le_def [OF c])
  then show ?thesis using comparison.qsort_sorts [OF c assms(3)] by simp
qed

definition demo_entries :: "ls_entry list" where
  "demo_entries = [\<lparr>name = [108, 115], etype = 45, entry_size = 7\<rparr>, \<lparr>name = [97], etype = 100, entry_size = 3\<rparr>,
     \<lparr>name = [108], etype = 45, entry_size = 9\<rparr>]"

theorem qsort_correct_witness:
  "\<exists>ys. qsort cmp_entry demo_entries = Some ys \<and> mset ys = mset demo_entries \<and> sorted_wrt (\<lambda>a b. 0 \<le> cmp_entry b a) ys"
proof (rule qsort_correct)
  show "length demo_entries < 2 ^ 64" by (simp add: demo_entries_def)
qed (fact ls.antisym, fact ls.trans)

end
