(* ===== verification/Libc_Ctype.thy ===== *)
theory Libc_Ctype
  imports Prelude
begin

text \<open>
  Classes of characters, \<^verbatim>\<open>libc/ctype.c\<close>, and the comparison that ignores case, \<^verbatim>\<open>libc/string.c\<close>. A string is the list of the bytes before
  its terminator. Plain \<^verbatim>\<open>char\<close> is signed: a byte from 128 up is a negative argument, which like the byte is in no class.
\<close>

subsection \<open>Characters\<close>

text \<open>The bytes of a string literal.\<close>

definition to_bytes :: "string \<Rightarrow> u8 list" where
  "to_bytes cs = map of_char cs"

definition isspace :: "u8 \<Rightarrow> bool" where
  "isspace c \<longleftrightarrow> c = 32 \<or> c = 9 \<or> c = 10 \<or> c = 11 \<or> c = 12 \<or> c = 13"

definition isdigit :: "u8 \<Rightarrow> bool" where "isdigit c \<longleftrightarrow> 48 \<le> c \<and> c \<le> 57"
definition isupper :: "u8 \<Rightarrow> bool" where "isupper c \<longleftrightarrow> 65 \<le> c \<and> c \<le> 90"
definition islower :: "u8 \<Rightarrow> bool" where "islower c \<longleftrightarrow> 97 \<le> c \<and> c \<le> 122"
definition isalpha :: "u8 \<Rightarrow> bool" where "isalpha c \<longleftrightarrow> 97 \<le> c \<and> c \<le> 122 \<or> 65 \<le> c \<and> c \<le> 90"
definition isalnum :: "u8 \<Rightarrow> bool" where "isalnum c \<longleftrightarrow> isalpha c \<or> isdigit c"
definition isxdigit :: "u8 \<Rightarrow> bool" where "isxdigit c \<longleftrightarrow> isdigit c \<or> 97 \<le> c \<and> c \<le> 102 \<or> 65 \<le> c \<and> c \<le> 70"
definition ispunct :: "u8 \<Rightarrow> bool" where
  "ispunct c \<longleftrightarrow> 33 \<le> c \<and> c \<le> 47 \<or> 58 \<le> c \<and> c \<le> 64 \<or> 91 \<le> c \<and> c \<le> 96 \<or> 123 \<le> c \<and> c \<le> 126"
definition isprint :: "u8 \<Rightarrow> bool" where "isprint c \<longleftrightarrow> 32 \<le> c \<and> c < 127"
definition tolower :: "u8 \<Rightarrow> u8" where "tolower c = (if isupper c then c + (97 - 65) else c)"
definition toupper :: "u8 \<Rightarrow> u8" where "toupper c = (if islower c then c - (97 - 65) else c)"

text \<open>The character a pointer into the string points to, the terminator at its end.\<close>

definition peek :: "u8 list \<Rightarrow> u8" where
  "peek s = (case s of [] \<Rightarrow> 0 | c # _ \<Rightarrow> c)"

fun strcasecmp :: "u8 list \<Rightarrow> u8 list \<Rightarrow> int" where
  "strcasecmp (c # cs) (d # ds) = (if tolower c = tolower d then strcasecmp cs ds else uint (tolower c) - uint (tolower d))"
| "strcasecmp s1 s2 = uint (tolower (peek s1)) - uint (tolower (peek s2))"

end
