(* ===== verification/Libc_Number.thy ===== *)
theory Libc_Number
  imports Libc_Ctype "HOL-Library.Signed_Division"
begin

text \<open>
  Conversion between numbers and text: \<^verbatim>\<open>strtoul\<close>, \<^verbatim>\<open>strtol\<close> and \<^verbatim>\<open>atoi\<close> of \<^verbatim>\<open>libc/stdlib.c\<close>, \<^verbatim>\<open>itoa\<close> of
  \<^verbatim>\<open>libc/string.c\<close>. A string is the list of the bytes before its terminator.
\<close>

subsection \<open>Division of integers that are not negative\<close>

lemma sdiv_nonneg: "0 \<le> a \<Longrightarrow> 0 < b \<Longrightarrow> a sdiv b = a div b" for a b :: int
  by (cases "a = 0") (simp_all add: signed_divide_int_def)

lemma smod_nonneg: "0 \<le> a \<Longrightarrow> 0 < b \<Longrightarrow> a smod b = a mod b" for a b :: int
  by (cases "a = 0") (simp_all add: signed_modulo_int_def signed_divide_int_def minus_div_mult_eq_mod)

subsection \<open>The program\<close>

definition digit_value :: "u8 \<Rightarrow> int option" where
  "digit_value c =
     (if isdigit c then Some (uint c - 48) else if islower c then Some (uint c - 97 + 10)
      else if isupper c then Some (uint c - 65 + 10) else None)"

fun strtoul_loop :: "int \<Rightarrow> u64 \<Rightarrow> u8 list \<Rightarrow> u64 \<times> u8 list" where
  "strtoul_loop base result [] = (result, [])"
| "strtoul_loop base result (c # s) =
     (case digit_value c of
        None \<Rightarrow> (result, c # s)
      | Some d \<Rightarrow> if d \<ge> base then (result, c # s) else strtoul_loop base (result * word_of_int base + word_of_int d) s)"

definition is_x :: "u8 \<Rightarrow> bool" where "is_x c \<longleftrightarrow> c = 120 \<or> c = 88"

text \<open>The result and what is left of the string (\<^verbatim>\<open>*endptr\<close>).\<close>

definition strtoul :: "u8 list \<Rightarrow> int \<Rightarrow> u64 \<times> u8 list" where
  "strtoul nptr base =
     (let s = dropWhile isspace nptr;
          neg = (peek s = 45);
          s = (if peek s = 45 \<or> peek s = 43 then tl s else s);
          (base, s) =
            (if base = 0 then
               if peek s = 48 then if is_x (peek (tl s)) then (16, tl (tl s)) else (8, tl s) else (10, s)
             else if base = 16 \<and> peek s = 48 \<and> is_x (peek (tl s)) then (base, tl (tl s))
             else (base, s));
          (result, s) = strtoul_loop base 0 s
      in (if neg then - result else result, s))"

definition strtol :: "u8 list \<Rightarrow> int \<Rightarrow> int \<times> u8 list" where
  "strtol nptr base = (let (r, s) = strtoul nptr base in (sint r, s))"

definition atoi :: "u8 list \<Rightarrow> int" where
  "atoi s = int32 (fst (strtol s 10))"

text \<open>The digits of \<^verbatim>\<open>itoa\<close>, lowest first; the loop runs at least once.\<close>

function itoa_digits :: "int \<Rightarrow> u8 list" where
  "itoa_digits n = (48 + word_of_int (n smod 10)) # (if n sdiv 10 > 0 then itoa_digits (n sdiv 10) else [])"
  by pat_completeness auto
termination
proof (relation "measure nat")
  fix n :: int assume "n sdiv 10 > 0"
  moreover from this have "0 < n" by (cases "n < 0") (auto simp: signed_divide_int_def sgn_if split: if_splits)
  ultimately show "(n sdiv 10, n) \<in> measure nat" by (simp add: sdiv_nonneg)
qed simp

declare itoa_digits.simps [simp del]

definition itoa :: "int \<Rightarrow> u8 list" where
  "itoa n = (if n < 0 then 45 # rev (itoa_digits (int32 (-n))) else rev (itoa_digits n))"

subsection \<open>Round trips\<close>

lemma isdigit_digit:
  assumes "0 \<le> d" "d < 10"
  shows "digit_value (48 + word_of_int d) = Some d" "\<not> isspace (48 + word_of_int d)" "48 + word_of_int d \<noteq> (45 :: u8)" "48 + word_of_int d \<noteq> (43 :: u8)"
proof -
  have "d \<in> {0, 1, 2, 3, 4, 5, 6, 7, 8, 9}" unfolding insert_iff empty_iff using assms by presburger
  then show "digit_value (48 + word_of_int d) = Some d" "\<not> isspace (48 + word_of_int d)" "48 + word_of_int d \<noteq> (45 :: u8)" "48 + word_of_int d \<noteq> (43 :: u8)"
    by (auto simp: digit_value_def isdigit_def isspace_def)
qed

lemma itoa_digits_rec:
  assumes "0 \<le> n"
  shows "itoa_digits n = (48 + word_of_int (n mod 10)) # (if n \<ge> 10 then itoa_digits (n div 10) else [])"
  using assms by (subst itoa_digits.simps) (auto simp: sdiv_nonneg smod_nonneg)

lemma strtoul_loop_append:
  assumes "strtoul_loop b r xs = (r', [])"
  shows "strtoul_loop b r (xs @ ys) = strtoul_loop b r' ys"
  using assms by (induction xs arbitrary: r) (auto split: option.splits if_splits)

lemma strtoul_itoa_digits: "0 \<le> n \<Longrightarrow> strtoul_loop 10 0 (rev (itoa_digits n)) = (word_of_int n, [])"
proof (induction "nat n" arbitrary: n rule: less_induct)
  case less
  have dig: "digit_value (48 + word_of_int (n mod 10)) = Some (n mod 10)" by (intro isdigit_digit) simp_all
  show ?case
  proof (cases "n \<ge> 10")
    case True
    then have "strtoul_loop 10 0 (rev (itoa_digits (n div 10))) = (word_of_int (n div 10), [])" by (intro less.hyps) auto
    then have "strtoul_loop 10 0 (rev (itoa_digits n)) = (word_of_int (n div 10) * word_of_int 10 + word_of_int (n mod 10), [])"
      using less.prems True dig by (simp add: itoa_digits_rec [of n] strtoul_loop_append)
    also have "word_of_int (n div 10) * word_of_int 10 + word_of_int (n mod 10) = (word_of_int (n div 10 * 10 + n mod 10) :: u64)"
      by (simp only: wi_hom_mult wi_hom_add)
    finally show ?thesis by simp
  next
    case False
    then show ?thesis using less.prems dig by (simp add: itoa_digits_rec [of n])
  qed
qed

lemma hd_itoa_digits:
  assumes "0 \<le> n"
  shows "\<exists>d ds. rev (itoa_digits n) = (48 + word_of_int d) # ds \<and> 0 \<le> d \<and> d < 10"
  using assms
proof (induction "nat n" arbitrary: n rule: less_induct)
  case less
  show ?case
  proof (cases "n \<ge> 10")
    case True
    then have "\<exists>d ds. rev (itoa_digits (n div 10)) = (48 + word_of_int d) # ds \<and> 0 \<le> d \<and> d < 10" by (intro less.hyps) auto
    then show ?thesis using True less.prems by (auto simp: itoa_digits_rec [of n])
  next
    case False
    then show ?thesis using less.prems by (intro exI [of _ n] exI [of _ "[]"]) (simp add: itoa_digits_rec [of n])
  qed
qed

lemma strtoul_itoa:
  assumes "0 \<le> n"
  shows "strtoul (rev (itoa_digits n)) 10 = (word_of_int n, [])" "strtoul (45 # rev (itoa_digits n)) 10 = (- word_of_int n, [])"
proof -
  obtain d ds where d: "rev (itoa_digits n) = (48 + word_of_int d) # ds" "0 \<le> d" "d < 10" using hd_itoa_digits [OF assms] by blast
  note dd = isdigit_digit [OF d(2,3)]
  show "strtoul (rev (itoa_digits n)) 10 = (word_of_int n, [])"
    using strtoul_itoa_digits [OF assms] dd by (simp add: strtoul_def Let_def d(1) peek_def)
  show "strtoul (45 # rev (itoa_digits n)) 10 = (- word_of_int n, [])"
    using strtoul_itoa_digits [OF assms] by (simp add: strtoul_def Let_def peek_def isspace_def)
qed

lemma sint_word_of_int: "- (2 ^ 63) \<le> n \<Longrightarrow> n < 2 ^ 63 \<Longrightarrow> sint (word_of_int n :: u64) = n"
  by (simp add: signed_of_int signed_take_bit_int_eq_self)

text \<open>Reading back what \<^verbatim>\<open>itoa\<close> wrote gives the number, for every \<^verbatim>\<open>int\<close> but the smallest.\<close>

theorem atoi_itoa:
  assumes "- (2 ^ 31) < n" "n < 2 ^ 31"
  shows "atoi (itoa n) = n"
proof (cases "n < 0")
  case True
  have "int32 (- n) = - n" using assms by (intro int32_range) simp_all
  then have "strtoul (itoa n) 10 = (word_of_int n, [])" using True strtoul_itoa(2) [of "- n"] by (simp add: itoa_def)
  then show ?thesis using assms by (simp add: atoi_def strtol_def sint_word_of_int int32_range)
next
  case False
  then have "strtoul (itoa n) 10 = (word_of_int n, [])" using strtoul_itoa(1) [of n] by (simp add: itoa_def)
  then show ?thesis using assms by (simp add: atoi_def strtol_def sint_word_of_int int32_range)
qed

theorem atoi_itoa_witness: "atoi (itoa (-2147483647)) = -2147483647"
  by (rule atoi_itoa) simp_all

text \<open>The smallest number has no positive counterpart, and its one digit is not a digit.\<close>

lemma itoa_min: "itoa (- (2 ^ 31)) = [45, 40]"
  by (simp add: itoa_def int32_def itoa_digits.simps [of "- 2147483648"] signed_divide_int_def signed_modulo_int_def)

end
