(* ===== verification/Libc_Time.thy ===== *)
theory Libc_Time
  imports Libc_Number
begin

text \<open>
  Calendar time, \<^verbatim>\<open>libc/time.c\<close>. Division and remainder of C round towards zero (\<open>sdiv\<close>, \<open>smod\<close>). The static structure that
  \<^verbatim>\<open>localtime\<close> fills is its result; strings are lists of bytes, and reading outside a string constant is the result \<open>None\<close>.
\<close>

subsection \<open>The program\<close>

definition is_leap :: "int \<Rightarrow> bool" where
  "is_leap year \<longleftrightarrow> year smod 4 = 0 \<and> year smod 100 \<noteq> 0 \<or> year smod 400 = 0"

definition mdays :: "int list" where
  "mdays = [31, 28, 31, 30, 31, 30, 31, 31, 30, 31, 30, 31]"

definition days_in_month :: "nat \<Rightarrow> int \<Rightarrow> int" where
  "days_in_month mon year = (if mon = 1 \<and> is_leap year then 29 else mdays ! mon)"

record tm =
  tm_sec :: int
  tm_min :: int
  tm_hour :: int
  tm_mday :: int
  tm_mon :: nat
  tm_year :: int
  tm_wday :: int
  tm_yday :: int
  tm_isdst :: int

definition year_days :: "int \<Rightarrow> int" where
  "year_days year = (if is_leap year then 366 else 365)"

partial_function (option) year_loop :: "int \<Rightarrow> int \<Rightarrow> (int \<times> int) option" where
  "year_loop days year = (if days < year_days year then Some (year, days) else year_loop (days - year_days year) (year + 1))"

function month_loop :: "nat \<Rightarrow> int \<Rightarrow> int \<Rightarrow> nat \<times> int" where
  "month_loop mon days year =
     (if mon < 11 \<and> days \<ge> days_in_month mon year then month_loop (mon + 1) (days - days_in_month mon year) year else (mon, days))"
  by pat_completeness auto
termination by (relation "measure (\<lambda>(mon, _). 11 - mon)") auto

declare month_loop.simps [simp del]

definition localtime :: "int \<Rightarrow> tm option" where
  "localtime t =
     do {
       let secs = t smod 86400;
       let secs = (if secs < 0 then secs + 86400 else secs);
       let days = int32 (t sdiv 86400);
       (year, yday) \<leftarrow> year_loop days 1970;
       let (mon, d) = month_loop 0 yday year;
       Some \<lparr>tm_sec = secs smod 60, tm_min = secs smod 3600 sdiv 60, tm_hour = secs sdiv 3600, tm_mday = d + 1, tm_mon = mon,
             tm_year = year - 1900, tm_wday = (days smod 7 + 4) smod 7, tm_yday = yday, tm_isdst = 0\<rparr> }"

text \<open>\<^verbatim>\<open>fmt_int\<close>: the lowest \<open>width\<close> decimal digits.\<close>

fun fmt_int :: "int \<Rightarrow> nat \<Rightarrow> u8 list" where
  "fmt_int val 0 = []"
| "fmt_int val (Suc width) = fmt_int (val sdiv 10) width @ [48 + word_of_int (val smod 10)]"

definition chars3 :: "string \<Rightarrow> int \<Rightarrow> u8 list option" where
  "chars3 cs i = (if i < 0 \<or> 3 * nat i + 3 > length cs then None else Some (map of_char (take 3 (drop (3 * nat i) cs))))"

definition ctime_r :: "int \<Rightarrow> u8 list option" where
  "ctime_r t =
     do {
       tm \<leftarrow> localtime t;
       w \<leftarrow> chars3 ''SunMonTueWedThuFriSat'' (tm_wday tm);
       m \<leftarrow> chars3 ''JanFebMarAprMayJunJulAugSepOctNovDec'' (int (tm_mon tm));
       let d = (if tm_mday tm < 10 then [32, 48 + word_of_int (tm_mday tm)]
                else [48 + word_of_int (tm_mday tm sdiv 10), 48 + word_of_int (tm_mday tm smod 10)]);
       Some (w @ [32] @ m @ [32] @ d @ [32] @ fmt_int (tm_hour tm) 2 @ [58] @ fmt_int (tm_min tm) 2 @ [58] @
             fmt_int (tm_sec tm) 2 @ [32] @ fmt_int (tm_year tm + 1900) 4 @ [10]) }"

subsection \<open>The calendar\<close>

text \<open>Days from the first of January 1970 to the beginning of a year, and from there to the beginning of a month.\<close>

definition days_before_year :: "int \<Rightarrow> int" where
  "days_before_year year = (\<Sum>y \<in> {1970..<year}. year_days y)"

definition days_before_month :: "nat \<Rightarrow> int \<Rightarrow> int" where
  "days_before_month mon year = (\<Sum>m \<in> {0..<mon}. days_in_month m year)"

definition seconds_of :: "tm \<Rightarrow> int" where
  "seconds_of tm =
     (((days_before_year (tm_year tm + 1900) + days_before_month (tm_mon tm) (tm_year tm + 1900) + tm_mday tm - 1) * 24 + tm_hour tm) * 60 +
      tm_min tm) * 60 + tm_sec tm"

lemma year_days_pos: "365 \<le> year_days y"
  by (simp add: year_days_def)

lemma year_sum_step: "year \<le> y \<Longrightarrow> (\<Sum>k \<in> {year..<y}. f k) = (if year = y then 0 else f year + (\<Sum>k \<in> {year + 1..<y}. f k))"
  for f :: "int \<Rightarrow> int" and year y :: int
proof (cases "year = y")
  case False
  moreover assume "year \<le> y"
  ultimately have "{year..<y} = insert year {year + 1..<y}" by auto
  then show ?thesis using False by simp
qed simp

lemma year_loop_correct:
  "0 \<le> days \<Longrightarrow> \<exists>y d. year_loop days year = Some (y, d) \<and> year \<le> y \<and> 0 \<le> d \<and> d < year_days y \<and> days = (\<Sum>k \<in> {year..<y}. year_days k) + d"
proof (induction "nat days" arbitrary: days year rule: less_induct)
  case less
  show ?case
  proof (cases "days < year_days year")
    case True
    then show ?thesis using less.prems by (auto simp: year_loop.simps [of days])
  next
    case False
    let ?d = "days - year_days year"
    have "nat ?d < nat days" "0 \<le> ?d" using False less.prems year_days_pos [of year] by auto
    from less.hyps [OF this, of "year + 1"] obtain y d where
      ok: "year_loop ?d (year + 1) = Some (y, d)" "year + 1 \<le> y" "0 \<le> d" "d < year_days y" "?d = (\<Sum>k \<in> {year + 1..<y}. year_days k) + d"
      by blast
    have "year_loop days year = Some (y, d)" using False ok(1) by (subst year_loop.simps) simp
    moreover have "days = (\<Sum>k \<in> {year..<y}. year_days k) + d" using ok(2,5) year_sum_step [of year y year_days] by simp
    ultimately show ?thesis using ok(2-4) by (intro exI [of _ y] exI [of _ d]) simp
  qed
qed

lemma year_is_months: "(\<Sum>m \<in> {0..<12}. days_in_month m year) = year_days year"
  by (simp add: days_in_month_def mdays_def year_days_def eval_nat_numeral)

lemma month_loop_correct:
  assumes "mon \<le> 11" "0 \<le> days" "days_before_month mon year + days < year_days year"
    and "month_loop mon days year = (m, d)"
  shows "m \<le> 11 \<and> 0 \<le> d \<and> d < days_in_month m year \<and> days_before_month m year + d = days_before_month mon year + days"
  using assms
proof (induction mon days year rule: month_loop.induct)
  case (1 mon days year)
  show ?case
  proof (cases "mon < 11 \<and> days_in_month mon year \<le> days")
    case True
    then have "month_loop (mon + 1) (days - days_in_month mon year) year = (m, d)" using "1.prems"(4) by (simp add: month_loop.simps [of mon])
    then show ?thesis using "1.IH" [OF True] True "1.prems"(1-3) by (simp add: days_before_month_def)
  next
    case False
    have "days < days_in_month mon year"
    proof (cases "mon = 11")
      case True
      have "year_days year = days_before_month 11 year + days_in_month 11 year"
        using year_is_months [of year] by (simp add: days_before_month_def sum.atLeast0_lessThan_Suc [of _ 11, simplified])
      then show ?thesis using "1.prems"(3) True by simp
    qed (use False "1.prems"(1) in auto)
    then show ?thesis using False "1.prems" by (auto simp: month_loop.simps [of mon])
  qed
qed

lemma int32_small: "0 \<le> x \<Longrightarrow> x < 2 ^ 31 \<Longrightarrow> int32 x = x"
  using sint_small [of "word_of_int x :: u32"] by (simp add: int32_def unsigned_of_int take_bit_int_eq_self)

lemma clock_seconds: "(s div 3600 * 60 + s mod 3600 div 60) * 60 + s mod 60 = s" for s :: int
proof -
  have "s mod 60 = s mod 3600 mod 60" by (simp add: mod_mod_cancel)
  then have "s mod 3600 div 60 * 60 + s mod 60 = s mod 3600" using div_mult_mod_eq [of "s mod 3600" 60] by simp
  moreover have "(a * 60 + b) * 60 + c = s" if "b * 60 + c = r" "a * 3600 + r = s" for a b c r using that by simp
  ultimately show ?thesis using div_mult_mod_eq [of s 3600] by blast
qed

lemma localtime_eq:
  assumes "0 \<le> t" "t < 86400 * 2 ^ 31"
  obtains tm where "localtime t = Some tm" "seconds_of tm = t"
    "0 \<le> tm_sec tm" "tm_sec tm < 60" "0 \<le> tm_min tm" "tm_min tm < 60" "0 \<le> tm_hour tm" "tm_hour tm < 24"
    "tm_mon tm < 12" "1 \<le> tm_mday tm" "tm_mday tm \<le> days_in_month (tm_mon tm) (tm_year tm + 1900)" "70 \<le> tm_year tm"
    "tm_yday tm = days_before_month (tm_mon tm) (tm_year tm + 1900) + tm_mday tm - 1" "tm_wday tm = (t div 86400 + 4) mod 7"
proof -
  let ?days = "t div 86400" and ?secs = "t mod 86400"
  have d: "0 \<le> ?days" "?days < 2 ^ 31" using assms by (auto simp: div_less_iff_less_mult)
  have s: "0 \<le> ?secs" "?secs < 86400" by simp_all
  from year_loop_correct [OF d(1), of 1970] obtain y yd where
    y: "year_loop ?days 1970 = Some (y, yd)" "1970 \<le> y" "0 \<le> yd" "yd < year_days y" "?days = days_before_year y + yd"
    by (auto simp: days_before_year_def)
  obtain m dd where ml: "month_loop 0 yd y = (m, dd)" by fastforce
  have m: "m \<le> 11 \<and> 0 \<le> dd \<and> dd < days_in_month m y \<and> days_before_month m y + dd = days_before_month 0 y + yd"
    using y(3,4) by (intro month_loop_correct [OF _ _ _ ml]) (simp_all add: days_before_month_def)
  define tm where "tm = \<lparr>tm_sec = ?secs mod 60, tm_min = ?secs mod 3600 div 60, tm_hour = ?secs div 3600, tm_mday = dd + 1, tm_mon = m,
    tm_year = y - 1900, tm_wday = (?days mod 7 + 4) mod 7, tm_yday = yd, tm_isdst = 0\<rparr>"
  have "localtime t = Some tm"
    using assms d s y(1) ml by (simp add: localtime_def tm_def sdiv_nonneg smod_nonneg int32_small Let_def)
  moreover have "seconds_of tm = t"
  proof -
    have "days_before_year y + days_before_month m y + dd = ?days" using y(5) m by (simp add: days_before_month_def)
    then have "seconds_of tm = ?days * 86400 + ((?secs div 3600 * 60 + ?secs mod 3600 div 60) * 60 + ?secs mod 60)"
      by (simp add: seconds_of_def tm_def algebra_simps del: mod_mod_cancel)
    also have "\<dots> = t" unfolding clock_seconds by simp
    finally show ?thesis .
  qed
  moreover have "0 \<le> tm_hour tm" "tm_hour tm < 24" "0 \<le> tm_min tm" "tm_min tm < 60" "0 \<le> tm_sec tm" "tm_sec tm < 60"
    using s by (simp_all add: tm_def div_less_iff_less_mult div_int_pos_iff)
  moreover have "tm_wday tm = (?days + 4) mod 7" by (simp add: tm_def mod_add_left_eq)
  moreover have "tm_mon tm < 12" "1 \<le> tm_mday tm" "tm_mday tm \<le> days_in_month (tm_mon tm) (tm_year tm + 1900)" "70 \<le> tm_year tm"
    "tm_yday tm = days_before_month (tm_mon tm) (tm_year tm + 1900) + tm_mday tm - 1"
    using m y(2) by (simp_all add: tm_def days_before_month_def)
  ultimately show thesis by (intro that) (assumption | simp only:)+
qed

text \<open>For a time between 1970 and day \<open>2 ^ 31\<close>, \<^verbatim>\<open>localtime\<close> returns a date in the calendar: every field is in its range,
  the day exists in its month and year, the day of the year and the day of the week belong to it, and counting the seconds back from the date gives
  the time.\<close>

theorem localtime_correct:
  assumes "0 \<le> t" "t < 86400 * 2 ^ 31"
  shows "\<exists>tm. localtime t = Some tm \<and> seconds_of tm = t \<and> tm_sec tm \<in> {0..<60} \<and> tm_min tm \<in> {0..<60} \<and> tm_hour tm \<in> {0..<24} \<and>
    tm_mon tm < 12 \<and> tm_mday tm \<in> {1..days_in_month (tm_mon tm) (tm_year tm + 1900)} \<and>
    tm_yday tm = days_before_month (tm_mon tm) (tm_year tm + 1900) + tm_mday tm - 1 \<and> tm_wday tm = (t div 86400 + 4) mod 7"
  using localtime_eq [OF assms] by (metis atLeastAtMost_iff atLeastLessThan_iff)

theorem localtime_correct_witness:
  "\<exists>tm. localtime 951827696 = Some tm \<and> seconds_of tm = 951827696 \<and> tm_sec tm \<in> {0..<60} \<and> tm_min tm \<in> {0..<60} \<and> tm_hour tm \<in> {0..<24} \<and>
    tm_mon tm < 12 \<and> tm_mday tm \<in> {1..days_in_month (tm_mon tm) (tm_year tm + 1900)} \<and>
    tm_yday tm = days_before_month (tm_mon tm) (tm_year tm + 1900) + tm_mday tm - 1 \<and> tm_wday tm = (951827696 div 86400 + 4) mod 7"
  by (rule localtime_correct) simp_all

text \<open>Before 1970 the hour is taken from the day before, but the day is not.\<close>

lemma localtime_before_1970: "\<exists>tm. localtime (-1) = Some tm \<and> tm_hour tm = 23 \<and> tm_mday tm = 1 \<and> tm_year tm = 70 \<and> tm_mon tm = 0"
  by (simp add: localtime_def int32_def signed_divide_int_def signed_modulo_int_def year_loop.simps [of 0] year_days_def is_leap_def
      month_loop.simps [of 0] days_in_month_def mdays_def)

end
