(* ===== verification/Libc_Stdlib.thy ===== *)
theory Libc_Stdlib
  imports Syscall_Proc Libc_Number
begin

text \<open>
  Parts of \<^verbatim>\<open>libc/stdlib.c\<close>, \<^verbatim>\<open>libc/string.c\<close> and \<^verbatim>\<open>sys/wait.h\<close> that report the status of a process and run a program,
  and how they fit the system calls behind them. A string is the list of the bytes before its terminator.
\<close>

subsection \<open>Waiting for a process\<close>

definition WIFEXITED :: "int \<Rightarrow> bool" where "WIFEXITED s \<longleftrightarrow> s AND 0x7f = 0"
definition WEXITSTATUS :: "int \<Rightarrow> int" where "WEXITSTATUS s = drop_bit 8 s AND 0xff"
definition WIFSTOPPED :: "int \<Rightarrow> bool" where "WIFSTOPPED s \<longleftrightarrow> s AND 0xff = 0x7f"
definition WSTOPSIG :: "int \<Rightarrow> int" where "WSTOPSIG s = drop_bit 8 s AND 0xff"
definition WIFSIGNALED :: "int \<Rightarrow> bool" where "WIFSIGNALED s \<longleftrightarrow> s AND 0x7f \<noteq> 0 \<and> s AND 0x7f \<noteq> 0x7f"
definition WTERMSIG :: "int \<Rightarrow> int" where "WTERMSIG s = s AND 0x7f"

text \<open>\<^verbatim>\<open>wait\<close> and \<^verbatim>\<open>waitpid\<close>: the process and the status they make of the value of the system call.\<close>

definition waitpid :: "int \<Rightarrow> int \<times> int option" where
  "waitpid ret = (if ret < 0 then (-1, None) else (drop_bit 16 ret, Some (ret AND 0xffff)))"

subsection \<open>Running a program\<close>

text \<open>Append to the buffer of 2047 characters.\<close>

definition put_capped :: "u8 list \<Rightarrow> u8 list \<Rightarrow> u8 list" where
  "put_capped buf cs = buf @ take (2047 - length buf) cs"

definition exec_path :: "u8 list \<Rightarrow> u8 list" where
  "exec_path file_name = (if SLASH \<in> set file_name then file_name else take 255 ([47, 98, 105, 110, 47] @ file_name))"

definition execvp_cmdline :: "u8 list \<Rightarrow> u8 list list \<Rightarrow> u8 list" where
  "execvp_cmdline file_name args = fold (\<lambda>arg buf. put_capped (put_capped buf [32]) arg) args (put_capped [] (exec_path file_name))"

subsection \<open>Round trips\<close>

subsubsection \<open>Status of a process\<close>

lemma uint32_of_int: "0 \<le> x \<Longrightarrow> x < 2 ^ 32 \<Longrightarrow> uint (word_of_int x :: u32) = x"
  by (simp add: unsigned_of_int take_bit_int_eq_self)

lemma wait_word_eq:
  assumes "0 \<le> p" "p < 2 ^ 15" "uint low < 2 ^ 16"
  shows "wait_word p low = p * 65536 + uint low"
proof -
  have "push_bit 16 (word_of_int p) AND low = (0 :: u32)"
  proof (rule bit_word_eqI)
    fix k
    have "bit low k \<Longrightarrow> k < 16"
    proof -
      assume "bit low k"
      then have "bit (uint low) k" by (auto simp: bit_uint_iff dest: bit_imp_le_length)
      moreover have "take_bit 16 (uint low) = uint low" using assms(3) by (simp add: take_bit_int_eq_self)
      ultimately show "k < 16" by (metis bit_take_bit_iff)
    qed
    then show "bit (push_bit 16 (word_of_int p) AND low) k \<longleftrightarrow> bit (0 :: u32) k" by (auto simp: bit_simps)
  qed
  then have "push_bit 16 (word_of_int p) OR low = push_bit 16 (word_of_int p) + low" by (simp add: disjunctive_add_eq_or)
  also have "\<dots> = word_of_int (p * 65536 + uint low)" by (simp add: push_bit_eq_mult wi_hom_mult [symmetric])
  finally have "wait_word p low = int32 (p * 65536 + uint low)" by (simp only: wait_word_def int32_def)
  moreover have "- (2 ^ 31) \<le> p * 65536 + l \<and> p * 65536 + l < 2 ^ 31" if "0 \<le> l" "l < 2 ^ 16" for l using that assms(1,2) by simp
  ultimately show ?thesis using int32_range assms(3) uint_nonnegative [of low] by metis
qed

lemma waitpid_word:
  assumes "0 \<le> p" "p < 2 ^ 15" "uint low < 2 ^ 16"
  shows "waitpid (wait_word p low) = (p, Some (uint low))"
proof -
  have "(p * 65536 + uint low) AND 0xffff = take_bit 16 (p * 65536 + uint low)" by (simp add: take_bit_eq_mask mask_eq_exp_minus_1)
  also have "\<dots> = uint low" using assms(3) by (simp add: take_bit_eq_mod)
  finally have "(p * 65536 + uint low) AND 0xffff = uint low" .
  moreover have "drop_bit 16 (p * 65536 + uint low) = p" using assms(3) by (simp add: drop_bit_eq_div)
  moreover have "0 \<le> p * 65536 + uint low" using assms(1) by simp
  ultimately show ?thesis unfolding waitpid_def wait_word_eq [OF assms] by simp
qed

lemma exit_low:
  assumes "0 \<le> c" "c < 256"
  shows "uint (push_bit 8 (word_of_int c) :: u32) = c * 256"
proof -
  have "push_bit 8 (word_of_int c) = (word_of_int (c * 256) :: u32)" by (simp add: push_bit_eq_mult)
  then have "uint (push_bit 8 (word_of_int c) :: u32) = uint (word_of_int (c * 256) :: u32)" by (rule arg_cong)
  also have "\<dots> = c * 256" using assms by (intro uint32_of_int) simp_all
  finally show ?thesis .
qed

lemma signal_low:
  assumes "0 \<le> c" "c < 128"
  shows "uint (word_of_int c AND 0x7f :: u32) = c"
proof -
  have "(word_of_int c AND 0x7f :: u32) = take_bit 7 (word_of_int c)" by (simp add: take_bit_eq_mask mask_eq_exp_minus_1)
  also have "uint \<dots> = take_bit 7 (uint (word_of_int c :: u32))" by (simp add: unsigned_take_bit_eq)
  also have "\<dots> = c" using assms by (simp add: unsigned_of_int take_bit_int_eq_self)
  finally show ?thesis .
qed

lemma stop_low:
  assumes "0 \<le> c" "c < 256"
  shows "uint (push_bit 8 (word_of_int c) OR 0x7f :: u32) = c * 256 + 127"
proof -
  have m: "(0x7f :: u32) = mask 7" by (simp add: mask_eq_exp_minus_1)
  have "push_bit 8 (word_of_int c) AND 0x7f = (0 :: u32)"
    unfolding m by (rule bit_word_eqI) (auto simp: bit_simps)
  then have "(push_bit 8 (word_of_int c) OR 0x7f :: u32) = push_bit 8 (word_of_int c) + 0x7f" by (simp add: disjunctive_add_eq_or)
  also have "\<dots> = word_of_int (c * 256 + 127)" by (simp add: push_bit_eq_mult)
  finally have "uint (push_bit 8 (word_of_int c) OR 0x7f :: u32) = uint (word_of_int (c * 256 + 127) :: u32)" by (rule arg_cong)
  also have "\<dots> = c * 256 + 127" using assms by (intro uint32_of_int) simp_all
  finally show ?thesis .
qed

lemma low_masks: "s AND 0x7f = s mod 128" "s AND 0xff = s mod 256" for s :: int
  using take_bit_eq_mask [of 7 s] take_bit_eq_mask [of 8 s] by (simp_all add: take_bit_eq_mod mask_eq_exp_minus_1)

lemma multiple_mod: "c * 256 mod 128 = 0" "(c * 256 + 127) mod 128 = 127" "(c * 256 + 127) mod 256 = 127" "(c * 256 + 127) div 256 = c" for c :: int
proof -
  have e: "c * 256 = (c * 2) * 128" by simp
  show "c * 256 mod 128 = 0" "(c * 256 + 127) mod 128 = 127" unfolding e mod_mult_self3 by simp_all
qed simp_all

lemmas macros = WIFEXITED_def WEXITSTATUS_def WIFSIGNALED_def WIFSTOPPED_def WTERMSIG_def WSTOPSIG_def low_masks drop_bit_eq_div multiple_mod

text \<open>What the kernel reports of a child is what the macros of \<^verbatim>\<open>sys/wait.h\<close> read, for process numbers below \<open>2 ^ 15\<close>:
  an exit with code 0 to 255, death by signal 1 to 126, or a stop by signal 1 to 255; each is told apart from the other two.\<close>

theorem wait_status_roundtrip:
  assumes "0 \<le> p" "p < 2 ^ 15"
  shows "(0 \<le> code \<and> code < 256 \<longrightarrow> (\<exists>s. waitpid (wait_status p code) = (p, Some s) \<and> WIFEXITED s \<and> WEXITSTATUS s = code \<and> \<not> WIFSIGNALED s \<and> \<not> WIFSTOPPED s)) \<and>
    (0 < sig \<and> sig < 127 \<longrightarrow> (\<exists>s. waitpid (wait_status p (- sig)) = (p, Some s) \<and> WIFSIGNALED s \<and> WTERMSIG s = sig \<and> \<not> WIFEXITED s \<and> \<not> WIFSTOPPED s)) \<and>
    (0 < sig' \<and> sig' < 256 \<longrightarrow> (\<exists>s. waitpid (stop_status p sig') = (p, Some s) \<and> WIFSTOPPED s \<and> WSTOPSIG s = sig' \<and> \<not> WIFEXITED s \<and> \<not> WIFSIGNALED s))"
proof (intro conjI)
  show "0 \<le> code \<and> code < 256 \<longrightarrow> (\<exists>s. waitpid (wait_status p code) = (p, Some s) \<and> WIFEXITED s \<and> WEXITSTATUS s = code \<and> \<not> WIFSIGNALED s \<and> \<not> WIFSTOPPED s)"
  proof
    assume c: "0 \<le> code \<and> code < 256"
    then have "waitpid (wait_status p code) = (p, Some (code * 256))"
      using waitpid_word [OF assms, of "push_bit 8 (word_of_int code)"] exit_low [of code] by (simp add: wait_status_def)
    then show "\<exists>s. waitpid (wait_status p code) = (p, Some s) \<and> WIFEXITED s \<and> WEXITSTATUS s = code \<and> \<not> WIFSIGNALED s \<and> \<not> WIFSTOPPED s"
      using c by (simp add: macros)
  qed
  show "0 < sig \<and> sig < 127 \<longrightarrow> (\<exists>s. waitpid (wait_status p (- sig)) = (p, Some s) \<and> WIFSIGNALED s \<and> WTERMSIG s = sig \<and> \<not> WIFEXITED s \<and> \<not> WIFSTOPPED s)"
  proof
    assume c: "0 < sig \<and> sig < 127"
    then have "waitpid (wait_status p (- sig)) = (p, Some sig)"
      using waitpid_word [OF assms, of "word_of_int sig AND 0x7f"] signal_low [of sig] by (simp add: wait_status_def)
    then show "\<exists>s. waitpid (wait_status p (- sig)) = (p, Some s) \<and> WIFSIGNALED s \<and> WTERMSIG s = sig \<and> \<not> WIFEXITED s \<and> \<not> WIFSTOPPED s"
      using c by (simp add: macros)
  qed
  show "0 < sig' \<and> sig' < 256 \<longrightarrow> (\<exists>s. waitpid (stop_status p sig') = (p, Some s) \<and> WIFSTOPPED s \<and> WSTOPSIG s = sig' \<and> \<not> WIFEXITED s \<and> \<not> WIFSIGNALED s)"
  proof
    assume c: "0 < sig' \<and> sig' < 256"
    then have "waitpid (stop_status p sig') = (p, Some (sig' * 256 + 127))"
      using waitpid_word [OF assms, of "push_bit 8 (word_of_int sig') OR 0x7f"] stop_low [of sig'] by (simp add: stop_status_def)
    then show "\<exists>s. waitpid (stop_status p sig') = (p, Some s) \<and> WIFSTOPPED s \<and> WSTOPSIG s = sig' \<and> \<not> WIFEXITED s \<and> \<not> WIFSIGNALED s"
      using c by (simp add: macros)
  qed
qed

theorem wait_status_roundtrip_witness:
  "\<exists>s. waitpid (wait_status 7 3) = (7, Some s) \<and> WIFEXITED s \<and> WEXITSTATUS s = 3 \<and> \<not> WIFSIGNALED s \<and> \<not> WIFSTOPPED s"
  using wait_status_roundtrip [of 7 3] by simp

subsubsection \<open>Arguments of a program\<close>

text \<open>A word of a command line, as the kernel reads it.\<close>

definition is_word :: "u8 list \<Rightarrow> bool" where
  "is_word w \<longleftrightarrow> w \<noteq> [] \<and> 32 \<notin> set w"

lemma takeWhile_word: "32 \<notin> set w \<Longrightarrow> takeWhile (\<lambda>c. c \<noteq> 32) (w @ 32 # rest) = w \<and> dropWhile (\<lambda>c. c \<noteq> 32) (w @ 32 # rest) = 32 # rest"
  by (induction w) auto

lemma parse_args_join:
  assumes "is_word w" "\<forall>a \<in> set ws. is_word a"
  shows "parse_args n (w @ concat (map (\<lambda>a. 32 # a) ws)) = take n (w # ws)"
  using assms
proof (induction ws arbitrary: w n)
  case Nil
  have "dropWhile (\<lambda>c. c = 32) w = w" "takeWhile (\<lambda>c. c \<noteq> 32) w = w" "dropWhile (\<lambda>c. c \<noteq> 32) w = []"
    using Nil.prems by (cases w; auto simp: is_word_def takeWhile_eq_all_conv)+
  moreover have "parse_args k [] = []" for k by (cases k) simp_all
  ultimately show ?case using Nil.prems by (cases n) (auto simp: is_word_def simp del: dropWhile_eq_Nil_conv)
next
  case (Cons a ws)
  let ?s = "w @ 32 # a @ concat (map (\<lambda>a. 32 # a) ws)"
  have "dropWhile (\<lambda>c. c = 32) ?s = ?s" "?s \<noteq> []" using Cons.prems by (cases w; auto simp: is_word_def)+
  then show ?case using Cons takeWhile_word [of w] by (cases n) (auto simp: is_word_def)
qed

lemma put_capped_fits: "length buf + length cs \<le> 2047 \<Longrightarrow> put_capped buf cs = buf @ cs"
  by (simp add: put_capped_def)

lemma execvp_cmdline_join:
  assumes "length buf + length (concat (map (\<lambda>a. 32 # a) args)) \<le> 2047"
  shows "fold (\<lambda>arg buf. put_capped (put_capped buf [32]) arg) args buf = buf @ concat (map (\<lambda>a. 32 # a) args)"
  using assms by (induction args arbitrary: buf) (simp_all add: put_capped_fits)

text \<open>The kernel finds in the command line that \<^verbatim>\<open>execvp\<close> builds exactly the path of the program and its arguments, provided that
  they are non-empty, contain no space, are at most 64 and fit into 2047 characters together.\<close>

theorem execvp_arguments:
  assumes "is_word (exec_path file_name)" "\<forall>a \<in> set args. is_word a" "length args < 64"
    and "length (exec_path file_name) + length (concat (map (\<lambda>a. 32 # a) args)) \<le> 2047"
  shows "parse_args 64 (execvp_cmdline file_name args) = exec_path file_name # args"
proof -
  have "execvp_cmdline file_name args = exec_path file_name @ concat (map (\<lambda>a. 32 # a) args)"
    using assms(4) execvp_cmdline_join [of "exec_path file_name" args] by (simp add: execvp_cmdline_def put_capped_fits)
  then show ?thesis using parse_args_join [OF assms(1,2), of 64] assms(3) by simp
qed

theorem execvp_arguments_witness:
  "parse_args 64 (execvp_cmdline [108, 115] [[45, 108], [47]]) = exec_path [108, 115] # [[45, 108], [47]]"
  by (rule execvp_arguments) (simp_all add: exec_path_def is_word_def SLASH_def)

end
