(* ===== verification/As_Encode.thy ===== *)
theory As_Encode
  imports Libc_Ctype "HOL-Library.Signed_Division"
begin

text \<open>
  The instruction encoder of the assembler, \<^verbatim>\<open>cmd/as/encode.c\<close>: one definition per function, in the order of the file. Arguments of type
  \<^verbatim>\<open>int\<close> and \<^verbatim>\<open>int64_t\<close> are integers, an instruction is a 32-bit word, \<open>fld x k\<close> is \<^verbatim>\<open>(uint32_t)x << k\<close>. A call of
  \<^verbatim>\<open>error\<close>, which ends the assembler, is the result \<open>None\<close>; the return value -1 of the operand checks is kept.
\<close>

subsection \<open>Operands\<close>

datatype TokenKind =
    TOK_EOF | TOK_NEWLINE | TOK_LABEL | TOK_IDENT | TOK_REGISTER | TOK_NUMBER | TOK_STRING | TOK_HASH | TOK_COMMA | TOK_LBRACKET
  | TOK_RBRACKET | TOK_BANG | TOK_COLON | TOK_EQUALS | TOK_LO12 | TOK_DOT | TOK_PLUS | TOK_MINUS | TOK_PERCENT | TOK_LPAREN | TOK_RPAREN
  | TOK_PIPE | TOK_LSHIFT | TOK_BACKSLASH

datatype RegType = REG_GP | REG_FP | REG_SP | REG_ZR

text \<open>The fields of a token that the encoder reads.\<close>

record Token =
  tok_kind :: TokenKind
  reg_num :: int
  reg_type :: RegType

definition encode_gpr :: "Token \<Rightarrow> int" where
  "encode_gpr tok = (if tok_kind tok \<noteq> TOK_REGISTER then -1 else if reg_type tok = REG_FP then -1 else reg_num tok)"

definition encode_fpr :: "Token \<Rightarrow> int" where
  "encode_fpr tok = (if tok_kind tok \<noteq> TOK_REGISTER then -1 else if reg_type tok \<noteq> REG_FP then -1 else reg_num tok)"

text \<open>Search in a table of names, ignoring case.\<close>

fun table_find :: "(string \<times> int) list \<Rightarrow> u8 list \<Rightarrow> int" where
  "table_find [] nm = -1"
| "table_find ((s, v) # rest) nm = (if strcasecmp nm (to_bytes s) = 0 then v else table_find rest nm)"

definition conds :: "(string \<times> int) list" where
  "conds = [(''eq'', 0), (''ne'', 1), (''cs'', 2), (''hs'', 2), (''cc'', 3), (''lo'', 3), (''mi'', 4), (''pl'', 5), (''vs'', 6), (''vc'', 7),
     (''hi'', 8), (''ls'', 9), (''ge'', 10), (''lt'', 11), (''gt'', 12), (''le'', 13), (''al'', 14)]"

definition encode_cond :: "u8 list \<Rightarrow> int" where
  "encode_cond cond_str = table_find conds cond_str"

text \<open>The value and the new contents of \<^verbatim>\<open>*shift\<close>.\<close>

definition encode_imm12 :: "int \<Rightarrow> int \<Rightarrow> int \<times> int" where
  "encode_imm12 val shift =
     (if val < 0 then (-1, shift)
      else if val \<le> 0xFFF then (val, 0)
      else if val AND 0xFFF = 0 \<and> drop_bit 12 val \<le> 0xFFF then (drop_bit 12 val, 12)
      else (-1, shift))"

definition encode_imm16 :: "int \<Rightarrow> int" where
  "encode_imm16 val = (if val < 0 \<or> val > 0xFFFF then -1 else val)"

definition encode_imm9 :: "int \<Rightarrow> int" where
  "encode_imm9 val = (if val < -256 \<or> val > 255 then -1 else val AND 0x1FF)"

definition encode_imm7 :: "int \<Rightarrow> nat \<Rightarrow> int" where
  "encode_imm7 val scale =
     (let unit = push_bit scale 1 in
      if val smod unit \<noteq> 0 then -1
      else let imm = drop_bit scale val in
        if imm < -64 \<or> imm > 63 then -1 else imm AND 0x7F)"

definition encode_imm12_unsigned :: "int \<Rightarrow> nat \<Rightarrow> int" where
  "encode_imm12_unsigned val scale =
     (if val < 0 then -1
      else let unit = push_bit scale 1 in
        if val smod unit \<noteq> 0 then -1
        else let imm = drop_bit scale val in
          if imm > 0xFFF then -1 else imm)"

definition invert_cond :: "int \<Rightarrow> int" where
  "invert_cond cond = cond XOR 1"

definition encode_imm21 :: "int \<Rightarrow> int" where
  "encode_imm21 val = (if val < - (2 ^ 20) \<or> val \<ge> 2 ^ 20 then -1 else val AND 0x1FFFFF)"

definition encode_branch26 :: "int \<Rightarrow> int" where
  "encode_branch26 offset =
     (if offset AND 3 \<noteq> 0 then -1
      else let imm = drop_bit 2 offset in
        if imm < - (2 ^ 25) \<or> imm \<ge> 2 ^ 25 then -1 else imm AND 0x3FFFFFF)"

definition encode_branch19 :: "int \<Rightarrow> int" where
  "encode_branch19 offset =
     (if offset AND 3 \<noteq> 0 then -1
      else let imm = drop_bit 2 offset in
        if imm < - (2 ^ 18) \<or> imm \<ge> 2 ^ 18 then -1 else imm AND 0x7FFFF)"

subsection \<open>Logical immediates\<close>

partial_function (option) ctz_loop :: "u64 \<Rightarrow> nat \<Rightarrow> nat option" where
  "ctz_loop val count = (if val AND 1 = 0 then ctz_loop (drop_bit 1 val) (count + 1) else Some count)"

definition ctz64 :: "u64 \<Rightarrow> nat option" where
  "ctz64 val = (if val = 0 then Some 64 else ctz_loop val 0)"

definition ror64 :: "u64 \<Rightarrow> nat \<Rightarrow> u64" where
  "ror64 val amount =
     (let amount = amount mod 64 in if amount = 0 then val else drop_bit amount val OR push_bit (64 - amount) val)"

record LogicalImm =
  li_n :: nat
  li_imms :: nat
  li_immr :: nat

definition low_mask :: "nat \<Rightarrow> u64" where
  "low_mask period = push_bit period 1 - 1"

text \<open>The pattern repeats with period \<open>period\<close>.\<close>

definition repeats :: "nat \<Rightarrow> u64 \<Rightarrow> bool" where
  "repeats period val \<longleftrightarrow> (\<forall>k \<in> set [0..<64 div period]. drop_bit (k * period) val AND low_mask period = val AND low_mask period)"

function size_loop :: "nat \<Rightarrow> nat \<Rightarrow> u64 \<Rightarrow> nat" where
  "size_loop width period val = (if 0 < period \<and> period < width then if repeats period val then period else size_loop width (period * 2) val else period)"
  by pat_completeness auto
termination by (relation "measure (\<lambda>(width, period, _). width - period)") auto

declare size_loop.simps [simp del]

text \<open>The number of ones from bit 0 on.\<close>

function ones_loop :: "u64 \<Rightarrow> nat \<Rightarrow> nat" where
  "ones_loop tmp ones = (if tmp AND 1 \<noteq> 0 then ones_loop (drop_bit 1 tmp) (ones + 1) else ones)"
  by pat_completeness auto
termination
proof (relation "measure (\<lambda>(tmp, _). unat tmp)")
  fix tmp :: u64 and ones :: nat assume "tmp AND 1 \<noteq> 0"
  then have "tmp \<noteq> 0" by auto
  then have "0 < unat tmp" by (simp add: unat_gt_0)
  then show "((drop_bit 1 tmp, ones + 1), (tmp, ones)) \<in> measure (\<lambda>(tmp, _). unat tmp)"
    by (simp add: drop_bit_eq_div unat_div)
qed simp

declare ones_loop.simps [simp del]

definition size_bits :: "nat \<Rightarrow> nat option" where
  "size_bits period =
     (if period = 2 then Some 0b111100 else if period = 4 then Some 0b111000 else if period = 8 then Some 0b110000
      else if period = 16 then Some 0b100000 else if period = 32 then Some 0b000000 else None)"

text \<open>The fields for an element of the pattern; \<open>Some None\<close> is the result 0, not encodable.\<close>

definition encode_element :: "nat \<Rightarrow> u64 \<Rightarrow> LogicalImm option option" where
  "encode_element period val =
     (let msk = (if period = 64 then NOT 0 else low_mask period);
          elem = val AND msk in
      do {
        rotation \<leftarrow> ctz64 elem;
        let rotated = ror64 elem rotation;
        let rotated = (if period < 64 then rotated AND msk else rotated);
        let ones = ones_loop rotated 0;
        if drop_bit ones rotated \<noteq> 0 then Some None
        else if ones = 0 \<or> ones = period then Some None
        else
          let immr = (period - rotation) AND (period - 1) in
          if period = 64 then Some (Some \<lparr>li_n = 1, li_imms = ones - 1, li_immr = immr\<rparr>)
          else Some (case size_bits period of
                       None \<Rightarrow> None
                     | Some b \<Rightarrow> Some \<lparr>li_n = 0, li_imms = b OR (ones - 1), li_immr = immr\<rparr>) })"

definition replicate32 :: "u64 \<Rightarrow> u64" where
  "replicate32 val = (let v = val AND 0xFFFFFFFF in v OR push_bit 32 v)"

definition encode_logical_imm :: "int \<Rightarrow> u64 \<Rightarrow> LogicalImm option option" where
  "encode_logical_imm sf val =
     (let width = (if sf \<noteq> 0 then 64 else 32);
          val = (if sf = 0 then replicate32 val else val) in
      if val = 0 \<or> val = NOT 0 then Some None
      else
        let period = size_loop width 2 val;
            period = (if period = width \<and> sf = 0 then 64 else period)
        in encode_element period val)"

subsection \<open>Instructions\<close>

definition fld :: "int \<Rightarrow> nat \<Rightarrow> u32" where
  "fld x k = push_bit k (word_of_int x)"

definition pick :: "int \<Rightarrow> u32 \<Rightarrow> u32 \<Rightarrow> u32" where
  "pick c a b = (if c \<noteq> 0 then a else b)"

definition encode_add_reg :: "int \<Rightarrow> int \<Rightarrow> int \<Rightarrow> int \<Rightarrow> u32" where
  "encode_add_reg sf rd rn rm =
     (let base = pick sf 0x8B000000 0x0B000000 in
      base OR fld rm 16 OR fld rn 5 OR fld rd 0)"

definition encode_add_imm :: "int \<Rightarrow> int \<Rightarrow> int \<Rightarrow> int \<Rightarrow> int \<Rightarrow> u32" where
  "encode_add_imm sf rd rn imm12 shift =
     (let base = pick sf 0x91000000 0x11000000;
          sh = pick shift 1 0 in
      base OR push_bit 22 sh OR fld (imm12 AND 0xFFF) 10 OR fld rn 5 OR fld rd 0)"

definition encode_sub_reg :: "int \<Rightarrow> int \<Rightarrow> int \<Rightarrow> int \<Rightarrow> u32" where
  "encode_sub_reg sf rd rn rm =
     (let base = pick sf 0xCB000000 0x4B000000 in
      base OR fld rm 16 OR fld rn 5 OR fld rd 0)"

definition encode_sub_imm :: "int \<Rightarrow> int \<Rightarrow> int \<Rightarrow> int \<Rightarrow> int \<Rightarrow> u32" where
  "encode_sub_imm sf rd rn imm12 shift =
     (let base = pick sf 0xD1000000 0x51000000;
          sh = pick shift 1 0 in
      base OR push_bit 22 sh OR fld (imm12 AND 0xFFF) 10 OR fld rn 5 OR fld rd 0)"

definition encode_mov_reg :: "int \<Rightarrow> int \<Rightarrow> int \<Rightarrow> u32" where
  "encode_mov_reg sf rd rm =
     (let base = pick sf 0xAA0003E0 0x2A0003E0 in
      base OR fld rm 16 OR fld rd 0)"

definition encode_movz :: "int \<Rightarrow> int \<Rightarrow> int \<Rightarrow> int \<Rightarrow> u32" where
  "encode_movz sf rd imm16 hw =
     (let base = pick sf 0xD2800000 0x52800000 in
      base OR fld hw 21 OR fld (imm16 AND 0xFFFF) 5 OR fld rd 0)"

definition encode_movk :: "int \<Rightarrow> int \<Rightarrow> int \<Rightarrow> int \<Rightarrow> u32" where
  "encode_movk sf rd imm16 hw =
     (let base = pick sf 0xF2800000 0x72800000 in
      base OR fld hw 21 OR fld (imm16 AND 0xFFFF) 5 OR fld rd 0)"

definition encode_movn :: "int \<Rightarrow> int \<Rightarrow> int \<Rightarrow> int \<Rightarrow> u32" where
  "encode_movn sf rd imm16 hw =
     (let base = pick sf 0x92800000 0x12800000 in
      base OR fld hw 21 OR fld (imm16 AND 0xFFFF) 5 OR fld rd 0)"

definition encode_b :: "int \<Rightarrow> u32 option" where
  "encode_b offset =
     (let imm26 = encode_branch26 offset in
      if imm26 < 0 then None
      else
        Some (0x14000000 OR fld imm26 0))"

definition encode_bl :: "int \<Rightarrow> u32 option" where
  "encode_bl offset =
     (let imm26 = encode_branch26 offset in
      if imm26 < 0 then None
      else
        Some (0x94000000 OR fld imm26 0))"

definition encode_bcond :: "int \<Rightarrow> int \<Rightarrow> u32 option" where
  "encode_bcond cond offset =
     (let imm19 = encode_branch19 offset in
      if imm19 < 0 then None
      else
        Some (0x54000000 OR fld imm19 5 OR fld cond 0))"

definition encode_cbz :: "int \<Rightarrow> int \<Rightarrow> int \<Rightarrow> u32 option" where
  "encode_cbz sf rt offset =
     (let imm19 = encode_branch19 offset in
      if imm19 < 0 then None
      else
        let base = pick sf 0xB4000000 0x34000000 in
        Some (base OR fld imm19 5 OR fld rt 0))"

definition encode_cbnz :: "int \<Rightarrow> int \<Rightarrow> int \<Rightarrow> u32 option" where
  "encode_cbnz sf rt offset =
     (let imm19 = encode_branch19 offset in
      if imm19 < 0 then None
      else
        let base = pick sf 0xB5000000 0x35000000 in
        Some (base OR fld imm19 5 OR fld rt 0))"

definition encode_ret :: "int \<Rightarrow> u32" where
  "encode_ret rn =
     0xD65F0000 OR fld rn 5"

definition encode_blr :: "int \<Rightarrow> u32" where
  "encode_blr rn =
     0xD63F0000 OR fld rn 5"

definition encode_br :: "int \<Rightarrow> u32" where
  "encode_br rn =
     0xD61F0000 OR fld rn 5"

definition encode_ldr_uoff :: "int \<Rightarrow> int \<Rightarrow> int \<Rightarrow> int \<Rightarrow> u32 option" where
  "encode_ldr_uoff sf rt rn imm =
     (let scale = (if sf \<noteq> 0 then 3 else 2);
          imm12 = encode_imm12_unsigned imm scale in
      if imm12 < 0 then None
      else
        let base = pick sf 0xF9400000 0xB9400000 in
        Some (base OR fld imm12 10 OR fld rn 5 OR fld rt 0))"

definition encode_str_uoff :: "int \<Rightarrow> int \<Rightarrow> int \<Rightarrow> int \<Rightarrow> u32 option" where
  "encode_str_uoff sf rt rn imm =
     (let scale = (if sf \<noteq> 0 then 3 else 2);
          imm12 = encode_imm12_unsigned imm scale in
      if imm12 < 0 then None
      else
        let base = pick sf 0xF9000000 0xB9000000 in
        Some (base OR fld imm12 10 OR fld rn 5 OR fld rt 0))"

definition encode_ldrb_uoff :: "int \<Rightarrow> int \<Rightarrow> int \<Rightarrow> u32 option" where
  "encode_ldrb_uoff rt rn imm =
     (let imm12 = encode_imm12_unsigned imm 0 in
      if imm12 < 0 then None
      else
        Some (0x39400000 OR fld imm12 10 OR fld rn 5 OR fld rt 0))"

definition encode_strb_uoff :: "int \<Rightarrow> int \<Rightarrow> int \<Rightarrow> u32 option" where
  "encode_strb_uoff rt rn imm =
     (let imm12 = encode_imm12_unsigned imm 0 in
      if imm12 < 0 then None
      else
        Some (0x39000000 OR fld imm12 10 OR fld rn 5 OR fld rt 0))"

definition encode_ldrh_uoff :: "int \<Rightarrow> int \<Rightarrow> int \<Rightarrow> u32 option" where
  "encode_ldrh_uoff rt rn imm =
     (let imm12 = encode_imm12_unsigned imm 1 in
      if imm12 < 0 then None
      else
        Some (0x79400000 OR fld imm12 10 OR fld rn 5 OR fld rt 0))"

definition encode_strh_uoff :: "int \<Rightarrow> int \<Rightarrow> int \<Rightarrow> u32 option" where
  "encode_strh_uoff rt rn imm =
     (let imm12 = encode_imm12_unsigned imm 1 in
      if imm12 < 0 then None
      else
        Some (0x79000000 OR fld imm12 10 OR fld rn 5 OR fld rt 0))"

definition encode_ldrsw_uoff :: "int \<Rightarrow> int \<Rightarrow> int \<Rightarrow> u32 option" where
  "encode_ldrsw_uoff rt rn imm =
     (let imm12 = encode_imm12_unsigned imm 2 in
      if imm12 < 0 then None
      else
        Some (0xB9800000 OR fld imm12 10 OR fld rn 5 OR fld rt 0))"

definition encode_ldrsb64_uoff :: "int \<Rightarrow> int \<Rightarrow> int \<Rightarrow> u32 option" where
  "encode_ldrsb64_uoff rt rn imm =
     (let imm12 = encode_imm12_unsigned imm 0 in
      if imm12 < 0 then None
      else
        Some (0x39800000 OR fld imm12 10 OR fld rn 5 OR fld rt 0))"

definition encode_ldrsb32_uoff :: "int \<Rightarrow> int \<Rightarrow> int \<Rightarrow> u32 option" where
  "encode_ldrsb32_uoff rt rn imm =
     (let imm12 = encode_imm12_unsigned imm 0 in
      if imm12 < 0 then None
      else
        Some (0x39C00000 OR fld imm12 10 OR fld rn 5 OR fld rt 0))"

definition encode_ldrsh64_uoff :: "int \<Rightarrow> int \<Rightarrow> int \<Rightarrow> u32 option" where
  "encode_ldrsh64_uoff rt rn imm =
     (let imm12 = encode_imm12_unsigned imm 1 in
      if imm12 < 0 then None
      else
        Some (0x79800000 OR fld imm12 10 OR fld rn 5 OR fld rt 0))"

definition encode_ldrsh32_uoff :: "int \<Rightarrow> int \<Rightarrow> int \<Rightarrow> u32 option" where
  "encode_ldrsh32_uoff rt rn imm =
     (let imm12 = encode_imm12_unsigned imm 1 in
      if imm12 < 0 then None
      else
        Some (0x79C00000 OR fld imm12 10 OR fld rn 5 OR fld rt 0))"

definition encode_ldr_pre :: "int \<Rightarrow> int \<Rightarrow> int \<Rightarrow> int \<Rightarrow> u32 option" where
  "encode_ldr_pre sf rt rn imm =
     (let imm9 = encode_imm9 imm in
      if imm9 < 0 then None
      else
        let base = pick sf 0xF8400C00 0xB8400C00 in
        Some (base OR fld imm9 12 OR fld rn 5 OR fld rt 0))"

definition encode_str_pre :: "int \<Rightarrow> int \<Rightarrow> int \<Rightarrow> int \<Rightarrow> u32 option" where
  "encode_str_pre sf rt rn imm =
     (let imm9 = encode_imm9 imm in
      if imm9 < 0 then None
      else
        let base = pick sf 0xF8000C00 0xB8000C00 in
        Some (base OR fld imm9 12 OR fld rn 5 OR fld rt 0))"

definition encode_ldr_post :: "int \<Rightarrow> int \<Rightarrow> int \<Rightarrow> int \<Rightarrow> u32 option" where
  "encode_ldr_post sf rt rn imm =
     (let imm9 = encode_imm9 imm in
      if imm9 < 0 then None
      else
        let base = pick sf 0xF8400400 0xB8400400 in
        Some (base OR fld imm9 12 OR fld rn 5 OR fld rt 0))"

definition encode_str_post :: "int \<Rightarrow> int \<Rightarrow> int \<Rightarrow> int \<Rightarrow> u32 option" where
  "encode_str_post sf rt rn imm =
     (let imm9 = encode_imm9 imm in
      if imm9 < 0 then None
      else
        let base = pick sf 0xF8000400 0xB8000400 in
        Some (base OR fld imm9 12 OR fld rn 5 OR fld rt 0))"

definition encode_stur :: "int \<Rightarrow> int \<Rightarrow> int \<Rightarrow> int \<Rightarrow> u32 option" where
  "encode_stur sf rt rn imm =
     (let imm9 = encode_imm9 imm in
      if imm9 < 0 then None
      else
        let base = pick sf 0xF8000000 0xB8000000 in
        Some (base OR fld imm9 12 OR fld rn 5 OR fld rt 0))"

definition encode_ldur :: "int \<Rightarrow> int \<Rightarrow> int \<Rightarrow> int \<Rightarrow> u32 option" where
  "encode_ldur sf rt rn imm =
     (let imm9 = encode_imm9 imm in
      if imm9 < 0 then None
      else
        let base = pick sf 0xF8400000 0xB8400000 in
        Some (base OR fld imm9 12 OR fld rn 5 OR fld rt 0))"

definition encode_stur_fp :: "int \<Rightarrow> int \<Rightarrow> int \<Rightarrow> int \<Rightarrow> u32 option" where
  "encode_stur_fp ftype ft rn imm =
     (let imm9 = encode_imm9 imm in
      if imm9 < 0 then None
      else
        let base = pick ftype 0xFC000000 0xBC000000 in
        Some (base OR fld imm9 12 OR fld rn 5 OR fld ft 0))"

definition encode_ldur_fp :: "int \<Rightarrow> int \<Rightarrow> int \<Rightarrow> int \<Rightarrow> u32 option" where
  "encode_ldur_fp ftype ft rn imm =
     (let imm9 = encode_imm9 imm in
      if imm9 < 0 then None
      else
        let base = pick ftype 0xFC400000 0xBC400000 in
        Some (base OR fld imm9 12 OR fld rn 5 OR fld ft 0))"

definition encode_sturb :: "int \<Rightarrow> int \<Rightarrow> int \<Rightarrow> u32 option" where
  "encode_sturb rt rn imm =
     (let imm9 = encode_imm9 imm in
      if imm9 < 0 then None
      else
        Some (0x38000000 OR fld imm9 12 OR fld rn 5 OR fld rt 0))"

definition encode_ldurb :: "int \<Rightarrow> int \<Rightarrow> int \<Rightarrow> u32 option" where
  "encode_ldurb rt rn imm =
     (let imm9 = encode_imm9 imm in
      if imm9 < 0 then None
      else
        Some (0x38400000 OR fld imm9 12 OR fld rn 5 OR fld rt 0))"

definition encode_sturh :: "int \<Rightarrow> int \<Rightarrow> int \<Rightarrow> u32 option" where
  "encode_sturh rt rn imm =
     (let imm9 = encode_imm9 imm in
      if imm9 < 0 then None
      else
        Some (0x78000000 OR fld imm9 12 OR fld rn 5 OR fld rt 0))"

definition encode_ldurh :: "int \<Rightarrow> int \<Rightarrow> int \<Rightarrow> u32 option" where
  "encode_ldurh rt rn imm =
     (let imm9 = encode_imm9 imm in
      if imm9 < 0 then None
      else
        Some (0x78400000 OR fld imm9 12 OR fld rn 5 OR fld rt 0))"

definition encode_ldursw :: "int \<Rightarrow> int \<Rightarrow> int \<Rightarrow> u32 option" where
  "encode_ldursw rt rn imm =
     (let imm9 = encode_imm9 imm in
      if imm9 < 0 then None
      else
        Some (0xB8800000 OR fld imm9 12 OR fld rn 5 OR fld rt 0))"

definition encode_ldursb64 :: "int \<Rightarrow> int \<Rightarrow> int \<Rightarrow> u32 option" where
  "encode_ldursb64 rt rn imm =
     (let imm9 = encode_imm9 imm in
      if imm9 < 0 then None
      else
        Some (0x38800000 OR fld imm9 12 OR fld rn 5 OR fld rt 0))"

definition encode_ldursb32 :: "int \<Rightarrow> int \<Rightarrow> int \<Rightarrow> u32 option" where
  "encode_ldursb32 rt rn imm =
     (let imm9 = encode_imm9 imm in
      if imm9 < 0 then None
      else
        Some (0x38C00000 OR fld imm9 12 OR fld rn 5 OR fld rt 0))"

definition encode_ldursh64 :: "int \<Rightarrow> int \<Rightarrow> int \<Rightarrow> u32 option" where
  "encode_ldursh64 rt rn imm =
     (let imm9 = encode_imm9 imm in
      if imm9 < 0 then None
      else
        Some (0x78800000 OR fld imm9 12 OR fld rn 5 OR fld rt 0))"

definition encode_ldursh32 :: "int \<Rightarrow> int \<Rightarrow> int \<Rightarrow> u32 option" where
  "encode_ldursh32 rt rn imm =
     (let imm9 = encode_imm9 imm in
      if imm9 < 0 then None
      else
        Some (0x78C00000 OR fld imm9 12 OR fld rn 5 OR fld rt 0))"

definition encode_stp_pre :: "int \<Rightarrow> int \<Rightarrow> int \<Rightarrow> int \<Rightarrow> int \<Rightarrow> u32 option" where
  "encode_stp_pre sf rt1 rt2 rn imm =
     (let scale = (if sf \<noteq> 0 then 3 else 2);
          imm7 = encode_imm7 imm scale in
      if imm7 < 0 then None
      else
        let base = pick sf 0xA9800000 0x29800000 in
        Some (base OR fld imm7 15 OR fld rt2 10 OR fld rn 5 OR fld rt1 0))"

definition encode_ldp_post :: "int \<Rightarrow> int \<Rightarrow> int \<Rightarrow> int \<Rightarrow> int \<Rightarrow> u32 option" where
  "encode_ldp_post sf rt1 rt2 rn imm =
     (let scale = (if sf \<noteq> 0 then 3 else 2);
          imm7 = encode_imm7 imm scale in
      if imm7 < 0 then None
      else
        let base = pick sf 0xA8C00000 0x28C00000 in
        Some (base OR fld imm7 15 OR fld rt2 10 OR fld rn 5 OR fld rt1 0))"

definition encode_stp_off :: "int \<Rightarrow> int \<Rightarrow> int \<Rightarrow> int \<Rightarrow> int \<Rightarrow> u32 option" where
  "encode_stp_off sf rt1 rt2 rn imm =
     (let scale = (if sf \<noteq> 0 then 3 else 2);
          imm7 = encode_imm7 imm scale in
      if imm7 < 0 then None
      else
        let base = pick sf 0xA9000000 0x29000000 in
        Some (base OR fld imm7 15 OR fld rt2 10 OR fld rn 5 OR fld rt1 0))"

definition encode_ldp_off :: "int \<Rightarrow> int \<Rightarrow> int \<Rightarrow> int \<Rightarrow> int \<Rightarrow> u32 option" where
  "encode_ldp_off sf rt1 rt2 rn imm =
     (let scale = (if sf \<noteq> 0 then 3 else 2);
          imm7 = encode_imm7 imm scale in
      if imm7 < 0 then None
      else
        let base = pick sf 0xA9400000 0x29400000 in
        Some (base OR fld imm7 15 OR fld rt2 10 OR fld rn 5 OR fld rt1 0))"

definition encode_stp_post :: "int \<Rightarrow> int \<Rightarrow> int \<Rightarrow> int \<Rightarrow> int \<Rightarrow> u32 option" where
  "encode_stp_post sf rt1 rt2 rn imm =
     (let scale = (if sf \<noteq> 0 then 3 else 2);
          imm7 = encode_imm7 imm scale in
      if imm7 < 0 then None
      else
        let base = pick sf 0xA8800000 0x28800000 in
        Some (base OR fld imm7 15 OR fld rt2 10 OR fld rn 5 OR fld rt1 0))"

definition encode_ldp_pre :: "int \<Rightarrow> int \<Rightarrow> int \<Rightarrow> int \<Rightarrow> int \<Rightarrow> u32 option" where
  "encode_ldp_pre sf rt1 rt2 rn imm =
     (let scale = (if sf \<noteq> 0 then 3 else 2);
          imm7 = encode_imm7 imm scale in
      if imm7 < 0 then None
      else
        let base = pick sf 0xA9C00000 0x29C00000 in
        Some (base OR fld imm7 15 OR fld rt2 10 OR fld rn 5 OR fld rt1 0))"

definition encode_ldr_literal :: "int \<Rightarrow> int \<Rightarrow> int \<Rightarrow> u32 option" where
  "encode_ldr_literal sf rt offset =
     (if offset AND 3 \<noteq> 0 then None
      else
        let imm19 = drop_bit 2 offset in
        if imm19 < - (2 ^ 18) \<or> imm19 \<ge> 2 ^ 18 then None
        else
          let base = pick sf 0x58000000 0x18000000 in
          Some (base OR fld (imm19 AND 0x7FFFF) 5 OR fld rt 0))"

definition encode_mul :: "int \<Rightarrow> int \<Rightarrow> int \<Rightarrow> int \<Rightarrow> u32" where
  "encode_mul sf rd rn rm =
     (let base = pick sf 0x9B007C00 0x1B007C00 in
      base OR fld rm 16 OR fld rn 5 OR fld rd 0)"

definition encode_sdiv :: "int \<Rightarrow> int \<Rightarrow> int \<Rightarrow> int \<Rightarrow> u32" where
  "encode_sdiv sf rd rn rm =
     (let base = pick sf 0x9AC00C00 0x1AC00C00 in
      base OR fld rm 16 OR fld rn 5 OR fld rd 0)"

definition encode_udiv :: "int \<Rightarrow> int \<Rightarrow> int \<Rightarrow> int \<Rightarrow> u32" where
  "encode_udiv sf rd rn rm =
     (let base = pick sf 0x9AC00800 0x1AC00800 in
      base OR fld rm 16 OR fld rn 5 OR fld rd 0)"

definition encode_msub :: "int \<Rightarrow> int \<Rightarrow> int \<Rightarrow> int \<Rightarrow> int \<Rightarrow> u32" where
  "encode_msub sf rd rn rm ra =
     (let base = pick sf 0x9B008000 0x1B008000 in
      base OR fld rm 16 OR fld ra 10 OR fld rn 5 OR fld rd 0)"

definition encode_madd :: "int \<Rightarrow> int \<Rightarrow> int \<Rightarrow> int \<Rightarrow> int \<Rightarrow> u32" where
  "encode_madd sf rd rn rm ra =
     (let base = pick sf 0x9B000000 0x1B000000 in
      base OR fld rm 16 OR fld ra 10 OR fld rn 5 OR fld rd 0)"

definition encode_neg :: "int \<Rightarrow> int \<Rightarrow> int \<Rightarrow> u32" where
  "encode_neg sf rd rm =
     encode_sub_reg sf rd 31 rm"

definition encode_negs :: "int \<Rightarrow> int \<Rightarrow> int \<Rightarrow> u32" where
  "encode_negs sf rd rm =
     (let base = pick sf 0xEB0003E0 0x6B0003E0 in
      base OR fld rm 16 OR fld rd 0)"

definition encode_subs_reg :: "int \<Rightarrow> int \<Rightarrow> int \<Rightarrow> int \<Rightarrow> u32" where
  "encode_subs_reg sf rd rn rm =
     (let base = pick sf 0xEB000000 0x6B000000 in
      base OR fld rm 16 OR fld rn 5 OR fld rd 0)"

definition encode_subs_imm :: "int \<Rightarrow> int \<Rightarrow> int \<Rightarrow> int \<Rightarrow> int \<Rightarrow> u32" where
  "encode_subs_imm sf rd rn imm12 shift =
     (let base = pick sf 0xF1000000 0x71000000;
          sh = pick shift 1 0 in
      base OR push_bit 22 sh OR fld (imm12 AND 0xFFF) 10 OR fld rn 5 OR fld rd 0)"

definition encode_adds_reg :: "int \<Rightarrow> int \<Rightarrow> int \<Rightarrow> int \<Rightarrow> u32" where
  "encode_adds_reg sf rd rn rm =
     (let base = pick sf 0xAB000000 0x2B000000 in
      base OR fld rm 16 OR fld rn 5 OR fld rd 0)"

definition encode_adds_imm :: "int \<Rightarrow> int \<Rightarrow> int \<Rightarrow> int \<Rightarrow> int \<Rightarrow> u32" where
  "encode_adds_imm sf rd rn imm12 shift =
     (let base = pick sf 0xB1000000 0x31000000;
          sh = pick shift 1 0 in
      base OR push_bit 22 sh OR fld (imm12 AND 0xFFF) 10 OR fld rn 5 OR fld rd 0)"

definition encode_and_reg :: "int \<Rightarrow> int \<Rightarrow> int \<Rightarrow> int \<Rightarrow> u32" where
  "encode_and_reg sf rd rn rm =
     (let base = pick sf 0x8A000000 0x0A000000 in
      base OR fld rm 16 OR fld rn 5 OR fld rd 0)"

definition encode_orr_reg :: "int \<Rightarrow> int \<Rightarrow> int \<Rightarrow> int \<Rightarrow> u32" where
  "encode_orr_reg sf rd rn rm =
     (let base = pick sf 0xAA000000 0x2A000000 in
      base OR fld rm 16 OR fld rn 5 OR fld rd 0)"

definition encode_eor_reg :: "int \<Rightarrow> int \<Rightarrow> int \<Rightarrow> int \<Rightarrow> u32" where
  "encode_eor_reg sf rd rn rm =
     (let base = pick sf 0xCA000000 0x4A000000 in
      base OR fld rm 16 OR fld rn 5 OR fld rd 0)"

definition encode_mvn :: "int \<Rightarrow> int \<Rightarrow> int \<Rightarrow> u32" where
  "encode_mvn sf rd rm =
     (let base = pick sf 0xAA2003E0 0x2A2003E0 in
      base OR fld rm 16 OR fld rd 0)"

definition encode_bic :: "int \<Rightarrow> int \<Rightarrow> int \<Rightarrow> int \<Rightarrow> u32" where
  "encode_bic sf rd rn rm =
     (let base = pick sf 0x8A200000 0x0A200000 in
      base OR fld rm 16 OR fld rn 5 OR fld rd 0)"

definition encode_ands_reg :: "int \<Rightarrow> int \<Rightarrow> int \<Rightarrow> int \<Rightarrow> u32" where
  "encode_ands_reg sf rd rn rm =
     (let base = pick sf 0xEA000000 0x6A000000 in
      base OR fld rm 16 OR fld rn 5 OR fld rd 0)"

definition encode_tst_reg :: "int \<Rightarrow> int \<Rightarrow> int \<Rightarrow> u32" where
  "encode_tst_reg sf rn rm =
     encode_ands_reg sf 31 rn rm"

definition encode_and_imm :: "int \<Rightarrow> int \<Rightarrow> int \<Rightarrow> int \<Rightarrow> int \<Rightarrow> int \<Rightarrow> u32" where
  "encode_and_imm sf rd rn n imms immr =
     (let base = pick sf 0x92000000 0x12000000 in
      base OR fld n 22 OR fld immr 16 OR fld imms 10 OR fld rn 5 OR fld rd 0)"

definition encode_orr_imm :: "int \<Rightarrow> int \<Rightarrow> int \<Rightarrow> int \<Rightarrow> int \<Rightarrow> int \<Rightarrow> u32" where
  "encode_orr_imm sf rd rn n imms immr =
     (let base = pick sf 0xB2000000 0x32000000 in
      base OR fld n 22 OR fld immr 16 OR fld imms 10 OR fld rn 5 OR fld rd 0)"

definition encode_eor_imm :: "int \<Rightarrow> int \<Rightarrow> int \<Rightarrow> int \<Rightarrow> int \<Rightarrow> int \<Rightarrow> u32" where
  "encode_eor_imm sf rd rn n imms immr =
     (let base = pick sf 0xD2000000 0x52000000 in
      base OR fld n 22 OR fld immr 16 OR fld imms 10 OR fld rn 5 OR fld rd 0)"

definition encode_ands_imm :: "int \<Rightarrow> int \<Rightarrow> int \<Rightarrow> int \<Rightarrow> int \<Rightarrow> int \<Rightarrow> u32" where
  "encode_ands_imm sf rd rn n imms immr =
     (let base = pick sf 0xF2000000 0x72000000 in
      base OR fld n 22 OR fld immr 16 OR fld imms 10 OR fld rn 5 OR fld rd 0)"

definition encode_tst_imm :: "int \<Rightarrow> int \<Rightarrow> int \<Rightarrow> int \<Rightarrow> int \<Rightarrow> u32" where
  "encode_tst_imm sf rn n imms immr =
     encode_ands_imm sf 31 rn n imms immr"

definition encode_lsl_reg :: "int \<Rightarrow> int \<Rightarrow> int \<Rightarrow> int \<Rightarrow> u32" where
  "encode_lsl_reg sf rd rn rm =
     (let base = pick sf 0x9AC02000 0x1AC02000 in
      base OR fld rm 16 OR fld rn 5 OR fld rd 0)"

definition encode_lsr_reg :: "int \<Rightarrow> int \<Rightarrow> int \<Rightarrow> int \<Rightarrow> u32" where
  "encode_lsr_reg sf rd rn rm =
     (let base = pick sf 0x9AC02400 0x1AC02400 in
      base OR fld rm 16 OR fld rn 5 OR fld rd 0)"

definition encode_asr_reg :: "int \<Rightarrow> int \<Rightarrow> int \<Rightarrow> int \<Rightarrow> u32" where
  "encode_asr_reg sf rd rn rm =
     (let base = pick sf 0x9AC02800 0x1AC02800 in
      base OR fld rm 16 OR fld rn 5 OR fld rd 0)"

definition encode_lsl_imm :: "int \<Rightarrow> int \<Rightarrow> int \<Rightarrow> int \<Rightarrow> u32" where
  "encode_lsl_imm sf rd rn shift =
     (let width = (if sf \<noteq> 0 then 64 else 32);
          immr = (- shift) AND (width - 1);
          imms = width - 1 - shift;
          base = pick sf 0xD3400000 0x53000000 in
      base OR fld immr 16 OR fld imms 10 OR fld rn 5 OR fld rd 0)"

definition encode_lsr_imm :: "int \<Rightarrow> int \<Rightarrow> int \<Rightarrow> int \<Rightarrow> u32" where
  "encode_lsr_imm sf rd rn shift =
     (let imms = (if sf \<noteq> 0 then 63 else 31);
          base = pick sf 0xD3400000 0x53000000 in
      base OR fld shift 16 OR fld imms 10 OR fld rn 5 OR fld rd 0)"

definition encode_asr_imm :: "int \<Rightarrow> int \<Rightarrow> int \<Rightarrow> int \<Rightarrow> u32" where
  "encode_asr_imm sf rd rn shift =
     (let imms = (if sf \<noteq> 0 then 63 else 31);
          base = pick sf 0x93400000 0x13000000 in
      base OR fld shift 16 OR fld imms 10 OR fld rn 5 OR fld rd 0)"

definition encode_cmp_reg :: "int \<Rightarrow> int \<Rightarrow> int \<Rightarrow> u32" where
  "encode_cmp_reg sf rn rm =
     encode_subs_reg sf 31 rn rm"

definition encode_cmp_imm :: "int \<Rightarrow> int \<Rightarrow> int \<Rightarrow> int \<Rightarrow> u32" where
  "encode_cmp_imm sf rn imm12 shift =
     encode_subs_imm sf 31 rn imm12 shift"

definition encode_cmn_reg :: "int \<Rightarrow> int \<Rightarrow> int \<Rightarrow> u32" where
  "encode_cmn_reg sf rn rm =
     encode_adds_reg sf 31 rn rm"

definition encode_cmn_imm :: "int \<Rightarrow> int \<Rightarrow> int \<Rightarrow> int \<Rightarrow> u32" where
  "encode_cmn_imm sf rn imm12 shift =
     encode_adds_imm sf 31 rn imm12 shift"

definition encode_cset :: "int \<Rightarrow> int \<Rightarrow> int \<Rightarrow> u32" where
  "encode_cset sf rd cond =
     (let inv_cond = invert_cond cond;
          base = pick sf 0x9A9F07E0 0x1A9F07E0 in
      base OR fld inv_cond 12 OR fld rd 0)"

definition encode_csetm :: "int \<Rightarrow> int \<Rightarrow> int \<Rightarrow> u32" where
  "encode_csetm sf rd cond =
     (let inv_cond = invert_cond cond;
          base = pick sf 0xDA9F03E0 0x5A9F03E0 in
      base OR fld inv_cond 12 OR fld rd 0)"

definition encode_csinc :: "int \<Rightarrow> int \<Rightarrow> int \<Rightarrow> int \<Rightarrow> int \<Rightarrow> u32" where
  "encode_csinc sf rd rn rm cond =
     (let base = pick sf 0x9A800400 0x1A800400 in
      base OR fld rm 16 OR fld cond 12 OR fld rn 5 OR fld rd 0)"

definition encode_csel :: "int \<Rightarrow> int \<Rightarrow> int \<Rightarrow> int \<Rightarrow> int \<Rightarrow> u32" where
  "encode_csel sf rd rn rm cond =
     (let base = pick sf 0x9A800000 0x1A800000 in
      base OR fld rm 16 OR fld cond 12 OR fld rn 5 OR fld rd 0)"

definition encode_csinv :: "int \<Rightarrow> int \<Rightarrow> int \<Rightarrow> int \<Rightarrow> int \<Rightarrow> u32" where
  "encode_csinv sf rd rn rm cond =
     (let base = pick sf 0xDA800000 0x5A800000 in
      base OR fld rm 16 OR fld cond 12 OR fld rn 5 OR fld rd 0)"

definition encode_csneg :: "int \<Rightarrow> int \<Rightarrow> int \<Rightarrow> int \<Rightarrow> int \<Rightarrow> u32" where
  "encode_csneg sf rd rn rm cond =
     (let base = pick sf 0xDA800400 0x5A800400 in
      base OR fld rm 16 OR fld cond 12 OR fld rn 5 OR fld rd 0)"

definition encode_cinc :: "int \<Rightarrow> int \<Rightarrow> int \<Rightarrow> int \<Rightarrow> u32" where
  "encode_cinc sf rd rn cond =
     (let inv_cond = invert_cond cond in
      encode_csinc sf rd rn rn inv_cond)"

definition encode_sxtb :: "int \<Rightarrow> int \<Rightarrow> u32" where
  "encode_sxtb rd rn =
     0x93401C00 OR fld rn 5 OR fld rd 0"

definition encode_sxth :: "int \<Rightarrow> int \<Rightarrow> u32" where
  "encode_sxth rd rn =
     0x93403C00 OR fld rn 5 OR fld rd 0"

definition encode_sxtw :: "int \<Rightarrow> int \<Rightarrow> u32" where
  "encode_sxtw rd rn =
     0x93407C00 OR fld rn 5 OR fld rd 0"

definition encode_uxtb :: "int \<Rightarrow> int \<Rightarrow> u32" where
  "encode_uxtb rd rn =
     0x53001C00 OR fld rn 5 OR fld rd 0"

definition encode_uxth :: "int \<Rightarrow> int \<Rightarrow> u32" where
  "encode_uxth rd rn =
     0x53003C00 OR fld rn 5 OR fld rd 0"

definition encode_adrp :: "int \<Rightarrow> int \<Rightarrow> u32 option" where
  "encode_adrp rd offset =
     (let imm = drop_bit 12 offset in
      if imm < - (2 ^ 20) \<or> imm \<ge> 2 ^ 20 then None
      else
        let immlo = fld (imm AND 0x3) 29;
            immhi = fld (drop_bit 2 imm AND 0x7FFFF) 5 in
        Some (0x90000000 OR immlo OR immhi OR fld rd 0))"

definition encode_adr :: "int \<Rightarrow> int \<Rightarrow> u32 option" where
  "encode_adr rd offset =
     (if offset < - (2 ^ 20) \<or> offset \<ge> 2 ^ 20 then None
      else
        let immlo = fld (offset AND 0x3) 29;
            immhi = fld (drop_bit 2 offset AND 0x7FFFF) 5 in
        Some (0x10000000 OR immlo OR immhi OR fld rd 0))"

definition encode_nop :: u32 where "encode_nop = 0xD503201F"

definition encode_fmov_gpr_to_fpr :: "int \<Rightarrow> int \<Rightarrow> int \<Rightarrow> u32" where
  "encode_fmov_gpr_to_fpr sf fd rn =
     (let base = pick sf 0x9E670000 0x1E270000 in
      base OR fld rn 5 OR fld fd 0)"

definition encode_fadd :: "int \<Rightarrow> int \<Rightarrow> int \<Rightarrow> int \<Rightarrow> u32" where
  "encode_fadd ftype fd fn fm =
     (let base = pick ftype 0x1E602800 0x1E202800 in
      base OR fld fm 16 OR fld fn 5 OR fld fd 0)"

definition encode_fsub :: "int \<Rightarrow> int \<Rightarrow> int \<Rightarrow> int \<Rightarrow> u32" where
  "encode_fsub ftype fd fn fm =
     (let base = pick ftype 0x1E603800 0x1E203800 in
      base OR fld fm 16 OR fld fn 5 OR fld fd 0)"

definition encode_fmul :: "int \<Rightarrow> int \<Rightarrow> int \<Rightarrow> int \<Rightarrow> u32" where
  "encode_fmul ftype fd fn fm =
     (let base = pick ftype 0x1E600800 0x1E200800 in
      base OR fld fm 16 OR fld fn 5 OR fld fd 0)"

definition encode_fdiv :: "int \<Rightarrow> int \<Rightarrow> int \<Rightarrow> int \<Rightarrow> u32" where
  "encode_fdiv ftype fd fn fm =
     (let base = pick ftype 0x1E601800 0x1E201800 in
      base OR fld fm 16 OR fld fn 5 OR fld fd 0)"

definition encode_fneg :: "int \<Rightarrow> int \<Rightarrow> int \<Rightarrow> u32" where
  "encode_fneg ftype fd fn =
     (let base = pick ftype 0x1E614000 0x1E214000 in
      base OR fld fn 5 OR fld fd 0)"

definition encode_fcmp_reg :: "int \<Rightarrow> int \<Rightarrow> int \<Rightarrow> u32" where
  "encode_fcmp_reg ftype fn fm =
     (let base = pick ftype 0x1E602000 0x1E202000 in
      base OR fld fm 16 OR fld fn 5)"

definition encode_fcmp_zero :: "int \<Rightarrow> int \<Rightarrow> u32" where
  "encode_fcmp_zero ftype fn =
     (let base = pick ftype 0x1E602008 0x1E202008 in
      base OR fld fn 5)"

definition encode_scvtf :: "int \<Rightarrow> int \<Rightarrow> int \<Rightarrow> int \<Rightarrow> u32" where
  "encode_scvtf sf ftype fd rn =
     (let base = (if sf \<noteq> 0 \<and> ftype \<noteq> 0 then 0x9E620000
             else if sf = 0 \<and> ftype \<noteq> 0 then 0x1E620000
             else if sf \<noteq> 0 \<and> ftype = 0 then 0x9E220000 else 0x1E220000 :: u32) in
      base OR fld rn 5 OR fld fd 0)"

definition encode_ucvtf :: "int \<Rightarrow> int \<Rightarrow> int \<Rightarrow> int \<Rightarrow> u32" where
  "encode_ucvtf sf ftype fd rn =
     (let base = (if sf \<noteq> 0 \<and> ftype \<noteq> 0 then 0x9E630000
             else if sf = 0 \<and> ftype \<noteq> 0 then 0x1E630000
             else if sf \<noteq> 0 \<and> ftype = 0 then 0x9E230000 else 0x1E230000 :: u32) in
      base OR fld rn 5 OR fld fd 0)"

definition encode_fcvtzs :: "int \<Rightarrow> int \<Rightarrow> int \<Rightarrow> int \<Rightarrow> u32" where
  "encode_fcvtzs sf ftype rd fn =
     (let base = (if sf \<noteq> 0 \<and> ftype \<noteq> 0 then 0x9E780000
             else if sf = 0 \<and> ftype \<noteq> 0 then 0x1E780000
             else if sf \<noteq> 0 \<and> ftype = 0 then 0x9E380000 else 0x1E380000 :: u32) in
      base OR fld fn 5 OR fld rd 0)"

definition encode_fcvtzu :: "int \<Rightarrow> int \<Rightarrow> int \<Rightarrow> int \<Rightarrow> u32" where
  "encode_fcvtzu sf ftype rd fn =
     (let base = (if sf \<noteq> 0 \<and> ftype \<noteq> 0 then 0x9E790000
             else if sf = 0 \<and> ftype \<noteq> 0 then 0x1E790000
             else if sf \<noteq> 0 \<and> ftype = 0 then 0x9E390000 else 0x1E390000 :: u32) in
      base OR fld fn 5 OR fld rd 0)"

definition encode_fcvt_d_s :: "int \<Rightarrow> int \<Rightarrow> u32" where
  "encode_fcvt_d_s fd fn =
     0x1E22C000 OR fld fn 5 OR fld fd 0"

definition encode_fcvt_s_d :: "int \<Rightarrow> int \<Rightarrow> u32" where
  "encode_fcvt_s_d fd fn =
     0x1E624000 OR fld fn 5 OR fld fd 0"

definition encode_ldr_fp_uoff :: "int \<Rightarrow> int \<Rightarrow> int \<Rightarrow> int \<Rightarrow> u32 option" where
  "encode_ldr_fp_uoff ftype ft rn imm =
     (let scale = (if ftype \<noteq> 0 then 3 else 2);
          imm12 = encode_imm12_unsigned imm scale in
      if imm12 < 0 then None
      else
        let base = pick ftype 0xFD400000 0xBD400000 in
        Some (base OR fld imm12 10 OR fld rn 5 OR fld ft 0))"

definition encode_str_fp_uoff :: "int \<Rightarrow> int \<Rightarrow> int \<Rightarrow> int \<Rightarrow> u32 option" where
  "encode_str_fp_uoff ftype ft rn imm =
     (let scale = (if ftype \<noteq> 0 then 3 else 2);
          imm12 = encode_imm12_unsigned imm scale in
      if imm12 < 0 then None
      else
        let base = pick ftype 0xFD000000 0xBD000000 in
        Some (base OR fld imm12 10 OR fld rn 5 OR fld ft 0))"

definition encode_ldr_fp_pre :: "int \<Rightarrow> int \<Rightarrow> int \<Rightarrow> int \<Rightarrow> u32 option" where
  "encode_ldr_fp_pre ftype ft rn imm =
     (let imm9 = encode_imm9 imm in
      if imm9 < 0 then None
      else
        let base = pick ftype 0xFC400C00 0xBC400C00 in
        Some (base OR fld imm9 12 OR fld rn 5 OR fld ft 0))"

definition encode_str_fp_pre :: "int \<Rightarrow> int \<Rightarrow> int \<Rightarrow> int \<Rightarrow> u32 option" where
  "encode_str_fp_pre ftype ft rn imm =
     (let imm9 = encode_imm9 imm in
      if imm9 < 0 then None
      else
        let base = pick ftype 0xFC000C00 0xBC000C00 in
        Some (base OR fld imm9 12 OR fld rn 5 OR fld ft 0))"

definition encode_ldr_fp_post :: "int \<Rightarrow> int \<Rightarrow> int \<Rightarrow> int \<Rightarrow> u32 option" where
  "encode_ldr_fp_post ftype ft rn imm =
     (let imm9 = encode_imm9 imm in
      if imm9 < 0 then None
      else
        let base = pick ftype 0xFC400400 0xBC400400 in
        Some (base OR fld imm9 12 OR fld rn 5 OR fld ft 0))"

definition encode_str_fp_post :: "int \<Rightarrow> int \<Rightarrow> int \<Rightarrow> int \<Rightarrow> u32 option" where
  "encode_str_fp_post ftype ft rn imm =
     (let imm9 = encode_imm9 imm in
      if imm9 < 0 then None
      else
        let base = pick ftype 0xFC000400 0xBC000400 in
        Some (base OR fld imm9 12 OR fld rn 5 OR fld ft 0))"

definition encode_svc :: "int \<Rightarrow> u32" where
  "encode_svc imm16 =
     0xD4000001 OR fld (imm16 AND 0xFFFF) 5"

definition encode_hvc :: "int \<Rightarrow> u32" where
  "encode_hvc imm16 =
     0xD4000002 OR fld (imm16 AND 0xFFFF) 5"

text \<open>Encoding: (op0-2)<<14 | op1<<11 | CRn<<7 | CRm<<3 | op2.\<close>

definition sysregs :: "(string \<times> int) list" where
  "sysregs = [(''sctlr_el1'', 0x4080), (''mair_el1'', 0x4510), (''tcr_el1'', 0x4102), (''ttbr0_el1'', 0x4100), (''ttbr1_el1'', 0x4101),
     (''vbar_el1'', 0x4600), (''cpacr_el1'', 0x4082), (''sp_el0'', 0x4208), (''elr_el1'', 0x4201), (''spsr_el1'', 0x4200),
     (''esr_el1'', 0x4290), (''far_el1'', 0x4300), (''daif'', 0x5A11), (''cntfrq_el0'', 0x5F00), (''cntp_tval_el0'', 0x5F10),
     (''cntp_ctl_el0'', 0x5F11)]"

definition encode_sysreg :: "u8 list \<Rightarrow> int" where
  "encode_sysreg nm = table_find sysregs nm"

definition encode_isb :: u32 where "encode_isb = 0xD5033FDF"

definition encode_dsb_sy :: u32 where "encode_dsb_sy = 0xD5033F9F"

definition encode_tlbi_vmalle1 :: u32 where "encode_tlbi_vmalle1 = 0xD508871F"

definition encode_tlbi_vaae1is :: "int \<Rightarrow> u32" where
  "encode_tlbi_vaae1is rt =
     0xD5088320 OR fld (rt AND 0x1F) 0"

definition encode_eret :: u32 where "encode_eret = 0xD69F03E0"

definition encode_wfe :: u32 where "encode_wfe = 0xD503205F"

definition encode_wfi :: u32 where "encode_wfi = 0xD503207F"

definition encode_msr_reg :: "int \<Rightarrow> int \<Rightarrow> u32" where
  "encode_msr_reg sysreg rt =
     0xD5100000 OR fld sysreg 5 OR fld rt 0"

definition encode_mrs :: "int \<Rightarrow> int \<Rightarrow> u32" where
  "encode_mrs sysreg rt =
     0xD5300000 OR fld sysreg 5 OR fld rt 0"

definition encode_msr_pstate :: "int \<Rightarrow> int \<Rightarrow> int \<Rightarrow> u32" where
  "encode_msr_pstate op1 op2 imm4 =
     0xD500401F OR fld op1 16 OR fld (imm4 AND 0xF) 8 OR fld op2 5"

end
