(* ===== verification/As_Logical.thy ===== *)
theory As_Logical
  imports As_Encode
begin

text \<open>
  Logical immediates: what \<^verbatim>\<open>encode_logical_imm\<close> of the assembler produces is what the processor expands to the constant that was asked for.
  The expansion is the reference here: an element of \<open>esize\<close> bits with \<open>S + 1\<close> ones, rotated right by \<open>R\<close> and repeated.
\<close>

subsection \<open>The expansion of the processor\<close>

text \<open>The size of the element, from the highest bit of \<open>N:NOT(imms)\<close>.\<close>

definition elem_size :: "nat \<Rightarrow> nat \<Rightarrow> nat" where
  "elem_size n imms =
     (if n = 1 then 64 else if \<not> bit imms 5 then 32 else if \<not> bit imms 4 then 16
      else if \<not> bit imms 3 then 8 else if \<not> bit imms 2 then 4 else 2)"

definition expanded_bit :: "LogicalImm \<Rightarrow> nat \<Rightarrow> bool" where
  "expanded_bit li k \<longleftrightarrow>
     (let e = elem_size (li_n li) (li_imms li); s = li_imms li mod e; r = li_immr li mod e in (k mod e + r) mod e \<le> s)"

definition expand :: "LogicalImm \<Rightarrow> u64" where
  "expand li = fold (\<lambda>k w. if expanded_bit li k then w OR push_bit k 1 else w) [0..<64] 0"

lemma bit_fold_set:
  "bit (fold (\<lambda>k w. if P k then w OR push_bit k 1 else w) ks (w :: u64)) j \<longleftrightarrow> bit w j \<or> (j < 64 \<and> j \<in> set ks \<and> P j)"
  by (induction ks arbitrary: w) (auto simp: bit_simps)

lemma bit_expand: "bit (expand li) j \<longleftrightarrow> j < 64 \<and> expanded_bit li j"
  by (auto simp: expand_def bit_fold_set)

subsection \<open>The pieces of the encoder\<close>

lemma bit_low_mask: "bit (low_mask n) j \<longleftrightarrow> j < 64 \<and> j < n" if "n < 64"
proof -
  have "low_mask n = mask n" by (simp add: low_mask_def mask_eq_exp_minus_1 push_bit_eq_mult)
  then show ?thesis using that by (auto simp: bit_simps)
qed

text \<open>A pattern that repeats is given by its first element.\<close>

lemma repeats_bit:
  assumes "repeats n val" "n < 64" "0 < n" "n dvd 64" "j < 64"
  shows "bit val j = bit val (j mod n)"
proof -
  let ?k = "j div n"
  have "?k < 64 div n" using assms(3-5) by (auto simp: div_less_iff_less_mult dvd_div_mult_self)
  then have "drop_bit (?k * n) val AND low_mask n = val AND low_mask n" using assms(1) by (auto simp: repeats_def)
  then have "bit (drop_bit (?k * n) val AND low_mask n) (j mod n) = bit (val AND low_mask n) (j mod n)" by simp
  moreover have "j mod n < n" using assms(3) by simp
  ultimately show ?thesis using assms(2) by (simp add: bit_low_mask bit_simps)
qed

lemma size_loop_result:
  assumes "n = 2 ^ i" "1 \<le> i" "width = 2 ^ m" "i \<le> m" "m \<le> 6"
  shows "\<exists>j. i \<le> j \<and> j \<le> m \<and> size_loop width n val = 2 ^ j \<and> (j < m \<longrightarrow> repeats (2 ^ j) val)"
  using assms
proof (induction width n val arbitrary: i rule: size_loop.induct)
  case (1 width n val)
  show ?case
  proof (cases "i < m")
    case False
    then have "size_loop width n val = n" using "1.prems" by (subst size_loop.simps) simp
    then show ?thesis using False "1.prems" by (intro exI [of _ i]) simp
  next
    case True
    then have less: "0 < n \<and> n < width" using "1.prems" by simp
    show ?thesis
    proof (cases "repeats n val")
      case True
      then have "size_loop width n val = n" using less by (simp add: size_loop.simps [of width n])
      then show ?thesis using True \<open>i < m\<close> "1.prems" by (intro exI [of _ i]) simp
    next
      case False
      have "\<exists>j. i + 1 \<le> j \<and> j \<le> m \<and> size_loop width (n * 2) val = 2 ^ j \<and> (j < m \<longrightarrow> repeats (2 ^ j) val)"
        using \<open>i < m\<close> "1.prems" by (intro "1.IH" [OF less False]) auto
      moreover have "size_loop width n val = size_loop width (n * 2) val" using less False by (simp add: size_loop.simps [of width n])
      ultimately show ?thesis by auto
    qed
  qed
qed

lemma even_bit0: "val AND 1 = 0 \<longleftrightarrow> \<not> bit val 0" for val :: u64
  by (simp add: and_one_eq even_iff_mod_2_eq_zero [symmetric] bit_0)

lemma ctz_loop_correct:
  assumes "val \<noteq> 0"
  shows "\<exists>r. ctz_loop val c = Some (c + r) \<and> r < 64 \<and> bit val r \<and> (\<forall>k < r. \<not> bit val k)"
  using assms
proof (induction "unat val" arbitrary: val c rule: less_induct)
  case less
  show ?case
  proof (cases "bit val 0")
    case True
    then show ?thesis by (auto simp: ctz_loop.simps [of val] even_bit0 intro!: exI [of _ 0])
  next
    case False
    let ?v = "drop_bit 1 val"
    obtain k where k: "bit val k" using less.prems by (auto simp: bit_eq_iff)
    then have "k = Suc (k - 1)" using False by (cases k) auto
    then have "bit ?v (k - 1)" using k by (simp add: bit_drop_bit_eq)
    then have nz: "?v \<noteq> 0" by auto
    have "unat ?v < unat val" using less.prems by (simp add: drop_bit_eq_div unat_div unat_gt_0)
    from less.hyps [OF this nz, of "c + 1"] obtain r where
      r: "ctz_loop ?v (c + 1) = Some (c + 1 + r)" "r < 64" "bit ?v r" "\<forall>k < r. \<not> bit ?v k" by blast
    have b: "bit ?v j = bit val (Suc j)" for j by (simp add: bit_drop_bit_eq)
    have "Suc r < 64" using r(3) bit_imp_le_length [of val "Suc r"] unfolding b by simp
    moreover have "\<not> bit val j" if "j < Suc r" for j using that r(4) False b by (cases j) auto
    moreover have "ctz_loop val c = Some (c + Suc r)" using False r(1) by (subst ctz_loop.simps) (simp add: even_bit0)
    ultimately show ?thesis using r(3) b by blast
  qed
qed

lemma ones_loop_correct:
  "\<exists>k. ones_loop tmp c = c + k \<and> (\<forall>j < k. bit tmp j) \<and> \<not> bit tmp k"
proof (induction tmp c rule: ones_loop.induct)
  case (1 tmp c)
  show ?case
  proof (cases "bit tmp 0")
    case False
    then show ?thesis by (auto simp: ones_loop.simps [of tmp] even_bit0 intro!: exI [of _ 0])
  next
    case True
    then have t: "tmp AND 1 \<noteq> 0" using even_bit0 [of tmp] by simp
    obtain k where k: "ones_loop (drop_bit 1 tmp) (c + 1) = c + 1 + k" "\<forall>j < k. bit (drop_bit 1 tmp) j" "\<not> bit (drop_bit 1 tmp) k"
      using "1.IH" [OF t] by blast
    have b: "bit (drop_bit 1 tmp) j = bit tmp (Suc j)" for j by (simp add: bit_drop_bit_eq)
    have "bit tmp j" if "j < Suc k" for j using that k(2) True b by (cases j) auto
    moreover have "ones_loop tmp c = c + Suc k" using t k(1) by (simp add: ones_loop.simps [of tmp c])
    ultimately show ?thesis using k(3) b by blast
  qed
qed

text \<open>After the rotation the element is a run of ones from bit 0, so it was a run of ones from the rotation on.\<close>

lemma rotated_bits:
  assumes "\<forall>k < r. \<not> bit elem k" "r < 64"
  shows "ror64 elem r = drop_bit r elem"
proof -
  have "push_bit (64 - r) elem = 0" if "0 < r"
  proof (rule bit_word_eqI)
    fix j assume "j < LENGTH(64)"
    then show "bit (push_bit (64 - r) elem) j \<longleftrightarrow> bit (0 :: u64) j" using assms that by (auto simp: bit_push_bit_iff)
  qed
  then show ?thesis using assms(2) by (auto simp: ror64_def Let_def)
qed

lemma run_bits:
  fixes elem :: u64
  assumes r: "\<forall>k < r. \<not> bit elem k" and o: "\<forall>j < k. bit (drop_bit r elem) j" and z: "drop_bit k (drop_bit r elem) = 0"
  shows "bit elem j \<longleftrightarrow> r \<le> j \<and> j < r + k"
proof -
  have high: "\<not> bit elem j" if "r + k \<le> j"
  proof -
    have "\<not> bit (drop_bit k (drop_bit r elem)) (j - r - k)" using z by simp
    then show ?thesis using that by (simp add: bit_drop_bit_eq)
  qed
  have mid: "bit elem j" if "r \<le> j" "j < r + k" using o that by (auto simp: bit_drop_bit_eq dest: spec [of _ "j - r"])
  consider "j < r" | "r \<le> j" "j < r + k" | "r + k \<le> j" by linarith
  then show ?thesis by cases (use high mid r in auto)
qed

lemma rotate_test:
  fixes j k n r :: nat
  assumes "r + k \<le> n" "r < n" "k < n" "0 < k" "j < n"
  shows "(j + (n - r) mod n) mod n \<le> k - 1 \<longleftrightarrow> r \<le> j \<and> j < r + k"
proof -
  have "(j + (n - r) mod n) mod n = (j + (n - r)) mod n" by (rule mod_add_right_eq)
  also have "\<dots> = (if r \<le> j then j - r else j + n - r)"
  proof (cases "r \<le> j")
    case True
    then have eq: "j + (n - r) = (j - r) + n" using assms by simp
    show ?thesis unfolding eq mod_add_self2 using True assms by simp
  qed (use assms in simp)
  finally show ?thesis using assms by auto
qed

text \<open>The processor reads the size of the element and the number of ones back from the fields.\<close>

lemma fields_small:
  assumes "1 \<le> i" "i < 6" "1 \<le> k" "k < 2 ^ i"
  obtains b where "size_bits (2 ^ i) = Some b" "elem_size 0 (b OR (k - 1)) = 2 ^ i" "(b OR (k - 1)) mod 2 ^ i = k - 1"
proof -
  have "list_all (\<lambda>i. list_all (\<lambda>k. case size_bits (2 ^ i) of None \<Rightarrow> False | Some b \<Rightarrow>
     elem_size 0 (b OR (k - 1)) = 2 ^ i \<and> (b OR (k - 1)) mod 2 ^ i = k - 1) [1..<2 ^ i]) [1..<6]"
    by code_simp
  then have "case size_bits (2 ^ i) of None \<Rightarrow> False | Some b \<Rightarrow>
     elem_size 0 (b OR (k - 1)) = 2 ^ i \<and> (b OR (k - 1)) mod 2 ^ i = k - 1"
    using assms unfolding list_all_iff by simp
  then show thesis using that by (auto split: option.splits)
qed

text \<open>The element as a run of ones, and the fields made of it.\<close>

lemma expand_run:
  assumes run: "\<And>b. b < 64 \<Longrightarrow> bit val b \<longleftrightarrow> rot \<le> b mod e \<and> b mod e < rot + k"
    and e: "elem_size (li_n li) (li_imms li) = e" "li_imms li mod e = k - 1" "li_immr li mod e = (e - rot) mod e" "rot + k \<le> e" "0 < k" "k < e" "rot < e"
  shows "expand li = val"
proof (rule bit_word_eqI)
  fix b assume "b < LENGTH(64)"
  then have b: "b < 64" by simp
  have "b mod e < e" using e(6) by simp
  then have "expanded_bit li b \<longleftrightarrow> rot \<le> b mod e \<and> b mod e < rot + k"
    using rotate_test [OF e(4,7,6,5), of "b mod e"] by (simp add: expanded_bit_def Let_def e(1-3))
  then show "bit (expand li) b \<longleftrightarrow> bit val b" using run [OF b] b by (simp add: bit_expand)
qed

lemma element_bits:
  assumes "j \<le> 6" "0 < j" "j < 6 \<longrightarrow> repeats (2 ^ j) val"
  defines "elem \<equiv> val AND (if 2 ^ j = (64 :: nat) then NOT 0 else low_mask (2 ^ j))"
  shows "bit elem b \<longleftrightarrow> b < 2 ^ j \<and> bit val b" and "b < 64 \<Longrightarrow> bit val b = bit elem (b mod 2 ^ j)"
proof -
  have s: "(2 :: nat) ^ j = 64 \<longleftrightarrow> j = 6" using power_inject_exp [of "2 :: nat" j 6] by simp
  have le: "j < 6 \<Longrightarrow> (2 :: nat) ^ j < 64" using power_strict_increasing [of j 6 "2 :: nat"] by simp
  show bits: "bit elem b \<longleftrightarrow> b < 2 ^ j \<and> bit val b" for b
  proof (cases "j = 6")
    case True
    then show ?thesis using bit_imp_le_length [of val b] by (auto simp: elem_def)
  next
    case False
    then show ?thesis using assms(1) le s bit_imp_le_length [of val b] by (auto simp: elem_def bit_low_mask bit_and_iff)
  qed
  assume b: "b < 64"
  show "bit val b = bit elem (b mod 2 ^ j)"
  proof (cases "j = 6")
    case True
    then show ?thesis using b by (simp add: bits)
  next
    case False
    have "(2 :: nat) ^ j dvd 64" using le_imp_power_dvd [of j 6 "2 :: nat"] assms(1) by simp
    then show ?thesis using repeats_bit [of "2 ^ j" val b] False assms(1,3) le b by (simp add: bits)
  qed
qed

lemma encode_element_sound:
  assumes j: "0 < j" "j \<le> 6" "j < 6 \<longrightarrow> repeats (2 ^ j) val" and "val \<noteq> 0"
  shows "\<exists>r. encode_element (2 ^ j) val = Some r \<and>
    (\<forall>li. r = Some li \<longrightarrow> expand li = val \<and> li_n li = (if j = 6 then 1 else 0) \<and>
      (\<exists>rot k. 0 < k \<and> k < 2 ^ j \<and> (\<forall>b < 64. bit val b \<longleftrightarrow> rot \<le> b mod 2 ^ j \<and> b mod 2 ^ j < rot + k)))"
proof -
  let ?e = "(2 :: nat) ^ j"
  define msk :: u64 where "msk = (if ?e = 64 then NOT 0 else low_mask ?e)"
  define elem where "elem = val AND msk"
  note eb = element_bits [OF j(2,1,3), folded msk_def, folded elem_def]
  obtain b0 where "bit val b0" using \<open>val \<noteq> 0\<close> by (auto simp: bit_eq_iff)
  then have "bit elem (b0 mod ?e)" using eb(2) [of b0] bit_imp_le_length [of val b0] by simp
  then have nz: "elem \<noteq> 0" by auto
  obtain rot where rot: "ctz64 elem = Some rot" "rot < 64" "bit elem rot" "\<forall>k < rot. \<not> bit elem k"
    using ctz_loop_correct [OF nz, of 0] nz by (auto simp: ctz64_def)
  have rot_e: "rot < ?e" using rot(3) eb(1) by blast
  define rotated where "rotated = drop_bit rot elem"
  have mask_id: "(if ?e < 64 then ror64 elem rot AND msk else ror64 elem rot) = rotated"
  proof (cases "?e < 64")
    case True
    have "rotated AND low_mask ?e = rotated"
    proof (rule bit_word_eqI)
      fix b
      have "bit elem (rot + b) \<Longrightarrow> b < ?e" using eb(1) [of "rot + b"] by linarith
      then show "bit (rotated AND low_mask ?e) b \<longleftrightarrow> bit rotated b"
        using True by (auto simp: rotated_def bit_and_iff bit_low_mask bit_drop_bit_eq)
    qed
    then show ?thesis using True rotated_bits [OF rot(4,2)] by (simp add: rotated_def msk_def)
  qed (simp add: rotated_def rotated_bits [OF rot(4,2)])
  obtain k where k: "ones_loop rotated 0 = k" "\<forall>i < k. bit rotated i" "\<not> bit rotated k" using ones_loop_correct [of rotated 0] by auto
  have eq: "encode_element ?e val =
      (if drop_bit k rotated \<noteq> 0 then Some None else if k = 0 \<or> k = ?e then Some None
       else let immr = (?e - rot) AND (?e - 1) in
         if ?e = 64 then Some (Some \<lparr>li_n = 1, li_imms = k - 1, li_immr = immr\<rparr>)
         else Some (case size_bits ?e of None \<Rightarrow> None | Some b \<Rightarrow> Some \<lparr>li_n = 0, li_imms = b OR (k - 1), li_immr = immr\<rparr>))"
    unfolding encode_element_def Let_def msk_def [symmetric] elem_def [symmetric] rot(1) bind.bind_lunit mask_id k(1) by (rule refl)
  show ?thesis
  proof (cases "drop_bit k rotated \<noteq> 0 \<or> k = 0 \<or> k = ?e")
    case True
    then show ?thesis by (auto simp: eq)
  next
    case False
    then have z: "drop_bit k (drop_bit rot elem) = 0" "0 < k" "k \<noteq> ?e" by (auto simp: rotated_def)
    have run: "bit elem b \<longleftrightarrow> rot \<le> b \<and> b < rot + k" for b by (rule run_bits [OF rot(4) k(2) [unfolded rotated_def] z(1)])
    have "bit elem (rot + k - 1)" using run z(2) by simp
    then have ke: "rot + k \<le> ?e" using eb(1) z(2) by (metis One_nat_def Suc_leI Suc_pred add_gr_0)
    then have "k < ?e" using z(3) by simp
    have vb: "bit val b \<longleftrightarrow> rot \<le> b mod ?e \<and> b mod ?e < rot + k" if "b < 64" for b using eb(2) [OF that] run by simp
    let ?r = "(?e - rot) AND (?e - 1)"
    have r: "?r mod ?e = (?e - rot) mod ?e" by (simp add: take_bit_eq_mod [symmetric] take_bit_eq_mask mask_eq_exp_minus_1 and.assoc)
    have "\<exists>li. encode_element ?e val = Some (Some li) \<and> expand li = val \<and> li_n li = (if j = 6 then 1 else 0)"
    proof (cases "j = 6")
      case True
      then have e64: "?e = 64" by simp
      have "encode_element ?e val = Some (Some \<lparr>li_n = 1, li_imms = k - 1, li_immr = ?r\<rparr>)"
        unfolding eq using z e64 by (simp add: Let_def rotated_def)
      moreover have "expand \<lparr>li_n = 1, li_imms = k - 1, li_immr = ?r\<rparr> = val"
        using e64 r ke z(2) \<open>k < ?e\<close> rot_e by (intro expand_run [OF vb]) (simp_all add: elem_size_def)
      ultimately show ?thesis using True by auto
    next
      case False
      then have i: "1 \<le> j" "j < 6" using j by auto
      obtain b where b: "size_bits ?e = Some b" "elem_size 0 (b OR (k - 1)) = ?e" "(b OR (k - 1)) mod ?e = k - 1"
        using fields_small [OF i, of k] z(2) \<open>k < ?e\<close> by auto
      have "?e \<noteq> 64" using b(1) by (auto simp: size_bits_def split: if_splits)
      then have "encode_element ?e val = Some (Some \<lparr>li_n = 0, li_imms = b OR (k - 1), li_immr = ?r\<rparr>)"
        using z b(1) by (simp add: eq Let_def rotated_def)
      moreover have "expand \<lparr>li_n = 0, li_imms = b OR (k - 1), li_immr = ?r\<rparr> = val"
        using b r ke z(2) \<open>k < ?e\<close> rot_e by (intro expand_run [OF vb]) simp_all
      ultimately show ?thesis using False by auto
    qed
    moreover have "\<exists>rot k. 0 < k \<and> k < ?e \<and> (\<forall>b < 64. bit val b \<longleftrightarrow> rot \<le> b mod ?e \<and> b mod ?e < rot + k)"
      using vb z(2) \<open>k < ?e\<close> by blast
    ultimately show ?thesis by blast
  qed
qed

lemma replicate32_bit: "bit (replicate32 val) b \<longleftrightarrow> b < 64 \<and> bit val (b mod 32)"
proof -
  have m: "(0xFFFFFFFF :: u64) = mask 32" by (simp add: mask_eq_exp_minus_1)
  have "\<not> b < 32 \<Longrightarrow> b < 64 \<Longrightarrow> b mod 32 = b - 32" by (simp add: mod_if)
  then show ?thesis
    unfolding replicate32_def Let_def m using bit_imp_le_length [of val b] by (cases "b < 32") (auto simp: bit_simps)
qed

text \<open>A pattern of period 32 is not a run of ones inside 64 bits.\<close>

lemma no_run_of_32:
  assumes run: "\<And>b. b < 64 \<Longrightarrow> bit (replicate32 val) b \<longleftrightarrow> rot \<le> b \<and> b < rot + k" and "0 < k" "k < 64" "replicate32 val \<noteq> 0" "rot < 64"
  shows False
proof -
  have per: "bit (replicate32 val) b = bit (replicate32 val) (b + 32)" if "b < 32" for b using that by (simp add: replicate32_bit)
  show False
  proof (cases "rot < 32")
    case True
    then have "32 < k" using per [of rot] run [of rot] run [of "rot + 32"] \<open>0 < k\<close> by simp
    have "bit (replicate32 val) b" if "b < 64" for b
    proof -
      have "bit (replicate32 val) (b mod 32)"
        using per [of "b mod 32"] run [of "b mod 32"] run [of "b mod 32 + 32"] True \<open>32 < k\<close> by (cases "rot \<le> b mod 32") auto
      then show ?thesis using that by (simp add: replicate32_bit)
    qed
    then have "rot = 0" "63 < rot + k" using run [of 0] run [of 63] by auto
    then show False using \<open>k < 64\<close> by simp
  next
    case False
    then have "bit (replicate32 val) rot" using run [OF assms(5)] \<open>0 < k\<close> by simp
    then have "bit (replicate32 val) (rot - 32)" using per [of "rot - 32"] False assms(5) by simp
    then have "rot \<le> rot - 32" using run [of "rot - 32"] assms(5) by simp
    then show False using False by linarith
  qed
qed

lemma encode_logical_imm_outcome:
  "\<exists>r. encode_logical_imm sf val = Some r \<and>
    (\<forall>li. r = Some li \<longrightarrow> expand li = (if sf \<noteq> 0 then val else replicate32 val) \<and> (sf = 0 \<longrightarrow> li_n li = 0))"
proof -
  let ?v = "if sf = 0 then replicate32 val else val"
  let ?w = "if sf \<noteq> 0 then 64 else 32 :: nat"
  show ?thesis
  proof (cases "?v = 0 \<or> ?v = NOT 0")
    case True
    then show ?thesis by (auto simp: encode_logical_imm_def Let_def)
  next
    case False
    define m where "m = (if sf \<noteq> 0 then 6 else 5 :: nat)"
    have m: "?w = 2 ^ m" "m \<le> 6" "1 \<le> m" by (auto simp: m_def)
    obtain j where j: "1 \<le> j" "j \<le> m" "size_loop ?w 2 ?v = 2 ^ j" "j < m \<longrightarrow> repeats (2 ^ j) ?v"
      using size_loop_result [of 2 1 ?w m ?v] m by auto
    define j' where "j' = (if j = m then 6 else j)"
    have p: "(if 2 ^ j = ?w \<and> sf = 0 then 64 else 2 ^ j) = (2 :: nat) ^ j'"
    proof (cases "j = m")
      case True
      then show ?thesis using m(1) by (auto simp: j'_def m_def)
    next
      case False
      then have "(2 :: nat) ^ j \<noteq> 2 ^ m" by simp
      then show ?thesis using False m(1) by (simp add: j'_def)
    qed
    have jj: "0 < j'" "j' \<le> 6" "j' < 6 \<longrightarrow> repeats (2 ^ j') ?v" using j m by (auto simp: j'_def)
    have nz: "?v \<noteq> 0" using False by blast
    have en: "encode_logical_imm sf val = encode_element (2 ^ j') ?v"
      using False unfolding encode_logical_imm_def Let_def j(3) p by (simp only: if_False)
    obtain r where r: "encode_logical_imm sf val = Some r"
      "\<And>li. r = Some li \<Longrightarrow> expand li = ?v \<and> li_n li = (if j' = 6 then 1 else 0) \<and>
        (\<exists>rot k. 0 < k \<and> k < 2 ^ j' \<and> (\<forall>b < 64. bit ?v b \<longleftrightarrow> rot \<le> b mod 2 ^ j' \<and> b mod 2 ^ j' < rot + k))"
      using encode_element_sound [OF jj nz] unfolding en [symmetric] by blast
    have "li_n li = 0" if li: "r = Some li" and sf: "sf = 0" for li
    proof (rule ccontr)
      assume "li_n li \<noteq> 0"
      then have 6: "j' = 6" using r(2) [OF li] by (auto split: if_splits)
      then obtain rot k where rk: "0 < k" "k < 64" "\<And>b. b < 64 \<Longrightarrow> bit (replicate32 val) b \<longleftrightarrow> rot \<le> b \<and> b < rot + k"
        using r(2) [OF li] sf by auto
      obtain b where b: "bit (replicate32 val) b" using nz sf by (auto simp: bit_eq_iff)
      then have "b < 64" using bit_imp_le_length [of "replicate32 val" b] by simp
      then have "rot < 64" using b rk(3) [of b] by linarith
      then show False using no_run_of_32 [OF rk(3,1,2)] nz sf by simp
    qed
    moreover have "?v = (if sf \<noteq> 0 then val else replicate32 val)" by simp
    ultimately show ?thesis using r(1) r(2) by (intro exI [of _ r] conjI allI impI) metis+
  qed
qed

text \<open>Property C30. \<^verbatim>\<open>encode_logical_imm\<close> always returns, and when it accepts a constant the processor expands the fields to exactly that
  constant (for the 32-bit form: to its two copies); the field N, which the 32-bit form does not have, is then 0.\<close>

theorem encode_logical_imm_correct:
  "\<exists>r. encode_logical_imm sf val = Some r \<and>
    (\<forall>li. r = Some li \<longrightarrow> expand li = (if sf \<noteq> 0 then val else replicate32 val) \<and> (sf = 0 \<longrightarrow> li_n li = 0))"
  by (rule encode_logical_imm_outcome)

theorem encode_logical_imm_correct_witness:
  "\<exists>r. encode_logical_imm 1 0x00FF00FF00FF00FF = Some r \<and>
    (\<forall>li. r = Some li \<longrightarrow> expand li = (if (1 :: int) \<noteq> 0 then 0x00FF00FF00FF00FF else replicate32 0x00FF00FF00FF00FF) \<and> ((1 :: int) = 0 \<longrightarrow> li_n li = 0))"
  by (rule encode_logical_imm_correct)

text \<open>It does not accept every constant that has an encoding: in the 32-bit form none whose element has 32 bits, and in neither form one whose run
  of ones goes around the end of the element.\<close>

lemma encode_element_rejects:
  assumes "val AND 1 \<noteq> 0" "drop_bit (ones_loop val 0) val \<noteq> 0"
  shows "encode_element 64 val = Some None"
proof -
  have "val \<noteq> 0" using assms(1) by auto
  moreover have "ctz_loop val 0 = Some 0" using assms(1) by (subst ctz_loop.simps) simp
  ultimately show ?thesis using assms(2) by (simp add: encode_element_def Let_def ctz64_def ror64_def)
qed

lemma rejects_byte_mask: "encode_logical_imm 0 0xFF = Some None"
proof -
  have "encode_logical_imm 0 0xFF = encode_element 64 0xFF000000FF"
  proof -
    have r: "replicate32 0xFF = 0xFF000000FF" by code_simp
    have "size_loop 32 2 0xFF000000FF = 32" by code_simp
    then show ?thesis by (simp add: encode_logical_imm_def r)
  qed
  moreover have "drop_bit (ones_loop 0xFF000000FF 0) (0xFF000000FF :: u64) \<noteq> 0" by code_simp
  ultimately show ?thesis using encode_element_rejects [of "0xFF000000FF"] by simp
qed

lemma byte_mask_has_encoding: "expand \<lparr>li_n = 0, li_imms = 7, li_immr = 0\<rparr> = replicate32 0xFF"
  by code_simp

lemma rejects_wrapped_run: "encode_logical_imm 1 0x8000000000000001 = Some None"
proof -
  have "size_loop 64 2 0x8000000000000001 = 64" by code_simp
  then have "encode_logical_imm 1 0x8000000000000001 = encode_element 64 0x8000000000000001" by (simp add: encode_logical_imm_def)
  moreover have "drop_bit (ones_loop 0x8000000000000001 0) (0x8000000000000001 :: u64) \<noteq> 0" by code_simp
  ultimately show ?thesis using encode_element_rejects [of "0x8000000000000001"] by simp
qed

lemma wrapped_run_has_encoding: "expand \<lparr>li_n = 1, li_imms = 1, li_immr = 1\<rparr> = 0x8000000000000001"
  by code_simp

end
