(* ===== verification/Ld_Reloc.thy ===== *)
theory Ld_Reloc
  imports As_Encode
begin

text \<open>
  Relocation in the linker, \<^verbatim>\<open>cmd/ld/reloc.c\<close>: patching the instructions that the assembler left open. The output section is an array of
  bytes; \<open>None\<close> is a call of \<^verbatim>\<open>error\<close>, which ends the linker. The theorems read the patched instruction the way the processor does.
\<close>

subsection \<open>The program\<close>

definition R_AARCH64_NONE :: int where "R_AARCH64_NONE = 0"
definition R_AARCH64_ABS64 :: int where "R_AARCH64_ABS64 = 257"
definition R_AARCH64_ADR_PREL_LO21 :: int where "R_AARCH64_ADR_PREL_LO21 = 274"
definition R_AARCH64_ADR_PREL_PG_HI21 :: int where "R_AARCH64_ADR_PREL_PG_HI21 = 275"
definition R_AARCH64_ADD_ABS_LO12_NC :: int where "R_AARCH64_ADD_ABS_LO12_NC = 277"
definition R_AARCH64_LDST8_ABS_LO12_NC :: int where "R_AARCH64_LDST8_ABS_LO12_NC = 278"
definition R_AARCH64_JUMP26 :: int where "R_AARCH64_JUMP26 = 282"
definition R_AARCH64_CALL26 :: int where "R_AARCH64_CALL26 = 283"
definition R_AARCH64_LDST16_ABS_LO12_NC :: int where "R_AARCH64_LDST16_ABS_LO12_NC = 284"
definition R_AARCH64_LDST32_ABS_LO12_NC :: int where "R_AARCH64_LDST32_ABS_LO12_NC = 285"
definition R_AARCH64_LDST64_ABS_LO12_NC :: int where "R_AARCH64_LDST64_ABS_LO12_NC = 286"

lemmas reloc_types =
  R_AARCH64_NONE_def R_AARCH64_ABS64_def R_AARCH64_ADR_PREL_LO21_def R_AARCH64_ADR_PREL_PG_HI21_def R_AARCH64_ADD_ABS_LO12_NC_def
  R_AARCH64_LDST8_ABS_LO12_NC_def R_AARCH64_JUMP26_def R_AARCH64_CALL26_def R_AARCH64_LDST16_ABS_LO12_NC_def
  R_AARCH64_LDST32_ABS_LO12_NC_def R_AARCH64_LDST64_ABS_LO12_NC_def

text \<open>\<^verbatim>\<open>memcpy\<close> between an instruction and its four bytes, and of a 64-bit value to its eight.\<close>

definition get_insn :: "bytes \<Rightarrow> nat \<Rightarrow> u32" where
  "get_insn d t = ucast (d t) OR push_bit 8 (ucast (d (t + 1))) OR push_bit 16 (ucast (d (t + 2))) OR push_bit 24 (ucast (d (t + 3)))"

definition put_insn :: "nat \<Rightarrow> u32 \<Rightarrow> bytes \<Rightarrow> bytes" where
  "put_insn t v d = d(t := ucast v, t + 1 := ucast (drop_bit 8 v), t + 2 := ucast (drop_bit 16 v), t + 3 := ucast (drop_bit 24 v))"

definition put_value :: "nat \<Rightarrow> u64 \<Rightarrow> bytes \<Rightarrow> bytes" where
  "put_value t v d = (\<lambda>i. if t \<le> i \<and> i < t + 8 then ucast (drop_bit (8 * (i - t)) v) else d i)"

text \<open>The fields of a branch, of \<^verbatim>\<open>adr\<close> and \<^verbatim>\<open>adrp\<close>, and of an instruction with a 12-bit immediate.\<close>

definition patch26 :: "u32 \<Rightarrow> int \<Rightarrow> u32" where
  "patch26 insn offset = (insn AND 0xfc000000) OR word_of_int (drop_bit 2 offset AND 0x03ffffff)"

definition patch_adr :: "u32 \<Rightarrow> int \<Rightarrow> u32" where
  "patch_adr insn imm = (insn AND 0x9f00001f) OR fld (imm AND 3) 29 OR fld (drop_bit 2 imm AND 0x7ffff) 5"

definition patch12 :: "u32 \<Rightarrow> u64 \<Rightarrow> u32" where
  "patch12 insn v = (insn AND 0xffc003ff) OR push_bit 10 (ucast v)"

definition patch_ldst :: "nat \<Rightarrow> nat \<Rightarrow> u64 \<Rightarrow> bytes \<Rightarrow> bytes option" where
  "patch_ldst scale t sa d =
     (let v = sa AND 0xfff in
      if v AND (push_bit scale 1 - 1) \<noteq> 0 then None
      else Some (put_insn t (patch12 (get_insn d t) (drop_bit scale v)) d))"

definition apply_one_reloc :: "nat \<Rightarrow> u64 \<Rightarrow> u64 \<Rightarrow> int \<Rightarrow> u64 \<Rightarrow> bytes \<Rightarrow> bytes option" where
  "apply_one_reloc t p s type a d =
     (if type = R_AARCH64_NONE then Some d
      else if type = R_AARCH64_ABS64 then Some (put_value t (s + a) d)
      else if type = R_AARCH64_CALL26 \<or> type = R_AARCH64_JUMP26 then
        let offset = sint (s + a - p) in
        if offset < - (2 ^ 27) \<or> offset \<ge> 2 ^ 27 then None
        else if offset AND 3 \<noteq> 0 then None
        else Some (put_insn t (patch26 (get_insn d t) offset) d)
      else if type = R_AARCH64_ADR_PREL_LO21 then
        let offset = sint (s + a - p) in
        if offset < - (2 ^ 20) \<or> offset \<ge> 2 ^ 20 then None
        else Some (put_insn t (patch_adr (get_insn d t) offset) d)
      else if type = R_AARCH64_ADR_PREL_PG_HI21 then
        let page_offset = sint (((s + a) AND NOT 0xfff) - (p AND NOT 0xfff)) in
        if page_offset < - (2 ^ 32) \<or> page_offset \<ge> 2 ^ 32 then None
        else Some (put_insn t (patch_adr (get_insn d t) (drop_bit 12 page_offset)) d)
      else if type = R_AARCH64_ADD_ABS_LO12_NC \<or> type = R_AARCH64_LDST8_ABS_LO12_NC then
        Some (put_insn t (patch12 (get_insn d t) ((s + a) AND 0xfff)) d)
      else if type = R_AARCH64_LDST16_ABS_LO12_NC then patch_ldst 1 t (s + a) d
      else if type = R_AARCH64_LDST32_ABS_LO12_NC then patch_ldst 2 t (s + a) d
      else if type = R_AARCH64_LDST64_ABS_LO12_NC then patch_ldst 3 t (s + a) d
      else None)"

subsection \<open>How the processor reads the instructions\<close>

definition branch_target :: "u32 \<Rightarrow> u64 \<Rightarrow> u64" where
  "branch_target insn p = p + 4 * scast (ucast insn :: 26 word)"

definition adr_field :: "u32 \<Rightarrow> 21 word" where
  "adr_field insn = ucast (drop_bit 29 insn AND 3) OR push_bit 2 (ucast (drop_bit 5 insn AND 0x7ffff))"

definition adr_value :: "u32 \<Rightarrow> u64 \<Rightarrow> u64" where
  "adr_value insn p = p + scast (adr_field insn)"

definition adrp_value :: "u32 \<Rightarrow> u64 \<Rightarrow> u64" where
  "adrp_value insn p = (p AND NOT 0xfff) + push_bit 12 (scast (adr_field insn))"

definition imm12_field :: "u32 \<Rightarrow> u64" where
  "imm12_field insn = ucast (drop_bit 10 insn AND 0xfff)"

subsection \<open>Bytes of an instruction\<close>

lemma get_put_insn [simp]: "get_insn (put_insn t v d) t = v"
proof (rule bit_word_eqI)
  fix k assume "k < LENGTH(32)"
  then have "k < 8 \<or> 8 \<le> k \<and> k < 16 \<or> 16 \<le> k \<and> k < 24 \<or> 24 \<le> k \<and> k < 32" by auto
  then show "bit (get_insn (put_insn t v d) t) k = bit v k"
    by (auto simp: get_insn_def put_insn_def bit_or_iff bit_push_bit_iff bit_ucast_iff bit_drop_bit_eq)
qed

lemma put_insn_other: "i < t \<or> t + 4 \<le> i \<Longrightarrow> put_insn t v d i = d i"
  by (auto simp: put_insn_def)

lemma sint_diff_word: "p + word_of_int (sint (x - p)) = x" for x p :: u64
  by simp

subsection \<open>Branches\<close>

lemma patch26_field:
  "ucast (patch26 insn offset) = (word_of_int (drop_bit 2 offset) :: 26 word)" "patch26 insn offset AND 0xfc000000 = insn AND 0xfc000000"
proof -
  have m: "(0xfc000000 :: u32) = NOT (mask 26)" by (simp add: mask_eq_exp_minus_1)
  have m': "(0x03ffffff :: int) = mask 26" by (simp add: mask_eq_exp_minus_1)
  show "ucast (patch26 insn offset) = (word_of_int (drop_bit 2 offset) :: 26 word)"
    by (rule bit_word_eqI) (auto simp: patch26_def m m' bit_simps)
  show "patch26 insn offset AND 0xfc000000 = insn AND 0xfc000000"
    unfolding patch26_def m m' by (rule bit_word_eqI) (auto simp: bit_simps)
qed

lemma branch_target_patch:
  assumes "- (2 ^ 27) \<le> offset" "offset < 2 ^ 27" "offset AND 3 = 0"
  shows "branch_target (patch26 insn offset) p = p + word_of_int offset"
proof -
  have "offset mod 4 = 0" using assms(3) take_bit_eq_mask [of 2 offset] by (simp add: take_bit_eq_mod mask_eq_exp_minus_1)
  then have four: "4 * drop_bit 2 offset = offset" using mult_div_mod_eq [of 4 offset] by (simp add: drop_bit_eq_div)
  have "sint (word_of_int (drop_bit 2 offset) :: 26 word) = drop_bit 2 offset"
    using assms(1,2) four by (simp add: signed_of_int signed_take_bit_int_eq_self)
  then have "scast (word_of_int (drop_bit 2 offset) :: 26 word) = (word_of_int (drop_bit 2 offset) :: u64)"
    by (simp add: scast_eq)
  then have "4 * scast (ucast (patch26 insn offset) :: 26 word) = (word_of_int (4 * drop_bit 2 offset) :: u64)"
    by (simp add: patch26_field(1))
  then show ?thesis using four by (simp add: branch_target_def)
qed

lemma branch_patched:
  assumes "\<not> (sint (s + a - p) < - (2 ^ 27) \<or> sint (s + a - p) \<ge> 2 ^ 27)" "sint (s + a - p) AND 3 = 0"
  shows "branch_target (patch26 insn (sint (s + a - p))) p = s + a"
  using branch_target_patch [of "sint (s + a - p)" insn p] assms by (simp only: sint_diff_word not_le not_less simp_thms de_Morgan_disj)

text \<open>A call or jump that the linker patches goes to the symbol plus the addend, keeps its opcode, and no byte outside the
  instruction changes; the linker refuses it exactly when the target is not a multiple of four away or further than 128 MB.\<close>

theorem call_reloc_correct:
  assumes "type = R_AARCH64_CALL26 \<or> type = R_AARCH64_JUMP26"
  shows "case apply_one_reloc t p s type a d of
      None \<Rightarrow> (let offset = sint (s + a - p) in offset < - (2 ^ 27) \<or> offset \<ge> 2 ^ 27 \<or> offset AND 3 \<noteq> 0)
    | Some d' \<Rightarrow> branch_target (get_insn d' t) p = s + a \<and> get_insn d' t AND 0xfc000000 = get_insn d t AND 0xfc000000 \<and>
        (\<forall>i. i < t \<or> t + 4 \<le> i \<longrightarrow> d' i = d i)"
proof -
  let ?o = "sint (s + a - p)"
  have eq: "apply_one_reloc t p s type a d =
      (if ?o < - (2 ^ 27) \<or> ?o \<ge> 2 ^ 27 then None else if ?o AND 3 \<noteq> 0 then None
       else Some (put_insn t (patch26 (get_insn d t) ?o) d))"
    using assms by (auto simp: apply_one_reloc_def Let_def reloc_types)
  show ?thesis unfolding eq using branch_patched [of s a p] by (simp add: patch26_field put_insn_other Let_def)
qed

theorem call_reloc_correct_witness:
  "case apply_one_reloc 8 0x400008 0x400100 R_AARCH64_CALL26 0 (\<lambda>_. 0) of
      None \<Rightarrow> (let offset = sint (0x400100 + 0 - 0x400008 :: u64) in offset < - (2 ^ 27) \<or> offset \<ge> 2 ^ 27 \<or> offset AND 3 \<noteq> 0)
    | Some d' \<Rightarrow> branch_target (get_insn d' 8) 0x400008 = 0x400100 + 0 \<and> get_insn d' 8 AND 0xfc000000 = get_insn (\<lambda>_. 0) 8 AND 0xfc000000 \<and>
        (\<forall>i. i < 8 \<or> 8 + 4 \<le> i \<longrightarrow> d' i = 0)"
  by (rule call_reloc_correct) simp

subsection \<open>Addresses\<close>

lemma patch_adr_field: "adr_field (patch_adr insn imm) = word_of_int imm"
proof -
  have three: "(3 :: int) = mask 2" "(3 :: u32) = mask 2" by (simp_all add: mask_eq_exp_minus_1)
  have m19: "(0x7ffff :: int) = mask 19" "(0x7ffff :: u32) = mask 19" by (simp_all add: mask_eq_exp_minus_1)
  have lo: "drop_bit 29 (insn AND 0x9f00001f) AND 3 = 0"
  proof -
    have "drop_bit 29 (insn AND 0x9f00001f) AND 3 = drop_bit 29 insn AND (drop_bit 29 0x9f00001f AND 3)" by (simp add: drop_bit_and and.assoc)
    also have "(drop_bit 29 0x9f00001f AND 3 :: u32) = 0" by code_simp
    finally show ?thesis by simp
  qed
  have hi: "drop_bit 5 (insn AND 0x9f00001f) AND 0x7ffff = 0"
  proof -
    have "drop_bit 5 (insn AND 0x9f00001f) AND 0x7ffff = drop_bit 5 insn AND (drop_bit 5 0x9f00001f AND 0x7ffff)" by (simp add: drop_bit_and and.assoc)
    also have "(drop_bit 5 0x9f00001f AND 0x7ffff :: u32) = 0" by code_simp
    finally show ?thesis by simp
  qed
  have "drop_bit 29 (patch_adr insn imm) AND 3 = drop_bit 29 (fld (imm AND 3) 29 OR fld (drop_bit 2 imm AND 0x7ffff) 5) AND 3"
    using lo by (simp add: patch_adr_def or.assoc and.commute [of _ 3] bit.conj_disj_distrib)
  also have "\<dots> = word_of_int (imm AND 3)"
    unfolding fld_def three m19 by (rule bit_word_eqI) (auto simp: bit_simps)
  finally have f1: "drop_bit 29 (patch_adr insn imm) AND 3 = word_of_int (imm AND 3)" .
  have "drop_bit 5 (patch_adr insn imm) AND 0x7ffff = drop_bit 5 (fld (imm AND 3) 29 OR fld (drop_bit 2 imm AND 0x7ffff) 5) AND 0x7ffff"
    using hi by (simp add: patch_adr_def or.assoc and.commute [of _ "0x7ffff"] bit.conj_disj_distrib)
  also have "\<dots> = word_of_int (drop_bit 2 imm AND 0x7ffff)"
    unfolding fld_def three m19 by (rule bit_word_eqI) (auto simp: bit_simps)
  finally have f2: "drop_bit 5 (patch_adr insn imm) AND 0x7ffff = word_of_int (drop_bit 2 imm AND 0x7ffff)" .
  have "ucast (word_of_int (imm AND mask 2) :: u32) OR push_bit 2 (ucast (word_of_int (drop_bit 2 imm AND mask 19) :: u32)) = (word_of_int imm :: 21 word)"
    (is "?w = _")
  proof (rule bit_word_eqI)
    fix n assume n: "n < LENGTH(21)"
    show "bit ?w n = bit (word_of_int imm :: 21 word) n"
    proof (cases "n < 2")
      case True
      then show ?thesis by (auto simp: bit_simps)
    next
      case False
      then obtain k where "n = k + 2" by (metis add.commute le_add_diff_inverse not_less)
      then show ?thesis using n by (auto simp: bit_simps)
    qed
  qed
  then show ?thesis unfolding adr_field_def f1 f2 by (simp only: three m19)
qed

lemma get_insn_other:
  assumes "t' + 4 \<le> t \<or> t + 4 \<le> t'"
  shows "get_insn (put_insn t' v d) t = get_insn d t"
proof -
  have "put_insn t' v d (t + k) = d (t + k)" if "k < 4" for k
    using assms that by (intro put_insn_other) auto
  from this [of 0] this [of 1] this [of 2] this [of 3] show ?thesis by (simp add: get_insn_def)
qed

lemma page_bits: "(0xfff :: u64) = mask 12"
  by (simp add: mask_eq_exp_minus_1)

lemma imm12_patch: "v \<le> 0xfff \<Longrightarrow> imm12_field (patch12 insn v) = v"
proof -
  assume "v \<le> 0xfff"
  then have "unat v < 2 ^ 12" by (simp add: word_le_nat_alt)
  then have v: "take_bit 12 v = v" by (intro word_unat_eq_iff [THEN iffD2]) (simp add: unsigned_take_bit_eq take_bit_nat_eq_self)
  have vb: "bit v n \<Longrightarrow> n < 12" for n using v by (metis bit_take_bit_iff)
  have m: "(0xfff :: u32) = mask 12" by (simp add: mask_eq_exp_minus_1)
  have "drop_bit 10 (insn AND 0xffc003ff) AND 0xfff = drop_bit 10 insn AND (drop_bit 10 0xffc003ff AND 0xfff)" by (simp add: drop_bit_and and.assoc)
  also have "(drop_bit 10 0xffc003ff AND 0xfff :: u32) = 0" by code_simp
  finally have "drop_bit 10 (patch12 insn v) AND 0xfff = drop_bit 10 (push_bit 10 (ucast v)) AND (0xfff :: u32)"
    by (simp add: patch12_def and.commute [of _ "0xfff"] bit.conj_disj_distrib)
  also have "ucast \<dots> = v" unfolding m by (rule bit_word_eqI) (auto simp: bit_simps dest: vb)
  finally show ?thesis by (simp add: imm12_field_def)
qed

text \<open>The number of bits by which an instruction scales its 12-bit immediate.\<close>

definition lo12_scale :: "int \<Rightarrow> nat option" where
  "lo12_scale type =
     (if type = R_AARCH64_ADD_ABS_LO12_NC \<or> type = R_AARCH64_LDST8_ABS_LO12_NC then Some 0
      else if type = R_AARCH64_LDST16_ABS_LO12_NC then Some 1 else if type = R_AARCH64_LDST32_ABS_LO12_NC then Some 2
      else if type = R_AARCH64_LDST64_ABS_LO12_NC then Some 3 else None)"

lemma lo12_patched:
  assumes "lo12_scale type = Some k" "apply_one_reloc t p s type a d = Some d'"
  shows "\<exists>v. d' = put_insn t (patch12 (get_insn d t) v) d \<and> push_bit k v = (s + a) AND 0xfff \<and> v \<le> 0xfff"
proof -
  have low: "x AND 0xfff \<le> 0xfff" for x :: u64 by (rule word_and_le1)
  have drop: "push_bit n (drop_bit n x) = x" if "x AND mask n = 0" for n and x :: u64
    using that bits_ident [of n x] by (simp add: take_bit_eq_mask)
  have small: "drop_bit n x \<le> 0xfff" if "x \<le> 0xfff" for n and x :: u64
  proof -
    have "unat (drop_bit n x) \<le> unat x" by (metis div_le_dividend drop_bit_eq_div unat_drop_bit_eq)
    then show ?thesis using that by (simp add: word_le_nat_alt)
  qed
  have ldst: "\<exists>v. d' = put_insn t (patch12 (get_insn d t) v) d \<and> push_bit n v = (s + a) AND 0xfff \<and> v \<le> 0xfff"
    if "patch_ldst n t (s + a) d = Some d'" for n
  proof -
    have "((s + a) AND 0xfff) AND mask n = 0" using that by (auto simp: patch_ldst_def Let_def mask_eq_exp_minus_1 push_bit_eq_mult split: if_splits)
    then show ?thesis using that drop [of "(s + a) AND 0xfff" n] small [OF low] by (auto simp: patch_ldst_def Let_def split: if_splits)
  qed
  have add: "\<exists>v. d' = put_insn t (patch12 (get_insn d t) v) d \<and> push_bit 0 v = (s + a) AND 0xfff \<and> v \<le> 0xfff"
    if "Some (put_insn t (patch12 (get_insn d t) ((s + a) AND 0xfff)) d) = Some d'"
    using that low by auto
  have "Some (put_insn t (patch12 (get_insn d t) ((s + a) AND 0xfff)) d) = Some d' \<and> k = 0 \<or> patch_ldst k t (s + a) d = Some d'"
    using assms by (auto simp: lo12_scale_def apply_one_reloc_def reloc_types split: if_splits)
  then show ?thesis using add ldst [of k] by auto
qed

lemma page_start: "z AND NOT 0xfff = push_bit 12 (drop_bit 12 z)" for z :: u64
  unfolding page_bits by (rule bit_word_eqI) (auto simp: bit_simps)

lemma page_split: "(z AND NOT 0xfff) + (z AND 0xfff) = z" for z :: u64
  using bits_ident [of 12 z] by (simp only: page_start) (simp only: page_bits take_bit_eq_mask [symmetric])

lemma page_low: "take_bit 12 (sint ((x AND NOT 0xfff) - (y AND NOT 0xfff))) = 0" for x y :: u64
proof -
  have "(x AND NOT 0xfff) - (y AND NOT 0xfff) = push_bit 12 (drop_bit 12 x - drop_bit 12 y)"
    unfolding page_start push_bit_eq_mult by (simp add: algebra_simps)
  moreover have "take_bit 12 (uint (push_bit 12 w)) = 0" for w :: u64
    by (rule bit_eqI) (auto simp: bit_simps)
  ultimately show ?thesis by (simp add: sint_uint take_bit_signed_take_bit)
qed

lemma adrp_patch:
  assumes "apply_one_reloc t p s R_AARCH64_ADR_PREL_PG_HI21 a d = Some d'"
  shows "\<exists>imm. d' = put_insn t (patch_adr (get_insn d t) imm) d \<and> (p AND NOT 0xfff) + push_bit 12 (scast (word_of_int imm :: 21 word)) = (s + a) AND NOT 0xfff"
proof -
  let ?o = "sint (((s + a) AND NOT 0xfff) - (p AND NOT 0xfff))"
  have range: "- (2 ^ 32) \<le> ?o" "?o < 2 ^ 32" and d': "d' = put_insn t (patch_adr (get_insn d t) (drop_bit 12 ?o)) d"
    using assms by (simp_all add: apply_one_reloc_def Let_def reloc_types split: if_splits)
  have whole: "2 ^ 12 * drop_bit 12 ?o = ?o"
    using page_low [of "s + a" p] bits_ident [of 12 ?o] by (simp add: push_bit_eq_mult mult.commute)
  have "sint (word_of_int (drop_bit 12 ?o) :: 21 word) = drop_bit 12 ?o"
    using range whole by (simp add: signed_of_int signed_take_bit_int_eq_self)
  then have "scast (word_of_int (drop_bit 12 ?o) :: 21 word) = (word_of_int (drop_bit 12 ?o) :: u64)"
    by (simp add: scast_eq)
  then have "push_bit 12 (scast (word_of_int (drop_bit 12 ?o) :: 21 word)) = (word_of_int (2 ^ 12 * drop_bit 12 ?o) :: u64)"
    by (simp add: push_bit_eq_mult mult.commute)
  also have "\<dots> = ((s + a) AND NOT 0xfff) - (p AND NOT 0xfff)" unfolding whole by simp
  finally show ?thesis using d' by auto
qed

text \<open>Property C40. The pair of instructions with which compiled code takes an address, \<^verbatim>\<open>adrp\<close> and an \<^verbatim>\<open>add\<close>, load or
  store of the low twelve bits: when the linker accepts both relocations, the page the processor computes from the first plus the scaled immediate
  of the second is exactly the symbol plus the addend, whatever the place of the two instructions.\<close>

theorem adrp_pair_correct:
  assumes "lo12_scale type = Some k" "t1 + 4 \<le> t2 \<or> t2 + 4 \<le> t1"
    and "apply_one_reloc t1 p s R_AARCH64_ADR_PREL_PG_HI21 a d = Some d1" "apply_one_reloc t2 q s type a d1 = Some d2"
  shows "adrp_value (get_insn d2 t1) p + push_bit k (imm12_field (get_insn d2 t2)) = s + a"
proof -
  obtain imm where d1: "d1 = put_insn t1 (patch_adr (get_insn d t1) imm) d"
    and page: "(p AND NOT 0xfff) + push_bit 12 (scast (word_of_int imm :: 21 word)) = (s + a) AND NOT 0xfff"
    using adrp_patch [OF assms(3)] by blast
  obtain v where d2: "d2 = put_insn t2 (patch12 (get_insn d1 t2) v) d1" and low: "push_bit k v = (s + a) AND 0xfff" "v \<le> 0xfff"
    using lo12_patched [OF assms(1,4)] by blast
  have "get_insn d2 t1 = patch_adr (get_insn d t1) imm" using assms(2) get_insn_other [of t2 t1] by (simp only: d2 d1 get_put_insn disj_commute)
  moreover have "get_insn d2 t2 = patch12 (get_insn d1 t2) v" by (simp add: d2)
  moreover have "((s + a) AND NOT 0xfff) + ((s + a) AND 0xfff) = s + a"
    by (rule page_split)
  ultimately show ?thesis using page low by (simp add: adrp_value_def patch_adr_field imm12_patch)
qed

theorem adrp_pair_correct_witness:
  "\<exists>d1 d2. apply_one_reloc 0 0x400000 0x512348 R_AARCH64_ADR_PREL_PG_HI21 16 (\<lambda>_. 0) = Some d1 \<and>
     apply_one_reloc 4 0x400004 0x512348 R_AARCH64_LDST64_ABS_LO12_NC 16 d1 = Some d2 \<and>
     adrp_value (get_insn d2 0) 0x400000 + push_bit 3 (imm12_field (get_insn d2 4)) = 0x512348 + 16"
proof -
  have "apply_one_reloc 0 0x400000 0x512348 R_AARCH64_ADR_PREL_PG_HI21 16 (\<lambda>_. 0) \<noteq> None" (is "?r \<noteq> None")
    by (simp add: apply_one_reloc_def reloc_types)
  then obtain d1 where d1: "?r = Some d1" by blast
  have "apply_one_reloc 4 0x400004 0x512348 R_AARCH64_LDST64_ABS_LO12_NC 16 d1 \<noteq> None" (is "?q \<noteq> None")
    by (simp add: apply_one_reloc_def reloc_types patch_ldst_def)
  then obtain d2 where d2: "?q = Some d2" by blast
  show ?thesis using adrp_pair_correct [OF _ _ d1 d2, of 3] d1 d2 by (simp add: lo12_scale_def reloc_types)
qed

end
