(* ===== verification/Ld_Object.thy ===== *)
theory Ld_Object
  imports Ld_Reloc
begin

text \<open>
  Object files as the linker reads them, \<^verbatim>\<open>cmd/ld/elf_read.c\<close>: section headers, symbols and relocations of an ELF file, parsed from its bytes. \<open>None\<close> is a call of
  \<^verbatim>\<open>error\<close>. Pointers into the file are offsets; bytes behind the end of the file are what the memory there holds. An object is known by \<open>oid\<close>, which stands for the
  address of its structure. Names end at a zero byte or at the end of the file.
\<close>

subsection \<open>Constants\<close>

definition SHT_NULL :: u32 where "SHT_NULL = 0"
definition SHT_PROGBITS :: u32 where "SHT_PROGBITS = 1"
definition SHT_SYMTAB :: u32 where "SHT_SYMTAB = 2"
definition SHT_RELA :: u32 where "SHT_RELA = 4"
definition SHT_NOBITS :: u32 where "SHT_NOBITS = 8"
definition SHF_WRITE :: u64 where "SHF_WRITE = 1"
definition SHF_ALLOC :: u64 where "SHF_ALLOC = 2"
definition SHF_EXECINSTR :: u64 where "SHF_EXECINSTR = 4"
definition SHN_UNDEF :: u16 where "SHN_UNDEF = 0"
definition SHN_ABS :: u16 where "SHN_ABS = 0xfff1"
definition STB_LOCAL :: u8 where "STB_LOCAL = 0"
definition STB_GLOBAL :: u8 where "STB_GLOBAL = 1"
definition STB_WEAK :: u8 where "STB_WEAK = 2"
definition STT_NOTYPE :: u8 where "STT_NOTYPE = 0"
definition STT_SECTION :: u8 where "STT_SECTION = 3"

definition ELF64_ST_BIND :: "u8 \<Rightarrow> u8" where "ELF64_ST_BIND info = drop_bit 4 info"
definition ELF64_ST_TYPE :: "u8 \<Rightarrow> u8" where "ELF64_ST_TYPE info = info AND 0xf"

text \<open>\<^verbatim>\<open>ELF64_R_SYM\<close> and \<^verbatim>\<open>ELF64_R_TYPE\<close>, each assigned to an \<^verbatim>\<open>int\<close>.\<close>

definition ELF64_R_SYM :: "u64 \<Rightarrow> int" where "ELF64_R_SYM info = int32 (uint (drop_bit 32 info))"
definition ELF64_R_TYPE :: "u64 \<Rightarrow> int" where "ELF64_R_TYPE info = int32 (uint info)"

subsection \<open>Structures\<close>

record Elf64_Shdr =
  sh_name :: u32
  sh_type :: u32
  sh_flags :: u64
  sh_offset :: u64
  sh_size :: u64
  sh_link :: u32
  sh_info :: u32
  sh_addralign :: u64

record Elf64_Sym =
  st_name :: u32
  st_info :: u8
  st_shndx :: u16
  st_value :: u64
  st_size :: u64

record Elf64_Rela =
  r_offset :: u64
  r_info :: u64
  r_addend :: u64

record ObjectFile =
  oid :: nat
  odata :: bytes
  osize :: nat
  shdrs :: "Elf64_Shdr list"
  shstrtab :: "nat option"
  strtab :: "nat option"
  symtab :: "Elf64_Sym list option"

definition rd16 :: "bytes \<Rightarrow> nat \<Rightarrow> u16" where
  "rd16 d i = ucast (d i) OR push_bit 8 (ucast (d (i + 1)))"

definition rd64 :: "bytes \<Rightarrow> nat \<Rightarrow> u64" where
  "rd64 d i = ucast (get_insn d i) OR push_bit 32 (ucast (get_insn d (i + 4)))"

definition read_shdr :: "bytes \<Rightarrow> nat \<Rightarrow> Elf64_Shdr" where
  "read_shdr d i = \<lparr>sh_name = get_insn d i, sh_type = get_insn d (i + 4), sh_flags = rd64 d (i + 8), sh_offset = rd64 d (i + 24), sh_size = rd64 d (i + 32),
     sh_link = get_insn d (i + 40), sh_info = get_insn d (i + 44), sh_addralign = rd64 d (i + 48)\<rparr>"

definition read_sym :: "bytes \<Rightarrow> nat \<Rightarrow> Elf64_Sym" where
  "read_sym d i = \<lparr>st_name = get_insn d i, st_info = d (i + 4), st_shndx = rd16 d (i + 6), st_value = rd64 d (i + 8), st_size = rd64 d (i + 16)\<rparr>"

definition read_rela :: "bytes \<Rightarrow> nat \<Rightarrow> Elf64_Rela" where
  "read_rela d i = \<lparr>r_offset = rd64 d i, r_info = rd64 d (i + 8), r_addend = rd64 d (i + 16)\<rparr>"

subsection \<open>Reading\<close>

definition elf_check_header :: "bytes \<Rightarrow> bool" where
  "elf_check_header d \<longleftrightarrow> d 0 = 0x7f \<and> d 1 = 69 \<and> d 2 = 76 \<and> d 3 = 70 \<and> d 4 = 2 \<and> d 5 = 1 \<and> rd16 d 16 = 1 \<and> rd16 d 18 = 183"

text \<open>The first symbol table, and the string table it links to.\<close>

definition find_symtab :: "bytes \<Rightarrow> Elf64_Shdr list \<Rightarrow> Elf64_Sym list option \<times> nat option" where
  "find_symtab d shs =
     (case find (\<lambda>sh. sh_type sh = SHT_SYMTAB) shs of
        None \<Rightarrow> (None, None)
      | Some sh \<Rightarrow>
          (Some (map (\<lambda>j. read_sym d (unat (sh_offset sh) + 24 * j)) [0..<unat (sh_size sh) div 24]),
           if unat (sh_link sh) < length shs then Some (unat (sh_offset (shs ! unat (sh_link sh)))) else None))"

definition elf_parse_sections :: "nat \<Rightarrow> bytes \<Rightarrow> u64 \<Rightarrow> ObjectFile option" where
  "elf_parse_sections i d sz =
     (let shnum = unat (rd16 d 60);
          shoff = rd64 d 40;
          shs = map (\<lambda>j. read_shdr d (unat shoff + 64 * j)) [0..<shnum];
          shstrndx = unat (rd16 d 62)
      in if shoff + of_nat (shnum * 64) > sz then None
         else let (syms, strs) = find_symtab d shs in
           Some \<lparr>oid = i, odata = d, osize = unat sz, shdrs = shs,
                 shstrtab = (if shstrndx < shnum then Some (unat (sh_offset (shs ! shstrndx))) else None),
                 strtab = strs, symtab = syms\<rparr>)"

definition elf_read_memory :: "nat \<Rightarrow> bytes \<Rightarrow> u64 \<Rightarrow> ObjectFile option" where
  "elf_read_memory i d sz = (if sz < 64 then None else if \<not> elf_check_header d then None else elf_parse_sections i d sz)"

definition c_string :: "ObjectFile \<Rightarrow> nat \<Rightarrow> u8 list" where
  "c_string obj off = takeWhile (\<lambda>c. c \<noteq> 0) (map (odata obj) [off..<osize obj])"

definition section_name :: "ObjectFile \<Rightarrow> nat \<Rightarrow> u8 list option" where
  "section_name obj j =
     (if j < length (shdrs obj) then map_option (\<lambda>t. c_string obj (t + unat (sh_name (shdrs obj ! j)))) (shstrtab obj) else None)"

definition section_data :: "ObjectFile \<Rightarrow> nat \<Rightarrow> nat option" where
  "section_data obj j =
     (if j < length (shdrs obj) \<and> sh_type (shdrs obj ! j) \<noteq> SHT_NOBITS then Some (unat (sh_offset (shdrs obj ! j))) else None)"

definition symcount :: "ObjectFile \<Rightarrow> nat" where
  "symcount obj = (case symtab obj of Some syms \<Rightarrow> length syms | None \<Rightarrow> 0)"

definition symbol_name :: "ObjectFile \<Rightarrow> nat \<Rightarrow> u8 list option" where
  "symbol_name obj j =
     (case symtab obj of
        None \<Rightarrow> None
      | Some syms \<Rightarrow>
          if j < length syms \<and> st_name (syms ! j) \<noteq> 0 then map_option (\<lambda>t. c_string obj (t + unat (st_name (syms ! j)))) (strtab obj) else None)"

definition get_rela_for_section :: "ObjectFile \<Rightarrow> nat \<Rightarrow> Elf64_Rela list" where
  "get_rela_for_section obj j =
     (case find (\<lambda>sh. sh_type sh = SHT_RELA \<and> int32 (uint (sh_info sh)) = int j) (shdrs obj) of
        None \<Rightarrow> []
      | Some sh \<Rightarrow> map (\<lambda>k. read_rela (odata obj) (unat (sh_offset sh) + 24 * k)) [0..<unat (sh_size sh) div 24])"

subsection \<open>Writing and reading back\<close>

text \<open>Numbers as the tools write them to files, and a file as an array of bytes.\<close>

definition enc16 :: "u16 \<Rightarrow> u8 list" where "enc16 v = [ucast v, ucast (drop_bit 8 v)]"
definition enc32 :: "u32 \<Rightarrow> u8 list" where "enc32 v = [ucast v, ucast (drop_bit 8 v), ucast (drop_bit 16 v), ucast (drop_bit 24 v)]"
definition enc64 :: "u64 \<Rightarrow> u8 list" where "enc64 v = enc32 (ucast v) @ enc32 (ucast (drop_bit 32 v))"

definition file_of :: "u8 list \<Rightarrow> bytes" where
  "file_of xs = (\<lambda>i. if i < length xs then xs ! i else 0)"

lemma enc_lengths [simp]: "length (enc16 v) = 2" "length (enc32 w) = 4" "length (enc64 x) = 8"
  by (simp_all add: enc16_def enc32_def enc64_def)

lemma file_of_drop:
  assumes "drop i xs = ys @ r" "k < length ys"
  shows "file_of xs (i + k) = ys ! k"
proof -
  have "i + k < length xs" using arg_cong [OF assms(1), of length] assms(2) by simp
  moreover have "drop i xs ! k = ys ! k" using assms by (simp add: nth_append)
  ultimately show ?thesis by (simp add: file_of_def)
qed

lemma octets_word: "ucast (ucast v :: u8) OR push_bit 8 (ucast (ucast (drop_bit 8 v) :: u8)) OR push_bit 16 (ucast (ucast (drop_bit 16 v) :: u8)) OR
    push_bit 24 (ucast (ucast (drop_bit 24 v) :: u8)) = (v :: u32)"
proof (rule bit_word_eqI)
  fix k assume "k < LENGTH(32)"
  then have "k < 8 \<or> 8 \<le> k \<and> k < 16 \<or> 16 \<le> k \<and> k < 24 \<or> 24 \<le> k \<and> k < 32" by auto
  then show "bit (ucast (ucast v :: u8) OR push_bit 8 (ucast (ucast (drop_bit 8 v) :: u8)) OR push_bit 16 (ucast (ucast (drop_bit 16 v) :: u8)) OR
      push_bit 24 (ucast (ucast (drop_bit 24 v) :: u8)) :: u32) k = bit v k"
    by (auto simp: bit_or_iff bit_push_bit_iff bit_ucast_iff bit_drop_bit_eq)
qed

lemma rd16_file: "drop i xs = enc16 v @ r \<Longrightarrow> rd16 (file_of xs) i = v"
proof -
  assume d: "drop i xs = enc16 v @ r"
  show ?thesis using file_of_drop [OF d, of 0] file_of_drop [OF d, of 1]
    by (simp add: rd16_def enc16_def) (rule bit_word_eqI; auto simp: bit_simps)
qed

lemma get_insn_file: "drop i xs = enc32 v @ r \<Longrightarrow> get_insn (file_of xs) i = v"
proof -
  assume d: "drop i xs = enc32 v @ r"
  show ?thesis using file_of_drop [OF d, of 0] file_of_drop [OF d, of 1] file_of_drop [OF d, of 2] file_of_drop [OF d, of 3]
    by (simp add: get_insn_def enc32_def octets_word)
qed

lemma rd64_file: "drop i xs = enc64 v @ r \<Longrightarrow> rd64 (file_of xs) i = v"
proof -
  assume d: "drop i xs = enc64 v @ r"
  have "drop (i + 4) xs = drop 4 (drop i xs)" by (simp add: add.commute)
  also have "\<dots> = enc32 (ucast (drop_bit 32 v)) @ r" unfolding d by (simp add: enc64_def)
  finally have "get_insn (file_of xs) (i + 4) = ucast (drop_bit 32 v)" by (rule get_insn_file)
  moreover have "get_insn (file_of xs) i = ucast v" using d by (intro get_insn_file) (simp add: enc64_def)
  ultimately show ?thesis unfolding rd64_def by (simp, intro bit_word_eqI) (auto simp: bit_simps)
qed

end
