(* ===== verification/Map_Interface.thy ===== *)
theory Map_Interface
  imports Prelude
begin

text \<open>
  What the hash tables of the toolchain promise: a table with room for \<open>n\<close> more keys denotes a finite map, \<open>put\<close> returns and updates it, and \<open>get\<close> reads it
  (through \<open>res\<close>, which says how a missing key is reported). The lemmas on filling a table from a list of bindings are proved once here, for the hash
  table of the compiler and for the symbol table of the linker.
\<close>

primrec put_all :: "('m \<Rightarrow> 'k \<Rightarrow> 'v \<Rightarrow> 'm option) \<Rightarrow> ('k \<times> 'v) list \<Rightarrow> 'm \<Rightarrow> 'm option" where
  "put_all put [] m = Some m"
| "put_all put (e # es) m = do { m \<leftarrow> put m (fst e) (snd e); put_all put es m }"

lemma put_all_mono [partial_function_mono]:
  "(\<And>m k v. mono_option (\<lambda>f. F f m k v)) \<Longrightarrow> mono_option (\<lambda>f. put_all (F f) es m)"
proof (induction es arbitrary: m)
  case (Cons e es)
  show ?case unfolding put_all.simps by (intro bind_mono Cons)
qed (simp add: option.const_mono)

locale key_table =
  fixes room :: "nat \<Rightarrow> 'm \<Rightarrow> bool"
    and content :: "'m \<Rightarrow> 'k \<Rightarrow> 'v option"
    and put :: "'m \<Rightarrow> 'k \<Rightarrow> 'v \<Rightarrow> 'm option"
    and get :: "'m \<Rightarrow> 'k \<Rightarrow> 'r option"
    and res :: "'v option \<Rightarrow> 'r"
  assumes put_law: "room (Suc n) m \<Longrightarrow> \<exists>m'. put m k v = Some m' \<and> room n m' \<and> content m' = (content m)(k \<mapsto> v)"
    and get_law: "room n m \<Longrightarrow> get m k = Some (res (content m k))"
begin

lemma fill: "room (n + length es) m \<Longrightarrow> \<exists>m'. put_all put es m = Some m' \<and> room n m' \<and> content m' = content m ++ map_of (rev es)"
proof (induction es arbitrary: m)
  case (Cons e es)
  then obtain m1 where m1: "put m (fst e) (snd e) = Some m1" "room (n + length es) m1" "content m1 = (content m)(fst e \<mapsto> snd e)"
    using put_law [of "n + length es" m "fst e" "snd e"] by auto
  then obtain m' where "put_all put es m1 = Some m'" "room n m'" "content m' = content m1 ++ map_of (rev es)"
    using Cons.IH by blast
  then show ?case using m1 by (cases e) (auto simp: map_add_def fun_eq_iff split: option.splits)
qed simp

lemma get_fill:
  assumes "room (n + length es) m" "put_all put es m = Some m'"
  shows "get m' k = Some (res ((content m ++ map_of (rev es)) k))"
  using fill [OF assms(1)] assms(2) get_law by auto

text \<open>A table filled with one value for every word of a list is a test for membership in the list.\<close>

lemma word_set:
  assumes "room (length ws) m" "content m = Map.empty"
  shows "\<exists>m'. put_all put (map (\<lambda>w. (w, v)) ws) m = Some m' \<and> (\<forall>k. get m' k = Some (res (if k \<in> set ws then Some v else None)))"
proof -
  have "map_of (rev (map (\<lambda>w. (w, v)) ws)) k = (if k \<in> set ws then Some v else None)" for k
    by (simp add: rev_map map_of_map_restrict restrict_map_def flip: map_of_map_keys)
  then show ?thesis using fill [of 0 "map (\<lambda>w. (w, v)) ws" m] assms get_law by auto
qed

end

end
