(* ===== verification/Ld_Symbol.thy ===== *)
theory Ld_Symbol
  imports Ld_Object Map_Interface
begin

text \<open>
  Symbols of the linker, \<^verbatim>\<open>cmd/ld/symbol.c\<close> and the lookup part of \<^verbatim>\<open>cmd/ld/archive.c\<close>: the global symbol table, a hash table with chains; the collection of
  definitions with the rules for weak and multiple ones; the extraction of archive members for what is undefined; and the final check. \<open>None\<close> is a call of
  \<^verbatim>\<open>exit\<close>. A chain is a list, head first; \<open>s_file\<close> is the object a symbol comes from, \<open>None\<close> for the symbols of the linker itself.
\<close>

subsection \<open>The symbol table\<close>

definition SYMTAB_BUCKETS :: nat where "SYMTAB_BUCKETS = 4096"

record Symbol =
  s_name :: "u8 list"
  s_value :: u64
  s_size :: u64
  s_type :: u8
  s_binding :: u8
  s_file :: "nat option"
  s_shndx :: u16
  s_output :: nat

record SymbolTable =
  chains :: "nat \<Rightarrow> Symbol list"
  scount :: int

definition hash_string :: "u8 list \<Rightarrow> u32" where
  "hash_string s = foldl (\<lambda>h c. (push_bit 5 h + h) + ucast c) 5381 s"

definition bucket :: "u8 list \<Rightarrow> nat" where
  "bucket s = unat (hash_string s) mod SYMTAB_BUCKETS"

lemma bucket_code [code]: "bucket s = nat (uint (hash_string s) mod int SYMTAB_BUCKETS)"
  by (simp add: bucket_def nat_mod_distrib)

definition symtab_init :: SymbolTable where
  "symtab_init = \<lparr>chains = (\<lambda>_. []), scount = 0\<rparr>"

definition symbol_lookup :: "SymbolTable \<Rightarrow> u8 list \<Rightarrow> Symbol option" where
  "symbol_lookup tab nm = find (\<lambda>s. s_name s = nm) (chains tab (bucket nm))"

definition push_symbol :: "SymbolTable \<Rightarrow> Symbol \<Rightarrow> SymbolTable" where
  "push_symbol tab sm =
     tab\<lparr>chains := (chains tab)(bucket (s_name sm) := sm # chains tab (bucket (s_name sm))), scount := scount tab + 1\<rparr>"

definition symbol_add :: "SymbolTable \<Rightarrow> u8 list \<Rightarrow> u64 \<Rightarrow> u64 \<Rightarrow> u8 \<Rightarrow> u8 \<Rightarrow> nat option \<Rightarrow> u16 \<Rightarrow> SymbolTable" where
  "symbol_add tab nm value sz ty bnd fl shndx =
     push_symbol tab \<lparr>s_name = nm, s_value = value, s_size = sz, s_type = ty, s_binding = bnd, s_file = fl, s_shndx = shndx, s_output = 0\<rparr>"

definition add_linker_symbol :: "SymbolTable \<Rightarrow> u8 list \<Rightarrow> u64 \<Rightarrow> SymbolTable" where
  "add_linker_symbol tab nm value =
     push_symbol tab \<lparr>s_name = nm, s_value = value, s_size = 0, s_type = STT_NOTYPE, s_binding = STB_GLOBAL, s_file = None, s_shndx = SHN_ABS, s_output = 0\<rparr>"

text \<open>Change the symbol that the lookup of a name finds.\<close>

fun update_first :: "u8 list \<Rightarrow> (Symbol \<Rightarrow> Symbol) \<Rightarrow> Symbol list \<Rightarrow> Symbol list" where
  "update_first nm f [] = []"
| "update_first nm f (s # ss) = (if s_name s = nm then f s # ss else s # update_first nm f ss)"

definition update_symbol :: "u8 list \<Rightarrow> (Symbol \<Rightarrow> Symbol) \<Rightarrow> SymbolTable \<Rightarrow> SymbolTable" where
  "update_symbol nm f tab = tab\<lparr>chains := (chains tab)(bucket nm := update_first nm f (chains tab (bucket nm)))\<rparr>"

definition symbol_replace :: "u8 list \<Rightarrow> u64 \<Rightarrow> u64 \<Rightarrow> u8 \<Rightarrow> u8 \<Rightarrow> nat option \<Rightarrow> u16 \<Rightarrow> SymbolTable \<Rightarrow> SymbolTable" where
  "symbol_replace nm value sz ty bnd fl shndx =
     update_symbol nm (\<lambda>s. s\<lparr>s_value := value, s_size := sz, s_type := ty, s_binding := bnd, s_file := fl, s_shndx := shndx\<rparr>)"

subsection \<open>Definitions\<close>

primrec fold_opt :: "('a \<Rightarrow> 's \<Rightarrow> 's option) \<Rightarrow> 'a list \<Rightarrow> 's \<Rightarrow> 's option" where
  "fold_opt f [] s = Some s"
| "fold_opt f (x # xs) s = do { s \<leftarrow> f x s; fold_opt f xs s }"

text \<open>The name of symbol \<open>j\<close>, if it is global or weak and has a name.\<close>

definition global_name :: "ObjectFile \<Rightarrow> nat \<Rightarrow> u8 list option" where
  "global_name obj j =
     (case symtab obj of
        None \<Rightarrow> None
      | Some syms \<Rightarrow>
          if ELF64_ST_BIND (st_info (syms ! j)) = STB_LOCAL then None
          else case symbol_name obj j of None \<Rightarrow> None | Some nm \<Rightarrow> if nm = [] then None else Some nm)"

definition sym_of :: "ObjectFile \<Rightarrow> nat \<Rightarrow> Elf64_Sym" where
  "sym_of obj j = the (symtab obj) ! j"

definition is_undef :: "ObjectFile \<Rightarrow> nat \<Rightarrow> bool" where
  "is_undef obj j \<longleftrightarrow> st_shndx (sym_of obj j) = SHN_UNDEF"

definition define_symbol :: "ObjectFile \<Rightarrow> nat \<Rightarrow> SymbolTable \<Rightarrow> SymbolTable option" where
  "define_symbol obj j tab =
     (case global_name obj j of
        None \<Rightarrow> Some tab
      | Some nm \<Rightarrow>
          if is_undef obj j then Some tab
          else
            let sm = sym_of obj j; bnd = ELF64_ST_BIND (st_info sm); ty = ELF64_ST_TYPE (st_info sm) in
            case symbol_lookup tab nm of
              Some old \<Rightarrow>
                if s_binding old = STB_WEAK \<and> bnd = STB_GLOBAL then
                  Some (symbol_replace nm (st_value sm) (st_size sm) ty bnd (Some (oid obj)) (st_shndx sm) tab)
                else if s_binding old = STB_GLOBAL \<and> bnd = STB_GLOBAL then None
                else Some tab
            | None \<Rightarrow> Some (symbol_add tab nm (st_value sm) (st_size sm) ty bnd (Some (oid obj)) (st_shndx sm)))"

definition collect_definitions :: "ObjectFile list \<Rightarrow> SymbolTable \<Rightarrow> SymbolTable option" where
  "collect_definitions objs = fold_opt (\<lambda>obj. fold_opt (define_symbol obj) [1..<symcount obj]) objs"

subsection \<open>Archives\<close>

record ArchiveMember =
  m_data :: bytes
  m_size :: u64
  m_extracted :: bool

record Archive =
  members :: "ArchiveMember list"
  asymbols :: "(u8 list \<times> int) list"

definition archive_find_symbol :: "Archive \<Rightarrow> u8 list \<Rightarrow> int" where
  "archive_find_symbol ar nm = (case find (\<lambda>e. fst e = nm) (asymbols ar) of Some e \<Rightarrow> snd e | None \<Rightarrow> -1)"

text \<open>The member as an object, or none if it was taken before; the address of the new object is \<open>i\<close>.\<close>

definition archive_extract_member :: "nat \<Rightarrow> Archive \<Rightarrow> int \<Rightarrow> (ObjectFile option \<times> Archive) option" where
  "archive_extract_member i ar idx =
     (if idx < 0 \<or> idx \<ge> int (length (members ar)) then Some (None, ar)
      else let m = members ar ! nat idx in
        if m_extracted m then Some (None, ar)
        else do {
          obj \<leftarrow> elf_read_memory i (m_data m) (m_size m);
          Some (Some obj, ar\<lparr>members := (members ar)[nat idx := m\<lparr>m_extracted := True\<rparr>]\<rparr>) })"

record link_st =
  objects :: "ObjectFile list"
  archives :: "Archive list"
  globals :: SymbolTable

text \<open>The first archive that lists the name is asked for the member; the others are not.\<close>

definition extract_for :: "u8 list \<Rightarrow> link_st \<Rightarrow> (bool \<times> link_st) option" where
  "extract_for nm st =
     (case find (\<lambda>k. archive_find_symbol (archives st ! k) nm \<ge> 0) [0..<length (archives st)] of
        None \<Rightarrow> Some (False, st)
      | Some k \<Rightarrow>
          do {
            (r, ar) \<leftarrow> archive_extract_member (length (objects st)) (archives st ! k) (archive_find_symbol (archives st ! k) nm);
            case r of
              None \<Rightarrow> Some (False, st\<lparr>archives := (archives st)[k := ar]\<rparr>)
            | Some obj \<Rightarrow>
                do {
                  tab \<leftarrow> collect_definitions [obj] (globals st);
                  Some (True, st\<lparr>objects := objects st @ [obj], archives := (archives st)[k := ar], globals := tab\<rparr>) } })"

definition extract_ref :: "ObjectFile \<Rightarrow> nat \<Rightarrow> bool \<times> link_st \<Rightarrow> (bool \<times> link_st) option" where
  "extract_ref obj j = (\<lambda>(ext, st).
     case global_name obj j of
       None \<Rightarrow> Some (ext, st)
     | Some nm \<Rightarrow>
         if \<not> is_undef obj j then Some (ext, st)
         else if symbol_lookup (globals st) nm \<noteq> None then Some (ext, st)
         else do { (e, st) \<leftarrow> extract_for nm st; Some (ext \<or> e, st) })"

text \<open>The members not taken yet bound the work: every extraction adds an object and takes a member.\<close>

definition untaken :: "Archive list \<Rightarrow> nat" where
  "untaken ars = sum_list (map (\<lambda>ar. length (filter (\<lambda>m. \<not> m_extracted m) (members ar))) ars)"

lemma filter_update_length:
  "i < length xs \<Longrightarrow> P (xs ! i) \<Longrightarrow> \<not> P x \<Longrightarrow> Suc (length (filter P (xs[i := x]))) = length (filter P xs)"
  by (induction xs arbitrary: i) (auto split: nat.split simp: nth_Cons')

lemma sum_update: "k < length xs \<Longrightarrow> f x + d = (f (xs ! k) :: nat) \<Longrightarrow> sum_list (map f (xs[k := x])) + d = sum_list (map f xs)"
  by (induction xs arbitrary: k) (auto simp: nth_Cons' split: nat.split)

lemma extract_member_count:
  assumes "archive_extract_member i ar idx = Some (r, ar')"
  shows "case r of None \<Rightarrow> ar' = ar
    | Some obj \<Rightarrow> length (filter (\<lambda>m. \<not> m_extracted m) (members ar')) + 1 = length (filter (\<lambda>m. \<not> m_extracted m) (members ar))"
proof (cases "idx < 0 \<or> idx \<ge> int (length (members ar)) \<or> m_extracted (members ar ! nat idx)")
  case True
  then show ?thesis using assms by (auto simp: archive_extract_member_def Let_def split: if_splits)
next
  case False
  then show ?thesis using assms filter_update_length [of "nat idx" "members ar" "\<lambda>m. \<not> m_extracted m"]
    by (auto simp: archive_extract_member_def Let_def bind_Some_iff)
qed

text \<open>What an extraction does to the counts.\<close>

definition link_step :: "bool \<times> link_st \<Rightarrow> bool \<times> link_st \<Rightarrow> bool" where
  "link_step s s' \<longleftrightarrow>
     length (objects (snd s')) + untaken (archives (snd s')) = length (objects (snd s)) + untaken (archives (snd s)) \<and>
     length (objects (snd s)) \<le> length (objects (snd s')) \<and> (fst s \<longrightarrow> fst s') \<and>
     (fst s' \<longrightarrow> fst s \<or> untaken (archives (snd s')) < untaken (archives (snd s))) \<and>
     (\<not> fst s' \<longrightarrow> snd s' = snd s)"

lemma link_step_refl: "link_step s s"
  by (simp add: link_step_def)

lemma link_step_trans: "link_step s s' \<Longrightarrow> link_step s' s'' \<Longrightarrow> link_step s s''"
  unfolding link_step_def by auto

lemma extract_for_step:
  assumes "extract_for nm st = Some (e, st')"
  shows "link_step (False, st) (e, st')"
proof (cases "find (\<lambda>k. archive_find_symbol (archives st ! k) nm \<ge> 0) [0..<length (archives st)]")
  case None
  then show ?thesis using assms by (auto simp: extract_for_def link_step_refl)
next
  case (Some k)
  then have k: "k < length (archives st)" by (auto simp: find_Some_iff)
  obtain r ar where ar: "archive_extract_member (length (objects st)) (archives st ! k) (archive_find_symbol (archives st ! k) nm) = Some (r, ar)"
    using assms Some by (auto simp: extract_for_def bind_Some_iff)
  note count = extract_member_count [OF ar]
  show ?thesis
  proof (cases r)
    case None
    then show ?thesis using assms Some ar count by (auto simp: extract_for_def link_step_def)
  next
    case (Some obj)
    then have "untaken ((archives st)[k := ar]) + 1 = untaken (archives st)"
      using count sum_update [OF k, of "\<lambda>ar. length (filter (\<lambda>m. \<not> m_extracted m) (members ar))" ar 1] by (simp add: untaken_def)
    then show ?thesis using assms Some ar \<open>find _ _ = Some k\<close> by (auto simp: extract_for_def link_step_def bind_Some_iff)
  qed
qed

lemma extract_ref_step: "extract_ref obj j s = Some s' \<Longrightarrow> link_step s s'"
  by (auto simp: extract_ref_def bind_Some_iff link_step_refl split: prod.splits option.splits if_splits dest!: extract_for_step) (auto simp: link_step_def)

lemma fold_opt_invariant:
  assumes "fold_opt f xs s = Some s'" "\<And>x s s'. x \<in> set xs \<Longrightarrow> f x s = Some s' \<Longrightarrow> R s s'" "\<And>s. R s s" "\<And>a b c. R a b \<Longrightarrow> R b c \<Longrightarrow> R a c"
  shows "R s s'"
  using assms(1,2)
proof (induction xs arbitrary: s)
  case (Cons x xs)
  then obtain t where "f x s = Some t" "fold_opt f xs t = Some s'" by (auto simp: bind_Some_iff)
  then show ?case using Cons.IH [of t] Cons.prems(2) assms(4) by (meson list.set_intros)
qed (use assms(3) in simp)

lemma refs_step: "fold_opt (extract_ref obj) js s = Some s' \<Longrightarrow> link_step s s'"
  by (erule fold_opt_invariant [where R = link_step]) (auto intro: extract_ref_step link_step_refl link_step_trans)

text \<open>One pass over the objects, those added on the way included; and the passes until nothing more is extracted.\<close>

function scan_objects :: "nat \<Rightarrow> bool \<times> link_st \<Rightarrow> (bool \<times> link_st) option" where
  "scan_objects i s =
     (if i < length (objects (snd s)) then
        case fold_opt (extract_ref (objects (snd s) ! i)) [1..<symcount (objects (snd s) ! i)] s of
          None \<Rightarrow> None
        | Some s' \<Rightarrow> scan_objects (i + 1) s'
      else Some s)"
  by auto
termination
  by (relation "measure (\<lambda>(i, s). length (objects (snd s)) + untaken (archives (snd s)) - i)") (auto dest!: refs_step simp: link_step_def)

declare scan_objects.simps [simp del]

lemma scan_step: "scan_objects i s = Some s' \<Longrightarrow> link_step s s'"
proof (induction i s rule: scan_objects.induct)
  case (1 i s)
  show ?case
  proof (cases "i < length (objects (snd s))")
    case True
    then obtain t where t: "fold_opt (extract_ref (objects (snd s) ! i)) [1..<symcount (objects (snd s) ! i)] s = Some t" "scan_objects (i + 1) t = Some s'"
      using 1(2) by (auto simp: scan_objects.simps [of i s] split: option.splits)
    show ?thesis using link_step_trans [OF refs_step [OF t(1)] 1(1) [OF True t]] .
  qed (use 1(2) in \<open>simp add: scan_objects.simps [of i s] link_step_refl\<close>)
qed

function resolve_loop :: "link_st \<Rightarrow> link_st option" where
  "resolve_loop st =
     (case scan_objects 0 (False, st) of
        None \<Rightarrow> None
      | Some (ext, st') \<Rightarrow> if ext then resolve_loop st' else Some st')"
  by auto
termination by (relation "measure (\<lambda>st. untaken (archives st))") (auto dest!: scan_step simp: link_step_def)

declare resolve_loop.simps [simp del]

definition resolve_archives :: "u8 list \<Rightarrow> link_st \<Rightarrow> link_st option" where
  "resolve_archives entry st =
     do {
       (_, st) \<leftarrow> (if symbol_lookup (globals st) entry = None then extract_for entry st else Some (False, st));
       resolve_loop st }"

text \<open>The references that stay undefined; a weak one may.\<close>

definition undefined_ref :: "SymbolTable \<Rightarrow> ObjectFile \<Rightarrow> nat \<Rightarrow> bool" where
  "undefined_ref tab obj j \<longleftrightarrow>
     (case global_name obj j of
        None \<Rightarrow> False
      | Some nm \<Rightarrow> is_undef obj j \<and> symbol_lookup tab nm = None \<and> ELF64_ST_BIND (st_info (sym_of obj j)) = STB_GLOBAL)"

definition check_undefined :: "ObjectFile list \<Rightarrow> SymbolTable \<Rightarrow> u8 list \<Rightarrow> bool" where
  "check_undefined objs tab entry \<longleftrightarrow>
     list_all (\<lambda>obj. list_all (\<lambda>j. \<not> undefined_ref tab obj j) [1..<symcount obj]) objs \<and> symbol_lookup tab entry \<noteq> None"

subsection \<open>The table as a map\<close>

definition table_wf :: "SymbolTable \<Rightarrow> bool" where
  "table_wf tab \<longleftrightarrow> (\<forall>b. \<forall>s \<in> set (chains tab b). bucket (s_name s) = b)"

definition all_symbols :: "SymbolTable \<Rightarrow> Symbol list" where
  "all_symbols tab = concat (map (chains tab) [0..<SYMTAB_BUCKETS])"

definition tab_map :: "SymbolTable \<Rightarrow> u8 list \<Rightarrow> Symbol option" where
  "tab_map tab nm = find (\<lambda>s. s_name s = nm) (all_symbols tab)"

lemma bucket_less: "bucket nm < SYMTAB_BUCKETS"
  by (simp add: bucket_def SYMTAB_BUCKETS_def)

lemma lookup_tab_map: "table_wf tab \<Longrightarrow> symbol_lookup tab nm = tab_map tab nm"
proof -
  assume wf: "table_wf tab"
  let ?P = "\<lambda>s. s_name s = nm"
  have none: "find ?P (concat (map (chains tab) bs)) = None" if "bucket nm \<notin> set bs" for bs
    using wf that by (auto simp: find_None_iff table_wf_def)
  have "[0..<SYMTAB_BUCKETS] = [0..<bucket nm] @ bucket nm # [Suc (bucket nm)..<SYMTAB_BUCKETS]"
    using bucket_less [of nm] by (metis less_imp_le_nat upt_add_eq_append upt_conv_Cons le_add1 le_add_diff_inverse plus_nat.add_0)
  then have "tab_map tab nm = find ?P (concat (map (chains tab) [0..<bucket nm]) @ chains tab (bucket nm) @ concat (map (chains tab) [Suc (bucket nm)..<SYMTAB_BUCKETS]))"
    by (simp add: tab_map_def all_symbols_def)
  also have "\<dots> = find ?P (chains tab (bucket nm))"
    using none [of "[0..<bucket nm]"] none [of "[Suc (bucket nm)..<SYMTAB_BUCKETS]"] by (simp add: find_append split: option.split)
  finally show ?thesis by (simp add: symbol_lookup_def)
qed

lemma push_symbol_wf: "table_wf tab \<Longrightarrow> table_wf (push_symbol tab s)"
  by (auto simp: table_wf_def push_symbol_def)

lemma push_symbol_lookup: "symbol_lookup (push_symbol tab s) nm = (if nm = s_name s then Some s else symbol_lookup tab nm)"
  by (auto simp: symbol_lookup_def push_symbol_def)

lemma find_update_first:
  "(\<And>s. s_name (f s) = s_name s) \<Longrightarrow> find (\<lambda>s. s_name s = nm') (update_first nm f ss) = (if nm' = nm then map_option f else id) (find (\<lambda>s. s_name s = nm') ss)"
  by (induction ss) auto

lemma update_symbol_lookup:
  "(\<And>s. s_name (f s) = s_name s) \<Longrightarrow> symbol_lookup (update_symbol nm f tab) nm' = (if nm' = nm then map_option f else id) (symbol_lookup tab nm')"
  by (auto simp: symbol_lookup_def update_symbol_def find_update_first)

lemma update_symbol_wf: "(\<And>s. s_name (f s) = s_name s) \<Longrightarrow> table_wf tab \<Longrightarrow> table_wf (update_symbol nm f tab)"
proof -
  assume f: "\<And>s. s_name (f s) = s_name s" and wf: "table_wf tab"
  have "s_name ` set (update_first nm f ss) = s_name ` set ss" for ss using f by (induction ss) auto
  then have "\<exists>t \<in> set ss. s_name t = s_name s" if "s \<in> set (update_first nm f ss)" for s ss using that by (metis image_iff)
  then show ?thesis using wf unfolding table_wf_def update_symbol_def by (simp, metis)
qed

interpretation lt: key_table "\<lambda>n. table_wf" "\<lambda>tab nm. map_option s_value (tab_map tab nm)" "\<lambda>tab nm v. Some (add_linker_symbol tab nm v)"
  "\<lambda>tab nm. Some (map_option s_value (symbol_lookup tab nm))" id
proof
  fix n tab nm v assume wf: "table_wf tab"
  then have "table_wf (add_linker_symbol tab nm v)" by (simp add: add_linker_symbol_def push_symbol_wf)
  then show "\<exists>m'. Some (add_linker_symbol tab nm v) = Some m' \<and> table_wf m' \<and>
      (\<lambda>nm. map_option s_value (tab_map m' nm)) = (\<lambda>nm. map_option s_value (tab_map tab nm))(nm \<mapsto> v)"
    using wf by (auto simp: lookup_tab_map [symmetric] add_linker_symbol_def push_symbol_lookup fun_eq_iff)
qed (simp add: lookup_tab_map)

subsection \<open>Which definition a name has\<close>

definition symbol_of :: "ObjectFile \<Rightarrow> nat \<Rightarrow> u8 list \<Rightarrow> Symbol" where
  "symbol_of obj j nm = \<lparr>s_name = nm, s_value = st_value (sym_of obj j), s_size = st_size (sym_of obj j),
     s_type = ELF64_ST_TYPE (st_info (sym_of obj j)), s_binding = ELF64_ST_BIND (st_info (sym_of obj j)), s_file = Some (oid obj),
     s_shndx = st_shndx (sym_of obj j), s_output = 0\<rparr>"

definition defs_of :: "ObjectFile \<Rightarrow> Symbol list" where
  "defs_of obj = concat (map (\<lambda>j. case global_name obj j of None \<Rightarrow> [] | Some nm \<Rightarrow> if is_undef obj j then [] else [symbol_of obj j nm]) [1..<symcount obj])"

text \<open>The global definition if there is one, else the first weak one.\<close>

definition chosen :: "Symbol list \<Rightarrow> Symbol option" where
  "chosen ds = (case filter (\<lambda>d. s_binding d = STB_GLOBAL) ds of d # _ \<Rightarrow> Some d | [] \<Rightarrow> (case ds of d # _ \<Rightarrow> Some d | [] \<Rightarrow> None))"

definition defs_named :: "u8 list \<Rightarrow> Symbol list \<Rightarrow> Symbol list" where
  "defs_named nm ds = filter (\<lambda>d. s_name d = nm) ds"

definition multiple :: "u8 list \<Rightarrow> Symbol list \<Rightarrow> bool" where
  "multiple nm ds \<longleftrightarrow> 2 \<le> length (filter (\<lambda>d. s_binding d = STB_GLOBAL) (defs_named nm ds))"

definition add_def :: "Symbol \<Rightarrow> SymbolTable \<Rightarrow> SymbolTable option" where
  "add_def d tab =
     (case symbol_lookup tab (s_name d) of
        Some old \<Rightarrow>
          if s_binding old = STB_WEAK \<and> s_binding d = STB_GLOBAL then
            Some (symbol_replace (s_name d) (s_value d) (s_size d) (s_type d) (s_binding d) (s_file d) (s_shndx d) tab)
          else if s_binding old = STB_GLOBAL \<and> s_binding d = STB_GLOBAL then None
          else Some tab
      | None \<Rightarrow> Some (push_symbol tab d))"

lemma fold_opt_append: "fold_opt f (xs @ ys) s = (fold_opt f xs s \<bind> fold_opt f ys)"
  by (induction xs arbitrary: s) (auto split: option.split simp: Option.bind_eq_None_conv)

lemma define_symbol_add:
  "define_symbol obj j tab = fold_opt add_def (case global_name obj j of None \<Rightarrow> [] | Some nm \<Rightarrow> if is_undef obj j then [] else [symbol_of obj j nm]) tab"
  by (auto simp: define_symbol_def add_def_def symbol_of_def symbol_add_def Let_def split: option.splits)

lemma collect_eq: "collect_definitions objs tab = fold_opt add_def (concat (map defs_of objs)) tab"
proof -
  have obj: "fold_opt (define_symbol obj) js tab =
      fold_opt add_def (concat (map (\<lambda>j. case global_name obj j of None \<Rightarrow> [] | Some nm \<Rightarrow> if is_undef obj j then [] else [symbol_of obj j nm]) js)) tab" for obj js tab
    by (induction js arbitrary: tab) (simp_all add: define_symbol_add fold_opt_append)
  show ?thesis unfolding collect_definitions_def
    by (induction objs arbitrary: tab) (simp_all add: obj fold_opt_append defs_of_def)
qed

lemma bindings_differ: "STB_WEAK \<noteq> STB_GLOBAL"
  by (simp add: STB_WEAK_def STB_GLOBAL_def)

lemma chosen_None: "chosen ds = None \<longleftrightarrow> ds = []"
  by (auto simp: chosen_def split: list.splits)

lemma chosen_Some:
  assumes "chosen ds = Some d"
  shows "d \<in> set ds" "s_binding d = STB_GLOBAL \<longleftrightarrow> filter (\<lambda>d. s_binding d = STB_GLOBAL) ds \<noteq> []"
proof -
  have "d \<in> set ds \<and> (s_binding d = STB_GLOBAL \<longleftrightarrow> filter (\<lambda>d. s_binding d = STB_GLOBAL) ds \<noteq> [])"
  proof (cases "filter (\<lambda>d. s_binding d = STB_GLOBAL) ds")
    case Nil
    then show ?thesis using assms by (cases ds) (auto simp: chosen_def split: if_splits)
  next
    case (Cons e es)
    then have "e \<in> set (filter (\<lambda>d. s_binding d = STB_GLOBAL) ds)" by simp
    then have "e \<in> set ds" "s_binding e = STB_GLOBAL" by simp_all
    then show ?thesis using assms Cons by (simp add: chosen_def)
  qed
  then show "d \<in> set ds" "s_binding d = STB_GLOBAL \<longleftrightarrow> filter (\<lambda>d. s_binding d = STB_GLOBAL) ds \<noteq> []" by simp_all
qed

lemma chosen_snoc:
  "chosen (ds @ [d]) = (case chosen ds of None \<Rightarrow> Some d | Some e \<Rightarrow> if s_binding e \<noteq> STB_GLOBAL \<and> s_binding d = STB_GLOBAL then Some d else Some e)"
proof (cases "chosen ds")
  case None
  then show ?thesis by (simp add: chosen_None) (simp add: chosen_def)
next
  case (Some e)
  note glob = chosen_Some(2) [OF Some]
  show ?thesis
  proof (cases "filter (\<lambda>d. s_binding d = STB_GLOBAL) ds")
    case Nil
    then show ?thesis using Some glob by (cases ds) (simp_all add: chosen_def split: if_splits)
  next
    case (Cons g gs)
    then show ?thesis using Some glob by (simp add: chosen_def)
  qed
qed

lemma replace_is:
  fixes old d :: Symbol
  assumes "s_name old = s_name d" "s_output old = s_output d"
  shows "old\<lparr>s_value := s_value d, s_size := s_size d, s_type := s_type d, s_binding := s_binding d, s_file := s_file d, s_shndx := s_shndx d\<rparr> = d"
  using assms by (cases old; cases d) simp

text \<open>The table holds the chosen definition of every name, and no name has two global ones.\<close>

definition holds :: "Symbol list \<Rightarrow> SymbolTable \<Rightarrow> bool" where
  "holds ds tab \<longleftrightarrow> (\<forall>nm. symbol_lookup tab nm = chosen (defs_named nm ds) \<and> \<not> multiple nm ds)"

lemma named_snoc: "defs_named nm (ds @ [d]) = (if s_name d = nm then defs_named nm ds @ [d] else defs_named nm ds)"
  by (simp add: defs_named_def)

lemma add_def_holds:
  assumes b: "\<forall>d \<in> set (ds @ [d]). (s_binding d = STB_GLOBAL \<or> s_binding d = STB_WEAK) \<and> s_output d = 0" and tab: "holds ds tab"
  shows "case add_def d tab of None \<Rightarrow> multiple (s_name d) (ds @ [d]) | Some tab' \<Rightarrow> holds (ds @ [d]) tab'"
proof -
  let ?n = "s_name d"
  have other: "chosen (defs_named nm (ds @ [d])) = symbol_lookup tab nm" "\<not> multiple nm (ds @ [d])" if "nm \<noteq> ?n" for nm
    using that tab by (auto simp: holds_def named_snoc multiple_def)
  have look: "symbol_lookup tab ?n = chosen (defs_named ?n ds)" "\<not> multiple ?n ds" using tab by (simp_all add: holds_def)
  show ?thesis
  proof (cases "chosen (defs_named ?n ds)")
    case None
    then have new: "chosen (defs_named ?n (ds @ [d])) = Some d" "\<not> multiple ?n (ds @ [d])" by (simp_all add: chosen_None named_snoc multiple_def) (simp add: chosen_def)
    have "holds (ds @ [d]) (push_symbol tab d)"
      unfolding holds_def using other new by (metis push_symbol_lookup)
    then show ?thesis using None look(1) by (simp add: add_def_def)
  next
    case (Some old)
    note glob = chosen_Some(2) [OF Some]
    have old: "s_name old = ?n" "s_binding old = STB_GLOBAL \<or> s_binding old = STB_WEAK" "s_output old = 0" "s_output d = 0"
      using chosen_Some(1) [OF Some] b by (auto simp: defs_named_def)
    consider (dup) "s_binding old = STB_GLOBAL" "s_binding d = STB_GLOBAL" | (strong) "s_binding old = STB_WEAK" "s_binding d = STB_GLOBAL" | (weak) "s_binding d = STB_WEAK"
      using old(2) b by auto
    then show ?thesis
    proof cases
      case dup
      then have "multiple ?n (ds @ [d])" using glob by (cases "filter (\<lambda>d. s_binding d = STB_GLOBAL) (defs_named ?n ds)") (auto simp: multiple_def named_snoc)
      then show ?thesis using dup Some look(1) bindings_differ by (simp add: add_def_def)
    next
      case strong
      let ?t = "symbol_replace ?n (s_value d) (s_size d) (s_type d) (s_binding d) (s_file d) (s_shndx d) tab"
      have rep: "symbol_lookup ?t nm = (if nm = ?n then Some d else symbol_lookup tab nm)" for nm
        using Some look(1) old replace_is [of old d] unfolding symbol_replace_def by (subst update_symbol_lookup) auto
      have new: "chosen (defs_named ?n (ds @ [d])) = Some d" "\<not> multiple ?n (ds @ [d])"
        using strong Some glob bindings_differ by (simp_all add: named_snoc chosen_snoc multiple_def)
      have "holds (ds @ [d]) ?t" unfolding holds_def using rep new other by metis
      then show ?thesis using strong Some look(1) by (simp add: add_def_def)
    next
      case weak
      then have new: "chosen (defs_named ?n (ds @ [d])) = Some old" "\<not> multiple ?n (ds @ [d])"
        using Some look(2) bindings_differ by (simp_all add: named_snoc chosen_snoc multiple_def)
      have "holds (ds @ [d]) tab" unfolding holds_def using look(1) Some new other by metis
      then show ?thesis using weak Some look(1) bindings_differ by (simp add: add_def_def)
    qed
  qed
qed

lemma multiple_append: "multiple nm ds \<Longrightarrow> multiple nm (ds @ es)"
  by (simp add: multiple_def defs_named_def)

lemma fold_add_def:
  "\<forall>d \<in> set ds. (s_binding d = STB_GLOBAL \<or> s_binding d = STB_WEAK) \<and> s_output d = 0 \<Longrightarrow>
   case fold_opt add_def ds symtab_init of None \<Rightarrow> \<exists>nm. multiple nm ds | Some tab \<Rightarrow> holds ds tab"
proof (induction ds rule: rev_induct)
  case Nil
  then show ?case by (simp add: holds_def symbol_lookup_def symtab_init_def chosen_def defs_named_def multiple_def)
next
  case (snoc d ds)
  show ?case
  proof (cases "fold_opt add_def ds symtab_init")
    case None
    then show ?thesis using snoc multiple_append by (fastforce simp: fold_opt_append)
  next
    case (Some tab)
    then have "holds ds tab" using snoc by simp
    then show ?thesis using add_def_holds [OF snoc.prems, of tab] Some by (auto simp: fold_opt_append split: option.splits)
  qed
qed

text \<open>Property C34. From objects whose named symbols are global or weak, the linker builds a table in which every name has its one global definition, or, if it has none,
  its first weak one, and no other name; it refuses the objects exactly if some name has two global definitions.\<close>

theorem collect_definitions_correct:
  assumes "\<forall>d \<in> set (concat (map defs_of objs)). s_binding d = STB_GLOBAL \<or> s_binding d = STB_WEAK"
  shows "case collect_definitions objs symtab_init of
      None \<Rightarrow> \<exists>nm. multiple nm (concat (map defs_of objs))
    | Some tab \<Rightarrow> \<forall>nm. \<not> multiple nm (concat (map defs_of objs)) \<and> symbol_lookup tab nm = chosen (defs_named nm (concat (map defs_of objs)))"
proof -
  have "\<forall>d \<in> set (concat (map defs_of objs)). s_output d = 0"
    by (auto simp: defs_of_def symbol_of_def split: option.splits if_splits)
  then show ?thesis using fold_add_def [of "concat (map defs_of objs)"] assms by (auto simp: collect_eq holds_def split: option.splits)
qed

text \<open>Two objects that define the same name, weakly and globally.\<close>

definition demo_object :: "nat \<Rightarrow> u8 \<Rightarrow> u64 \<Rightarrow> ObjectFile" where
  "demo_object i info v = \<lparr>oid = i, odata = (\<lambda>k. if k = 1 then 97 else 0), osize = 3, shdrs = [], shstrtab = None, strtab = Some 0,
     symtab = Some [\<lparr>st_name = 0, st_info = 0, st_shndx = 0, st_value = 0, st_size = 0\<rparr>, \<lparr>st_name = 1, st_info = info, st_shndx = 1, st_value = v, st_size = 4\<rparr>]\<rparr>"

theorem collect_definitions_correct_witness:
  "\<exists>tab. collect_definitions [demo_object 0 0x20 8, demo_object 1 0x10 16] symtab_init = Some tab \<and> map_option s_value (symbol_lookup tab [97]) = Some 16"
proof -
  let ?objs = "[demo_object 0 0x20 8, demo_object 1 0x10 16]"
  have "list_all (\<lambda>d. s_binding d = STB_GLOBAL \<or> s_binding d = STB_WEAK) (concat (map defs_of ?objs))" by code_simp
  then have "\<forall>d \<in> set (concat (map defs_of ?objs)). s_binding d = STB_GLOBAL \<or> s_binding d = STB_WEAK" by (simp only: list_all_iff)
  note main = collect_definitions_correct [OF this]
  have "length (filter (\<lambda>d. s_binding d = STB_GLOBAL) (concat (map defs_of ?objs))) = 1" by code_simp
  moreover have "length (filter P (defs_named nm ds)) \<le> length (filter P ds)" for P nm ds
    by (induction ds) (auto simp: defs_named_def)
  ultimately have "\<not> multiple nm (concat (map defs_of ?objs))" for nm unfolding multiple_def by (metis Suc_1 not_less_eq_eq One_nat_def)
  then obtain tab where tab: "collect_definitions ?objs symtab_init = Some tab" using main by (auto split: option.splits)
  have "map_option s_value (chosen (defs_named [97] (concat (map defs_of ?objs)))) = Some 16" by code_simp
  moreover have "symbol_lookup tab [97] = chosen (defs_named [97] (concat (map defs_of ?objs)))" using main unfolding tab by simp
  ultimately show ?thesis using tab by simp
qed

subsection \<open>Extraction ends when nothing more can be had\<close>

lemma refs_idle:
  "fold_opt (extract_ref obj) js (False, st) = Some (False, st') \<Longrightarrow> j \<in> set js \<Longrightarrow> extract_ref obj j (False, st) = Some (False, st)"
proof (induction js)
  case (Cons i js)
  then obtain s where s: "extract_ref obj i (False, st) = Some s" "fold_opt (extract_ref obj) js s = Some (False, st')" by (auto simp: bind_Some_iff)
  have "\<not> fst s" using refs_step [OF s(2)] by (auto simp: link_step_def)
  then have "s = (False, st)" using extract_ref_step [OF s(1)] by (cases s) (auto simp: link_step_def)
  then show ?case using Cons s by auto
qed simp

lemma scan_idle:
  assumes "scan_objects i (False, st) = Some (False, st')" "i \<le> n" "n < length (objects st)" "j \<in> {1..<symcount (objects st ! n)}"
  shows "extract_ref (objects st ! n) j (False, st) = Some (False, st)"
  using assms(2,1)
proof (induction rule: inc_induct)
  case base
  then obtain s where s: "fold_opt (extract_ref (objects st ! n)) [1..<symcount (objects st ! n)] (False, st) = Some s" "scan_objects (n + 1) s = Some (False, st')"
    using assms(3) by (auto simp: scan_objects.simps [of n] split: option.splits)
  have "\<not> fst s" using scan_step [OF s(2)] by (auto simp: link_step_def)
  then show ?case using refs_idle [of "objects st ! n" _ st "snd s" j] s(1) assms(4) by (cases s) auto
next
  case (step k)
  then obtain s where s: "fold_opt (extract_ref (objects st ! k)) [1..<symcount (objects st ! k)] (False, st) = Some s" "scan_objects (k + 1) s = Some (False, st')"
    using assms(3) by (auto simp: scan_objects.simps [of k] split: option.splits)
  have "\<not> fst s" using scan_step [OF s(2)] by (auto simp: link_step_def)
  then have "s = (False, st)" using refs_step [OF s(1)] by (cases s) (auto simp: link_step_def)
  then show ?case using step.IH s(2) by simp
qed

lemma resolve_loop_idle: "resolve_loop st = Some st' \<Longrightarrow> scan_objects 0 (False, st') = Some (False, st')"
proof (induction st rule: resolve_loop.induct)
  case (1 st)
  then obtain ext t where t: "scan_objects 0 (False, st) = Some (ext, t)" by (auto simp: resolve_loop.simps [of st] split: option.splits)
  show ?case
  proof (cases ext)
    case True
    then show ?thesis using 1 t by (simp add: resolve_loop.simps [of st])
  next
    case False
    then have "t = st" "st' = t" using scan_step [OF t] 1(2) t by (simp_all add: link_step_def resolve_loop.simps [of st])
    then show ?thesis using t False by simp
  qed
qed

text \<open>A member of the archives that could still be taken for a name.\<close>

definition obtainable :: "link_st \<Rightarrow> u8 list \<Rightarrow> bool" where
  "obtainable st nm \<longleftrightarrow>
     (case find (\<lambda>k. archive_find_symbol (archives st ! k) nm \<ge> 0) [0..<length (archives st)] of
        None \<Rightarrow> False
      | Some k \<Rightarrow> let idx = archive_find_symbol (archives st ! k) nm in
          idx < int (length (members (archives st ! k))) \<and> \<not> m_extracted (members (archives st ! k) ! nat idx))"

lemma extract_for_obtainable: "extract_for nm st = Some (False, st') \<Longrightarrow> \<not> obtainable st nm"
proof (cases "find (\<lambda>k. archive_find_symbol (archives st ! k) nm \<ge> 0) [0..<length (archives st)]")
  case (Some k)
  then have "0 \<le> archive_find_symbol (archives st ! k) nm" by (auto simp: find_Some_iff)
  moreover assume "extract_for nm st = Some (False, st')"
  ultimately show ?thesis using Some
    by (auto simp: extract_for_def obtainable_def archive_extract_member_def Let_def bind_Some_iff split: option.splits if_splits)
qed (simp add: obtainable_def)


definition demo_link :: link_st where
  "demo_link = \<lparr>objects = [(demo_object 0 0x10 8)\<lparr>symtab := Some [\<lparr>st_name = 0, st_info = 0, st_shndx = 0, st_value = 0, st_size = 0\<rparr>,
     \<lparr>st_name = 1, st_info = 0x10, st_shndx = 0, st_value = 0, st_size = 0\<rparr>]\<rparr>], archives = [], globals = symtab_init\<rparr>"


end
