(* ===== verification/Ld_Section.thy ===== *)
theory Ld_Section
  imports Ld_Symbol
begin

text \<open>
  Layout in the linker, \<^verbatim>\<open>cmd/ld/section.c\<close>: the sections of all objects are merged into output sections, these get addresses, and symbols get values. A pointer
  to a piece is the index of its output section and its position there. The bytes at \<^verbatim>\<open>data\<close> that are allocated but not yet written hold what the allocator left
  there, the parameter \<open>junk\<close>; \<open>os_dlen\<close> is the length of that block, 0 for \<^verbatim>\<open>NULL\<close>. \<open>None\<close> is an access outside of it. Memory does not run out.
\<close>

subsection \<open>Output sections\<close>

definition TEXT_BASE :: u64 where "TEXT_BASE = 0x10000"
definition SECTION_ALIGN :: u64 where "SECTION_ALIGN = 8"
definition LD_PAGE_SIZE :: u64 where "LD_PAGE_SIZE = 0x1000"
definition OUT_TEXT :: nat where "OUT_TEXT = 1"
definition OUT_RODATA :: nat where "OUT_RODATA = 2"
definition OUT_DATA :: nat where "OUT_DATA = 3"
definition OUT_BSS :: nat where "OUT_BSS = 4"
definition OUT_COUNT :: nat where "OUT_COUNT = 5"
definition KOUT_TEXT_BOOT :: nat where "KOUT_TEXT_BOOT = 1"
definition KOUT_TABLES :: nat where "KOUT_TABLES = 2"
definition KOUT_TEXT :: nat where "KOUT_TEXT = 3"
definition KOUT_RODATA :: nat where "KOUT_RODATA = 4"
definition KOUT_DATA :: nat where "KOUT_DATA = 5"
definition KOUT_BSS :: nat where "KOUT_BSS = 6"
definition KOUT_COUNT :: nat where "KOUT_COUNT = 7"
definition BOUT_TEXT :: nat where "BOUT_TEXT = 1"
definition BOUT_RODATA :: nat where "BOUT_RODATA = 2"
definition BOUT_DATA :: nat where "BOUT_DATA = 3"
definition BOUT_BSS :: nat where "BOUT_BSS = 4"
definition BOUT_COUNT :: nat where "BOUT_COUNT = 5"
definition BOOT_TEXT_BASE :: u64 where "BOOT_TEXT_BASE = 0"
definition KERNEL_PHYS_BASE :: u64 where "KERNEL_PHYS_BASE = 0x40080000"
definition KERNEL_VIRT_BASE :: u64 where "KERNEL_VIRT_BASE = 0xFFFF000040080000"
definition KERNEL_BOOT_SIZE :: u64 where "KERNEL_BOOT_SIZE = 0x10000"
definition KERNEL_STACK_SIZE :: u64 where "KERNEL_STACK_SIZE = 0x10000"

lemmas out_indices = OUT_TEXT_def OUT_RODATA_def OUT_DATA_def OUT_BSS_def OUT_COUNT_def

record SectionPiece =
  piece_file :: nat
  input_shndx :: nat
  output_offset :: u64
  piece_size :: u64

record OutputSection =
  os_name :: "u8 list"
  os_addr :: u64
  os_lma :: u64
  os_size :: u64
  os_align :: u64
  os_type :: u32
  os_flags :: u64
  os_data :: bytes
  os_dlen :: nat
  pieces :: "SectionPiece list"

definition output_section_init :: "bytes \<Rightarrow> string \<Rightarrow> u32 \<Rightarrow> u64 \<Rightarrow> OutputSection" where
  "output_section_init junk nm type flags =
     \<lparr>os_name = to_bytes nm, os_addr = 0, os_lma = 0, os_size = 0, os_align = SECTION_ALIGN, os_type = type, os_flags = flags,
      os_data = junk, os_dlen = 0, pieces = []\<rparr>"

text \<open>\<^verbatim>\<open>strncmp\<close> with a constant and its length.\<close>

definition has_prefix :: "u8 list \<Rightarrow> string \<Rightarrow> bool" where
  "has_prefix nm s \<longleftrightarrow> take (length s) nm = to_bytes s"

definition categorize_section :: "u8 list \<Rightarrow> u64 \<Rightarrow> int" where
  "categorize_section nm flags =
     (if flags AND SHF_ALLOC = 0 then -1
      else if has_prefix nm ''.text'' then int OUT_TEXT
      else if has_prefix nm ''.rodata'' then int OUT_RODATA
      else if has_prefix nm ''.data'' then int OUT_DATA
      else if has_prefix nm ''.bss'' then int OUT_BSS
      else -1)"

definition categorize_section_kernel :: "u8 list \<Rightarrow> u64 \<Rightarrow> int" where
  "categorize_section_kernel nm flags =
     (if flags AND SHF_ALLOC = 0 then -1
      else if nm = to_bytes ''.text.boot'' then int KOUT_TEXT_BOOT
      else if nm = to_bytes ''.tables'' then int KOUT_TABLES
      else if has_prefix nm ''.text'' then int KOUT_TEXT
      else if has_prefix nm ''.rodata'' then int KOUT_RODATA
      else if has_prefix nm ''.data'' then int KOUT_DATA
      else if has_prefix nm ''.bss'' then int KOUT_BSS
      else -1)"

definition categorize_section_bootloader :: "u8 list \<Rightarrow> u64 \<Rightarrow> int" where
  "categorize_section_bootloader nm flags =
     (if flags AND SHF_ALLOC = 0 then -1
      else if has_prefix nm ''.text'' then int BOUT_TEXT
      else if has_prefix nm ''.rodata'' then int BOUT_RODATA
      else if has_prefix nm ''.data'' then int BOUT_DATA
      else if has_prefix nm ''.bss'' then int BOUT_BSS
      else -1)"

definition align_up :: "u64 \<Rightarrow> u64 \<Rightarrow> u64" where
  "align_up val align = (if align = 0 then val else (val + align - 1) AND NOT (align - 1))"

subsection \<open>Merging\<close>

definition add_piece :: "nat \<Rightarrow> nat \<Rightarrow> u64 \<Rightarrow> u64 \<Rightarrow> OutputSection \<Rightarrow> OutputSection" where
  "add_piece fl j offset n sec = sec\<lparr>pieces := pieces sec @ [\<lparr>piece_file = fl, input_shndx = j, output_offset = offset, piece_size = n\<rparr>]\<rparr>"

text \<open>Zeros up to the new piece, then its bytes.\<close>

definition copy_piece :: "ObjectFile \<Rightarrow> nat \<Rightarrow> u64 \<Rightarrow> OutputSection \<Rightarrow> OutputSection option" where
  "copy_piece obj j offset sec =
     (let n = sh_size (shdrs obj ! j); new_size = offset + n in
      case section_data obj j of
        None \<Rightarrow> None
      | Some src \<Rightarrow>
          if offset < os_size sec \<or> new_size < offset then None
          else Some (sec\<lparr>os_dlen := unat new_size,
            os_data := (\<lambda>i. if unat (os_size sec) \<le> i \<and> i < unat offset then 0
                            else if unat offset \<le> i \<and> i < unat new_size then odata obj (src + (i - unat offset))
                            else os_data sec i)\<rparr>))"

definition sh_align :: "Elf64_Shdr \<Rightarrow> u64" where
  "sh_align sh = (if sh_addralign sh = 0 then 1 else sh_addralign sh)"

definition merge_piece :: "ObjectFile \<Rightarrow> nat \<Rightarrow> OutputSection \<Rightarrow> OutputSection option" where
  "merge_piece obj j sec =
     (let sh = shdrs obj ! j;
          align = sh_align sh;
          sec = (if align > os_align sec then sec\<lparr>os_align := align\<rparr> else sec);
          offset = align_up (os_size sec) align;
          sec = add_piece (oid obj) j offset (sh_size sh) sec
      in do {
           sec \<leftarrow> (if sh_type sh \<noteq> SHT_NOBITS \<and> sh_size sh > 0 then copy_piece obj j offset sec else Some sec);
           Some (sec\<lparr>os_size := offset + sh_size sh\<rparr>) })"

definition merge_section :: "(u8 list \<Rightarrow> u64 \<Rightarrow> int) \<Rightarrow> ObjectFile \<Rightarrow> nat \<Rightarrow> OutputSection list \<Rightarrow> OutputSection list option" where
  "merge_section categorize obj j secs =
     (case section_name obj j of
        None \<Rightarrow> Some secs
      | Some nm \<Rightarrow>
          let cat = categorize nm (sh_flags (shdrs obj ! j)) in
          if cat < 0 then Some secs
          else do { sec \<leftarrow> merge_piece obj j (secs ! nat cat); Some (secs[nat cat := sec]) })"

definition merge_sections :: "(u8 list \<Rightarrow> u64 \<Rightarrow> int) \<Rightarrow> ObjectFile list \<Rightarrow> OutputSection list \<Rightarrow> OutputSection list option" where
  "merge_sections categorize objs = fold_opt (\<lambda>obj. fold_opt (merge_section categorize obj) [1..<length (shdrs obj)]) objs"

subsection \<open>Addresses\<close>

text \<open>The body of the loops: the section gets the next aligned address, unless it is empty.\<close>

definition place_section :: "nat \<Rightarrow> u64 \<times> OutputSection list \<Rightarrow> u64 \<times> OutputSection list" where
  "place_section i = (\<lambda>(addr, secs).
     let sec = secs ! i in
     if os_size sec = 0 then (addr, secs)
     else let addr = align_up addr (os_align sec) in
       (addr + os_size sec, secs[i := sec\<lparr>os_addr := addr, os_lma := addr\<rparr>]))"

definition assign_addresses :: "OutputSection list \<Rightarrow> OutputSection list" where
  "assign_addresses secs =
     (let (addr, secs) = fold place_section [OUT_TEXT..<Suc OUT_RODATA] (TEXT_BASE, secs);
          addr = align_up addr LD_PAGE_SIZE
      in snd (fold place_section [OUT_DATA..<Suc OUT_BSS] (addr, secs)))"

definition assign_addresses_bootloader :: "OutputSection list \<Rightarrow> OutputSection list" where
  "assign_addresses_bootloader secs = snd (fold place_section [BOUT_TEXT..<Suc BOUT_BSS] (BOOT_TEXT_BASE, secs))"

definition place_kernel :: "nat \<Rightarrow> u64 \<times> u64 \<times> OutputSection list \<Rightarrow> u64 \<times> u64 \<times> OutputSection list" where
  "place_kernel i = (\<lambda>(phys, virt, secs).
     let sec = secs ! i in
     if os_size sec = 0 then (phys, virt, secs)
     else let phys = align_up phys (os_align sec); virt = align_up virt (os_align sec) in
       (phys + os_size sec, virt + os_size sec, secs[i := sec\<lparr>os_lma := phys, os_addr := virt\<rparr>]))"

text \<open>The boot code and the tables run at their physical address.\<close>

definition place_boot :: "nat \<Rightarrow> u64 \<times> OutputSection list \<Rightarrow> u64 \<times> OutputSection list" where
  "place_boot i = (\<lambda>(phys, secs).
     let sec = secs ! i in
     if os_size sec > 0 then (phys + os_size sec, secs[i := sec\<lparr>os_addr := phys, os_lma := phys\<rparr>]) else (phys, secs))"

definition assign_addresses_kernel :: "OutputSection list \<Rightarrow> OutputSection list" where
  "assign_addresses_kernel secs =
     (let (phys, secs) = place_boot KOUT_TEXT_BOOT (KERNEL_PHYS_BASE, secs);
          phys = align_up phys 0x1000;
          (phys, secs) = place_boot KOUT_TABLES (phys, secs);
          phys = KERNEL_PHYS_BASE + KERNEL_BOOT_SIZE;
          virt = KERNEL_VIRT_BASE + KERNEL_BOOT_SIZE
      in snd (snd (fold place_kernel [KOUT_TEXT..<Suc KOUT_BSS] (phys, virt, secs))))"

subsection \<open>Symbols\<close>

definition all_pieces :: "OutputSection list \<Rightarrow> nat \<Rightarrow> (nat \<times> nat) list" where
  "all_pieces secs n = concat (map (\<lambda>i. map (Pair i) [0..<length (pieces (secs ! i))]) [1..<n])"

definition piece_at :: "OutputSection list \<Rightarrow> nat \<times> nat \<Rightarrow> SectionPiece" where
  "piece_at secs q = pieces (secs ! fst q) ! snd q"

definition find_piece :: "OutputSection list \<Rightarrow> nat \<Rightarrow> nat \<Rightarrow> nat \<Rightarrow> (nat \<times> nat) option" where
  "find_piece secs n fl j = find (\<lambda>q. piece_file (piece_at secs q) = fl \<and> input_shndx (piece_at secs q) = j) (all_pieces secs n)"

definition find_section_for_piece :: "OutputSection list \<Rightarrow> nat \<Rightarrow> nat \<times> nat \<Rightarrow> nat" where
  "find_section_for_piece secs n q = (case find (\<lambda>q'. q' = q) (all_pieces secs n) of Some q' \<Rightarrow> fst q' | None \<Rightarrow> 0)"

text \<open>The address of a value relative to a section of an object.\<close>

definition piece_address :: "OutputSection list \<Rightarrow> nat \<Rightarrow> nat \<times> nat \<Rightarrow> u64 \<Rightarrow> u64" where
  "piece_address secs n q v = os_addr (secs ! find_section_for_piece secs n q) + output_offset (piece_at secs q) + v"

definition place_symbol :: "OutputSection list \<Rightarrow> nat \<Rightarrow> Symbol \<Rightarrow> Symbol" where
  "place_symbol secs n sm =
     (if s_shndx sm = SHN_ABS then sm
      else case s_file sm of
        None \<Rightarrow> sm
      | Some fl \<Rightarrow>
          (case find_piece secs n fl (unat (s_shndx sm)) of
             None \<Rightarrow> sm
           | Some q \<Rightarrow> sm\<lparr>s_value := piece_address secs n q (s_value sm), s_output := find_section_for_piece secs n q\<rparr>))"

definition update_symbol_values :: "SymbolTable \<Rightarrow> OutputSection list \<Rightarrow> nat \<Rightarrow> SymbolTable" where
  "update_symbol_values tab secs n =
     tab\<lparr>chains := (\<lambda>b. if b < SYMTAB_BUCKETS then map (place_symbol secs n) (chains tab b) else chains tab b)\<rparr>"

definition resolve_local_symbol :: "ObjectFile \<Rightarrow> int \<Rightarrow> OutputSection list \<Rightarrow> nat \<Rightarrow> u64" where
  "resolve_local_symbol obj idx secs n =
     (if idx < 0 \<or> idx \<ge> int (symcount obj) then 0
      else let sm = sym_of obj (nat idx) in
        if st_shndx sm = SHN_UNDEF then 0
        else if st_shndx sm = SHN_ABS then st_value sm
        else case find_piece secs n (oid obj) (unat (st_shndx sm)) of
          None \<Rightarrow> st_value sm
        | Some q \<Rightarrow> piece_address secs n q (st_value sm))"

definition kernel_symbols :: "string list" where
  "kernel_symbols = [''__phys_base'', ''__virt_base'', ''__bss_start'', ''__bss_end'', ''__stack_top'']"

definition add_kernel_symbol_placeholders :: "SymbolTable \<Rightarrow> SymbolTable" where
  "add_kernel_symbol_placeholders tab = fold (\<lambda>nm tab. add_linker_symbol tab (to_bytes nm) 0) kernel_symbols tab"

definition set_value :: "string \<Rightarrow> u64 \<Rightarrow> SymbolTable \<Rightarrow> SymbolTable option" where
  "set_value nm v tab =
     (case symbol_lookup tab (to_bytes nm) of
        None \<Rightarrow> None
      | Some _ \<Rightarrow> Some (update_symbol (to_bytes nm) (\<lambda>s. s\<lparr>s_value := v\<rparr>) tab))"

definition define_kernel_symbols :: "SymbolTable \<Rightarrow> OutputSection list \<Rightarrow> SymbolTable option" where
  "define_kernel_symbols tab secs =
     (let bss = secs ! KOUT_BSS in do {
        tab \<leftarrow> set_value ''__phys_base'' KERNEL_PHYS_BASE tab;
        tab \<leftarrow> set_value ''__virt_base'' KERNEL_VIRT_BASE tab;
        tab \<leftarrow> set_value ''__bss_start'' (os_addr bss) tab;
        tab \<leftarrow> set_value ''__bss_end'' (os_addr bss + os_size bss) tab;
        set_value ''__stack_top'' (align_up (os_addr bss + os_size bss) 16 + KERNEL_STACK_SIZE) tab })"

subsection \<open>Alignment\<close>

definition pow2 :: "u64 \<Rightarrow> bool" where
  "pow2 a \<longleftrightarrow> a \<in> set (map (\<lambda>k. 2 ^ k) [0..<64])"

lemma pow2I: "k < 64 \<Longrightarrow> pow2 (2 ^ k)"
  by (simp add: pow2_def)

lemma pow2_page: "pow2 LD_PAGE_SIZE" "pow2 SECTION_ALIGN"
  using pow2I [of 12] pow2I [of 3] by (simp_all add: LD_PAGE_SIZE_def SECTION_ALIGN_def)

lemma pow2E:
  assumes "pow2 a"
  obtains k where "k < 64" "a = 2 ^ k" "unat a = 2 ^ k"
proof -
  obtain k where k: "k < 64" "a = 2 ^ k" using assms by (auto simp: pow2_def)
  have "(2 :: nat) ^ k < 2 ^ LENGTH(64)" using k(1) by (intro power_strict_increasing) auto
  then have "unat ((2 :: u64) ^ k) = 2 ^ k" using unat_of_nat_small [of "2 ^ k", where 'a = 64] by simp
  then show ?thesis using that k by blast
qed

lemma pow2_dvd: "pow2 a \<Longrightarrow> pow2 b \<Longrightarrow> a \<le> b \<Longrightarrow> unat a dvd unat b"
proof -
  assume ab: "pow2 a" "pow2 b" "a \<le> b"
  obtain k where k: "unat a = 2 ^ k" by (rule pow2E [OF ab(1)])
  obtain l where l: "unat b = 2 ^ l" by (rule pow2E [OF ab(2)])
  have "k \<le> l" using ab(3) k l by (simp add: word_le_nat_alt)
  then show ?thesis using k l by (simp add: le_imp_power_dvd)
qed

lemma pow2_pos: "pow2 a \<Longrightarrow> 0 < unat a"
  by (metis pow2E zero_less_numeral zero_less_power)

lemma align_up_correct:
  assumes "pow2 a" "unat x + unat a \<le> 2 ^ 64"
  shows "unat a dvd unat (align_up x a)" "unat x \<le> unat (align_up x a)" "unat (align_up x a) < unat x + unat a"
proof -
  obtain k where k: "k < 64" "a = 2 ^ k" "unat a = 2 ^ k" by (rule pow2E [OF assms(1)])
  have a: "a - 1 = mask k" "a \<noteq> 0" using k pow2_pos [OF assms(1)] by (auto simp: mask_eq_exp_minus_1)
  have "unat (mask k :: u64) = unat a - 1"
    using k by (simp add: a(1) [symmetric] unat_minus_one)
  then have "unat (x + (a - 1)) = unat x + (unat a - 1)"
    using assms(2) pow2_pos [OF assms(1)] unat_plus_if_size [of x "a - 1"] by (simp add: a(1))
  then have eq: "unat (align_up x a) = (unat x + (unat a - 1)) div unat a * unat a"
    using a(2) unat_and_not_mask [of "x + (a - 1)" k] by (simp add: align_up_def a(1) [symmetric] k(3) add_diff_eq)
  show "unat a dvd unat (align_up x a)" by (simp add: eq)
  let ?n = "unat x + (unat a - 1)"
  have "?n div unat a * unat a = ?n - ?n mod unat a" by (simp add: minus_mod_eq_div_mult)
  moreover have "?n mod unat a < unat a" using pow2_pos [OF assms(1)] by simp
  ultimately show "unat x \<le> unat (align_up x a)" "unat (align_up x a) < unat x + unat a"
    using eq pow2_pos [OF assms(1)] by linarith+
qed

subsection \<open>Merged sections\<close>

text \<open>The piece of a section of an object: where it is, and that it has the bytes of the object.\<close>

definition piece_ok :: "OutputSection \<Rightarrow> ObjectFile \<times> nat \<Rightarrow> SectionPiece \<Rightarrow> bool" where
  "piece_ok sec = (\<lambda>(obj, j) p. let sh = shdrs obj ! j in
     piece_file p = oid obj \<and> input_shndx p = j \<and> piece_size p = sh_size sh \<and>
     unat (sh_align sh) dvd unat (output_offset p) \<and> sh_align sh \<le> os_align sec \<and>
     unat (output_offset p) + unat (sh_size sh) \<le> unat (os_size sec) \<and>
     (sh_type sh \<noteq> SHT_NOBITS \<longrightarrow>
       (\<forall>i < unat (sh_size sh). os_data sec (unat (output_offset p) + i) = odata obj (unat (sh_offset sh) + i))))"

definition section_ok :: "OutputSection \<Rightarrow> (ObjectFile \<times> nat) list \<Rightarrow> bool" where
  "section_ok sec ins \<longleftrightarrow>
     list_all2 (piece_ok sec) ins (pieces sec) \<and>
     sorted_wrt (\<lambda>p q. unat (output_offset p) + unat (piece_size p) \<le> unat (output_offset q)) (pieces sec) \<and>
     pow2 (os_align sec) \<and> os_dlen sec \<le> unat (os_size sec)"

text \<open>The room a section of an object takes at most.\<close>

definition room :: "ObjectFile \<times> nat \<Rightarrow> nat" where
  "room = (\<lambda>(obj, j). unat (sh_align (shdrs obj ! j)) + unat (sh_size (shdrs obj ! j)))"

lemma piece_ok_mono:
  assumes "piece_ok sec x p" "os_align sec \<le> os_align sec'" "unat (os_size sec) \<le> unat (os_size sec')"
    "\<And>i. i < unat (os_size sec) \<Longrightarrow> os_data sec' i = os_data sec i"
  shows "piece_ok sec' x p"
  using assms by (fastforce simp: piece_ok_def Let_def split: prod.splits)

lemma piece_within: "section_ok sec ins \<Longrightarrow> p \<in> set (pieces sec) \<Longrightarrow> unat (output_offset p) + unat (piece_size p) \<le> unat (os_size sec)"
proof -
  assume "section_ok sec ins" "p \<in> set (pieces sec)"
  then obtain k where "k < length (pieces sec)" "p = pieces sec ! k" "piece_ok sec (ins ! k) p"
    by (auto simp: section_ok_def list_all2_conv_all_nth in_set_conv_nth)
  then show ?thesis by (cases "ins ! k") (simp add: piece_ok_def Let_def)
qed

lemma merge_piece_ok:
  assumes ok: "section_ok sec ins" and pw: "pow2 (sh_align (shdrs obj ! j))" and j: "j < length (shdrs obj)"
    and fit: "unat (os_size sec) + room (obj, j) < 2 ^ 64"
  shows "\<exists>sec'. merge_piece obj j sec = Some sec' \<and> section_ok sec' (ins @ [(obj, j)]) \<and> unat (os_size sec') \<le> unat (os_size sec) + room (obj, j) \<and>
    unat (os_align sec') \<le> unat (os_align sec) + room (obj, j)"
proof -
  let ?sh = "shdrs obj ! j" and ?n = "unat (os_size sec)"
  let ?a = "sh_align ?sh" and ?off = "align_up (os_size sec) (sh_align ?sh)"
  let ?o = "unat ?off" and ?p = "\<lparr>piece_file = oid obj, input_shndx = j, output_offset = ?off, piece_size = sh_size ?sh\<rparr>"
  have al: "unat ?a dvd ?o" "?n \<le> ?o" "?o < ?n + unat ?a"
    using align_up_correct [OF pw, of "os_size sec"] fit by (auto simp: room_def)
  have sum: "unat (?off + sh_size ?sh) = ?o + unat (sh_size ?sh)"
    using al(3) fit by (intro unat_plus_if_size) (auto simp: room_def)
  define sec' where "sec' = sec\<lparr>os_align := max ?a (os_align sec), pieces := pieces sec @ [?p], os_size := ?off + sh_size ?sh,
    os_dlen := (if sh_type ?sh \<noteq> SHT_NOBITS \<and> sh_size ?sh > 0 then unat (?off + sh_size ?sh) else os_dlen sec),
    os_data := (if sh_type ?sh \<noteq> SHT_NOBITS \<and> sh_size ?sh > 0 then (\<lambda>i. if ?n \<le> i \<and> i < ?o then 0
      else if ?o \<le> i \<and> i < unat (?off + sh_size ?sh) then odata obj (unat (sh_offset ?sh) + (i - ?o)) else os_data sec i) else os_data sec)\<rparr>"
  have "merge_piece obj j sec = Some sec'"
    using al(2) sum j by (auto simp: merge_piece_def sec'_def Let_def copy_piece_def section_data_def add_piece_def word_less_nat_alt word_le_nat_alt max_def
      intro!: OutputSection.equality ext)
  moreover have "list_all2 (piece_ok sec') ins (pieces sec)"
    using ok al(2) sum by (auto simp: section_ok_def sec'_def elim!: list.rel_mono_strong intro!: piece_ok_mono [of sec])
  moreover have "piece_ok sec' (obj, j) ?p"
    using al(1) sum by (auto simp: piece_ok_def sec'_def Let_def word_less_nat_alt)
  moreover have "\<forall>q \<in> set (pieces sec). unat (output_offset q) + unat (piece_size q) \<le> ?n"
    using piece_within [OF ok] by blast
  ultimately show ?thesis using ok al sum pw
    by (intro exI [of _ sec']) (auto simp: section_ok_def sec'_def sorted_wrt_append list_all2_appendI room_def max_def)
qed

text \<open>What goes into output section \<open>c\<close>, in the order of the objects.\<close>

definition category :: "(u8 list \<Rightarrow> u64 \<Rightarrow> int) \<Rightarrow> ObjectFile \<times> nat \<Rightarrow> int" where
  "category categorize = (\<lambda>(obj, j). case section_name obj j of None \<Rightarrow> -1 | Some nm \<Rightarrow> categorize nm (sh_flags (shdrs obj ! j)))"

definition all_inputs :: "ObjectFile list \<Rightarrow> (ObjectFile \<times> nat) list" where
  "all_inputs objs = concat (map (\<lambda>obj. map (Pair obj) [1..<length (shdrs obj)]) objs)"

definition inputs :: "(u8 list \<Rightarrow> u64 \<Rightarrow> int) \<Rightarrow> nat \<Rightarrow> ObjectFile list \<Rightarrow> (ObjectFile \<times> nat) list" where
  "inputs categorize c objs = filter (\<lambda>x. category categorize x = int c) (all_inputs objs)"

lemma fold_opt_map: "fold_opt f (map g xs) s = fold_opt (\<lambda>x. f (g x)) xs s"
  by (induction xs arbitrary: s) (auto split: Option.bind_splits)

lemma fold_inputs: "fold_opt (\<lambda>obj. fold_opt (f obj) [1..<length (shdrs obj)]) objs s = fold_opt (\<lambda>(obj, j). f obj j) (all_inputs objs) s"
  by (induction objs arbitrary: s) (auto simp: all_inputs_def fold_opt_append fold_opt_map split: Option.bind_splits)

lemma merge_section_category:
  "merge_section categorize obj j secs =
     (if category categorize (obj, j) < 0 then Some secs
      else do { sec \<leftarrow> merge_piece obj j (secs ! nat (category categorize (obj, j))); Some (secs[nat (category categorize (obj, j)) := sec]) })"
  by (auto simp: merge_section_def category_def Let_def split: option.splits)

definition merged :: "(u8 list \<Rightarrow> u64 \<Rightarrow> int) \<Rightarrow> (ObjectFile \<times> nat) list \<Rightarrow> OutputSection list \<Rightarrow> bool" where
  "merged categorize xs secs \<longleftrightarrow> (\<forall>c < length secs. let ins = filter (\<lambda>x. category categorize x = int c) xs in
     section_ok (secs ! c) ins \<and> unat (os_size (secs ! c)) \<le> sum_list (map room ins) \<and> unat (os_align (secs ! c)) \<le> 8 + sum_list (map room ins))"

lemma merged_step:
  assumes inv: "merged categorize xs secs" and x: "j < length (shdrs obj)" "pow2 (sh_align (shdrs obj ! j))"
    and cat: "category categorize (obj, j) < int (length secs)" and fit: "sum_list (map room xs) + room (obj, j) < 2 ^ 64"
  shows "\<exists>secs'. merge_section categorize obj j secs = Some secs' \<and> length secs' = length secs \<and> merged categorize (xs @ [(obj, j)]) secs'"
proof (cases "category categorize (obj, j) < 0")
  case True
  then show ?thesis using inv by (auto simp: merge_section_category merged_def)
next
  case False
  let ?c = "nat (category categorize (obj, j))" and ?ins = "\<lambda>c. filter (\<lambda>x. category categorize x = int c) xs"
  have c: "?c < length secs" using cat False by linarith
  have sec: "section_ok (secs ! ?c) (?ins ?c)" "unat (os_size (secs ! ?c)) \<le> sum_list (map room (?ins ?c))"
      "unat (os_align (secs ! ?c)) \<le> 8 + sum_list (map room (?ins ?c))"
    using inv c by (auto simp: merged_def Let_def)
  have "sum_list (map room (?ins ?c)) \<le> sum_list (map room xs)" by (rule sum_list_filter_le_nat)
  then obtain sec' where s: "merge_piece obj j (secs ! ?c) = Some sec'" "section_ok sec' (?ins ?c @ [(obj, j)])"
      "unat (os_size sec') \<le> unat (os_size (secs ! ?c)) + room (obj, j)" "unat (os_align sec') \<le> unat (os_align (secs ! ?c)) + room (obj, j)"
    using merge_piece_ok [OF sec(1) x(2,1)] sec(2) fit by fastforce
  have "merged categorize (xs @ [(obj, j)]) (secs[?c := sec'])"
    using inv s(2-4) sec(2,3) False by (auto simp: merged_def Let_def nth_list_update)
  then show ?thesis using s(1) False by (auto simp: merge_section_category)
qed

lemma merge_all:
  assumes "merged categorize xs secs" "\<forall>(obj, j) \<in> set ys. j < length (shdrs obj) \<and> pow2 (sh_align (shdrs obj ! j))"
    "\<forall>y \<in> set ys. category categorize y < int (length secs)" "sum_list (map room (xs @ ys)) < 2 ^ 64"
  shows "\<exists>secs'. fold_opt (\<lambda>(obj, j). merge_section categorize obj j) ys secs = Some secs' \<and> length secs' = length secs \<and> merged categorize (xs @ ys) secs'"
  using assms
proof (induction ys arbitrary: xs secs)
  case (Cons y ys)
  obtain obj j where y: "y = (obj, j)" by force
  obtain secs1 where s: "merge_section categorize obj j secs = Some secs1" "length secs1 = length secs" "merged categorize (xs @ [y]) secs1"
    using merged_step [OF Cons.prems(1), of j obj] Cons.prems(2-4) unfolding y by auto
  show ?case using Cons.IH [OF s(3)] Cons.prems(2-4) s by (auto simp: y)
qed auto

definition fresh :: "OutputSection list \<Rightarrow> bool" where
  "fresh secs \<longleftrightarrow> list_all (\<lambda>sec. pieces sec = [] \<and> os_size sec = 0 \<and> os_dlen sec = 0 \<and> os_align sec = SECTION_ALIGN) secs"

text \<open>The objects can be laid out: alignments are powers of two and the sizes do not exceed the address space.\<close>

definition linkable :: "ObjectFile list \<Rightarrow> bool" where
  "linkable objs \<longleftrightarrow> list_all (\<lambda>(obj, j). pow2 (sh_align (shdrs obj ! j))) (all_inputs objs) \<and> sum_list (map room (all_inputs objs)) < 2 ^ 58"

lemma all_inputs_in: "(obj, j) \<in> set (all_inputs objs) \<longleftrightarrow> obj \<in> set objs \<and> 1 \<le> j \<and> j < length (shdrs obj)"
  by (force simp: all_inputs_def)

lemma merge_sections_ok:
  assumes "linkable objs" "fresh secs" "\<forall>x \<in> set (all_inputs objs). category categorize x < int (length secs)"
  shows "\<exists>secs'. merge_sections categorize objs secs = Some secs' \<and> length secs' = length secs \<and> merged categorize (all_inputs objs) secs'"
proof -
  have "merged categorize [] secs" using assms(2) pow2_page(2) by (auto simp: merged_def fresh_def section_ok_def list_all_length SECTION_ALIGN_def)
  moreover have "\<forall>(obj, j) \<in> set (all_inputs objs). j < length (shdrs obj) \<and> pow2 (sh_align (shdrs obj ! j))"
    using assms(1) by (auto simp: linkable_def list_all_iff all_inputs_in)
  moreover have "sum_list (map room ([] @ all_inputs objs)) < 2 ^ 64" using assms(1) by (simp add: linkable_def)
  ultimately have "\<exists>secs'. fold_opt (\<lambda>(obj, j). merge_section categorize obj j) (all_inputs objs) secs = Some secs' \<and> length secs' = length secs \<and>
      merged categorize ([] @ all_inputs objs) secs'"
    using assms(3) by (intro merge_all)
  then show ?thesis unfolding merge_sections_def fold_inputs by simp
qed

subsection \<open>Placed sections\<close>

text \<open>The same section, at another address.\<close>

definition relocated :: "OutputSection \<Rightarrow> OutputSection \<Rightarrow> bool" where
  "relocated sec sec' \<longleftrightarrow> sec' = sec\<lparr>os_addr := os_addr sec', os_lma := os_lma sec'\<rparr>"

definition sec_start :: "OutputSection list \<Rightarrow> nat \<Rightarrow> nat" where
  "sec_start secs i = unat (os_addr (secs ! i))"

definition sec_end :: "OutputSection list \<Rightarrow> nat \<Rightarrow> nat" where
  "sec_end secs i = unat (os_addr (secs ! i)) + unat (os_size (secs ! i))"

lemma relocated_iff: "relocated sec sec' \<longleftrightarrow> (\<exists>a l. sec' = sec\<lparr>os_addr := a, os_lma := l\<rparr>)"
proof
  show "relocated sec sec' \<Longrightarrow> \<exists>a l. sec' = sec\<lparr>os_addr := a, os_lma := l\<rparr>" unfolding relocated_def by blast
qed (auto simp: relocated_def)

lemma relocated_trans: "relocated a b \<Longrightarrow> relocated b c \<Longrightarrow> relocated a c"
  unfolding relocated_iff by (auto intro: OutputSection.equality) blast

lemma relocated_fields:
  assumes "relocated sec sec'"
  shows "os_size sec' = os_size sec" "os_align sec' = os_align sec" "pieces sec' = pieces sec" "os_data sec' = os_data sec" "os_dlen sec' = os_dlen sec"
    "os_type sec' = os_type sec"
proof -
  obtain a l where "sec' = sec\<lparr>os_addr := a, os_lma := l\<rparr>" using assms unfolding relocated_iff by blast
  then show "os_size sec' = os_size sec" "os_align sec' = os_align sec" "pieces sec' = pieces sec" "os_data sec' = os_data sec" "os_dlen sec' = os_dlen sec"
      "os_type sec' = os_type sec"
    by simp_all
qed

text \<open>Sections \<open>is\<close>, placed one after the other between two addresses.\<close>

definition laid_out :: "nat list \<Rightarrow> nat \<Rightarrow> nat \<Rightarrow> OutputSection list \<Rightarrow> bool" where
  "laid_out ks lo hi secs \<longleftrightarrow>
     (\<forall>i \<in> set ks. os_size (secs ! i) \<noteq> 0 \<longrightarrow> lo \<le> sec_start secs i \<and> sec_end secs i \<le> hi \<and> unat (os_align (secs ! i)) dvd sec_start secs i) \<and>
     sorted_wrt (\<lambda>i j. os_size (secs ! i) \<noteq> 0 \<longrightarrow> os_size (secs ! j) \<noteq> 0 \<longrightarrow> sec_end secs i \<le> sec_start secs j) ks"

definition need :: "OutputSection list \<Rightarrow> nat list \<Rightarrow> nat" where
  "need secs ks = (\<Sum>i\<leftarrow>ks. unat (os_align (secs ! i)) + unat (os_size (secs ! i)))"

lemma need_update: "i \<notin> set ks \<Longrightarrow> need (secs[i := sec]) ks = need secs ks"
  unfolding need_def by (rule arg_cong [where f = sum_list], rule map_cong) (auto intro!: arg_cong2 [where f = "(+)"] arg_cong [where f = unat] arg_cong [where f = os_align] arg_cong [where f = os_size] nth_list_update_neq)

lemma place_section_eq:
  "place_section i (addr, secs) =
     (if os_size (secs ! i) = 0 then (addr, secs)
      else let a = align_up addr (os_align (secs ! i)) in (a + os_size (secs ! i), secs[i := (secs ! i)\<lparr>os_addr := a, os_lma := a\<rparr>]))"
  by (simp add: place_section_def Let_def)

lemma place_sections:
  assumes "distinct ks" "\<forall>i \<in> set ks. i < length secs \<and> pow2 (os_align (secs ! i))" "unat addr + need secs ks < 2 ^ 64"
    "fold place_section ks (addr, secs) = (addr', secs')"
  shows "length secs' = length secs \<and> (\<forall>i. i \<notin> set ks \<longrightarrow> secs' ! i = secs ! i) \<and> (\<forall>i. relocated (secs ! i) (secs' ! i)) \<and>
    unat addr \<le> unat addr' \<and> unat addr' \<le> unat addr + need secs ks \<and> laid_out ks (unat addr) (unat addr') secs'"
  using assms
proof (induction ks arbitrary: addr secs)
  case Nil
  then show ?case by (auto simp: relocated_def laid_out_def need_def)
next
  case (Cons k ks)
  let ?sec = "secs ! k"
  show ?case
  proof (cases "os_size ?sec = 0")
    case True
    then have "fold place_section ks (addr, secs) = (addr', secs')" using Cons.prems(4) by (simp add: place_section_eq)
    note IH = Cons.IH [OF _ _ _ this]
    show ?thesis using IH Cons.prems(1-3) True relocated_fields(1) [of ?sec "secs' ! k"] by (auto simp: need_def laid_out_def)
  next
    case False
    let ?a = "align_up addr (os_align ?sec)"
    let ?secs = "secs[k := ?sec\<lparr>os_addr := ?a, os_lma := ?a\<rparr>]"
    have fit: "unat addr + (unat (os_align ?sec) + unat (os_size ?sec) + need secs ks) < 2 ^ 64" using Cons.prems(3) by (simp add: need_def)
    have al: "unat (os_align ?sec) dvd unat ?a" "unat addr \<le> unat ?a" "unat ?a < unat addr + unat (os_align ?sec)"
      using align_up_correct [of "os_align ?sec" addr] Cons.prems(2) fit by auto
    have sum: "unat (?a + os_size ?sec) = unat ?a + unat (os_size ?sec)" using al(3) fit by (intro unat_plus_if_size) auto
    have nd: "need ?secs ks = need secs ks" using Cons.prems(1) by (simp add: need_update)
    have step: "fold place_section ks (?a + os_size ?sec, ?secs) = (addr', secs')" using Cons.prems(4) False by (simp add: place_section_eq Let_def)
    have IH: "length secs' = length secs" "\<forall>i. i \<notin> set ks \<longrightarrow> secs' ! i = ?secs ! i" "\<forall>i. relocated (?secs ! i) (secs' ! i)"
        "unat (?a + os_size ?sec) \<le> unat addr'" "unat addr' \<le> unat (?a + os_size ?sec) + need secs ks"
        "laid_out ks (unat (?a + os_size ?sec)) (unat addr') secs'"
      using Cons.IH [OF _ _ _ step] Cons.prems(1,2) al(3) fit sum nd by (auto simp: nth_list_update)
    have k: "secs' ! k = ?sec\<lparr>os_addr := ?a, os_lma := ?a\<rparr>" using IH(2) Cons.prems(1,2) by auto
    have "relocated (secs ! i) (secs' ! i)" for i
      using IH(2,3) k by (cases "i = k") (auto simp: relocated_def dest!: spec [of _ i])
    moreover have "laid_out (k # ks) (unat addr) (unat addr') secs'"
      using IH(4,6) al sum k by (auto simp: laid_out_def sec_start_def sec_end_def)
    ultimately show ?thesis using IH Cons.prems(1) al sum by (auto simp: need_def)
  qed
qed

lemma laid_out_append:
  assumes "laid_out ks lo mid secs" "laid_out ls mid' hi secs'" "mid \<le> mid'" "lo \<le> mid'" "mid \<le> hi" "\<forall>i \<in> set ks. secs' ! i = secs ! i"
  shows "laid_out (ks @ ls) lo hi secs'"
proof -
  have "laid_out ks lo mid secs'" using assms(1,6) unfolding laid_out_def sec_start_def sec_end_def
    by (auto elim!: sorted_wrt_mono_rel [rotated])
  then show ?thesis using assms(2-5) by (fastforce simp: laid_out_def sorted_wrt_append)
qed

lemma assign_addresses_ok:
  assumes "length secs = OUT_COUNT" "\<forall>i < OUT_COUNT. pow2 (os_align (secs ! i))" "need secs [1..<OUT_COUNT] < 2 ^ 63"
  shows "\<exists>hi < 2 ^ 64. length (assign_addresses secs) = OUT_COUNT \<and> (\<forall>i. relocated (secs ! i) (assign_addresses secs ! i)) \<and>
    laid_out [1..<OUT_COUNT] (unat TEXT_BASE) hi (assign_addresses secs)"
proof -
  have ks: "[OUT_TEXT..<Suc OUT_RODATA] = [1, 2]" "[OUT_DATA..<Suc OUT_BSS] = [3, 4]" "[1..<OUT_COUNT] = [1, 2] @ [3, 4]"
    by (simp_all add: out_indices upt_rec)
  have nd: "need secs [1, 2] + need secs [3, 4] < 2 ^ 63" using assms(3) unfolding ks by (simp add: need_def)
  have tb: "unat TEXT_BASE = 2 ^ 16" "unat LD_PAGE_SIZE = 2 ^ 12" by (simp_all add: TEXT_BASE_def LD_PAGE_SIZE_def)
  obtain a1 s1 where one: "fold place_section [1, 2] (TEXT_BASE, secs) = (a1, s1)" by fastforce
  have c1: "length s1 = OUT_COUNT" "\<forall>i. i \<notin> {1, 2} \<longrightarrow> s1 ! i = secs ! i" "\<forall>i. relocated (secs ! i) (s1 ! i)" "unat TEXT_BASE \<le> unat a1"
      "unat a1 \<le> unat TEXT_BASE + need secs [1, 2]" "laid_out [1, 2] (unat TEXT_BASE) (unat a1) s1"
    using place_sections [OF _ _ _ one] assms(1,2) nd tb by (auto simp: OUT_COUNT_def)
  let ?a = "align_up a1 LD_PAGE_SIZE"
  have al: "unat a1 \<le> unat ?a" "unat ?a < unat a1 + unat LD_PAGE_SIZE"
    using align_up_correct [OF pow2_page(1), of a1] c1(5) nd tb by auto
  have nd2: "need s1 [3, 4] = need secs [3, 4]" using c1(2) by (simp add: need_def)
  obtain a2 s2 where two: "fold place_section [3, 4] (?a, s1) = (a2, s2)" by fastforce
  have c2: "length s2 = OUT_COUNT" "\<forall>i. i \<notin> {3, 4} \<longrightarrow> s2 ! i = s1 ! i" "\<forall>i. relocated (s1 ! i) (s2 ! i)" "unat ?a \<le> unat a2"
      "laid_out [3, 4] (unat ?a) (unat a2) s2"
    using place_sections [OF _ _ _ two] assms(1,2) c1(1,2,5) nd nd2 tb al by (auto simp: OUT_COUNT_def)
  have "assign_addresses secs = s2" unfolding assign_addresses_def ks one by (simp only: Let_def prod.case two snd_conv)
  moreover have "laid_out ([1, 2] @ [3, 4]) (unat TEXT_BASE) (unat a2) s2"
    using c1(4) c2(2,4) al by (intro laid_out_append [OF c1(6) c2(5)]) auto
  moreover have "relocated (secs ! i) (s2 ! i)" for i using c1(3) c2(3) relocated_trans by blast
  ultimately show ?thesis using c2(1) unat_less_exp [of a2] unfolding ks(3) by (intro exI [of _ "unat a2"]) auto
qed

text \<open>The byte the program finds at an address.\<close>

definition image_byte :: "OutputSection list \<Rightarrow> u64 \<Rightarrow> u8 option" where
  "image_byte secs a =
     (case find (\<lambda>i. sec_start secs i \<le> unat a \<and> unat a < sec_end secs i) [1..<length secs] of
        None \<Rightarrow> None
      | Some i \<Rightarrow> Some (os_data (secs ! i) (unat a - sec_start secs i)))"

lemma find_unique: "x \<in> set xs \<Longrightarrow> P x \<Longrightarrow> \<forall>y \<in> set xs. y \<noteq> x \<longrightarrow> \<not> P y \<Longrightarrow> find P xs = Some x"
  by (induction xs) auto

lemma find_exists: "x \<in> set xs \<Longrightarrow> P x \<Longrightarrow> \<exists>y. find P xs = Some y \<and> y \<in> set xs \<and> P y"
  by (induction xs) auto

lemma laid_out_ordered:
  assumes "laid_out [1..<n] lo hi secs" "1 \<le> i" "i < j" "j < n" "os_size (secs ! i) \<noteq> 0" "os_size (secs ! j) \<noteq> 0"
  shows "sec_end secs i \<le> sec_start secs j"
proof -
  have "[1..<n] ! (i - 1) = i" "[1..<n] ! (j - 1) = j" using assms(2-4) by simp_all
  then show ?thesis
    using assms sorted_wrt_nth_less [of "\<lambda>i j. os_size (secs ! i) \<noteq> 0 \<longrightarrow> os_size (secs ! j) \<noteq> 0 \<longrightarrow> sec_end secs i \<le> sec_start secs j" "[1..<n]" "i - 1" "j - 1"]
    by (simp add: laid_out_def)
qed

lemma image_byte_at:
  assumes "laid_out [1..<length secs] lo hi secs" "1 \<le> c" "c < length secs" "sec_start secs c \<le> unat a" "unat a < sec_end secs c"
  shows "image_byte secs a = Some (os_data (secs ! c) (unat a - sec_start secs c))"
proof -
  have "\<not> (sec_start secs i \<le> unat a \<and> unat a < sec_end secs i)" if i: "i \<in> set [1..<length secs]" "i \<noteq> c" for i
  proof
    assume a: "sec_start secs i \<le> unat a \<and> unat a < sec_end secs i"
    then have "os_size (secs ! i) \<noteq> 0" "os_size (secs ! c) \<noteq> 0" using assms(4,5) by (auto simp: sec_start_def sec_end_def)
    then have "sec_end secs i \<le> sec_start secs c \<or> sec_end secs c \<le> sec_start secs i"
      using laid_out_ordered [OF assms(1), of i c] laid_out_ordered [OF assms(1), of c i] assms(2,3) i by (cases "i < c") auto
    then show False using a assms(4,5) by auto
  qed
  then have "find (\<lambda>i. sec_start secs i \<le> unat a \<and> unat a < sec_end secs i) [1..<length secs] = Some c"
    using assms(2-5) by (intro find_unique) auto
  then show ?thesis by (simp add: image_byte_def)
qed

subsection \<open>Addresses of symbols\<close>

lemma all_pieces_in: "(i, k) \<in> set (all_pieces secs n) \<longleftrightarrow> 1 \<le> i \<and> i < n \<and> k < length (pieces (secs ! i))"
  by (force simp: all_pieces_def)

lemma find_section_eq: "q \<in> set (all_pieces secs n) \<Longrightarrow> find_section_for_piece secs n q = fst q"
  using find_unique [of q "all_pieces secs n" "\<lambda>q'. q' = q"] by (simp add: find_section_for_piece_def)

lemma merged_relocated:
  assumes "merged categorize xs secs" "length secs' = length secs" "\<forall>i. relocated (secs ! i) (secs' ! i)"
  shows "merged categorize xs secs'"
proof -
  have "piece_ok (secs' ! i) = piece_ok (secs ! i)" for i
    using relocated_fields [of "secs ! i" "secs' ! i"] assms(3) by (intro ext) (simp add: piece_ok_def)
  then show ?thesis using assms relocated_fields [OF spec [OF assms(3)]] by (simp add: merged_def section_ok_def Let_def)
qed

lemma find_piece_input:
  assumes "merged categorize (all_inputs objs) secs" "inj_on oid (set objs)" "(obj, j) \<in> set (all_inputs objs)"
    and "category categorize (obj, j) = int c" "1 \<le> c" "c < length secs"
  shows "\<exists>q. find_piece secs (length secs) (oid obj) j = Some q \<and> find_section_for_piece secs (length secs) q = c \<and> piece_ok (secs ! c) (obj, j) (piece_at secs q)"
proof -
  let ?ins = "\<lambda>c. filter (\<lambda>x. category categorize x = int c) (all_inputs objs)"
  have ok: "list_all2 (piece_ok (secs ! i)) (?ins i) (pieces (secs ! i))" if "i < length secs" for i
    using assms(1) that by (simp add: merged_def section_ok_def Let_def)
  let ?P = "\<lambda>q. piece_file (piece_at secs q) = oid obj \<and> input_shndx (piece_at secs q) = j"
  obtain k where "k < length (?ins c)" "?ins c ! k = (obj, j)" using assms(3,4) in_set_conv_nth [of "(obj, j)" "?ins c"] by auto
  then have "(c, k) \<in> set (all_pieces secs (length secs))" "?P (c, k)"
    using ok [OF assms(6)] assms(5,6) by (auto simp: all_pieces_in list_all2_conv_all_nth piece_at_def piece_ok_def Let_def)
  then obtain i m where q: "find_piece secs (length secs) (oid obj) j = Some (i, m)" "(i, m) \<in> set (all_pieces secs (length secs))" "?P (i, m)"
    using find_exists [of "(c, k)" "all_pieces secs (length secs)" ?P] unfolding find_piece_def by fast
  have im: "1 \<le> i" "i < length secs" "m < length (pieces (secs ! i))" using q(2) by (simp_all add: all_pieces_in)
  obtain obj' j' where x: "?ins i ! m = (obj', j')" by force
  then have p: "piece_ok (secs ! i) (obj', j') (piece_at secs (i, m))" "(obj', j') \<in> set (?ins i)"
    using ok [OF im(2)] im(3) nth_mem [of m "?ins i"] by (auto simp: list_all2_conv_all_nth piece_at_def)
  then have "oid obj' = oid obj" "j' = j" using q(3) by (auto simp: piece_ok_def Let_def)
  then have "obj' = obj" "j' = j" using assms(2,3) p(2) by (auto simp: all_inputs_in inj_on_def)
  then have "i = c" using p(2) assms(4) by auto
  then show ?thesis using q p(1) find_section_eq [OF q(2)] \<open>obj' = obj\<close> \<open>j' = j\<close> by (intro exI [of _ "(i, m)"]) simp
qed

lemma merged_need:
  assumes "merged categorize (all_inputs objs) secs" "linkable objs" "length secs = OUT_COUNT"
  shows "need secs [1..<OUT_COUNT] < 2 ^ 63" "\<forall>i < OUT_COUNT. pow2 (os_align (secs ! i))"
proof -
  have one: "unat (os_align (secs ! c)) + unat (os_size (secs ! c)) \<le> 8 + 2 * 2 ^ 58" if "c < OUT_COUNT" for c
  proof -
    have "sum_list (map room (filter (\<lambda>x. category categorize x = int c) (all_inputs objs))) \<le> sum_list (map room (all_inputs objs))"
      by (rule sum_list_filter_le_nat)
    then show ?thesis using assms that by (fastforce simp: merged_def Let_def linkable_def)
  qed
  have "[1..<OUT_COUNT] = [1, 2, 3, 4]" by (simp add: OUT_COUNT_def upt_rec)
  then show "need secs [1..<OUT_COUNT] < 2 ^ 63" using one [of 1] one [of 2] one [of 3] one [of 4] by (simp add: need_def OUT_COUNT_def)
  show "\<forall>i < OUT_COUNT. pow2 (os_align (secs ! i))" using assms(1,3) by (simp add: merged_def section_ok_def Let_def)
qed

lemma piece_address_image:
  assumes mg: "merged categorize (all_inputs objs) secs" and lay: "laid_out [1..<length secs] lo hi secs" "hi < 2 ^ 64"
    and obj: "linkable objs" "inj_on oid (set objs)" "(obj, j) \<in> set (all_inputs objs)"
    and c: "category categorize (obj, j) = int c" "1 \<le> c" "c < length secs" and v: "v < sh_size (shdrs obj ! j)"
  shows "\<exists>q a. find_piece secs (length secs) (oid obj) j = Some q \<and> find_section_for_piece secs (length secs) q = c \<and>
    piece_address secs (length secs) q v = a \<and> lo \<le> unat a \<and> unat (sh_align (shdrs obj ! j)) dvd unat (a - v) \<and>
    (sh_type (shdrs obj ! j) \<noteq> SHT_NOBITS \<longrightarrow> image_byte secs a = Some (odata obj (unat (sh_offset (shdrs obj ! j)) + unat v)))"
proof -
  let ?sh = "shdrs obj ! j"
  obtain q where q: "find_piece secs (length secs) (oid obj) j = Some q" "find_section_for_piece secs (length secs) q = c"
      "piece_ok (secs ! c) (obj, j) (piece_at secs q)"
    using find_piece_input [OF mg obj(2,3) c] by blast
  let ?o = "output_offset (piece_at secs q)" and ?a = "piece_address secs (length secs) q v"
  have p: "unat (sh_align ?sh) dvd unat ?o" "sh_align ?sh \<le> os_align (secs ! c)" "unat ?o + unat (sh_size ?sh) \<le> unat (os_size (secs ! c))"
      "sh_type ?sh \<noteq> SHT_NOBITS \<Longrightarrow> os_data (secs ! c) (unat ?o + unat v) = odata obj (unat (sh_offset ?sh) + unat v)"
    using q(3) v by (auto simp: piece_ok_def Let_def word_less_nat_alt)
  have vn: "unat v < unat (sh_size ?sh)" using v by (simp add: word_less_nat_alt)
  then have "os_size (secs ! c) \<noteq> 0" using p(3) by auto
  then have l: "lo \<le> sec_start secs c" "sec_end secs c \<le> hi" "unat (os_align (secs ! c)) dvd sec_start secs c"
    using lay(1) c(2,3) by (auto simp: laid_out_def)
  have oa: "unat (os_addr (secs ! c) + ?o) = sec_start secs c + unat ?o"
    using l(2) lay(2) p(3) vn by (subst unat_plus_if_size) (auto simp: sec_start_def sec_end_def)
  have a: "unat ?a = sec_start secs c + unat ?o + unat v"
    using l(2) lay(2) p(3) vn oa by (simp add: piece_address_def q(2), subst unat_plus_if_size) (auto simp: sec_start_def sec_end_def)
  have "?a - v = os_addr (secs ! c) + ?o" by (simp add: piece_address_def q(2))
  moreover have "unat (sh_align ?sh) dvd unat (os_align (secs ! c))"
    using obj(1,3) mg c(3) p(2) by (intro pow2_dvd) (auto simp: linkable_def list_all_iff merged_def section_ok_def Let_def)
  ultimately have al: "unat (sh_align ?sh) dvd unat (?a - v)" using oa p(1) l(3) by (metis dvd_add dvd_trans)
  have "image_byte secs ?a = Some (os_data (secs ! c) (unat ?o + unat v))"
    using image_byte_at [OF lay(1) c(2,3), of ?a] a p(3) vn by (simp add: sec_start_def sec_end_def add.assoc)
  then show ?thesis using q(1,2) al a l(1) p(4) by (intro exI [of _ q] exI [of _ ?a]) auto
qed

lemma place_symbol_name [simp]: "s_name (place_symbol secs n sm) = s_name sm"
  by (simp add: place_symbol_def split: option.split)

lemma lookup_update_values:
  "symbol_lookup (update_symbol_values tab secs n) nm = map_option (place_symbol secs n) (symbol_lookup tab nm)"
proof -
  have "find (\<lambda>s. s_name s = nm) (map (place_symbol secs n) xs) = map_option (place_symbol secs n) (find (\<lambda>s. s_name s = nm) xs)" for xs
    by (induction xs) auto
  then show ?thesis by (simp add: symbol_lookup_def update_symbol_values_def bucket_less)
qed

lemma category_user: "category categorize_section x \<ge> 0 \<Longrightarrow> \<exists>c. category categorize_section x = int c \<and> 1 \<le> c \<and> c < OUT_COUNT"
  by (cases x) (auto simp: category_def categorize_section_def out_indices split: option.splits if_splits intro!: exI [of _ 1] exI [of _ 2] exI [of _ 3] exI [of _ 4])

lemma layout_user:
  assumes "linkable objs" "fresh secs" "length secs = OUT_COUNT"
  shows "\<exists>secs' hi. merge_sections categorize_section objs secs = Some secs' \<and> hi < 2 ^ 64 \<and> length (assign_addresses secs') = OUT_COUNT \<and>
    merged categorize_section (all_inputs objs) (assign_addresses secs') \<and> laid_out [1..<OUT_COUNT] (unat TEXT_BASE) hi (assign_addresses secs')"
proof -
  have "category categorize_section x < int (length secs)" for x
    using category_user [of x] assms(3) by (cases "category categorize_section x \<ge> 0") auto
  then obtain secs' where m: "merge_sections categorize_section objs secs = Some secs'" "length secs' = OUT_COUNT"
      "merged categorize_section (all_inputs objs) secs'"
    using merge_sections_ok [OF assms(1,2)] assms(3) by metis
  obtain hi where "hi < 2 ^ 64" "length (assign_addresses secs') = OUT_COUNT" "\<forall>i. relocated (secs' ! i) (assign_addresses secs' ! i)"
      "laid_out [1..<OUT_COUNT] (unat TEXT_BASE) hi (assign_addresses secs')"
    using assign_addresses_ok [OF m(2) merged_need(2,1) [OF m(3) assms(1) m(2)]] by blast
  then show ?thesis using m merged_relocated [OF m(3)] by auto
qed


text \<open>An object with four bytes of code, and its symbol.\<close>

definition demo_code :: ObjectFile where
  "demo_code = \<lparr>oid = 0, odata = (\<lambda>k. if k < 11 then [0, 46, 116, 101, 120, 116, 0, 0xAA, 0xBB, 0xCC, 0xDD] ! k else 0), osize = 11,
     shdrs = [\<lparr>sh_name = 0, sh_type = SHT_NULL, sh_flags = 0, sh_offset = 0, sh_size = 0, sh_link = 0, sh_info = 0, sh_addralign = 0\<rparr>,
              \<lparr>sh_name = 1, sh_type = SHT_PROGBITS, sh_flags = 6, sh_offset = 7, sh_size = 4, sh_link = 0, sh_info = 0, sh_addralign = 4\<rparr>],
     shstrtab = Some 0, strtab = None, symtab = None\<rparr>"

definition demo_sections :: "OutputSection list" where
  "demo_sections = map (\<lambda>nm. output_section_init (\<lambda>_. 0) nm SHT_PROGBITS 2) [[], ''.text'', ''.rodata'', ''.data'', ''.bss'']"


end
