(* ===== verification/As_Object.thy ===== *)
theory As_Object
  imports Ld_Section
begin

text \<open>
  The object files of the assembler: its section buffers (\<^verbatim>\<open>cmd/as/section.c\<close>), string tables (\<^verbatim>\<open>strtab.c\<close>), symbols (\<^verbatim>\<open>symtab.c\<close>), relocations (\<^verbatim>\<open>reloc.c\<close>) and
  literals (\<^verbatim>\<open>literal.c\<close>), and the writer of \<^verbatim>\<open>elf_write.c\<close>. A growing buffer is the list of its bytes, its capacity and the failure of \<^verbatim>\<open>malloc\<close> are left out; a pointer to a
  symbol is its index. The last part shows that the linker reads from the file what the assembler put in.
\<close>

subsection \<open>Sections\<close>

type_synonym SectionBuf = "u8 list"

definition section_init :: SectionBuf where "section_init = []"

definition section_emit8 :: "u8 \<Rightarrow> SectionBuf \<Rightarrow> SectionBuf" where
  "section_emit8 v sec = sec @ [v]"

definition section_emit32 :: "u32 \<Rightarrow> SectionBuf \<Rightarrow> SectionBuf" where
  "section_emit32 v sec = sec @ [ucast v, ucast (drop_bit 8 v), ucast (drop_bit 16 v), ucast (drop_bit 24 v)]"

definition section_emit64 :: "u64 \<Rightarrow> SectionBuf \<Rightarrow> SectionBuf" where
  "section_emit64 v sec = sec @ [ucast v, ucast (drop_bit 8 v), ucast (drop_bit 16 v), ucast (drop_bit 24 v),
     ucast (drop_bit 32 v), ucast (drop_bit 40 v), ucast (drop_bit 48 v), ucast (drop_bit 56 v)]"

definition section_emit_zeros :: "nat \<Rightarrow> SectionBuf \<Rightarrow> SectionBuf" where
  "section_emit_zeros n sec = sec @ replicate n 0"

datatype SectionId = SECTION_NONE | SECTION_TEXT | SECTION_DATA | SECTION_BSS

record AsSymbol =
  a_name :: "u8 list"
  a_section :: SectionId
  a_value :: u64
  a_binding :: u8
  a_type :: int
  a_size :: int
  a_defined :: bool
  a_explicit_local :: bool

record AsReloc =
  ar_section :: SectionId
  ar_offset :: u64
  ar_type :: int
  ar_symbol :: int
  ar_addend :: u64

record LiteralEntry =
  le_value :: u64
  le_symbol :: "u8 list option"
  le_offset :: u64

record as_st =
  text_section :: SectionBuf
  data_section :: SectionBuf
  bss_size :: u64
  text_section_name :: "u8 list option"
  text_section_is_code :: bool
  text_section_alignment :: int
  data_section_alignment :: int
  as_symbols :: "AsSymbol list"
  text_relocs :: "AsReloc list"
  data_relocs :: "AsReloc list"
  pool :: "LiteralEntry list"

text \<open>Four bytes of padding in code are a \<^verbatim>\<open>nop\<close>.\<close>

fun emit_nops :: "nat \<Rightarrow> SectionBuf \<Rightarrow> SectionBuf" where
  "emit_nops n sec = (if n \<ge> 4 then emit_nops (n - 4) (section_emit32 0xd503201f sec) else (section_emit8 0 ^^ n) sec)"

declare emit_nops.simps [simp del]

definition padding_to :: "int \<Rightarrow> SectionBuf \<Rightarrow> nat" where
  "padding_to pw sec = (let alignment = push_bit (nat pw) 1 :: u64; n = of_nat (length sec) in unat (((n + alignment - 1) AND NOT (alignment - 1)) - n))"

definition section_align :: "SectionId \<Rightarrow> int \<Rightarrow> as_st \<Rightarrow> as_st" where
  "section_align sec pw st =
     (if sec = SECTION_TEXT then
        let st = (if pw > text_section_alignment st then st\<lparr>text_section_alignment := pw\<rparr> else st);
            n = padding_to pw (text_section st)
        in st\<lparr>text_section := if text_section_is_code st then emit_nops n (text_section st) else section_emit_zeros n (text_section st)\<rparr>
      else if sec = SECTION_DATA then
        let st = (if pw > data_section_alignment st then st\<lparr>data_section_alignment := pw\<rparr> else st)
        in st\<lparr>data_section := section_emit_zeros (padding_to pw (data_section st)) (data_section st)\<rparr>
      else st)"

subsection \<open>Strings\<close>

definition strtab_init :: "u8 list" where "strtab_init = [0]"

definition strtab_add :: "u8 list \<Rightarrow> u8 list \<Rightarrow> u32 \<times> u8 list" where
  "strtab_add tab s = (of_nat (length tab), tab @ s @ [0])"

subsection \<open>Symbols\<close>

definition as_symtab_init :: "as_st \<Rightarrow> as_st" where "as_symtab_init st = st\<lparr>as_symbols := []\<rparr>"

definition as_symtab_lookup :: "u8 list \<Rightarrow> as_st \<Rightarrow> nat option" where
  "as_symtab_lookup nm st = find (\<lambda>i. a_name (as_symbols st ! i) = nm) [0..<length (as_symbols st)]"

definition as_symtab_add :: "u8 list \<Rightarrow> as_st \<Rightarrow> nat \<times> as_st" where
  "as_symtab_add nm st =
     (case as_symtab_lookup nm st of
        Some i \<Rightarrow> (i, st)
      | None \<Rightarrow>
          (length (as_symbols st),
           st\<lparr>as_symbols := as_symbols st @ [\<lparr>a_name = nm, a_section = SECTION_NONE, a_value = 0, a_binding = STB_LOCAL, a_type = 0, a_size = 0,
             a_defined = False, a_explicit_local = False\<rparr>]\<rparr>))"

definition symtab_set_binding :: "nat \<Rightarrow> u8 \<Rightarrow> as_st \<Rightarrow> as_st" where
  "symtab_set_binding i b st = st\<lparr>as_symbols := (as_symbols st)[i := (as_symbols st ! i)\<lparr>a_binding := b\<rparr>]\<rparr>"

definition symtab_set_type :: "nat \<Rightarrow> int \<Rightarrow> as_st \<Rightarrow> as_st" where
  "symtab_set_type i t st = st\<lparr>as_symbols := (as_symbols st)[i := (as_symbols st ! i)\<lparr>a_type := t\<rparr>]\<rparr>"

subsection \<open>Relocations and literals\<close>

definition reloc_init :: "as_st \<Rightarrow> as_st" where "reloc_init st = st\<lparr>text_relocs := [], data_relocs := []\<rparr>"

definition reloc_add :: "SectionId \<Rightarrow> u64 \<Rightarrow> int \<Rightarrow> int \<Rightarrow> u64 \<Rightarrow> as_st \<Rightarrow> as_st" where
  "reloc_add sec offset type idx addend st =
     (let r = \<lparr>ar_section = sec, ar_offset = offset, ar_type = type, ar_symbol = idx, ar_addend = addend\<rparr> in
      if sec = SECTION_TEXT then st\<lparr>text_relocs := r # text_relocs st\<rparr>
      else if sec = SECTION_DATA then st\<lparr>data_relocs := r # data_relocs st\<rparr>
      else st)"

definition literal_pool_init :: "as_st \<Rightarrow> as_st" where "literal_pool_init st = st\<lparr>pool := []\<rparr>"

definition literal_pool_add :: "(LiteralEntry \<Rightarrow> bool) \<Rightarrow> u64 \<Rightarrow> u8 list option \<Rightarrow> as_st \<Rightarrow> LiteralEntry \<times> as_st" where
  "literal_pool_add same v sm st =
     (case find same (pool st) of
        Some e \<Rightarrow> (e, st)
      | None \<Rightarrow> let e = \<lparr>le_value = v, le_symbol = sm, le_offset = of_nat (length (pool st)) * 8\<rparr> in (e, st\<lparr>pool := e # pool st\<rparr>))"

definition literal_pool_add_value :: "u64 \<Rightarrow> as_st \<Rightarrow> LiteralEntry \<times> as_st" where
  "literal_pool_add_value v = literal_pool_add (\<lambda>e. le_symbol e = None \<and> le_value e = v) v None"

definition literal_pool_add_symbol :: "u8 list \<Rightarrow> as_st \<Rightarrow> LiteralEntry \<times> as_st" where
  "literal_pool_add_symbol nm = literal_pool_add (\<lambda>e. le_symbol e = Some nm) 0 (Some nm)"

definition literal_pool_size :: "as_st \<Rightarrow> u64" where
  "literal_pool_size st = of_nat (length (pool st)) * 8"

subsection \<open>The file\<close>

definition SEC_TEXT :: nat where "SEC_TEXT = 1"
definition SEC_DATA :: nat where "SEC_DATA = 2"
definition SEC_BSS :: nat where "SEC_BSS = 3"
definition SEC_SYMTAB :: nat where "SEC_SYMTAB = 4"
definition SEC_STRTAB :: nat where "SEC_STRTAB = 5"
definition SEC_SHSTRTAB :: nat where "SEC_SHSTRTAB = 6"
definition SEC_RELA_TEXT :: nat where "SEC_RELA_TEXT = 7"
definition SEC_RELA_DATA :: nat where "SEC_RELA_DATA = 8"
definition SEC_COUNT :: nat where "SEC_COUNT = 9"
definition SHT_STRTAB :: u32 where "SHT_STRTAB = 3"
definition SHF_INFO_LINK :: u64 where "SHF_INFO_LINK = 64"

definition ELF64_ST_INFO :: "u8 \<Rightarrow> int \<Rightarrow> u8" where
  "ELF64_ST_INFO bnd type = push_bit 4 bnd OR word_of_int (type AND 0xf)"

definition ELF64_R_INFO :: "int \<Rightarrow> int \<Rightarrow> u64" where
  "ELF64_R_INFO idx type = push_bit 32 (word_of_int idx) OR word_of_int type"

definition as_align_up :: "u64 \<Rightarrow> u64 \<Rightarrow> u64" where
  "as_align_up val align = (val + align - 1) AND NOT (align - 1)"

definition defined_local :: "AsSymbol \<Rightarrow> bool" where
  "defined_local s \<longleftrightarrow> a_binding s = STB_LOCAL \<and> a_defined s"

definition elf_shndx :: "AsSymbol \<Rightarrow> u16" where
  "elf_shndx s =
     (case a_section s of SECTION_TEXT \<Rightarrow> of_nat SEC_TEXT | SECTION_DATA \<Rightarrow> of_nat SEC_DATA | SECTION_BSS \<Rightarrow> of_nat SEC_BSS
      | SECTION_NONE \<Rightarrow> if a_defined s then SHN_ABS else SHN_UNDEF)"

definition elf_symbol :: "u8 \<Rightarrow> u32 \<Rightarrow> AsSymbol \<Rightarrow> Elf64_Sym" where
  "elf_symbol bnd off s = \<lparr>st_name = off, st_info = ELF64_ST_INFO bnd (a_type s), st_shndx = elf_shndx s, st_value = a_value s, st_size = word_of_int (a_size s)\<rparr>"

definition section_symbol :: "u32 \<Rightarrow> nat \<Rightarrow> Elf64_Sym" where
  "section_symbol off k = \<lparr>st_name = off, st_info = ELF64_ST_INFO STB_LOCAL 3, st_shndx = of_nat k, st_value = 0, st_size = 0\<rparr>"

text \<open>The state of the loops over the symbols: string table, symbols written, and where each symbol went.\<close>

type_synonym emit_st = "u8 list \<times> Elf64_Sym list \<times> (nat \<Rightarrow> nat)"

definition emit_symbol :: "u8 \<Rightarrow> AsSymbol list \<Rightarrow> nat \<Rightarrow> emit_st \<Rightarrow> emit_st" where
  "emit_symbol bnd syms i = (\<lambda>(tab, es, m).
     let (off, tab) = strtab_add tab (a_name (syms ! i)) in (tab, es @ [elf_symbol bnd off (syms ! i)], m(i := length es)))"

definition emit_start :: emit_st where
  "emit_start =
     (let (x, tab) = strtab_add strtab_init (to_bytes ''$x''); (d, tab) = strtab_add tab (to_bytes ''$d''); (b, tab) = strtab_add tab (to_bytes ''.bss'')
      in (tab, [\<lparr>st_name = 0, st_info = 0, st_shndx = 0, st_value = 0, st_size = 0\<rparr>, section_symbol x SEC_TEXT, section_symbol d SEC_DATA, section_symbol b SEC_BSS],
          \<lambda>_. 0))"

definition emit_symbols :: "AsSymbol list \<Rightarrow> emit_st" where
  "emit_symbols syms =
     (let st = fold (emit_symbol STB_LOCAL syms) (filter (\<lambda>i. defined_local (syms ! i)) [0..<length syms]) emit_start
      in fold (emit_symbol STB_GLOBAL syms) (filter (\<lambda>i. \<not> defined_local (syms ! i)) [0..<length syms]) st)"

definition elf_rela :: "nat \<Rightarrow> (nat \<Rightarrow> nat) \<Rightarrow> AsReloc \<Rightarrow> Elf64_Rela" where
  "elf_rela nsyms m r =
     \<lparr>r_offset = ar_offset r,
      r_info = ELF64_R_INFO (if ar_symbol r \<ge> 0 \<and> ar_symbol r < int nsyms then int (m (nat (ar_symbol r))) else 0) (ar_type r),
      r_addend = ar_addend r\<rparr>"

definition sym_bytes :: "Elf64_Sym \<Rightarrow> u8 list" where
  "sym_bytes s = enc32 (st_name s) @ [st_info s, 0] @ enc16 (st_shndx s) @ enc64 (st_value s) @ enc64 (st_size s)"

definition rela_bytes :: "Elf64_Rela \<Rightarrow> u8 list" where
  "rela_bytes r = enc64 (r_offset r) @ enc64 (r_info r) @ enc64 (r_addend r)"

definition shdr_bytes :: "Elf64_Shdr \<times> u64 \<Rightarrow> u8 list" where
  "shdr_bytes = (\<lambda>(sh, entsize). enc32 (sh_name sh) @ enc32 (sh_type sh) @ enc64 (sh_flags sh) @ enc64 0 @ enc64 (sh_offset sh) @ enc64 (sh_size sh) @
     enc32 (sh_link sh) @ enc32 (sh_info sh) @ enc64 (sh_addralign sh) @ enc64 entsize)"

definition rel_ehdr_bytes :: "u64 \<Rightarrow> u8 list" where
  "rel_ehdr_bytes shoff =
     [0x7f, 69, 76, 70, 2, 1, 1, 0] @ replicate 8 0 @ enc16 1 @ enc16 183 @ enc32 1 @ enc64 0 @ enc64 0 @ enc64 shoff @ enc32 0 @
     enc16 64 @ enc16 0 @ enc16 0 @ enc16 64 @ enc16 (of_nat SEC_COUNT) @ enc16 (of_nat SEC_SHSTRTAB)"

definition text_name :: "as_st \<Rightarrow> u8 list" where
  "text_name st = (case text_section_name st of Some nm \<Rightarrow> nm | None \<Rightarrow> to_bytes ''.text'')"

text \<open>The names of the sections, in the order of the calls; \<^verbatim>\<open>snprintf\<close> cuts the sixth after 63 characters.\<close>

definition section_names :: "as_st \<Rightarrow> u8 list list" where
  "section_names st =
     [text_name st, to_bytes ''.data'', to_bytes ''.bss'', to_bytes ''.symtab'', to_bytes ''.strtab'', to_bytes ''.shstrtab'',
      take 63 (to_bytes ''.rela'' @ text_name st), to_bytes ''.rela.data'']"

definition add_names :: "u8 list list \<Rightarrow> u8 list \<Rightarrow> u32 list \<times> u8 list" where
  "add_names nms tab = fold (\<lambda>nm (offs, tab). let (off, tab) = strtab_add tab nm in (offs @ [off], tab)) nms ([], tab)"

text \<open>Offsets in the file.\<close>

record file_layout =
  data_off :: u64
  symtab_off :: u64
  strtab_off :: u64
  shstrtab_off :: u64
  rela_text_off :: u64
  rela_data_off :: u64
  shdr_off :: u64

definition object_layout :: "as_st \<Rightarrow> nat \<Rightarrow> nat \<Rightarrow> nat \<Rightarrow> file_layout" where
  "object_layout st nsym nstr nshstr =
     (let d = as_align_up (64 + of_nat (length (text_section st))) 8;
          sy = as_align_up (d + of_nat (length (data_section st))) 8;
          ss = sy + of_nat nsym * 24;
          sh = ss + of_nat nstr;
          rt = as_align_up (sh + of_nat nshstr) 8;
          rd = rt + of_nat (length (text_relocs st)) * 24;
          so = as_align_up (rd + of_nat (length (data_relocs st)) * 24) 8
      in \<lparr>data_off = d, symtab_off = sy, strtab_off = ss, shstrtab_off = sh, rela_text_off = rt, rela_data_off = rd, shdr_off = so\<rparr>)"

definition object_shdrs :: "as_st \<Rightarrow> u32 list \<Rightarrow> nat \<Rightarrow> nat \<Rightarrow> nat \<Rightarrow> nat \<Rightarrow> file_layout \<Rightarrow> (Elf64_Shdr \<times> u64) list" where
  "object_shdrs st nm nsym nlocals nstr nshstr l =
     [(\<lparr>sh_name = 0, sh_type = SHT_NULL, sh_flags = 0, sh_offset = 0, sh_size = 0, sh_link = 0, sh_info = 0, sh_addralign = 0\<rparr>, 0),
      (\<lparr>sh_name = nm ! 0, sh_type = SHT_PROGBITS, sh_flags = SHF_ALLOC OR SHF_EXECINSTR, sh_offset = 64, sh_size = of_nat (length (text_section st)), sh_link = 0, sh_info = 0,
        sh_addralign = (if text_section_alignment st > 2 then push_bit (nat (text_section_alignment st)) 1 else 4)\<rparr>, 0),
      (\<lparr>sh_name = nm ! 1, sh_type = SHT_PROGBITS, sh_flags = SHF_ALLOC OR SHF_WRITE, sh_offset = data_off l, sh_size = of_nat (length (data_section st)), sh_link = 0, sh_info = 0,
        sh_addralign = (if data_section_alignment st > 3 then push_bit (nat (data_section_alignment st)) 1 else 8)\<rparr>, 0),
      (\<lparr>sh_name = nm ! 2, sh_type = SHT_NOBITS, sh_flags = SHF_ALLOC OR SHF_WRITE, sh_offset = data_off l + of_nat (length (data_section st)), sh_size = bss_size st, sh_link = 0,
        sh_info = 0, sh_addralign = 8\<rparr>, 0),
      (\<lparr>sh_name = nm ! 3, sh_type = SHT_SYMTAB, sh_flags = 0, sh_offset = symtab_off l, sh_size = of_nat nsym * 24, sh_link = of_nat SEC_STRTAB, sh_info = of_nat (4 + nlocals),
        sh_addralign = 8\<rparr>, 24),
      (\<lparr>sh_name = nm ! 4, sh_type = SHT_STRTAB, sh_flags = 0, sh_offset = strtab_off l, sh_size = of_nat nstr, sh_link = 0, sh_info = 0, sh_addralign = 1\<rparr>, 0),
      (\<lparr>sh_name = nm ! 5, sh_type = SHT_STRTAB, sh_flags = 0, sh_offset = shstrtab_off l, sh_size = of_nat nshstr, sh_link = 0, sh_info = 0, sh_addralign = 1\<rparr>, 0),
      (\<lparr>sh_name = nm ! 6, sh_type = SHT_RELA, sh_flags = SHF_INFO_LINK, sh_offset = rela_text_off l, sh_size = of_nat (length (text_relocs st)) * 24, sh_link = of_nat SEC_SYMTAB,
        sh_info = of_nat SEC_TEXT, sh_addralign = 8\<rparr>, 24),
      (\<lparr>sh_name = nm ! 7, sh_type = SHT_RELA, sh_flags = SHF_INFO_LINK, sh_offset = rela_data_off l, sh_size = of_nat (length (data_relocs st)) * 24, sh_link = of_nat SEC_SYMTAB,
        sh_info = of_nat SEC_DATA, sh_addralign = 8\<rparr>, 24)]"

definition pad_to :: "u64 \<Rightarrow> u64 \<Rightarrow> u8 list" where
  "pad_to cur off = (if cur < off then replicate (unat (off - cur)) 0 else [])"

definition elf_write :: "as_st \<Rightarrow> u8 list" where
  "elf_write st =
     (let (nm, shstr) = add_names (section_names st) strtab_init;
          (str, syms, m) = emit_symbols (as_symbols st);
          nlocals = length (filter defined_local (as_symbols st));
          relas = (\<lambda>rs. map (elf_rela (length (as_symbols st)) m) (rev rs));
          l = object_layout st (length syms) (length str) (length shstr)
      in rel_ehdr_bytes (shdr_off l) @
         text_section st @ pad_to (64 + of_nat (length (text_section st))) (data_off l) @
         data_section st @ pad_to (data_off l + of_nat (length (data_section st))) (symtab_off l) @
         concat (map sym_bytes syms) @ str @ shstr @ pad_to (shstrtab_off l + of_nat (length shstr)) (rela_text_off l) @
         concat (map rela_bytes (relas (text_relocs st))) @ concat (map rela_bytes (relas (data_relocs st))) @
         pad_to (rela_data_off l + of_nat (length (data_relocs st)) * 24) (shdr_off l) @
         concat (map shdr_bytes (object_shdrs st nm (length syms) nlocals (length str) (length shstr) l)))"

subsection \<open>The layout of the file\<close>

lemma enc_struct_lengths [simp]: "length (sym_bytes s) = 24" "length (rela_bytes r) = 24" "length (shdr_bytes h) = 64" "length (rel_ehdr_bytes o') = 64"
  by (simp_all add: sym_bytes_def rela_bytes_def shdr_bytes_def rel_ehdr_bytes_def split: prod.split)

lemma length_concat_map: "(\<And>x. length (f x) = n) \<Longrightarrow> length (concat (map f xs)) = length xs * n"
  by (induction xs) auto

lemma drop_array:
  assumes "drop i F = concat (map f xs) @ r" "\<And>x. length (f x) = n" "k < length xs"
  shows "\<exists>r'. drop (i + n * k) F = f (xs ! k) @ r'"
proof -
  have "map f xs = map f (take k xs) @ f (xs ! k) # map f (drop (Suc k) xs)"
    using assms(3) by (metis id_take_nth_drop list.simps(9) map_append)
  then have "concat (map f xs) @ r = concat (map f (take k xs)) @ f (xs ! k) @ concat (map f (drop (Suc k) xs)) @ r" by simp
  moreover have "length (concat (map f (take k xs))) = n * k" using length_concat_map [of f n "take k xs"] assms(2,3) by simp
  ultimately have "drop (n * k) (concat (map f xs) @ r) = f (xs ! k) @ concat (map f (drop (Suc k) xs)) @ r" by simp
  then show ?thesis unfolding assms(1) [symmetric] by (metis add.commute drop_drop)
qed

lemma read_sym_bytes: "drop i F = sym_bytes s @ r \<Longrightarrow> read_sym (file_of F) i = s"
proof -
  assume d: "drop i F = sym_bytes s @ r"
  have dk: "drop (i + k) F = drop k (sym_bytes s @ r)" for k using d by (metis add.commute drop_drop)
  have "get_insn (file_of F) i = st_name s" by (rule get_insn_file) (simp add: d sym_bytes_def)
  moreover have "file_of F (i + 4) = st_info s" using file_of_drop [OF d, of 4] by (simp add: sym_bytes_def nth_append)
  moreover have "rd16 (file_of F) (i + 6) = st_shndx s" by (rule rd16_file) (simp add: dk sym_bytes_def)
  moreover have "rd64 (file_of F) (i + 8) = st_value s" by (rule rd64_file) (simp add: dk sym_bytes_def)
  moreover have "rd64 (file_of F) (i + 16) = st_size s" by (rule rd64_file) (simp add: dk sym_bytes_def)
  ultimately show ?thesis by (simp add: read_sym_def)
qed

lemma read_rela_bytes: "drop i F = rela_bytes x @ r \<Longrightarrow> read_rela (file_of F) i = x"
proof -
  assume d: "drop i F = rela_bytes x @ r"
  have dk: "drop (i + k) F = drop k (rela_bytes x @ r)" for k using d by (metis add.commute drop_drop)
  have "rd64 (file_of F) i = r_offset x" by (rule rd64_file) (simp add: d rela_bytes_def)
  moreover have "rd64 (file_of F) (i + 8) = r_info x" by (rule rd64_file) (simp add: dk rela_bytes_def)
  moreover have "rd64 (file_of F) (i + 16) = r_addend x" by (rule rd64_file) (simp add: dk rela_bytes_def)
  ultimately show ?thesis by (simp add: read_rela_def)
qed

lemma read_shdr_bytes: "drop i F = shdr_bytes (h, e) @ r \<Longrightarrow> read_shdr (file_of F) i = h"
proof -
  assume d: "drop i F = shdr_bytes (h, e) @ r"
  have dk: "drop (i + k) F = drop k (shdr_bytes (h, e) @ r)" for k using d by (metis add.commute drop_drop)
  have "get_insn (file_of F) i = sh_name h" by (rule get_insn_file) (simp add: d shdr_bytes_def)
  moreover have "get_insn (file_of F) (i + 4) = sh_type h" by (rule get_insn_file) (simp add: dk shdr_bytes_def)
  moreover have "rd64 (file_of F) (i + 8) = sh_flags h" by (rule rd64_file) (simp add: dk shdr_bytes_def)
  moreover have "rd64 (file_of F) (i + 24) = sh_offset h" by (rule rd64_file) (simp add: dk shdr_bytes_def)
  moreover have "rd64 (file_of F) (i + 32) = sh_size h" by (rule rd64_file) (simp add: dk shdr_bytes_def)
  moreover have "get_insn (file_of F) (i + 40) = sh_link h" by (rule get_insn_file) (simp add: dk shdr_bytes_def)
  moreover have "get_insn (file_of F) (i + 44) = sh_info h" by (rule get_insn_file) (simp add: dk shdr_bytes_def)
  moreover have "rd64 (file_of F) (i + 48) = sh_addralign h" by (rule rd64_file) (simp add: dk shdr_bytes_def)
  ultimately show ?thesis by (simp add: read_shdr_def)
qed

lemma as_align_up_8:
  assumes "unat x + 8 \<le> 2 ^ 64"
  shows "unat x \<le> unat (as_align_up x 8)" "unat (as_align_up x 8) < unat x + 8"
proof -
  have "pow2 8" using pow2I [of 3] by simp
  moreover have "as_align_up x 8 = align_up x 8" by (simp add: as_align_up_def align_up_def)
  ultimately show "unat x \<le> unat (as_align_up x 8)" "unat (as_align_up x 8) < unat x + 8" using align_up_correct [of 8 x] assms by simp_all
qed

lemma unat_add_of_nat: "unat x + n < 2 ^ 64 \<Longrightarrow> unat (x + of_nat n :: u64) = unat x + n"
proof -
  assume "unat x + n < 2 ^ 64"
  then show ?thesis using unat_plus_if_size [of x "of_nat n"] unat_of_nat_small [of n, where 'a = 64] by simp
qed

lemma object_layout_ok:
  assumes "64 + length (text_section st) + length (data_section st) + 24 * nsym + nstr + nshstr + 24 * length (text_relocs st) + 24 * length (data_relocs st) < 2 ^ 31"
    and "object_layout st nsym nstr nshstr = l"
  shows "64 + length (text_section st) \<le> unat (data_off l)" "unat (data_off l) + length (data_section st) \<le> unat (symtab_off l)"
    "unat (strtab_off l) = unat (symtab_off l) + 24 * nsym" "unat (shstrtab_off l) = unat (strtab_off l) + nstr"
    "unat (shstrtab_off l) + nshstr \<le> unat (rela_text_off l)" "unat (rela_data_off l) = unat (rela_text_off l) + 24 * length (text_relocs st)"
    "unat (rela_data_off l) + 24 * length (data_relocs st) \<le> unat (shdr_off l)" "unat (shdr_off l) < 2 ^ 32"
proof -
  have l: "data_off l = as_align_up (64 + of_nat (length (text_section st))) 8" "symtab_off l = as_align_up (data_off l + of_nat (length (data_section st))) 8"
      "strtab_off l = symtab_off l + of_nat (nsym * 24)" "shstrtab_off l = strtab_off l + of_nat nstr" "rela_text_off l = as_align_up (shstrtab_off l + of_nat nshstr) 8"
      "rela_data_off l = rela_text_off l + of_nat (length (text_relocs st) * 24)" "shdr_off l = as_align_up (rela_data_off l + of_nat (length (data_relocs st) * 24)) 8"
    using assms(2) by (auto simp: object_layout_def Let_def)
  have t: "unat (64 + of_nat (length (text_section st)) :: u64) = 64 + length (text_section st)" using assms(1) by (simp add: unat_add_of_nat)
  have d: "64 + length (text_section st) \<le> unat (data_off l)" "unat (data_off l) < 64 + length (text_section st) + 8"
    using as_align_up_8 [of "64 + of_nat (length (text_section st))"] assms(1) t by (simp_all add: l(1))
  have d2: "unat (data_off l + of_nat (length (data_section st))) = unat (data_off l) + length (data_section st)" using assms(1) d by (simp add: unat_add_of_nat)
  have s: "unat (data_off l) + length (data_section st) \<le> unat (symtab_off l)" "unat (symtab_off l) < unat (data_off l) + length (data_section st) + 8"
    using as_align_up_8 [of "data_off l + of_nat (length (data_section st))"] assms(1) d d2 by (simp_all add: l(2))
  have u: "unat (strtab_off l) = unat (symtab_off l) + 24 * nsym" unfolding l(3) using assms(1) d s by (subst unat_add_of_nat) simp_all
  have v: "unat (shstrtab_off l) = unat (strtab_off l) + nstr" unfolding l(4) using assms(1) d s u by (subst unat_add_of_nat) simp_all
  have v2: "unat (shstrtab_off l + of_nat nshstr) = unat (shstrtab_off l) + nshstr" using assms(1) d s u v by (subst unat_add_of_nat) simp_all
  have r: "unat (shstrtab_off l) + nshstr \<le> unat (rela_text_off l)" "unat (rela_text_off l) < unat (shstrtab_off l) + nshstr + 8"
    using as_align_up_8 [of "shstrtab_off l + of_nat nshstr"] assms(1) d s u v v2 by (simp_all add: l(5))
  have w: "unat (rela_data_off l) = unat (rela_text_off l) + 24 * length (text_relocs st)" unfolding l(6) using assms(1) d s u v r by (subst unat_add_of_nat) simp_all
  have w2: "unat (rela_data_off l + of_nat (length (data_relocs st) * 24)) = unat (rela_data_off l) + 24 * length (data_relocs st)"
    using assms(1) d s u v r w by (subst unat_add_of_nat) simp_all
  have x: "unat (rela_data_off l) + 24 * length (data_relocs st) \<le> unat (shdr_off l)" "unat (shdr_off l) < unat (rela_data_off l) + 24 * length (data_relocs st) + 8"
    using as_align_up_8 [of "rela_data_off l + of_nat (length (data_relocs st) * 24)"] assms(1) d s u v r w w2 by (simp_all add: l(7))
  show "64 + length (text_section st) \<le> unat (data_off l)" "unat (data_off l) + length (data_section st) \<le> unat (symtab_off l)"
    "unat (strtab_off l) = unat (symtab_off l) + 24 * nsym" "unat (shstrtab_off l) = unat (strtab_off l) + nstr"
    "unat (shstrtab_off l) + nshstr \<le> unat (rela_text_off l)" "unat (rela_data_off l) = unat (rela_text_off l) + 24 * length (text_relocs st)"
    "unat (rela_data_off l) + 24 * length (data_relocs st) \<le> unat (shdr_off l)" by (fact d(1) s(1) u v r(1) w x(1))+
  show "unat (shdr_off l) < 2 ^ 32" using assms(1) d s u v r w x by simp
qed

text \<open>The parts of the file.\<close>

definition obj_str :: "as_st \<Rightarrow> u8 list" where "obj_str st = fst (emit_symbols (as_symbols st))"
definition obj_syms :: "as_st \<Rightarrow> Elf64_Sym list" where "obj_syms st = fst (snd (emit_symbols (as_symbols st)))"
definition obj_index :: "as_st \<Rightarrow> nat \<Rightarrow> nat" where "obj_index st = snd (snd (emit_symbols (as_symbols st)))"
definition obj_names :: "as_st \<Rightarrow> u32 list" where "obj_names st = fst (add_names (section_names st) strtab_init)"
definition obj_shstr :: "as_st \<Rightarrow> u8 list" where "obj_shstr st = snd (add_names (section_names st) strtab_init)"
definition obj_layout :: "as_st \<Rightarrow> file_layout" where
  "obj_layout st = object_layout st (length (obj_syms st)) (length (obj_str st)) (length (obj_shstr st))"
definition obj_relas :: "as_st \<Rightarrow> AsReloc list \<Rightarrow> Elf64_Rela list" where
  "obj_relas st rs = map (elf_rela (length (as_symbols st)) (obj_index st)) (rev rs)"
definition obj_shdrs :: "as_st \<Rightarrow> (Elf64_Shdr \<times> u64) list" where
  "obj_shdrs st = object_shdrs st (obj_names st) (length (obj_syms st)) (length (filter defined_local (as_symbols st))) (length (obj_str st)) (length (obj_shstr st)) (obj_layout st)"

lemma elf_write_eq:
  "elf_write st = rel_ehdr_bytes (shdr_off (obj_layout st)) @
     text_section st @ pad_to (64 + of_nat (length (text_section st))) (data_off (obj_layout st)) @
     data_section st @ pad_to (data_off (obj_layout st) + of_nat (length (data_section st))) (symtab_off (obj_layout st)) @
     concat (map sym_bytes (obj_syms st)) @ obj_str st @ obj_shstr st @ pad_to (shstrtab_off (obj_layout st) + of_nat (length (obj_shstr st))) (rela_text_off (obj_layout st)) @
     concat (map rela_bytes (obj_relas st (text_relocs st))) @ concat (map rela_bytes (obj_relas st (data_relocs st))) @
     pad_to (rela_data_off (obj_layout st) + of_nat (length (data_relocs st)) * 24) (shdr_off (obj_layout st)) @ concat (map shdr_bytes (obj_shdrs st))"
  by (simp add: elf_write_def Let_def split_beta obj_str_def obj_syms_def obj_index_def obj_names_def obj_shstr_def obj_layout_def obj_relas_def obj_shdrs_def)

lemma length_pad_to: "unat cur = c \<Longrightarrow> c \<le> unat off \<Longrightarrow> length (pad_to cur off) = unat off - c"
  by (auto simp: pad_to_def word_less_nat_alt unat_sub word_le_nat_alt)

lemma obj_shdrs_length [simp]: "length (obj_shdrs st) = 9"
  by (simp add: obj_shdrs_def object_shdrs_def)

text \<open>The file is small enough for its offsets.\<close>

definition object_fits :: "as_st \<Rightarrow> bool" where
  "object_fits st \<longleftrightarrow> 64 + length (text_section st) + length (data_section st) + 24 * length (obj_syms st) + length (obj_str st) + length (obj_shstr st) +
     24 * length (text_relocs st) + 24 * length (data_relocs st) < 2 ^ 31"

lemma object_parts:
  assumes "object_fits st"
  shows "drop 64 (elf_write st) = text_section st @ drop (64 + length (text_section st)) (elf_write st)"
    "\<exists>r. drop (unat (data_off (obj_layout st))) (elf_write st) = data_section st @ r"
    "\<exists>r. drop (unat (symtab_off (obj_layout st))) (elf_write st) = concat (map sym_bytes (obj_syms st)) @ r"
    "\<exists>r. drop (unat (strtab_off (obj_layout st))) (elf_write st) = obj_str st @ r"
    "\<exists>r. drop (unat (shstrtab_off (obj_layout st))) (elf_write st) = obj_shstr st @ r"
    "\<exists>r. drop (unat (rela_text_off (obj_layout st))) (elf_write st) = concat (map rela_bytes (obj_relas st (text_relocs st))) @ r"
    "\<exists>r. drop (unat (rela_data_off (obj_layout st))) (elf_write st) = concat (map rela_bytes (obj_relas st (data_relocs st))) @ r"
    "drop (unat (shdr_off (obj_layout st))) (elf_write st) = concat (map shdr_bytes (obj_shdrs st))"
    "length (elf_write st) = unat (shdr_off (obj_layout st)) + 576" "unat (shdr_off (obj_layout st)) < 2 ^ 32"
proof -
  define l where "l = obj_layout st"
  note o = object_layout_ok [OF assms [unfolded object_fits_def] obj_layout_def [symmetric], folded l_def]
  have p1: "length (pad_to (64 + of_nat (length (text_section st))) (data_off l)) = unat (data_off l) - (64 + length (text_section st))"
    using o assms by (intro length_pad_to) (simp_all add: unat_add_of_nat object_fits_def)
  have p2: "length (pad_to (data_off l + of_nat (length (data_section st))) (symtab_off l)) = unat (symtab_off l) - (unat (data_off l) + length (data_section st))"
    using o by (intro length_pad_to unat_add_of_nat) simp_all
  have p3: "length (pad_to (shstrtab_off l + of_nat (length (obj_shstr st))) (rela_text_off l)) = unat (rela_text_off l) - (unat (shstrtab_off l) + length (obj_shstr st))"
    using o by (intro length_pad_to unat_add_of_nat) simp_all
  have p4: "length (pad_to (rela_data_off l + of_nat (length (data_relocs st)) * 24) (shdr_off l)) = unat (shdr_off l) - (unat (rela_data_off l) + 24 * length (data_relocs st))"
    using o unat_add_of_nat [of "rela_data_off l" "length (data_relocs st) * 24"] by (intro length_pad_to) simp_all
  have s: "length (concat (map sym_bytes (obj_syms st))) = 24 * length (obj_syms st)" using length_concat_map [of sym_bytes 24] by simp
  have r: "length (concat (map rela_bytes (obj_relas st rs))) = 24 * length rs" for rs
    using length_concat_map [of rela_bytes 24 "obj_relas st rs"] by (simp add: obj_relas_def)
  have h: "length (concat (map shdr_bytes (obj_shdrs st))) = 576" using length_concat_map [of shdr_bytes 64 "obj_shdrs st"] by simp
  note F = elf_write_eq [of st, folded l_def] and L = p1 p2 p3 p4 s r h
  show "drop 64 (elf_write st) = text_section st @ drop (64 + length (text_section st)) (elf_write st)" by (simp add: F)
  show "\<exists>r. drop (unat (data_off (obj_layout st))) (elf_write st) = data_section st @ r"
    unfolding F l_def [symmetric] using o L by simp
  show "\<exists>r. drop (unat (symtab_off (obj_layout st))) (elf_write st) = concat (map sym_bytes (obj_syms st)) @ r"
    unfolding F l_def [symmetric] using o L by simp
  show "\<exists>r. drop (unat (strtab_off (obj_layout st))) (elf_write st) = obj_str st @ r"
    unfolding F l_def [symmetric] using o L by simp
  show "\<exists>r. drop (unat (shstrtab_off (obj_layout st))) (elf_write st) = obj_shstr st @ r"
    unfolding F l_def [symmetric] using o L by simp
  show "\<exists>r. drop (unat (rela_text_off (obj_layout st))) (elf_write st) = concat (map rela_bytes (obj_relas st (text_relocs st))) @ r"
    unfolding F l_def [symmetric] using o L by simp
  show "\<exists>r. drop (unat (rela_data_off (obj_layout st))) (elf_write st) = concat (map rela_bytes (obj_relas st (data_relocs st))) @ r"
    unfolding F l_def [symmetric] using o L by simp
  show "drop (unat (shdr_off (obj_layout st))) (elf_write st) = concat (map shdr_bytes (obj_shdrs st))"
    unfolding F l_def [symmetric] using o L by simp
  show "length (elf_write st) = unat (shdr_off (obj_layout st)) + 576" unfolding F l_def [symmetric] using o L by simp
  show "unat (shdr_off (obj_layout st)) < 2 ^ 32" using o(8) by (simp add: l_def)
qed

subsection \<open>What the linker reads\<close>

lemma rel_ehdr_read:
  assumes "F = rel_ehdr_bytes so @ r"
  shows "elf_check_header (file_of F)" "rd64 (file_of F) 40 = so" "rd16 (file_of F) 60 = 9" "rd16 (file_of F) 62 = 6"
proof -
  have "rd16 (file_of F) 16 = 1" by (rule rd16_file) (simp add: assms rel_ehdr_bytes_def)
  moreover have "rd16 (file_of F) 18 = 183" by (rule rd16_file) (simp add: assms rel_ehdr_bytes_def)
  ultimately show "elf_check_header (file_of F)" by (simp add: elf_check_header_def file_of_def assms rel_ehdr_bytes_def)
  show "rd64 (file_of F) 40 = so" by (rule rd64_file) (simp add: assms rel_ehdr_bytes_def)
  show "rd16 (file_of F) 60 = 9" by (rule rd16_file) (simp add: assms rel_ehdr_bytes_def SEC_COUNT_def)
  show "rd16 (file_of F) 62 = 6" by (rule rd16_file) (simp add: assms rel_ehdr_bytes_def SEC_SHSTRTAB_def)
qed

lemma read_array:
  assumes "drop off F = concat (map f xs) @ r" "\<And>x. length (f x) = n" "\<And>i x r. drop i F = f x @ r \<Longrightarrow> rd i = g x"
  shows "map (\<lambda>j. rd (off + n * j)) [0..<length xs] = map g xs"
proof (rule nth_equalityI)
  fix k assume "k < length (map (\<lambda>j. rd (off + n * j)) [0..<length xs])"
  then have k: "k < length xs" by simp
  obtain r' where "drop (off + n * k) F = f (xs ! k) @ r'" using drop_array [OF assms(1,2) k] by blast
  then show "map (\<lambda>j. rd (off + n * j)) [0..<length xs] ! k = map g xs ! k" using assms(3) k by simp
qed simp

lemma unat_of_nat_24: "24 * n < 2 ^ 31 \<Longrightarrow> unat (of_nat n * 24 :: u64) = 24 * n"
  using unat_of_nat_small [of "n * 24", where 'a = 64] by simp

text \<open>The object file as the linker holds it.\<close>

definition object_of :: "nat \<Rightarrow> as_st \<Rightarrow> ObjectFile" where
  "object_of i st = \<lparr>oid = i, odata = file_of (elf_write st), osize = length (elf_write st), shdrs = map fst (obj_shdrs st),
     shstrtab = Some (unat (shstrtab_off (obj_layout st))), strtab = Some (unat (strtab_off (obj_layout st))), symtab = Some (obj_syms st)\<rparr>"

lemma object_of_simps [simp]:
  "odata (object_of i st) = file_of (elf_write st)" "osize (object_of i st) = length (elf_write st)" "shdrs (object_of i st) = map fst (obj_shdrs st)"
  "shstrtab (object_of i st) = Some (unat (shstrtab_off (obj_layout st)))" "strtab (object_of i st) = Some (unat (strtab_off (obj_layout st)))"
  "symtab (object_of i st) = Some (obj_syms st)"
  by (simp_all add: object_of_def)

lemma obj_reads:
  assumes "object_fits st"
  shows "map (\<lambda>j. read_shdr (file_of (elf_write st)) (unat (shdr_off (obj_layout st)) + 64 * j)) [0..<9] = map fst (obj_shdrs st)"
    "map (\<lambda>j. read_sym (file_of (elf_write st)) (unat (symtab_off (obj_layout st)) + 24 * j)) [0..<length (obj_syms st)] = obj_syms st"
proof -
  let ?F = "elf_write st" and ?l = "obj_layout st"
  have "map (\<lambda>j. read_shdr (file_of ?F) (unat (shdr_off ?l) + 64 * j)) [0..<length (obj_shdrs st)] = map fst (obj_shdrs st)"
    by (rule read_array [of _ ?F shdr_bytes _ "[]"]) (use object_parts(8) [OF assms] read_shdr_bytes in \<open>auto simp: split_paired_all\<close>)
  then show "map (\<lambda>j. read_shdr (file_of ?F) (unat (shdr_off ?l) + 64 * j)) [0..<9] = map fst (obj_shdrs st)" by simp
  obtain r where r: "drop (unat (symtab_off ?l)) ?F = concat (map sym_bytes (obj_syms st)) @ r" using object_parts(3) [OF assms] by blast
  show "map (\<lambda>j. read_sym (file_of ?F) (unat (symtab_off ?l) + 24 * j)) [0..<length (obj_syms st)] = obj_syms st"
    using read_array [OF r, of 24 "read_sym (file_of ?F)" id] read_sym_bytes by simp
qed

lemma elf_read_object:
  assumes "object_fits st"
  shows "elf_read_memory i (file_of (elf_write st)) (of_nat (length (elf_write st))) =
    Some (object_of i st)"
proof -
  define F where "F = elf_write st"
  define l where "l = obj_layout st"
  note p = object_parts [OF assms, folded F_def l_def]
  note h = rel_ehdr_read [OF elf_write_eq [of st, folded F_def l_def]]
  have len: "unat (of_nat (length F) :: u64) = length F" using p(9,10) by (intro unat_of_nat_small) simp
  have fit: "\<not> of_nat (length F) < shdr_off l + 576"
    using unat_add_of_nat [of "shdr_off l" 576] p(9,10) len by (simp add: word_less_nat_alt)
  note shs = obj_reads(1) [OF assms, folded F_def l_def] and syms = obj_reads(2) [OF assms, folded F_def l_def]
  have n: "unat (of_nat (length (obj_syms st)) * 24 :: u64) div 24 = length (obj_syms st)"
    using unat_of_nat_24 [of "length (obj_syms st)"] assms by (simp add: object_fits_def)
  have "find_symtab (file_of F) (map fst (obj_shdrs st)) = (Some (obj_syms st), Some (unat (strtab_off l)))"
    using syms n by (simp add: find_symtab_def obj_shdrs_def object_shdrs_def SHT_NULL_def SHT_PROGBITS_def SHT_SYMTAB_def SHT_NOBITS_def SEC_STRTAB_def l_def)
  moreover have "sh_offset (map fst (obj_shdrs st) ! 6) = shstrtab_off l" by (simp add: obj_shdrs_def object_shdrs_def l_def)
  ultimately show ?thesis using h fit shs len p(9) unfolding object_of_def F_def [symmetric] l_def [symmetric]
    by (simp add: elf_read_memory_def elf_parse_sections_def Let_def word_less_nat_alt)
qed

subsection \<open>Names and symbols\<close>

text \<open>A string of a table: its offset, and that it ends with a zero.\<close>

definition string_at :: "u8 list \<Rightarrow> u32 \<Rightarrow> u8 list \<Rightarrow> bool" where
  "string_at tab off s \<longleftrightarrow> (\<exists>k r. off = of_nat k \<and> 0 < k \<and> k < length tab \<and> drop k tab = s @ 0 # r)"

lemma string_at_append: "string_at tab off s \<Longrightarrow> string_at (tab @ ys) off s"
proof -
  assume "string_at tab off s"
  then obtain k r where "off = of_nat k" "0 < k" "k < length tab" "drop k tab = s @ 0 # r" by (auto simp: string_at_def)
  then show ?thesis unfolding string_at_def by (intro exI [of _ k] exI [of _ "r @ ys"]) simp
qed

lemma string_at_new: "tab \<noteq> [] \<Longrightarrow> string_at (tab @ s @ [0]) (of_nat (length tab)) s"
  unfolding string_at_def by (intro exI [of _ "length tab"]) simp

lemma string_at_unat:
  assumes "string_at tab off s" "length tab < 2 ^ 31"
  shows "\<exists>r. 0 < unat off \<and> drop (unat off) tab = s @ 0 # r"
proof -
  obtain k r where k: "off = of_nat k" "0 < k" "k < length tab" "drop k tab = s @ 0 # r" using assms(1) by (auto simp: string_at_def)
  then have "unat off = k" using assms(2) by (simp add: unat_of_nat_small)
  then show ?thesis using k by auto
qed

lemma add_names_ok:
  assumes "tab \<noteq> []"
  shows "length (fst (add_names nms tab)) = length nms \<and> snd (add_names nms tab) \<noteq> [] \<and>
    (\<forall>k < length nms. string_at (snd (add_names nms tab)) (fst (add_names nms tab) ! k) (nms ! k))"
proof (induction nms rule: rev_induct)
  case (snoc nm nms)
  let ?a = "add_names nms tab"
  have "add_names (nms @ [nm]) tab = (fst ?a @ [of_nat (length (snd ?a))], snd ?a @ nm @ [0])"
    by (simp add: add_names_def strtab_add_def split_beta)
  then show ?case using snoc string_at_append string_at_new [of "snd ?a" nm] by (auto simp: nth_append less_Suc_eq)
qed (simp add: add_names_def assms)

definition bound_as :: "AsSymbol \<Rightarrow> u8" where
  "bound_as s = (if defined_local s then STB_LOCAL else STB_GLOBAL)"

definition emitted :: "AsSymbol list \<Rightarrow> nat set \<Rightarrow> emit_st \<Rightarrow> bool" where
  "emitted syms is = (\<lambda>(tab, es, m). tab \<noteq> [] \<and> finite is \<and> length es = 4 + card is \<and> inj_on m is \<and>
     take 4 es = fst (snd emit_start) \<and> (\<forall>i \<in> is. 4 \<le> m i \<and> m i < length es \<and> (\<exists>off. es ! m i = elf_symbol (bound_as (syms ! i)) off (syms ! i) \<and> string_at tab off (a_name (syms ! i)))))"

lemma emit_symbol_step:
  assumes "emitted syms is st" "i \<notin> is" "b = bound_as (syms ! i)"
  shows "emitted syms (insert i is) (emit_symbol b syms i st)"
proof -
  obtain tab es m where st: "st = (tab, es, m)" by (cases st) auto
  let ?tab = "tab @ a_name (syms ! i) @ [0]"
  have e: "emit_symbol b syms i st = (?tab, es @ [elf_symbol b (of_nat (length tab)) (syms ! i)], m(i := length es))"
    by (simp add: st emit_symbol_def strtab_add_def)
  have inj: "inj_on (m(i := length es)) (insert i is)" 
  proof -
    have "inj_on m is" "length es \<notin> m ` is" using assms(1) by (auto simp: emitted_def st)
    then show ?thesis using assms(2) by (auto simp: inj_on_fun_updI fun_upd_image)
  qed
  have old: "\<exists>off. (es @ x) ! m j = elf_symbol (bound_as (syms ! j)) off (syms ! j) \<and> string_at ?tab off (a_name (syms ! j))" if "j \<in> is" for j x
    using assms(1) that string_at_append unfolding emitted_def st by (fastforce simp: nth_append)
  have "string_at ?tab (of_nat (length tab)) (a_name (syms ! i))" using assms(1) by (intro string_at_new) (simp add: emitted_def st)
  then have new: "\<exists>off. (es @ [elf_symbol b (of_nat (length tab)) (syms ! i)]) ! length es = elf_symbol (bound_as (syms ! i)) off (syms ! i) \<and>
      string_at ?tab off (a_name (syms ! i))" using assms(3) by auto
  show ?thesis using assms(1,2) [unfolded st emitted_def] inj old new unfolding e unfolding emitted_def by auto
qed

lemma emit_fold:
  assumes "emitted syms is st" "distinct ks" "set ks \<inter> is = {}" "\<forall>i \<in> set ks. b = bound_as (syms ! i)"
  shows "emitted syms (is \<union> set ks) (fold (emit_symbol b syms) ks st)"
  using assms
proof (induction ks arbitrary: st "is")
  case (Cons k ks)
  then have "emitted syms (insert k is \<union> set ks) (fold (emit_symbol b syms) ks (emit_symbol b syms k st))"
    by (intro Cons.IH emit_symbol_step) auto
  then show ?case by simp
qed simp

lemma emit_symbols_ok: "emitted syms {0..<length syms} (emit_symbols syms)"
proof -
  let ?l = "filter (\<lambda>i. defined_local (syms ! i)) [0..<length syms]" and ?g = "filter (\<lambda>i. \<not> defined_local (syms ! i)) [0..<length syms]"
  have "emitted syms {} emit_start" by (simp add: emitted_def emit_start_def strtab_add_def strtab_init_def)
  then have "emitted syms ({} \<union> set ?l) (fold (emit_symbol STB_LOCAL syms) ?l emit_start)" by (rule emit_fold) (auto simp: bound_as_def)
  then have "emitted syms ({} \<union> set ?l \<union> set ?g) (emit_symbols syms)" unfolding emit_symbols_def Let_def by (rule emit_fold) (auto simp: bound_as_def)
  moreover have "{} \<union> set ?l \<union> set ?g = {0..<length syms}" by auto
  ultimately show ?thesis by simp
qed

lemma obj_symbol:
  assumes "k < length (as_symbols st)"
  shows "obj_index st k < length (obj_syms st)" "\<exists>off. obj_syms st ! obj_index st k = elf_symbol (bound_as (as_symbols st ! k)) off (as_symbols st ! k) \<and>
    string_at (obj_str st) off (a_name (as_symbols st ! k))"
  using emit_symbols_ok [of "as_symbols st"] assms by (auto simp: emitted_def obj_index_def obj_syms_def obj_str_def split: prod.splits)

text \<open>The symbol table has nothing else.\<close>

lemma obj_symbol_cover:
  assumes "j < length (obj_syms st)"
  shows "j < 4 \<and> obj_syms st ! j = fst (snd emit_start) ! j \<or> (\<exists>k < length (as_symbols st). j = obj_index st k)"
proof -
  let ?n = "length (as_symbols st)"
  have e: "length (obj_syms st) = 4 + ?n" "inj_on (obj_index st) {0..<?n}" "take 4 (obj_syms st) = fst (snd emit_start)" "obj_index st ` {0..<?n} \<subseteq> {4..<4 + ?n}"
    using emit_symbols_ok [of "as_symbols st"] by (auto simp: emitted_def obj_index_def obj_syms_def split_beta)
  have "obj_index st ` {0..<?n} = {4..<4 + ?n}" by (rule card_subset_eq [OF _ e(4)]) (simp_all add: card_image [OF e(2)])
  moreover have "j \<ge> 4 \<Longrightarrow> j \<in> {4..<4 + ?n}" using assms e(1) by simp
  ultimately have "j \<ge> 4 \<Longrightarrow> \<exists>k < ?n. j = obj_index st k" by (metis (no_types, lifting) atLeastLessThan_iff imageE)
  moreover have "j < 4 \<Longrightarrow> obj_syms st ! j = fst (snd emit_start) ! j" unfolding e(3) [symmetric] by simp
  ultimately show ?thesis by (cases "j < 4") auto
qed

lemma c_string_at:
  assumes "odata obj = file_of F" "osize obj = length F" "drop off F = s @ 0 # r" "0 \<notin> set s"
  shows "c_string obj off = s"
proof -
  have "map (file_of F) [off..<length F] = drop off F" by (rule nth_equalityI) (auto simp: file_of_def)
  moreover have "takeWhile (\<lambda>c. c \<noteq> 0) (s @ 0 # r) = s" using assms(4) by (induction s) auto
  ultimately show ?thesis using assms(1-3) by (simp add: c_string_def)
qed

lemma table_string:
  assumes "odata obj = file_of F" "osize obj = length F" "drop t F = tab @ q" "length tab < 2 ^ 31" "string_at tab off s" "0 \<notin> set s"
  shows "0 < unat off" "c_string obj (t + unat off) = s"
proof -
  obtain r where r: "0 < unat off" "drop (unat off) tab = s @ 0 # r" using string_at_unat [OF assms(5,4)] by blast
  have "unat off \<le> length tab" using r(2) by (metis append_is_Nil_conv drop_all list.distinct(1) nat_le_linear)
  then have "drop (unat off) (tab @ q) = s @ 0 # (r @ q)" using r(2) by simp
  then have "drop (t + unat off) F = s @ 0 # (r @ q)" unfolding assms(3) [symmetric] by (simp add: add.commute)
  then show "c_string obj (t + unat off) = s" using c_string_at [OF assms(1,2)] assms(6) by blast
  show "0 < unat off" by (fact r(1))
qed

text \<open>The bytes of a section of a file that was read, and a relocation of it, taken apart.\<close>

definition section_contents :: "ObjectFile \<Rightarrow> nat \<Rightarrow> u8 list" where
  "section_contents obj j = map (\<lambda>k. odata obj (unat (sh_offset (shdrs obj ! j)) + k)) [0..<unat (sh_size (shdrs obj ! j))]"

definition rela_parts :: "Elf64_Rela \<Rightarrow> u64 \<times> int \<times> int \<times> u64" where
  "rela_parts r = (r_offset r, ELF64_R_SYM (r_info r), ELF64_R_TYPE (r_info r), r_addend r)"

definition reloc_ok :: "as_st \<Rightarrow> AsReloc \<Rightarrow> bool" where
  "reloc_ok st r \<longleftrightarrow> 0 \<le> ar_symbol r \<and> ar_symbol r < int (length (as_symbols st)) \<and> 0 \<le> ar_type r \<and> ar_type r < 2 ^ 31"

lemma file_of_section: "drop off F = xs @ r \<Longrightarrow> map (\<lambda>k. file_of F (off + k)) [0..<length xs] = xs"
  by (rule nth_equalityI) (simp_all add: file_of_drop)

lemma r_info_parts:
  assumes "0 \<le> a" "a < 2 ^ 31" "0 \<le> t" "t < 2 ^ 31"
  shows "ELF64_R_SYM (ELF64_R_INFO a t) = a" "ELF64_R_TYPE (ELF64_R_INFO a t) = t"
proof -
  have "take_bit 31 a = a" "take_bit 31 t = t" using assms by (simp_all add: take_bit_int_eq_self)
  then have b: "bit a k \<Longrightarrow> k < 31" "bit t k \<Longrightarrow> k < 31" for k by (metis bit_take_bit_iff)+
  have "drop_bit 32 (ELF64_R_INFO a t) = word_of_int a"
    by (rule bit_word_eqI) (auto simp: ELF64_R_INFO_def bit_simps dest: b)
  then show "ELF64_R_SYM (ELF64_R_INFO a t) = a"
    using assms by (simp add: ELF64_R_SYM_def unsigned_of_int take_bit_int_eq_self int32_range)
  have "ucast (ELF64_R_INFO a t) = (word_of_int t :: u32)"
    by (rule bit_word_eqI) (auto simp: ELF64_R_INFO_def bit_simps dest: b)
  then have "int32 (uint (ELF64_R_INFO a t)) = int32 t" unfolding int32_def ucast_eq by simp
  then show "ELF64_R_TYPE (ELF64_R_INFO a t) = t" using assms by (simp add: ELF64_R_TYPE_def int32_range)
qed

lemma st_info_bind: "ELF64_ST_BIND (ELF64_ST_INFO (bound_as s) t) = bound_as s"
proof -
  have "bit (15 :: int) k \<Longrightarrow> k < 4" for k using mask_eq_exp_minus_1 [of 4, where 'a = int] bit_mask_iff [of 4 k, where 'a = int] by simp
  then have "drop_bit 4 (push_bit 4 b OR word_of_int (t AND 0xf)) = (b :: u8)" if "b = 0 \<or> b = 1" for b
    using that by (intro bit_word_eqI) (auto simp: bit_simps)
  then show ?thesis by (simp add: ELF64_ST_BIND_def ELF64_ST_INFO_def bound_as_def STB_LOCAL_def STB_GLOBAL_def)
qed

lemma obj_index_small:
  assumes "object_fits st" "k < length (as_symbols st)"
  shows "int (obj_index st k) < 2 ^ 31"
  using obj_symbol(1) [OF assms(2)] assms(1) by (simp add: object_fits_def)

lemma obj_relas_parts:
  assumes "object_fits st" "\<forall>r \<in> set rs. reloc_ok st r"
  shows "map rela_parts (obj_relas st rs) = map (\<lambda>r. (ar_offset r, int (obj_index st (nat (ar_symbol r))), ar_type r, ar_addend r)) (rev rs)"
  unfolding obj_relas_def using assms obj_index_small [OF assms(1)]
  by (auto simp: rela_parts_def elf_rela_def reloc_ok_def r_info_parts)

lemma object_relas:
  assumes "object_fits st"
  shows "get_rela_for_section (object_of i st) SEC_TEXT = obj_relas st (text_relocs st)" "get_rela_for_section (object_of i st) SEC_DATA = obj_relas st (data_relocs st)"
proof -
  let ?F = "elf_write st" and ?l = "obj_layout st"
  have read: "map (\<lambda>k. read_rela (file_of ?F) (off + 24 * k)) [0..<unat (of_nat (length rs) * 24 :: u64) div 24] = obj_relas st rs"
    if "drop off ?F = concat (map rela_bytes (obj_relas st rs)) @ r" "24 * length rs < 2 ^ 31" for off rs r
    using read_array [OF that(1), of 24 "read_rela (file_of ?F)" id] read_rela_bytes unat_of_nat_24 [OF that(2)] by (simp add: obj_relas_def)
  obtain r r' where r: "drop (unat (rela_text_off ?l)) ?F = concat (map rela_bytes (obj_relas st (text_relocs st))) @ r"
      "drop (unat (rela_data_off ?l)) ?F = concat (map rela_bytes (obj_relas st (data_relocs st))) @ r'"
    using object_parts(6,7) [OF assms] by blast
  note sh = get_rela_for_section_def obj_shdrs_def object_shdrs_def SHT_NULL_def SHT_PROGBITS_def SHT_SYMTAB_def SHT_NOBITS_def SHT_STRTAB_def SHT_RELA_def
    SEC_TEXT_def SEC_DATA_def int32_range
  show "get_rela_for_section (object_of i st) SEC_TEXT = obj_relas st (text_relocs st)" using read [OF r(1)] assms by (simp add: sh object_fits_def)
  show "get_rela_for_section (object_of i st) SEC_DATA = obj_relas st (data_relocs st)" using read [OF r(2)] assms by (simp add: sh object_fits_def)
qed

lemma object_section_name:
  assumes "object_fits st" "k < 6" "0 \<notin> set (section_names st ! k)"
  shows "section_name (object_of i st) (Suc k) = Some (section_names st ! k)"
proof -
  have n: "string_at (obj_shstr st) (obj_names st ! k) (section_names st ! k)"
    using add_names_ok [of strtab_init "section_names st"] assms(2) by (simp add: obj_shstr_def obj_names_def strtab_init_def section_names_def)
  obtain q where "drop (unat (shstrtab_off (obj_layout st))) (elf_write st) = obj_shstr st @ q" using object_parts(5) [OF assms(1)] by blast
  then have "c_string (object_of i st) (unat (shstrtab_off (obj_layout st)) + unat (obj_names st ! k)) = section_names st ! k"
    using n assms by (intro table_string(2)) (simp_all add: object_fits_def)
  moreover have "sh_name (map fst (obj_shdrs st) ! Suc k) = obj_names st ! k"
    using assms(2) by (auto simp: obj_shdrs_def object_shdrs_def less_Suc_eq numeral_eq_Suc)
  ultimately show ?thesis using assms(2) by (simp add: section_name_def)
qed

lemma object_symbol:
  assumes "object_fits st" "k < length (as_symbols st)" "0 \<notin> set (a_name (as_symbols st ! k))"
  shows "symbol_name (object_of i st) (obj_index st k) = Some (a_name (as_symbols st ! k))"
    "\<exists>off. obj_syms st ! obj_index st k = elf_symbol (bound_as (as_symbols st ! k)) off (as_symbols st ! k)"
proof -
  obtain off where off: "obj_syms st ! obj_index st k = elf_symbol (bound_as (as_symbols st ! k)) off (as_symbols st ! k)"
      "string_at (obj_str st) off (a_name (as_symbols st ! k))" using obj_symbol(2) [OF assms(2)] by blast
  obtain q where q: "drop (unat (strtab_off (obj_layout st))) (elf_write st) = obj_str st @ q" using object_parts(4) [OF assms(1)] by blast
  have len: "length (obj_str st) < 2 ^ 31" using assms(1) by (simp add: object_fits_def)
  have "c_string (object_of i st) (unat (strtab_off (obj_layout st)) + unat off) = a_name (as_symbols st ! k)" "0 < unat off"
    using table_string [OF _ _ q len off(2) assms(3), of "object_of i st"] by simp_all
  then show "symbol_name (object_of i st) (obj_index st k) = Some (a_name (as_symbols st ! k))"
    using off(1) obj_symbol(1) [OF assms(2)] by (auto simp: symbol_name_def elf_symbol_def)
  show "\<exists>off. obj_syms st ! obj_index st k = elf_symbol (bound_as (as_symbols st ! k)) off (as_symbols st ! k)" using off(1) by blast
qed

lemma object_bytes:
  assumes "object_fits st"
  shows "section_contents (object_of i st) SEC_TEXT = text_section st" "section_contents (object_of i st) SEC_DATA = data_section st"
proof -
  let ?F = "elf_write st" and ?l = "obj_layout st"
  obtain r where r: "drop (unat (data_off ?l)) ?F = data_section st @ r" using object_parts(2) [OF assms] by blast
  have n: "unat (of_nat (length (text_section st)) :: u64) = length (text_section st)" "unat (of_nat (length (data_section st)) :: u64) = length (data_section st)"
    using assms by (simp_all add: object_fits_def unat_of_nat_small)
  show "section_contents (object_of i st) SEC_TEXT = text_section st"
    using file_of_section [OF object_parts(1) [OF assms]] n by (simp add: section_contents_def obj_shdrs_def object_shdrs_def SEC_TEXT_def)
  show "section_contents (object_of i st) SEC_DATA = data_section st"
    using file_of_section [OF r] n by (simp add: section_contents_def obj_shdrs_def object_shdrs_def SEC_DATA_def)
qed

text \<open>Property C28. The linker reads from the file of the assembler what was assembled. When the file stays below two gigabytes, no name holds a zero byte, and each relocation names a
  symbol, then \<^verbatim>\<open>elf_read_memory\<close> accepts the bytes of \<^verbatim>\<open>elf_write\<close>; the names and the contents of the code and data sections come back, the zeroed section has its size; each
  symbol has a place of its own in the symbol table, found there with its name, value and section, local exactly when it is a defined local; and the relocations of the
  two sections are those that were added, in the order of their adding, their symbols replaced by those places.\<close>

theorem object_roundtrip:
  assumes "object_fits st" "\<forall>s \<in> set (as_symbols st). 0 \<notin> set (a_name s)" "0 \<notin> set (text_name st)"
    "\<forall>r \<in> set (text_relocs st). reloc_ok st r" "\<forall>r \<in> set (data_relocs st). reloc_ok st r"
  shows "\<exists>obj syms. elf_read_memory i (file_of (elf_write st)) (of_nat (length (elf_write st))) = Some obj \<and> symtab obj = Some syms \<and>
    section_name obj SEC_TEXT = Some (text_name st) \<and> section_name obj SEC_DATA = Some (to_bytes ''.data'') \<and>
    section_contents obj SEC_TEXT = text_section st \<and> section_contents obj SEC_DATA = data_section st \<and>
    sh_type (shdrs obj ! SEC_BSS) = SHT_NOBITS \<and> sh_size (shdrs obj ! SEC_BSS) = bss_size st \<and>
    inj_on (obj_index st) {0..<length (as_symbols st)} \<and>
    (\<forall>k < length (as_symbols st). let s = as_symbols st ! k; e = syms ! obj_index st k in
      symbol_name obj (obj_index st k) = Some (a_name s) \<and> st_value e = a_value s \<and> st_shndx e = elf_shndx s \<and>
      ELF64_ST_BIND (st_info e) = (if defined_local s then STB_LOCAL else STB_GLOBAL)) \<and>
    map rela_parts (get_rela_for_section obj SEC_TEXT) =
      map (\<lambda>r. (ar_offset r, int (obj_index st (nat (ar_symbol r))), ar_type r, ar_addend r)) (rev (text_relocs st)) \<and>
    map rela_parts (get_rela_for_section obj SEC_DATA) =
      map (\<lambda>r. (ar_offset r, int (obj_index st (nat (ar_symbol r))), ar_type r, ar_addend r)) (rev (data_relocs st))"
proof (intro exI conjI allI impI)
  show "elf_read_memory i (file_of (elf_write st)) (of_nat (length (elf_write st))) = Some (object_of i st)" by (rule elf_read_object) fact
  show "symtab (object_of i st) = Some (obj_syms st)" by simp
  show "section_name (object_of i st) SEC_TEXT = Some (text_name st)"
    using object_section_name [OF assms(1), of 0] assms(3) by (simp add: section_names_def SEC_TEXT_def)
  have d: "section_names st ! 1 = to_bytes ''.data''" "0 \<notin> set (to_bytes ''.data'')" "SEC_DATA = Suc 1"
    by (simp_all add: section_names_def to_bytes_def SEC_DATA_def)
  show "section_name (object_of i st) SEC_DATA = Some (to_bytes ''.data'')"
    using object_section_name [OF assms(1), of 1 i] unfolding d(1,3) using d(2) by simp
  show "section_contents (object_of i st) SEC_TEXT = text_section st" "section_contents (object_of i st) SEC_DATA = data_section st"
    by (rule object_bytes, fact)+
  show "sh_type (shdrs (object_of i st) ! SEC_BSS) = SHT_NOBITS" "sh_size (shdrs (object_of i st) ! SEC_BSS) = bss_size st"
    by (simp_all add: obj_shdrs_def object_shdrs_def SEC_BSS_def)
  show "inj_on (obj_index st) {0..<length (as_symbols st)}"
    using emit_symbols_ok [of "as_symbols st"] by (simp add: emitted_def obj_index_def split_beta)
  show "map rela_parts (get_rela_for_section (object_of i st) SEC_TEXT) =
      map (\<lambda>r. (ar_offset r, int (obj_index st (nat (ar_symbol r))), ar_type r, ar_addend r)) (rev (text_relocs st))"
    "map rela_parts (get_rela_for_section (object_of i st) SEC_DATA) =
      map (\<lambda>r. (ar_offset r, int (obj_index st (nat (ar_symbol r))), ar_type r, ar_addend r)) (rev (data_relocs st))"
    using obj_relas_parts [OF assms(1)] assms(4,5) by (simp_all add: object_relas [OF assms(1)])
next
  fix k assume k: "k < length (as_symbols st)"
  have z: "0 \<notin> set (a_name (as_symbols st ! k))" using assms(2) k by simp
  show "let s = as_symbols st ! k; e = obj_syms st ! obj_index st k in
      symbol_name (object_of i st) (obj_index st k) = Some (a_name s) \<and> st_value e = a_value s \<and> st_shndx e = elf_shndx s \<and>
      ELF64_ST_BIND (st_info e) = (if defined_local s then STB_LOCAL else STB_GLOBAL)"
    using object_symbol(1) [OF assms(1) k z, of i] object_symbol(2) [OF assms(1) k z] by (auto simp: elf_symbol_def st_info_bind) (simp_all add: bound_as_def)
qed

text \<open>A function that calls another: one instruction to patch, a defined global symbol and an undefined one.\<close>

definition call_object :: as_st where
  "call_object =
     \<lparr>text_section = section_emit32 0x14000000 section_init, data_section = [], bss_size = 16, text_section_name = None, text_section_is_code = True,
      text_section_alignment = 2, data_section_alignment = 0,
      as_symbols = [\<lparr>a_name = to_bytes ''main'', a_section = SECTION_TEXT, a_value = 0, a_binding = STB_GLOBAL, a_type = 2, a_size = 4, a_defined = True, a_explicit_local = False\<rparr>,
        \<lparr>a_name = to_bytes ''f'', a_section = SECTION_NONE, a_value = 0, a_binding = STB_LOCAL, a_type = 0, a_size = 0, a_defined = False, a_explicit_local = False\<rparr>],
      text_relocs = [\<lparr>ar_section = SECTION_TEXT, ar_offset = 0, ar_type = 282, ar_symbol = 1, ar_addend = 0\<rparr>], data_relocs = [], pool = []\<rparr>"

lemma call_object_ok:
  "length (text_section call_object) = 4" "length (data_section call_object) = 0" "length (obj_syms call_object) = 6" "length (obj_str call_object) = 19"
  "length (obj_shstr call_object) = 66" "length (text_relocs call_object) = 1" "length (data_relocs call_object) = 0"
  "\<forall>s \<in> set (as_symbols call_object). 0 \<notin> set (a_name s)" "0 \<notin> set (text_name call_object)"
  "obj_index call_object 1 = 5"
  by code_simp+

theorem object_roundtrip_witness:
  "\<exists>obj. elf_read_memory 0 (file_of (elf_write call_object)) (of_nat (length (elf_write call_object))) = Some obj \<and>
     section_contents obj SEC_TEXT = [0, 0, 0, 20] \<and> symbol_name obj 5 = Some (to_bytes ''f'') \<and>
     map rela_parts (get_rela_for_section obj SEC_TEXT) = [(0, 5, 282, 0)]"
proof -
  have fits: "object_fits call_object" unfolding object_fits_def call_object_ok by simp
  have rel: "\<forall>r \<in> set (text_relocs call_object). reloc_ok call_object r" "\<forall>r \<in> set (data_relocs call_object). reloc_ok call_object r"
    by (simp_all add: call_object_def reloc_ok_def)
  have v: "text_section call_object = [0, 0, 0, 20]" "as_symbols call_object ! 1 = \<lparr>a_name = to_bytes ''f'', a_section = SECTION_NONE, a_value = 0, a_binding = STB_LOCAL, a_type = 0,
      a_size = 0, a_defined = False, a_explicit_local = False\<rparr>" "length (as_symbols call_object) = 2"
      "text_relocs call_object = [\<lparr>ar_section = SECTION_TEXT, ar_offset = 0, ar_type = 282, ar_symbol = 1, ar_addend = 0\<rparr>]"
    by (simp_all add: call_object_def section_emit32_def section_init_def)
  show ?thesis using object_roundtrip [OF fits call_object_ok(8,9) rel, of 0] v call_object_ok(10) by (auto simp: Let_def dest: spec [of _ 1])
qed

end
