(* ===== verification/Ld_Archive.thy ===== *)
theory Ld_Archive
  imports As_Object Libc_Number
begin

text \<open>
  Archives: the archiver \<^verbatim>\<open>cmd/ar/ar.c\<close>, which writes them, and the reader of the linker, \<^verbatim>\<open>archive_open\<close> of \<^verbatim>\<open>cmd/ld/archive.c\<close>. A file is the list of its bytes; opening and
  reading of files are left out. The reader runs over sizes it takes from the file, so its loop may not end; \<open>None\<close> is a call of \<^verbatim>\<open>error\<close> or a loop that does not end.
\<close>

subsection \<open>The archiver\<close>

record Member =
  mb_name :: "u8 list"
  mb_data :: "u8 list"
  mb_offset :: nat

definition ar_magic :: "u8 list" where "ar_magic = to_bytes ''!<arch>'' @ [10]"

text \<open>The part of a path behind the last slash.\<close>

definition member_name :: "u8 list \<Rightarrow> u8 list" where
  "member_name path = rev (takeWhile (\<lambda>c. c \<noteq> 47) (rev path))"

definition add_member :: "u8 list \<times> u8 list \<Rightarrow> Member list \<Rightarrow> Member list" where
  "add_member = (\<lambda>(path, d) ms. ms @ [\<lparr>mb_name = member_name path, mb_data = d, mb_offset = 0\<rparr>])"

definition string_from :: "u8 list \<Rightarrow> nat \<Rightarrow> u8 list" where
  "string_from F i = takeWhile (\<lambda>c. c \<noteq> 0) (drop i F)"

definition exported :: "Elf64_Sym \<Rightarrow> bool" where
  "exported e \<longleftrightarrow> (ELF64_ST_BIND (st_info e) = STB_GLOBAL \<or> ELF64_ST_BIND (st_info e) = STB_WEAK) \<and> st_shndx e \<noteq> SHN_UNDEF"

text \<open>The names a member offers, in the order of its symbol table, whose first entry is skipped.\<close>

definition extract_symbols :: "u8 list \<Rightarrow> u8 list list" where
  "extract_symbols F =
     (let d = file_of F in
      if length F < 64 \<or> \<not> (d 0 = 0x7f \<and> d 1 = 69 \<and> d 2 = 76 \<and> d 3 = 70) then []
      else if d 4 \<noteq> 2 then []
      else let shoff = rd64 d 40; shentsize = rd16 d 58; shnum = unat (rd16 d 60) in
        if shoff = 0 \<or> shnum = 0 then []
        else case find (\<lambda>i. get_insn d (unat shoff + i * unat shentsize + 4) = SHT_SYMTAB) [0..<shnum] of
            None \<Rightarrow> []
          | Some i \<Rightarrow>
              let sh = unat shoff + i * unat shentsize;
                  stab = unat (rd64 d (sh + 24));
                  link = get_insn d (sh + 40);
                  strs = unat (rd64 d (unat shoff + unat (link * ucast shentsize) + 24));
                  n = nat (int32 (uint (rd64 d (sh + 32)) div 24))
              in concat (map (\<lambda>j. let e = read_sym d (stab + 24 * j) in if exported e then [string_from F (strs + unat (st_name e))] else []) [1..<n]))"

definition write_be32 :: "u32 \<Rightarrow> u8 list" where
  "write_be32 v = [ucast (drop_bit 24 v), ucast (drop_bit 16 v), ucast (drop_bit 8 v), ucast v]"

text \<open>The number as \<^verbatim>\<open>printf\<close> shows it.\<close>

definition format_lu :: "nat \<Rightarrow> u8 list" where "format_lu n = rev (itoa_digits (int n))"

definition write_header :: "u8 list \<Rightarrow> nat \<Rightarrow> u8 list" where
  "write_header nm sz =
     (let field = take 15 nm @ (if nm \<noteq> [47] then [47] else []);
          sizebuf = take 10 (format_lu sz)
      in field @ replicate (48 - length field) 32 @ sizebuf @ replicate (10 - length sizebuf) 32 @ [96, 10])"

definition even_pad :: "nat \<Rightarrow> u8 list" where "even_pad n = (if odd n then [10] else [])"

definition ar_symbols :: "Member list \<Rightarrow> (u8 list \<times> nat) list" where
  "ar_symbols ms = concat (map (\<lambda>k. map (\<lambda>nm. (nm, k)) (extract_symbols (mb_data (ms ! k)))) [0..<length ms])"

definition symtab_size :: "(u8 list \<times> nat) list \<Rightarrow> nat" where
  "symtab_size syms = 4 + length syms * 4 + sum_list (map (\<lambda>s. length (fst s) + 1) syms)"

fun place_members :: "nat \<Rightarrow> Member list \<Rightarrow> Member list" where
  "place_members off [] = []"
| "place_members off (m # ms) =
     m\<lparr>mb_offset := off\<rparr> # place_members (off + 60 + length (mb_data m) + (if odd (length (mb_data m)) then 1 else 0)) ms"

definition ar_index :: "Member list \<Rightarrow> (u8 list \<times> nat) list \<Rightarrow> u8 list" where
  "ar_index ms syms = write_be32 (of_nat (length syms)) @ concat (map (\<lambda>s. write_be32 (of_nat (mb_offset (ms ! snd s)))) syms) @ concat (map (\<lambda>s. fst s @ [0]) syms)"

definition member_bytes :: "Member \<Rightarrow> u8 list" where
  "member_bytes m = write_header (mb_name m) (length (mb_data m)) @ mb_data m @ even_pad (length (mb_data m))"

text \<open>\<^verbatim>\<open>main\<close>: the bytes of the archive of the files, given as paths with their contents.\<close>

definition ar_write :: "(u8 list \<times> u8 list) list \<Rightarrow> u8 list" where
  "ar_write files =
     (let ms = fold add_member files [];
          syms = ar_symbols ms;
          n = symtab_size syms;
          off = (if syms \<noteq> [] then 8 + 60 + n + (if odd n then 1 else 0) else 8);
          ms = place_members off ms
      in ar_magic @ (if syms \<noteq> [] then write_header [47] n @ ar_index ms syms @ even_pad n else []) @ concat (map member_bytes ms))"

subsection \<open>The reader\<close>

definition read_be32 :: "bytes \<Rightarrow> nat \<Rightarrow> u32" where
  "read_be32 d i = push_bit 24 (ucast (d i)) OR push_bit 16 (ucast (d (i + 1))) OR push_bit 8 (ucast (d (i + 2))) OR ucast (d (i + 3))"

definition parse_ar_size :: "u8 list \<Rightarrow> u64" where
  "parse_ar_size field = fst (strtoul (take 10 field) 10)"

definition parse_ar_name :: "u8 list \<Rightarrow> nat \<Rightarrow> (nat \<times> u64) option \<Rightarrow> u8 list" where
  "parse_ar_name F i stab =
     (let field = take 16 (drop i F);
          plain = rev (dropWhile (\<lambda>c. c = 32) (rev (takeWhile (\<lambda>c. c \<noteq> 47) field)));
          offset = fst (strtoul (drop (i + 1) F) 10)
      in if file_of F i = 47 \<and> isdigit (file_of F (i + 1)) then
           case stab of
             None \<Rightarrow> plain
           | Some (pos, sz) \<Rightarrow>
               if offset < sz then
                 let s = string_from F (pos + unat offset)
                 in if 47 \<in> set s then takeWhile (\<lambda>c. c \<noteq> 47) s else takeWhile (\<lambda>c. c \<noteq> 10) s
               else plain
         else plain)"

record ar_entry =
  e_name :: "u8 list"
  e_pos :: nat
  e_size :: u64
  e_offset :: u64

record ar_scan =
  sc_entries :: "ar_entry list"
  sc_symtab :: "(nat \<times> u64) option"
  sc_strtab :: "(nat \<times> u64) option"

definition scan_member :: "u8 list \<Rightarrow> u64 \<Rightarrow> u64 \<Rightarrow> ar_scan \<Rightarrow> ar_scan" where
  "scan_member F offset member_size sc =
     (let i = unat offset; d = file_of F in
      if d i = 47 \<and> d (i + 1) = 32 then sc\<lparr>sc_symtab := Some (i + 60, member_size)\<rparr>
      else if d i = 47 \<and> d (i + 1) = 47 then sc\<lparr>sc_strtab := Some (i + 60, member_size)\<rparr>
      else sc\<lparr>sc_entries := sc_entries sc @ [\<lparr>e_name = parse_ar_name F i (sc_strtab sc), e_pos = i + 60, e_size = member_size, e_offset = offset\<rparr>]\<rparr>)"

definition next_member :: "u64 \<Rightarrow> u64 \<Rightarrow> u64" where
  "next_member offset member_size = (let n = offset + (60 + member_size) in if n AND 1 \<noteq> 0 then n + 1 else n)"

partial_function (option) archive_scan :: "u8 list \<Rightarrow> u64 \<Rightarrow> ar_scan \<Rightarrow> ar_scan option" where
  "archive_scan F offset sc =
     (if offset + 60 \<le> of_nat (length F) then
        if file_of F (unat offset + 58) \<noteq> 96 \<or> file_of F (unat offset + 59) \<noteq> 10 then Some sc
        else let member_size = parse_ar_size (drop (unat offset + 48) F)
             in archive_scan F (next_member offset member_size) (scan_member F offset member_size sc)
      else Some sc)"

definition find_member :: "ar_entry list \<Rightarrow> u32 \<Rightarrow> int" where
  "find_member es off = (case find (\<lambda>j. e_offset (es ! j) = ucast off) [0..<length es] of Some j \<Rightarrow> int j | None \<Rightarrow> -1)"

text \<open>The index from its entry \<open>i\<close> on; \<open>npos\<close> is the next name.\<close>

primrec read_index :: "u8 list \<Rightarrow> ar_entry list \<Rightarrow> nat \<Rightarrow> nat \<Rightarrow> nat \<Rightarrow> nat \<Rightarrow> (u8 list \<times> int) list" where
  "read_index F es opos npos i 0 = []"
| "read_index F es opos npos i (Suc n) =
     (let nm = string_from F npos
      in (nm, find_member es (read_be32 (file_of F) (opos + unat (of_nat i * 4 :: u32)))) # read_index F es opos (npos + (length nm + 1)) (i + 1) n)"

definition archive_index :: "u8 list \<Rightarrow> ar_scan \<Rightarrow> (u8 list \<times> int) list" where
  "archive_index F sc =
     (case sc_symtab sc of
        None \<Rightarrow> []
      | Some (pos, sz) \<Rightarrow>
          if sz < 4 then []
          else let n = read_be32 (file_of F) pos in
            if sz \<ge> ucast (4 + n * 4) then read_index F (sc_entries sc) (pos + 4) (pos + 4 + unat (n * 4)) 0 (unat n) else [])"

definition archive_open :: "u8 list \<Rightarrow> Archive option" where
  "archive_open F =
     (if length F < 8 then None
      else if take 8 F \<noteq> ar_magic then None
      else do {
        sc \<leftarrow> archive_scan F 8 \<lparr>sc_entries = [], sc_symtab = None, sc_strtab = None\<rparr>;
        Some \<lparr>members = map (\<lambda>e. \<lparr>m_data = (\<lambda>i. file_of F (e_pos e + i)), m_size = e_size e, m_extracted = False\<rparr>) (sc_entries sc),
              asymbols = archive_index F sc\<rparr> })"

subsection \<open>Headers\<close>

lemma itoa_digits_length:
  assumes "0 \<le> n" "n < 10 ^ Suc k"
  shows "length (itoa_digits n) \<le> Suc k"
  using assms
proof (induction k arbitrary: n)
  case 0
  then show ?case by (simp add: itoa_digits_rec)
next
  case (Suc k)
  then have "length (itoa_digits (n div 10)) \<le> Suc k" by (intro Suc.IH) (simp_all add: div_less_iff_less_mult mult.commute)
  then show ?case using Suc.prems by (simp add: itoa_digits_rec [of n])
qed

lemma strtoul_format:
  shows "fst (strtoul (format_lu n @ replicate k 32) 10) = of_nat n"
proof -
  obtain d ds where d: "format_lu n = (48 + word_of_int d) # ds" "0 \<le> d" "d < 10" using hd_itoa_digits [of "int n"] by (auto simp: format_lu_def)
  note c = isdigit_digit [OF d(2,3)]
  have "digit_value 32 = None" by (simp add: digit_value_def isdigit_def islower_def isupper_def)
  then have "strtoul_loop 10 v (replicate k 32) = (v, replicate k 32)" for v by (cases k) simp_all
  then have "strtoul_loop 10 0 (format_lu n @ replicate k 32) = (of_nat n, replicate k 32)"
    using strtoul_loop_append [OF strtoul_itoa_digits [of "int n"], of "replicate k 32"] by (simp add: format_lu_def)
  then show ?thesis using c by (simp add: strtoul_def Let_def d(1) peek_def)
qed

lemma length_write_header [simp]: "length (write_header nm sz) = 60"
  by (auto simp: write_header_def Let_def)

text \<open>A size below ten digits comes back.\<close>

lemma parse_size_header:
  assumes "sz < 2 ^ 32" "drop i F = write_header nm sz @ r"
  shows "parse_ar_size (drop (i + 48) F) = of_nat sz"
proof -
  have "length (format_lu sz) \<le> 10" using itoa_digits_length [of "int sz" 9] assms(1) by (simp add: format_lu_def)
  moreover have "drop (i + 48) F = drop 48 (write_header nm sz @ r)" using assms(2) by (metis add.commute drop_drop)
  ultimately have "take 10 (drop (i + 48) F) = format_lu sz @ replicate (10 - length (format_lu sz)) 32"
    by (auto simp: write_header_def Let_def)
  then show ?thesis by (simp add: parse_ar_size_def strtoul_format)
qed

lemma header_end:
  assumes "drop i F = write_header nm sz @ r"
  shows "file_of F (i + 58) = 96" "file_of F (i + 59) = 10"
proof -
  obtain xs where xs: "write_header nm sz = xs @ [96, 10]" by (auto simp: write_header_def Let_def)
  then have "length xs = 58" using length_write_header [of nm sz] by simp
  then have "write_header nm sz ! 58 = 96" "write_header nm sz ! 59 = 10" by (simp_all add: xs nth_append)
  then show "file_of F (i + 58) = 96" "file_of F (i + 59) = 10" using file_of_drop [OF assms] by simp_all
qed

lemma header_symtab:
  assumes "drop i F = write_header [47] sz @ r"
  shows "file_of F i = 47" "file_of F (i + 1) = 32"
  using file_of_drop [OF assms, of 0] file_of_drop [OF assms, of 1] by (simp_all add: write_header_def Let_def nth_append)

lemma header_name:
  assumes "drop i F = write_header nm sz @ r" "nm \<noteq> []" "47 \<notin> set nm"
  shows "file_of F i \<noteq> 47" "parse_ar_name F i st = rev (dropWhile (\<lambda>c. c = 32) (rev (take 15 nm)))"
proof -
  have h: "write_header nm sz = take 15 nm @ 47 # drop (Suc (length (take 15 nm))) (write_header nm sz)" using assms(3) by (auto simp: write_header_def Let_def)
  have "file_of F i = nm ! 0" using file_of_drop [OF assms(1), of 0] assms(2) arg_cong [OF h, of "\<lambda>l. l ! 0"] by (cases nm) simp_all
  then show n: "file_of F i \<noteq> 47" using assms(2,3) by (cases nm) auto
  have "takeWhile (\<lambda>c. c \<noteq> 47) (take 15 nm @ 47 # ys) = take 15 nm" for ys using assms(3) by (subst takeWhile_append2) (auto dest: in_set_takeD)
  moreover have "\<exists>ys. take 16 (drop i F) = take 15 nm @ 47 # ys"
  proof -
    obtain zs where "drop i F = take 15 nm @ 47 # zs" using assms(1) h by (metis append_Cons append_assoc)
    moreover have "16 - length (take 15 nm) = Suc (15 - length (take 15 nm))" by simp
    ultimately show ?thesis by (simp add: min_def)
  qed
  ultimately show "parse_ar_name F i st = rev (dropWhile (\<lambda>c. c = 32) (rev (take 15 nm)))" using n by (auto simp: parse_ar_name_def Let_def)
qed

subsection \<open>Members\<close>

definition short_name :: "u8 list \<Rightarrow> u8 list" where
  "short_name nm = rev (dropWhile (\<lambda>c. c = 32) (rev (take 15 nm)))"

definition entry_of :: "Member \<Rightarrow> ar_entry" where
  "entry_of m = \<lparr>e_name = short_name (mb_name m), e_pos = mb_offset m + 60, e_size = of_nat (length (mb_data m)), e_offset = of_nat (mb_offset m)\<rparr>"

lemma length_member_bytes: "length (member_bytes m) = 60 + length (mb_data m) + (if odd (length (mb_data m)) then 1 else 0)"
  by (simp add: member_bytes_def even_pad_def)

lemma next_member_of_nat: "even off \<Longrightarrow> next_member (of_nat off) (of_nat n) = of_nat (off + 60 + n + (if odd n then 1 else 0))"
proof -
  assume "even off"
  then have e: "even (off + (60 + n)) \<longleftrightarrow> even n" by simp
  have w: "of_nat off + (60 + of_nat n) = (of_nat (off + (60 + n)) :: u64)" by simp
  have "(of_nat (off + (60 + n)) :: u64) AND 1 \<noteq> 0 \<longleftrightarrow> odd n"
    unfolding and_one_eq even_iff_mod_2_eq_zero [symmetric] even_of_nat_iff e ..
  then show ?thesis unfolding next_member_def Let_def w by (simp add: add.assoc)
qed

text \<open>A step of the scan at a header.\<close>

lemma archive_scan_step:
  assumes "drop off F = write_header nm sz @ r" "length F < 2 ^ 31" "even off" "sz \<le> length r"
  shows "archive_scan F (of_nat off) sc = archive_scan F (of_nat (off + 60 + sz + (if odd sz then 1 else 0))) (scan_member F (of_nat off) (of_nat sz) sc)"
proof -
  have len: "length F = off + 60 + length r" using arg_cong [OF assms(1), of length] assms(2) by auto
  have u: "unat (of_nat off :: u64) = off" using len assms(2) by (intro unat_of_nat_small) simp
  have "of_nat off + 60 \<le> (of_nat (length F) :: u64)"
  proof -
    have "unat (of_nat (length F) :: u64) = length F" using assms(2) by (intro unat_of_nat_small) simp
    moreover have "off + 60 \<le> length F" using len by simp
    ultimately show ?thesis using unat_add_of_nat [of "of_nat off" 60] u assms(2) unfolding word_le_nat_alt by simp
  qed
  moreover have "parse_ar_size (drop (off + 48) F) = of_nat sz" using len assms by (intro parse_size_header [OF _ assms(1)]) simp
  ultimately show ?thesis using header_end [OF assms(1)] assms(3) by (subst archive_scan.simps) (simp add: u next_member_of_nat Let_def)
qed

lemma scan_members:
  assumes "even off" "drop off F = concat (map member_bytes ms)" "off \<le> length F" "length F < 2 ^ 31" "\<forall>m \<in> set ms. mb_name m \<noteq> [] \<and> 47 \<notin> set (mb_name m)"
  shows "archive_scan F (of_nat off) sc = Some (sc\<lparr>sc_entries := sc_entries sc @ map entry_of (place_members off ms)\<rparr>)"
  using assms
proof (induction ms arbitrary: off sc)
  case Nil
  then have "off = length F" by simp
  moreover have "\<not> of_nat (length F) + 60 \<le> (of_nat (length F) :: u64)"
    using unat_add_of_nat [of "of_nat (length F)" 60] Nil(4) by (simp add: word_le_nat_alt unat_of_nat_small)
  ultimately show ?case by (subst archive_scan.simps) simp
next
  case (Cons m ms)
  let ?n = "length (mb_data m)" and ?rest = "concat (map member_bytes ms)"
  let ?next = "off + 60 + ?n + (if odd ?n then 1 else 0)"
  have d: "drop off F = write_header (mb_name m) ?n @ (mb_data m @ even_pad ?n @ ?rest)" using Cons.prems(2) by (simp add: member_bytes_def [of m])
  have nm: "mb_name m \<noteq> []" "47 \<notin> set (mb_name m)" using Cons.prems(5) by simp_all
  have u: "unat (of_nat off :: u64) = off" using Cons.prems(3,4) by (intro unat_of_nat_small) simp
  have sc: "scan_member F (of_nat off) (of_nat ?n) sc = sc\<lparr>sc_entries := sc_entries sc @ [entry_of (m\<lparr>mb_offset := off\<rparr>)]\<rparr>"
    using header_name [OF d nm] by (simp add: scan_member_def u entry_of_def short_name_def)
  have "drop ?next F = drop (length (member_bytes m)) (drop off F)" by (simp add: length_member_bytes ac_simps)
  then have rest: "drop ?next F = ?rest" using Cons.prems(2) by simp
  have "length (drop off F) = length (member_bytes m) + length ?rest" using Cons.prems(2) by simp
  then have "?next \<le> length F" using Cons.prems(3) by (simp add: length_member_bytes split: if_splits)
  moreover have "even ?next" using Cons.prems(1) by simp
  ultimately have "archive_scan F (of_nat ?next) s = Some (s\<lparr>sc_entries := sc_entries s @ map entry_of (place_members ?next ms)\<rparr>)" for s
    using rest Cons.prems(4,5) by (intro Cons.IH) simp_all
  then show ?case unfolding archive_scan_step [OF d Cons.prems(4,1), of sc, simplified] sc by simp
qed

lemma place_members_parts [simp]: "length (place_members off ms) = length ms" "map mb_data (place_members off ms) = map mb_data ms"
  "map member_bytes (place_members off ms) = map member_bytes ms"
  by (induction ms arbitrary: off) (simp_all add: member_bytes_def)

lemma place_members_sorted: "sorted_wrt (<) (map mb_offset (place_members off ms)) \<and> (\<forall>m \<in> set (place_members off ms). off \<le> mb_offset m)"
  by (induction ms arbitrary: off) (force simp: Ball_def)+

lemma place_members_bound: "m \<in> set (place_members off ms) \<Longrightarrow> mb_offset m \<le> off + length (concat (map member_bytes ms))"
  by (induction ms arbitrary: off) (fastforce simp: length_member_bytes)+

lemma place_members_data:
  assumes "drop off F = concat (map member_bytes ms)" "k < length ms"
  shows "\<exists>r. drop (mb_offset (place_members off ms ! k) + 60) F = mb_data (ms ! k) @ r"
  using assms
proof (induction ms arbitrary: off k)
  case (Cons m ms)
  let ?next = "off + 60 + length (mb_data m) + (if odd (length (mb_data m)) then 1 else 0)"
  show ?case
  proof (cases k)
    case 0
    have "drop (off + 60) F = drop 60 (drop off F)" by (simp add: add.commute)
    then show ?thesis using 0 Cons.prems by (simp add: member_bytes_def)
  next
    case (Suc j)
    have "drop ?next F = drop (length (member_bytes m)) (drop off F)" by (simp add: length_member_bytes ac_simps)
    then have "drop ?next F = concat (map member_bytes ms)" using Cons.prems(1) by simp
    then show ?thesis using Cons.IH [of ?next j] Cons.prems(2) Suc by simp
  qed
qed simp

subsection \<open>The index\<close>

lemma length_write_be32 [simp]: "length (write_be32 v) = 4" by (simp add: write_be32_def)

lemma read_be32_file: "drop i F = write_be32 v @ r \<Longrightarrow> read_be32 (file_of F) i = v"
proof -
  assume d: "drop i F = write_be32 v @ r"
  have "file_of F i = ucast (drop_bit 24 v)" "file_of F (i + 1) = ucast (drop_bit 16 v)" "file_of F (i + 2) = ucast (drop_bit 8 v)" "file_of F (i + 3) = ucast v"
    using file_of_drop [OF d, of 0] file_of_drop [OF d, of 1] file_of_drop [OF d, of 2] file_of_drop [OF d, of 3] by (simp_all add: write_be32_def)
  then show ?thesis using octets_word [of v] by (simp add: read_be32_def or.commute or.left_commute)
qed

lemma string_from_drop: "drop i F = s @ 0 # r \<Longrightarrow> 0 \<notin> set s \<Longrightarrow> string_from F i = s"
  unfolding string_from_def by (simp add: takeWhile_append) 

lemma read_index_ok:
  assumes "drop npos F = concat (map (\<lambda>s. fst s @ [0]) syms) @ r" "\<forall>j < length syms. read_be32 (file_of F) (opos + 4 * (i + j)) = snd (syms ! j)"
    "4 * (i + length syms) < 2 ^ 32" "\<forall>s \<in> set syms. 0 \<notin> set (fst s)"
  shows "read_index F es opos npos i (length syms) = map (\<lambda>s. (fst s, find_member es (snd s))) syms"
  using assms
proof (induction syms arbitrary: npos i)
  case (Cons s syms)
  have u: "unat (of_nat i * 4 :: u32) = 4 * i" using unat_of_nat_small [of "i * 4", where 'a = 32] Cons.prems(3) by simp
  have d: "drop npos F = fst s @ 0 # (concat (map (\<lambda>s. fst s @ [0]) syms) @ r)" using Cons.prems(1) by simp
  have nm: "string_from F npos = fst s" using string_from_drop [OF d] Cons.prems(4) by simp
  have "drop (npos + (length (fst s) + 1)) F = drop (length (fst s) + 1) (drop npos F)" by (simp add: add.commute)
  then have "drop (npos + (length (fst s) + 1)) F = concat (map (\<lambda>s. fst s @ [0]) syms) @ r" unfolding d by simp
  moreover have "\<forall>j < length syms. read_be32 (file_of F) (opos + 4 * (i + 1 + j)) = snd (syms ! j)"
    using Cons.prems(2) by (metis Suc_less_eq add.assoc length_Cons nth_Cons_Suc plus_1_eq_Suc)
  ultimately have "read_index F es opos (npos + (length (fst s) + 1)) (i + 1) (length syms) = map (\<lambda>s. (fst s, find_member es (snd s))) syms"
    using Cons.prems(3,4) by (intro Cons.IH) simp_all
  moreover have "read_be32 (file_of F) (opos + 4 * i) = snd s" using Cons.prems(2) by force
  ultimately show ?case by (simp add: nm u)
qed simp

lemma unat_ucast_up: "unat (ucast (x :: u32) :: u64) = unat x"
  using unsigned_less [of x, where 'a = nat] by (simp add: unsigned_ucast_eq take_bit_nat_eq_self_iff)

lemma find_member_ok:
  assumes "k < length ms" "\<forall>m \<in> set (place_members off ms). mb_offset m < 2 ^ 31"
  shows "find_member (map entry_of (place_members off ms)) (of_nat (mb_offset (place_members off ms ! k))) = int k"
proof -
  let ?p = "place_members off ms"
  have off: "e_offset (map entry_of ?p ! j) = ucast (of_nat (mb_offset (?p ! k)) :: u32) \<longleftrightarrow> mb_offset (?p ! j) = mb_offset (?p ! k)" if "j < length ms" for j
  proof -
    have b: "mb_offset (?p ! j) < 2 ^ 31" "mb_offset (?p ! k) < 2 ^ 31" using assms that by simp_all
    then have "unat (of_nat (mb_offset (?p ! j)) :: u64) = mb_offset (?p ! j)" "unat (of_nat (mb_offset (?p ! k)) :: u32) = mb_offset (?p ! k)"
      by (auto intro!: unat_of_nat_small)
    then show ?thesis using that by (simp add: entry_of_def word_unat_eq_iff unat_ucast_up)
  qed
  have "mb_offset (?p ! j) \<noteq> mb_offset (?p ! k)" if "j < k" for j
    using place_members_sorted [of off ms] sorted_wrt_nth_less [of "(<)" "map mb_offset ?p" j k] that assms(1) by simp
  then have "find (\<lambda>j. e_offset (map entry_of ?p ! j) = ucast (of_nat (mb_offset (?p ! k)) :: u32)) [0..<length ms] = Some k"
    using off assms(1) by (auto simp: find_Some_iff intro!: exI [of _ k])
  then show ?thesis by (simp add: find_member_def)
qed

lemma length_ar_index: "length (ar_index ms syms) = symtab_size syms"
proof -
  have "length (concat (map (\<lambda>s. fst s @ [0]) syms)) = sum_list (map (\<lambda>s. length (fst s) + 1) syms)" by (induction syms) auto
  moreover have "length (concat (map (\<lambda>s. write_be32 (of_nat (mb_offset (ms ! snd s)))) syms)) = length syms * 4" by (rule length_concat_map) simp
  ultimately show ?thesis by (simp add: ar_index_def symtab_size_def)
qed

lemma ar_symbols_parts:
  assumes "s \<in> set (ar_symbols ms)"
  shows "snd s < length ms" "0 \<notin> set (fst s)"
proof -
  have "0 \<notin> set x" if "x \<in> set (extract_symbols F)" for x F
    using that by (fastforce simp: extract_symbols_def Let_def string_from_def dest: set_takeWhileD split: if_splits option.splits)
  then show "snd s < length ms" "0 \<notin> set (fst s)" using assms by (auto simp: ar_symbols_def)
qed

text \<open>The index of the reader is the list of the archiver.\<close>

lemma archive_index_ok:
  assumes "drop pos F = ar_index (place_members off ms) syms @ r" "length F < 2 ^ 31" "sc_symtab sc = Some (pos, of_nat (symtab_size syms))"
    "sc_entries sc = map entry_of (place_members off ms)" "syms = ar_symbols ms" "\<forall>m \<in> set (place_members off ms). mb_offset m < 2 ^ 31"
  shows "archive_index F sc = map (\<lambda>s. (fst s, int (snd s))) syms"
proof -
  let ?p = "place_members off ms" and ?n = "length syms"
  let ?off = "\<lambda>s. of_nat (mb_offset (?p ! snd s)) :: u32"
  have len: "symtab_size syms \<le> length F" using arg_cong [OF assms(1), of length] by (simp add: length_ar_index)
  have n4: "4 + 4 * ?n \<le> symtab_size syms" by (simp add: symtab_size_def)
  have un: "unat (of_nat ?n :: u32) = ?n" "unat (of_nat ?n * 4 :: u32) = 4 * ?n" "unat (4 + of_nat ?n * 4 :: u32) = 4 + 4 * ?n"
    using len n4 assms(2) unat_of_nat_small [of ?n, where 'a = 32] unat_of_nat_small [of "?n * 4", where 'a = 32] unat_of_nat_small [of "4 + ?n * 4", where 'a = 32] by simp_all
  have us: "unat (of_nat (symtab_size syms) :: u64) = symtab_size syms" using len assms(2) by (intro unat_of_nat_small) simp
  have cnt: "read_be32 (file_of F) pos = of_nat ?n" by (rule read_be32_file) (simp add: assms(1) ar_index_def)
  have "drop (pos + 4) F = drop 4 (drop pos F)" by (simp add: add.commute)
  then have offs: "drop (pos + 4) F = concat (map (\<lambda>s. write_be32 (?off s)) syms) @ (concat (map (\<lambda>s. fst s @ [0]) syms) @ r)" by (simp add: assms(1) ar_index_def)
  have ro: "read_be32 (file_of F) (pos + 4 + 4 * j) = ?off (syms ! j)" if "j < ?n" for j
    using drop_array [OF offs _ that, of 4] read_be32_file by auto
  have "drop (pos + 4 + 4 * ?n) F = drop (4 * ?n) (drop (pos + 4) F)" by (simp add: add.commute)
  moreover have "length (concat (map (\<lambda>s. write_be32 (?off s)) syms)) = 4 * ?n" using length_concat_map [of "\<lambda>s. write_be32 (?off s)" 4 syms] by simp
  ultimately have nms: "drop (pos + 4 + 4 * ?n) F = concat (map (\<lambda>s. fst s @ [0]) (map (\<lambda>s. (fst s, ?off s)) syms)) @ r" unfolding offs by (simp add: comp_def)
  have "read_index F (sc_entries sc) (pos + 4) (pos + 4 + 4 * ?n) 0 (length (map (\<lambda>s. (fst s, ?off s)) syms)) =
      map (\<lambda>s. (fst s, find_member (sc_entries sc) (snd s))) (map (\<lambda>s. (fst s, ?off s)) syms)"
    by (rule read_index_ok [OF nms]) (use ro ar_symbols_parts(2) len n4 assms(2,5) in auto)
  moreover have "find_member (sc_entries sc) (?off s) = int (snd s)" if "s \<in> set syms" for s
    using find_member_ok [OF ar_symbols_parts(1) assms(6)] that assms(4,5) by simp
  ultimately have "read_index F (sc_entries sc) (pos + 4) (pos + 4 + 4 * ?n) 0 ?n = map (\<lambda>s. (fst s, int (snd s))) syms" by simp
  moreover have "\<not> of_nat (symtab_size syms) < (4 :: u64)" "ucast (4 + of_nat ?n * 4 :: u32) \<le> (of_nat (symtab_size syms) :: u64)"
    using us un n4 by (simp_all add: word_less_nat_alt word_le_nat_alt unat_ucast_up)
  ultimately show ?thesis by (simp add: archive_index_def assms(3) cnt un)
qed

lemma find_symbols:
  "find (\<lambda>e. fst e = nm) (map (\<lambda>s. (fst s, int (snd s))) (concat (map (\<lambda>k. map (\<lambda>x. (x, k)) (g k)) ks))) =
     map_option (\<lambda>k. (nm, int k)) (find (\<lambda>k. nm \<in> set (g k)) ks)"
proof (induction ks)
  case (Cons k ks)
  have "find (\<lambda>e. fst e = nm) (map (\<lambda>s. (fst s, int (snd s))) (map (\<lambda>x. (x, k)) xs) @ ys) =
      (if nm \<in> set xs then Some (nm, int k) else find (\<lambda>e. fst e = nm) ys)" for xs ys by (induction xs) auto
  then show ?case using Cons by simp
qed simp

subsection \<open>Writing and reading back\<close>

definition members_of :: "(u8 list \<times> u8 list) list \<Rightarrow> Member list" where
  "members_of files = map (\<lambda>f. \<lparr>mb_name = member_name (fst f), mb_data = snd f, mb_offset = 0\<rparr>) files"

lemma add_members: "fold add_member files [] = members_of files"
proof -
  have "fold add_member files ms = ms @ members_of files" for ms
    by (induction files arbitrary: ms) (simp_all add: members_of_def add_member_def split_beta)
  then show ?thesis by simp
qed

definition first_offset :: "Member list \<Rightarrow> nat" where
  "first_offset ms = (let syms = ar_symbols ms; n = symtab_size syms in if syms \<noteq> [] then 8 + 60 + n + (if odd n then 1 else 0) else 8)"

lemma ar_write_eq:
  "ar_write files = (let ms = members_of files; syms = ar_symbols ms; n = symtab_size syms in
     ar_magic @ (if syms \<noteq> [] then write_header [47] n @ ar_index (place_members (first_offset ms) ms) syms @ even_pad n else []) @ concat (map member_bytes ms))"
  unfolding ar_write_def add_members first_offset_def Let_def by simp

lemma length_ar_magic [simp]: "length ar_magic = 8" by (simp add: ar_magic_def to_bytes_def)

lemma archive_scan_ok:
  assumes "F = ar_write files" "length F < 2 ^ 31" "\<forall>f \<in> set files. member_name (fst f) \<noteq> []" "ms = members_of files"
  shows "drop (first_offset ms) F = concat (map member_bytes ms)" "first_offset ms \<le> length F"
    "\<exists>sc. archive_scan F 8 \<lparr>sc_entries = [], sc_symtab = None, sc_strtab = None\<rparr> = Some sc \<and> sc_entries sc = map entry_of (place_members (first_offset ms) ms) \<and>
       (if ar_symbols ms = [] then sc_symtab sc = None
        else sc_symtab sc = Some (68, of_nat (symtab_size (ar_symbols ms))) \<and> (\<exists>r. drop 68 F = ar_index (place_members (first_offset ms) ms) (ar_symbols ms) @ r))"
proof -
  let ?p = "place_members (first_offset ms) ms" and ?syms = "ar_symbols ms" and ?B = "concat (map member_bytes ms)" and ?e = "\<lparr>sc_entries = [], sc_symtab = None, sc_strtab = None\<rparr>"
  let ?n = "symtab_size ?syms"
  have F: "F = ar_magic @ (if ?syms \<noteq> [] then write_header [47] ?n @ ar_index ?p ?syms @ even_pad ?n else []) @ ?B"
    using assms(1,4) by (simp add: ar_write_eq Let_def)
  have pad: "length (even_pad ?n) = (if odd ?n then 1 else 0)" by (simp add: even_pad_def)
  show d: "drop (first_offset ms) F = ?B" unfolding F by (auto simp: first_offset_def Let_def length_ar_index pad)
  show le: "first_offset ms \<le> length F" unfolding F by (auto simp: first_offset_def Let_def length_ar_index pad)
  have names: "\<forall>m \<in> set ms. mb_name m \<noteq> [] \<and> 47 \<notin> set (mb_name m)"
    using assms(3,4) by (auto simp: members_of_def member_name_def dest: set_takeWhileD)
  have scan: "archive_scan F (of_nat (first_offset ms)) sc = Some (sc\<lparr>sc_entries := sc_entries sc @ map entry_of ?p\<rparr>)" for sc
    by (rule scan_members [OF _ d le assms(2) names]) (simp add: first_offset_def Let_def)
  show "\<exists>sc. archive_scan F 8 ?e = Some sc \<and> sc_entries sc = map entry_of ?p \<and>
       (if ?syms = [] then sc_symtab sc = None else sc_symtab sc = Some (68, of_nat ?n) \<and> (\<exists>r. drop 68 F = ar_index ?p ?syms @ r))"
  proof (cases "?syms = []")
    case True
    then show ?thesis using scan [of ?e] by (simp add: first_offset_def)
  next
    case False
    then have h: "drop 8 F = write_header [47] ?n @ (ar_index ?p ?syms @ even_pad ?n @ ?B)" unfolding F by simp
    have fo: "8 + 60 + ?n + (if odd ?n then 1 else 0) = first_offset ms" using False by (simp add: first_offset_def Let_def)
    have sm: "scan_member F (of_nat 8) (of_nat ?n) ?e = ?e\<lparr>sc_symtab := Some (68, of_nat ?n)\<rparr>" using header_symtab [OF h] by (simp add: scan_member_def)
    have "archive_scan F (of_nat 8) ?e = archive_scan F (of_nat (first_offset ms)) (?e\<lparr>sc_symtab := Some (68, of_nat ?n)\<rparr>)"
      unfolding fo [symmetric] sm [symmetric] by (rule archive_scan_step [OF h assms(2)]) (simp_all add: length_ar_index)
    then have "archive_scan F 8 ?e = Some (?e\<lparr>sc_symtab := Some (68, of_nat ?n), sc_entries := map entry_of ?p\<rparr>)" unfolding scan by simp
    moreover have "drop 68 F = ar_index ?p ?syms @ even_pad ?n @ ?B" using arg_cong [OF h, of "drop 60"] by simp
    ultimately show ?thesis using False by auto
  qed
qed

text \<open>Property C29. What the archiver writes the linker reads: for files with names, and an archive below two gigabytes, \<^verbatim>\<open>archive_open\<close> ends and finds the files as members, in
  their order, each with its size and its bytes, none extracted; and \<^verbatim>\<open>archive_find_symbol\<close> answers a name with the first member that exports it, and with -1 when no member does.\<close>

theorem archive_roundtrip:
  assumes "\<forall>f \<in> set files. member_name (fst f) \<noteq> []" "length (ar_write files) < 2 ^ 31"
  shows "\<exists>ar. archive_open (ar_write files) = Some ar \<and> length (members ar) = length files \<and>
    (\<forall>k < length files. let m = members ar ! k; d = snd (files ! k) in
       m_size m = of_nat (length d) \<and> map (m_data m) [0..<length d] = d \<and> \<not> m_extracted m) \<and>
    (\<forall>nm. archive_find_symbol ar nm =
       (case find (\<lambda>k. nm \<in> set (extract_symbols (snd (files ! k)))) [0..<length files] of Some k \<Rightarrow> int k | None \<Rightarrow> -1))"
proof -
  define F where "F = ar_write files"
  define ms where "ms = members_of files"
  let ?p = "place_members (first_offset ms) ms" and ?syms = "ar_symbols ms"
  have len: "length F < 2 ^ 31" using assms(2) by (simp add: F_def)
  note ok = archive_scan_ok [OF F_def len assms(1) ms_def]
  obtain sc where sc: "archive_scan F 8 \<lparr>sc_entries = [], sc_symtab = None, sc_strtab = None\<rparr> = Some sc" "sc_entries sc = map entry_of ?p"
      "if ?syms = [] then sc_symtab sc = None else sc_symtab sc = Some (68, of_nat (symtab_size ?syms)) \<and> (\<exists>r. drop 68 F = ar_index ?p ?syms @ r)"
    using ok(3) by blast
  have "first_offset ms + length (concat (map member_bytes ms)) = length F" using arg_cong [OF ok(1), of length] ok(2) by simp
  then have bound: "\<forall>m \<in> set ?p. mb_offset m < 2 ^ 31" using place_members_bound [of _ "first_offset ms" ms] len by fastforce
  have idx: "archive_index F sc = map (\<lambda>s. (fst s, int (snd s))) ?syms"
  proof (cases "?syms = []")
    case True
    then show ?thesis using sc(3) by (simp add: archive_index_def)
  next
    case False
    then obtain r where "sc_symtab sc = Some (68, of_nat (symtab_size ?syms))" "drop 68 F = ar_index ?p ?syms @ r" using sc(3) by auto
    then show ?thesis using archive_index_ok [of 68 F _ ms ?syms r sc] len sc(2) bound by blast
  qed
  define ar where "ar = \<lparr>members = map (\<lambda>e. \<lparr>m_data = (\<lambda>i. file_of F (e_pos e + i)), m_size = e_size e, m_extracted = False\<rparr>) (sc_entries sc), asymbols = archive_index F sc\<rparr>"
  have "take 8 F = ar_magic" "8 \<le> length F" by (simp_all add: F_def ar_write_eq Let_def)
  then have "archive_open F = Some ar" using sc(1) by (simp add: archive_open_def ar_def)
  moreover have "length (members ar) = length files" by (simp add: ar_def sc(2) ms_def members_of_def)
  moreover have "let m = members ar ! k; d = snd (files ! k) in m_size m = of_nat (length d) \<and> map (m_data m) [0..<length d] = d \<and> \<not> m_extracted m"
    if k: "k < length files" for k
  proof -
    have k': "k < length ms" "mb_data (ms ! k) = snd (files ! k)" using k by (simp_all add: ms_def members_of_def)
    have "mb_data (?p ! k) = snd (files ! k)" using k' by (metis nth_map place_members_parts(1,2))
    moreover obtain r where "drop (mb_offset (?p ! k) + 60) F = snd (files ! k) @ r" using place_members_data [OF ok(1) k'(1)] k'(2) by auto
    ultimately show ?thesis using file_of_section k'(1) by (auto simp: ar_def sc(2) entry_of_def)
  qed
  moreover have "archive_find_symbol ar nm = (case find (\<lambda>k. nm \<in> set (extract_symbols (snd (files ! k)))) [0..<length files] of Some k \<Rightarrow> int k | None \<Rightarrow> -1)" for nm
  proof -
    have "find (\<lambda>k. nm \<in> set (extract_symbols (mb_data (ms ! k)))) [0..<length ms] = find (\<lambda>k. nm \<in> set (extract_symbols (snd (files ! k)))) [0..<length files]"
      by (rule find_cong) (auto simp: ms_def members_of_def)
    then show ?thesis unfolding archive_find_symbol_def ar_def Archive.simps idx ar_symbols_def find_symbols by (simp split: option.split)
  qed
  ultimately show ?thesis unfolding F_def [symmetric] by blast
qed

subsection \<open>Archives of assembled objects\<close>

definition exports :: "as_st \<Rightarrow> u8 list \<Rightarrow> bool" where
  "exports st nm \<longleftrightarrow> (\<exists>s \<in> set (as_symbols st). a_name s = nm \<and> \<not> defined_local s \<and> (a_section s \<noteq> SECTION_NONE \<or> a_defined s))"

lemma elf_shndx_defined: "elf_shndx s \<noteq> SHN_UNDEF \<longleftrightarrow> a_section s \<noteq> SECTION_NONE \<or> a_defined s"
  by (simp add: elf_shndx_def SEC_TEXT_def SEC_DATA_def SEC_BSS_def SHN_ABS_def SHN_UNDEF_def split: SectionId.split)

lemma exported_symbol: "exported (elf_symbol (bound_as s) off s) \<longleftrightarrow> \<not> defined_local s \<and> (a_section s \<noteq> SECTION_NONE \<or> a_defined s)"
  by (simp add: exported_def elf_symbol_def st_info_bind elf_shndx_defined) (simp add: bound_as_def STB_LOCAL_def STB_GLOBAL_def STB_WEAK_def)

lemma start_not_exported:
  assumes "j < 4"
  shows "\<not> exported (fst (snd emit_start) ! j)"
proof -
  have "\<forall>e \<in> set (fst (snd emit_start)). \<not> exported e" "length (fst (snd emit_start)) = 4"
    by (simp_all add: emit_start_def strtab_add_def section_symbol_def exported_def ELF64_ST_INFO_def ELF64_ST_BIND_def STB_LOCAL_def STB_GLOBAL_def STB_WEAK_def)
  then show ?thesis using assms nth_mem by metis
qed

lemma extract_symbols_table:
  assumes "object_fits st"
  shows "extract_symbols (elf_write st) = concat (map (\<lambda>j. if exported (obj_syms st ! j)
    then [string_from (elf_write st) (unat (strtab_off (obj_layout st)) + unat (st_name (obj_syms st ! j)))] else []) [1..<length (obj_syms st)])"
proof -
  let ?F = "elf_write st" and ?l = "obj_layout st" and ?d = "file_of (elf_write st)"
  note h = rel_ehdr_read [OF elf_write_eq [of st]] and p = object_parts [OF assms]
  have es: "rd16 ?d 58 = 64" by (rule rd16_file) (simp add: elf_write_eq [of st] rel_ehdr_bytes_def)
  have sh: "read_shdr ?d (unat (shdr_off ?l) + 64 * j) = fst (obj_shdrs st ! j)" if "j < 9" for j
    using arg_cong [OF obj_reads(1) [OF assms], of "\<lambda>l. l ! j"] that by simp
  have ty: "get_insn ?d (unat (shdr_off ?l) + j * 64 + 4) = sh_type (fst (obj_shdrs st ! j))" if "j < 9" for j
    using arg_cong [OF sh [OF that], of sh_type] by (simp add: read_shdr_def mult.commute)
  have "find (\<lambda>i. get_insn ?d (unat (shdr_off ?l) + i * 64 + 4) = SHT_SYMTAB) [0..<9] = find (\<lambda>i. sh_type (fst (obj_shdrs st ! i)) = SHT_SYMTAB) [0..<9]"
    by (rule find_cong) (auto simp: ty)
  also have "\<dots> = Some 4" by (simp add: upt_rec obj_shdrs_def object_shdrs_def SHT_NULL_def SHT_PROGBITS_def SHT_NOBITS_def SHT_SYMTAB_def)
  finally have f: "find (\<lambda>i. get_insn ?d (unat (shdr_off ?l) + i * 64 + 4) = SHT_SYMTAB) [0..<9] = Some 4" .
  have s4: "rd64 ?d (unat (shdr_off ?l) + 4 * 64 + 24) = symtab_off ?l" "rd64 ?d (unat (shdr_off ?l) + 4 * 64 + 32) = of_nat (length (obj_syms st)) * 24"
      "get_insn ?d (unat (shdr_off ?l) + 4 * 64 + 40) = 5"
    using sh [of 4] by (simp_all add: read_shdr_def obj_shdrs_def object_shdrs_def SEC_STRTAB_def)
  have s5: "rd64 ?d (unat (shdr_off ?l) + 320 + 24) = strtab_off ?l" using sh [of 5] by (simp add: read_shdr_def obj_shdrs_def object_shdrs_def)
  have n: "nat (int32 (uint (of_nat (length (obj_syms st)) * 24 :: u64) div 24)) = length (obj_syms st)"
    using unat_of_nat_24 [of "length (obj_syms st)"] assms by (simp add: object_fits_def uint_nat int32_range flip: of_nat_div)
  have sm: "read_sym ?d (unat (symtab_off ?l) + 24 * j) = obj_syms st ! j" if "j < length (obj_syms st)" for j
    using arg_cong [OF obj_reads(2) [OF assms], of "\<lambda>l. l ! j"] that by simp
  have nz: "shdr_off ?l \<noteq> 0" "64 \<le> length ?F" using object_layout_ok [OF assms [unfolded object_fits_def] obj_layout_def [symmetric]] p(9) by auto
  have d: "?d 0 = 0x7f" "?d 1 = 69" "?d 2 = 76" "?d 3 = 70" "?d 4 = 2" using h(1) by (simp_all add: elf_check_header_def)
  have "extract_symbols ?F = concat (map (\<lambda>j. let e = read_sym ?d (unat (symtab_off ?l) + 24 * j) in
      if exported e then [string_from ?F (unat (strtab_off ?l) + unat (st_name e))] else []) [1..<length (obj_syms st)])"
    unfolding extract_symbols_def Let_def h es using nz d f s4 s5 n by (simp cong: if_cong)
  also have "\<dots> = concat (map (\<lambda>j. if exported (obj_syms st ! j) then [string_from ?F (unat (strtab_off ?l) + unat (st_name (obj_syms st ! j)))] else [])
      [1..<length (obj_syms st)])" by (intro arg_cong [of _ _ concat] map_cong refl) (auto simp: Let_def sm)
  finally show ?thesis .
qed

lemma symbol_string:
  assumes "object_fits st" "\<forall>s \<in> set (as_symbols st). 0 \<notin> set (a_name s)" "k < length (as_symbols st)"
  shows "string_from (elf_write st) (unat (strtab_off (obj_layout st)) + unat (st_name (obj_syms st ! obj_index st k))) = a_name (as_symbols st ! k)"
    "exported (obj_syms st ! obj_index st k) \<longleftrightarrow> \<not> defined_local (as_symbols st ! k) \<and> (a_section (as_symbols st ! k) \<noteq> SECTION_NONE \<or> a_defined (as_symbols st ! k))"
proof -
  let ?F = "elf_write st" and ?l = "obj_layout st" and ?s = "as_symbols st ! k"
  obtain q where q: "drop (unat (strtab_off ?l)) ?F = obj_str st @ q" using object_parts(4) [OF assms(1)] by blast
  have len: "length (obj_str st) < 2 ^ 31" using assms(1) by (simp add: object_fits_def)
  obtain off where off: "obj_syms st ! obj_index st k = elf_symbol (bound_as ?s) off ?s" "string_at (obj_str st) off (a_name ?s)" using obj_symbol(2) [OF assms(3)] by blast
  then show "exported (obj_syms st ! obj_index st k) \<longleftrightarrow> \<not> defined_local ?s \<and> (a_section ?s \<noteq> SECTION_NONE \<or> a_defined ?s)" by (simp add: exported_symbol)
  obtain r where r: "drop (unat off) (obj_str st) = a_name ?s @ 0 # r" using string_at_unat [OF off(2) len] by blast
  then have "unat off < length (obj_str st)" by (metis append_is_Nil_conv drop_all list.distinct(1) not_le)
  then have "drop (unat off) (obj_str st @ q) = a_name ?s @ 0 # (r @ q)" using r by simp
  then have "drop (unat (strtab_off ?l) + unat off) ?F = a_name ?s @ 0 # (r @ q)" unfolding q [symmetric] by (simp add: add.commute)
  then show "string_from ?F (unat (strtab_off ?l) + unat (st_name (obj_syms st ! obj_index st k))) = a_name ?s"
    using string_from_drop assms(2,3) off(1) by (simp add: elf_symbol_def)
qed

lemma extract_symbols_object:
  assumes "object_fits st" "\<forall>s \<in> set (as_symbols st). 0 \<notin> set (a_name s)"
  shows "nm \<in> set (extract_symbols (elf_write st)) \<longleftrightarrow> exports st nm"
proof -
  let ?F = "elf_write st" and ?l = "obj_layout st" and ?syms = "as_symbols st"
  let ?name = "\<lambda>j. string_from ?F (unat (strtab_off ?l) + unat (st_name (obj_syms st ! j)))"
  note sym = symbol_string [OF assms] and idx = obj_symbol(1) [of _ st]
  have "nm \<in> set (extract_symbols ?F) \<longleftrightarrow> (\<exists>j. 1 \<le> j \<and> j < length (obj_syms st) \<and> exported (obj_syms st ! j) \<and> nm = ?name j)"
    unfolding extract_symbols_table [OF assms(1)] by (auto split: if_splits)
  also have "\<dots> \<longleftrightarrow> (\<exists>k < length ?syms. exported (obj_syms st ! obj_index st k) \<and> nm = ?name (obj_index st k))"
  proof
    assume "\<exists>j. 1 \<le> j \<and> j < length (obj_syms st) \<and> exported (obj_syms st ! j) \<and> nm = ?name j"
    then obtain j where j: "j < length (obj_syms st)" "exported (obj_syms st ! j)" "nm = ?name j" by blast
    then obtain k where "k < length ?syms" "j = obj_index st k" using obj_symbol_cover [OF j(1)] start_not_exported [of j] by auto
    then show "\<exists>k < length ?syms. exported (obj_syms st ! obj_index st k) \<and> nm = ?name (obj_index st k)" using j by blast
  next
    assume "\<exists>k < length ?syms. exported (obj_syms st ! obj_index st k) \<and> nm = ?name (obj_index st k)"
    then obtain k where k: "k < length ?syms" "exported (obj_syms st ! obj_index st k)" "nm = ?name (obj_index st k)" by blast
    moreover have "4 \<le> obj_index st k" using emit_symbols_ok [of ?syms] k(1) by (simp add: emitted_def obj_index_def split_beta)
    then have "1 \<le> obj_index st k" by simp
    ultimately show "\<exists>j. 1 \<le> j \<and> j < length (obj_syms st) \<and> exported (obj_syms st ! j) \<and> nm = ?name j" using idx by blast
  qed
  also have "\<dots> \<longleftrightarrow> (\<exists>k < length ?syms. (\<not> defined_local (?syms ! k) \<and> (a_section (?syms ! k) \<noteq> SECTION_NONE \<or> a_defined (?syms ! k))) \<and> nm = a_name (?syms ! k))"
    by (simp add: sym cong: conj_cong)
  also have "\<dots> \<longleftrightarrow> exports st nm" unfolding exports_def set_conv_nth by blast
  finally show ?thesis .
qed

lemma call_object_fits: "object_fits call_object"
  unfolding object_fits_def call_object_ok by simp

lemma call_object_length: "length (elf_write call_object) = 904" by code_simp

lemma call_object_exports: "extract_symbols (elf_write call_object) = [to_bytes ''main'']"
proof -
  have x: "\<not> exported (obj_syms call_object ! 1)" "\<not> exported (obj_syms call_object ! 2)" "\<not> exported (obj_syms call_object ! 3)" "exported (obj_syms call_object ! 4)"
      "\<not> exported (obj_syms call_object ! 5)" "obj_index call_object 0 = 4" "[1..<6] = [1, 2, 3, 4, 5]" by code_simp+
  have "string_from (elf_write call_object) (unat (strtab_off (obj_layout call_object)) + unat (st_name (obj_syms call_object ! 4))) = to_bytes ''main''"
    using symbol_string(1) [OF call_object_fits call_object_ok(8), of 0] x(6) by (simp add: call_object_def)
  then show ?thesis unfolding extract_symbols_table [OF call_object_fits] call_object_ok x(7) using x(1-5) by simp
qed

definition library :: "(u8 list \<times> u8 list) list" where
  "library = [(to_bytes ''notes'', [65]), (to_bytes ''obj/call.o'', elf_write call_object)]"

lemma extract_symbols_small: "length F < 64 \<Longrightarrow> extract_symbols F = []"
  by (simp add: extract_symbols_def)

lemma library_files: "\<forall>f \<in> set library. member_name (fst f) \<noteq> []" "length library = 2"
  "extract_symbols (snd (library ! 0)) = []" "extract_symbols (snd (library ! 1)) = [to_bytes ''main'']"
  by (simp_all add: library_def member_name_def to_bytes_def call_object_exports extract_symbols_small)

lemma library_length: "length (ar_write library) < 2 ^ 31"
proof -
  have "[0..<2] = [0, 1]" by (simp add: upt_rec)
  then have "ar_symbols (members_of library) = [(to_bytes ''main'', 1)]" by (simp add: ar_symbols_def members_of_def library_def call_object_exports extract_symbols_small)
  then show ?thesis by (simp add: ar_write_eq Let_def length_ar_index symtab_size_def even_pad_def members_of_def library_def length_member_bytes call_object_length to_bytes_def)
qed

theorem archive_roundtrip_witness:
  "\<exists>ar. archive_open (ar_write library) = Some ar \<and> length (members ar) = 2 \<and> map (m_data (members ar ! 0)) [0..<1] = [65] \<and>
     archive_find_symbol ar (to_bytes ''main'') = 1 \<and> archive_find_symbol ar (to_bytes ''f'') = -1"
proof -
  have u: "[0..<2] = [0, 1]" by (simp add: upt_rec)
  have d: "snd (library ! 0) = [65]" by (simp add: library_def)
  have n: "to_bytes ''f'' \<noteq> to_bytes ''main''" by (simp add: to_bytes_def)
  obtain ar where ar: "archive_open (ar_write library) = Some ar" "length (members ar) = 2"
      "\<forall>k < 2. let m = members ar ! k; d = snd (library ! k) in m_size m = of_nat (length d) \<and> map (m_data m) [0..<length d] = d \<and> \<not> m_extracted m"
      "\<forall>nm. archive_find_symbol ar nm = (case find (\<lambda>k. nm \<in> set (extract_symbols (snd (library ! k)))) [0..<2] of Some k \<Rightarrow> int k | None \<Rightarrow> -1)"
    using archive_roundtrip [OF library_files(1) library_length] unfolding library_files(2) by (elim exE conjE) (rule that; assumption)
  have "map (m_data (members ar ! 0)) [0..<1] = [65]" using spec [OF ar(3), of 0] by (simp add: Let_def d)
  moreover have "archive_find_symbol ar (to_bytes ''main'') = 1" "archive_find_symbol ar (to_bytes ''f'') = -1"
    unfolding spec [OF ar(4)] u find.simps library_files(3,4) using n by simp_all
  ultimately show ?thesis using ar(1,2) by (intro exI [of _ ar] conjI)
qed

subsection \<open>Archives that are not well formed\<close>

text \<open>The size of a member is read as a signed number and added to the offset: a header with the size -60 is followed by itself, and the linker does not end.\<close>

definition stuck_archive :: "u8 list" where
  "stuck_archive = ar_magic @ to_bytes ''a/'' @ replicate 46 32 @ to_bytes ''-60'' @ replicate 7 32 @ [96, 10]"

lemma stuck_archive_size: "parse_ar_size (drop 56 stuck_archive) = - 60"
  by code_simp

lemma archive_scan_loops: "archive_scan stuck_archive 8 sc = None"
proof -
  have c: "file_of stuck_archive 66 = 96" "file_of stuck_archive 67 = 10" "next_member 8 (- 60) = 8" "of_nat (length stuck_archive) = (68 :: u64)" by code_simp+
  have "F = stuck_archive \<longrightarrow> offset \<noteq> 8" if "archive_scan F offset s = Some y" for F offset s y
  proof (rule archive_scan.raw_induct [OF _ that], intro impI notI)
    fix scan :: "u8 list \<Rightarrow> u64 \<Rightarrow> ar_scan \<Rightarrow> ar_scan option" and F offset s y
    assume IH: "\<And>F offset s y. scan F offset s = Some y \<Longrightarrow> F = stuck_archive \<longrightarrow> offset \<noteq> 8" and F: "F = stuck_archive" "offset = 8"
      and body: "(if offset + 60 \<le> of_nat (length F) then
          if file_of F (unat offset + 58) \<noteq> 96 \<or> file_of F (unat offset + 59) \<noteq> 10 then Some s
          else let member_size = parse_ar_size (drop (unat offset + 48) F) in scan F (next_member offset member_size) (scan_member F offset member_size s)
        else Some s) = Some y"
    have "scan stuck_archive 8 (scan_member F 8 (- 60) s) = Some y" using body unfolding F c(4) by (simp add: c stuck_archive_size Let_def)
    then show False using IH by blast
  qed
  then show ?thesis by (cases "archive_scan stuck_archive 8 sc") blast+
qed

text \<open>The number of symbols is multiplied in 32 bits: \<open>2 ^ 30\<close> symbols pass the check against a table of four bytes.\<close>

lemma index_check_wraps: "ucast (4 + 2 ^ 30 * 4 :: u32) \<le> (4 :: u64)"
  by simp

end
