(* ===== verification/Ld_Link.thy ===== *)
theory Ld_Link
  imports Ld_Section
begin

text \<open>
  The rest of \<^verbatim>\<open>cmd/ld/reloc.c\<close>, all relocations of all objects, and the steps that \<^verbatim>\<open>main\<close> of \<^verbatim>\<open>cmd/ld/main.c\<close> takes between reading its input and writing the
  result. A relocation that would patch bytes behind the end of the output section has the result \<open>None\<close>, like a call of \<^verbatim>\<open>error\<close>.
\<close>

subsection \<open>The program\<close>

definition resolve_reloc_symbol :: "ObjectFile \<Rightarrow> int \<Rightarrow> SymbolTable \<Rightarrow> OutputSection list \<Rightarrow> nat \<Rightarrow> u64" where
  "resolve_reloc_symbol obj idx tab secs n =
     (if idx < 0 \<or> idx \<ge> int (symcount obj) then 0
      else let sm = sym_of obj (nat idx) in
        if ELF64_ST_BIND (st_info sm) = STB_LOCAL \<or> ELF64_ST_TYPE (st_info sm) = STT_SECTION then resolve_local_symbol obj idx secs n
        else case symbol_name obj (nat idx) of
          None \<Rightarrow> resolve_local_symbol obj idx secs n
        | Some nm \<Rightarrow>
            if nm = [] then resolve_local_symbol obj idx secs n
            else case symbol_lookup tab nm of Some gsym \<Rightarrow> s_value gsym | None \<Rightarrow> resolve_local_symbol obj idx secs n)"

definition find_output_section_idx :: "OutputSection list \<Rightarrow> nat \<Rightarrow> nat \<Rightarrow> nat \<Rightarrow> int" where
  "find_output_section_idx secs n fl j =
     (case find (\<lambda>q. piece_file (piece_at secs q) = fl \<and> input_shndx (piece_at secs q) = j) (all_pieces secs n) of Some q \<Rightarrow> int (fst q) | None \<Rightarrow> -1)"

text \<open>The bytes a relocation changes.\<close>

definition reloc_width :: "int \<Rightarrow> nat" where
  "reloc_width type = (if type = R_AARCH64_NONE then 0 else if type = R_AARCH64_ABS64 then 8 else 4)"

definition apply_rela :: "SymbolTable \<Rightarrow> nat \<Rightarrow> ObjectFile \<Rightarrow> nat \<times> nat \<Rightarrow> nat \<Rightarrow> Elf64_Rela \<Rightarrow> OutputSection list \<Rightarrow> OutputSection list option" where
  "apply_rela tab n obj q i rela secs =
     (let out = secs ! i;
          offset = output_offset (piece_at secs q) + r_offset rela;
          place_addr = os_addr out + offset;
          rtype = ELF64_R_TYPE (r_info rela);
          sym_value = resolve_reloc_symbol obj (ELF64_R_SYM (r_info rela)) tab secs n
      in if unat offset + reloc_width rtype > os_dlen out then None
         else do {
           d \<leftarrow> apply_one_reloc (unat offset) place_addr sym_value rtype (r_addend rela) (os_data out);
           Some (secs[i := out\<lparr>os_data := d\<rparr>]) })"

definition apply_section :: "SymbolTable \<Rightarrow> nat \<Rightarrow> ObjectFile \<Rightarrow> nat \<Rightarrow> OutputSection list \<Rightarrow> OutputSection list option" where
  "apply_section tab n obj j secs =
     (if sh_flags (shdrs obj ! j) AND SHF_ALLOC = 0 then Some secs
      else let relas = get_rela_for_section obj j in
        if relas = [] then Some secs
        else case find_piece secs n (oid obj) j of
          None \<Rightarrow> Some secs
        | Some q \<Rightarrow>
            let i = find_output_section_idx secs n (oid obj) j in
            if i < 0 then Some secs else fold_opt (apply_rela tab n obj q (nat i)) relas secs)"

definition apply_relocations :: "ObjectFile list \<Rightarrow> SymbolTable \<Rightarrow> nat \<Rightarrow> OutputSection list \<Rightarrow> OutputSection list option" where
  "apply_relocations objs tab n = fold_opt (\<lambda>obj. fold_opt (apply_section tab n obj) [1..<length (shdrs obj)]) objs"

subsection \<open>Linking\<close>

datatype LinkMode = LINK_MODE_USERSPACE | LINK_MODE_KERNEL | LINK_MODE_BOOTLOADER

definition user_sections :: "bytes \<Rightarrow> OutputSection list" where
  "user_sections junk =
     [output_section_init junk [] SHT_NULL 0,
      output_section_init junk ''.text'' SHT_PROGBITS (SHF_ALLOC OR SHF_EXECINSTR),
      output_section_init junk ''.rodata'' SHT_PROGBITS SHF_ALLOC,
      output_section_init junk ''.data'' SHT_PROGBITS (SHF_ALLOC OR SHF_WRITE),
      output_section_init junk ''.bss'' SHT_NOBITS (SHF_ALLOC OR SHF_WRITE)]"

definition kernel_sections :: "bytes \<Rightarrow> OutputSection list" where
  "kernel_sections junk =
     [output_section_init junk [] SHT_NULL 0,
      output_section_init junk ''.text.boot'' SHT_PROGBITS (SHF_ALLOC OR SHF_EXECINSTR),
      output_section_init junk ''.tables'' SHT_PROGBITS (SHF_ALLOC OR SHF_WRITE),
      output_section_init junk ''.text'' SHT_PROGBITS (SHF_ALLOC OR SHF_EXECINSTR),
      output_section_init junk ''.rodata'' SHT_PROGBITS SHF_ALLOC,
      output_section_init junk ''.data'' SHT_PROGBITS (SHF_ALLOC OR SHF_WRITE),
      output_section_init junk ''.bss'' SHT_NOBITS (SHF_ALLOC OR SHF_WRITE)]"

text \<open>The sections of the output with their addresses, and the table with the symbols that the linker itself defines.\<close>

definition layout_sections :: "bytes \<Rightarrow> LinkMode \<Rightarrow> ObjectFile list \<Rightarrow> SymbolTable \<Rightarrow> (SymbolTable \<times> OutputSection list) option" where
  "layout_sections junk mode objs tab =
     (case mode of
        LINK_MODE_KERNEL \<Rightarrow> do {
          secs \<leftarrow> merge_sections categorize_section_kernel objs (kernel_sections junk);
          let secs = assign_addresses_kernel secs;
          tab \<leftarrow> define_kernel_symbols tab secs;
          Some (tab, secs) }
      | LINK_MODE_BOOTLOADER \<Rightarrow> do {
          secs \<leftarrow> merge_sections categorize_section_bootloader objs (user_sections junk);
          Some (tab, assign_addresses_bootloader secs) }
      | LINK_MODE_USERSPACE \<Rightarrow> do {
          secs \<leftarrow> merge_sections categorize_section objs (user_sections junk);
          Some (tab, assign_addresses secs) })"

definition link_image :: "bytes \<Rightarrow> LinkMode \<Rightarrow> u8 list \<Rightarrow> ObjectFile list \<Rightarrow> Archive list \<Rightarrow> (SymbolTable \<times> OutputSection list) option" where
  "link_image junk mode entry objs ars =
     do {
       tab \<leftarrow> collect_definitions objs symtab_init;
       st \<leftarrow> resolve_archives entry \<lparr>objects = objs, archives = ars, globals = tab\<rparr>;
       let tab = (if mode = LINK_MODE_KERNEL then add_kernel_symbol_placeholders (globals st) else globals st);
       if \<not> check_undefined (objects st) tab entry then None
       else do {
         (tab, secs) \<leftarrow> layout_sections junk mode (objects st) tab;
         let tab = update_symbol_values tab secs (length secs);
         secs \<leftarrow> apply_relocations (objects st) tab (length secs) secs;
         Some (tab, secs) } }"

subsection \<open>One relocation\<close>

definition agree :: "nat \<Rightarrow> nat \<Rightarrow> bytes \<Rightarrow> bytes \<Rightarrow> bool" where
  "agree t w d e \<longleftrightarrow> (\<forall>k. t \<le> k \<longrightarrow> k < t + w \<longrightarrow> d k = e k)"

lemma put_insn_agree: "agree t 4 (put_insn t v d) (put_insn t v e)"
proof -
  have "put_insn t v d k = put_insn t v e k" if "t \<le> k" "k < t + 4" for k
  proof -
    have "k = t \<or> k = t + 1 \<or> k = t + 2 \<or> k = t + 3" using that by linarith
    then show ?thesis by (auto simp: put_insn_def)
  qed
  then show ?thesis by (simp add: agree_def)
qed

lemma get_insn_agree: "agree t 4 d e \<Longrightarrow> get_insn d t = get_insn e t"
  by (simp add: agree_def get_insn_def)

text \<open>A relocation reads and writes its own bytes only.\<close>

definition patched :: "u64 \<Rightarrow> u64 \<Rightarrow> int \<Rightarrow> u64 \<Rightarrow> u32 \<Rightarrow> u32 option" where
  "patched p s type a v =
     (let off = sint (s + a - p); page = sint (((s + a) AND NOT 0xfff) - (p AND NOT 0xfff)); lo = (s + a) AND 0xfff;
          ldst = (\<lambda>scale. if lo AND (push_bit scale 1 - 1) \<noteq> 0 then None else Some (patch12 v (drop_bit scale lo)))
      in if type = R_AARCH64_CALL26 \<or> type = R_AARCH64_JUMP26 then
           if off < - (2 ^ 27) \<or> off \<ge> 2 ^ 27 then None else if off AND 3 \<noteq> 0 then None else Some (patch26 v off)
         else if type = R_AARCH64_ADR_PREL_LO21 then if off < - (2 ^ 20) \<or> off \<ge> 2 ^ 20 then None else Some (patch_adr v off)
         else if type = R_AARCH64_ADR_PREL_PG_HI21 then
           if page < - (2 ^ 32) \<or> page \<ge> 2 ^ 32 then None else Some (patch_adr v (drop_bit 12 page))
         else if type = R_AARCH64_ADD_ABS_LO12_NC \<or> type = R_AARCH64_LDST8_ABS_LO12_NC then Some (patch12 v lo)
         else if type = R_AARCH64_LDST16_ABS_LO12_NC then ldst 1
         else if type = R_AARCH64_LDST32_ABS_LO12_NC then ldst 2
         else if type = R_AARCH64_LDST64_ABS_LO12_NC then ldst 3
         else None)"

lemma reloc_patched:
  "type \<noteq> R_AARCH64_NONE \<Longrightarrow> type \<noteq> R_AARCH64_ABS64 \<Longrightarrow>
     apply_one_reloc t p s type a d = map_option (\<lambda>v. put_insn t v d) (patched p s type a (get_insn d t))"
  by (simp only: apply_one_reloc_def patched_def patch_ldst_def Let_def if_False if_distrib [where f = "map_option (\<lambda>v. put_insn t v d)"] option.map cong: if_cong)

lemma reloc_frame:
  assumes "apply_one_reloc t p s type a d = Some d'" "k < t \<or> t + reloc_width type \<le> k"
  shows "d' k = d k"
proof (cases "type = R_AARCH64_NONE \<or> type = R_AARCH64_ABS64")
  case True
  then show ?thesis using assms by (auto simp: apply_one_reloc_def reloc_width_def put_value_def reloc_types)
next
  case False
  then show ?thesis using assms by (auto simp: reloc_patched reloc_width_def put_insn_other)
qed

lemma reloc_local:
  assumes "apply_one_reloc t p s type a d = Some d'" "agree t (reloc_width type) d e"
  shows "\<exists>e'. apply_one_reloc t p s type a e = Some e' \<and> agree t (reloc_width type) d' e'"
proof (cases "type = R_AARCH64_NONE \<or> type = R_AARCH64_ABS64")
  case True
  then show ?thesis using assms by (auto simp: apply_one_reloc_def reloc_width_def reloc_types agree_def put_value_def)
next
  case False
  then have "get_insn e t = get_insn d t" using assms(2) get_insn_agree [of t d e] by (simp add: reloc_width_def)
  then show ?thesis using assms(1) False by (auto simp: reloc_patched reloc_width_def put_insn_agree)
qed

subsection \<open>All relocations\<close>

text \<open>The relocations as the layout gives them: output section, offset in it, address of the place, value of the symbol, type and addend.\<close>

type_synonym patch = "nat \<times> nat \<times> u64 \<times> u64 \<times> int \<times> u64"

definition section_patches :: "SymbolTable \<Rightarrow> OutputSection list \<Rightarrow> ObjectFile \<Rightarrow> nat \<Rightarrow> patch list" where
  "section_patches tab secs obj j =
     (if sh_flags (shdrs obj ! j) AND SHF_ALLOC = 0 then []
      else case find_piece secs (length secs) (oid obj) j of
        None \<Rightarrow> []
      | Some q \<Rightarrow> map (\<lambda>rela. let offset = output_offset (piece_at secs q) + r_offset rela in
          (fst q, unat offset, os_addr (secs ! fst q) + offset, resolve_reloc_symbol obj (ELF64_R_SYM (r_info rela)) tab secs (length secs),
           ELF64_R_TYPE (r_info rela), r_addend rela)) (get_rela_for_section obj j))"

definition patches :: "SymbolTable \<Rightarrow> OutputSection list \<Rightarrow> ObjectFile list \<Rightarrow> patch list" where
  "patches tab secs objs = concat (map (\<lambda>(obj, j). section_patches tab secs obj j) (all_inputs objs))"

definition apply_patch :: "patch \<Rightarrow> OutputSection list \<Rightarrow> OutputSection list option" where
  "apply_patch = (\<lambda>(i, t, p, s, type, a) secs.
     if t + reloc_width type > os_dlen (secs ! i) then None
     else do { d \<leftarrow> apply_one_reloc t p s type a (os_data (secs ! i)); Some (secs[i := (secs ! i)\<lparr>os_data := d\<rparr>]) })"

text \<open>Patching changes no address and no piece.\<close>

definition same_layout :: "OutputSection list \<Rightarrow> OutputSection list \<Rightarrow> bool" where
  "same_layout secs secs' \<longleftrightarrow> length secs' = length secs \<and> (\<forall>i. os_addr (secs' ! i) = os_addr (secs ! i) \<and> pieces (secs' ! i) = pieces (secs ! i) \<and>
     os_dlen (secs' ! i) = os_dlen (secs ! i) \<and> os_size (secs' ! i) = os_size (secs ! i))"

lemma same_layout_refl [simp]: "same_layout secs secs"
  by (simp add: same_layout_def)

lemma same_layout_trans: "same_layout a b \<Longrightarrow> same_layout b c \<Longrightarrow> same_layout a c"
  by (simp add: same_layout_def)

lemma nth_list_update_if: "(xs[i := x]) ! j = (if i = j \<and> i < length xs then x else xs ! j)"
  by (cases "i < length xs"; cases "i = j") (simp_all add: list_update_beyond)

lemma apply_patch_layout: "apply_patch x secs = Some secs' \<Longrightarrow> same_layout secs secs'"
  by (auto simp: apply_patch_def same_layout_def bind_Some_iff nth_list_update_if split: prod.splits if_splits)

lemma same_layout_fields:
  assumes "same_layout secs secs'"
  shows "piece_at secs' = piece_at secs" "all_pieces secs' n = all_pieces secs n" "find_piece secs' n fl j = find_piece secs n fl j"
    "find_section_for_piece secs' n q = find_section_for_piece secs n q" "piece_address secs' n q v = piece_address secs n q v"
    "resolve_local_symbol obj idx secs' n = resolve_local_symbol obj idx secs n"
    "resolve_reloc_symbol obj idx tab secs' n = resolve_reloc_symbol obj idx tab secs n"
proof -
  show pa: "piece_at secs' = piece_at secs" using assms by (auto simp: piece_at_def same_layout_def)
  show ap: "all_pieces secs' n = all_pieces secs n" for n using assms by (simp add: all_pieces_def same_layout_def)
  show fp: "find_piece secs' n fl j = find_piece secs n fl j" for n fl j by (simp add: find_piece_def pa ap)
  show fs: "find_section_for_piece secs' n q = find_section_for_piece secs n q" for q by (simp add: find_section_for_piece_def ap)
  show pd: "piece_address secs' n q v = piece_address secs n q v" for q v
    using assms by (simp add: piece_address_def fs pa same_layout_def)
  show rl: "resolve_local_symbol obj idx secs' n = resolve_local_symbol obj idx secs n"
    unfolding resolve_local_symbol_def fp pd ..
  show "resolve_reloc_symbol obj idx tab secs' n = resolve_reloc_symbol obj idx tab secs n"
    unfolding resolve_reloc_symbol_def rl ..
qed

lemma find_output_section_eq: "find_piece secs n fl j = Some q \<Longrightarrow> find_output_section_idx secs n fl j = int (fst q)"
  by (simp add: find_output_section_idx_def find_piece_def)

lemma apply_rela_patch:
  assumes "same_layout secs0 secs"
  shows "apply_rela tab n obj q (fst q) rela secs =
    apply_patch (let offset = output_offset (piece_at secs0 q) + r_offset rela in
      (fst q, unat offset, os_addr (secs0 ! fst q) + offset, resolve_reloc_symbol obj (ELF64_R_SYM (r_info rela)) tab secs0 n,
       ELF64_R_TYPE (r_info rela), r_addend rela)) secs"
  using assms by (simp add: apply_rela_def apply_patch_def Let_def same_layout_fields [OF assms] same_layout_def)

lemma fold_opt_eq:
  assumes "R s" "\<And>x s. x \<in> set xs \<Longrightarrow> R s \<Longrightarrow> f x s = fold_opt g (h x) s" "\<And>y s s'. R s \<Longrightarrow> g y s = Some s' \<Longrightarrow> R s'"
  shows "fold_opt f xs s = fold_opt g (concat (map h xs)) s"
  using assms(1,2)
proof (induction xs arbitrary: s)
  case (Cons x xs)
  have R: "R s'" if "fold_opt g ys s = Some s'" "R s" for ys s s'
    using that assms(3) by (induction ys arbitrary: s) (auto simp: bind_Some_iff)
  have "fold_opt f xs s' = fold_opt g (concat (map h xs)) s'" if "R s'" for s' using Cons.IH [OF that] Cons.prems(2) by simp
  then show ?case using Cons.prems R by (auto simp: fold_opt_append split: Option.bind_splits)
qed simp

lemma apply_section_patches:
  assumes "same_layout secs0 secs"
  shows "apply_section tab (length secs0) obj j secs = fold_opt apply_patch (section_patches tab secs0 obj j) secs"
proof (cases "find_piece secs0 (length secs0) (oid obj) j")
  case None
  then have "find_piece secs (length secs0) (oid obj) j = None" using same_layout_fields(3) [OF assms] by simp
  then show ?thesis using None by (simp add: apply_section_def section_patches_def Let_def)
next
  case (Some q)
  let ?f = "\<lambda>rela. let offset = output_offset (piece_at secs0 q) + r_offset rela in
      (fst q, unat offset, os_addr (secs0 ! fst q) + offset, resolve_reloc_symbol obj (ELF64_R_SYM (r_info rela)) tab secs0 (length secs0),
       ELF64_R_TYPE (r_info rela), r_addend rela)"
  have "fold_opt (apply_rela tab (length secs0) obj q (fst q)) relas secs = fold_opt apply_patch (concat (map (\<lambda>rela. [?f rela]) relas)) secs" for relas
    using apply_patch_layout same_layout_trans by (intro fold_opt_eq [where R = "same_layout secs0"] assms) (auto simp: apply_rela_patch)
  moreover have "find_piece secs (length secs0) (oid obj) j = Some q" using Some same_layout_fields(3) [OF assms] by simp
  ultimately show ?thesis using Some find_output_section_eq [of secs "length secs0" "oid obj" j q]
    by (simp add: apply_section_def section_patches_def Let_def concat_map_singleton)
qed

lemma apply_relocations_patches:
  "apply_relocations objs tab (length secs) secs = fold_opt apply_patch (patches tab secs objs) secs"
  unfolding apply_relocations_def patches_def fold_inputs
  using apply_patch_layout same_layout_trans by (intro fold_opt_eq [where R = "same_layout secs"]) (auto simp: apply_section_patches)

definition covers :: "patch \<Rightarrow> nat \<Rightarrow> nat \<Rightarrow> bool" where
  "covers = (\<lambda>(i, t, p, s, type, a) i' k. i' = i \<and> t \<le> k \<and> k < t + reloc_width type)"

text \<open>What no relocation covers stays.\<close>

lemma patches_frame:
  assumes "fold_opt apply_patch ps secs = Some secs'" "\<forall>x \<in> set ps. \<not> covers x i k"
  shows "os_data (secs' ! i) k = os_data (secs ! i) k"
  using assms
proof (induction ps arbitrary: secs)
  case (Cons x ps)
  obtain secs1 where s: "apply_patch x secs = Some secs1" "fold_opt apply_patch ps secs1 = Some secs'" using Cons.prems(1) by (auto simp: bind_Some_iff)
  obtain i' t p v type a where x: "x = (i', t, p, v, type, a)" by (cases x) auto
  have "os_data (secs1 ! i) k = os_data (secs ! i) k"
    using s(1) Cons.prems(2) reloc_frame by (fastforce simp: x apply_patch_def covers_def bind_Some_iff nth_list_update_if split: if_splits)
  then show ?case using Cons.IH [OF s(2)] Cons.prems(2) by simp
qed simp

lemma patch_result:
  assumes "fold_opt apply_patch (xs @ (i, t, p, v, type, a) # ys) secs = Some secs'" "i < length secs"
    and "\<forall>y \<in> set xs \<union> set ys. \<forall>k. t \<le> k \<and> k < t + reloc_width type \<longrightarrow> \<not> covers y i k"
  shows "\<exists>d. apply_one_reloc t p v type a (os_data (secs ! i)) = Some d \<and> agree t (reloc_width type) d (os_data (secs' ! i))"
proof -
  obtain secs1 secs2 where s: "fold_opt apply_patch xs secs = Some secs1" "apply_patch (i, t, p, v, type, a) secs1 = Some secs2"
      "fold_opt apply_patch ys secs2 = Some secs'"
    using assms(1) by (auto simp: fold_opt_append bind_Some_iff)
  have len: "length secs1 = length secs"
    using fold_opt_invariant [OF s(1), of same_layout] apply_patch_layout same_layout_trans by (auto simp: same_layout_def)
  have a1: "agree t (reloc_width type) (os_data (secs1 ! i)) (os_data (secs ! i))"
    using patches_frame [OF s(1)] assms(3) by (auto simp: agree_def)
  obtain d where d: "apply_one_reloc t p v type a (os_data (secs1 ! i)) = Some d" "os_data (secs2 ! i) = d"
    using s(2) len assms(2) by (auto simp: apply_patch_def bind_Some_iff split: if_splits)
  have "agree t (reloc_width type) (os_data (secs' ! i)) d"
    using patches_frame [OF s(3)] assms(3) d(2) by (auto simp: agree_def)
  moreover obtain e where "apply_one_reloc t p v type a (os_data (secs ! i)) = Some e" "agree t (reloc_width type) d e"
    using reloc_local [OF d(1) a1] by blast
  ultimately show ?thesis by (auto simp: agree_def)
qed

subsection \<open>What the processor reads\<close>

lemma get_insn_put_value: "get_insn (put_value t v d) t = ucast v" "get_insn (put_value t v d) (t + 4) = ucast (drop_bit 32 v)"
proof -
  have range: "k < 8 \<or> 8 \<le> k \<and> k < 16 \<or> 16 \<le> k \<and> k < 24 \<or> 24 \<le> k \<and> k < 32" if "k < LENGTH(32)" for k using that by auto
  show "get_insn (put_value t v d) t = ucast v"
    by (rule bit_word_eqI, drule range) (auto simp: get_insn_def put_value_def bit_or_iff bit_push_bit_iff bit_ucast_iff bit_drop_bit_eq)
  show "get_insn (put_value t v d) (t + 4) = ucast (drop_bit 32 v)"
    by (rule bit_word_eqI, drule range) (auto simp: get_insn_def put_value_def bit_or_iff bit_push_bit_iff bit_ucast_iff bit_drop_bit_eq)
qed

lemma rd64_put_value: "rd64 (put_value t v d) t = v"
  unfolding rd64_def get_insn_put_value by (rule bit_word_eqI) (auto simp: bit_simps)

lemma rd64_agree: "agree t 8 d e \<Longrightarrow> rd64 d t = rd64 e t"
  by (simp add: agree_def rd64_def get_insn_def)

text \<open>The address that the patched place stands for: a pointer in data, or the target of an instruction; for the two halves of an address the page and the rest.\<close>

definition reads_as :: "int \<Rightarrow> bytes \<Rightarrow> nat \<Rightarrow> u64 \<Rightarrow> u64 \<Rightarrow> bool" where
  "reads_as type d t p x \<longleftrightarrow>
     (if type = R_AARCH64_NONE then True
      else if type = R_AARCH64_ABS64 then rd64 d t = x
      else if type = R_AARCH64_CALL26 \<or> type = R_AARCH64_JUMP26 then branch_target (get_insn d t) p = x
      else if type = R_AARCH64_ADR_PREL_LO21 then adr_value (get_insn d t) p = x
      else if type = R_AARCH64_ADR_PREL_PG_HI21 then adrp_value (get_insn d t) p = x AND NOT 0xfff
      else case lo12_scale type of Some k \<Rightarrow> push_bit k (imm12_field (get_insn d t)) = x AND 0xfff | None \<Rightarrow> False)"

lemma sint_21: "- (2 ^ 20) \<le> i \<Longrightarrow> i < 2 ^ 20 \<Longrightarrow> sint (word_of_int i :: 21 word) = i"
  by (simp add: signed_of_int signed_take_bit_int_eq_self)

lemma adr_lo21_patched:
  assumes "apply_one_reloc t p s R_AARCH64_ADR_PREL_LO21 a d = Some d'"
  shows "adr_value (get_insn d' t) p = s + a"
proof -
  let ?o = "sint (s + a - p)"
  have range: "- (2 ^ 20) \<le> ?o" "?o < 2 ^ 20" and d': "d' = put_insn t (patch_adr (get_insn d t) ?o) d"
    using assms by (simp_all add: apply_one_reloc_def Let_def reloc_types split: if_splits)
  have "sint (word_of_int ?o :: 21 word) = ?o" by (rule sint_21 [OF range])
  then have "scast (word_of_int ?o :: 21 word) = s + a - p" by (simp only: scast_eq) simp
  then show ?thesis by (simp add: adr_value_def d' patch_adr_field)
qed

lemma reloc_reads:
  assumes "apply_one_reloc t p s type a d = Some d'"
  shows "reads_as type d' t p (s + a)"
proof -
  consider "type = R_AARCH64_NONE" | "type = R_AARCH64_ABS64" | "type = R_AARCH64_CALL26 \<or> type = R_AARCH64_JUMP26" | "type = R_AARCH64_ADR_PREL_LO21"
    | "type = R_AARCH64_ADR_PREL_PG_HI21" | k where "lo12_scale type = Some k"
    using assms by (auto simp: apply_one_reloc_def lo12_scale_def split: if_splits)
  then show ?thesis
  proof cases
    case 3
    then have "\<not> (sint (s + a - p) < - (2 ^ 27) \<or> sint (s + a - p) \<ge> 2 ^ 27)" "sint (s + a - p) AND 3 = 0"
        "d' = put_insn t (patch26 (get_insn d t) (sint (s + a - p))) d"
      using assms by (auto simp: apply_one_reloc_def Let_def reloc_types split: if_splits)
    then show ?thesis using 3 branch_patched [of s a p "get_insn d t"] by (auto simp: reads_as_def reloc_types)
  next
    case 4
    then show ?thesis using assms adr_lo21_patched by (auto simp: reads_as_def reloc_types)
  next
    case 5
    then show ?thesis using adrp_patch assms by (fastforce simp: reads_as_def reloc_types adrp_value_def patch_adr_field)
  next
    case (6 k)
    then have "type \<notin> {R_AARCH64_NONE, R_AARCH64_ABS64, R_AARCH64_CALL26, R_AARCH64_JUMP26, R_AARCH64_ADR_PREL_LO21, R_AARCH64_ADR_PREL_PG_HI21}"
      by (auto simp: lo12_scale_def reloc_types split: if_splits)
    then show ?thesis using lo12_patched [OF 6 assms] 6 imm12_patch by (auto simp: reads_as_def)
  qed (use assms rd64_put_value in \<open>auto simp: reads_as_def apply_one_reloc_def reloc_types\<close>)
qed

lemma reads_as_agree: "agree t (reloc_width type) d e \<Longrightarrow> reads_as type d t p x \<longleftrightarrow> reads_as type e t p x"
  using rd64_agree [of t d e] get_insn_agree [of t d e] by (auto simp: reads_as_def reloc_width_def split: option.split)

lemma patches_index: "(i, t, p, s, type, a) \<in> set (patches tab secs objs) \<Longrightarrow> i < length secs"
proof -
  assume "(i, t, p, s, type, a) \<in> set (patches tab secs objs)"
  then obtain obj j where "(i, t, p, s, type, a) \<in> set (section_patches tab secs obj j)" by (auto simp: patches_def)
  then obtain q where "find_piece secs (length secs) (oid obj) j = Some q" "fst q = i"
    by (cases "find_piece secs (length secs) (oid obj) j") (auto simp: section_patches_def Let_def split: if_splits)
  then have "q \<in> set (all_pieces secs (length secs))" by (auto simp: find_piece_def find_Some_iff)
  then show ?thesis using \<open>fst q = i\<close> by (metis all_pieces_in prod.collapse)
qed

text \<open>Property C33. Relocation. When the linker has applied all relocations of all objects, the place of every relocation that overlaps no other one stands for the value of
  its symbol plus the addend, as the processor reads it: pointers in data, calls and jumps, addresses relative to the instruction, and both halves of an address. Bytes that no
  relocation covers are as they were, and no section has moved.\<close>

theorem apply_relocations_correct:
  assumes "apply_relocations objs tab (length secs) secs = Some secs'"
  shows "same_layout secs secs' \<and>
    (\<forall>i k. (\<forall>x \<in> set (patches tab secs objs). \<not> covers x i k) \<longrightarrow> os_data (secs' ! i) k = os_data (secs ! i) k) \<and>
    (\<forall>xs ys i t p s type a. patches tab secs objs = xs @ (i, t, p, s, type, a) # ys \<and>
        (\<forall>y \<in> set xs \<union> set ys. \<forall>k. t \<le> k \<and> k < t + reloc_width type \<longrightarrow> \<not> covers y i k) \<longrightarrow>
      reads_as type (os_data (secs' ! i)) t p (s + a))"
proof -
  note f = assms [unfolded apply_relocations_patches]
  have "same_layout secs secs'"
    using fold_opt_invariant [OF f, of same_layout] apply_patch_layout same_layout_trans by auto
  moreover have "reads_as type (os_data (secs' ! i)) t p (s + a)"
    if ps: "patches tab secs objs = xs @ (i, t, p, s, type, a) # ys"
      and apart: "\<forall>y \<in> set xs \<union> set ys. \<forall>k. t \<le> k \<and> k < t + reloc_width type \<longrightarrow> \<not> covers y i k" for xs ys i t p s type a
  proof -
    have "i < length secs" using patches_index [of i t p s type a tab secs objs] ps by simp
    then obtain d where "apply_one_reloc t p s type a (os_data (secs ! i)) = Some d" "agree t (reloc_width type) d (os_data (secs' ! i))"
      using patch_result [OF f [unfolded ps]] apart by blast
    then show ?thesis using reloc_reads reads_as_agree by blast
  qed
  ultimately show ?thesis using patches_frame [OF f] by blast
qed

text \<open>An object with one call in it, and its output section.\<close>

definition demo_call :: ObjectFile where
  "demo_call = \<lparr>oid = 0, odata = (\<lambda>k. if k < 24 then [0, 0, 0, 0, 0, 0, 0, 0, 27, 1, 0, 0, 0, 0, 0, 0, 16, 0, 1, 0, 0, 0, 0, 0] ! k else 0), osize = 24,
     shdrs = [\<lparr>sh_name = 0, sh_type = SHT_NULL, sh_flags = 0, sh_offset = 0, sh_size = 0, sh_link = 0, sh_info = 0, sh_addralign = 0\<rparr>,
              \<lparr>sh_name = 0, sh_type = SHT_PROGBITS, sh_flags = 6, sh_offset = 0, sh_size = 4, sh_link = 0, sh_info = 0, sh_addralign = 4\<rparr>,
              \<lparr>sh_name = 0, sh_type = SHT_RELA, sh_flags = 0, sh_offset = 0, sh_size = 24, sh_link = 0, sh_info = 1, sh_addralign = 8\<rparr>],
     shstrtab = None, strtab = None, symtab = None\<rparr>"

definition demo_output :: "OutputSection list" where
  "demo_output = [output_section_init (\<lambda>_. 0) [] SHT_NULL 0,
     (output_section_init (\<lambda>_. 0) ''.text'' SHT_PROGBITS 6)\<lparr>os_addr := 0x10000, os_size := 4, os_dlen := 4,
        pieces := [\<lparr>piece_file = 0, input_shndx = 1, output_offset = 0, piece_size = 4\<rparr>]\<rparr>]"

theorem apply_relocations_correct_witness:
  "\<exists>secs'. apply_relocations [demo_call] symtab_init (length demo_output) demo_output = Some secs' \<and>
     branch_target (get_insn (os_data (secs' ! 1)) 0) 0x10000 = 0x10010"
proof -
  have "(case apply_relocations [demo_call] symtab_init (length demo_output) demo_output of None \<Rightarrow> False | Some _ \<Rightarrow> True)" by code_simp
  then obtain secs' where s: "apply_relocations [demo_call] symtab_init (length demo_output) demo_output = Some secs'" by (auto split: option.splits)
  have "patches symtab_init demo_output [demo_call] = [] @ (1, 0, 0x10000, 0, 283, 0x10010) # []" by code_simp
  then have "reads_as 283 (os_data (secs' ! 1)) 0 0x10000 (0 + 0x10010)" using apply_relocations_correct [OF s] by fastforce
  then show ?thesis using s by (simp add: reads_as_def reloc_types)
qed

end
