(* ===== verification/Ld_Output.thy ===== *)
theory Ld_Output
  imports Ld_Link Elf
begin

text \<open>
  The writer of the linker, \<^verbatim>\<open>cmd/ld/output.c\<close>, and how its files meet the program loader of the kernel. An open file is what has been written to it and how the
  kernel will answer the next calls of \<^verbatim>\<open>write\<close>: with a number of bytes taken or an error; when the list is used up every call takes all bytes. A file that cannot be created
  is \<open>None\<close> in the argument; \<open>None\<close> as a result is a read behind the end of the data of a section.
\<close>

subsection \<open>Writing\<close>

record sink =
  written :: "u8 list"
  answers :: "int list"

definition file_write :: "u8 list \<Rightarrow> sink \<Rightarrow> int \<times> sink" where
  "file_write buf f =
     (case answers f of
        [] \<Rightarrow> (int (length buf), f\<lparr>written := written f @ buf\<rparr>)
      | r # rs \<Rightarrow> let w = min r (int (length buf)) in (w, f\<lparr>written := written f @ take (nat w) buf, answers := rs\<rparr>))"

function write_all :: "u8 list \<Rightarrow> sink \<Rightarrow> bool \<times> sink" where
  "write_all buf f =
     (if buf = [] then (True, f)
      else if fst (file_write buf f) \<le> 0 then (False, snd (file_write buf f))
      else write_all (drop (nat (fst (file_write buf f))) buf) (snd (file_write buf f)))"
  by pat_completeness auto
termination by (relation "measure (\<lambda>(buf, f). length buf)") auto

declare write_all.simps [simp del]

function write_zeros :: "nat \<Rightarrow> sink \<Rightarrow> bool \<times> sink" where
  "write_zeros n f =
     (if n = 0 then (True, f)
      else let chunk = min n 512; r = write_all (replicate chunk 0) f in
        if fst r then write_zeros (n - chunk) (snd r) else (False, snd r))"
  by pat_completeness auto
termination by (relation "measure fst") (auto simp: min_def)

declare write_zeros.simps [simp del]

text \<open>The writes in their order, up to the first that fails.\<close>

fun run_writes :: "(sink \<Rightarrow> bool \<times> sink) list \<Rightarrow> sink \<Rightarrow> bool \<times> sink" where
  "run_writes [] f = (True, f)"
| "run_writes (g # gs) f = (let (ok, f) = g f in if ok then run_writes gs f else (False, f))"

subsection \<open>Executables\<close>

definition LD_PF_X :: u32 where "LD_PF_X = 1"
definition LD_PF_W :: u32 where "LD_PF_W = 2"
definition PF_R :: u32 where "PF_R = 4"
definition EHDR_BYTES :: u64 where "EHDR_BYTES = 64"
definition PHDR_BYTES :: u64 where "PHDR_BYTES = 56"

definition ehdr_bytes :: "u64 \<Rightarrow> u8 list" where
  "ehdr_bytes entry =
     [0x7f, 69, 76, 70, 2, 1, 1, 0] @ replicate 8 0 @ enc16 2 @ enc16 183 @ enc32 1 @ enc64 entry @ enc64 EHDR_BYTES @ enc64 0 @ enc32 0 @
     enc16 (ucast EHDR_BYTES) @ enc16 (ucast PHDR_BYTES) @ enc16 2 @ enc16 0 @ enc16 0 @ enc16 0"

definition phdr_bytes :: "u32 \<Rightarrow> u64 \<Rightarrow> u64 \<Rightarrow> u64 \<Rightarrow> u64 \<Rightarrow> u8 list" where
  "phdr_bytes fl off va fsz msz = enc32 1 @ enc32 fl @ enc64 off @ enc64 va @ enc64 va @ enc64 fsz @ enc64 msz @ enc64 LD_PAGE_SIZE"

definition file_align_up :: "u64 \<Rightarrow> u64 \<Rightarrow> u64" where
  "file_align_up val align = (val + align - 1) AND NOT (align - 1)"

definition section_bytes :: "OutputSection \<Rightarrow> u8 list" where
  "section_bytes sec = map (os_data sec) [0..<unat (os_size sec)]"

definition code_file_size :: "OutputSection list \<Rightarrow> u64" where
  "code_file_size secs = os_size (secs ! OUT_TEXT) + os_size (secs ! OUT_RODATA)"

definition data_file_offset :: "OutputSection list \<Rightarrow> u64" where
  "data_file_offset secs = file_align_up (LD_PAGE_SIZE + code_file_size secs) LD_PAGE_SIZE"

definition data_vaddr :: "OutputSection list \<Rightarrow> u64" where
  "data_vaddr secs =
     (if os_size (secs ! OUT_DATA) = 0 \<and> os_size (secs ! OUT_BSS) > 0 then os_addr (secs ! OUT_BSS) else os_addr (secs ! OUT_DATA))"

definition write_executable :: "OutputSection list \<Rightarrow> SymbolTable \<Rightarrow> u8 list \<Rightarrow> sink option \<Rightarrow> (bool \<times> sink option) option" where
  "write_executable secs tab entry fd =
     (case symbol_lookup tab entry of
        None \<Rightarrow> Some (False, fd)
      | Some start \<Rightarrow>
          (case fd of
             None \<Rightarrow> Some (False, None)
           | Some f \<Rightarrow>
               let text = secs ! OUT_TEXT; rodata = secs ! OUT_RODATA; data = secs ! OUT_DATA; bss = secs ! OUT_BSS;
                   headers_end = EHDR_BYTES + 2 * PHDR_BYTES;
                   data_off = data_file_offset secs;
                   put = (\<lambda>sec. if os_size sec > 0 then write_all (section_bytes sec) else (\<lambda>f. (True, f)))
               in if os_dlen text < unat (os_size text) \<or> os_dlen rodata < unat (os_size rodata) \<or> os_dlen data < unat (os_size data) then None
                  else let (ok, f) = run_writes
                    [write_all (ehdr_bytes (s_value start)),
                     write_all (phdr_bytes (PF_R OR LD_PF_X) LD_PAGE_SIZE (os_addr text) (code_file_size secs) (code_file_size secs)),
                     write_all (phdr_bytes (PF_R OR LD_PF_W) data_off (data_vaddr secs) (os_size data) (os_size data + os_size bss)),
                     write_zeros (unat (LD_PAGE_SIZE - headers_end)),
                     put text, put rodata,
                     write_zeros (unat (data_off - (LD_PAGE_SIZE + code_file_size secs))),
                     put data] f
                  in Some (ok, Some f)))"

subsection \<open>Raw images\<close>

definition loadable :: "OutputSection \<Rightarrow> bool" where
  "loadable sec \<longleftrightarrow> os_size sec > 0 \<and> os_type sec \<noteq> SHT_NOBITS"

definition image_base :: "OutputSection list \<Rightarrow> u64" where
  "image_base secs = fold (\<lambda>i base. if loadable (secs ! i) \<and> os_lma (secs ! i) < base then os_lma (secs ! i) else base) [1..<length secs] (- 1)"

definition image_size :: "OutputSection list \<Rightarrow> u64 \<Rightarrow> u64" where
  "image_size secs base = fold (\<lambda>i n. let e = os_lma (secs ! i) - base + os_size (secs ! i) in if loadable (secs ! i) \<and> e > n then e else n) [1..<length secs] 0"

definition copy_image :: "u64 \<Rightarrow> OutputSection \<Rightarrow> bytes \<Rightarrow> bytes option" where
  "copy_image base sec out =
     (if loadable sec \<and> os_dlen sec \<noteq> 0 then
        if os_dlen sec < unat (os_size sec) then None
        else let t = unat (os_lma sec - base) in
          Some (\<lambda>i. if t \<le> i \<and> i < t + unat (os_size sec) then os_data sec (i - t) else out i)
      else Some out)"

definition write_binary :: "OutputSection list \<Rightarrow> sink option \<Rightarrow> (bool \<times> sink option) option" where
  "write_binary secs fd =
     (let base = image_base secs in
      if base = - 1 then Some (False, fd)
      else do {
        out \<leftarrow> fold_opt (\<lambda>i. copy_image base (secs ! i)) [1..<length secs] (\<lambda>_. 0);
        case fd of
          None \<Rightarrow> Some (False, None)
        | Some f \<Rightarrow> let (ok, f) = write_all (map out [0..<unat (image_size secs base)]) f in Some (ok, Some f) })"

subsection \<open>What reaches the file\<close>

text \<open>If it succeeds, the action has appended these bytes, however many calls it took.\<close>

definition emits :: "(sink \<Rightarrow> bool \<times> sink) \<Rightarrow> u8 list \<Rightarrow> bool" where
  "emits g bs \<longleftrightarrow> (\<forall>f. (fst (g f) \<longrightarrow> written (snd (g f)) = written f @ bs) \<and> (answers f = [] \<longrightarrow> fst (g f) \<and> answers (snd (g f)) = []))"

lemma emits_write_all: "emits (write_all buf) buf"
proof -
  have "(fst (write_all buf f) \<longrightarrow> written (snd (write_all buf f)) = written f @ buf) \<and>
      (answers f = [] \<longrightarrow> fst (write_all buf f) \<and> answers (snd (write_all buf f)) = [])" for f
  proof (induction buf f rule: write_all.induct)
    case (1 buf f)
    have w: "written (snd (file_write buf f)) = written f @ take (nat (fst (file_write buf f))) buf"
      "answers f = [] \<longrightarrow> fst (file_write buf f) = int (length buf) \<and> answers (snd (file_write buf f)) = []"
      by (auto simp: file_write_def Let_def split: list.splits)
    show ?case
    proof (cases "buf = [] \<or> fst (file_write buf f) \<le> 0")
      case True
      then show ?thesis using w(2) by (auto simp: write_all.simps [of buf f])
    next
      case False
      then show ?thesis using 1 w by (simp add: write_all.simps [of buf f] write_all.simps [of "[]"])
    qed
  qed
  then show ?thesis by (simp add: emits_def)
qed

lemma emits_write_zeros: "emits (write_zeros n) (replicate n 0)"
proof -
  have "(fst (write_zeros n f) \<longrightarrow> written (snd (write_zeros n f)) = written f @ replicate n 0) \<and>
      (answers f = [] \<longrightarrow> fst (write_zeros n f) \<and> answers (snd (write_zeros n f)) = [])" for f
  proof (induction n f rule: write_zeros.induct)
    case (1 n f)
    let ?r = "write_all (replicate (min n 512) 0) f"
    have w: "fst ?r \<longrightarrow> written (snd ?r) = written f @ replicate (min n 512) 0" "answers f = [] \<longrightarrow> fst ?r \<and> answers (snd ?r) = []"
      using emits_write_all [of "replicate (min n 512) 0"] by (auto simp: emits_def)
    have "replicate (min n 512) (0 :: u8) @ replicate (n - min n 512) 0 = replicate n 0" by (simp add: replicate_add [symmetric])
    then show ?case using 1 w by (auto simp: write_zeros.simps [of n f] Let_def)
  qed
  then show ?thesis by (simp add: emits_def)
qed

lemma emits_run_writes: "list_all2 emits gs bss \<Longrightarrow> emits (run_writes gs) (concat bss)"
proof (induction rule: list_all2_induct)
  case (Cons g gs bs bss)
  have "run_writes (g # gs) f = (if fst (g f) then run_writes gs (snd (g f)) else (False, snd (g f)))" for f by (simp add: Let_def split_beta)
  then show ?case using Cons(1,3) by (simp add: emits_def)
qed (simp add: emits_def)

definition exe_bytes :: "OutputSection list \<Rightarrow> u64 \<Rightarrow> u8 list" where
  "exe_bytes secs entry = concat
     [ehdr_bytes entry, phdr_bytes (PF_R OR LD_PF_X) LD_PAGE_SIZE (os_addr (secs ! OUT_TEXT)) (code_file_size secs) (code_file_size secs),
      phdr_bytes (PF_R OR LD_PF_W) (data_file_offset secs) (data_vaddr secs) (os_size (secs ! OUT_DATA)) (os_size (secs ! OUT_DATA) + os_size (secs ! OUT_BSS)),
      replicate (unat (LD_PAGE_SIZE - (EHDR_BYTES + 2 * PHDR_BYTES))) 0, section_bytes (secs ! OUT_TEXT), section_bytes (secs ! OUT_RODATA),
      replicate (unat (data_file_offset secs - (LD_PAGE_SIZE + code_file_size secs))) 0, section_bytes (secs ! OUT_DATA)]"

lemma emits_section: "emits (if os_size sec > 0 then write_all (section_bytes sec) else (\<lambda>f. (True, f))) (section_bytes sec)"
proof (cases "os_size sec > 0")
  case False
  then have "section_bytes sec = []" by (simp add: section_bytes_def word_gt_0)
  then show ?thesis using False by (simp add: emits_def)
qed (simp add: emits_write_all)

lemma write_executable_eq:
  assumes "symbol_lookup tab entry = Some start" "\<forall>i \<in> {OUT_TEXT, OUT_RODATA, OUT_DATA}. unat (os_size (secs ! i)) \<le> os_dlen (secs ! i)"
  shows "\<exists>ok f'. write_executable secs tab entry (Some f) = Some (ok, Some f') \<and> (ok \<longrightarrow> written f' = written f @ exe_bytes secs (s_value start)) \<and> (answers f = [] \<longrightarrow> ok)"
proof -
  let ?put = "\<lambda>sec. if os_size sec > 0 then write_all (section_bytes sec) else (\<lambda>f. (True, f))"
  define gs where "gs = [write_all (ehdr_bytes (s_value start)),
    write_all (phdr_bytes (PF_R OR LD_PF_X) LD_PAGE_SIZE (os_addr (secs ! OUT_TEXT)) (code_file_size secs) (code_file_size secs)),
    write_all (phdr_bytes (PF_R OR LD_PF_W) (data_file_offset secs) (data_vaddr secs) (os_size (secs ! OUT_DATA)) (os_size (secs ! OUT_DATA) + os_size (secs ! OUT_BSS))),
    write_zeros (unat (LD_PAGE_SIZE - (EHDR_BYTES + 2 * PHDR_BYTES))), ?put (secs ! OUT_TEXT), ?put (secs ! OUT_RODATA),
    write_zeros (unat (data_file_offset secs - (LD_PAGE_SIZE + code_file_size secs))), ?put (secs ! OUT_DATA)]"
  have "emits (run_writes gs) (exe_bytes secs (s_value start))" unfolding gs_def exe_bytes_def
    by (intro emits_run_writes list.rel_intros emits_write_all emits_write_zeros emits_section)
  moreover have "write_executable secs tab entry (Some f) = Some (fst (run_writes gs f), Some (snd (run_writes gs f)))"
    using assms by (simp add: write_executable_def Let_def gs_def not_less split: prod.splits)
  ultimately show ?thesis by (auto simp: emits_def)
qed

subsection \<open>Reading the file back\<close>

lemma get_rd: "get16 = rd16" "get32 = get_insn" "get64 = rd64"
  by (simp_all add: fun_eq_iff get16_def rd16_def get32_def get_insn_def get64_def rd64_def)

lemmas get16_file = rd16_file [folded get_rd] and get32_file = get_insn_file [folded get_rd] and get64_file = rd64_file [folded get_rd]

lemma read_ehdr_bytes:
  "read_ehdr (file_of (ehdr_bytes entry @ r)) =
     \<lparr>e_magic = ELF_MAGIC, e_type = ET_EXEC, e_machine = EM_AARCH64, e_entry = entry, e_phoff = EHDR_BYTES, e_phnum = 2\<rparr>"
proof -
  let ?x = "ehdr_bytes entry @ r"
  have "get32 (file_of ?x) 0 = 0x464C457F" by (simp add: get32_def file_of_def ehdr_bytes_def)
  moreover have "get16 (file_of ?x) 16 = 2" by (rule get16_file) (simp add: ehdr_bytes_def)
  moreover have "get16 (file_of ?x) 18 = 183" by (rule get16_file) (simp add: ehdr_bytes_def)
  moreover have "get64 (file_of ?x) 24 = entry" by (rule get64_file) (simp add: ehdr_bytes_def)
  moreover have "get64 (file_of ?x) 32 = EHDR_BYTES" by (rule get64_file) (simp add: ehdr_bytes_def)
  moreover have "get16 (file_of ?x) 56 = 2" by (rule get16_file) (simp add: ehdr_bytes_def)
  ultimately show ?thesis by (simp add: read_ehdr_def ELF_MAGIC_def ET_EXEC_def EM_AARCH64_def)
qed

lemma read_phdr_bytes:
  assumes "drop i xs = phdr_bytes fl off va fsz msz @ r"
  shows "read_phdr (file_of xs) i = \<lparr>p_type = PT_LOAD, p_flags = fl, p_offset = off, p_vaddr = va, p_filesz = fsz, p_memsz = msz\<rparr>"
proof -
  have d: "drop (i + k) xs = drop k (phdr_bytes fl off va fsz msz @ r)" for k using assms by (metis add.commute drop_drop)
  have "get32 (file_of xs) i = 1" by (rule get32_file) (simp add: assms phdr_bytes_def)
  moreover have "get32 (file_of xs) (i + 4) = fl" by (rule get32_file) (simp add: d phdr_bytes_def)
  moreover have "get64 (file_of xs) (i + 8) = off" by (rule get64_file) (simp add: d phdr_bytes_def)
  moreover have "get64 (file_of xs) (i + 16) = va" by (rule get64_file) (simp add: d phdr_bytes_def)
  moreover have "get64 (file_of xs) (i + 32) = fsz" by (rule get64_file) (simp add: d phdr_bytes_def)
  moreover have "get64 (file_of xs) (i + 40) = msz" by (rule get64_file) (simp add: d phdr_bytes_def)
  ultimately show ?thesis by (simp add: read_phdr_def PT_LOAD_def)
qed

subsection \<open>The program in memory\<close>

text \<open>The byte that the loader of the kernel puts at an address: from the first segment that has it, zero behind the bytes of the file.\<close>

definition loaded_byte :: "bytes \<Rightarrow> elf_phdr list \<Rightarrow> u64 \<Rightarrow> u8 option" where
  "loaded_byte file phs a =
     (case find (\<lambda>ph. p_type ph = PT_LOAD \<and> unat (p_vaddr ph) \<le> unat a \<and> unat a < unat (p_vaddr ph) + unat (p_memsz ph)) phs of
        None \<Rightarrow> None
      | Some ph \<Rightarrow> Some (if a - p_vaddr ph < p_filesz ph then file (unat (p_offset ph + (a - p_vaddr ph))) else 0))"

definition program_headers :: "bytes \<Rightarrow> elf_phdr list" where
  "program_headers file = map (\<lambda>i. read_phdr file (unat (e_phoff (read_ehdr file)) + PHDR_SIZE * i)) [0..<unat (e_phnum (read_ehdr file))]"

lemma length_headers: "length (ehdr_bytes e) = 64" "length (phdr_bytes fl off va fsz msz) = 56"
  by (simp_all add: ehdr_bytes_def phdr_bytes_def)

lemma program_headers_exe:
  "program_headers (file_of (exe_bytes secs e)) =
     [\<lparr>p_type = PT_LOAD, p_flags = PF_R OR LD_PF_X, p_offset = LD_PAGE_SIZE, p_vaddr = os_addr (secs ! OUT_TEXT), p_filesz = code_file_size secs, p_memsz = code_file_size secs\<rparr>,
      \<lparr>p_type = PT_LOAD, p_flags = PF_R OR LD_PF_W, p_offset = data_file_offset secs, p_vaddr = data_vaddr secs, p_filesz = os_size (secs ! OUT_DATA),
       p_memsz = os_size (secs ! OUT_DATA) + os_size (secs ! OUT_BSS)\<rparr>]" (is "_ = [?c, ?d]")
proof -
  let ?x = "exe_bytes secs e"
  obtain r where r: "?x = ehdr_bytes e @ r" by (simp add: exe_bytes_def)
  have "e_phoff (read_ehdr (file_of ?x)) = 64" "e_phnum (read_ehdr (file_of ?x)) = 2" unfolding r read_ehdr_bytes by (simp_all add: EHDR_BYTES_def)
  moreover have "read_phdr (file_of ?x) 64 = ?c" by (rule read_phdr_bytes) (simp add: exe_bytes_def length_headers)
  moreover have "read_phdr (file_of ?x) 120 = ?d" by (rule read_phdr_bytes) (simp add: exe_bytes_def length_headers)
  ultimately show ?thesis by (simp add: program_headers_def PHDR_SIZE_def upt_rec)
qed

text \<open>Where the sections are in the file.\<close>

definition small :: "OutputSection list \<Rightarrow> bool" where
  "small secs \<longleftrightarrow> (\<forall>i \<in> {OUT_TEXT, OUT_RODATA, OUT_DATA, OUT_BSS}. unat (os_size (secs ! i)) < 2 ^ 60)"

lemma exe_offsets:
  assumes "small secs"
  shows "unat (code_file_size secs) = unat (os_size (secs ! OUT_TEXT)) + unat (os_size (secs ! OUT_RODATA))"
    "4096 + unat (code_file_size secs) \<le> unat (data_file_offset secs)" "unat (data_file_offset secs) < 2 ^ 62"
    "unat (data_file_offset secs - (LD_PAGE_SIZE + code_file_size secs)) = unat (data_file_offset secs) - (4096 + unat (code_file_size secs))"
proof -
  have sz: "unat (os_size (secs ! OUT_TEXT)) < 2 ^ 60" "unat (os_size (secs ! OUT_RODATA)) < 2 ^ 60" using assms by (auto simp: small_def)
  show c: "unat (code_file_size secs) = unat (os_size (secs ! OUT_TEXT)) + unat (os_size (secs ! OUT_RODATA))"
    unfolding code_file_size_def using sz by (intro unat_plus_if_size) simp
  have page: "unat LD_PAGE_SIZE = 4096" "LD_PAGE_SIZE \<noteq> 0" by (simp_all add: LD_PAGE_SIZE_def)
  have p: "unat (LD_PAGE_SIZE + code_file_size secs) = 4096 + unat (code_file_size secs)"
    using sz c page(1) unat_plus_if_size [of LD_PAGE_SIZE "code_file_size secs"] by simp
  have "data_file_offset secs = align_up (LD_PAGE_SIZE + code_file_size secs) LD_PAGE_SIZE"
    using page(2) by (simp add: data_file_offset_def file_align_up_def align_up_def)
  then have al: "unat (LD_PAGE_SIZE + code_file_size secs) \<le> unat (data_file_offset secs)" "unat (data_file_offset secs) < unat (LD_PAGE_SIZE + code_file_size secs) + 4096"
    using align_up_correct [OF pow2_page(1), of "LD_PAGE_SIZE + code_file_size secs"] p c sz page(1) by simp_all
  show "4096 + unat (code_file_size secs) \<le> unat (data_file_offset secs)" "unat (data_file_offset secs) < 2 ^ 62" using al p c sz by simp_all
  show "unat (data_file_offset secs - (LD_PAGE_SIZE + code_file_size secs)) = unat (data_file_offset secs) - (4096 + unat (code_file_size secs))"
    using al(1) p by (simp add: unat_sub word_le_nat_alt)
qed

lemma exe_content:
  assumes "small secs"
  shows "k < unat (os_size (secs ! OUT_TEXT)) \<Longrightarrow> file_of (exe_bytes secs e) (4096 + k) = os_data (secs ! OUT_TEXT) k"
    "k < unat (os_size (secs ! OUT_RODATA)) \<Longrightarrow> file_of (exe_bytes secs e) (4096 + unat (os_size (secs ! OUT_TEXT)) + k) = os_data (secs ! OUT_RODATA) k"
    "k < unat (os_size (secs ! OUT_DATA)) \<Longrightarrow> file_of (exe_bytes secs e) (unat (data_file_offset secs) + k) = os_data (secs ! OUT_DATA) k"
proof -
  note o = exe_offsets [OF assms]
  have z: "unat (LD_PAGE_SIZE - (EHDR_BYTES + 2 * PHDR_BYTES)) = 3920" by (simp add: LD_PAGE_SIZE_def EHDR_BYTES_def PHDR_BYTES_def)
  define h where "h = take 4096 (exe_bytes secs e)"
  let ?t = "section_bytes (secs ! OUT_TEXT)" and ?r = "section_bytes (secs ! OUT_RODATA)" and ?d = "section_bytes (secs ! OUT_DATA)"
  let ?z = "replicate (unat (data_file_offset secs) - (4096 + unat (code_file_size secs))) (0 :: u8)"
  have hl: "length h = 4096" and x: "exe_bytes secs e = h @ ?t @ ?r @ ?z @ ?d"
    unfolding h_def exe_bytes_def z o(4) by (simp_all add: length_headers)
  have sec: "section_bytes sec ! k = os_data sec k" "length (section_bytes sec) = unat (os_size sec)" if "k < unat (os_size sec)" for sec k
    using that by (simp_all add: section_bytes_def)
  have len: "length (section_bytes sec) = unat (os_size sec)" for sec by (simp add: section_bytes_def)
  show "file_of (exe_bytes secs e) (4096 + k) = os_data (secs ! OUT_TEXT) k" if "k < unat (os_size (secs ! OUT_TEXT))"
    using file_of_drop [of 4096 "exe_bytes secs e" ?t "?r @ ?z @ ?d" k] that sec(1) by (simp add: x hl len)
  show "file_of (exe_bytes secs e) (4096 + unat (os_size (secs ! OUT_TEXT)) + k) = os_data (secs ! OUT_RODATA) k" if "k < unat (os_size (secs ! OUT_RODATA))"
    using file_of_drop [of "4096 + unat (os_size (secs ! OUT_TEXT))" "exe_bytes secs e" ?r "?z @ ?d" k] that sec(1) by (simp add: x hl len)
  show "file_of (exe_bytes secs e) (unat (data_file_offset secs) + k) = os_data (secs ! OUT_DATA) k" if "k < unat (os_size (secs ! OUT_DATA))"
    using file_of_drop [of "unat (data_file_offset secs)" "exe_bytes secs e" ?d "[]" k] that sec(1) o(1,2) by (simp add: x hl len)
qed

text \<open>The read-only data starts where the code ends; the addresses of the linker have this form when the size of the code is a multiple of the alignment of the data.\<close>

definition contiguous :: "OutputSection list \<Rightarrow> bool" where
  "contiguous secs \<longleftrightarrow> os_size (secs ! OUT_TEXT) \<noteq> 0 \<and> (os_size (secs ! OUT_RODATA) \<noteq> 0 \<longrightarrow> os_addr (secs ! OUT_RODATA) = os_addr (secs ! OUT_TEXT) + os_size (secs ! OUT_TEXT))"

lemma loaded_code:
  assumes "small secs" "sec_start secs OUT_TEXT \<le> unat a" "unat a < sec_start secs OUT_TEXT + unat (code_file_size secs)"
  shows "loaded_byte (file_of (exe_bytes secs e)) (program_headers (file_of (exe_bytes secs e))) a =
    Some (file_of (exe_bytes secs e) (4096 + (unat a - sec_start secs OUT_TEXT)))"
proof -
  note o = exe_offsets [OF assms(1)]
  have d: "unat (a - os_addr (secs ! OUT_TEXT)) = unat a - sec_start secs OUT_TEXT" using assms(2) by (simp add: unat_sub word_le_nat_alt sec_start_def)
  have "unat (LD_PAGE_SIZE + (a - os_addr (secs ! OUT_TEXT))) = 4096 + (unat a - sec_start secs OUT_TEXT)"
    using unat_plus_if_size [of LD_PAGE_SIZE "a - os_addr (secs ! OUT_TEXT)"] d assms(3) o(2,3) by (simp add: LD_PAGE_SIZE_def)
  moreover have "a - os_addr (secs ! OUT_TEXT) < code_file_size secs" using d assms(2,3) by (simp add: word_less_nat_alt)
  ultimately show ?thesis using assms(2,3) by (simp add: loaded_byte_def program_headers_exe sec_start_def)
qed

lemma loaded_data:
  assumes "small secs" "sec_start secs OUT_DATA \<le> unat a" "unat a < sec_end secs OUT_DATA" "sec_start secs OUT_TEXT + unat (code_file_size secs) \<le> unat a"
  shows "loaded_byte (file_of (exe_bytes secs e)) (program_headers (file_of (exe_bytes secs e))) a =
    Some (file_of (exe_bytes secs e) (unat (data_file_offset secs) + (unat a - sec_start secs OUT_DATA)))"
proof -
  note o = exe_offsets [OF assms(1)]
  have sz: "unat (os_size (secs ! OUT_DATA)) < 2 ^ 60" "unat (os_size (secs ! OUT_BSS)) < 2 ^ 60" using assms(1) by (auto simp: small_def)
  have "os_size (secs ! OUT_DATA) \<noteq> 0" using assms(2,3) by (auto simp: sec_start_def sec_end_def)
  then have v: "data_vaddr secs = os_addr (secs ! OUT_DATA)" by (simp add: data_vaddr_def)
  have m: "unat (os_size (secs ! OUT_DATA) + os_size (secs ! OUT_BSS)) = unat (os_size (secs ! OUT_DATA)) + unat (os_size (secs ! OUT_BSS))"
    using sz by (intro unat_plus_if_size) simp
  have d: "unat (a - os_addr (secs ! OUT_DATA)) = unat a - sec_start secs OUT_DATA" using assms(2) by (simp add: unat_sub word_le_nat_alt sec_start_def)
  have "unat (data_file_offset secs + (a - os_addr (secs ! OUT_DATA))) = unat (data_file_offset secs) + (unat a - sec_start secs OUT_DATA)"
    using unat_plus_if_size [of "data_file_offset secs" "a - os_addr (secs ! OUT_DATA)"] d assms(2,3) o(3) sz by (simp add: sec_start_def sec_end_def)
  moreover have "a - os_addr (secs ! OUT_DATA) < os_size (secs ! OUT_DATA)" using d assms(2,3) by (simp add: word_less_nat_alt sec_start_def sec_end_def)
  ultimately show ?thesis using assms(2-4) v m by (simp add: loaded_byte_def program_headers_exe sec_start_def sec_end_def)
qed

lemma exe_loads_image:
  assumes "laid_out [1..<OUT_COUNT] lo hi secs" "hi < 2 ^ 60" "length secs = OUT_COUNT" "contiguous secs"
    and "i \<in> {OUT_TEXT, OUT_RODATA, OUT_DATA}" "sec_start secs i \<le> unat a" "unat a < sec_end secs i"
  shows "loaded_byte (file_of (exe_bytes secs e)) (program_headers (file_of (exe_bytes secs e))) a = image_byte secs a"
proof -
  have "unat (os_size (secs ! j)) < 2 ^ 60" if "j \<in> {OUT_TEXT, OUT_RODATA, OUT_DATA, OUT_BSS}" for j
    using assms(1,2) that by (cases "os_size (secs ! j) = 0") (auto simp: laid_out_def out_indices sec_end_def)
  then have sm: "small secs" by (simp add: small_def)
  note o = exe_offsets [OF sm]
  have ord: "sec_end secs j \<le> sec_start secs k" if "1 \<le> j" "j < k" "k < OUT_COUNT" "os_size (secs ! j) \<noteq> 0" "os_size (secs ! k) \<noteq> 0" for j k
    using laid_out_ordered [OF assms(1)] that by blast
  have i: "1 \<le> i" "i < length secs" using assms(3,5) by (auto simp: out_indices)
  have img: "image_byte secs a = Some (os_data (secs ! i) (unat a - sec_start secs i))"
    using image_byte_at [of secs lo hi i a] assms(1,3,6,7) i by simp
  have nz: "os_size (secs ! i) \<noteq> 0" using assms(6,7) by (auto simp: sec_start_def sec_end_def)
  have ro: "sec_start secs OUT_RODATA = sec_end secs OUT_TEXT" if "os_size (secs ! OUT_RODATA) \<noteq> 0"
    using that assms(1,2,4) unat_plus_if_size [of "os_addr (secs ! OUT_TEXT)" "os_size (secs ! OUT_TEXT)"]
    by (auto simp: contiguous_def laid_out_def out_indices sec_start_def sec_end_def)
  consider "i = OUT_TEXT" | "i = OUT_RODATA" | "i = OUT_DATA" using assms(5) by blast
  then show ?thesis
  proof cases
    case 1
    then show ?thesis using img assms(6,7) loaded_code [OF sm, of a e] exe_content(1) [OF sm, of "unat a - sec_start secs i"] o(1)
      by (simp add: sec_start_def sec_end_def)
  next
    case 2
    have st: "sec_start secs i = sec_start secs OUT_TEXT + unat (os_size (secs ! OUT_TEXT))" using 2 ro nz by (simp add: sec_start_def sec_end_def)
    have k: "unat a - sec_start secs i < unat (os_size (secs ! OUT_RODATA))" using 2 assms(6,7) by (simp add: sec_start_def sec_end_def)
    have "unat a - sec_start secs OUT_TEXT = unat (os_size (secs ! OUT_TEXT)) + (unat a - sec_start secs i)" using st assms(6) by linarith
    moreover have "sec_start secs OUT_TEXT \<le> unat a" "unat a < sec_start secs OUT_TEXT + unat (code_file_size secs)" using st assms(6) k o(1) by linarith+
    ultimately show ?thesis using img exe_content(2) [OF sm k, of e] loaded_code [OF sm, of a e] 2 by (simp only: add.assoc)
  next
    case 3
    have "sec_start secs OUT_TEXT + unat (code_file_size secs) \<le> sec_start secs OUT_DATA"
      using ord [of OUT_TEXT OUT_DATA] ord [of OUT_RODATA OUT_DATA] ro nz 3 assms(4) o(1)
      by (cases "os_size (secs ! OUT_RODATA) = 0") (auto simp: contiguous_def out_indices sec_start_def sec_end_def)
    then show ?thesis using 3 img assms(6,7) loaded_data [OF sm, of a e] exe_content(3) [OF sm, of "unat a - sec_start secs i"]
      by (simp add: sec_start_def sec_end_def)
  qed
qed


text \<open>Four bytes of code at the first address, and no data.\<close>

definition demo_program :: "OutputSection list" where
  "demo_program = (map (\<lambda>nm. output_section_init (\<lambda>_. 0) nm SHT_PROGBITS 2) [[], ''.text'', ''.rodata'', ''.data'', ''.bss''])
     [1 := (output_section_init (\<lambda>_. 0x1F) ''.text'' SHT_PROGBITS 6)\<lparr>os_addr := 0x10000, os_size := 4, os_dlen := 4\<rparr>]"

lemma demo_program_laid_out: "laid_out [1..<OUT_COUNT] 0x10000 0x10004 demo_program" "contiguous demo_program"
  by (simp_all add: laid_out_def contiguous_def demo_program_def output_section_init_def out_indices sec_start_def sec_end_def upt_rec SECTION_ALIGN_def)


text \<open>Without the proviso on the read-only data the file is wrong: behind four bytes of code the linker assigns an address that is a multiple of eight, but the writer leaves no
  gap, and the program finds the fifth byte of its data at the address of the first.\<close>

definition demo_gap :: "OutputSection list" where
  "demo_gap = (map (\<lambda>nm. output_section_init (\<lambda>_. 0) nm SHT_PROGBITS 2) [[], ''.text'', ''.rodata'', ''.data'', ''.bss''])
     [1 := (output_section_init (\<lambda>_. 0x1F) ''.text'' SHT_PROGBITS 6)\<lparr>os_size := 4, os_dlen := 4\<rparr>,
      2 := (output_section_init (\<lambda>k. of_nat k) ''.rodata'' SHT_PROGBITS 2)\<lparr>os_size := 8, os_dlen := 8\<rparr>]"

lemma rodata_shifted:
  "image_byte (assign_addresses demo_gap) 0x10008 = Some 0"
  "loaded_byte (file_of (exe_bytes (assign_addresses demo_gap) e)) (program_headers (file_of (exe_bytes (assign_addresses demo_gap) e))) 0x10008 = Some 4"
proof -
  define t where "t = assign_addresses demo_gap"
  have s: "t = demo_gap[1 := (demo_gap ! 1)\<lparr>os_addr := 0x10000, os_lma := 0x10000\<rparr>, 2 := (demo_gap ! 2)\<lparr>os_addr := 0x10008, os_lma := 0x10008\<rparr>]"
    by (simp add: t_def assign_addresses_def place_section_eq out_indices upt_rec demo_gap_def output_section_init_def TEXT_BASE_def SECTION_ALIGN_def align_up_def Let_def)
  have len: "length t = 5" by (simp add: s demo_gap_def)
  show "image_byte (assign_addresses demo_gap) 0x10008 = Some 0"
    unfolding t_def [symmetric] image_byte_def len by (simp add: s demo_gap_def output_section_init_def upt_rec sec_start_def sec_end_def)
  have sm: "small t" by (simp add: small_def out_indices s demo_gap_def output_section_init_def)
  have c: "unat (code_file_size t) = 12" "unat (os_size (t ! OUT_TEXT)) = 4" "sec_start t OUT_TEXT = 0x10000" "unat (os_size (t ! OUT_RODATA)) = 8"
      "os_data (t ! OUT_RODATA) 4 = 4"
    by (simp_all add: code_file_size_def out_indices s demo_gap_def output_section_init_def sec_start_def)
  show "loaded_byte (file_of (exe_bytes (assign_addresses demo_gap) e)) (program_headers (file_of (exe_bytes (assign_addresses demo_gap) e))) 0x10008 = Some 4"
    unfolding t_def [symmetric] using loaded_code [OF sm, of "0x10008" e] exe_content(2) [OF sm, of 4 e] by (simp add: c)
qed

end
