(* ===== verification/Cc_Hashmap.thy ===== *)
theory Cc_Hashmap
  imports Map_Interface "HOL-Library.Signed_Division"
begin

text \<open>
  The hash table of the compiler, \<^verbatim>\<open>cmd/cc/hashmap.c\<close>: open addressing with linear probing, tombstones for deleted keys, and rehashing when the
  table is 70 per cent full. A key is the list of its \<^verbatim>\<open>keylen\<close> bytes, a value a 64-bit word whose zero is \<^verbatim>\<open>NULL\<close>; the bucket array is a
  list (empty for \<^verbatim>\<open>NULL\<close>) whose length is the field \<^verbatim>\<open>capacity\<close>. \<open>None\<close> is a failed assertion or \<^verbatim>\<open>unreachable\<close>, which end the compiler.

  The table is shown to be a finite map as long as no key that is present is put again after another key was deleted; without that proviso it is not, and
  the last lemma shows a deleted binding coming back.
\<close>

subsection \<open>The program\<close>

definition INIT_SIZE :: nat where "INIT_SIZE = 16"
definition HIGH_WATERMARK :: int where "HIGH_WATERMARK = 70"
definition LOW_WATERMARK :: int where "LOW_WATERMARK = 50"

datatype hkey = Null | Tombstone | Key "u8 list"

record HashEntry =
  hkey :: hkey
  hval :: u64

record HashMap =
  buckets :: "HashEntry list"
  hused :: int

definition fnv_hash :: "u8 list \<Rightarrow> u64" where
  "fnv_hash s = foldl (\<lambda>h c. (h * 0x100000001b3) XOR ucast c) 0xcbf29ce484222325 s"

text \<open>Percentage of use; the product is an \<^verbatim>\<open>int\<close> and wraps.\<close>

definition usage :: "int \<Rightarrow> int \<Rightarrow> int" where
  "usage n cap = int32 (n * 100) sdiv cap"

partial_function (option) grow :: "int \<Rightarrow> int \<Rightarrow> int option" where
  "grow nkeys cap = (if usage nkeys cap \<ge> LOW_WATERMARK then grow nkeys (int32 (cap * 2)) else Some cap)"

definition new_map :: "nat \<Rightarrow> HashMap" where
  "new_map cap = \<lparr>buckets = replicate cap \<lparr>hkey = Null, hval = 0\<rparr>, hused = 0\<rparr>"

definition entry_pair :: "HashEntry \<Rightarrow> (u8 list \<times> u64) list" where
  "entry_pair e = (case hkey e of Key k \<Rightarrow> [(k, hval e)] | _ \<Rightarrow> [])"

definition live_pairs :: "HashEntry list \<Rightarrow> (u8 list \<times> u64) list" where
  "live_pairs b = concat (map entry_pair b)"

definition hslot :: "u64 \<Rightarrow> nat \<Rightarrow> nat \<Rightarrow> nat" where
  "hslot h i cap = unat (h + of_nat i) mod cap"

lemma slot_code [code]: "hslot h i cap = nat (uint (h + of_nat i) mod int cap)"
  by (simp add: hslot_def nat_mod_distrib)

definition match :: "HashEntry \<Rightarrow> u8 list \<Rightarrow> bool" where
  "match e k \<longleftrightarrow> hkey e = Key k"

function get_loop :: "HashEntry list \<Rightarrow> u64 \<Rightarrow> u8 list \<Rightarrow> nat \<Rightarrow> nat option option" where
  "get_loop b h k i =
     (if i < length b then
        let j = hslot h i (length b) in
        if match (b ! j) k then Some (Some j)
        else if hkey (b ! j) = Null then Some None
        else get_loop b h k (i + 1)
      else None)"
  by auto
termination by (relation "measure (\<lambda>(b, h, k, i). length b - i)") auto

declare get_loop.simps [simp del]

definition get_entry :: "HashMap \<Rightarrow> u8 list \<Rightarrow> nat option option" where
  "get_entry m k = (if buckets m = [] then Some None else get_loop (buckets m) (fnv_hash k) k 0)"

definition set_key :: "nat \<Rightarrow> u8 list \<Rightarrow> HashEntry list \<Rightarrow> HashEntry list" where
  "set_key j k b = b[j := (b ! j)\<lparr>hkey := Key k\<rparr>]"

definition set_val :: "nat \<Rightarrow> u64 \<Rightarrow> HashEntry list \<Rightarrow> HashEntry list" where
  "set_val j v b = b[j := (b ! j)\<lparr>hval := v\<rparr>]"

function insert_loop :: "HashMap \<Rightarrow> u64 \<Rightarrow> u8 list \<Rightarrow> nat \<Rightarrow> (HashMap \<times> nat) option" where
  "insert_loop m h k i =
     (if i < length (buckets m) then
        let j = hslot h i (length (buckets m)) in
        if match (buckets m ! j) k then Some (m, j)
        else if hkey (buckets m ! j) = Tombstone then Some (m\<lparr>buckets := set_key j k (buckets m)\<rparr>, j)
        else if hkey (buckets m ! j) = Null then Some (m\<lparr>buckets := set_key j k (buckets m), hused := hused m + 1\<rparr>, j)
        else insert_loop m h k (i + 1)
      else None)"
  by auto
termination by (relation "measure (\<lambda>(m, h, k, i). length (buckets m) - i)") auto

declare insert_loop.simps [simp del]

text \<open>\<^verbatim>\<open>rehash\<close> calls \<^verbatim>\<open>hashmap_put2\<close>, which calls \<^verbatim>\<open>get_or_insert_entry\<close>, which may call \<^verbatim>\<open>rehash\<close>;
  the other two take the middle one as an argument.\<close>

definition rehash :: "(HashMap \<Rightarrow> u8 list \<Rightarrow> u64 \<Rightarrow> HashMap option) \<Rightarrow> HashMap \<Rightarrow> HashMap option" where
  "rehash put m =
     do {
       let nkeys = int (length (live_pairs (buckets m)));
       cap \<leftarrow> grow nkeys (int (length (buckets m)));
       if cap > 0 then
         do {
           m2 \<leftarrow> put_all put (live_pairs (buckets m)) (new_map (nat cap));
           if hused m2 = nkeys then Some m2 else None }
       else None }"

definition get_or_insert_entry :: "(HashMap \<Rightarrow> u8 list \<Rightarrow> u64 \<Rightarrow> HashMap option) \<Rightarrow> HashMap \<Rightarrow> u8 list \<Rightarrow> (HashMap \<times> nat) option" where
  "get_or_insert_entry put m k =
     do {
       m \<leftarrow> (if buckets m = [] then Some (m\<lparr>buckets := buckets (new_map INIT_SIZE)\<rparr>)
            else if usage (hused m) (int (length (buckets m))) \<ge> HIGH_WATERMARK then rehash put m
            else Some m);
       insert_loop m (fnv_hash k) k 0 }"

lemma get_or_insert_mono [partial_function_mono]:
  assumes "\<And>m k v. mono_option (\<lambda>f. F f m k v)"
  shows "mono_option (\<lambda>f. get_or_insert_entry (F f) m k)"
  unfolding get_or_insert_entry_def rehash_def Let_def by (intro bind_mono if_mono option.const_mono put_all_mono assms)

partial_function (option) hashmap_put2 :: "HashMap \<Rightarrow> u8 list \<Rightarrow> u64 \<Rightarrow> HashMap option" where
  "hashmap_put2 m k v =
     do {
       (m, j) \<leftarrow> get_or_insert_entry hashmap_put2 m k;
       Some (m\<lparr>buckets := set_val j v (buckets m)\<rparr>) }"

definition hashmap_get2 :: "HashMap \<Rightarrow> u8 list \<Rightarrow> u64 option" where
  "hashmap_get2 m k = do { ent \<leftarrow> get_entry m k; Some (case ent of Some j \<Rightarrow> hval (buckets m ! j) | None \<Rightarrow> 0) }"

definition hashmap_delete2 :: "HashMap \<Rightarrow> u8 list \<Rightarrow> HashMap option" where
  "hashmap_delete2 m k =
     do {
       ent \<leftarrow> get_entry m k;
       Some (case ent of Some j \<Rightarrow> m\<lparr>buckets := (buckets m)[j := (buckets m ! j)\<lparr>hkey := Tombstone\<rparr>]\<rparr> | None \<Rightarrow> m) }"

subsection \<open>Buckets as a list of bindings\<close>

lemma live_append: "live_pairs (xs @ ys) = live_pairs xs @ live_pairs ys"
  by (simp add: live_pairs_def)

lemma live_Cons: "live_pairs (e # xs) = entry_pair e @ live_pairs xs"
  by (simp add: live_pairs_def)

lemma live_update:
  assumes "j < length b"
  shows "live_pairs b = live_pairs (take j b) @ entry_pair (b ! j) @ live_pairs (drop (Suc j) b)"
    and "live_pairs (b[j := e]) = live_pairs (take j b) @ entry_pair e @ live_pairs (drop (Suc j) b)"
proof -
  show "live_pairs b = live_pairs (take j b) @ entry_pair (b ! j) @ live_pairs (drop (Suc j) b)"
    using assms by (subst id_take_nth_drop [OF assms]) (simp only: live_append live_Cons)
  show "live_pairs (b[j := e]) = live_pairs (take j b) @ entry_pair e @ live_pairs (drop (Suc j) b)"
    using assms by (simp add: upd_conv_take_nth_drop live_append live_Cons)
qed

lemma live_member: "(k, v) \<in> set (live_pairs b) \<longleftrightarrow> (\<exists>j < length b. hkey (b ! j) = Key k \<and> hval (b ! j) = v)"
proof -
  have "(k, v) \<in> set (entry_pair e) \<longleftrightarrow> hkey e = Key k \<and> hval e = v" for e
    by (auto simp: entry_pair_def split: hkey.splits)
  then have "(k, v) \<in> set (live_pairs b) \<longleftrightarrow> (\<exists>e \<in> set b. hkey e = Key k \<and> hval e = v)" by (auto simp: live_pairs_def)
  also have "\<dots> \<longleftrightarrow> (\<exists>j < length b. hkey (b ! j) = Key k \<and> hval (b ! j) = v)" by (metis in_set_conv_nth)
  finally show ?thesis .
qed

lemma live_unique:
  assumes "distinct (map fst (live_pairs b))" "j < length b" "j' < length b" "hkey (b ! j) = Key k" "hkey (b ! j') = Key k"
  shows "j = j'"
proof -
  have "False" if "i < i'" "i' < length b" "hkey (b ! i) = Key k" "hkey (b ! i') = Key k" for i i'
  proof -
    note live_update(1) [OF that(2)]
    moreover have "(k, hval (b ! i)) \<in> set (live_pairs (take i' b))"
      using that by (auto simp: live_member intro!: exI [of _ i])
    ultimately show False using assms(1) that(4) by (force simp: entry_pair_def)
  qed
  then show ?thesis using assms(2-5) by (metis nat_neq_iff)
qed

definition occupied :: "HashEntry list \<Rightarrow> nat" where
  "occupied b = length (filter (\<lambda>e. hkey e \<noteq> Null) b)"

lemma occupied_update:
  assumes "j < length b"
  shows "occupied (b[j := e]) + (if hkey (b ! j) = Null then 0 else 1) = occupied b + (if hkey e = Null then 0 else 1)"
proof -
  have "occupied b = occupied (take j b @ b ! j # drop (Suc j) b)" using id_take_nth_drop [OF assms] by simp
  then show ?thesis using assms by (simp add: occupied_def upd_conv_take_nth_drop)
qed

lemma occupied_less: "occupied b < length b \<longleftrightarrow> (\<exists>j < length b. hkey (b ! j) = Null)"
  unfolding occupied_def by (metis (mono_tags, lifting) in_set_conv_nth length_filter_less length_filter_le filter_True nat_less_le order_less_irrefl)

lemma length_live_le: "length (live_pairs b) \<le> occupied b"
proof (induction b)
  case (Cons e b)
  then show ?case by (auto simp: live_Cons occupied_def entry_pair_def split: hkey.splits)
qed (simp add: live_pairs_def)

subsection \<open>Probing\<close>

text \<open>The sizes that occur: powers of two from 16, small enough for the usage not to overflow.\<close>

definition cap_ok :: "nat \<Rightarrow> bool" where
  "cap_ok c \<longleftrightarrow> (\<exists>i. 4 \<le> i \<and> i \<le> 24 \<and> c = 2 ^ i)"

lemma cap_bounds: "cap_ok c \<Longrightarrow> 16 \<le> c \<and> c \<le> 2 ^ 24 \<and> c dvd 2 ^ 64"
  using power_increasing [of 4 _ "2 :: nat"] power_increasing [of _ 24 "2 :: nat"] le_imp_power_dvd [of _ 64 "2 :: nat"] by (auto simp: cap_ok_def)

lemma slot_eq:
  assumes "cap_ok c" "i < c"
  shows "hslot h i c = (unat h + i) mod c"
proof -
  have "c dvd 2 ^ 64" using cap_bounds [OF assms(1)] by simp
  moreover have "unat (of_nat i :: u64) = i" using assms(2) cap_bounds [OF assms(1)] by (intro unat_of_nat_small) simp
  ultimately show ?thesis by (simp add: hslot_def unat_word_ariths mod_mod_cancel)
qed

lemma slot_less: "cap_ok c \<Longrightarrow> hslot h i c < c"
  using cap_bounds [of c] by (simp add: hslot_def)

lemma slot_onto:
  assumes "cap_ok c" "j < c"
  obtains i where "i < c" "hslot h i c = j"
proof
  let ?r = "unat h mod c"
  let ?i = "(j + (c - ?r)) mod c"
  have c: "0 < c" using assms(2) by simp
  then show "?i < c" by simp
  then have "hslot h ?i c = (?r + (j + (c - ?r))) mod c" using slot_eq [OF assms(1), of ?i h] by (simp add: mod_simps)
  also have "?r + (j + (c - ?r)) = j + c" using mod_less_divisor [OF c, of "unat h"] by linarith
  finally show "hslot h ?i c = j" using assms(2) by simp
qed

text \<open>Every key is found before the first empty bucket of its probe sequence.\<close>

definition reached :: "HashEntry list \<Rightarrow> u64 \<Rightarrow> nat \<Rightarrow> bool" where
  "reached b h j \<longleftrightarrow> (\<exists>i < length b. hslot h i (length b) = j \<and> (\<forall>i' < i. hkey (b ! hslot h i' (length b)) \<noteq> Null))"

definition table_ok :: "HashEntry list \<Rightarrow> bool" where
  "table_ok b \<longleftrightarrow> cap_ok (length b) \<and> distinct (map fst (live_pairs b)) \<and> occupied b < length b \<and>
     (\<forall>j < length b. \<forall>k. hkey (b ! j) = Key k \<longrightarrow> reached b (fnv_hash k) j)"

lemma get_loop_present:
  assumes ok: "table_ok b" and j: "j < length b" "hkey (b ! j) = Key k"
  shows "get_loop b (fnv_hash k) k 0 = Some (Some j)"
proof -
  obtain i where i: "i < length b" "hslot (fnv_hash k) i (length b) = j" "\<forall>i' < i. hkey (b ! hslot (fnv_hash k) i' (length b)) \<noteq> Null"
    using ok j by (auto simp: table_ok_def reached_def)
  have cap: "cap_ok (length b)" and dist: "distinct (map fst (live_pairs b))" using ok by (simp_all add: table_ok_def)
  have "get_loop b (fnv_hash k) k 0 = Some (Some j)" if "0 \<le> i"
    using that
  proof (induction rule: inc_induct)
    case base
    then show ?case using i j by (simp add: get_loop.simps [of b _ k i] match_def)
  next
    case (step n)
    have "hslot (fnv_hash k) n (length b) = j" if "match (b ! hslot (fnv_hash k) n (length b)) k"
      using live_unique [OF dist slot_less [OF cap] j(1)] that j(2) by (simp add: match_def)
    then show ?case using step i by (auto simp: get_loop.simps [of b _ k n] Let_def)
  qed
  then show ?thesis by simp
qed

lemma first_slot:
  assumes "cap_ok c" "j < c" "P j"
  obtains i where "i < c" "P (hslot h i c)" "\<forall>i' < i. \<not> P (hslot h i' c)"
proof -
  obtain i0 where i0: "i0 < c" "hslot h i0 c = j" using slot_onto [OF assms(1,2)] by blast
  let ?i = "LEAST i. P (hslot h i c)"
  have "P (hslot h ?i c)" using i0 assms(3) by (metis LeastI)
  moreover have "?i \<le> i0" using i0 assms(3) by (intro Least_le) simp
  moreover have "\<forall>i' < ?i. \<not> P (hslot h i' c)" using not_less_Least by blast
  ultimately show ?thesis using that i0(1) by (meson le_less_trans)
qed

lemma get_loop_absent:
  assumes ok: "table_ok b" and absent: "\<And>j. j < length b \<Longrightarrow> hkey (b ! j) \<noteq> Key k"
  shows "get_loop b h k 0 = Some None"
proof -
  have cap: "cap_ok (length b)" using ok by (simp add: table_ok_def)
  obtain j where "j < length b" "hkey (b ! j) = Null" using ok by (auto simp: table_ok_def occupied_less)
  then obtain i where i: "i < length b" "hkey (b ! hslot h i (length b)) = Null" "\<forall>i' < i. hkey (b ! hslot h i' (length b)) \<noteq> Null"
    using first_slot [OF cap, of j "\<lambda>j. hkey (b ! j) = Null" h] by blast
  have nomatch: "\<not> match (b ! hslot h n (length b)) k" for n
    using absent slot_less [OF cap] by (simp add: match_def)
  have "get_loop b h k 0 = Some None" if "0 \<le> i"
    using that
  proof (induction rule: inc_induct)
    case base
    then show ?case using i nomatch by (simp add: get_loop.simps [of b _ k i])
  next
    case (step n)
    then show ?case using i nomatch by (simp add: get_loop.simps [of b _ k n])
  qed
  then show ?thesis by simp
qed

text \<open>Insertion of a key that is not present takes the first free bucket; for a key that is present in a table without tombstones it finds the key.\<close>

lemma insert_loop_absent:
  assumes ok: "table_ok (buckets m)" and absent: "\<And>j. j < length (buckets m) \<Longrightarrow> hkey (buckets m ! j) \<noteq> Key k"
  obtains i j where "i < length (buckets m)" "j = hslot h i (length (buckets m))" "hkey (buckets m ! j) \<in> {Null, Tombstone}"
    and "\<forall>i' < i. hkey (buckets m ! hslot h i' (length (buckets m))) \<notin> {Null, Tombstone}"
    and "insert_loop m h k 0 =
      Some (m\<lparr>buckets := set_key j k (buckets m), hused := hused m + (if hkey (buckets m ! j) = Null then 1 else 0)\<rparr>, j)"
proof -
  let ?b = "buckets m"
  have cap: "cap_ok (length ?b)" using ok by (simp add: table_ok_def)
  obtain j0 where "j0 < length ?b" "hkey (?b ! j0) \<in> {Null, Tombstone}" using ok by (auto simp: table_ok_def occupied_less)
  then obtain i where i: "i < length ?b" "hkey (?b ! hslot h i (length ?b)) \<in> {Null, Tombstone}"
      "\<forall>i' < i. hkey (?b ! hslot h i' (length ?b)) \<notin> {Null, Tombstone}"
    using first_slot [OF cap, of j0 "\<lambda>j. hkey (?b ! j) \<in> {Null, Tombstone}" h] by blast
  have nomatch: "\<not> match (?b ! hslot h n (length ?b)) k" for n
    using absent slot_less [OF cap] by (simp add: match_def)
  let ?j = "hslot h i (length ?b)"
  have "insert_loop m h k 0 = Some (m\<lparr>buckets := set_key ?j k ?b, hused := hused m + (if hkey (?b ! ?j) = Null then 1 else 0)\<rparr>, ?j)"
    if "0 \<le> i" using that
  proof (induction rule: inc_induct)
    case base
    then show ?case using i(1,2) nomatch by (auto simp: insert_loop.simps [of m h k i] Let_def)
  next
    case (step n)
    then show ?case using i nomatch by (auto simp: insert_loop.simps [of m h k n] Let_def)
  qed
  then show ?thesis using that [OF i(1) refl i(2,3)] by simp
qed

definition no_tombstone :: "HashEntry list \<Rightarrow> bool" where
  "no_tombstone b \<longleftrightarrow> (\<forall>e \<in> set b. hkey e \<noteq> Tombstone)"

lemma insert_loop_present:
  assumes ok: "table_ok (buckets m)" and j: "j < length (buckets m)" "hkey (buckets m ! j) = Key k" and nt: "no_tombstone (buckets m)"
  shows "insert_loop m (fnv_hash k) k 0 = Some (m, j)"
proof -
  let ?b = "buckets m" and ?h = "fnv_hash k"
  obtain i where i: "i < length ?b" "hslot ?h i (length ?b) = j" "\<forall>i' < i. hkey (?b ! hslot ?h i' (length ?b)) \<noteq> Null"
    using ok j by (auto simp: table_ok_def reached_def)
  have cap: "cap_ok (length ?b)" and dist: "distinct (map fst (live_pairs ?b))" using ok by (simp_all add: table_ok_def)
  have nt': "hkey (?b ! hslot ?h n (length ?b)) \<noteq> Tombstone" for n using nt slot_less [OF cap] by (simp add: no_tombstone_def)
  have "insert_loop m ?h k 0 = Some (m, j)" if "0 \<le> i" using that
  proof (induction rule: inc_induct)
    case base
    then show ?case using i j by (simp add: insert_loop.simps [of m ?h k i] match_def)
  next
    case (step n)
    have "hslot ?h n (length ?b) = j" if "match (?b ! hslot ?h n (length ?b)) k"
      using live_unique [OF dist slot_less [OF cap] j(1)] that j(2) by (simp add: match_def)
    then show ?case using step i nt' by (auto simp: insert_loop.simps [of m ?h k n] Let_def)
  qed
  then show ?thesis by simp
qed

subsection \<open>The table as a map\<close>

definition hm_map :: "HashMap \<Rightarrow> u8 list \<Rightarrow> u64 option" where
  "hm_map m = map_of (live_pairs (buckets m))"

definition hm_ok :: "HashMap \<Rightarrow> bool" where
  "hm_ok m \<longleftrightarrow> hused m = int (occupied (buckets m)) \<and> (buckets m = [] \<or> table_ok (buckets m))"

lemma hm_map_None: "hm_map m k = None \<longleftrightarrow> (\<forall>j < length (buckets m). hkey (buckets m ! j) \<noteq> Key k)"
proof -
  have "hm_map m k = None \<longleftrightarrow> (\<forall>v. (k, v) \<notin> set (live_pairs (buckets m)))" by (force simp: hm_map_def map_of_eq_None_iff)
  then show ?thesis by (auto simp: live_member)
qed

lemma hm_map_Some:
  assumes "table_ok (buckets m)" "j < length (buckets m)" "hkey (buckets m ! j) = Key k"
  shows "hm_map m k = Some (hval (buckets m ! j))"
  using assms by (auto simp: hm_map_def table_ok_def map_of_eq_Some_iff live_member)

lemma get_entry_absent: "hm_ok m \<Longrightarrow> hm_map m k = None \<Longrightarrow> get_entry m k = Some None"
  using get_loop_absent [of "buckets m" k] by (auto simp: get_entry_def hm_ok_def hm_map_None)

lemma get_entry_present:
  assumes "hm_ok m" "hm_map m k = Some v"
  obtains j where "table_ok (buckets m)" "j < length (buckets m)" "hkey (buckets m ! j) = Key k" "hval (buckets m ! j) = v" "get_entry m k = Some (Some j)"
proof -
  have "hm_map m k \<noteq> None" using assms(2) by simp
  then obtain j where j: "j < length (buckets m)" "hkey (buckets m ! j) = Key k" unfolding hm_map_None by blast
  then have ne: "buckets m \<noteq> []" by auto
  then have ok: "table_ok (buckets m)" using assms(1) by (simp add: hm_ok_def)
  have "get_entry m k = Some (Some j)" using ne get_loop_present [OF ok j] by (simp add: get_entry_def)
  then show ?thesis using that ok j hm_map_Some [OF ok j] assms(2) by simp
qed

lemma hashmap_get2_eq:
  assumes "hm_ok m"
  shows "hashmap_get2 m k = Some (case hm_map m k of Some v \<Rightarrow> v | None \<Rightarrow> 0)"
proof (cases "hm_map m k")
  case None
  then show ?thesis using assms by (simp add: hashmap_get2_def get_entry_absent)
next
  case (Some v)
  then show ?thesis using get_entry_present [OF assms Some] by (metis (no_types, lifting) bind.bind_lunit hashmap_get2_def option.simps(5))
qed

subsection \<open>Changing one bucket\<close>

text \<open>Bucket \<open>j\<close> is the only one that may hold \<open>k\<close>.\<close>

definition sole :: "HashEntry list \<Rightarrow> nat \<Rightarrow> u8 list \<Rightarrow> bool" where
  "sole b j k \<longleftrightarrow> j < length b \<and> (\<forall>k'. hkey (b ! j) = Key k' \<longrightarrow> k' = k) \<and> (\<forall>j' < length b. j' \<noteq> j \<longrightarrow> hkey (b ! j') \<noteq> Key k)"

lemma sole_rest:
  assumes "sole b j k"
  shows "k \<notin> fst ` set (live_pairs (take j b))" "k \<notin> fst ` set (live_pairs (drop (Suc j) b))"
proof -
  let ?t = "\<lparr>hkey = Tombstone, hval = 0\<rparr>"
  have j: "j < length b" using assms by (simp add: sole_def)
  have "(k, v) \<notin> set (live_pairs (b[j := ?t]))" for v
    unfolding live_member using assms by (auto simp: sole_def nth_list_update)
  then have "(k, v) \<notin> set (live_pairs (take j b)) \<union> set (live_pairs (drop (Suc j) b))" for v
    using live_update(2) [OF j, of ?t] by (simp add: entry_pair_def)
  then show "k \<notin> fst ` set (live_pairs (take j b))" "k \<notin> fst ` set (live_pairs (drop (Suc j) b))" by auto
qed

lemma map_of_middle: "k \<notin> fst ` set xs \<Longrightarrow> map_of (xs @ (k, v) # ys) = (map_of (xs @ ys))(k \<mapsto> v)"
  by (induction xs) (auto simp: fun_upd_twist)

lemma map_live_set:
  assumes "sole b j k" "hkey e = Key k"
  shows "map_of (live_pairs (b[j := e])) = (map_of (live_pairs b))(k \<mapsto> hval e)"
proof -
  define xs ys where "xs = live_pairs (take j b)" and "ys = live_pairs (drop (Suc j) b)"
  have j: "j < length b" using assms(1) by (simp add: sole_def)
  note l = live_update [OF j, folded xs_def ys_def] sole_rest [OF assms(1), folded xs_def ys_def]
  have "entry_pair (b ! j) = [] \<or> (\<exists>v. entry_pair (b ! j) = [(k, v)])"
    using assms(1) by (auto simp: sole_def entry_pair_def split: hkey.splits)
  moreover have "entry_pair e = [(k, hval e)]" using assms(2) by (simp add: entry_pair_def)
  ultimately show ?thesis using map_of_middle [OF l(3), of _ ys] unfolding l(1,2) by auto
qed

lemma map_live_delete:
  assumes "sole b j k" "hkey e = Tombstone"
  shows "map_of (live_pairs (b[j := e])) = (map_of (live_pairs b))(k := None)"
proof -
  define xs ys where "xs = live_pairs (take j b)" and "ys = live_pairs (drop (Suc j) b)"
  have j: "j < length b" using assms(1) by (simp add: sole_def)
  note l = live_update [OF j, folded xs_def ys_def] sole_rest [OF assms(1), folded xs_def ys_def]
  have "map_of (xs @ ys) k = None" using l(3,4) by (simp add: map_of_eq_None_iff image_Un)
  then have none: "(map_of (xs @ ys))(k := None) = map_of (xs @ ys)" by (simp only: fun_upd_idem)
  have "entry_pair (b ! j) = [] \<or> (\<exists>v. entry_pair (b ! j) = [(k, v)])"
    using assms(1) by (auto simp: sole_def entry_pair_def split: hkey.splits)
  moreover have "entry_pair e = []" using assms(2) by (simp add: entry_pair_def)
  ultimately show ?thesis using map_of_middle [OF l(3), of _ ys] none unfolding l(1,2) by (auto simp: fun_upd_upd)
qed

lemma reached_update: "reached b h x \<Longrightarrow> hkey e \<noteq> Null \<Longrightarrow> reached (b[j := e]) h x"
  unfolding reached_def by (metis length_list_update list_update_beyond not_le nth_list_update)

lemma table_update:
  assumes ok: "table_ok b" and sole: "sole b j k" and e: "hkey e = Tombstone \<or> hkey e = Key k \<and> reached b (fnv_hash k) j"
    and room: "occupied (b[j := e]) < length b"
  shows "table_ok (b[j := e])"
proof -
  define xs ys where "xs = live_pairs (take j b)" and "ys = live_pairs (drop (Suc j) b)"
  have j: "j < length b" using sole by (simp add: sole_def)
  note l = live_update [OF j, folded xs_def ys_def] sole_rest [OF sole, folded xs_def ys_def]
  have "distinct (map fst (xs @ ys))" using ok by (auto simp: table_ok_def l(1))
  then have "distinct (map fst (live_pairs (b[j := e])))" using e l(3,4) by (auto simp: l(2) entry_pair_def simp flip: set_map)
  moreover have "reached (b[j := e]) (fnv_hash k') j'" if "j' < length b" "hkey (b[j := e] ! j') = Key k'" for j' k'
  proof (cases "j' = j")
    case True
    then have "hkey e = Key k'" using that by (simp add: nth_list_update)
    then show ?thesis using True e reached_update by auto
  next
    case False
    then have "reached b (fnv_hash k') j'" using that ok by (simp add: table_ok_def)
    then show ?thesis using e reached_update by auto
  qed
  ultimately show ?thesis using ok room by (simp add: table_ok_def)
qed

lemma sole_present: "table_ok b \<Longrightarrow> j < length b \<Longrightarrow> hkey (b ! j) = Key k \<Longrightarrow> sole b j k"
  unfolding sole_def table_ok_def using live_unique by auto

lemma hashmap_delete2_eq:
  assumes "hm_ok m"
  obtains m' where "hashmap_delete2 m k = Some m'" "hm_ok m'" "hm_map m' = (hm_map m)(k := None)"
proof (cases "hm_map m k")
  case None
  then show ?thesis using assms that by (simp add: hashmap_delete2_def get_entry_absent fun_upd_idem)
next
  case (Some v)
  then obtain j where j: "table_ok (buckets m)" "j < length (buckets m)" "hkey (buckets m ! j) = Key k" "get_entry m k = Some (Some j)"
    using get_entry_present [OF assms] by metis
  let ?e = "(buckets m ! j)\<lparr>hkey := Tombstone\<rparr>"
  let ?b = "(buckets m)[j := ?e]"
  have sole: "sole (buckets m) j k" using j by (intro sole_present)
  have occ: "occupied ?b = occupied (buckets m)" using occupied_update [OF j(2), of ?e] j(3) by simp
  then have "table_ok ?b" using j(1) by (intro table_update [OF j(1) sole]) (auto simp: table_ok_def)
  then have "hm_ok (m\<lparr>buckets := ?b\<rparr>)" using assms occ by (simp add: hm_ok_def)
  moreover have "hm_map (m\<lparr>buckets := ?b\<rparr>) = (hm_map m)(k := None)" using map_live_delete [OF sole, of ?e] by (simp add: hm_map_def)
  ultimately show ?thesis using that j(4) by (simp add: hashmap_delete2_def)
qed

subsection \<open>Insertion\<close>

lemma set_key_val: "j < length b \<Longrightarrow> set_val j v (set_key j k b) = b[j := \<lparr>hkey = Key k, hval = v\<rparr>]"
  by (cases "b ! j") (simp add: set_val_def set_key_def)

lemma hm_map_buckets: "hm_map (m\<lparr>hused := u\<rparr>) = hm_map m" "hm_map (m\<lparr>buckets := b, hused := u\<rparr>) = map_of (live_pairs b)" "hm_map (m\<lparr>hused := u, buckets := b\<rparr>) = map_of (live_pairs b)"
  by (simp_all add: hm_map_def)

lemma no_tombstone_update: "no_tombstone b \<Longrightarrow> hkey e \<noteq> Tombstone \<Longrightarrow> no_tombstone (b[j := e])"
  unfolding no_tombstone_def using set_update_subset_insert by fastforce

text \<open>What one insertion without rehashing does to the buckets.\<close>

definition inserted :: "HashMap \<Rightarrow> u8 list \<Rightarrow> u64 \<Rightarrow> HashMap \<Rightarrow> bool" where
  "inserted m k v m' \<longleftrightarrow> table_ok (buckets m') \<and> hused m' = int (occupied (buckets m')) \<and> length (buckets m') = length (buckets m) \<and>
     hm_map m' = (hm_map m)(k \<mapsto> v) \<and> hused m' \<le> hused m + 1 \<and>
     (no_tombstone (buckets m) \<longrightarrow> no_tombstone (buckets m') \<and> hused m' = hused m + (if hm_map m k = None then 1 else 0))"

lemma insert_absent:
  assumes ok: "table_ok (buckets m)" "hused m = int (occupied (buckets m))" and room: "occupied (buckets m) + 1 < length (buckets m)"
    and absent: "hm_map m k = None"
  shows "\<exists>m1 j. insert_loop m (fnv_hash k) k 0 = Some (m1, j) \<and> inserted m k v (m1\<lparr>buckets := set_val j v (buckets m1)\<rparr>)"
proof -
  let ?b = "buckets m" and ?e = "\<lparr>hkey = Key k, hval = v\<rparr>"
  have none: "\<And>j. j < length ?b \<Longrightarrow> hkey (?b ! j) \<noteq> Key k" using absent by (simp add: hm_map_None)
  obtain i j where i: "i < length ?b" "j = hslot (fnv_hash k) i (length ?b)" "hkey (?b ! j) \<in> {Null, Tombstone}"
      "\<forall>i' < i. hkey (?b ! hslot (fnv_hash k) i' (length ?b)) \<notin> {Null, Tombstone}"
    and run: "insert_loop m (fnv_hash k) k 0 = Some (m\<lparr>buckets := set_key j k ?b, hused := hused m + (if hkey (?b ! j) = Null then 1 else 0)\<rparr>, j)"
    using insert_loop_absent [OF ok(1) none] by metis
  have cap: "cap_ok (length ?b)" using ok(1) by (simp add: table_ok_def)
  have j: "j < length ?b" using slot_less [OF cap] by (simp add: i(2))
  have sole: "sole ?b j k" using i(3) none j by (auto simp: sole_def)
  have reach: "reached ?b (fnv_hash k) j" unfolding reached_def using i by (intro exI [of _ i]) auto
  have occ: "occupied (?b[j := ?e]) = occupied ?b + (if hkey (?b ! j) = Null then 1 else 0)"
    using occupied_update [OF j, of ?e] i(3) by auto
  have "table_ok (?b[j := ?e])" using room occ by (intro table_update [OF ok(1) sole]) (auto simp: reach)
  moreover have "map_of (live_pairs (?b[j := ?e])) = (hm_map m)(k \<mapsto> v)"
    using map_live_set [OF sole, of ?e] by (simp add: hm_map_def)
  moreover have "hkey (?b ! j) = Null" if "no_tombstone ?b" using that i(3) j by (auto simp: no_tombstone_def)
  moreover have "no_tombstone (?b[j := ?e])" if "no_tombstone ?b" using that by (intro no_tombstone_update) simp_all
  ultimately show ?thesis unfolding run inserted_def using j ok(2) occ absent by (auto simp: set_key_val hm_map_buckets)
qed

lemma insert_present:
  assumes ok: "table_ok (buckets m)" "hused m = int (occupied (buckets m))" and nt: "no_tombstone (buckets m)" and k: "hm_map m k \<noteq> None"
  shows "\<exists>m1 j. insert_loop m (fnv_hash k) k 0 = Some (m1, j) \<and> inserted m k v (m1\<lparr>buckets := set_val j v (buckets m1)\<rparr>)"
proof -
  let ?b = "buckets m"
  obtain j where j: "j < length ?b" "hkey (?b ! j) = Key k" using k unfolding hm_map_None by blast
  let ?e = "(?b ! j)\<lparr>hval := v\<rparr>"
  have run: "insert_loop m (fnv_hash k) k 0 = Some (m, j)" by (rule insert_loop_present [OF ok(1) j nt])
  have sole: "sole ?b j k" by (rule sole_present [OF ok(1) j])
  have reach: "reached ?b (fnv_hash k) j" using ok(1) j by (simp add: table_ok_def)
  have occ: "occupied (?b[j := ?e]) = occupied ?b" using occupied_update [OF j(1), of ?e] j(2) by simp
  have "table_ok (?b[j := ?e])" using occ ok(1) j(2) reach by (intro table_update [OF ok(1) sole]) (auto simp: table_ok_def)
  moreover have "hm_map (m\<lparr>buckets := ?b[j := ?e]\<rparr>) = (hm_map m)(k \<mapsto> v)"
    using map_live_set [OF sole, of ?e] j(2) by (simp add: hm_map_def)
  moreover have "no_tombstone (?b[j := ?e])" using nt j(2) by (intro no_tombstone_update) simp_all
  ultimately show ?thesis unfolding run inserted_def using ok(2) occ k by (auto simp: set_val_def)
qed

lemma insert_step:
  assumes "table_ok (buckets m)" "hused m = int (occupied (buckets m))" "occupied (buckets m) + 1 < length (buckets m)"
    and "no_tombstone (buckets m) \<or> hm_map m k = None"
  shows "\<exists>m1 j. insert_loop m (fnv_hash k) k 0 = Some (m1, j) \<and> inserted m k v (m1\<lparr>buckets := set_val j v (buckets m1)\<rparr>)"
  using insert_absent [OF assms(1-3)] insert_present [OF assms(1,2)] assms(4) by (cases "hm_map m k = None") auto

subsection \<open>Rehashing\<close>

lemma usage_eq: "n \<le> 2 ^ 24 \<Longrightarrow> usage (int n) (int c) = int (n * 100 div c)"
proof -
  assume "n \<le> 2 ^ 24"
  then have "int32 (int n * 100) = int n * 100" by (intro int32_range) simp_all
  then show ?thesis by (simp add: usage_def signed_divide_int_def zdiv_int sgn_if)
qed

lemma put_plain:
  assumes "table_ok (buckets m)" "hused m = int (occupied (buckets m))" "occupied (buckets m) * 100 < 70 * length (buckets m)"
    and "no_tombstone (buckets m) \<or> hm_map m k = None"
  shows "\<exists>m'. hashmap_put2 m k v = Some m' \<and> inserted m k v m'"
proof -
  have cap: "16 \<le> length (buckets m)" "length (buckets m) \<le> 2 ^ 24" using assms(1) cap_bounds by (auto simp: table_ok_def)
  then have room: "occupied (buckets m) + 1 < length (buckets m)" using assms(3) by simp
  obtain m1 j where run: "insert_loop m (fnv_hash k) k 0 = Some (m1, j)" "inserted m k v (m1\<lparr>buckets := set_val j v (buckets m1)\<rparr>)"
    using insert_step [OF assms(1,2) room assms(4)] by blast
  have "occupied (buckets m) \<le> 2 ^ 24" using cap(2) room by simp
  then have "usage (hused m) (int (length (buckets m))) < HIGH_WATERMARK"
    using less_mult_imp_div_less [OF assms(3)] by (simp add: assms(2) usage_eq HIGH_WATERMARK_def del: of_nat_div)
  moreover have "buckets m \<noteq> []" using cap(1) by auto
  ultimately have "get_or_insert_entry hashmap_put2 m k = Some (m1, j)" using run(1) by (simp add: get_or_insert_entry_def)
  then show ?thesis using run(2) by (subst hashmap_put2.simps) simp
qed

lemma put_all_eq:
  assumes "table_ok (buckets m)" "no_tombstone (buckets m)" "hused m = int (occupied (buckets m))"
    and "distinct (map fst es)" "\<forall>k \<in> fst ` set es. hm_map m k = None"
    and "(occupied (buckets m) + length es) * 100 < 70 * length (buckets m)"
  shows "\<exists>m'. put_all hashmap_put2 es m = Some m' \<and> table_ok (buckets m') \<and> no_tombstone (buckets m') \<and> length (buckets m') = length (buckets m) \<and>
    hused m' = int (occupied (buckets m')) \<and> occupied (buckets m') = occupied (buckets m) + length es \<and> hm_map m' = hm_map m ++ map_of es"
  using assms
proof (induction es arbitrary: m)
  case (Cons e es)
  obtain k v where e: "e = (k, v)" by fastforce
  obtain m1 where run: "hashmap_put2 m k v = Some m1" and ins: "inserted m k v m1"
    using put_plain [of m k v] Cons.prems by auto
  have none: "hm_map m k = None" using Cons.prems(5) e by simp
  have m1: "table_ok (buckets m1)" "no_tombstone (buckets m1)" "hused m1 = int (occupied (buckets m1))" "hm_map m1 = (hm_map m)(k \<mapsto> v)"
      "length (buckets m1) = length (buckets m)" "occupied (buckets m1) = occupied (buckets m) + 1"
    using ins Cons.prems(2,3) none unfolding inserted_def by auto
  have dom: "k \<notin> dom (map_of es)" using Cons.prems(4) e by (simp add: dom_map_of_conv_image_fst)
  have "\<forall>k' \<in> fst ` set es. hm_map m1 k' = None" using Cons.prems(4,5) e by (auto simp: m1(4))
  then obtain m' where "put_all hashmap_put2 es m1 = Some m'" "table_ok (buckets m')" "no_tombstone (buckets m')" "length (buckets m') = length (buckets m1)"
    "hused m' = int (occupied (buckets m'))" "occupied (buckets m') = occupied (buckets m1) + length es" "hm_map m' = hm_map m1 ++ map_of es"
    using Cons.IH [OF m1(1-3)] Cons.prems(4,6) m1(5,6) by auto
  moreover have "(hm_map m)(k \<mapsto> v) ++ map_of es = hm_map m ++ map_of (e # es)" using dom by (simp add: e map_add_upd_left del: fun_upd_apply)
  ultimately show ?case using run by (simp add: e m1(4-6) del: map_of.simps)
qed auto

lemma grow_eq:
  assumes "n \<le> 2 ^ 22" "cap_ok c"
  shows "\<exists>c'. grow (int n) (int c) = Some (int c') \<and> cap_ok c' \<and> n * 100 < 50 * c'"
proof -
  obtain i where i: "4 \<le> i" "i \<le> 24" "c = 2 ^ i" using assms(2) by (auto simp: cap_ok_def)
  have stop: "grow (int n) (int d) = Some (int d)" if "n * 100 < 50 * d" for d
    using less_mult_imp_div_less [OF that] assms(1) by (subst grow.simps) (simp add: usage_eq LOW_WATERMARK_def del: of_nat_div)
  have double: "grow (int n) (int d) = grow (int n) (int (2 * d))" if "\<not> n * 100 < 50 * d" "0 < d" for d
  proof -
    have "int d * 2 < 2 ^ 31" using that assms(1) by simp
    then have "int32 (int d * 2) = int (2 * d)" by (simp add: int32_range)
    moreover have "50 \<le> n * 100 div d" using that by (simp add: div_less_iff_less_mult not_less [symmetric])
    ultimately show ?thesis using assms(1) by (subst grow.simps) (simp add: usage_eq LOW_WATERMARK_def del: of_nat_div)
  qed
  have "\<exists>c'. grow (int n) (int (2 ^ i)) = Some (int c') \<and> cap_ok c' \<and> n * 100 < 50 * c'" using i(2,1)
  proof (induction rule: inc_induct)
    case base
    have "n * 100 < 50 * 2 ^ 24" using assms(1) by simp
    moreover have "cap_ok (2 ^ 24)" unfolding cap_ok_def by (intro exI [of _ 24]) simp
    ultimately show ?case using stop by blast
  next
    case (step j)
    have "cap_ok (2 ^ j)" unfolding cap_ok_def using step.hyps step.prems by (intro exI [of _ j]) simp
    moreover have "\<exists>c'. grow (int n) (int (2 * 2 ^ j)) = Some (int c') \<and> cap_ok c' \<and> n * 100 < 50 * c'"
      using step.IH step.prems by simp
    ultimately show ?case using stop [of "2 ^ j"] double [of "2 ^ j"] by (cases "n * 100 < 50 * 2 ^ j") auto
  qed
  then show ?thesis by (simp add: i(3))
qed

lemma new_map_ok:
  assumes "cap_ok c"
  shows "table_ok (buckets (new_map c))" "no_tombstone (buckets (new_map c))" "occupied (buckets (new_map c)) = 0" "hused (new_map c) = 0"
    "hm_map (new_map c) = Map.empty" "length (buckets (new_map c)) = c"
proof -
  have "live_pairs (replicate c \<lparr>hkey = Null, hval = 0\<rparr>) = []" by (simp add: live_pairs_def entry_pair_def)
  then show "table_ok (buckets (new_map c))" "hm_map (new_map c) = Map.empty"
    using assms cap_bounds [OF assms] by (auto simp: table_ok_def new_map_def occupied_def hm_map_def)
qed (simp_all add: new_map_def no_tombstone_def occupied_def)

lemma rehash_eq:
  assumes "table_ok (buckets m)" "length (live_pairs (buckets m)) \<le> 2 ^ 22"
  shows "\<exists>m'. rehash hashmap_put2 m = Some m' \<and> table_ok (buckets m') \<and> no_tombstone (buckets m') \<and> hused m' = int (occupied (buckets m')) \<and>
    occupied (buckets m') * 100 < 50 * length (buckets m') \<and> occupied (buckets m') \<le> occupied (buckets m) \<and> hm_map m' = hm_map m"
proof -
  let ?n = "length (live_pairs (buckets m))"
  have cap: "cap_ok (length (buckets m))" and dist: "distinct (map fst (live_pairs (buckets m)))" using assms(1) by (simp_all add: table_ok_def)
  obtain c where c: "grow (int ?n) (int (length (buckets m))) = Some (int c)" "cap_ok c" "?n * 100 < 50 * c"
    using grow_eq [OF assms(2) cap] by blast
  note new = new_map_ok [OF c(2)]
  obtain m' where "put_all hashmap_put2 (live_pairs (buckets m)) (new_map c) = Some m'" "table_ok (buckets m')" "no_tombstone (buckets m')"
      "length (buckets m') = c" "hused m' = int (occupied (buckets m'))" "occupied (buckets m') = ?n" "hm_map m' = hm_map m"
    using put_all_eq [OF new(1,2) _ dist] c(3) by (auto simp: new hm_map_def [of m])
  moreover have "0 < c" using cap_bounds [OF c(2)] by simp
  ultimately show ?thesis using c(1,3) length_live_le [of "buckets m"] by (simp add: rehash_def)
qed

subsection \<open>The operations as operations on a map\<close>

text \<open>At most \<open>2 ^ 22\<close> buckets are in use.\<close>

definition hm_room :: "nat \<Rightarrow> HashMap \<Rightarrow> bool" where
  "hm_room n m \<longleftrightarrow> hm_ok m \<and> no_tombstone (buckets m) \<and> occupied (buckets m) + n \<le> 2 ^ 22"

lemma first_buckets: "hm_ok m \<Longrightarrow> buckets m = [] \<Longrightarrow> m\<lparr>buckets := buckets (new_map INIT_SIZE)\<rparr> = new_map 16"
  by (cases m) (simp add: hm_ok_def occupied_def new_map_def INIT_SIZE_def)

lemma put_start:
  assumes "hm_ok m" "occupied (buckets m) \<le> 2 ^ 22"
  shows "\<exists>m1. (\<forall>k. get_or_insert_entry hashmap_put2 m k = insert_loop m1 (fnv_hash k) k 0) \<and> table_ok (buckets m1) \<and> hused m1 = int (occupied (buckets m1)) \<and>
    occupied (buckets m1) + 1 < length (buckets m1) \<and> hm_map m1 = hm_map m \<and> occupied (buckets m1) \<le> occupied (buckets m) \<and>
    (no_tombstone (buckets m1) \<or> m1 = m) \<and> (no_tombstone (buckets m) \<longrightarrow> no_tombstone (buckets m1))"
proof (cases "buckets m = []")
  case True
  have "cap_ok 16" unfolding cap_ok_def by (intro exI [of _ 4]) simp
  note new = new_map_ok [OF this]
  show ?thesis
    using True new first_buckets [OF assms(1) True]
    by (intro exI [of _ "new_map 16"]) (simp add: get_or_insert_entry_def hm_map_def live_pairs_def)
next
  case False
  then have ok: "table_ok (buckets m)" and u: "hused m = int (occupied (buckets m))" using assms(1) by (simp_all add: hm_ok_def)
  have cap: "16 \<le> length (buckets m)" using ok cap_bounds by (auto simp: table_ok_def)
  show ?thesis
  proof (cases "usage (hused m) (int (length (buckets m))) \<ge> HIGH_WATERMARK")
    case True
    have "length (live_pairs (buckets m)) \<le> 2 ^ 22" using assms(2) length_live_le [of "buckets m"] by simp
    then obtain m' where m': "rehash hashmap_put2 m = Some m'" "table_ok (buckets m')" "no_tombstone (buckets m')" "hused m' = int (occupied (buckets m'))"
        "occupied (buckets m') * 100 < 50 * length (buckets m')" "occupied (buckets m') \<le> occupied (buckets m)" "hm_map m' = hm_map m"
      using rehash_eq [OF ok] by blast
    have "16 \<le> length (buckets m')" using m'(2) cap_bounds by (auto simp: table_ok_def)
    then show ?thesis using m' True False by (intro exI [of _ m']) (simp add: get_or_insert_entry_def)
  next
    case less: False
    have "occupied (buckets m) * 100 div length (buckets m) < 70"
      using less assms(2) by (simp add: u usage_eq HIGH_WATERMARK_def del: of_nat_div)
    then have "occupied (buckets m) * 100 < 70 * length (buckets m)"
      using div_le_mono [of "70 * length (buckets m)" "occupied (buckets m) * 100" "length (buckets m)"] False by fastforce
    then have "occupied (buckets m) + 1 < length (buckets m)" using cap by simp
    then show ?thesis using less False ok u by (intro exI [of _ m]) (simp add: get_or_insert_entry_def)
  qed
qed

lemma hashmap_put2_eq:
  assumes "hm_ok m" "occupied (buckets m) \<le> 2 ^ 22" "no_tombstone (buckets m) \<or> hm_map m k = None"
  shows "\<exists>m'. hashmap_put2 m k v = Some m' \<and> hm_ok m' \<and> hm_map m' = (hm_map m)(k \<mapsto> v) \<and> occupied (buckets m') \<le> occupied (buckets m) + 1 \<and>
    (no_tombstone (buckets m) \<longrightarrow> no_tombstone (buckets m'))"
proof -
  obtain m1 where m1: "get_or_insert_entry hashmap_put2 m k = insert_loop m1 (fnv_hash k) k 0" "table_ok (buckets m1)" "hused m1 = int (occupied (buckets m1))"
      "occupied (buckets m1) + 1 < length (buckets m1)" "hm_map m1 = hm_map m" "occupied (buckets m1) \<le> occupied (buckets m)"
      "no_tombstone (buckets m1) \<or> m1 = m" "no_tombstone (buckets m) \<longrightarrow> no_tombstone (buckets m1)"
    using put_start [OF assms(1,2)] by blast
  have "no_tombstone (buckets m1) \<or> hm_map m1 k = None" using m1(5,7) assms(3) by auto
  then obtain m2 j where m2: "insert_loop m1 (fnv_hash k) k 0 = Some (m2, j)" "inserted m1 k v (m2\<lparr>buckets := set_val j v (buckets m2)\<rparr>)"
    using insert_step [OF m1(2-4)] by blast
  have "hashmap_put2 m k v = Some (m2\<lparr>buckets := set_val j v (buckets m2)\<rparr>)"
    using m1(1) m2(1) by (subst hashmap_put2.simps) simp
  then show ?thesis using m2(2) m1(3,5,6,8) by (auto simp: inserted_def hm_ok_def)
qed

interpretation hm: key_table hm_room hm_map hashmap_put2 hashmap_get2 "\<lambda>r. case r of Some v \<Rightarrow> v | None \<Rightarrow> 0"
proof
  fix n m k v assume "hm_room (Suc n) m"
  then show "\<exists>m'. hashmap_put2 m k v = Some m' \<and> hm_room n m' \<and> hm_map m' = (hm_map m)(k \<mapsto> v)"
    using hashmap_put2_eq [of m k v] by (auto simp: hm_room_def)
next
  fix n m k assume "hm_room n m"
  then show "hashmap_get2 m k = Some (case hm_map m k of Some v \<Rightarrow> v | None \<Rightarrow> 0)" by (intro hashmap_get2_eq) (simp add: hm_room_def)
qed

text \<open>Property C36. The hash table of the compiler is a finite map. In a table without stale entries, with at most \<open>2 ^ 22\<close> buckets in use: a lookup returns the
  value of the key, or \<^verbatim>\<open>NULL\<close>; deletion removes exactly the key; insertion, through growth and rehashing, returns and binds exactly the key, provided the
  table has no tombstone or the key is new. All keep the table well formed: no key twice, every key before the first empty bucket of its probe sequence.\<close>

theorem hashmap_correct:
  assumes "hm_ok m" "occupied (buckets m) \<le> 2 ^ 22"
  shows "hashmap_get2 m k = Some (case hm_map m k of Some v \<Rightarrow> v | None \<Rightarrow> 0) \<and>
    (\<exists>m'. hashmap_delete2 m k = Some m' \<and> hm_ok m' \<and> hm_map m' = (hm_map m)(k := None)) \<and>
    (no_tombstone (buckets m) \<or> hm_map m k = None \<longrightarrow>
      (\<exists>m'. hashmap_put2 m k v = Some m' \<and> hm_ok m' \<and> hm_map m' = (hm_map m)(k \<mapsto> v) \<and> (no_tombstone (buckets m) \<longrightarrow> no_tombstone (buckets m'))))"
  using hashmap_get2_eq [OF assms(1)] hashmap_delete2_eq [OF assms(1), of k] hashmap_put2_eq [OF assms, of k v] by metis

definition empty_map :: HashMap where
  "empty_map = \<lparr>buckets = [], hused = 0\<rparr>"

lemma empty_map_room: "n \<le> 2 ^ 22 \<Longrightarrow> hm_room n empty_map" "hm_map empty_map = Map.empty"
  by (simp_all add: hm_room_def hm_ok_def empty_map_def occupied_def no_tombstone_def hm_map_def live_pairs_def)

theorem hashmap_correct_witness:
  "\<exists>m'. hashmap_put2 empty_map [97] 7 = Some m' \<and> hm_ok m' \<and> hm_map m' = [[97] \<mapsto> 7] \<and> no_tombstone (buckets m')"
proof -
  have "hm_room 0 empty_map" by (rule empty_map_room) simp
  then show ?thesis using hashmap_correct [of empty_map "[97]" 7] by (simp add: hm_room_def empty_map_room(2))
qed

subsection \<open>Stale bindings\<close>

text \<open>The keys \<open>a\<close> and \<open>q\<close> hash to the same bucket of the first table. After \<open>a\<close> is deleted, storing \<open>q\<close> again takes the tombstone in front of the old
  entry of \<open>q\<close>, which stays behind.\<close>

definition stale_map :: "HashMap option" where
  "stale_map =
     do {
       m \<leftarrow> hashmap_put2 empty_map [97] 1;
       m \<leftarrow> hashmap_put2 m [113] 2;
       m \<leftarrow> hashmap_delete2 m [97];
       hashmap_put2 m [113] 3 }"

text \<open>One insertion that needs no rehashing, which the evaluation below can run.\<close>

definition put_run :: "HashMap \<Rightarrow> u8 list \<Rightarrow> u64 \<Rightarrow> HashMap option" where
  "put_run m k v = do { (m, j) \<leftarrow> insert_loop m (fnv_hash k) k 0; Some (m\<lparr>buckets := set_val j v (buckets m)\<rparr>) }"

definition roomy :: "HashMap \<Rightarrow> bool" where
  "roomy m \<longleftrightarrow> buckets m \<noteq> [] \<and> usage (hused m) (int (length (buckets m))) < HIGH_WATERMARK"

lemma put_run: "roomy m \<Longrightarrow> hashmap_put2 m k v = put_run m k v" "hashmap_put2 empty_map k v = put_run (new_map 16) k v"
  by (subst hashmap_put2.simps, simp add: roomy_def put_run_def get_or_insert_entry_def empty_map_def new_map_def INIT_SIZE_def)+

definition stale1 :: HashMap where "stale1 = the (put_run (new_map 16) [97] 1)"
definition stale2 :: HashMap where "stale2 = the (put_run stale1 [113] 2)"
definition stale3 :: HashMap where "stale3 = the (hashmap_delete2 stale2 [97])"

lemma stale_steps:
  "put_run (new_map 16) [97] 1 = Some stale1" "put_run stale1 [113] 2 = Some stale2" "hashmap_delete2 stale2 [97] = Some stale3" "roomy stale1" "roomy stale3"
  by code_simp+

lemma stale_after_delete:
  "\<exists>m. stale_map = Some m \<and> hashmap_get2 m [113] = Some 3 \<and> (hashmap_delete2 m [113] \<bind> (\<lambda>m. hashmap_get2 m [113])) = Some 2"
proof -
  have "\<exists>m. put_run stale3 [113] 3 = Some m \<and> hashmap_get2 m [113] = Some 3 \<and> (hashmap_delete2 m [113] \<bind> (\<lambda>m. hashmap_get2 m [113])) = Some 2"
    by (rule exI [of _ "the (put_run stale3 [113] 3)"]) code_simp
  then show ?thesis by (simp add: stale_map_def put_run stale_steps)
qed

end
