(* ===== verification/Cc_Unicode.thy ===== *)
theory Cc_Unicode
  imports Libc_Ctype
begin

text \<open>
  Unicode in the compiler, \<^verbatim>\<open>cmd/cc/unicode.c\<close>: UTF-8 and the classes of characters. A string is the list of its bytes before the terminating zero, which
  \<^const>\<open>peek\<close> supplies; the decoder returns the code point and the number of bytes it moved the pointer by, or \<open>None\<close> when it reports an invalid sequence.
\<close>

subsection \<open>The program\<close>

definition encode_utf8 :: "u32 \<Rightarrow> u8 list" where
  "encode_utf8 c =
     (if c \<le> 0x7F then [ucast c]
      else if c \<le> 0x7FF then [ucast (0xC0 OR drop_bit 6 c), ucast (0x80 OR (c AND 0x3F))]
      else if c \<le> 0xFFFF then [ucast (0xE0 OR drop_bit 12 c), ucast (0x80 OR (drop_bit 6 c AND 0x3F)), ucast (0x80 OR (c AND 0x3F))]
      else [ucast (0xF0 OR drop_bit 18 c), ucast (0x80 OR (drop_bit 12 c AND 0x3F)), ucast (0x80 OR (drop_bit 6 c AND 0x3F)), ucast (0x80 OR (c AND 0x3F))])"

fun continuation :: "u32 \<Rightarrow> u8 list \<Rightarrow> nat \<Rightarrow> u32 option" where
  "continuation c p 0 = Some c"
| "continuation c p (Suc n) =
     (if drop_bit 6 (peek p) \<noteq> 2 then None else continuation (push_bit 6 c OR ucast (peek p AND 0x3F)) (tl p) n)"

definition decode_utf8 :: "u8 list \<Rightarrow> (u32 \<times> nat) option" where
  "decode_utf8 p =
     (if peek p < 128 then Some (ucast (peek p), 1)
      else do {
        (len, c) \<leftarrow> (if peek p \<ge> 0xF0 then Some (4, peek p AND 7)
                    else if peek p \<ge> 0xE0 then Some (3, peek p AND 0xF)
                    else if peek p \<ge> 0xC0 then Some (2, peek p AND 0x1F)
                    else None);
        c \<leftarrow> continuation (ucast c) (tl p) (len - 1);
        Some (c, len) })"

definition in_range :: "(u32 \<times> u32) list \<Rightarrow> u32 \<Rightarrow> bool" where
  "in_range r c \<longleftrightarrow> list_ex (\<lambda>(a, b). a \<le> c \<and> c \<le> b) r"

definition ident1_range :: "(u32 \<times> u32) list" where
  "ident1_range =
     [(0x5F, 0x5F), (0x61, 0x7A), (0x41, 0x5A), (0x24, 0x24), (0x00A8, 0x00A8), (0x00AA, 0x00AA), (0x00AD, 0x00AD), (0x00AF, 0x00AF),
      (0x00B2, 0x00B5), (0x00B7, 0x00BA), (0x00BC, 0x00BE), (0x00C0, 0x00D6), (0x00D8, 0x00F6), (0x00F8, 0x00FF), (0x0100, 0x02FF), (0x0370, 0x167F),
      (0x1681, 0x180D), (0x180F, 0x1DBF), (0x1E00, 0x1FFF), (0x200B, 0x200D), (0x202A, 0x202E), (0x203F, 0x2040), (0x2054, 0x2054), (0x2060, 0x206F),
      (0x2070, 0x20CF), (0x2100, 0x218F), (0x2460, 0x24FF), (0x2776, 0x2793), (0x2C00, 0x2DFF), (0x2E80, 0x2FFF), (0x3004, 0x3007), (0x3021, 0x302F),
      (0x3031, 0x303F), (0x3040, 0xD7FF), (0xF900, 0xFD3D), (0xFD40, 0xFDCF), (0xFDF0, 0xFE1F), (0xFE30, 0xFE44), (0xFE47, 0xFFFD),
      (0x10000, 0x1FFFD), (0x20000, 0x2FFFD), (0x30000, 0x3FFFD), (0x40000, 0x4FFFD), (0x50000, 0x5FFFD), (0x60000, 0x6FFFD), (0x70000, 0x7FFFD),
      (0x80000, 0x8FFFD), (0x90000, 0x9FFFD), (0xA0000, 0xAFFFD), (0xB0000, 0xBFFFD), (0xC0000, 0xCFFFD), (0xD0000, 0xDFFFD), (0xE0000, 0xEFFFD)]"

definition ident2_range :: "(u32 \<times> u32) list" where
  "ident2_range =
     [(0x30, 0x39), (0x24, 0x24), (0x0300, 0x036F), (0x1DC0, 0x1DFF), (0x20D0, 0x20FF), (0xFE20, 0xFE2F)]"

definition width_range1 :: "(u32 \<times> u32) list" where
  "width_range1 =
     [(0x0000, 0x001F), (0x007f, 0x00a0), (0x0300, 0x036F), (0x0483, 0x0486), (0x0488, 0x0489), (0x0591, 0x05BD), (0x05BF, 0x05BF), (0x05C1, 0x05C2),
      (0x05C4, 0x05C5), (0x05C7, 0x05C7), (0x0600, 0x0603), (0x0610, 0x0615), (0x064B, 0x065E), (0x0670, 0x0670), (0x06D6, 0x06E4), (0x06E7, 0x06E8),
      (0x06EA, 0x06ED), (0x070F, 0x070F), (0x0711, 0x0711), (0x0730, 0x074A), (0x07A6, 0x07B0), (0x07EB, 0x07F3), (0x0901, 0x0902), (0x093C, 0x093C),
      (0x0941, 0x0948), (0x094D, 0x094D), (0x0951, 0x0954), (0x0962, 0x0963), (0x0981, 0x0981), (0x09BC, 0x09BC), (0x09C1, 0x09C4), (0x09CD, 0x09CD),
      (0x09E2, 0x09E3), (0x0A01, 0x0A02), (0x0A3C, 0x0A3C), (0x0A41, 0x0A42), (0x0A47, 0x0A48), (0x0A4B, 0x0A4D), (0x0A70, 0x0A71), (0x0A81, 0x0A82),
      (0x0ABC, 0x0ABC), (0x0AC1, 0x0AC5), (0x0AC7, 0x0AC8), (0x0ACD, 0x0ACD), (0x0AE2, 0x0AE3), (0x0B01, 0x0B01), (0x0B3C, 0x0B3C), (0x0B3F, 0x0B3F),
      (0x0B41, 0x0B43), (0x0B4D, 0x0B4D), (0x0B56, 0x0B56), (0x0B82, 0x0B82), (0x0BC0, 0x0BC0), (0x0BCD, 0x0BCD), (0x0C3E, 0x0C40), (0x0C46, 0x0C48),
      (0x0C4A, 0x0C4D), (0x0C55, 0x0C56), (0x0CBC, 0x0CBC), (0x0CBF, 0x0CBF), (0x0CC6, 0x0CC6), (0x0CCC, 0x0CCD), (0x0CE2, 0x0CE3), (0x0D41, 0x0D43),
      (0x0D4D, 0x0D4D), (0x0DCA, 0x0DCA), (0x0DD2, 0x0DD4), (0x0DD6, 0x0DD6), (0x0E31, 0x0E31), (0x0E34, 0x0E3A), (0x0E47, 0x0E4E), (0x0EB1, 0x0EB1),
      (0x0EB4, 0x0EB9), (0x0EBB, 0x0EBC), (0x0EC8, 0x0ECD), (0x0F18, 0x0F19), (0x0F35, 0x0F35), (0x0F37, 0x0F37), (0x0F39, 0x0F39), (0x0F71, 0x0F7E),
      (0x0F80, 0x0F84), (0x0F86, 0x0F87), (0x0F90, 0x0F97), (0x0F99, 0x0FBC), (0x0FC6, 0x0FC6), (0x102D, 0x1030), (0x1032, 0x1032), (0x1036, 0x1037),
      (0x1039, 0x1039), (0x1058, 0x1059), (0x1160, 0x11FF), (0x135F, 0x135F), (0x1712, 0x1714), (0x1732, 0x1734), (0x1752, 0x1753), (0x1772, 0x1773),
      (0x17B4, 0x17B5), (0x17B7, 0x17BD), (0x17C6, 0x17C6), (0x17C9, 0x17D3), (0x17DD, 0x17DD), (0x180B, 0x180D), (0x18A9, 0x18A9), (0x1920, 0x1922),
      (0x1927, 0x1928), (0x1932, 0x1932), (0x1939, 0x193B), (0x1A17, 0x1A18), (0x1B00, 0x1B03), (0x1B34, 0x1B34), (0x1B36, 0x1B3A), (0x1B3C, 0x1B3C),
      (0x1B42, 0x1B42), (0x1B6B, 0x1B73), (0x1DC0, 0x1DCA), (0x1DFE, 0x1DFF), (0x200B, 0x200F), (0x202A, 0x202E), (0x2060, 0x2063), (0x206A, 0x206F),
      (0x20D0, 0x20EF), (0x302A, 0x302F), (0x3099, 0x309A), (0xA806, 0xA806), (0xA80B, 0xA80B), (0xA825, 0xA826), (0xFB1E, 0xFB1E), (0xFE00, 0xFE0F),
      (0xFE20, 0xFE23), (0xFEFF, 0xFEFF), (0xFFF9, 0xFFFB), (0x10A01, 0x10A03), (0x10A05, 0x10A06), (0x10A0C, 0x10A0F), (0x10A38, 0x10A3A),
      (0x10A3F, 0x10A3F), (0x1D167, 0x1D169), (0x1D173, 0x1D182), (0x1D185, 0x1D18B), (0x1D1AA, 0x1D1AD), (0x1D242, 0x1D244), (0xE0001, 0xE0001),
      (0xE0020, 0xE007F), (0xE0100, 0xE01EF)]"

definition width_range2 :: "(u32 \<times> u32) list" where
  "width_range2 =
     [(0x1100, 0x115F), (0x2329, 0x2329), (0x232A, 0x232A), (0x2E80, 0x303E), (0x3040, 0xA4CF), (0xAC00, 0xD7A3), (0xF900, 0xFAFF), (0xFE10, 0xFE19),
      (0xFE30, 0xFE6F), (0xFF00, 0xFF60), (0xFFE0, 0xFFE6), (0x1F000, 0x1F644), (0x20000, 0x2FFFD), (0x30000, 0x3FFFD)]"

definition is_ident1 :: "u32 \<Rightarrow> bool" where
  "is_ident1 c \<longleftrightarrow> in_range ident1_range c"

definition is_ident2 :: "u32 \<Rightarrow> bool" where
  "is_ident2 c \<longleftrightarrow> is_ident1 c \<or> in_range ident2_range c"

definition char_width :: "u32 \<Rightarrow> int" where
  "char_width c = (if in_range width_range1 c then 0 else if in_range width_range2 c then 2 else 1)"

lemma decode_length: "decode_utf8 p = Some (c, k) \<Longrightarrow> 1 \<le> k \<and> k \<le> 4"
  by (auto simp: decode_utf8_def bind_Some_iff split: if_splits)

text \<open>The loop runs while the pointer is less than \<open>n\<close> bytes from the start; the last character may end beyond.\<close>

function display_width :: "u8 list \<Rightarrow> nat \<Rightarrow> int option" where
  "display_width p n =
     (if 0 < n then
        case decode_utf8 p of
          None \<Rightarrow> None
        | Some (c, k) \<Rightarrow> map_option (\<lambda>w. char_width c + w) (display_width (drop k p) (n - k))
      else Some 0)"
  by auto
termination by (relation "measure snd") (use decode_length in fastforce)+

declare display_width.simps [simp del]

subsection \<open>Encoding and decoding\<close>

lemma masks: "(0x3F :: u32) = mask 6" "(0x3F :: u8) = mask 6" "(0x80 :: u32) = push_bit 7 1"
  by (simp_all add: mask_eq_exp_minus_1)

lemma cont_byte: "drop_bit 6 (ucast (0x80 OR (x AND 0x3F)) :: u8) = 2" "(ucast (ucast (0x80 OR (x AND 0x3F) :: u32) AND 0x3F :: u8) :: u32) = x AND 0x3F"
proof -
  have two: "(2 :: u8) = push_bit 1 1" by simp
  show "drop_bit 6 (ucast (0x80 OR (x AND 0x3F)) :: u8) = 2"
    unfolding masks two by (rule bit_word_eqI) (auto simp: bit_simps simp del: push_bit_of_1)
  show "(ucast (ucast (0x80 OR (x AND 0x3F) :: u32) AND 0x3F :: u8) :: u32) = x AND 0x3F"
    unfolding masks by (rule bit_word_eqI) (auto simp: bit_simps simp del: push_bit_of_1)
qed

lemma continuation_step:
  "continuation c (ucast (0x80 OR (x AND 0x3F) :: u32) # p) (Suc n) = continuation (push_bit 6 c OR (x AND 0x3F)) p n"
  by (simp add: peek_def cont_byte)

lemma six_bits: "push_bit 6 (drop_bit 6 x) OR (x AND 0x3F) = x" for x :: u32
  unfolding masks by (rule bit_word_eqI) (auto simp: bit_simps)

lemma drop_six: "drop_bit 12 x = drop_bit 6 (drop_bit 6 x)" "drop_bit 18 x = drop_bit 6 (drop_bit 12 x)" for x :: u32
  by simp_all

text \<open>Leading bytes of sequences of two, three and four bytes.\<close>

lemma lead_bytes:
  "y < 32 \<Longrightarrow> 0xC0 \<le> (ucast (0xC0 OR y) :: u8) \<and> (ucast (0xC0 OR y) :: u8) < 0xE0 \<and> ucast (ucast (0xC0 OR y) AND 0x1F :: u8) = y"
  "y < 16 \<Longrightarrow> 0xE0 \<le> (ucast (0xE0 OR y) :: u8) \<and> (ucast (0xE0 OR y) :: u8) < 0xF0 \<and> ucast (ucast (0xE0 OR y) AND 0xF :: u8) = y"
  "y < 8 \<Longrightarrow> 0xF0 \<le> (ucast (0xF0 OR y) :: u8) \<and> ucast (ucast (0xF0 OR y) AND 7 :: u8) = y"
  for y :: u32
proof -
  have word: "y \<in> set (map word_of_int [0..int n - 1])" if "y < of_nat n" "n \<le> 32" for n
  proof -
    have "uint y < int n" using that by (simp add: word_less_def unsigned_of_nat take_bit_nat_eq_self)
    then show ?thesis by (auto intro!: image_eqI [of y word_of_int "uint y"])
  qed
  have all: "list_all (\<lambda>y. 0xC0 \<le> (ucast (0xC0 OR y) :: u8) \<and> (ucast (0xC0 OR y) :: u8) < 0xE0 \<and> ucast (ucast (0xC0 OR y) AND 0x1F :: u8) = y) (map word_of_int [0..31 :: int] :: u32 list)"
    "list_all (\<lambda>y. 0xE0 \<le> (ucast (0xE0 OR y) :: u8) \<and> (ucast (0xE0 OR y) :: u8) < 0xF0 \<and> ucast (ucast (0xE0 OR y) AND 0xF :: u8) = y) (map word_of_int [0..15 :: int] :: u32 list)"
    "list_all (\<lambda>y. 0xF0 \<le> (ucast (0xF0 OR y) :: u8) \<and> ucast (ucast (0xF0 OR y) AND 7 :: u8) = y) (map word_of_int [0..7 :: int] :: u32 list)"
    by code_simp+
  show "y < 32 \<Longrightarrow> 0xC0 \<le> (ucast (0xC0 OR y) :: u8) \<and> (ucast (0xC0 OR y) :: u8) < 0xE0 \<and> ucast (ucast (0xC0 OR y) AND 0x1F :: u8) = y"
    using all(1) word [of 32] unfolding list_all_iff by auto
  show "y < 16 \<Longrightarrow> 0xE0 \<le> (ucast (0xE0 OR y) :: u8) \<and> (ucast (0xE0 OR y) :: u8) < 0xF0 \<and> ucast (ucast (0xE0 OR y) AND 0xF :: u8) = y"
    using all(2) word [of 16] unfolding list_all_iff by auto
  show "y < 8 \<Longrightarrow> 0xF0 \<le> (ucast (0xF0 OR y) :: u8) \<and> ucast (ucast (0xF0 OR y) AND 7 :: u8) = y"
    using all(3) word [of 8] unfolding list_all_iff by auto
qed

lemma drop_less: "c \<le> of_nat (2 ^ (k + n) - 1) \<Longrightarrow> k + n \<le> 31 \<Longrightarrow> drop_bit n c < of_nat (2 ^ k)" for c :: u32
proof -
  assume a: "c \<le> of_nat (2 ^ (k + n) - 1)" "k + n \<le> 31"
  have p: "(2 :: nat) ^ (k + n) \<le> 2 ^ 31" "(2 :: nat) ^ k \<le> 2 ^ 31" using a(2) by (intro power_increasing; simp)+
  then have "unat (of_nat (2 ^ (k + n) - 1) :: u32) = 2 ^ (k + n) - 1" "unat (of_nat (2 ^ k) :: u32) = 2 ^ k"
    by (intro unat_of_nat_small, simp)+
  then have "unat c < 2 ^ k * 2 ^ n" using a(1) by (auto simp: word_le_nat_alt power_add [symmetric] intro: le_less_trans)
  then have "unat (drop_bit n c) < 2 ^ k" unfolding unat_drop_bit_eq unfolding drop_bit_eq_div by (rule less_mult_imp_div_less)
  then show ?thesis using \<open>unat (of_nat (2 ^ k) :: u32) = 2 ^ k\<close> by (simp only: word_less_nat_alt)
qed

lemma decode_lead:
  "0xC0 \<le> b \<Longrightarrow> b < 0xE0 \<Longrightarrow> decode_utf8 (b # p) = (continuation (ucast (b AND 0x1F)) p 1 \<bind> (\<lambda>c. Some (c, 2)))"
  "0xE0 \<le> b \<Longrightarrow> b < 0xF0 \<Longrightarrow> decode_utf8 (b # p) = (continuation (ucast (b AND 0xF)) p 2 \<bind> (\<lambda>c. Some (c, 3)))"
  "0xF0 \<le> b \<Longrightarrow> decode_utf8 (b # p) = (continuation (ucast (b AND 7)) p 3 \<bind> (\<lambda>c. Some (c, 4)))"
  by (auto simp: decode_utf8_def peek_def word_le_nat_alt word_less_nat_alt)

text \<open>Property C38. Decoding what \<^verbatim>\<open>encode_utf8\<close> wrote gives the code point back and moves the pointer over exactly the bytes written, whatever follows; for every
  value of up to 21 bits, which includes all of Unicode.\<close>

theorem utf8_roundtrip:
  assumes "c < 2 ^ 21"
  shows "decode_utf8 (encode_utf8 c @ rest) = Some (c, length (encode_utf8 c))"
proof -
  note steps = numeral_2_eq_2 numeral_3_eq_3 One_nat_def continuation_step
  consider (one) "c \<le> 0x7F" | (two) "\<not> c \<le> 0x7F" "c \<le> 0x7FF" | (three) "\<not> c \<le> 0x7F" "\<not> c \<le> 0x7FF" "c \<le> 0xFFFF"
    | (four) "\<not> c \<le> 0x7F" "\<not> c \<le> 0x7FF" "\<not> c \<le> 0xFFFF" by blast
  then show ?thesis
  proof cases
    case one
    then have "unat c < 128" by (simp add: word_le_nat_alt)
    then have "unat (ucast c :: u8) = unat c" by (simp add: unat_ucast)
    moreover have "ucast (ucast c :: u8) = c" using \<open>unat c < 128\<close> by (intro word_eq_unatI) (simp add: unat_ucast)
    ultimately show ?thesis using one \<open>unat c < 128\<close> by (simp add: encode_utf8_def decode_utf8_def peek_def word_less_nat_alt)
  next
    case two
    have "drop_bit 6 c < 32" using drop_less [of c 5 6] two(2) by simp
    then show ?thesis using two lead_bytes(1) [of "drop_bit 6 c"] six_bits [of c]
      by (simp add: encode_utf8_def decode_lead(1) steps del: continuation.simps(2))
  next
    case three
    have "drop_bit 12 c < 16" using drop_less [of c 4 12] three(3) by simp
    then show ?thesis using three lead_bytes(2) [of "drop_bit 12 c"] six_bits [of c] six_bits [of "drop_bit 6 c"]
      by (simp add: encode_utf8_def decode_lead(2) steps del: continuation.simps(2))
  next
    case four
    have "c \<le> 0x1FFFFF" using assms by (simp add: word_le_nat_alt word_less_nat_alt)
    then have "drop_bit 18 c < 8" using drop_less [of c 3 18] by simp
    then show ?thesis using four lead_bytes(3) [of "drop_bit 18 c"] six_bits [of c] six_bits [of "drop_bit 6 c"] six_bits [of "drop_bit 12 c"]
      by (simp add: encode_utf8_def decode_lead(3) steps del: continuation.simps(2))
  qed
qed

theorem utf8_roundtrip_witness: "decode_utf8 (encode_utf8 0x1F600 @ [65]) = Some (0x1F600, 4)"
proof -
  have "length (encode_utf8 0x1F600) = 4" by (simp add: encode_utf8_def)
  then show ?thesis using utf8_roundtrip [of "0x1F600" "[65]"] by simp
qed

end
