(* ===== verification/Cc_Tokenize.thy ===== *)
theory Cc_Tokenize
  imports Cc_Hashmap Cc_Unicode Libc_Number
begin

text \<open>
  The tokenizer of the compiler, \<^verbatim>\<open>cmd/cc/tokenize.c\<close>: the passes over the text of a file and its division into tokens. A text is the list of the bytes before its
  terminator and a pointer into it an offset; a token has the fields of the source that this file sets. \<open>None\<close> is a call of \<^verbatim>\<open>error_at\<close>, which ends the
  compiler, or a read beyond the terminator. Floating constants are converted by \<^verbatim>\<open>strtold\<close>, which is a parameter.
\<close>

subsection \<open>Tokens\<close>

datatype CTokenKind = TK_IDENT | TK_PUNCT | TK_KEYWORD | TK_STR | TK_NUM | TK_PP_NUM | TK_EOF

datatype Type =
  ty_char | ty_ushort | ty_int | ty_uint | ty_long | ty_ulong | ty_float | ty_double | ty_ldouble | array_of Type nat

record CToken =
  tkind :: CTokenKind
  tloc :: nat
  tlen :: nat
  tbol :: bool
  tspace :: bool
  tval :: int
  tty :: "Type option"
  tstr :: "u32 list"
  tline :: nat

text \<open>\<^verbatim>\<open>at_bol\<close> and \<^verbatim>\<open>has_space\<close> are passed in; the caller clears them after each token.\<close>

definition new_token :: "CTokenKind \<Rightarrow> nat \<Rightarrow> nat \<Rightarrow> bool \<Rightarrow> bool \<Rightarrow> CToken" where
  "new_token k start end bol sp =
     \<lparr>tkind = k, tloc = start, tlen = end - start, tbol = bol, tspace = sp, tval = 0, tty = None, tstr = [], tline = 0\<rparr>"

definition startswith :: "u8 list \<Rightarrow> string \<Rightarrow> bool" where
  "startswith p q \<longleftrightarrow> take (length q) p = to_bytes q"

subsection \<open>Identifiers, punctuators and keywords\<close>

lemma zero_not_ident: "\<not> is_ident2 0"
  by code_simp

function ident_loop :: "u8 list \<Rightarrow> nat \<Rightarrow> nat option" where
  "ident_loop p n =
     (case decode_utf8 (drop n p) of
        None \<Rightarrow> None
      | Some (c, k) \<Rightarrow> if is_ident2 c then ident_loop p (n + k) else Some n)"
  by auto
termination
proof (relation "measure (\<lambda>(p, n). length p - n)")
  fix p :: "u8 list" and n r c k assume d: "decode_utf8 (drop n p) = Some r" "(c, k) = r" "is_ident2 c"
  have "n < length p"
  proof (rule ccontr)
    assume "\<not> n < length p"
    then have "c = 0" using d(1) unfolding d(2) [symmetric] by (simp add: decode_utf8_def peek_def)
    then show False using d(3) zero_not_ident by simp
  qed
  then show "((p, n + k), (p, n)) \<in> measure (\<lambda>(p, n). length p - n)" using d decode_length [of "drop n p" c k] by auto
qed simp

declare ident_loop.simps [simp del]

definition read_ident :: "u8 list \<Rightarrow> nat option" where
  "read_ident p =
     do {
       (c, k) \<leftarrow> decode_utf8 p;
       if is_ident1 c then ident_loop p k else Some 0 }"

definition from_hex :: "u8 \<Rightarrow> int" where
  "from_hex c = (if 48 \<le> c \<and> c \<le> 57 then uint c - 48 else if 97 \<le> c \<and> c \<le> 102 then uint c - 97 + 10 else uint c - 65 + 10)"

definition puncts :: "string list" where
  "puncts =
     [''<<='', ''>>='', ''...'', ''=='', ''!='', ''<='', ''>='', ''->'', ''+='', ''-='', ''*='', ''/='', ''++'', ''--'', ''%='', ''&='', ''|='',
      ''^='', ''&&'', ''||'', ''<<'', ''>>'', ''##'']"

definition read_punct :: "u8 list \<Rightarrow> nat" where
  "read_punct p = (case find (startswith p) puncts of Some q \<Rightarrow> length q | None \<Rightarrow> if ispunct (peek p) then 1 else 0)"

definition kw_list :: "string list" where
  "kw_list =
     [''return'', ''if'', ''else'', ''for'', ''while'', ''int'', ''sizeof'', ''char'', ''struct'', ''union'', ''short'', ''long'', ''void'',
      ''typedef'', ''_Bool'', ''enum'', ''static'', ''goto'', ''break'', ''continue'', ''switch'', ''case'', ''default'', ''extern'',
      ''_Alignof'', ''_Alignas'', ''do'', ''signed'', ''unsigned'', ''const'', ''volatile'', ''auto'', ''register'', ''restrict'', ''__restrict'',
      ''__restrict__'', ''_Noreturn'', ''float'', ''double'', ''typeof'', ''asm'', ''_Thread_local'', ''__thread'', ''_Atomic'',
      ''__attribute__'']"

text \<open>The table is filled at the first call and kept; here every call fills it.\<close>

definition is_keyword :: "u8 list \<Rightarrow> bool option" where
  "is_keyword w =
     do {
       m \<leftarrow> put_all hashmap_put2 (map (\<lambda>k. (k, 1)) (map to_bytes kw_list)) empty_map;
       v \<leftarrow> hashmap_get2 m w;
       Some (v \<noteq> 0) }"

subsection \<open>Literals\<close>

definition octal :: "u8 \<Rightarrow> bool" where
  "octal c \<longleftrightarrow> 48 \<le> c \<and> c \<le> 55"

fun hex_escape :: "int \<Rightarrow> u8 list \<Rightarrow> int \<times> nat" where
  "hex_escape c [] = (c, 0)"
| "hex_escape c (d # p) = (if isxdigit d then let (v, n) = hex_escape (int32 (push_bit 4 c + from_hex d)) p in (v, n + 1) else (c, 0))"

definition simple_escape :: "u8 \<Rightarrow> int" where
  "simple_escape c =
     (if c = 97 then 7 else if c = 98 then 8 else if c = 116 then 9 else if c = 110 then 10 else if c = 118 then 11
      else if c = 102 then 12 else if c = 114 then 13 else if c = 101 then 27 else sint c)"

text \<open>The value of the escape sequence that starts behind the backslash, and its length.\<close>

definition read_escaped_char :: "u8 list \<Rightarrow> (int \<times> nat) option" where
  "read_escaped_char p =
     (if octal (peek p) then
        let c = uint (peek p) - 48 in
        if octal (peek (drop 1 p)) then
          let c = push_bit 3 c + (uint (peek (drop 1 p)) - 48) in
          if octal (peek (drop 2 p)) then Some (push_bit 3 c + (uint (peek (drop 2 p)) - 48), 3) else Some (c, 2)
        else Some (c, 1)
      else if peek p = 120 then
        if \<not> isxdigit (peek (tl p)) then None
        else let (c, n) = hex_escape 0 (tl p) in Some (c, n + 1)
      else Some (simple_escape (peek p), 1))"

text \<open>Offset of the closing quote; a backslash skips the character behind it.\<close>

fun string_literal_end :: "u8 list \<Rightarrow> nat option" where
  "string_literal_end [] = None"
| "string_literal_end (c # p) =
     (if c = 34 then Some 0
      else if c = 10 then None
      else if c = 92 then (case p of [] \<Rightarrow> None | d # p \<Rightarrow> map_option (\<lambda>n. n + 2) (string_literal_end p))
      else map_option Suc (string_literal_end p))"

text \<open>The loops of the three kinds of string literal differ in what they store for a character that is not escaped: \<open>plain\<close> gives the units and the number of
  bytes they were made from. \<open>w\<close> is the width of a unit.\<close>

definition plain8 :: "u8 list \<Rightarrow> (u32 list \<times> nat) option" where
  "plain8 p = Some ([ucast (peek p)], 1)"

definition plain16 :: "u8 list \<Rightarrow> (u32 list \<times> nat) option" where
  "plain16 p =
     do {
       (c, k) \<leftarrow> decode_utf8 p;
       if c < 0x10000 then Some ([c], k)
       else let c = c - 0x10000 in Some ([0xd800 + (drop_bit 10 c AND 0x3ff), 0xdc00 + (c AND 0x3ff)], k) }"

definition plain32 :: "u8 list \<Rightarrow> (u32 list \<times> nat) option" where
  "plain32 p = do { (c, k) \<leftarrow> decode_utf8 p; Some ([c], k) }"

text \<open>The units of a literal whose last character is \<open>n\<close> bytes ahead.\<close>

lemma escape_length: "read_escaped_char p = Some (c, k) \<Longrightarrow> 0 < k"
  by (auto simp: read_escaped_char_def Let_def split: if_splits prod.splits)

lemma plain_length: "plain8 p = Some (us, k) \<Longrightarrow> 0 < k" "plain16 p = Some (us, k) \<Longrightarrow> 0 < k" "plain32 p = Some (us, k) \<Longrightarrow> 0 < k"
  using decode_length [of p] by (fastforce simp: plain8_def plain16_def plain32_def Let_def bind_Some_iff split: if_splits)+

partial_function (option) units :: "(u8 list \<Rightarrow> (u32 list \<times> nat) option) \<Rightarrow> nat \<Rightarrow> u8 list \<Rightarrow> nat \<Rightarrow> u32 list option" where
  "units plain w p n =
     (if n = 0 then Some []
      else if peek p = 92 then
        do { (c, k) \<leftarrow> read_escaped_char (tl p); us \<leftarrow> units plain w (drop (k + 1) p) (n - (k + 1)); Some (take_bit w (word_of_int c) # us) }
      else do { (cs, k) \<leftarrow> plain p; us \<leftarrow> units plain w (drop k p) (n - k); Some (map (take_bit w) cs @ us) })"

text \<open>\<open>quote\<close> is the offset of the opening quote behind the start of the token.\<close>

definition string_literal :: "(u8 list \<Rightarrow> (u32 list \<times> nat) option) \<Rightarrow> nat \<Rightarrow> Type \<Rightarrow> u8 list \<Rightarrow> nat \<Rightarrow> nat \<Rightarrow> bool \<Rightarrow> bool \<Rightarrow> CToken option" where
  "string_literal plain w ty s start quote bol sp =
     do {
       let p = drop (start + quote + 1) s;
       n \<leftarrow> string_literal_end p;
       us \<leftarrow> units plain w p n;
       Some ((new_token TK_STR start (start + quote + 1 + n + 1) bol sp)\<lparr>tty := Some (array_of ty (length us + 1)), tstr := us\<rparr>) }"

definition read_string_literal :: "u8 list \<Rightarrow> nat \<Rightarrow> nat \<Rightarrow> bool \<Rightarrow> bool \<Rightarrow> CToken option" where
  "read_string_literal = string_literal plain8 8 ty_char"

definition read_utf16_string_literal :: "u8 list \<Rightarrow> nat \<Rightarrow> nat \<Rightarrow> bool \<Rightarrow> bool \<Rightarrow> CToken option" where
  "read_utf16_string_literal = string_literal plain16 16 ty_ushort"

definition read_utf32_string_literal :: "Type \<Rightarrow> u8 list \<Rightarrow> nat \<Rightarrow> nat \<Rightarrow> bool \<Rightarrow> bool \<Rightarrow> CToken option" where
  "read_utf32_string_literal ty = string_literal plain32 32 ty"

text \<open>\<^verbatim>\<open>strchr\<close>: the first occurrence, if there is one before the terminator.\<close>

definition find_byte :: "u8 \<Rightarrow> u8 list \<Rightarrow> nat option" where
  "find_byte c p = (if c \<in> set p then Some (length (takeWhile (\<lambda>d. d \<noteq> c) p)) else None)"

definition read_char_literal :: "Type \<Rightarrow> u8 list \<Rightarrow> nat \<Rightarrow> nat \<Rightarrow> bool \<Rightarrow> bool \<Rightarrow> CToken option" where
  "read_char_literal ty s start quote bol sp =
     do {
       let p = drop (start + quote + 1) s;
       if p = [] then None
       else do {
         (c, k) \<leftarrow> (if peek p = 92 then do { (c, k) \<leftarrow> read_escaped_char (tl p); Some (c, k + 1) }
                   else do { (c, k) \<leftarrow> decode_utf8 p; Some (sint c, k) });
         if k > length p then None
         else do {
           n \<leftarrow> find_byte 39 (drop k p);
           Some ((new_token TK_NUM start (start + quote + 1 + k + n + 1) bol sp)\<lparr>tval := c, tty := Some ty\<rparr>) } } }"

subsection \<open>Numbers\<close>

fun pp_number :: "u8 list \<Rightarrow> nat" where
  "pp_number [] = 0"
| "pp_number [c] = (if isalnum c \<or> c = 46 then 1 else 0)"
| "pp_number (c # d # p) =
     (if c \<in> {101, 69, 112, 80} \<and> d \<in> {43, 45} then 2 + pp_number p
      else if isalnum c \<or> c = 46 then 1 + pp_number (d # p)
      else 0)"

fun strncasecmp :: "u8 list \<Rightarrow> u8 list \<Rightarrow> nat \<Rightarrow> int" where
  "strncasecmp p q n =
     (if 0 < n \<and> p \<noteq> [] \<and> tolower (peek p) = tolower (peek q) then strncasecmp (tl p) (tl q) (n - 1)
      else if n = 0 then 0
      else uint (tolower (peek p)) - uint (tolower (peek q)))"

declare strncasecmp.simps [simp del]

text \<open>Suffixes: is the constant \<^verbatim>\<open>long\<close>, is it unsigned, and what follows.\<close>

definition int_suffix :: "u8 list \<Rightarrow> bool \<times> bool \<times> u8 list" where
  "int_suffix p =
     (if list_ex (startswith p) [''LLU'', ''LLu'', ''llU'', ''llu'', ''ULL'', ''Ull'', ''uLL'', ''ull''] then (True, True, drop 3 p)
      else if strncasecmp p (to_bytes ''lu'') 2 = 0 \<or> strncasecmp p (to_bytes ''ul'') 2 = 0 then (True, True, drop 2 p)
      else if startswith p ''LL'' \<or> startswith p ''ll'' then (True, False, drop 2 p)
      else if peek p = 76 \<or> peek p = 108 then (True, False, drop 1 p)
      else if peek p = 85 \<or> peek p = 117 then (False, True, drop 1 p)
      else (False, False, p))"

definition int_type :: "int \<Rightarrow> bool \<Rightarrow> bool \<Rightarrow> int \<Rightarrow> Type" where
  "int_type base l u val =
     (if base = 10 then
        if l \<and> u then ty_ulong else if l then ty_long
        else if u then if drop_bit 32 val \<noteq> 0 then ty_ulong else ty_uint
        else if drop_bit 31 val \<noteq> 0 then ty_long else ty_int
      else
        if l \<and> u then ty_ulong
        else if l then if drop_bit 63 val \<noteq> 0 then ty_ulong else ty_long
        else if u then if drop_bit 32 val \<noteq> 0 then ty_ulong else ty_uint
        else if drop_bit 63 val \<noteq> 0 then ty_ulong
        else if drop_bit 32 val \<noteq> 0 then ty_long
        else if drop_bit 31 val \<noteq> 0 then ty_uint
        else ty_int)"

text \<open>The base of an integer constant and what follows its prefix.\<close>

definition int_base :: "u8 list \<Rightarrow> int \<times> u8 list" where
  "int_base p =
     (if strncasecmp p (to_bytes ''0x'') 2 = 0 \<and> isxdigit (peek (drop 2 p)) then (16, drop 2 p)
      else if strncasecmp p (to_bytes ''0b'') 2 = 0 \<and> (peek (drop 2 p) = 48 \<or> peek (drop 2 p) = 49) then (2, drop 2 p)
      else if peek p = 48 then (8, p)
      else (10, p))"

definition convert_pp_int :: "u8 list \<Rightarrow> CToken \<Rightarrow> CToken option" where
  "convert_pp_int s tok =
     (let p = drop (tloc tok) s;
          (base, q) = int_base p;
          (v, q) = strtoul q base;
          (l, u, q) = int_suffix q;
          val = sint v
      in if length p - length q \<noteq> tlen tok then None
         else Some (tok\<lparr>tkind := TK_NUM, tval := val, tty := Some (int_type base l u val)\<rparr>))"

definition convert_pp_number :: "(u8 list \<Rightarrow> u8 list) \<Rightarrow> u8 list \<Rightarrow> CToken \<Rightarrow> CToken option" where
  "convert_pp_number strtold s tok =
     (case convert_pp_int s tok of
        Some t \<Rightarrow> Some t
      | None \<Rightarrow>
          let p = drop (tloc tok) s;
              q = strtold p;
              (ty, q) = (if peek q = 102 \<or> peek q = 70 then (ty_float, drop 1 q)
                         else if peek q = 108 \<or> peek q = 76 then (ty_ldouble, drop 1 q)
                         else (ty_double, q))
          in if length p - length q \<noteq> tlen tok then None else Some (tok\<lparr>tkind := TK_NUM, tty := Some ty\<rparr>))"

fun convert_pp_tokens :: "(u8 list \<Rightarrow> u8 list) \<Rightarrow> u8 list \<Rightarrow> CToken list \<Rightarrow> CToken list option" where
  "convert_pp_tokens strtold s [] = Some []"
| "convert_pp_tokens strtold s (t # ts) =
     (if tkind t = TK_EOF then Some (t # ts)
      else do {
        kw \<leftarrow> is_keyword (take (tlen t) (drop (tloc t) s));
        t \<leftarrow> (if kw then Some (t\<lparr>tkind := TK_KEYWORD\<rparr>)
             else if tkind t = TK_PP_NUM then convert_pp_number strtold s t
             else Some t);
        ts \<leftarrow> convert_pp_tokens strtold s ts;
        Some (t # ts) })"

subsection \<open>The passes over the text\<close>

fun canonicalize_newline :: "u8 list \<Rightarrow> u8 list" where
  "canonicalize_newline [] = []"
| "canonicalize_newline (c # p) =
     (if c = 13 then 10 # canonicalize_newline (if peek p = 10 then tl p else p) else c # canonicalize_newline p)"

fun remove_backslash_newline :: "u8 list \<Rightarrow> nat \<Rightarrow> u8 list" where
  "remove_backslash_newline [] n = replicate n 10"
| "remove_backslash_newline (c # p) n =
     (if c = 92 \<and> peek p = 10 then remove_backslash_newline (tl p) (n + 1)
      else if c = 10 then 10 # replicate n 10 @ remove_backslash_newline p 0
      else c # remove_backslash_newline p n)"

text \<open>A digit that is not hexadecimal makes the result 0.\<close>

fun universal_loop :: "u32 \<Rightarrow> u8 list \<Rightarrow> nat \<Rightarrow> u32" where
  "universal_loop c p 0 = c"
| "universal_loop c p (Suc n) =
     (if isxdigit (peek p) then universal_loop (push_bit 4 c OR word_of_int (from_hex (peek p))) (tl p) n else 0)"

definition read_universal_char :: "u8 list \<Rightarrow> nat \<Rightarrow> u32" where
  "read_universal_char p len = universal_loop 0 p len"

text \<open>A backslash at the very end makes the source copy the terminator and run on behind it.\<close>

function convert_universal_chars :: "u8 list \<Rightarrow> u8 list option" where
  "convert_universal_chars p =
     (if p = [] then Some []
      else if startswith p [CHR 0x5C, CHR ''u''] \<and> read_universal_char (drop 2 p) 4 \<noteq> 0 then
        map_option (\<lambda>q. encode_utf8 (read_universal_char (drop 2 p) 4) @ q) (convert_universal_chars (drop 6 p))
      else if startswith p [CHR 0x5C, CHR ''U''] \<and> read_universal_char (drop 2 p) 8 \<noteq> 0 then
        map_option (\<lambda>q. encode_utf8 (read_universal_char (drop 2 p) 8) @ q) (convert_universal_chars (drop 10 p))
      else if startswith p [CHR 0x5C, CHR ''u''] \<or> startswith p [CHR 0x5C, CHR ''U''] then
        map_option (\<lambda>q. hd p # q) (convert_universal_chars (tl p))
      else if hd p = 92 then
        if tl p = [] then None else map_option (\<lambda>q. hd p # hd (tl p) # q) (convert_universal_chars (tl (tl p)))
      else map_option (\<lambda>q. hd p # q) (convert_universal_chars (tl p)))"
  by auto
termination by (relation "measure length") (auto simp: length_greater_0_conv [symmetric] simp del: length_greater_0_conv)

declare convert_universal_chars.simps [simp del]

subsection \<open>Division into tokens\<close>

text \<open>Offset of the first \<^verbatim>\<open>*/\<close>.\<close>

fun comment_end :: "u8 list \<Rightarrow> nat option" where
  "comment_end [] = None"
| "comment_end (c # p) = (if c = 42 \<and> peek p = 47 then Some 0 else map_option Suc (comment_end p))"

text \<open>One round of the loop at offset \<open>p\<close>: a token, or none for white space and comments, with the flags for the next round.\<close>

type_synonym lex = "CToken option \<times> nat \<times> bool \<times> bool"

definition found :: "CToken \<Rightarrow> lex" where
  "found t = (Some t, tloc t + tlen t, False, False)"

definition lex_word :: "u8 list \<Rightarrow> nat \<Rightarrow> bool \<Rightarrow> bool \<Rightarrow> lex option" where
  "lex_word s p bol sp =
     do {
       n \<leftarrow> read_ident (drop p s);
       if n \<noteq> 0 then Some (found (new_token TK_IDENT p (p + n) bol sp))
       else let k = read_punct (drop p s) in
         if k \<noteq> 0 then Some (found (new_token TK_PUNCT p (p + k) bol sp)) else None }"

definition lex_literal :: "u8 list \<Rightarrow> nat \<Rightarrow> bool \<Rightarrow> bool \<Rightarrow> lex option" where
  "lex_literal s p bol sp =
     (let q = drop p s in
      if peek q = 34 then map_option found (read_string_literal s p 0 bol sp)
      else if startswith q [CHR ''u'', CHR ''8'', CHR 0x22] then map_option found (read_string_literal s p 2 bol sp)
      else if startswith q [CHR ''u'', CHR 0x22] then map_option found (read_utf16_string_literal s p 1 bol sp)
      else if startswith q [CHR ''L'', CHR 0x22] then map_option found (read_utf32_string_literal ty_int s p 1 bol sp)
      else if startswith q [CHR ''U'', CHR 0x22] then map_option found (read_utf32_string_literal ty_uint s p 1 bol sp)
      else if peek q = 39 then
        map_option (\<lambda>t. found (t\<lparr>tval := sint (word_of_int (tval t) :: u8)\<rparr>)) (read_char_literal ty_int s p 0 bol sp)
      else if startswith q [CHR ''u'', CHR 0x27] then
        map_option (\<lambda>t. found (t\<lparr>tval := tval t AND 0xffff\<rparr>)) (read_char_literal ty_ushort s p 1 bol sp)
      else if startswith q [CHR ''L'', CHR 0x27] then map_option found (read_char_literal ty_int s p 1 bol sp)
      else if startswith q [CHR ''U'', CHR 0x27] then map_option found (read_char_literal ty_uint s p 1 bol sp)
      else lex_word s p bol sp)"

definition lex_step :: "u8 list \<Rightarrow> nat \<Rightarrow> bool \<Rightarrow> bool \<Rightarrow> lex option" where
  "lex_step s p bol sp =
     (let q = drop p s in
      if startswith q ''//'' then map_option (\<lambda>n. (None, p + 2 + n, bol, True)) (find_byte 10 (drop 2 q))
      else if startswith q ''/*'' then map_option (\<lambda>n. (None, p + 2 + n + 2, bol, True)) (comment_end (drop 2 q))
      else if peek q = 10 then Some (None, p + 1, True, False)
      else if isspace (peek q) then Some (None, p + 1, bol, True)
      else if isdigit (peek q) \<or> peek q = 46 \<and> isdigit (peek (tl q)) then
        Some (found (new_token TK_PP_NUM p (p + 1 + pp_number (tl q)) bol sp))
      else lex_literal s p bol sp)"

lemma decode_within: "decode_utf8 p = Some (c, k) \<Longrightarrow> p \<noteq> [] \<Longrightarrow> k \<le> length p"
proof -
  have cont: "continuation c p n = Some d \<Longrightarrow> n \<le> length p" for c d p n
  proof (induction c p n rule: continuation.induct)
    case (2 c p n)
    then have "p \<noteq> []" by (auto simp: peek_def split: if_splits)
    then show ?case using 2 by (cases p) (auto split: if_splits)
  qed simp
  assume "decode_utf8 p = Some (c, k)" "p \<noteq> []"
  then show ?thesis
    using cont [of _ "tl p" "k - 1"] by (cases p) (auto simp: decode_utf8_def bind_Some_iff split: if_splits dest!: cont)
qed

lemma ident_within: "ident_loop p n = Some m \<Longrightarrow> n \<le> length p \<Longrightarrow> n \<le> m \<and> m \<le> length p"
proof (induction p n rule: ident_loop.induct)
  case (1 p n)
  show ?case
  proof (cases "decode_utf8 (drop n p)")
    case (Some r)
    obtain c k where r: "r = (c, k)" by fastforce
    show ?thesis
    proof (cases "is_ident2 c")
      case True
      have "drop n p \<noteq> []" using True Some r zero_not_ident by (auto simp: decode_utf8_def peek_def)
      then have "n + k \<le> length p" using decode_within [of "drop n p" c k] Some r by simp
      then show ?thesis using 1 Some r True by (fastforce simp: ident_loop.simps [of p n])
    qed (use 1 Some r in \<open>simp add: ident_loop.simps [of p n]\<close>)
  qed (use 1 in \<open>simp add: ident_loop.simps [of p n]\<close>)
qed

lemma read_ident_within:
  assumes "read_ident p = Some n" "p \<noteq> []"
  shows "n \<le> length p"
proof -
  obtain c k where d: "decode_utf8 p = Some (c, k)" using assms(1) by (cases "decode_utf8 p") (auto simp: read_ident_def)
  then have "k \<le> length p" using assms(2) decode_within by blast
  then show ?thesis using assms(1) d ident_within [of p k n] by (auto simp: read_ident_def split: if_splits)
qed

lemma startswith_length: "startswith p q \<Longrightarrow> length q \<le> length p"
  unfolding startswith_def to_bytes_def by (metis length_map length_take min.cobounded1)

lemma read_punct_within: "read_punct p \<le> length p"
proof (cases "find (startswith p) puncts")
  case None
  have "ispunct (peek p) \<Longrightarrow> p \<noteq> []" by (auto simp: peek_def ispunct_def)
  then show ?thesis using None by (auto simp: read_punct_def Suc_le_eq)
next
  case (Some q)
  then have "startswith p q" by (auto simp: find_Some_iff)
  then show ?thesis using Some startswith_length by (simp add: read_punct_def)
qed

lemma string_end_within: "string_literal_end p = Some n \<Longrightarrow> n < length p"
  by (induction p arbitrary: n rule: string_literal_end.induct) (auto split: if_splits list.splits)

lemma pp_number_within: "pp_number p \<le> length p"
  by (induction p rule: pp_number.induct) auto

lemma find_byte_within: "find_byte c p = Some n \<Longrightarrow> n < length p"
  by (induction p arbitrary: n) (auto simp: find_byte_def split: if_splits)

lemma comment_end_within: "comment_end p = Some n \<Longrightarrow> n + 2 \<le> length p"
proof (induction p arbitrary: n)
  case (Cons c p)
  then show ?case by (cases p) (auto simp: peek_def split: if_splits)
qed simp

text \<open>A token of a round: it starts at \<open>p\<close>, is not empty and ends within the text.\<close>

definition good_token :: "u8 list \<Rightarrow> nat \<Rightarrow> CToken \<Rightarrow> bool" where
  "good_token s p t \<longleftrightarrow> tloc t = p \<and> 0 < tlen t \<and> p + tlen t \<le> length s \<and> tkind t \<noteq> TK_EOF"

lemma string_literal_good: "string_literal plain w ty s p quote bol sp = Some t \<Longrightarrow> good_token s p t"
  by (auto simp: string_literal_def bind_Some_iff good_token_def new_token_def Let_def dest!: string_end_within)

lemma char_literal_good: "read_char_literal ty s p quote bol sp = Some t \<Longrightarrow> good_token s p t"
  by (auto simp: read_char_literal_def bind_Some_iff good_token_def new_token_def Let_def split: if_splits dest!: find_byte_within)

lemma good_update: "good_token s p (t\<lparr>tval := v\<rparr>) = good_token s p t"
  by (simp add: good_token_def)

text \<open>What a round does: the offset grows and stays within the text, and a token spans exactly the bytes passed over.\<close>

definition good_lex :: "u8 list \<Rightarrow> nat \<Rightarrow> lex \<Rightarrow> bool" where
  "good_lex s p r \<longleftrightarrow>
     (case r of (t, p', _) \<Rightarrow> p < p' \<and> p' \<le> length s \<and> (case t of Some t \<Rightarrow> good_token s p t \<and> p' = p + tlen t | None \<Rightarrow> True))"

lemma found_good: "good_token s p t \<Longrightarrow> good_lex s p (found t)"
  by (auto simp: good_lex_def found_def good_token_def)

lemma lex_word_good:
  assumes "lex_word s p bol sp = Some r" "p < length s"
  shows "good_lex s p r"
proof -
  obtain n where n: "read_ident (drop p s) = Some n" using assms(1) by (auto simp: lex_word_def bind_Some_iff)
  have "n \<le> length s - p" using read_ident_within [OF n] assms(2) by simp
  moreover have "read_punct (drop p s) \<le> length s - p" using read_punct_within [of "drop p s"] by simp
  ultimately show ?thesis using assms n
    by (auto simp: lex_word_def Let_def new_token_def good_token_def intro!: found_good split: if_splits)
qed

lemma lex_literal_good: "lex_literal s p bol sp = Some r \<Longrightarrow> p < length s \<Longrightarrow> good_lex s p r"
  unfolding lex_literal_def Let_def read_string_literal_def read_utf16_string_literal_def read_utf32_string_literal_def
  by (auto intro!: found_good lex_word_good simp: good_update dest: string_literal_good char_literal_good split: if_splits)

lemma lex_step_good:
  assumes "lex_step s p bol sp = Some r" "p < length s"
  shows "good_lex s p r"
proof -
  let ?q = "drop p s"
  have num: "p + 1 + pp_number (tl ?q) \<le> length s" using pp_number_within [of "tl ?q"] assms(2) by simp
  show ?thesis using assms num
    by (auto simp: lex_step_def Let_def good_lex_def new_token_def good_token_def found_def dest!: find_byte_within comment_end_within dest: lex_literal_good split: if_splits)
qed

function tokenize_loop :: "u8 list \<Rightarrow> nat \<Rightarrow> bool \<Rightarrow> bool \<Rightarrow> CToken list option" where
  "tokenize_loop s p bol sp =
     (if p < length s then
        (case lex_step s p bol sp of
           None \<Rightarrow> None
         | Some (t, p', bol', sp') \<Rightarrow>
             map_option (\<lambda>ts. (case t of Some t \<Rightarrow> t # ts | None \<Rightarrow> ts)) (tokenize_loop s p' bol' sp'))
      else Some [new_token TK_EOF p p bol sp])"
  by auto
termination by (relation "measure (\<lambda>(s, p, bol, sp). length s - p)") (auto dest!: lex_step_good simp: good_lex_def)

declare tokenize_loop.simps [simp del]

fun add_line_numbers :: "u8 list \<Rightarrow> nat \<Rightarrow> nat \<Rightarrow> CToken list \<Rightarrow> CToken list option" where
  "add_line_numbers s p n [] = None"
| "add_line_numbers [] p n (t # ts) = Some ((if tloc t = p then t\<lparr>tline := n\<rparr> else t) # ts)"
| "add_line_numbers (c # s) p n (t # ts) =
     (let n' = (if c = 10 then n + 1 else n) in
      if tloc t = p then map_option (\<lambda>ts. t\<lparr>tline := n\<rparr> # ts) (add_line_numbers s (p + 1) n' ts)
      else add_line_numbers s (p + 1) n' (t # ts))"

definition tokenize :: "u8 list \<Rightarrow> CToken list option" where
  "tokenize s = do { ts \<leftarrow> tokenize_loop s 0 True False; add_line_numbers s 0 1 ts }"

definition BOM :: "u8 list" where "BOM = [0xef, 0xbb, 0xbf]"

text \<open>\<^verbatim>\<open>read_file\<close> ends the text with a newline; what it read is the argument here.\<close>

definition end_line :: "u8 list \<Rightarrow> u8 list" where
  "end_line s = (if s = [] \<or> last s \<noteq> 10 then s @ [10] else s)"

definition skip_bom :: "u8 list \<Rightarrow> u8 list" where
  "skip_bom p = (if take 3 p = BOM then drop 3 p else p)"

definition tokenize_file :: "u8 list \<Rightarrow> (u8 list \<times> CToken list) option" where
  "tokenize_file contents =
     do {
       p \<leftarrow> convert_universal_chars (remove_backslash_newline (canonicalize_newline (skip_bom (end_line contents))) 0);
       ts \<leftarrow> tokenize p;
       Some (p, ts) }"

subsection \<open>The tokens of a text\<close>

text \<open>Tokens one behind the other from offset \<open>p\<close> on, none empty, up to the end mark at the end of the text.\<close>

fun tokens_from :: "u8 list \<Rightarrow> nat \<Rightarrow> CToken list \<Rightarrow> bool" where
  "tokens_from s p [] = False"
| "tokens_from s p [t] = (tkind t = TK_EOF \<and> tloc t = length s \<and> tlen t = 0 \<and> p \<le> length s)"
| "tokens_from s p (t # ts) = (p \<le> tloc t \<and> good_token s (tloc t) t \<and> tokens_from s (tloc t + tlen t) ts)"

lemma tokens_from_Cons: "ts \<noteq> [] \<Longrightarrow> tokens_from s p (t # ts) = (p \<le> tloc t \<and> good_token s (tloc t) t \<and> tokens_from s (tloc t + tlen t) ts)"
  by (cases ts) auto

lemma tokens_from_mono: "tokens_from s p' ts \<Longrightarrow> p \<le> p' \<Longrightarrow> tokens_from s p ts"
  by (cases "(s, p, ts)" rule: tokens_from.cases) auto

lemma tokenize_loop_tokens: "tokenize_loop s p bol sp = Some ts \<Longrightarrow> p \<le> length s \<Longrightarrow> tokens_from s p ts"
proof (induction s p bol sp arbitrary: ts rule: tokenize_loop.induct)
  case (1 s p bol sp)
  show ?case
  proof (cases "p < length s")
    case False
    then show ?thesis using 1(2,3) unfolding tokenize_loop.simps [of s p] by (auto simp: new_token_def)
  next
    case True
    then obtain t p' bol' sp' rest where step: "lex_step s p bol sp = Some (t, p', bol', sp')" and rest: "tokenize_loop s p' bol' sp' = Some rest"
        and ts: "ts = (case t of Some t \<Rightarrow> t # rest | None \<Rightarrow> rest)"
      using 1(2) by (auto simp: tokenize_loop.simps [of s p] split: option.splits)
    have good: "good_lex s p (t, p', bol', sp')" by (rule lex_step_good [OF step True])
    then have "tokens_from s p' rest" using 1(1) [OF True step _ _ _ rest] by (simp add: good_lex_def)
    moreover from this have "rest \<noteq> []" by auto
    ultimately show ?thesis using good ts tokens_from_mono [of s p' rest p]
      by (auto simp: good_lex_def tokens_from_Cons good_token_def split: option.splits)
  qed
qed

definition newlines :: "u8 list \<Rightarrow> nat" where
  "newlines s = count_list s 10"

lemma add_line_numbers_eq:
  assumes "ts \<noteq> []" "sorted_wrt (\<lambda>a b. tloc a < tloc b) ts" "p \<le> tloc (hd ts)" "tloc (last ts) = p + length r"
  shows "add_line_numbers r p n ts = Some (map (\<lambda>t. t\<lparr>tline := n + newlines (take (tloc t - p) r)\<rparr>) ts)"
  using assms
proof (induction r arbitrary: p n ts)
  case Nil
  then obtain t ts' where ts: "ts = t # ts'" by (cases ts) auto
  have "ts' = []"
  proof (rule ccontr)
    assume "ts' \<noteq> []"
    then have "tloc t < tloc (last ts')" using Nil.prems(2) ts by simp
    then show False using Nil.prems(3,4) ts \<open>ts' \<noteq> []\<close> by simp
  qed
  then show ?case using Nil.prems ts by (simp add: newlines_def)
next
  case (Cons c r)
  then obtain t ts' where ts: "ts = t # ts'" by (cases ts) auto
  let ?n = "if c = 10 then n + 1 else n"
  have shift: "n + newlines (take (tloc u - p) (c # r)) = ?n + newlines (take (tloc u - (p + 1)) r)" if later: "p < tloc u" for u
  proof -
    obtain d where "tloc u = Suc (p + d)" using less_imp_Suc_add [OF later] by blast
    then show ?thesis by (simp add: newlines_def)
  qed
  show ?case
  proof (cases "tloc t = p")
    case True
    have ne: "ts' \<noteq> []" using Cons.prems(4) True ts by auto
    have later: "\<forall>u \<in> set ts'. p < tloc u" using Cons.prems(2) True ts by simp
    have prem: "sorted_wrt (\<lambda>a b. tloc a < tloc b) ts'" "p + 1 \<le> tloc (hd ts')" "tloc (last ts') = p + 1 + length r"
      using Cons.prems(2,4) later ne ts hd_in_set [OF ne] by (simp_all add: Suc_le_eq)
    have "add_line_numbers r (p + 1) ?n ts' = Some (map (\<lambda>t. t\<lparr>tline := ?n + newlines (take (tloc t - (p + 1)) r)\<rparr>) ts')"
      by (rule Cons.IH [OF ne prem])
    moreover have "map (\<lambda>t. t\<lparr>tline := ?n + newlines (take (tloc t - (p + 1)) r)\<rparr>) ts' = map (\<lambda>t. t\<lparr>tline := n + newlines (take (tloc t - p) (c # r))\<rparr>) ts'"
      by (intro map_cong refl) (use later in \<open>simp only: shift\<close>)
    ultimately show ?thesis using True ts by (simp add: Let_def newlines_def)
  next
    case False
    then have "p < tloc t" using Cons.prems(3) ts by simp
    then have later: "\<forall>u \<in> set ts. p < tloc u" using Cons.prems(2) ts by auto
    have "add_line_numbers r (p + 1) ?n ts = Some (map (\<lambda>t. t\<lparr>tline := ?n + newlines (take (tloc t - (p + 1)) r)\<rparr>) ts)"
      by (rule Cons.IH) (use Cons.prems \<open>p < tloc t\<close> ts in simp_all)
    moreover have "map (\<lambda>t. t\<lparr>tline := ?n + newlines (take (tloc t - (p + 1)) r)\<rparr>) ts = map (\<lambda>t. t\<lparr>tline := n + newlines (take (tloc t - p) (c # r))\<rparr>) ts"
      by (intro map_cong refl) (use later in \<open>simp only: shift\<close>)
    ultimately show ?thesis using False ts by (simp add: Let_def)
  qed
qed

lemma tokens_from_order:
  "tokens_from s p ts \<Longrightarrow> ts \<noteq> [] \<and> p \<le> tloc (hd ts) \<and> tloc (last ts) = length s \<and> sorted_wrt (\<lambda>a b. tloc a < tloc b) ts \<and> (\<forall>t \<in> set ts. p \<le> tloc t)"
proof (induction s p ts rule: tokens_from.induct)
  case (3 s p t u ts)
  then have "tokens_from s (tloc t + tlen t) (u # ts)" "0 < tlen t" "p \<le> tloc t" by (auto simp: good_token_def)
  with 3(1) show ?case by fastforce
qed auto

lemma tokens_from_lines: "tokens_from s p ts \<Longrightarrow> tokens_from s p (map (\<lambda>t. t\<lparr>tline := f t\<rparr>) ts)"
  by (induction s p ts rule: tokens_from.induct) (auto simp: good_token_def)



subsection \<open>Keywords and punctuators\<close>

lemma is_keyword_eq: "is_keyword w = Some (w \<in> set (map to_bytes kw_list))"
proof -
  have "length (map to_bytes kw_list) \<le> 2 ^ 22" by (simp add: kw_list_def)
  then obtain m where "put_all hashmap_put2 (map (\<lambda>k. (k, 1)) (map to_bytes kw_list)) empty_map = Some m"
      "\<And>k. hashmap_get2 m k = Some (case if k \<in> set (map to_bytes kw_list) then Some 1 else None of Some v \<Rightarrow> v | None \<Rightarrow> 0)"
    using hm.word_set [OF empty_map_room, of "map to_bytes kw_list" 1] by blast
  then show ?thesis by (simp add: is_keyword_def)
qed

text \<open>The table of punctuators lists longer ones first, so the longest one wins.\<close>

lemma puncts_by_length: "sorted_wrt (\<lambda>a b. length b \<le> length a) puncts"
  by code_simp

lemma read_punct_longest:
  assumes "q \<in> set puncts" "startswith p q"
  shows "length q \<le> read_punct p"
proof -
  obtain i where i: "i < length puncts" "puncts ! i = q" using assms(1) by (auto simp: in_set_conv_nth)
  obtain r where r: "find (startswith p) puncts = Some r" using assms by (metis find_None_iff option.exhaust)
  then obtain j where j: "j < length puncts" "r = puncts ! j" "\<forall>k < j. \<not> startswith p (puncts ! k)" by (auto simp: find_Some_iff)
  have "\<not> i < j" using j(3) i(2) assms(2) by auto
  then have "length q \<le> length r" using puncts_by_length i j(1,2) by (cases "i = j") (auto simp: sorted_wrt_iff_nth_less)
  then show ?thesis using r by (simp add: read_punct_def)
qed

text \<open>The tokenizer takes a word for a keyword exactly if the word is one of the list, which it finds through the hash table; and of the punctuators that the
  text starts with it takes the longest, whatever their order in the language.\<close>

theorem keywords_and_puncts:
  "is_keyword w = Some (w \<in> set (map to_bytes kw_list)) \<and> (\<forall>q. q \<in> set puncts \<and> startswith p q \<longrightarrow> length q \<le> read_punct p)"
  using is_keyword_eq read_punct_longest by blast

theorem keywords_and_puncts_witness: "is_keyword (to_bytes ''while'') = Some True \<and> 3 \<le> read_punct (to_bytes ''<<=2'')"
proof -
  have "''while'' \<in> set kw_list" "''<<='' \<in> set puncts" by (simp_all add: kw_list_def puncts_def)
  moreover have "startswith (to_bytes ''<<=2'') ''<<=''" by (simp add: startswith_def to_bytes_def)
  ultimately show ?thesis
    using keywords_and_puncts [of "to_bytes ''while''" "to_bytes ''<<=2''"] by (auto dest!: spec [of _ "''<<=''"])
qed

subsection \<open>The passes over the text\<close>

lemma canonicalize_no_cr: "13 \<notin> set (canonicalize_newline p)"
  by (induction p rule: canonicalize_newline.induct) auto

lemma remove_no_cr: "13 \<notin> set p \<Longrightarrow> 13 \<notin> set (remove_backslash_newline p n)"
  by (induction p n rule: remove_backslash_newline.induct) (auto simp: neq_Nil_conv peek_def split: list.splits)

lemma newlines_simps [simp]: "newlines [] = 0" "newlines (c # p) = (if c = 10 then 1 else 0) + newlines p"
    "newlines (replicate n 10) = n" "newlines (p @ q) = newlines p + newlines q"
  by (auto simp: newlines_def count_list_append) (induction n; simp)+

lemma remove_newlines: "newlines (remove_backslash_newline p n) = newlines p + n"
proof (induction p n rule: remove_backslash_newline.induct)
  case (2 c p n)
  have "newlines p = 1 + newlines (tl p)" if "peek p = 10" using that by (cases p) (auto simp: peek_def)
  then show ?case using 2 by auto
qed simp

definition ends_line :: "u8 list \<Rightarrow> bool" where
  "ends_line p \<longleftrightarrow> p = [] \<or> last p = 10"

lemma ends_line_Cons: "ends_line (c # p) \<longleftrightarrow> (if p = [] then c = 10 else ends_line p)"
  by (simp add: ends_line_def)

lemma ends_line_tl: "ends_line p \<Longrightarrow> ends_line (tl p)"
  by (cases p) (auto simp: ends_line_Cons ends_line_def split: if_splits)

lemma ends_line_drop: "ends_line p \<Longrightarrow> ends_line (drop n p)"
  by (cases "n < length p") (auto simp: ends_line_def last_drop)

lemma canonicalize_ends: "ends_line p \<Longrightarrow> ends_line (canonicalize_newline p) \<and> (canonicalize_newline p = [] \<longleftrightarrow> p = [])"
proof (induction p rule: canonicalize_newline.induct)
  case (2 c p)
  show ?case
  proof (cases "c = 13")
    case True
    let ?q = "if peek p = 10 then tl p else p"
    have "ends_line ?q" using 2(3) True ends_line_tl [of p] by (cases "p = []") (auto simp: ends_line_Cons)
    then show ?thesis using 2(1) True by (simp add: ends_line_Cons)
  next
    case False
    then show ?thesis using 2(2,3) by (cases "p = []") (auto simp: ends_line_Cons)
  qed
qed simp

lemma ends_line_replicate: "ends_line q \<Longrightarrow> ends_line (10 # replicate n 10 @ q)"
  by (cases "q = []"; cases n) (auto simp: ends_line_def last_append)

lemma remove_ends: "ends_line p \<Longrightarrow> p \<noteq> [] \<or> 0 < n \<Longrightarrow> ends_line (remove_backslash_newline p n) \<and> remove_backslash_newline p n \<noteq> []"
proof (induction p n rule: remove_backslash_newline.induct)
  case (1 n)
  then show ?case by (auto simp: ends_line_def)
next
  case (2 c p n)
  have rest: "ends_line p" using ends_line_tl [OF 2(4)] by simp
  consider (join) "c = 92" "peek p = 10" | (nl) "c = 10" | (other) "\<not> (c = 92 \<and> peek p = 10)" "c \<noteq> 10" by blast
  then show ?case
  proof cases
    case join
    then show ?thesis using 2(1) rest ends_line_tl [OF rest] by simp
  next
    case nl
    have "ends_line (remove_backslash_newline p 0)"
      using 2(2) nl rest by (cases "p = []") (auto simp: ends_line_def)
    then show ?thesis using nl ends_line_replicate by simp
  next
    case other
    then have "p \<noteq> []" using 2(4) by (auto simp: ends_line_Cons)
    then show ?thesis using 2(3) other rest by (auto simp: ends_line_Cons)
  qed
qed

lemma convert_returns: "ends_line p \<Longrightarrow> convert_universal_chars p \<noteq> None"
proof (induction p rule: convert_universal_chars.induct)
  case (1 p)
  have tl: "tl p \<noteq> []" if "p \<noteq> []" "hd p = 92" using that 1(6) by (cases p) (auto simp: ends_line_Cons split: if_splits)
  note ends = ends_line_tl [OF 1(6)] ends_line_tl [OF ends_line_tl [OF 1(6)]] ends_line_drop [OF 1(6)]
  show ?case using tl 1(1-5) ends by (subst convert_universal_chars.simps) (simp split: if_split)
qed


end
