(* ===== verification/Spec2Isabelle.thy ===== *)
theory Spec2Isabelle
  imports Filetable Syscall Libc_Malloc Libc_Sort Libc_Time Libc_Stdlib As_Logical Ld_Archive Ld_Output Cc_Tokenize
begin

text \<open>
  Verification of slopix, an operating system for AArch64: its kernel (\<^verbatim>\<open>src/kernel\<close>), parts of its C library (\<^verbatim>\<open>src/libc\<close>) and
  of its toolchain (\<^verbatim>\<open>src/cmd/as\<close>, \<^verbatim>\<open>src/cmd/cc\<close>, \<^verbatim>\<open>src/cmd/ld\<close>). The definitions are a shallow embedding of the C code, one
  definition per function, and the theorems are about these definitions.

  \<^bold>\<open>The program.\<close> The kernel runs one processor. Memory comes from the page allocator (\<^verbatim>\<open>pmm.c\<close>); page tables
  (\<^verbatim>\<open>vmm.c\<close>) live in its pages. Processes (\<^verbatim>\<open>proc.c\<close>) sleep on channels; locks (\<^verbatim>\<open>sync.c\<close>), pipes (\<^verbatim>\<open>pipe.c\<close>) and the console are built on
  them. The disk is reached through the virtio driver (\<^verbatim>\<open>virtio.c\<close>), above it the buffer cache (\<^verbatim>\<open>bio.c\<close>), the file system (\<^verbatim>\<open>fs.c\<close>), open files
  (\<^verbatim>\<open>file.c\<close>) and the program loader (\<^verbatim>\<open>elf.c\<close>). System calls (\<^verbatim>\<open>syscall.c\<close>) put all of it together. User programs call the kernel through the
  C library. The compiler turns C into assembly, the assembler encodes it into object files, the linker joins these into the executables that the loader of
  the kernel reads.

  \<^bold>\<open>Conventions.\<close> Integers have their C width (\<^theory_text>\<open>type_synonym\<close>s \<open>u8\<close> to \<open>u64\<close> of \<open>Prelude\<close>); where the code uses \<^verbatim>\<open>int\<close> without
  overflow it is an integer or a natural number. State is a record that each layer extends: \<open>pmm\<close>, \<open>kst\<close> (processes), \<open>sync_st\<close>, pipes, \<open>virtio_st\<close>,
  \<open>bio_st\<close>, \<open>fs_st\<close>, \<open>con_st\<close>, \<open>file_st\<close>, so a function of a lower layer applies to every state above it. Pointers to objects in tables are indices; where
  aliasing matters (the free list, page tables, the heap of \<^verbatim>\<open>malloc\<close>, string routines) there is a memory of words or bytes and a pointer is an
  address. A function that always returns is a total function. The result \<open>None\<close> stands for what the code does not come back from: a panic, an exit of a
  command after an error message, a call that waits forever or a read outside an object; error numbers of the kernel are returned values. Loops that need not end
  are \<open>partial_function (option)\<close>, and the theorems prove that they return. No loop has an artificial bound.
  When a process sleeps, the rest of the system runs; what it does is a schedule, a parameter: a list of the functions on the state applied before the process
  runs again. Hardware is a parameter too (the replies of the disk, the bytes that arrive at the serial port, the clock).

  \<^bold>\<open>The kernel.\<close>
  \<^item> \<open>Prelude\<close>: types, error numbers, little-endian access, lemmas on words, alignment, options and lists.
  \<^item> \<open>Pmm\<close>: \<^verbatim>\<open>pmm.c\<close>. The abstraction is the sorted list of free pages; every operation implements its counterpart on the list, and a page is never handed
    out twice. The interface is the locale \<open>page_allocator\<close>, with the interpretation \<open>kpages\<close>.
  \<^item> \<open>Vmm\<close>: \<^verbatim>\<open>vmm.c\<close>. A page table denotes a partial function (\<open>pt_lookup\<close>); mapping, unmapping, what \<^verbatim>\<open>vmm_validate\<close> accepts, copying strings from user memory.
    The locale \<open>address_space\<close> is interpreted for the tables of the kernel (\<open>kvm\<close>).
  \<^item> \<open>Proc\<close>, \<open>Sync\<close>, \<open>Pipe\<close>: \<^verbatim>\<open>proc.c\<close>, \<^verbatim>\<open>timer.c\<close>, \<^verbatim>\<open>sync.c\<close>, \<^verbatim>\<open>pipe.c\<close>. Allocation of processes, delivery of signals, timed sleep; mutual exclusion; pipes are
    queues of bytes although their counters wrap. The locale \<open>sleep_channel\<close> states that nobody sleeps on a channel whose condition holds; locks and both ends of a
    pipe are interpretations of it, so no wake-up is lost.
  \<^item> \<open>Kstring\<close>, \<open>Kprintf\<close>, \<open>Console\<close>: \<^verbatim>\<open>string.c\<close>, \<^verbatim>\<open>kprintf.c\<close>, \<^verbatim>\<open>uart.c\<close>, \<^verbatim>\<open>console.c\<close>. Formatted output never leaves its buffer; the interrupt handler of the serial
    port keeps the bytes in order, handles the interrupt keys and drops input only when its buffer is full.
  \<^item> \<open>Virtio\<close>, \<open>Bio\<close>: \<^verbatim>\<open>virtio.c\<close> (the request path), \<^verbatim>\<open>bio.c\<close>. The cache does not show: reads return the block, writes replace it (locale \<open>block_store\<close>,
    interpretation \<open>cache\<close>).
  \<^item> \<open>Fs\<close>, \<open>Fs_Inode\<close>, \<open>Fs_Dir\<close> hold the code of \<^verbatim>\<open>fs.c\<close>; \<open>Fs_Layout\<close> has the round trips of its on-disk structures, \<open>Fs_Blocks\<close> the bitmap and inodes over an
    array of blocks, \<open>Fs_Content\<close> shows that \<^verbatim>\<open>fs_readi\<close> and \<^verbatim>\<open>fs_writei\<close> implement a file as an array of bytes.
  \<^item> \<open>File\<close>, \<open>Filetable\<close>: \<^verbatim>\<open>file.c\<close>, \<^verbatim>\<open>disk.c\<close>, \<^verbatim>\<open>pipealloc\<close>, the end of a process; block devices at any offset, the undoing of a failed \<^verbatim>\<open>pipealloc\<close>.
  \<^item> \<open>Elf\<close>, \<open>Bootinfo\<close>: \<^verbatim>\<open>elf.c\<close>; the device tree, the initial archive with its writer \<^verbatim>\<open>mkramfs\<close>, the command line.
  \<^item> \<open>Syscall_Proc\<close>, \<open>Syscall_File\<close>, \<open>Syscall\<close>: every handler of \<^verbatim>\<open>syscall.c\<close>, the dispatcher, \<^verbatim>\<open>exception.c\<close>, \<^verbatim>\<open>init.c\<close>, \<^verbatim>\<open>psci.c\<close>.

  \<^bold>\<open>The C library.\<close>
  \<^item> \<open>Libc_Malloc\<close>: the free list in the words of the heap. Blocks in use are disjoint, within the heap and keep their contents.
  \<^item> \<open>Libc_Sort\<close>: \<^verbatim>\<open>qsort\<close> returns a sorted permutation and its stack of 64 ranges never overflows, for every comparison that meets the locale \<open>comparison\<close>; the
    interpretation is the comparison of \<^verbatim>\<open>ls\<close>.
  \<^item> \<open>Libc_Ctype\<close>, \<open>Libc_Number\<close>, \<open>Libc_Time\<close>, \<open>Libc_Stdlib\<close>: characters, numbers, calendar, and the functions that meet the kernel again: what \<^verbatim>\<open>waitpid\<close>
    reports is what the process did, what \<^verbatim>\<open>execvp\<close> passes is what the new program finds.

  \<^bold>\<open>The toolchain.\<close>
  \<^item> \<open>As_Encode\<close>, \<open>As_Logical\<close>: every encoder of \<^verbatim>\<open>as/encode.c\<close>; logical immediates against the expansion of the processor.
    \<open>As_Object\<close>: sections, symbols, relocations, literals and \<^verbatim>\<open>elf_write\<close>; the linker reads from the object file what the assembler put in. The file is
    assumed to stay below \<open>2 ^ 31\<close> bytes, the range of its \<^verbatim>\<open>int\<close> counts.
  \<^item> \<open>Ld_Object\<close>, \<open>Ld_Symbol\<close>: reading of objects, the symbol table, extraction from archives. \<open>Ld_Archive\<close>: the archiver \<^verbatim>\<open>ar\<close> and the linker's reader of
    archives, which finds each member and each exported name again; its loop may not end on other files, so it is a partial function. \<open>Ld_Section\<close>: merging of sections and addresses; every symbol gets the address at
    which the image has its definition. \<open>Ld_Reloc\<close>, \<open>Ld_Link\<close>: patching of one instruction, all relocations, the order of the steps in \<^verbatim>\<open>main\<close>; every patched place stands for its symbol.
    \<open>Ld_Output\<close>: the files written, and that the loader of the kernel finds in them what the linker has laid out.
  \<^item> \<open>Cc_Hashmap\<close>, \<open>Cc_Unicode\<close>, \<open>Cc_Tokenize\<close>: the hash table, UTF-8, and the tokenizer of the compiler. \<open>Map_Interface\<close> has the locale \<open>key_table\<close>, the contract of
    hash tables; the compiler's and the linker's tables are its interpretations (\<open>hm\<close>, \<open>lt\<close>). The compiler's table is proved for at most \<open>2 ^ 22\<close> used
    buckets, so that the products of its \<^verbatim>\<open>int\<close> arithmetic do not overflow.

  \<^bold>\<open>Not modelled.\<close> Register access that computes nothing (interrupt controller, clock, set-up of serial port and disk), assembly code, the boot loader, which
  polls the disk before the kernel runs, and the text of messages. Interrupts that arrive between two instructions of the kernel: system calls run with
  interrupts masked, so the model switches only where the code sleeps. Stream input and output of the C library, the lexer and parser of the assembler, the preprocessor,
  parser and code generator of the compiler (which need a semantics of C), the shell, the editor and the small commands.
\<close>

end
